(* ===== verification/Prelude.thy ===== *)
theory Prelude
  imports Main "HOL-Library.Word" "HOL-Library.Monad_Syntax" "HOL-Library.Code_Target_Numeral"
begin

text \<open>
  Shared vocabulary of the development: bytes and C-style byte strings, the C type
  \<open>size_t\<close> as natural numbers with the wrap-around written out, little-endian encoding of
  header fields, the overwrite of a range of a list (what a store into an array does), and the
  notion of a transition system with its reachable states.  Nothing here models code of the
  repository; every component theory builds on these facts.
\<close>

unbundle bit_operations_syntax

named_theorems mem_simps \<open>rewrite rules for loads and stores\<close>
named_theorems overwrite_simps \<open>rewrite rules for overwriting a range of a list\<close>
named_theorems size_simps \<open>rewrite rules for size_t arithmetic in range\<close>

type_synonym byte = "8 word"

subsection \<open>Bytes and characters\<close>

text \<open>A C string literal as bytes, without and with its terminating NUL.\<close>

definition bytes :: "string \<Rightarrow> byte list" where
  "bytes cs = map of_char cs"

definition cstr :: "string \<Rightarrow> byte list" where
  "cstr cs = bytes cs @ [0]"

lemma unat_byte [simp]: "unat (b :: byte) < 256"
  using unsigned_less [of b, where 'a = nat] by simp

lemma length_bytes [simp]: "length (bytes cs) = length cs"
  by (simp add: bytes_def)

subsection \<open>The C type size\_t on a 64-bit target\<close>

definition size_add :: "nat \<Rightarrow> nat \<Rightarrow> nat" where
  "size_add a b = (a + b) mod 2 ^ 64"

definition size_mul :: "nat \<Rightarrow> nat \<Rightarrow> nat" where
  "size_mul a b = (a * b) mod 2 ^ 64"

definition size_sub :: "nat \<Rightarrow> nat \<Rightarrow> nat" where
  "size_sub a b = nat ((int a - int b) mod 2 ^ 64)"

lemma size_add_exact [size_simps]: "a + b < 2 ^ 64 \<Longrightarrow> size_add a b = a + b"
  by (simp add: size_add_def)

lemma size_mul_exact [size_simps]: "a * b < 2 ^ 64 \<Longrightarrow> size_mul a b = a * b"
  by (simp add: size_mul_def)

lemma size_sub_exact [size_simps]: "b \<le> a \<Longrightarrow> a < 2 ^ 64 \<Longrightarrow> size_sub a b = a - b"
  by (simp add: size_sub_def of_nat_diff [symmetric] nat_mod_as_int zmod_int del: of_nat_diff)

lemma size_add_bound: "size_add a b < 2 ^ 64"
  by (simp add: size_add_def)

subsection \<open>Little-endian fields\<close>

primrec le_bytes :: "nat \<Rightarrow> nat \<Rightarrow> byte list" where
  "le_bytes 0 x = []"
| "le_bytes (Suc n) x = of_nat x # le_bytes n (x div 256)"

primrec le_val :: "byte list \<Rightarrow> nat" where
  "le_val [] = 0"
| "le_val (b # bs) = unat b + 256 * le_val bs"

lemma length_le_bytes [simp]: "length (le_bytes n x) = n"
  by (induction n arbitrary: x) auto

lemma le_val_le_bytes: "le_val (le_bytes n x) = x mod 256 ^ n"
proof (induction n arbitrary: x)
  case 0
  then show ?case by simp
next
  case (Suc n)
  have "x mod (256 * 256 ^ n) = 256 * (x div 256 mod 256 ^ n) + x mod 256"
    by (rule mod_mult2_eq)
  then show ?case using Suc by (simp add: unat_of_nat)
qed

lemma le_val_le_bytes_exact [simp]: "x < 256 ^ n \<Longrightarrow> le_val (le_bytes n x) = x"
  by (simp add: le_val_le_bytes)

subsection \<open>Overwriting a range of a list\<close>

definition overwrite :: "'a list \<Rightarrow> nat \<Rightarrow> 'a list \<Rightarrow> 'a list" where
  "overwrite xs i ys = take i xs @ ys @ drop (i + length ys) xs"

lemma length_overwrite [simp]:
  "i + length ys \<le> length xs \<Longrightarrow> length (overwrite xs i ys) = length xs"
  by (simp add: overwrite_def)

lemma overwrite_Nil [simp]: "overwrite xs i [] = xs"
  by (simp add: overwrite_def)

lemma overwrite_append_right [overwrite_simps]:
  "length hs \<le> i \<Longrightarrow> overwrite (hs @ xs) i ys = hs @ overwrite xs (i - length hs) ys"
  by (simp add: overwrite_def)

lemma overwrite_append_left [overwrite_simps]:
  "i + length ys \<le> length hs \<Longrightarrow> overwrite (hs @ xs) i ys = overwrite hs i ys @ xs"
  by (simp add: overwrite_def)

lemma overwrite_single: "i < length xs \<Longrightarrow> overwrite xs i [y] = xs[i := y]"
  by (simp add: overwrite_def upd_conv_take_nth_drop)

lemma take_overwrite_before [overwrite_simps]:
  "n \<le> i \<Longrightarrow> i \<le> length xs \<Longrightarrow> take n (overwrite xs i ys) = take n xs"
  by (simp add: overwrite_def min_absorb1)

lemma take_overwrite_all [overwrite_simps]:
  "i + length ys \<le> length xs \<Longrightarrow>
   take (i + length ys) (overwrite xs i ys) = take i xs @ ys"
  by (simp add: overwrite_def)

lemma nth_overwrite_after [overwrite_simps]:
  "i + length ys \<le> k \<Longrightarrow> k < length xs \<Longrightarrow> overwrite xs i ys ! k = xs ! k"
  by (auto simp: overwrite_def nth_append)

lemma nth_overwrite_in [overwrite_simps]:
  "i \<le> k \<Longrightarrow> k < i + length ys \<Longrightarrow> i \<le> length xs \<Longrightarrow> overwrite xs i ys ! k = ys ! (k - i)"
  by (auto simp: overwrite_def nth_append)

subsection \<open>Transition systems\<close>

text \<open>Removing an entry of an array by putting the last one in its place.\<close>

lemma distinct_replace:
  assumes "distinct (take (n + 1) xs)" "i \<le> n" "n < length xs"
  shows "distinct (take n (xs[i := xs ! n]))" "set (take n (xs[i := xs ! n])) = set (take (n + 1) xs) - {xs ! i}"
proof -
  have x: "take (n + 1) xs = take n xs @ [xs ! n]" using assms(3) by (simp add: take_Suc_conv_app_nth)
  have t: "take n (xs[i := xs ! n]) = (take n xs)[i := xs ! n]" by (simp add: take_update_swap)
  have d: "distinct (take n xs)" "xs ! n \<notin> set (take n xs)" using assms(1) unfolding x by auto
  show "distinct (take n (xs[i := xs ! n]))" unfolding t using d by (intro distinct_list_update) auto
  show "set (take n (xs[i := xs ! n])) = set (take (n + 1) xs) - {xs ! i}"
  proof (cases "i = n")
    case True
    then have "(take n xs)[i := xs ! n] = take n xs" by (simp add: list_update_beyond)
    then show ?thesis using d True unfolding t x by auto
  next
    case False
    then have i: "i < length (take n xs)" "take n xs ! i = xs ! i" using assms(2,3) by auto
    have "xs ! i \<in> set (take n xs)" using nth_mem [OF i(1)] unfolding i(2) .
    then have ne: "xs ! i \<noteq> xs ! n" using d(2) by metis
    have "set ((take n xs)[i := xs ! n]) = insert (xs ! n) (set (take n xs) - {xs ! i})"
      using set_update_distinct [OF d(1) i(1), of "xs ! n"] unfolding i(2) .
    moreover have "set (take n xs @ [xs ! n]) - {xs ! i} = insert (xs ! n) (set (take n xs) - {xs ! i})" using ne by auto
    ultimately show ?thesis unfolding t x by (rule trans [OF _ sym])
  qed
qed

text \<open>
  The reachable states of a step relation, and the interface through which every concurrent
  component proves its safety property: an invariant that holds initially and is kept by every
  step holds in every reachable state.
\<close>

inductive reachable :: "('s \<Rightarrow> bool) \<Rightarrow> ('s \<Rightarrow> 's \<Rightarrow> bool) \<Rightarrow> 's \<Rightarrow> bool"
  for init step where
  reach_init: "init s \<Longrightarrow> reachable init step s"
| reach_step: "reachable init step s \<Longrightarrow> step s t \<Longrightarrow> reachable init step t"

text \<open>The runs of a program given as a list of actions, of which each is possible or not.\<close>

fun run_actions :: "('a \<Rightarrow> 's \<Rightarrow> 's option) \<Rightarrow> 'a list \<Rightarrow> 's \<Rightarrow> 's option" where
  "run_actions step [] s = Some s"
| "run_actions step (a # as) s = do { s \<leftarrow> step a s; run_actions step as s }"

lemma run_actions_inv:
  assumes "\<And>a s t. P s \<Longrightarrow> step a s = Some t \<Longrightarrow> P t"
  shows "run_actions step as s = Some t \<Longrightarrow> P s \<Longrightarrow> P t"
  by (induction as arbitrary: s) (auto split: Option.bind_splits dest: assms)

locale invariant_system =
  fixes init :: "'s \<Rightarrow> bool"
    and step :: "'s \<Rightarrow> 's \<Rightarrow> bool"
    and inv :: "'s \<Rightarrow> bool"
  assumes inv_init: "init s \<Longrightarrow> inv s"
    and inv_step: "inv s \<Longrightarrow> step s t \<Longrightarrow> inv t"
begin

lemma reachable_inv: "reachable init step s \<Longrightarrow> inv s"
  by (induction rule: reachable.induct) (auto intro: inv_init inv_step)

end

end
