(* ===== verification/CMem.thy ===== *)
theory CMem
  imports Prelude
begin

text \<open>
  The C memory the SDS library works on: heap blocks of bytes, pointers as a block and an
  offset, the allocator (\<open>sdsalloc.h\<close> maps \<open>s_malloc\<close>, \<open>s_realloc\<close>, \<open>s_free\<close> to
  the C library), and the C library's memory and string functions.  Every operation returns an
  option: \<open>None\<close> is an execution C leaves undefined or that aborts (an access outside a live
  block, an invalid \<open>free\<close>, a failed \<open>assert\<close>), so a theorem that an operation returns
  \<open>Some\<close> is a memory-safety theorem.  The allocator is a parameter: the state carries an
  arbitrary policy that decides which request succeeds and arbitrary initial contents of a
  fresh block.
\<close>

subsection \<open>Blocks and pointers\<close>

text \<open>
  \<open>Str bs i\<close> points at offset \<open>i\<close> of an object the library only reads: a string
  literal or a local buffer; \<open>Ptr b i\<close> points into heap block \<open>b\<close>.
\<close>

datatype ptr = Null | Str "byte list" int | Ptr nat int

record heap =
  mem :: "nat \<Rightarrow> byte list option"
  nxt :: nat
  can_alloc :: "nat \<Rightarrow> nat \<Rightarrow> bool"
  junk :: "nat \<Rightarrow> nat \<Rightarrow> byte"

fun padd :: "ptr \<Rightarrow> int \<Rightarrow> ptr" where
  "padd Null i = Null"
| "padd (Str bs j) i = Str bs (j + i)"
| "padd (Ptr b j) i = Ptr b (j + i)"

fun block_of :: "ptr \<Rightarrow> nat option" where
  "block_of (Ptr b i) = Some b"
| "block_of p = None"

fun contents :: "heap \<Rightarrow> ptr \<Rightarrow> (byte list \<times> int) option" where
  "contents h Null = None"
| "contents h (Str bs i) = Some (bs, i)"
| "contents h (Ptr b i) = (case mem h b of None \<Rightarrow> None | Some bs \<Rightarrow> Some (bs, i))"

definition upd :: "heap \<Rightarrow> nat \<Rightarrow> byte list \<Rightarrow> heap" where
  "upd h b bs = h\<lparr>mem := (mem h)(b \<mapsto> bs)\<rparr>"

subsection \<open>Loads and stores\<close>

definition load_bytes :: "heap \<Rightarrow> ptr \<Rightarrow> nat \<Rightarrow> byte list option" where
  "load_bytes h p n =
     (if n = 0 then Some []
      else do {
        (bs, i) \<leftarrow> contents h p;
        if 0 \<le> i \<and> nat i + n \<le> length bs then Some (take n (drop (nat i) bs)) else None
      })"

definition load :: "heap \<Rightarrow> ptr \<Rightarrow> byte option" where
  "load h p = do { xs \<leftarrow> load_bytes h p 1; Some (hd xs) }"

definition store_bytes :: "heap \<Rightarrow> ptr \<Rightarrow> byte list \<Rightarrow> heap option" where
  "store_bytes h p xs =
     (if xs = [] then Some h
      else case p of
        Ptr b i \<Rightarrow> do {
          bs \<leftarrow> mem h b;
          if 0 \<le> i \<and> nat i + length xs \<le> length bs
          then Some (upd h b (overwrite bs (nat i) xs)) else None
        }
      | _ \<Rightarrow> None)"

definition store :: "heap \<Rightarrow> ptr \<Rightarrow> byte \<Rightarrow> heap option" where
  "store h p x = store_bytes h p [x]"

definition load_le :: "heap \<Rightarrow> ptr \<Rightarrow> nat \<Rightarrow> nat option" where
  "load_le h p w = do { xs \<leftarrow> load_bytes h p w; Some (le_val xs) }"

definition store_le :: "heap \<Rightarrow> ptr \<Rightarrow> nat \<Rightarrow> nat \<Rightarrow> heap option" where
  "store_le h p w x = store_bytes h p (le_bytes w x)"

subsection \<open>The allocator\<close>

definition s_malloc :: "heap \<Rightarrow> nat \<Rightarrow> ptr \<times> heap" where
  "s_malloc h sz =
     (let b = nxt h; h1 = h\<lparr>nxt := Suc b\<rparr> in
      if can_alloc h b sz
      then (Ptr b 0, upd h1 b (map (junk h b) [0..<sz]))
      else (Null, h1))"

definition s_free :: "heap \<Rightarrow> ptr \<Rightarrow> heap option" where
  "s_free h p =
     (case p of
        Null \<Rightarrow> Some h
      | Ptr b i \<Rightarrow> do {
          bs \<leftarrow> mem h b;
          if i = 0 then Some (h\<lparr>mem := (mem h)(b := None)\<rparr>) else None
        }
      | Str bs i \<Rightarrow> None)"

definition s_realloc :: "heap \<Rightarrow> ptr \<Rightarrow> nat \<Rightarrow> (ptr \<times> heap) option" where
  "s_realloc h p sz =
     (case p of
        Null \<Rightarrow> Some (s_malloc h sz)
      | Ptr b i \<Rightarrow> do {
          bs \<leftarrow> mem h b;
          if i \<noteq> 0 then None
          else (case s_malloc h sz of
              (Null, h1) \<Rightarrow> Some (Null, h1)
            | (q, h1) \<Rightarrow> do {
                h2 \<leftarrow> store_bytes h1 q (take sz bs);
                h3 \<leftarrow> s_free h2 p;
                Some (q, h3)
              })
        }
      | Str bs i \<Rightarrow> None)"

subsection \<open>Memory and string functions of the C library\<close>

fun overlaps :: "ptr \<Rightarrow> ptr \<Rightarrow> nat \<Rightarrow> bool" where
  "overlaps (Ptr b i) (Ptr c j) n = (b = c \<and> i < j + int n \<and> j < i + int n)"
| "overlaps p q n = False"

definition memcpy :: "heap \<Rightarrow> ptr \<Rightarrow> ptr \<Rightarrow> nat \<Rightarrow> heap option" where
  "memcpy h d s n =
     (if overlaps d s n then None
      else do { xs \<leftarrow> load_bytes h s n; store_bytes h d xs })"

definition memmove :: "heap \<Rightarrow> ptr \<Rightarrow> ptr \<Rightarrow> nat \<Rightarrow> heap option" where
  "memmove h d s n = do { xs \<leftarrow> load_bytes h s n; store_bytes h d xs }"

definition memset :: "heap \<Rightarrow> ptr \<Rightarrow> byte \<Rightarrow> nat \<Rightarrow> heap option" where
  "memset h d c n = store_bytes h d (replicate n c)"

fun first_diff :: "byte list \<Rightarrow> byte list \<Rightarrow> int" where
  "first_diff (x # xs) (y # ys) =
     (if x = y then first_diff xs ys else int (unat x) - int (unat y))"
| "first_diff _ _ = 0"

definition memcmp :: "heap \<Rightarrow> ptr \<Rightarrow> ptr \<Rightarrow> nat \<Rightarrow> int option" where
  "memcmp h p q n =
     do { xs \<leftarrow> load_bytes h p n; ys \<leftarrow> load_bytes h q n; Some (first_diff xs ys) }"

fun nul_index :: "byte list \<Rightarrow> nat option" where
  "nul_index [] = None"
| "nul_index (x # xs) = (if x = 0 then Some 0 else map_option Suc (nul_index xs))"

definition strlen :: "heap \<Rightarrow> ptr \<Rightarrow> nat option" where
  "strlen h p =
     do { (bs, i) \<leftarrow> contents h p; if 0 \<le> i then nul_index (drop (nat i) bs) else None }"

definition strchr_found :: "heap \<Rightarrow> ptr \<Rightarrow> byte \<Rightarrow> bool option" where
  "strchr_found h p c =
     do { n \<leftarrow> strlen h p; xs \<leftarrow> load_bytes h p n; Some (c \<in> set xs \<or> c = 0) }"

subsection \<open>Rewrite rules\<close>

lemma padd_padd [simp]: "padd (padd p i) j = padd p (i + j)"
  by (cases p) (simp_all add: algebra_simps)

lemma padd_0 [simp]: "padd p 0 = p"
  by (cases p) simp_all

lemma padd_eq_Null [simp]: "padd p i = Null \<longleftrightarrow> p = Null"
  by (cases p) simp_all

lemma block_of_padd [simp]: "block_of (padd p i) = block_of p"
  by (cases p) simp_all

lemma upd_upd [simp]: "upd (upd h b xs) b ys = upd h b ys"
  by (simp add: upd_def)

lemma mem_upd [simp]: "mem (upd h b xs) = (mem h)(b \<mapsto> xs)"
  by (simp add: upd_def)

lemma nxt_upd [simp]: "nxt (upd h b xs) = nxt h"
  by (simp add: upd_def)

lemma can_alloc_upd [simp]: "can_alloc (upd h b xs) = can_alloc h"
  by (simp add: upd_def)

lemma junk_upd [simp]: "junk (upd h b xs) = junk h"
  by (simp add: upd_def)

lemma upd_same: "mem h b = Some xs \<Longrightarrow> upd h b xs = h"
  by (simp add: upd_def map_upd_triv)

lemma load_bytes_0 [simp]: "load_bytes h p 0 = Some []"
  by (simp add: load_bytes_def)

lemma store_bytes_Nil [simp]: "store_bytes h p [] = Some h"
  by (simp add: store_bytes_def)

lemma length_load_bytes: "load_bytes h p n = Some xs \<Longrightarrow> length xs = n"
  by (auto simp: load_bytes_def bind_eq_Some_conv split: if_splits)

lemma load_bytes_cong:
  "contents h p = contents h' p \<Longrightarrow> load_bytes h p n = load_bytes h' p n"
  by (simp add: load_bytes_def)

lemma contents_upd_other [simp]: "block_of p \<noteq> Some b \<Longrightarrow> contents (upd h b xs) p = contents h p"
  by (cases p) auto

lemma load_bytes_upd_other [mem_simps]:
  "block_of p \<noteq> Some b \<Longrightarrow> load_bytes (upd h b xs) p n = load_bytes h p n"
  by (simp add: load_bytes_def)

lemma load_bytes_block:
  "mem h b = Some bs \<Longrightarrow> i + n \<le> length bs \<Longrightarrow>
   load_bytes h (Ptr b (int i)) n = Some (take n (drop i bs))"
  by (simp add: load_bytes_def)

lemma load_block: "mem h b = Some bs \<Longrightarrow> i < length bs \<Longrightarrow> load h (Ptr b (int i)) = Some (bs ! i)"
  by (simp add: load_def load_bytes_block take_Suc_conv_app_nth hd_drop_conv_nth)

lemma store_bytes_block:
  "mem h b = Some bs \<Longrightarrow> i + length xs \<le> length bs \<Longrightarrow>
   store_bytes h (Ptr b (int i)) xs = Some (upd h b (overwrite bs i xs))"
  by (cases "xs = []") (auto simp: store_bytes_def upd_same)

lemma store_block:
  "mem h b = Some bs \<Longrightarrow> i < length bs \<Longrightarrow>
   store h (Ptr b (int i)) x = Some (upd h b (bs[i := x]))"
  by (simp add: store_def store_bytes_block overwrite_single)

text \<open>The interface of a store: what was written is read back, other blocks keep their bytes.\<close>

lemma load_after_store:
  assumes "store_bytes h p xs = Some h'"
  shows "load_bytes h' p (length xs) = Some xs"
proof (cases "xs = []")
  case False
  with assms obtain b i bs where "p = Ptr b i" "mem h b = Some bs" "0 \<le> i"
    "nat i + length xs \<le> length bs" "h' = upd h b (overwrite bs (nat i) xs)"
    by (auto simp: store_bytes_def bind_eq_Some_conv split: ptr.splits if_splits)
  with False show ?thesis
    by (simp add: load_bytes_def) (simp add: overwrite_def)
qed simp

lemma store_other:
  "store_bytes h p xs = Some h' \<Longrightarrow> block_of p \<noteq> block_of q \<or> block_of q = None \<Longrightarrow>
   contents h' q = contents h q"
  by (cases q) (auto simp: store_bytes_def bind_eq_Some_conv split: ptr.splits if_splits)

lemma first_diff_eq_0: "length xs = length ys \<Longrightarrow> first_diff xs ys = 0 \<longleftrightarrow> xs = ys"
  by (induction xs ys rule: first_diff.induct) (auto simp: word_uint_eq_iff)

end
