(* ===== verification/Sds_Header.thy ===== *)
theory Sds_Header
  imports CMem
begin

text \<open>
  The header of an SDS string (\<open>redis-learnning/sds/sds.h\<close>, and \<open>sdsHdrSize\<close> and
  \<open>sdsReqType\<close> of \<open>sds.c\<close>).  An sds pointer points at the string's bytes; the packed
  header in front of it ends with a flags byte at offset \<open>-1\<close> that selects one of five
  layouts.  The accessors are translated over the byte memory; \<open>sds_at\<close> says that a pointer
  carries a header and a buffer, and the lemmas show that the accessors read and write exactly
  the fields of the abstract string.
\<close>

named_theorems sds_simps \<open>what the accessors do on a well-laid-out string\<close>

subsection \<open>Constants\<close>

abbreviation (input) SDS_MAX_PREALLOC :: nat where "SDS_MAX_PREALLOC \<equiv> 1024 * 1024"
abbreviation (input) SDS_TYPE_5 :: byte where "SDS_TYPE_5 \<equiv> 0"
abbreviation (input) SDS_TYPE_8 :: byte where "SDS_TYPE_8 \<equiv> 1"
abbreviation (input) SDS_TYPE_16 :: byte where "SDS_TYPE_16 \<equiv> 2"
abbreviation (input) SDS_TYPE_32 :: byte where "SDS_TYPE_32 \<equiv> 3"
abbreviation (input) SDS_TYPE_64 :: byte where "SDS_TYPE_64 \<equiv> 4"
abbreviation (input) SDS_TYPE_MASK :: byte where "SDS_TYPE_MASK \<equiv> 7"
abbreviation (input) SDS_TYPE_BITS :: nat where "SDS_TYPE_BITS \<equiv> 3"

definition SDS_TYPE_5_LEN :: "byte \<Rightarrow> byte" where
  "SDS_TYPE_5_LEN f = drop_bit SDS_TYPE_BITS f"

definition sdsHdrSize :: "byte \<Rightarrow> nat" where
  "sdsHdrSize type =
     (let t = type AND SDS_TYPE_MASK in
      if t = SDS_TYPE_5 then 1
      else if t = SDS_TYPE_8 then 3
      else if t = SDS_TYPE_16 then 5
      else if t = SDS_TYPE_32 then 9
      else if t = SDS_TYPE_64 then 17
      else 0)"

definition sdsReqType :: "nat \<Rightarrow> byte" where
  "sdsReqType string_size =
     (if string_size < 2 ^ 5 then SDS_TYPE_5
      else if string_size < 2 ^ 8 then SDS_TYPE_8
      else if string_size < 2 ^ 16 then SDS_TYPE_16
      else if string_size < 2 ^ 32 then SDS_TYPE_32
      else SDS_TYPE_64)"

subsection \<open>The header fields\<close>

text \<open>
  The packed structs \<open>sdshdr8\<close> to \<open>sdshdr64\<close> hold \<open>len\<close> and \<open>alloc\<close>, each of
  \<open>w\<close> bytes (1, 2, 4 or 8), and the flags byte: \<open>len\<close> is at \<open>s - (2w + 1)\<close> and
  \<open>alloc\<close> at \<open>s - (w + 1)\<close>.
\<close>

definition hdr_len :: "heap \<Rightarrow> ptr \<Rightarrow> nat \<Rightarrow> nat option" where
  "hdr_len h s w = load_le h (padd s (- (2 * int w + 1))) w"

definition hdr_alloc :: "heap \<Rightarrow> ptr \<Rightarrow> nat \<Rightarrow> nat option" where
  "hdr_alloc h s w = load_le h (padd s (- (int w + 1))) w"

definition set_hdr_len :: "heap \<Rightarrow> ptr \<Rightarrow> nat \<Rightarrow> nat \<Rightarrow> heap option" where
  "set_hdr_len h s w x = store_le h (padd s (- (2 * int w + 1))) w x"

definition set_hdr_alloc :: "heap \<Rightarrow> ptr \<Rightarrow> nat \<Rightarrow> nat \<Rightarrow> heap option" where
  "set_hdr_alloc h s w x = store_le h (padd s (- (int w + 1))) w x"

definition sdslen :: "heap \<Rightarrow> ptr \<Rightarrow> nat option" where
  "sdslen h s = do {
     flags \<leftarrow> load h (padd s (-1));
     let t = flags AND SDS_TYPE_MASK;
     if t = SDS_TYPE_5 then Some (unat (SDS_TYPE_5_LEN flags))
     else if t = SDS_TYPE_8 then hdr_len h s 1
     else if t = SDS_TYPE_16 then hdr_len h s 2
     else if t = SDS_TYPE_32 then hdr_len h s 4
     else if t = SDS_TYPE_64 then hdr_len h s 8
     else Some 0
   }"

text \<open>
  The difference \<open>sh->alloc - sh->len\<close> is computed in \<open>int\<close> for the 8 and 16 bit
  fields and converted to \<open>size_t\<close>, and in unsigned arithmetic of the field's width for the
  others.
\<close>

definition hdr_diff :: "heap \<Rightarrow> ptr \<Rightarrow> nat \<Rightarrow> nat \<Rightarrow> nat option" where
  "hdr_diff h s w m = do {
     a \<leftarrow> hdr_alloc h s w;
     l \<leftarrow> hdr_len h s w;
     Some (nat ((int a - int l) mod 2 ^ m))
   }"

definition sdsavail :: "heap \<Rightarrow> ptr \<Rightarrow> nat option" where
  "sdsavail h s = do {
     flags \<leftarrow> load h (padd s (-1));
     let t = flags AND SDS_TYPE_MASK;
     if t = SDS_TYPE_5 then Some 0
     else if t = SDS_TYPE_8 then hdr_diff h s 1 64
     else if t = SDS_TYPE_16 then hdr_diff h s 2 64
     else if t = SDS_TYPE_32 then hdr_diff h s 4 32
     else if t = SDS_TYPE_64 then hdr_diff h s 8 64
     else Some 0
   }"

definition sdssetlen :: "heap \<Rightarrow> ptr \<Rightarrow> nat \<Rightarrow> heap option" where
  "sdssetlen h s newlen = do {
     flags \<leftarrow> load h (padd s (-1));
     let t = flags AND SDS_TYPE_MASK;
     if t = SDS_TYPE_5
     then store h (padd s (-1)) (SDS_TYPE_5 OR push_bit SDS_TYPE_BITS (of_nat newlen))
     else if t = SDS_TYPE_8 then set_hdr_len h s 1 newlen
     else if t = SDS_TYPE_16 then set_hdr_len h s 2 newlen
     else if t = SDS_TYPE_32 then set_hdr_len h s 4 newlen
     else if t = SDS_TYPE_64 then set_hdr_len h s 8 newlen
     else Some h
   }"

definition hdr_inc_len :: "heap \<Rightarrow> ptr \<Rightarrow> nat \<Rightarrow> nat \<Rightarrow> heap option" where
  "hdr_inc_len h s w inc = do { l \<leftarrow> hdr_len h s w; set_hdr_len h s w (l + inc) }"

definition sdsinclen :: "heap \<Rightarrow> ptr \<Rightarrow> nat \<Rightarrow> heap option" where
  "sdsinclen h s inc = do {
     flags \<leftarrow> load h (padd s (-1));
     let t = flags AND SDS_TYPE_MASK;
     if t = SDS_TYPE_5
     then (let newlen = SDS_TYPE_5_LEN flags + of_nat inc
           in store h (padd s (-1)) (SDS_TYPE_5 OR push_bit SDS_TYPE_BITS newlen))
     else if t = SDS_TYPE_8 then hdr_inc_len h s 1 inc
     else if t = SDS_TYPE_16 then hdr_inc_len h s 2 inc
     else if t = SDS_TYPE_32 then hdr_inc_len h s 4 inc
     else if t = SDS_TYPE_64 then hdr_inc_len h s 8 inc
     else Some h
   }"

definition sdsalloc :: "heap \<Rightarrow> ptr \<Rightarrow> nat option" where
  "sdsalloc h s = do {
     flags \<leftarrow> load h (padd s (-1));
     let t = flags AND SDS_TYPE_MASK;
     if t = SDS_TYPE_5 then Some (unat (SDS_TYPE_5_LEN flags))
     else if t = SDS_TYPE_8 then hdr_alloc h s 1
     else if t = SDS_TYPE_16 then hdr_alloc h s 2
     else if t = SDS_TYPE_32 then hdr_alloc h s 4
     else if t = SDS_TYPE_64 then hdr_alloc h s 8
     else Some 0
   }"

definition sdssetalloc :: "heap \<Rightarrow> ptr \<Rightarrow> nat \<Rightarrow> heap option" where
  "sdssetalloc h s newlen = do {
     flags \<leftarrow> load h (padd s (-1));
     let t = flags AND SDS_TYPE_MASK;
     if t = SDS_TYPE_5 then Some h
     else if t = SDS_TYPE_8 then set_hdr_alloc h s 1 newlen
     else if t = SDS_TYPE_16 then set_hdr_alloc h s 2 newlen
     else if t = SDS_TYPE_32 then set_hdr_alloc h s 4 newlen
     else if t = SDS_TYPE_64 then set_hdr_alloc h s 8 newlen
     else Some h
   }"

subsection \<open>The abstract string\<close>

record sds_obj =
  ty :: byte
  slen :: nat
  salloc :: nat
  sbuf :: "byte list"

definition hdr_width :: "byte \<Rightarrow> nat" where
  "hdr_width t = (if t = SDS_TYPE_8 then 1 else if t = SDS_TYPE_16 then 2
     else if t = SDS_TYPE_32 then 4 else 8)"

definition type_limit :: "byte \<Rightarrow> nat" where
  "type_limit t = (if t = SDS_TYPE_5 then 32 else 256 ^ hdr_width t)"

definition is_type :: "byte \<Rightarrow> bool" where
  "is_type t \<longleftrightarrow> t = SDS_TYPE_5 \<or> t = SDS_TYPE_8 \<or> t = SDS_TYPE_16 \<or> t = SDS_TYPE_32 \<or> t = SDS_TYPE_64"

definition flag_byte :: "byte \<Rightarrow> nat \<Rightarrow> byte" where
  "flag_byte t l = (if t = SDS_TYPE_5 then of_nat (8 * l) else t)"

definition hdr_bytes :: "byte \<Rightarrow> nat \<Rightarrow> nat \<Rightarrow> byte list" where
  "hdr_bytes t l a =
     (if t = SDS_TYPE_5 then [flag_byte t l]
      else le_bytes (hdr_width t) l @ le_bytes (hdr_width t) a @ [flag_byte t l])"

definition sds_bytes :: "sds_obj \<Rightarrow> byte list" where
  "sds_bytes A = hdr_bytes (ty A) (slen A) (salloc A) @ sbuf A"

definition sds_layout :: "sds_obj \<Rightarrow> bool" where
  "sds_layout A \<longleftrightarrow> is_type (ty A) \<and> slen A < type_limit (ty A) \<and> salloc A < type_limit (ty A)
     \<and> (ty A = SDS_TYPE_5 \<longrightarrow> salloc A = slen A)"

text \<open>
  \<open>sds_at h s b A\<close>: pointer \<open>s\<close> is an sds string whose block \<open>b\<close> holds the header and
  the buffer of \<open>A\<close>.  \<open>sds_wf\<close> is the library's invariant: the length fits in the
  allocation, the allocation and the terminator fit in the buffer (\<open>sds_room\<close>, all that
  holds while an operation is still appending), and the byte after the string is NUL.
\<close>

definition sds_at :: "heap \<Rightarrow> ptr \<Rightarrow> nat \<Rightarrow> sds_obj \<Rightarrow> bool" where
  "sds_at h s b A \<longleftrightarrow> s = Ptr b (int (sdsHdrSize (ty A))) \<and> mem h b = Some (sds_bytes A)
     \<and> sds_layout A"

definition sds_room :: "sds_obj \<Rightarrow> bool" where
  "sds_room A \<longleftrightarrow> slen A \<le> salloc A \<and> salloc A < length (sbuf A)"

definition sds_wf :: "sds_obj \<Rightarrow> bool" where
  "sds_wf A \<longleftrightarrow> slen A \<le> salloc A \<and> salloc A < length (sbuf A) \<and> sbuf A ! slen A = 0"

definition sds_val :: "sds_obj \<Rightarrow> byte list" where
  "sds_val A = take (slen A) (sbuf A)"

lemma sds_wf_room: "sds_wf A \<Longrightarrow> sds_room A"
  by (simp add: sds_wf_def sds_room_def)

subsection \<open>Facts on flags and header bytes\<close>

lemma is_type_cases:
  assumes "is_type t"
  obtains "t = SDS_TYPE_5" | "t = SDS_TYPE_8" | "t = SDS_TYPE_16" | "t = SDS_TYPE_32" | "t = SDS_TYPE_64"
  using assms by (auto simp: is_type_def)

lemma flag_byte_5: "flag_byte SDS_TYPE_5 l = push_bit 3 (of_nat l)"
  by (simp add: flag_byte_def push_bit_eq_mult)

lemma flag_byte_type [simp]:
  assumes "is_type t"
  shows "flag_byte t l AND 7 = t"
proof (cases "t = SDS_TYPE_5")
  case True
  have "push_bit 3 (of_nat l) AND (mask 3 :: byte) = 0"
    by (simp add: take_bit_eq_mask [symmetric] take_bit_push_bit)
  with True show ?thesis by (simp add: flag_byte_5 mask_eq_exp_minus_1)
next
  case False
  with assms show ?thesis by (auto simp: flag_byte_def is_type_def)
qed

lemma flag_byte_5_len [simp]:
  assumes "l < 32"
  shows "unat (SDS_TYPE_5_LEN (flag_byte SDS_TYPE_5 l)) = l"
proof -
  have "unat (of_nat (8 * l) :: byte) = 8 * l"
    using assms by (simp add: unat_of_nat del: of_nat_mult)
  then show ?thesis
    by (simp add: SDS_TYPE_5_LEN_def flag_byte_def drop_bit_eq_div unat_div del: of_nat_mult)
qed

lemma push_bit_flag: "SDS_TYPE_5 OR push_bit SDS_TYPE_BITS (of_nat l) = flag_byte SDS_TYPE_5 l"
  by (simp add: flag_byte_def push_bit_eq_mult)

lemma sdsHdrSize_simps [simp]:
  "sdsHdrSize SDS_TYPE_5 = 1" "sdsHdrSize SDS_TYPE_8 = 3" "sdsHdrSize SDS_TYPE_16 = 5"
  "sdsHdrSize SDS_TYPE_32 = 9" "sdsHdrSize SDS_TYPE_64 = 17"
  by (simp_all add: sdsHdrSize_def)

lemma sdsHdrSize_flag [simp]: "is_type t \<Longrightarrow> sdsHdrSize (flag_byte t l) = sdsHdrSize t"
proof -
  assume t: "is_type t"
  have "sdsHdrSize (flag_byte t l) = sdsHdrSize (flag_byte t l AND 7)"
    unfolding sdsHdrSize_def by (simp add: and.assoc)
  with t show ?thesis by simp
qed

lemma length_hdr_bytes [simp]: "is_type t \<Longrightarrow> length (hdr_bytes t l a) = sdsHdrSize t"
  by (erule is_type_cases) (simp_all add: hdr_bytes_def hdr_width_def)

lemma hdr_width_pos: "0 < hdr_width t"
  by (simp add: hdr_width_def)

lemma sdsHdrSize_width: "is_type t \<Longrightarrow> t \<noteq> SDS_TYPE_5 \<Longrightarrow> sdsHdrSize t = 2 * hdr_width t + 1"
  by (erule is_type_cases) (simp_all add: hdr_width_def)

lemma sdsReqType_is_type [simp]: "is_type (sdsReqType n)"
  by (simp add: sdsReqType_def is_type_def)

lemma sdsReqType_limit: "n < 2 ^ 64 \<Longrightarrow> n < type_limit (sdsReqType n)"
  by (simp add: sdsReqType_def type_limit_def hdr_width_def)

subsection \<open>What the accessors read and write\<close>

definition with_len :: "sds_obj \<Rightarrow> nat \<Rightarrow> sds_obj" where
  "with_len A x = (if ty A = SDS_TYPE_5 then A\<lparr>slen := x, salloc := x\<rparr> else A\<lparr>slen := x\<rparr>)"

definition with_alloc :: "sds_obj \<Rightarrow> nat \<Rightarrow> sds_obj" where
  "with_alloc A x = (if ty A = SDS_TYPE_5 then A else A\<lparr>salloc := x\<rparr>)"

lemma with_len_sel [simp]:
  "ty (with_len A x) = ty A" "slen (with_len A x) = x" "sbuf (with_len A x) = sbuf A"
  "salloc (with_len A x) = (if ty A = SDS_TYPE_5 then x else salloc A)"
  by (simp_all add: with_len_def)

lemma with_alloc_sel [simp]:
  "ty (with_alloc A x) = ty A" "slen (with_alloc A x) = slen A" "sbuf (with_alloc A x) = sbuf A"
  "salloc (with_alloc A x) = (if ty A = SDS_TYPE_5 then salloc A else x)"
  by (simp_all add: with_alloc_def)

lemma sds_atD:
  assumes "sds_at h s b A"
  shows "s = Ptr b (int (sdsHdrSize (ty A)))" "mem h b = Some (sds_bytes A)" "sds_layout A"
    "is_type (ty A)"
  using assms by (auto simp: sds_at_def sds_layout_def)

lemma sds_at_upd: "sds_at h s b A \<Longrightarrow> sds_layout B \<Longrightarrow> ty B = ty A \<Longrightarrow> sds_at (upd h b (sds_bytes B)) s b B"
  by (simp add: sds_at_def)

lemma sds_at_upd_other: "sds_at h s b A \<Longrightarrow> c \<noteq> b \<Longrightarrow> sds_at (upd h c xs) s b A"
  by (simp add: sds_at_def)

lemma sds_layout_with_len: "sds_layout A \<Longrightarrow> x < type_limit (ty A) \<Longrightarrow> sds_layout (with_len A x)"
  by (auto simp: sds_layout_def)

lemma sds_layout_with_alloc: "sds_layout A \<Longrightarrow> x < type_limit (ty A) \<Longrightarrow> sds_layout (with_alloc A x)"
  by (auto simp: sds_layout_def)

lemma sds_flags [sds_simps]:
  assumes "sds_at h s b A"
  shows "load h (padd s (-1)) = Some (flag_byte (ty A) (slen A))"
proof -
  let ?H = "sdsHdrSize (ty A)"
  note D = sds_atD [OF assms]
  have H: "0 < ?H" using D(4) by (rule is_type_cases) simp_all
  have "padd s (-1) = Ptr b (int (?H - 1))"
    using D(1) H by (simp add: of_nat_diff)
  moreover have "?H - 1 < length (sds_bytes A)"
    using D(4) H by (simp add: sds_bytes_def)
  moreover have "sds_bytes A ! (?H - 1) = flag_byte (ty A) (slen A)"
    using D(4) by (rule is_type_cases)
      (simp_all add: sds_bytes_def hdr_bytes_def hdr_width_def nth_append)
  ultimately show ?thesis using D(2) by (simp add: load_block)
qed

lemma sds_hdr_len:
  assumes "sds_at h s b A" "ty A \<noteq> SDS_TYPE_5"
  shows "hdr_len h s (hdr_width (ty A)) = Some (slen A)"
proof -
  let ?w = "hdr_width (ty A)"
  note D = sds_atD [OF assms(1)]
  have p: "padd s (- (2 * int ?w + 1)) = Ptr b (int 0)"
    using D(1,4) assms(2) by (simp add: sdsHdrSize_width)
  have "load_bytes h (Ptr b (int 0)) ?w = Some (le_bytes ?w (slen A))"
    using D(2) assms(2) by (subst load_bytes_block) (auto simp: sds_bytes_def hdr_bytes_def)
  moreover have "slen A < 256 ^ ?w"
    using D(3) assms(2) by (simp add: sds_layout_def type_limit_def)
  ultimately show ?thesis using p by (simp add: hdr_len_def load_le_def)
qed

lemma sds_hdr_alloc:
  assumes "sds_at h s b A" "ty A \<noteq> SDS_TYPE_5"
  shows "hdr_alloc h s (hdr_width (ty A)) = Some (salloc A)"
proof -
  let ?w = "hdr_width (ty A)"
  note D = sds_atD [OF assms(1)]
  have p: "padd s (- (int ?w + 1)) = Ptr b (int ?w)"
    using D(1,4) assms(2) by (simp add: sdsHdrSize_width)
  have "load_bytes h (Ptr b (int ?w)) ?w = Some (le_bytes ?w (salloc A))"
    using D(2) assms(2) by (subst load_bytes_block) (auto simp: sds_bytes_def hdr_bytes_def)
  moreover have "salloc A < 256 ^ ?w"
    using D(3) assms(2) by (simp add: sds_layout_def type_limit_def)
  ultimately show ?thesis using p by (simp add: hdr_alloc_def load_le_def)
qed

lemma sds_set_hdr_len:
  assumes "sds_at h s b A" "ty A \<noteq> SDS_TYPE_5"
  shows "set_hdr_len h s (hdr_width (ty A)) x = Some (upd h b (sds_bytes (with_len A x)))"
proof -
  let ?w = "hdr_width (ty A)"
  note D = sds_atD [OF assms(1)]
  have p: "padd s (- (2 * int ?w + 1)) = Ptr b (int 0)"
    using D(1,4) assms(2) by (simp add: sdsHdrSize_width)
  show ?thesis using D(2) assms(2)
    unfolding set_hdr_len_def store_le_def p
    by (subst store_bytes_block) (auto simp: sds_bytes_def hdr_bytes_def overwrite_def flag_byte_def)
qed

lemma sds_set_hdr_alloc:
  assumes "sds_at h s b A" "ty A \<noteq> SDS_TYPE_5"
  shows "set_hdr_alloc h s (hdr_width (ty A)) x = Some (upd h b (sds_bytes (with_alloc A x)))"
proof -
  let ?w = "hdr_width (ty A)"
  note D = sds_atD [OF assms(1)]
  have p: "padd s (- (int ?w + 1)) = Ptr b (int ?w)"
    using D(1,4) assms(2) by (simp add: sdsHdrSize_width)
  show ?thesis using D(2) assms(2)
    unfolding set_hdr_alloc_def store_le_def p
    by (subst store_bytes_block) (auto simp: sds_bytes_def hdr_bytes_def overwrite_def flag_byte_def)
qed

lemma sds_set_flag5:
  assumes "sds_at h s b A" "ty A = SDS_TYPE_5"
  shows "store h (padd s (-1)) (flag_byte SDS_TYPE_5 x) = Some (upd h b (sds_bytes (with_len A x)))"
proof -
  note D = sds_atD [OF assms(1)]
  have p: "padd s (-1) = Ptr b (int 0)" using D(1) assms(2) by simp
  show ?thesis using D(2) assms(2) unfolding p
    by (subst store_block) (auto simp: sds_bytes_def hdr_bytes_def)
qed

lemma hdr_width_simps:
  "hdr_width SDS_TYPE_8 = 1" "hdr_width SDS_TYPE_16 = 2" "hdr_width SDS_TYPE_32 = 4"
  "hdr_width SDS_TYPE_64 = 8"
  by (simp_all add: hdr_width_def)

lemma sdslen_at [sds_simps]:
  assumes "sds_at h s b A"
  shows "sdslen h s = Some (slen A)"
proof (cases "ty A = SDS_TYPE_5")
  case True
  then have "slen A < 32" using sds_atD(3) [OF assms] by (simp add: sds_layout_def type_limit_def)
  with True show ?thesis using sds_flags [OF assms] sds_atD(4) [OF assms] by (simp add: sdslen_def)
next
  case False
  note L = sds_hdr_len [OF assms False]
  from sds_atD(4) [OF assms] show ?thesis
    by (rule is_type_cases)
      (use False L sds_flags [OF assms] sds_atD(4) [OF assms] in \<open>simp_all add: sdslen_def hdr_width_simps\<close>)
qed

lemma sdsalloc_at [sds_simps]:
  assumes "sds_at h s b A"
  shows "sdsalloc h s = Some (salloc A)"
proof (cases "ty A = SDS_TYPE_5")
  case True
  then have "slen A < 32 \<and> salloc A = slen A"
    using sds_atD(3) [OF assms] by (simp add: sds_layout_def type_limit_def)
  with True show ?thesis using sds_flags [OF assms] sds_atD(4) [OF assms] by (simp add: sdsalloc_def)
next
  case False
  note L = sds_hdr_alloc [OF assms False]
  from sds_atD(4) [OF assms] show ?thesis
    by (rule is_type_cases)
      (use False L sds_flags [OF assms] sds_atD(4) [OF assms] in \<open>simp_all add: sdsalloc_def hdr_width_simps\<close>)
qed

lemma sdsavail_at [sds_simps]:
  assumes "sds_at h s b A" "slen A \<le> salloc A"
  shows "sdsavail h s = Some (salloc A - slen A)"
proof (cases "ty A = SDS_TYPE_5")
  case True
  then have "salloc A = slen A" using sds_atD(3) [OF assms(1)] by (simp add: sds_layout_def)
  with True show ?thesis
    using sds_flags [OF assms(1)] sds_atD(4) [OF assms(1)] by (simp add: sdsavail_def)
next
  case False
  note L = sds_hdr_len [OF assms(1) False] sds_hdr_alloc [OF assms(1) False]
  have lim: "salloc A < type_limit (ty A)"
    using sds_atD(3) [OF assms(1)] by (simp add: sds_layout_def)
  have d: "hdr_diff h s (hdr_width (ty A)) m = Some (salloc A - slen A)" if "salloc A < 2 ^ m" for m
  proof -
    have "(int (salloc A) - int (slen A)) mod 2 ^ m = int ((salloc A - slen A) mod 2 ^ m)"
      using assms(2) by (simp add: of_nat_diff zmod_int)
    moreover have "(salloc A - slen A) mod 2 ^ m = salloc A - slen A"
      using that by simp
    ultimately show ?thesis using L by (simp add: hdr_diff_def)
  qed
  from sds_atD(4) [OF assms(1)] show ?thesis
    by (rule is_type_cases)
      (use False lim d [of 64] d [of 32] sds_flags [OF assms(1)] sds_atD(4) [OF assms(1)] in
        \<open>simp_all add: sdsavail_def hdr_width_simps type_limit_def\<close>)
qed

lemma sdssetlen_at [sds_simps]:
  assumes "sds_at h s b A"
  shows "sdssetlen h s x = Some (upd h b (sds_bytes (with_len A x)))"
proof (cases "ty A = SDS_TYPE_5")
  case True
  then show ?thesis
    using sds_flags [OF assms] sds_atD(4) [OF assms] sds_set_flag5 [OF assms True]
    by (simp add: sdssetlen_def flag_byte_5 [symmetric])
next
  case False
  note L = sds_set_hdr_len [OF assms False]
  from sds_atD(4) [OF assms] show ?thesis
    by (rule is_type_cases)
      (use False L sds_flags [OF assms] sds_atD(4) [OF assms] in \<open>simp_all add: sdssetlen_def hdr_width_simps\<close>)
qed

lemma sdssetalloc_at [sds_simps]:
  assumes "sds_at h s b A"
  shows "sdssetalloc h s x = Some (upd h b (sds_bytes (with_alloc A x)))"
proof (cases "ty A = SDS_TYPE_5")
  case True
  then show ?thesis
    using sds_flags [OF assms] sds_atD(2,4) [OF assms]
    by (simp add: sdssetalloc_def with_alloc_def upd_same)
next
  case False
  note L = sds_set_hdr_alloc [OF assms False]
  from sds_atD(4) [OF assms] show ?thesis
    by (rule is_type_cases)
      (use False L sds_flags [OF assms] sds_atD(4) [OF assms] in \<open>simp_all add: sdssetalloc_def hdr_width_simps\<close>)
qed

lemma sdsinclen_at [sds_simps]:
  assumes "sds_at h s b A"
  shows "sdsinclen h s inc = Some (upd h b (sds_bytes (with_len A (slen A + inc))))"
proof (cases "ty A = SDS_TYPE_5")
  case True
  have "slen A < 32"
    using True sds_atD(3) [OF assms] by (simp add: sds_layout_def type_limit_def)
  then have "SDS_TYPE_5_LEN (flag_byte SDS_TYPE_5 (slen A)) = of_nat (slen A)"
    by (simp add: word_unat_eq_iff unat_of_nat)
  then have "SDS_TYPE_5 OR push_bit SDS_TYPE_BITS
      (SDS_TYPE_5_LEN (flag_byte SDS_TYPE_5 (slen A)) + of_nat inc) = flag_byte SDS_TYPE_5 (slen A + inc)"
    by (simp add: flag_byte_5)
  with True show ?thesis
    using sds_flags [OF assms] sds_atD(4) [OF assms] sds_set_flag5 [OF assms True]
    by (simp add: sdsinclen_def)
next
  case False
  have L: "hdr_inc_len h s (hdr_width (ty A)) inc = Some (upd h b (sds_bytes (with_len A (slen A + inc))))"
    using sds_set_hdr_len [OF assms False] sds_hdr_len [OF assms False] by (simp add: hdr_inc_len_def)
  from sds_atD(4) [OF assms] show ?thesis
    by (rule is_type_cases)
      (use False L sds_flags [OF assms] sds_atD(4) [OF assms] in \<open>simp_all add: sdsinclen_def hdr_width_simps\<close>)
qed

subsection \<open>Accesses to the string's bytes\<close>

lemma sds_load_buf:
  assumes "sds_at h s b A" "i + n \<le> length (sbuf A)"
  shows "load_bytes h (padd s (int i)) n = Some (take n (drop i (sbuf A)))"
proof -
  note D = sds_atD [OF assms(1)]
  have p: "padd s (int i) = Ptr b (int (sdsHdrSize (ty A) + i))" using D(1) by simp
  show ?thesis unfolding p using D(2,4) assms(2)
    by (subst load_bytes_block) (auto simp: sds_bytes_def)
qed

lemma sds_store_buf:
  assumes "sds_at h s b A" "i + length xs \<le> length (sbuf A)"
  shows "store_bytes h (padd s (int i)) xs = Some (upd h b (sds_bytes (A\<lparr>sbuf := overwrite (sbuf A) i xs\<rparr>)))"
proof -
  note D = sds_atD [OF assms(1)]
  have p: "padd s (int i) = Ptr b (int (sdsHdrSize (ty A) + i))" using D(1) by simp
  show ?thesis unfolding p using D(2,4) assms(2)
    by (subst store_bytes_block) (auto simp: sds_bytes_def overwrite_append_right)
qed

lemma sds_load_char:
  assumes "sds_at h s b A" "i < length (sbuf A)"
  shows "load h (padd s (int i)) = Some (sbuf A ! i)"
  using sds_load_buf [OF assms(1), of i 1] assms(2)
  by (simp add: load_def take_Suc_conv_app_nth hd_drop_conv_nth)

lemma sds_store_char:
  assumes "sds_at h s b A" "i < length (sbuf A)"
  shows "store h (padd s (int i)) x = Some (upd h b (sds_bytes (A\<lparr>sbuf := (sbuf A)[i := x]\<rparr>)))"
  using sds_store_buf [OF assms(1), of i "[x]"] assms(2)
  by (simp add: store_def overwrite_single)

end
