(* ===== verification/Sds_Core.thy ===== *)
theory Sds_Core
  imports Sds_Header
begin

text \<open>
  Creation, growth and concatenation of SDS strings (\<open>redis-learnning/sds/sds.c\<close>, from
  \<open>sdsnewlen\<close> to \<open>sdscpy\<close>).  Every operation threads the heap; \<open>Null\<close> is what the C
  code returns when the allocator refuses.  The lemmas give the exact heap after each operation
  on a well-formed string and with it memory safety, the preservation of the invariant
  \<open>sds_wf\<close>, the value of the resulting string and the absence of leaks.
\<close>

subsection \<open>Operations\<close>

definition SDS_NOINIT :: ptr where
  "SDS_NOINIT = Str (cstr ''SDS_NOINIT'') 0"

text \<open>The header writes of the \<open>switch\<close> in \<open>sdsnewlen\<close>.\<close>

definition init_header :: "heap \<Rightarrow> ptr \<Rightarrow> byte \<Rightarrow> nat \<Rightarrow> heap option" where
  "init_header h s type initlen =
     (let fp = padd s (-1);
          fields = (\<lambda>w. do {
            h \<leftarrow> set_hdr_len h s w initlen;
            h \<leftarrow> set_hdr_alloc h s w initlen;
            store h fp type
          })
      in if type = SDS_TYPE_5
         then store h fp (type OR push_bit SDS_TYPE_BITS (of_nat initlen))
         else if type = SDS_TYPE_8 then fields 1
         else if type = SDS_TYPE_16 then fields 2
         else if type = SDS_TYPE_32 then fields 4
         else if type = SDS_TYPE_64 then fields 8
         else Some h)"

definition sdsnewlen :: "heap \<Rightarrow> ptr \<Rightarrow> nat \<Rightarrow> (ptr \<times> heap) option" where
  "sdsnewlen h init initlen =
     (let t = sdsReqType initlen;
          type = (if t = SDS_TYPE_5 \<and> initlen = 0 then SDS_TYPE_8 else t);
          hdrlen = sdsHdrSize type;
          total = size_add (size_add hdrlen initlen) 1;
          (sh, h) = s_malloc h total
      in if sh = Null then Some (Null, h)
         else do {
           (init, h) \<leftarrow>
             (if init = SDS_NOINIT then Some (Null, h)
              else if init = Null then do { h \<leftarrow> memset h sh 0 total; Some (init, h) }
              else Some (init, h));
           let s = padd sh (int hdrlen);
           h \<leftarrow> init_header h s type initlen;
           h \<leftarrow> (if initlen \<noteq> 0 \<and> init \<noteq> Null then memcpy h s init initlen else Some h);
           h \<leftarrow> store h (padd s (int initlen)) 0;
           Some (s, h)
         })"

definition sdsempty :: "heap \<Rightarrow> (ptr \<times> heap) option" where
  "sdsempty h = sdsnewlen h (Str (cstr '''') 0) 0"

definition sdsnew :: "heap \<Rightarrow> ptr \<Rightarrow> (ptr \<times> heap) option" where
  "sdsnew h init = do {
     initlen \<leftarrow> (if init = Null then Some 0 else strlen h init);
     sdsnewlen h init initlen
   }"

definition sdsdup :: "heap \<Rightarrow> ptr \<Rightarrow> (ptr \<times> heap) option" where
  "sdsdup h s = do { l \<leftarrow> sdslen h s; sdsnewlen h s l }"

definition sdsfree :: "heap \<Rightarrow> ptr \<Rightarrow> heap option" where
  "sdsfree h s =
     (if s = Null then Some h
      else do { f \<leftarrow> load h (padd s (-1)); s_free h (padd s (- int (sdsHdrSize f))) })"

definition sdsupdatelen :: "heap \<Rightarrow> ptr \<Rightarrow> heap option" where
  "sdsupdatelen h s = do {
     reallen \<leftarrow> strlen h s;
     (r, h) \<leftarrow> sdsnewlen h s reallen;
     Some h
   }"

definition sdsclear :: "heap \<Rightarrow> ptr \<Rightarrow> heap option" where
  "sdsclear h s = do { h \<leftarrow> sdssetlen h s 0; store h (padd s 0) 0 }"

definition sdsMakeRoomFor :: "heap \<Rightarrow> ptr \<Rightarrow> nat \<Rightarrow> (ptr \<times> heap) option" where
  "sdsMakeRoomFor h s addlen = do {
     avail \<leftarrow> sdsavail h s;
     flags \<leftarrow> load h (padd s (-1));
     let oldtype = flags AND SDS_TYPE_MASK;
     if avail \<ge> addlen then Some (s, h)
     else do {
       len \<leftarrow> sdslen h s;
       let sh = padd s (- int (sdsHdrSize oldtype));
       let reqlen = size_add len addlen;
       let newlen = (if reqlen < SDS_MAX_PREALLOC then size_mul reqlen 2
                     else size_add reqlen SDS_MAX_PREALLOC);
       let rtype = sdsReqType newlen;
       let type = (if rtype = SDS_TYPE_5 then SDS_TYPE_8 else rtype);
       let hdrlen = sdsHdrSize type;
       let total = size_add (size_add hdrlen newlen) 1;
       if \<not> reqlen < total then None
       else if oldtype = type then do {
         (newsh, h) \<leftarrow> s_realloc h sh total;
         if newlen = 0 then Some (Null, h)
         else do {
           let s = padd newsh (int hdrlen);
           h \<leftarrow> sdssetalloc h s newlen;
           Some (s, h)
         }
       }
       else (case s_malloc h total of (newsh, h) \<Rightarrow>
         if newsh = Null then Some (Null, h)
         else do {
           h \<leftarrow> memcpy h (padd newsh (int hdrlen)) s (len + 1);
           h \<leftarrow> s_free h sh;
           let s = padd newsh (int hdrlen);
           h \<leftarrow> store h (padd s (-1)) type;
           h \<leftarrow> sdssetlen h s len;
           h \<leftarrow> sdssetalloc h s newlen;
           Some (s, h)
         })
     }
   }"

definition sdsRemoveFreeSpace :: "heap \<Rightarrow> ptr \<Rightarrow> (ptr \<times> heap) option" where
  "sdsRemoveFreeSpace h s = do {
     flags \<leftarrow> load h (padd s (-1));
     let oldtype = flags AND SDS_TYPE_MASK;
     let oldhdrlen = sdsHdrSize oldtype;
     len \<leftarrow> sdslen h s;
     avail \<leftarrow> sdsavail h s;
     let sh = padd s (- int oldhdrlen);
     if avail = 0 then Some (s, h)
     else do {
       let type = sdsReqType len;
       let hdrlen = sdsHdrSize type;
       if oldtype = type \<or> SDS_TYPE_8 < type then do {
         (newsh, h) \<leftarrow> s_realloc h sh (size_add (size_add oldhdrlen len) 1);
         if newsh = Null then Some (Null, h)
         else do {
           let s = padd newsh (int oldhdrlen);
           h \<leftarrow> sdssetalloc h s len;
           Some (s, h)
         }
       }
       else (case s_malloc h (size_add (size_add hdrlen len) 1) of (newsh, h) \<Rightarrow>
         if newsh = Null then Some (Null, h)
         else do {
           h \<leftarrow> memcpy h (padd newsh (int hdrlen)) s (len + 1);
           h \<leftarrow> s_free h sh;
           let s = padd newsh (int hdrlen);
           h \<leftarrow> store h (padd s (-1)) type;
           h \<leftarrow> sdssetlen h s len;
           h \<leftarrow> sdssetalloc h s len;
           Some (s, h)
         })
     }
   }"

definition sdsAllocSize :: "heap \<Rightarrow> ptr \<Rightarrow> nat option" where
  "sdsAllocSize h s = do {
     a \<leftarrow> sdsalloc h s;
     f \<leftarrow> load h (padd s (-1));
     Some (size_add (size_add (sdsHdrSize f) a) 1)
   }"

definition sdsAllocPtr :: "heap \<Rightarrow> ptr \<Rightarrow> ptr option" where
  "sdsAllocPtr h s = do { f \<leftarrow> load h (padd s (-1)); Some (padd s (- int (sdsHdrSize f))) }"

text \<open>
  \<open>sdsIncrLen\<close>: the casts of the assertions are written out (\<open>(unsigned int)\<close> is modulo
  \<open>2 ^ 32\<close>, \<open>(uint64_t)\<close> modulo \<open>2 ^ 64\<close>); the difference \<open>alloc - len\<close> is an
  \<open>int\<close> for the two narrow headers and unsigned for the wide ones.
\<close>

definition incr_field :: "heap \<Rightarrow> ptr \<Rightarrow> nat \<Rightarrow> int \<Rightarrow> (nat \<times> heap) option" where
  "incr_field h s w incr = do {
     a \<leftarrow> hdr_alloc h s w;
     l \<leftarrow> hdr_len h s w;
     let up = (if w = 1 \<or> w = 2 then incr \<le> int a - int l
               else incr mod 2 ^ (8 * w) \<le> (int a - int l) mod 2 ^ (8 * w));
     let m = (if w = 8 then 64 else (32 :: nat));
     if (0 \<le> incr \<and> up) \<or> (incr < 0 \<and> (- incr) mod 2 ^ m \<le> int l)
     then do {
       let n = nat ((int l + incr) mod 2 ^ (8 * w));
       h \<leftarrow> set_hdr_len h s w n;
       Some (n, h)
     }
     else None
   }"

definition sdsIncrLen :: "heap \<Rightarrow> ptr \<Rightarrow> int \<Rightarrow> heap option" where
  "sdsIncrLen h s incr = do {
     flags \<leftarrow> load h (padd s (-1));
     let t = flags AND SDS_TYPE_MASK;
     (len, h) \<leftarrow>
       (if t = SDS_TYPE_5 then
          (let oldlen = int (unat (SDS_TYPE_5_LEN flags))
           in if (0 < incr \<and> oldlen + incr < 32) \<or> (incr < 0 \<and> (- incr) mod 2 ^ 32 \<le> oldlen)
              then do {
                h \<leftarrow> store h (padd s (-1))
                       (SDS_TYPE_5 OR push_bit SDS_TYPE_BITS (of_int (oldlen + incr)));
                Some (nat ((oldlen + incr) mod 2 ^ 64), h)
              }
              else None)
        else if t = SDS_TYPE_8 then incr_field h s 1 incr
        else if t = SDS_TYPE_16 then incr_field h s 2 incr
        else if t = SDS_TYPE_32 then incr_field h s 4 incr
        else if t = SDS_TYPE_64 then incr_field h s 8 incr
        else Some (0, h));
     store h (padd s (int len)) 0
   }"

definition sdsgrowzero :: "heap \<Rightarrow> ptr \<Rightarrow> nat \<Rightarrow> (ptr \<times> heap) option" where
  "sdsgrowzero h s len = do {
     curlen \<leftarrow> sdslen h s;
     if len \<le> curlen then Some (s, h)
     else do {
       (s, h) \<leftarrow> sdsMakeRoomFor h s (len - curlen);
       if s = Null then Some (Null, h)
       else do {
         h \<leftarrow> memset h (padd s (int curlen)) 0 (len - curlen + 1);
         h \<leftarrow> sdssetlen h s len;
         Some (s, h)
       }
     }
   }"

definition sdscatlen :: "heap \<Rightarrow> ptr \<Rightarrow> ptr \<Rightarrow> nat \<Rightarrow> (ptr \<times> heap) option" where
  "sdscatlen h s t len = do {
     curlen \<leftarrow> sdslen h s;
     (s, h) \<leftarrow> sdsMakeRoomFor h s len;
     if s = Null then Some (Null, h)
     else do {
       h \<leftarrow> memcpy h (padd s (int curlen)) t len;
       h \<leftarrow> sdssetlen h s (size_add curlen len);
       h \<leftarrow> store h (padd s (int (size_add curlen len))) 0;
       Some (s, h)
     }
   }"

definition sdscat :: "heap \<Rightarrow> ptr \<Rightarrow> ptr \<Rightarrow> (ptr \<times> heap) option" where
  "sdscat h s t = do { n \<leftarrow> strlen h t; sdscatlen h s t n }"

definition sdscatsds :: "heap \<Rightarrow> ptr \<Rightarrow> ptr \<Rightarrow> (ptr \<times> heap) option" where
  "sdscatsds h s t = do { n \<leftarrow> sdslen h t; sdscatlen h s t n }"

definition sdscpylen :: "heap \<Rightarrow> ptr \<Rightarrow> ptr \<Rightarrow> nat \<Rightarrow> (ptr \<times> heap) option" where
  "sdscpylen h s t len = do {
     a \<leftarrow> sdsalloc h s;
     (s, h) \<leftarrow> (if a < len then do { l \<leftarrow> sdslen h s; sdsMakeRoomFor h s (size_sub len l) }
                else Some (s, h));
     if s = Null then Some (Null, h)
     else do {
       h \<leftarrow> memcpy h s t len;
       h \<leftarrow> store h (padd s (int len)) 0;
       h \<leftarrow> sdssetlen h s len;
       Some (s, h)
     }
   }"

definition sdscpy :: "heap \<Rightarrow> ptr \<Rightarrow> ptr \<Rightarrow> (ptr \<times> heap) option" where
  "sdscpy h s t = do { n \<leftarrow> strlen h t; sdscpylen h s t n }"

definition sds_malloc :: "heap \<Rightarrow> nat \<Rightarrow> ptr \<times> heap" where
  "sds_malloc h sz = s_malloc h sz"

definition sds_realloc :: "heap \<Rightarrow> ptr \<Rightarrow> nat \<Rightarrow> (ptr \<times> heap) option" where
  "sds_realloc h p sz = s_realloc h p sz"

definition sds_free :: "heap \<Rightarrow> ptr \<Rightarrow> heap option" where
  "sds_free h p = s_free h p"

subsection \<open>Allocation\<close>

text \<open>Block numbers from \<open>nxt\<close> on have never been handed out.\<close>

definition heap_ok :: "heap \<Rightarrow> bool" where
  "heap_ok h \<longleftrightarrow> (\<forall>b \<ge> nxt h. mem h b = None)"

definition bump :: "heap \<Rightarrow> heap" where
  "bump h = h\<lparr>nxt := Suc (nxt h)\<rparr>"

lemma bump_sel [simp]:
  "mem (bump h) = mem h" "nxt (bump h) = Suc (nxt h)" "can_alloc (bump h) = can_alloc h"
  "junk (bump h) = junk h"
  by (simp_all add: bump_def)

lemma load_bytes_bump [simp]: "load_bytes (bump h) p n = load_bytes h p n"
  by (rule load_bytes_cong) (cases p; simp)

lemma s_malloc_ok:
  "can_alloc h (nxt h) sz \<Longrightarrow>
   s_malloc h sz = (Ptr (nxt h) 0, upd (bump h) (nxt h) (map (junk h (nxt h)) [0..<sz]))"
  by (simp add: s_malloc_def bump_def Let_def)

lemma s_malloc_fail: "\<not> can_alloc h (nxt h) sz \<Longrightarrow> s_malloc h sz = (Null, bump h)"
  by (simp add: s_malloc_def bump_def Let_def)

lemma heap_ok_fresh: "heap_ok h \<Longrightarrow> mem h (nxt h) = None"
  by (simp add: heap_ok_def)

lemma heap_ok_upd_bump [simp]: "heap_ok h \<Longrightarrow> heap_ok (upd (bump h) (nxt h) xs)"
  by (simp add: heap_ok_def)

lemma heap_ok_upd: "heap_ok h \<Longrightarrow> mem h b = Some ys \<Longrightarrow> heap_ok (upd h b xs)"
  by (auto simp: heap_ok_def)

lemma readable_not_fresh:
  "heap_ok h \<Longrightarrow> load_bytes h p n = Some xs \<Longrightarrow> n \<noteq> 0 \<Longrightarrow> block_of p \<noteq> Some (nxt h)"
  by (cases p) (auto simp: heap_ok_def load_bytes_def)

subsection \<open>Creation\<close>

lemma set_fields:
  assumes "mem h b = Some bs" "2 * w + 1 \<le> length bs"
  shows "do {
            h \<leftarrow> set_hdr_len h (Ptr b (int (2 * w + 1))) w n;
            h \<leftarrow> set_hdr_alloc h (Ptr b (int (2 * w + 1))) w n;
            store h (padd (Ptr b (int (2 * w + 1))) (-1)) t
          } = Some (upd h b (le_bytes w n @ le_bytes w n @ [t] @ drop (2 * w + 1) bs))"
proof -
  let ?s = "Ptr b (int (2 * w + 1))"
  have p: "padd ?s (- (2 * int w + 1)) = Ptr b (int 0)" "padd ?s (- (int w + 1)) = Ptr b (int w)"
    "padd ?s (-1) = Ptr b (int (2 * w))"
    by simp_all
  have 1: "set_hdr_len h ?s w n = Some (upd h b (le_bytes w n @ drop w bs))"
    unfolding set_hdr_len_def store_le_def p using assms
    by (subst store_bytes_block) (auto simp: overwrite_def)
  let ?h1 = "upd h b (le_bytes w n @ drop w bs)"
  have 2: "set_hdr_alloc ?h1 ?s w n = Some (upd h b (le_bytes w n @ le_bytes w n @ drop (2 * w) bs))"
    unfolding set_hdr_alloc_def store_le_def p using assms
    by (subst store_bytes_block) (auto simp: overwrite_def mult_2)
  let ?h2 = "upd h b (le_bytes w n @ le_bytes w n @ drop (2 * w) bs)"
  have 3: "store ?h2 (padd ?s (-1)) t = Some (upd h b (le_bytes w n @ le_bytes w n @ [t] @ drop (2 * w + 1) bs))"
    unfolding store_def p using assms
    by (subst store_bytes_block [where bs = "le_bytes w n @ le_bytes w n @ drop (2 * w) bs"])
      (auto simp: overwrite_def)
  show ?thesis by (simp only: 1 2 3 bind.bind_lunit)
qed

lemma init_header_ok:
  assumes "mem h b = Some bs" "is_type t" "sdsHdrSize t \<le> length bs"
  shows "init_header h (Ptr b (int (sdsHdrSize t))) t n =
    Some (upd h b (hdr_bytes t n n @ drop (sdsHdrSize t) bs))"
proof (cases "t = SDS_TYPE_5")
  case True
  have "store h (Ptr b (int 0)) (flag_byte 0 n) = Some (upd h b (bs[0 := flag_byte 0 n]))"
    using assms True by (intro store_block) auto
  moreover have "bs[0 := flag_byte 0 n] = flag_byte 0 n # drop 1 bs"
    using assms True by (cases bs) auto
  ultimately show ?thesis using True
    by (simp add: init_header_def hdr_bytes_def flag_byte_5 [symmetric])
next
  case False
  note F = set_fields [OF assms(1)]
  from assms(2) show ?thesis
    by (rule is_type_cases)
      (use False assms(3) F [of 1 n t] F [of 2 n t] F [of 4 n t] F [of 8 n t] in
        \<open>simp_all add: init_header_def hdr_bytes_def hdr_width_def flag_byte_def Let_def\<close>)
qed

definition new_type :: "nat \<Rightarrow> byte" where
  "new_type n = (if n = 0 then SDS_TYPE_8 else sdsReqType n)"

definition new_size :: "nat \<Rightarrow> nat" where
  "new_size n = sdsHdrSize (new_type n) + n + 1"

definition new_obj :: "byte list \<Rightarrow> sds_obj" where
  "new_obj xs = \<lparr>ty = new_type (length xs), slen = length xs, salloc = length xs, sbuf = xs @ [0]\<rparr>"

lemma new_type_is_type [simp]: "is_type (new_type n)"
  by (simp add: new_type_def is_type_def sdsReqType_def)

lemma new_type_eq: "(if sdsReqType n = SDS_TYPE_5 \<and> n = 0 then SDS_TYPE_8 else sdsReqType n) = new_type n"
  by (simp add: new_type_def sdsReqType_def)

lemma sdsHdrSize_le: "sdsHdrSize t \<le> 17"
  by (simp add: sdsHdrSize_def Let_def)

lemma new_type_limit: "n < 2 ^ 64 \<Longrightarrow> n < type_limit (new_type n)"
  by (cases "n = 0") (simp_all add: new_type_def sdsReqType_limit, simp add: type_limit_def hdr_width_def)

lemma new_obj_layout: "length xs < 2 ^ 64 \<Longrightarrow> sds_layout (new_obj xs)"
  using new_type_limit [of "length xs"] by (simp add: sds_layout_def new_obj_def)

lemma new_obj_wf [simp]: "sds_wf (new_obj xs)"
  by (simp add: sds_wf_def new_obj_def nth_append)

lemma new_obj_val [simp]: "sds_val (new_obj xs) = xs"
  by (simp add: sds_val_def new_obj_def)

lemma size_total [size_simps]:
  "n + 18 < 2 ^ 64 \<Longrightarrow> size_add (size_add (sdsHdrSize t) n) 1 = sdsHdrSize t + n + 1"
  using sdsHdrSize_le [of t] by (simp add: size_add_exact)

text \<open>
  What is left of \<open>sdsnewlen\<close> once the block is there, whatever its bytes are: the header,
  the copy and the terminator.
\<close>

lemma newlen_tail:
  assumes "mem h b = Some bs" "is_type t" "length bs = sdsHdrSize t + n + 1"
    "load_bytes h p n = Some xs" "block_of p \<noteq> Some b"
  shows "do {
      h \<leftarrow> init_header h (Ptr b (int (sdsHdrSize t))) t n;
      h \<leftarrow> memcpy h (Ptr b (int (sdsHdrSize t))) p n;
      store h (padd (Ptr b (int (sdsHdrSize t))) (int n)) 0
    } = Some (upd h b (hdr_bytes t n n @ xs @ [0]))"
proof -
  let ?H = "sdsHdrSize t" and ?hd = "hdr_bytes t n n"
  have len: "length xs = n" by (rule length_load_bytes [OF assms(4)])
  have 1: "init_header h (Ptr b (int ?H)) t n = Some (upd h b (?hd @ drop ?H bs))"
    using assms by (intro init_header_ok) auto
  have no: "\<not> overlaps (Ptr b (int ?H)) p n" using assms(5) by (cases p) auto
  have ld: "load_bytes (upd h b (?hd @ drop ?H bs)) p n = Some xs"
    using assms(4,5) by (simp add: mem_simps)
  have 2: "memcpy (upd h b (?hd @ drop ?H bs)) (Ptr b (int ?H)) p n
      = Some (upd h b (?hd @ xs @ drop (?H + n) bs))"
    unfolding memcpy_def using assms len no ld
    by (simp, subst store_bytes_block [where bs = "?hd @ drop ?H bs"])
      (auto simp: overwrite_simps, auto simp: overwrite_def add.commute)
  have 3: "store (upd h b (?hd @ xs @ drop (?H + n) bs)) (Ptr b (int (?H + n))) 0
      = Some (upd h b (?hd @ xs @ [0]))"
    using assms len
    by (subst store_block [where bs = "?hd @ xs @ drop (?H + n) bs"])
      (auto simp: list_update_append Cons_nth_drop_Suc [symmetric])
  show ?thesis by (simp add: 1 2 3[simplified])
qed

lemma newlen_tail_nocopy:
  assumes "mem h b = Some bs" "is_type t" "length bs = sdsHdrSize t + n + 1"
  shows "do {
      h \<leftarrow> init_header h (Ptr b (int (sdsHdrSize t))) t n;
      store h (padd (Ptr b (int (sdsHdrSize t))) (int n)) 0
    } = Some (upd h b (hdr_bytes t n n @ take n (drop (sdsHdrSize t) bs) @ [0]))"
proof -
  let ?H = "sdsHdrSize t" and ?hd = "hdr_bytes t n n"
  have 1: "init_header h (Ptr b (int ?H)) t n = Some (upd h b (?hd @ drop ?H bs))"
    using assms by (intro init_header_ok) auto
  have "length (drop ?H bs) = Suc n" using assms(3) by simp
  then have "(drop ?H bs)[n := 0] = take n (drop ?H bs) @ [0]"
    by (simp add: upd_conv_take_nth_drop)
  then have 2: "store (upd h b (?hd @ drop ?H bs)) (Ptr b (int (?H + n))) 0
      = Some (upd h b (?hd @ take n (drop ?H bs) @ [0]))"
    using assms
    by (subst store_block [where bs = "?hd @ drop ?H bs"]) (auto simp: list_update_append)
  show ?thesis by (simp add: 1 2[simplified])
qed

lemma memcpy_0 [simp]: "memcpy h d s 0 = Some h"
  by (cases d; cases s) (simp_all add: memcpy_def)

lemma sdsnewlen_ok:
  assumes "heap_ok h" "n + 18 < 2 ^ 64" "can_alloc h (nxt h) (new_size n)"
    "load_bytes h init n = Some xs" "init \<noteq> Null" "init \<noteq> SDS_NOINIT"
  shows "sdsnewlen h init n = Some (Ptr (nxt h) (int (sdsHdrSize (new_type n))),
    upd (bump h) (nxt h) (sds_bytes (new_obj xs)))"
proof -
  let ?b = "nxt h" and ?t = "new_type n"
  let ?p = "if n = 0 then Null else init"
  let ?h = "upd (bump h) ?b (map (junk h ?b) [0..<new_size n])"
  have len: "length xs = n" by (rule length_load_bytes [OF assms(4)])
  have nb: "block_of ?p \<noteq> Some ?b"
    using readable_not_fresh [OF assms(1,4)] by simp
  have ld: "load_bytes ?h ?p n = Some xs"
    using assms(4) nb by (simp add: mem_simps split: if_splits)
  have T: "do {
      h \<leftarrow> init_header ?h (Ptr ?b (int (sdsHdrSize ?t))) ?t n;
      h \<leftarrow> memcpy h (Ptr ?b (int (sdsHdrSize ?t))) ?p n;
      store h (padd (Ptr ?b (int (sdsHdrSize ?t))) (int n)) 0
    } = Some (upd (bump h) ?b (sds_bytes (new_obj xs)))"
    using newlen_tail [of ?h ?b _ ?t n ?p xs] ld nb len
    by (simp add: new_size_def sds_bytes_def new_obj_def)
  have tot: "size_add (size_add (sdsHdrSize ?t) n) 1 = new_size n"
    using size_total [OF assms(2), of ?t] by (simp add: new_size_def)
  show ?thesis
    using T assms(3,5,6) unfolding sdsnewlen_def Let_def new_type_eq tot
    by (cases "n = 0") (auto simp: s_malloc_ok bind_eq_Some_conv)
qed

text \<open>With \<open>init = NULL\<close> the string is zero-filled, with \<open>SDS_NOINIT\<close> it keeps the block's bytes.\<close>

lemma sdsnewlen_noinit:
  assumes "n + 18 < 2 ^ 64" "can_alloc h (nxt h) (new_size n)" "init = Null \<or> init = SDS_NOINIT"
  shows "\<exists>xs. length xs = n \<and> (init = Null \<longrightarrow> xs = replicate n 0) \<and>
    sdsnewlen h init n = Some (Ptr (nxt h) (int (sdsHdrSize (new_type n))),
      upd (bump h) (nxt h) (sds_bytes (new_obj xs)))"
proof -
  let ?b = "nxt h" and ?t = "new_type n" and ?H = "sdsHdrSize (new_type n)"
  define bs where "bs = (if init = Null then replicate (new_size n) 0
    else map (junk h ?b) [0..<new_size n])"
  have len: "length bs = ?H + n + 1" by (simp add: bs_def new_size_def)
  let ?xs = "take n (drop ?H bs)"
  have tot: "size_add (size_add ?H n) 1 = new_size n"
    using size_total [OF assms(1), of ?t] by (simp add: new_size_def)
  have T: "do {
      h \<leftarrow> init_header (upd (bump h) ?b bs) (Ptr ?b (int ?H)) ?t n;
      store h (padd (Ptr ?b (int ?H)) (int n)) 0
    } = Some (upd (bump h) ?b (sds_bytes (new_obj ?xs)))"
    using newlen_tail_nocopy [of "upd (bump h) ?b bs" ?b bs ?t n] len
    by (simp add: sds_bytes_def new_obj_def)
  have ms: "memset (upd (bump h) ?b (map (junk h ?b) [0..<new_size n])) (Ptr ?b 0) 0 (new_size n)
      = Some (upd (bump h) ?b (replicate (new_size n) 0))"
    unfolding memset_def
    using store_bytes_block [of "upd (bump h) ?b (map (junk h ?b) [0..<new_size n])" ?b _ 0
        "replicate (new_size n) 0"]
    by (simp add: overwrite_def)
  have ne: "Null \<noteq> SDS_NOINIT" by (simp add: SDS_NOINIT_def)
  have "sdsnewlen h init n = Some (Ptr ?b (int ?H), upd (bump h) ?b (sds_bytes (new_obj ?xs)))"
    using T assms(2,3) ms ne unfolding sdsnewlen_def Let_def new_type_eq tot
    by (auto simp: s_malloc_ok bind_eq_Some_conv bs_def split: if_splits)
  moreover have "init = Null \<longrightarrow> ?xs = replicate n 0"
    by (simp add: bs_def new_size_def del: replicate.simps)
  ultimately show ?thesis using len by (intro exI [of _ ?xs]) simp
qed

lemma sdsnewlen_oom:
  assumes "n + 18 < 2 ^ 64" "\<not> can_alloc h (nxt h) (new_size n)"
  shows "sdsnewlen h init n = Some (Null, bump h)"
proof -
  have tot: "size_add (size_add (sdsHdrSize (new_type n)) n) 1 = new_size n"
    using size_total [OF assms(1), of "new_type n"] by (simp add: new_size_def)
  show ?thesis using assms(2) unfolding sdsnewlen_def Let_def new_type_eq tot
    by (simp add: s_malloc_fail)
qed

lemma new_obj_at:
  "length xs < 2 ^ 64 \<Longrightarrow>
   sds_at (upd g b (sds_bytes (new_obj xs))) (Ptr b (int (sdsHdrSize (new_type (length xs))))) b (new_obj xs)"
  by (simp add: sds_at_def new_obj_layout) (simp add: new_obj_def)

subsection \<open>Freeing\<close>

lemma sdsfree_ok:
  assumes "sds_at h s b A"
  shows "sdsfree h s = Some (h\<lparr>mem := (mem h)(b := None)\<rparr>)"
  using sds_flags [OF assms] sds_atD [OF assms] by (simp add: sdsfree_def s_free_def)

lemma sdsAllocSize_ok:
  assumes "sds_at h s b A" "sds_wf A" "length (sds_bytes A) < 2 ^ 64"
  shows "sdsAllocSize h s = Some (sdsHdrSize (ty A) + salloc A + 1)"
proof -
  have "sdsHdrSize (ty A) + salloc A + 1 < 2 ^ 64"
    using assms(2,3) sds_atD(4) [OF assms(1)] by (simp add: sds_wf_def sds_bytes_def)
  then show ?thesis
    using sdsalloc_at [OF assms(1)] sds_flags [OF assms(1)] sds_atD(4) [OF assms(1)]
    by (simp add: sdsAllocSize_def size_add_def)
qed

lemma sdsAllocPtr_ok: "sds_at h s b A \<Longrightarrow> sdsAllocPtr h s = Some (Ptr b 0)"
  using sds_flags [of h s b A] sds_atD [of h s b A] by (simp add: sdsAllocPtr_def)

subsection \<open>Making room\<close>

definition grow_len :: "nat \<Rightarrow> nat" where
  "grow_len n = (if n < SDS_MAX_PREALLOC then n * 2 else n + SDS_MAX_PREALLOC)"

definition room_type :: "nat \<Rightarrow> byte" where
  "room_type n = (if sdsReqType (grow_len n) = SDS_TYPE_5 then SDS_TYPE_8 else sdsReqType (grow_len n))"

definition room_size :: "nat \<Rightarrow> nat" where
  "room_size n = sdsHdrSize (room_type n) + grow_len n + 1"

text \<open>The heap after a string moved from block \<open>b\<close> to a fresh block with contents \<open>xs\<close>.\<close>

definition moved :: "heap \<Rightarrow> nat \<Rightarrow> byte list \<Rightarrow> heap" where
  "moved h b xs = (bump h)\<lparr>mem := (mem h)(b := None, nxt h \<mapsto> xs)\<rparr>"

text \<open>\<open>B\<close> is \<open>A\<close> moved to a buffer of \<open>n\<close> bytes plus terminator, with header type \<open>t\<close>.\<close>

definition regrown :: "sds_obj \<Rightarrow> byte \<Rightarrow> nat \<Rightarrow> sds_obj \<Rightarrow> bool" where
  "regrown A t n B \<longleftrightarrow> ty B = t \<and> slen B = slen A \<and> salloc B = n \<and> length (sbuf B) = n + 1
     \<and> take (slen A + 1) (sbuf B) = take (slen A + 1) (sbuf A)"

lemma moved_sel [simp]:
  "mem (moved h b xs) = (mem h)(b := None, nxt h \<mapsto> xs)" "nxt (moved h b xs) = Suc (nxt h)"
  "can_alloc (moved h b xs) = can_alloc h" "junk (moved h b xs) = junk h"
  by (simp_all add: moved_def)

lemma upd_moved [simp]: "upd (moved h b xs) (nxt h) ys = moved h b ys"
  by (simp add: moved_def upd_def)

lemma heap_ok_moved: "heap_ok h \<Longrightarrow> heap_ok (moved h b xs)"
  by (simp add: heap_ok_def)

lemma room_type_props:
  "is_type (room_type n)" "room_type n \<noteq> SDS_TYPE_5"
  "grow_len n < 2 ^ 64 \<Longrightarrow> grow_len n < type_limit (room_type n)"
proof -
  show "is_type (room_type n)" "room_type n \<noteq> SDS_TYPE_5"
    by (simp_all add: room_type_def is_type_def sdsReqType_def)
  show "grow_len n < type_limit (room_type n)" if "grow_len n < 2 ^ 64"
    using sdsReqType_limit [OF that] by (auto simp: room_type_def type_limit_def hdr_width_def)
qed

lemma grow_len_ge: "n \<le> grow_len n"
  by (simp add: grow_len_def)

text \<open>Any block long enough for a header, whose flags byte names a type, is a laid-out string.\<close>

lemma le_bytes_le_val: "le_bytes (length bs) (le_val bs) = bs"
proof (induction bs)
  case (Cons a bs)
  have "(of_nat (unat a + 256 * le_val bs) :: byte) = a"
    by (simp add: word_unat_eq_iff unat_of_nat del: of_nat_add of_nat_mult)
  moreover have "(unat a + 256 * le_val bs) div 256 = le_val bs"
    by (simp add: div_eq_0_iff)
  ultimately show ?case using Cons by simp
qed simp

lemma le_val_bound: "le_val bs < 256 ^ length bs"
proof (induction bs)
  case (Cons a bs)
  then show ?case using unat_byte [of a] by (simp del: unat_byte)
qed simp

lemma sds_at_raw:
  assumes "mem h b = Some bs" "is_type t" "sdsHdrSize t \<le> length bs" "bs ! (sdsHdrSize t - 1) = t"
  shows "\<exists>A. sds_at h (Ptr b (int (sdsHdrSize t))) b A \<and> ty A = t \<and> sbuf A = drop (sdsHdrSize t) bs"
proof (cases "t = SDS_TYPE_5")
  case True
  with assms have "bs = flag_byte 0 0 # drop 1 bs"
    by (cases bs) (auto simp: flag_byte_def)
  with True assms(1,2) show ?thesis
    by (intro exI [of _ "\<lparr>ty = t, slen = 0, salloc = 0, sbuf = drop 1 bs\<rparr>"])
      (auto simp: sds_at_def sds_bytes_def hdr_bytes_def sds_layout_def type_limit_def)
next
  case False
  let ?w = "hdr_width t"
  let ?l = "take ?w bs" and ?a = "take ?w (drop ?w bs)"
  have H: "sdsHdrSize t = 2 * ?w + 1" using assms(2) False by (rule sdsHdrSize_width)
  have ln: "length ?l = ?w" "length ?a = ?w" using assms(3) H by auto
  have "bs = ?l @ ?a @ [t] @ drop (sdsHdrSize t) bs"
  proof -
    have "drop (2 * ?w) bs = t # drop (2 * ?w + 1) bs"
      using assms(3,4) H by (metis Cons_nth_drop_Suc Suc_eq_plus1 Suc_le_lessD add_diff_cancel_right')
    moreover have "bs = ?l @ ?a @ drop (2 * ?w) bs"
      by (metis append_take_drop_id drop_drop mult_2)
    ultimately show ?thesis using H by simp
  qed
  moreover have "le_bytes ?w (le_val ?l) = ?l" "le_bytes ?w (le_val ?a) = ?a"
    using le_bytes_le_val [of ?l] le_bytes_le_val [of ?a] ln by simp_all
  moreover have "le_val ?l < 256 ^ ?w" "le_val ?a < 256 ^ ?w"
    using le_val_bound [of ?l] le_val_bound [of ?a] ln by simp_all
  ultimately show ?thesis using assms(1,2) False
    by (intro exI [of _ "\<lparr>ty = t, slen = le_val ?l, salloc = le_val ?a, sbuf = drop (sdsHdrSize t) bs\<rparr>"])
      (simp add: sds_at_def sds_bytes_def hdr_bytes_def sds_layout_def type_limit_def flag_byte_def)
qed

lemma s_realloc_ok:
  assumes "mem h b = Some bs" "heap_ok h" "can_alloc h (nxt h) sz"
  shows "s_realloc h (Ptr b 0) sz =
    Some (Ptr (nxt h) 0, moved h b (take sz bs @ drop (length bs) (map (junk h (nxt h)) [0..<sz])))"
proof -
  let ?j = "map (junk h (nxt h)) [0..<sz]"
  have ne: "nxt h \<noteq> b" using assms(1,2) by (auto simp: heap_ok_def)
  have "overwrite ?j 0 (take sz bs) = take sz bs @ drop (length bs) ?j"
    by (cases "length bs \<le> sz") (simp_all add: overwrite_def min_def)
  then have "store_bytes (upd (bump h) (nxt h) ?j) (Ptr (nxt h) 0) (take sz bs)
      = Some (upd (bump h) (nxt h) (take sz bs @ drop (length bs) ?j))"
    using store_bytes_block [of "upd (bump h) (nxt h) ?j" "nxt h" ?j 0 "take sz bs"] by simp
  with assms ne show ?thesis
    by (simp add: s_realloc_def s_malloc_ok s_free_def moved_def upd_def fun_upd_twist)
qed

lemma regrownD:
  assumes "regrown A t n B"
  shows "ty B = t" "slen B = slen A" "salloc B = n" "length (sbuf B) = n + 1"
    "take (slen A + 1) (sbuf B) = take (slen A + 1) (sbuf A)"
  using assms by (simp_all add: regrown_def)

lemma regrown_val: "regrown A t n B \<Longrightarrow> slen A < length (sbuf A) \<Longrightarrow> slen A \<le> n \<Longrightarrow> sds_val B = sds_val A"
  by (simp add: regrown_def sds_val_def) (metis Suc_n_not_le_n le_SucI min_def order_refl take_take)

lemma regrown_wf: 
  assumes "regrown A t n B" "sds_wf A" "slen A \<le> n"
  shows "sds_wf B"
proof -
  have "sbuf B ! slen A = take (slen A + 1) (sbuf B) ! slen A" by simp
  also have "\<dots> = sbuf A ! slen A" using regrownD(5) [OF assms(1)] by simp
  finally show ?thesis using assms by (simp add: regrown_def sds_wf_def)
qed

lemma regrown_layout:
  assumes "regrown A t n B" "is_type t" "t \<noteq> SDS_TYPE_5 \<or> n = slen A" "n < type_limit t" "slen A \<le> n"
  shows "sds_layout B"
  using assms by (auto simp: regrown_def sds_layout_def)

text \<open>The two ways a string is moved: \<open>realloc\<close> with the same header type, and a new block.\<close>

lemma move_same_type:
  assumes at: "sds_at h s b A" and wf: "sds_room A" and ok: "heap_ok h"
    and al: "can_alloc h (nxt h) (sdsHdrSize (ty A) + n + 1)"
    and n: "slen A \<le> n" "n < type_limit (ty A)" and ne: "ty A \<noteq> SDS_TYPE_5"
  shows "\<exists>B. regrown A (ty A) n B \<and>
    do {
      (newsh, h) \<leftarrow> s_realloc h (padd s (- int (sdsHdrSize (ty A)))) (sdsHdrSize (ty A) + n + 1);
      h \<leftarrow> sdssetalloc h (padd newsh (int (sdsHdrSize (ty A)))) n;
      Some (padd newsh (int (sdsHdrSize (ty A))), h)
    } = Some (Ptr (nxt h) (int (sdsHdrSize (ty A))), moved h b (sds_bytes B))"
proof -
  let ?H = "sdsHdrSize (ty A)" and ?hd = "hdr_bytes (ty A) (slen A) (salloc A)"
  note D = sds_atD [OF at]
  let ?j = "drop (length (sds_bytes A)) (map (junk h (nxt h)) [0..<?H + n + 1])"
  let ?buf = "take (n + 1) (sbuf A) @ ?j"
  let ?A = "A\<lparr>sbuf := ?buf\<rparr>"
  have tk: "take (?H + n + 1) (sds_bytes A) @ ?j = sds_bytes ?A"
    using D(4) by (simp add: sds_bytes_def)
  have re: "s_realloc h (Ptr b 0) (?H + n + 1) = Some (Ptr (nxt h) 0, moved h b (sds_bytes ?A))"
    using s_realloc_ok [OF D(2) ok al] tk by simp
  have at': "sds_at (moved h b (sds_bytes ?A)) (Ptr (nxt h) (int ?H)) (nxt h) ?A"
    using D(3) by (simp add: sds_at_def sds_layout_def)
  let ?B = "with_alloc ?A n"
  have "length ?buf = n + 1"
    using D(4) by (simp add: sds_bytes_def min_def) arith
  moreover have "take (slen A + 1) ?buf = take (slen A + 1) (sbuf A)"
    using n(1) wf by (simp add: sds_room_def min_def)
  ultimately have "regrown A (ty A) n ?B" using ne by (simp add: regrown_def)
  moreover have "sdssetalloc (moved h b (sds_bytes ?A)) (Ptr (nxt h) (int ?H)) n
      = Some (moved h b (sds_bytes ?B))"
    using sdssetalloc_at [OF at', of n] by simp
  ultimately show ?thesis using re D(1) by (intro exI [of _ ?B]) simp
qed

lemma move_new_type:
  assumes at: "sds_at h s b A" and wf: "sds_room A" and ok: "heap_ok h"
    and t: "is_type t" "t \<noteq> SDS_TYPE_5 \<or> n = slen A"
    and al: "can_alloc h (nxt h) (sdsHdrSize t + n + 1)"
    and n: "slen A \<le> n" "n < type_limit t"
  shows "\<exists>B. regrown A t n B \<and>
    (case s_malloc h (sdsHdrSize t + n + 1) of (newsh, h) \<Rightarrow>
      do {
        h \<leftarrow> memcpy h (padd newsh (int (sdsHdrSize t))) s (slen A + 1);
        h \<leftarrow> s_free h (padd s (- int (sdsHdrSize (ty A))));
        h \<leftarrow> store h (padd (padd newsh (int (sdsHdrSize t))) (-1)) t;
        h \<leftarrow> sdssetlen h (padd newsh (int (sdsHdrSize t))) (slen A);
        h \<leftarrow> sdssetalloc h (padd newsh (int (sdsHdrSize t))) n;
        Some (padd newsh (int (sdsHdrSize t)), h)
      }) = Some (Ptr (nxt h) (int (sdsHdrSize t)), moved h b (sds_bytes B))"
proof -
  let ?H = "sdsHdrSize t" and ?c = "nxt h"
  note D = sds_atD [OF at]
  define j where "j = map (junk h ?c) [0..<?H + n + 1]"
  have lj: "length j = ?H + n + 1" by (simp add: j_def)
  have H0: "0 < ?H" using t(1) by (rule is_type_cases) simp_all
  have ne: "?c \<noteq> b" using D(2) ok by (auto simp: heap_ok_def)
  define x where "x = take (slen A + 1) (sbuf A)"
  have lx: "length x = slen A + 1" using wf by (simp add: x_def sds_room_def)
  define bs1 where "bs1 = overwrite j ?H x"
  have l1: "length bs1 = ?H + n + 1" using lj lx n(1) by (simp add: bs1_def)
  have ld: "load_bytes (upd (bump h) ?c j) s (slen A + 1) = Some x"
    using sds_load_buf [OF at, of 0 "slen A + 1"] wf ne D(1)
    by (simp add: mem_simps x_def sds_room_def)
  have 1: "memcpy (upd (bump h) ?c j) (Ptr ?c (int ?H)) s (slen A + 1) = Some (upd (bump h) ?c bs1)"
    using ld ne D(1) lx lj n(1)
    by (simp add: memcpy_def bs1_def, subst store_bytes_block [where bs = j]) auto
  have 2: "s_free (upd (bump h) ?c bs1) (Ptr b 0) = Some (moved h b bs1)"
    using ne D(2) by (simp add: s_free_def moved_def upd_def fun_upd_twist)
  let ?bs2 = "bs1[?H - 1 := t]"
  have p1: "int ?H - 1 = int (?H - 1)" using H0 by (simp add: of_nat_diff)
  have 3: "store (moved h b bs1) (Ptr ?c (int ?H - 1)) t = Some (moved h b ?bs2)"
    unfolding p1 using l1 by (subst store_block [where bs = bs1]) auto
  obtain A1 where A1: "sds_at (moved h b ?bs2) (Ptr ?c (int ?H)) ?c A1" "ty A1 = t"
    "sbuf A1 = drop ?H ?bs2"
    using sds_at_raw [of "moved h b ?bs2" ?c ?bs2 t] t(1) l1 H0 by auto
  let ?A2 = "with_len A1 (slen A)"
  have 4: "sdssetlen (moved h b ?bs2) (Ptr ?c (int ?H)) (slen A) = Some (moved h b (sds_bytes ?A2))"
    using sdssetlen_at [OF A1(1)] by simp
  have at2: "sds_at (moved h b (sds_bytes ?A2)) (Ptr ?c (int ?H)) ?c ?A2"
    using A1 n sds_layout_with_len [OF sds_atD(3) [OF A1(1)]] by (simp add: sds_at_def)
  let ?B = "with_alloc ?A2 n"
  have 5: "sdssetalloc (moved h b (sds_bytes ?A2)) (Ptr ?c (int ?H)) n = Some (moved h b (sds_bytes ?B))"
    using sdssetalloc_at [OF at2, of n] by simp
  have "sbuf A1 = drop ?H bs1" using A1(3) H0 by simp
  also have "\<dots> = x @ drop (?H + (slen A + 1)) j" using lj lx by (simp add: bs1_def overwrite_def)
  finally have buf: "sbuf A1 = x @ drop (?H + (slen A + 1)) j" .
  have "regrown A t n ?B"
    using A1(2) buf lx lj n(1) t(2) wf by (auto simp: regrown_def x_def sds_room_def)
  moreover have "s_malloc h (?H + n + 1) = (Ptr ?c 0, upd (bump h) ?c j)"
    using al by (simp add: s_malloc_ok j_def)
  ultimately show ?thesis
    using 1 2 3 4 5 D(1) by (intro exI [of _ ?B]) simp
qed

text \<open>Lengths for which no size computation of the library wraps around.\<close>

definition fits :: "nat \<Rightarrow> bool" where
  "fits n \<longleftrightarrow> n + SDS_MAX_PREALLOC + 18 < 2 ^ 64"

lemma fits_le: "fits n \<Longrightarrow> m \<le> n \<Longrightarrow> fits m"
  by (simp add: fits_def)

lemma grow_sizes:
  assumes "fits n" "n = l + a"
  shows "size_add l a = n"
    "(if n < SDS_MAX_PREALLOC then size_mul n 2 else size_add n SDS_MAX_PREALLOC) = grow_len n"
    "size_add (size_add (sdsHdrSize (room_type n)) (grow_len n)) 1 = room_size n"
    "n < room_size n" "grow_len n < 2 ^ 64"
proof -
  show "size_add l a = n" "grow_len n < 2 ^ 64" "n < room_size n"
    "(if n < SDS_MAX_PREALLOC then size_mul n 2 else size_add n SDS_MAX_PREALLOC) = grow_len n"
    using assms by (auto simp: fits_def size_add_exact size_mul_exact grow_len_def room_size_def)
  have "grow_len n + 18 < 2 ^ 64" using assms by (auto simp: fits_def grow_len_def)
  from size_total [OF this] show "size_add (size_add (sdsHdrSize (room_type n)) (grow_len n)) 1 = room_size n"
    by (simp add: room_size_def)
qed

lemma sdsMakeRoomFor_enough:
  assumes "sds_at h s b A" "sds_room A" "addlen \<le> salloc A - slen A"
  shows "sdsMakeRoomFor h s addlen = Some (s, h)"
  using assms sdsavail_at [OF assms(1)] sds_flags [OF assms(1)]
  by (simp add: sdsMakeRoomFor_def sds_room_def)

text \<open>The rest of \<open>sdsMakeRoomFor\<close> on a string without enough room.\<close>

lemma sdsMakeRoomFor_unfold:
  assumes at: "sds_at h s b A" and wf: "sds_room A" and grow: "\<not> addlen \<le> salloc A - slen A"
    and n: "n = slen A + addlen" and ft: "fits n"
  shows "sdsMakeRoomFor h s addlen =
    (if ty A = room_type n then do {
       (newsh, h) \<leftarrow> s_realloc h (padd s (- int (sdsHdrSize (ty A)))) (room_size n);
       h \<leftarrow> sdssetalloc h (padd newsh (int (sdsHdrSize (room_type n)))) (grow_len n);
       Some (padd newsh (int (sdsHdrSize (room_type n))), h)
     }
     else (case s_malloc h (room_size n) of (newsh, h) \<Rightarrow>
       if newsh = Null then Some (Null, h)
       else do {
         h \<leftarrow> memcpy h (padd newsh (int (sdsHdrSize (room_type n)))) s (slen A + 1);
         h \<leftarrow> s_free h (padd s (- int (sdsHdrSize (ty A))));
         h \<leftarrow> store h (padd (padd newsh (int (sdsHdrSize (room_type n)))) (-1)) (room_type n);
         h \<leftarrow> sdssetlen h (padd newsh (int (sdsHdrSize (room_type n)))) (slen A);
         h \<leftarrow> sdssetalloc h (padd newsh (int (sdsHdrSize (room_type n)))) (grow_len n);
         Some (padd newsh (int (sdsHdrSize (room_type n))), h)
       }))"
proof -
  have le: "slen A \<le> salloc A" using wf by (simp add: sds_room_def)
  note D = sds_atD [OF at]
  note S = grow_sizes [OF ft n]
  have pos: "grow_len n \<noteq> 0" using n grow by (auto simp: grow_len_def)
  have rt: "(if sdsReqType (grow_len n) = SDS_TYPE_5 then SDS_TYPE_8 else sdsReqType (grow_len n))
      = room_type n" by (simp add: room_type_def)
  show ?thesis
    unfolding sdsMakeRoomFor_def sdsavail_at [OF at le] sds_flags [OF at] sdslen_at [OF at]
      bind.bind_lunit Let_def flag_byte_type [OF D(4)] S(1,2) rt S(3)
    using grow S(4) pos by (simp only: simp_thms if_False if_True)
qed

lemma sdsMakeRoomFor_grow:
  assumes at: "sds_at h s b A" and wf: "sds_room A" and ok: "heap_ok h"
    and grow: "\<not> addlen \<le> salloc A - slen A" and n: "n = slen A + addlen" and ft: "fits n"
    and al: "can_alloc h (nxt h) (room_size n)"
  shows "\<exists>B. regrown A (room_type n) (grow_len n) B \<and> sdsMakeRoomFor h s addlen =
    Some (Ptr (nxt h) (int (sdsHdrSize (room_type n))), moved h b (sds_bytes B))"
proof -
  note rt = room_type_props [of n]
  note S = grow_sizes [OF ft n]
  note U = sdsMakeRoomFor_unfold [OF at wf grow n ft]
  have len: "slen A \<le> grow_len n" using grow_len_ge [of n] n by simp
  have lim: "grow_len n < type_limit (room_type n)" using rt(3) S(5) by simp
  have al': "can_alloc h (nxt h) (sdsHdrSize (room_type n) + grow_len n + 1)"
    using al by (simp add: room_size_def)
  show ?thesis
  proof (cases "ty A = room_type n")
    case True
    with move_same_type [OF at wf ok _ len] al' lim rt(2) U show ?thesis
      by (simp only: room_size_def) simp
  next
    case False
    have "fst (s_malloc h (room_size n)) \<noteq> Null" using al by (simp add: s_malloc_ok)
    with False move_new_type [OF at wf ok rt(1) _ al' len lim] rt(2) U show ?thesis
      by (auto simp: room_size_def split: prod.splits)
  qed
qed

text \<open>
  When the allocator refuses: with a header change the old string is intact and \<open>NULL\<close> is
  returned; without one the code tests \<open>newlen == 0\<close> where it should test
  \<open>newsh == NULL\<close>, and goes on to write through the null pointer.
\<close>

lemma sdsMakeRoomFor_oom_new_type:
  assumes "sds_at h s b A" "sds_room A" "\<not> addlen \<le> salloc A - slen A" "n = slen A + addlen" "fits n"
    "\<not> can_alloc h (nxt h) (room_size n)" "ty A \<noteq> room_type n"
  shows "sdsMakeRoomFor h s addlen = Some (Null, bump h)"
  using sdsMakeRoomFor_unfold [OF assms(1-5)] assms(6,7) by (simp add: s_malloc_fail)

lemma sdsMakeRoomFor_oom_same_type:
  assumes at: "sds_at h s b A" and "sds_room A" "\<not> addlen \<le> salloc A - slen A" "n = slen A + addlen" "fits n"
    "\<not> can_alloc h (nxt h) (room_size n)" "ty A = room_type n"
  shows "sdsMakeRoomFor h s addlen = None"
proof -
  have "s_realloc h (Ptr b 0) (room_size n) = Some (Null, bump h)"
    using sds_atD(2) [OF at] assms(6) by (simp add: s_realloc_def s_malloc_fail)
  moreover have "sdssetalloc g Null x = None" for g x
    by (simp add: sdssetalloc_def load_def load_bytes_def)
  ultimately show ?thesis
    using sdsMakeRoomFor_unfold [OF assms(1-5)] assms(7) sds_atD(1) [OF at] by simp
qed

subsection \<open>How an operation changes the heap\<close>

text \<open>
  \<open>evolves h b h' b'\<close>: the string of block \<open>b\<close> now lives in block \<open>b'\<close>; if it
  moved, the new block was free before and the old one is free now; no other block changed.
  This is the frame and the absence of leaks in one relation, and it composes.
\<close>

definition evolves :: "heap \<Rightarrow> nat \<Rightarrow> heap \<Rightarrow> nat \<Rightarrow> bool" where
  "evolves h b h' b' \<longleftrightarrow>
     (\<forall>c. c \<noteq> b \<longrightarrow> c \<noteq> b' \<longrightarrow> mem h' c = mem h c) \<and>
     (b' \<noteq> b \<longrightarrow> mem h b' = None \<and> mem h' b = None) \<and>
     nxt h \<le> nxt h' \<and> can_alloc h' = can_alloc h \<and> heap_ok h'"

lemma evolves_refl: "heap_ok h \<Longrightarrow> evolves h b h b"
  by (simp add: evolves_def)

lemma evolves_upd: "heap_ok h \<Longrightarrow> mem h b = Some ys \<Longrightarrow> evolves h b (upd h b xs) b"
  by (simp add: evolves_def heap_ok_upd)

lemma evolves_moved: "heap_ok h \<Longrightarrow> b \<noteq> nxt h \<Longrightarrow> evolves h b (moved h b xs) (nxt h)"
  by (simp add: evolves_def heap_ok_moved heap_ok_fresh)

lemma evolves_trans:
  "evolves h b h1 b1 \<Longrightarrow> evolves h1 b1 h2 b2 \<Longrightarrow> evolves h b h2 b2"
  unfolding evolves_def by (metis order_trans)

lemma evolves_load:
  assumes "evolves h b h' b'" "block_of p \<noteq> Some b" "load_bytes h p n = Some xs"
  shows "load_bytes h' p n = Some xs"
proof (cases p)
  case (Ptr c i)
  show ?thesis
  proof (cases "n = 0")
    case False
    with assms Ptr have "mem h c \<noteq> None" by (auto simp: load_bytes_def split: option.splits)
    with assms(1,2) Ptr have "mem h' c = mem h c" by (auto simp: evolves_def)
    then have "contents h' p = contents h p" using Ptr by simp
    with assms(3) show ?thesis using load_bytes_cong by metis
  qed (use assms(3) in simp)
qed (use assms(3) in \<open>auto simp: load_bytes_def split: if_splits\<close>)

lemma evolves_at:
  assumes "evolves h b h' b'" "sds_at h t c T" "c \<noteq> b"
  shows "sds_at h' t c T"
proof -
  have "mem h c \<noteq> None" using assms(2) by (simp add: sds_at_def)
  then have "mem h' c = mem h c" using assms(1,3) by (auto simp: evolves_def)
  with assms(2) show ?thesis by (simp add: sds_at_def)
qed

text \<open>
  \<open>sds_holds h s b xs\<close>: \<open>s\<close> is a well-formed string with value \<open>xs\<close>.  This is the
  abstract view the clients of the library work with.
\<close>

definition sds_holds :: "heap \<Rightarrow> ptr \<Rightarrow> nat \<Rightarrow> byte list \<Rightarrow> bool" where
  "sds_holds h s b xs \<longleftrightarrow> (\<exists>A. sds_at h s b A \<and> sds_wf A \<and> sds_val A = xs)"

lemma sds_holdsI: "sds_at h s b A \<Longrightarrow> sds_wf A \<Longrightarrow> sds_val A = xs \<Longrightarrow> sds_holds h s b xs"
  by (auto simp: sds_holds_def)

lemma sds_val_length: "sds_wf A \<Longrightarrow> length (sds_val A) = slen A"
  by (simp add: sds_val_def sds_wf_def)

lemma sds_holds_len: "sds_holds h s b xs \<Longrightarrow> sdslen h s = Some (length xs)"
  by (auto simp: sds_holds_def sdslen_at sds_val_length)

lemma sds_holds_evolves: "evolves h b h' b' \<Longrightarrow> sds_holds h t c xs \<Longrightarrow> c \<noteq> b \<Longrightarrow> sds_holds h' t c xs"
  by (auto simp: sds_holds_def intro: evolves_at)

lemma sds_holds_load: "sds_holds h s b xs \<Longrightarrow> load_bytes h s (length xs) = Some xs"
proof -
  assume "sds_holds h s b xs"
  then obtain A where A: "sds_at h s b A" "sds_wf A" "sds_val A = xs" by (auto simp: sds_holds_def)
  then have "length xs = slen A" using sds_val_length by auto
  then show ?thesis using sds_load_buf [OF A(1), of 0 "length xs"] A(2,3)
    by (simp add: sds_wf_def sds_val_def)
qed

lemma sds_holds_block: "sds_holds h s b xs \<Longrightarrow> block_of s = Some b"
  by (auto simp: sds_holds_def sds_at_def)

lemma sds_holds_not_Null: "sds_holds h s b xs \<Longrightarrow> s \<noteq> Null"
  by (auto simp: sds_holds_def sds_at_def)

text \<open>What \<open>sdsMakeRoomFor\<close> gives its callers when the allocator serves the request.\<close>

lemma sdsMakeRoomFor_room:
  assumes at: "sds_at h s b A" and rm: "sds_room A" and ok: "heap_ok h"
    and ft: "fits (slen A + addlen)"
    and al: "\<not> addlen \<le> salloc A - slen A \<longrightarrow> can_alloc h (nxt h) (room_size (slen A + addlen))"
  obtains s' h' b' B where "sdsMakeRoomFor h s addlen = Some (s', h')" "sds_at h' s' b' B" "sds_room B"
    "slen B = slen A" "sds_val B = sds_val A" "slen A + addlen \<le> salloc B" "evolves h b h' b'"
    "s' \<noteq> Null" "sds_wf A \<Longrightarrow> sds_wf B"
proof (cases "addlen \<le> salloc A - slen A")
  case True
  then have "slen A + addlen \<le> salloc A" using rm by (auto simp: sds_room_def)
  then show ?thesis
    using that [OF sdsMakeRoomFor_enough [OF at rm True] at rm] evolves_refl [OF ok] sds_atD(1) [OF at]
    by simp
next
  case False
  let ?n = "slen A + addlen"
  note rt = room_type_props [of ?n]
  have fresh: "b \<noteq> nxt h" using sds_atD(2) [OF at] ok by (auto simp: heap_ok_def)
  have g64: "grow_len ?n < 2 ^ 64" using grow_sizes(5) [OF ft refl] .
  obtain B where B: "regrown A (room_type ?n) (grow_len ?n) B"
    "sdsMakeRoomFor h s addlen =
      Some (Ptr (nxt h) (int (sdsHdrSize (room_type ?n))), moved h b (sds_bytes B))"
    using sdsMakeRoomFor_grow [OF at rm ok False refl ft] al False by blast
  have le: "slen A \<le> grow_len ?n" "?n \<le> grow_len ?n" using grow_len_ge [of ?n] by simp_all
  have lay: "sds_layout B" using regrown_layout [OF B(1) rt(1) _ _ le(1)] rt(2,3) g64 by blast
  have atB: "sds_at (moved h b (sds_bytes B)) (Ptr (nxt h) (int (sdsHdrSize (room_type ?n)))) (nxt h) B"
    using lay regrownD(1) [OF B(1)] by (simp add: sds_at_def)
  have bd: "slen A < length (sbuf A)" using rm by (simp add: sds_room_def)
  have rmB: "sds_room B" using regrownD [OF B(1)] le by (simp add: sds_room_def)
  show ?thesis
    using that [OF B(2) atB rmB] regrown_wf [OF B(1) _ le(1)] regrownD [OF B(1)] le
      regrown_val [OF B(1) bd le(1)] evolves_moved [OF ok fresh] by simp
qed

lemma sdsMakeRoomFor_spec:
  assumes at: "sds_at h s b A" and wf: "sds_wf A" and ok: "heap_ok h"
    and ft: "fits (slen A + addlen)"
    and al: "\<not> addlen \<le> salloc A - slen A \<longrightarrow> can_alloc h (nxt h) (room_size (slen A + addlen))"
  obtains s' h' b' B where "sdsMakeRoomFor h s addlen = Some (s', h')" "sds_at h' s' b' B" "sds_wf B"
    "slen B = slen A" "sds_val B = sds_val A" "slen A + addlen \<le> salloc B" "evolves h b h' b'"
    "s' \<noteq> Null"
  by (rule sdsMakeRoomFor_room [OF at sds_wf_room [OF wf] ok ft al]) (use that wf in blast)

subsection \<open>Appending\<close>

text \<open>The writes after the room is there, in any order of value and terminator.\<close>

lemma append_tail:
  assumes at: "sds_at h s b A" and wf: "sds_wf A" and room: "slen A + length xs \<le> salloc A"
  defines "n \<equiv> slen A + length xs"
  shows "\<exists>B. do {
      h \<leftarrow> store_bytes h (padd s (int (slen A))) xs;
      h \<leftarrow> sdssetlen h s n;
      store h (padd s (int n)) 0
    } = Some (upd h b (sds_bytes B)) \<and> sds_at (upd h b (sds_bytes B)) s b B \<and> sds_wf B
      \<and> slen B = n \<and> sds_val B = sds_val A @ xs"
proof -
  have bd: "salloc A < length (sbuf A)" "slen A \<le> salloc A" using wf by (simp_all add: sds_wf_def)
  have lim: "n < type_limit (ty A)" "ty A = SDS_TYPE_5 \<longrightarrow> salloc A = slen A"
    using room sds_atD(3) [OF at] by (auto simp: sds_layout_def n_def)
  let ?A1 = "A\<lparr>sbuf := overwrite (sbuf A) (slen A) xs\<rparr>"
  have 1: "store_bytes h (padd s (int (slen A))) xs = Some (upd h b (sds_bytes ?A1))"
    using room bd by (intro sds_store_buf [OF at]) auto
  have lay1: "sds_layout ?A1" using sds_atD(3) [OF at] by (simp add: sds_layout_def)
  have at1: "sds_at (upd h b (sds_bytes ?A1)) s b ?A1" using sds_at_upd [OF at lay1] by simp
  let ?A2 = "with_len ?A1 n"
  have 2: "sdssetlen (upd h b (sds_bytes ?A1)) s n = Some (upd h b (sds_bytes ?A2))"
    using sdssetlen_at [OF at1] by simp
  have lay2: "sds_layout ?A2" using sds_layout_with_len [OF lay1] lim by simp
  have at2: "sds_at (upd h b (sds_bytes ?A2)) s b ?A2" using sds_at_upd [OF at lay2] by simp
  let ?B = "?A2\<lparr>sbuf := (overwrite (sbuf A) (slen A) xs)[n := 0]\<rparr>"
  have len: "length (overwrite (sbuf A) (slen A) xs) = length (sbuf A)" using room bd by simp
  have 3: "store (upd h b (sds_bytes ?A2)) (padd s (int n)) 0 = Some (upd h b (sds_bytes ?B))"
    using sds_store_char [OF at2, of n 0] room bd len by (simp add: n_def)
  have layB: "sds_layout ?B" using lay2 by (simp add: sds_layout_def)
  have atB: "sds_at (upd h b (sds_bytes ?B)) s b ?B" using sds_at_upd [OF at layB] by simp
  have wfB: "sds_wf ?B" using room bd len lim by (auto simp: sds_wf_def n_def)
  have vB: "sds_val ?B = sds_val A @ xs"
    using room bd by (simp add: sds_val_def n_def take_overwrite_all)
  show ?thesis using 1 2 3 atB wfB vB by (intro exI [of _ ?B]) simp
qed

lemma sdscatlen_ok:
  assumes hold: "sds_holds h s b xs" and ok: "heap_ok h" and ft: "fits (length xs + length ys)"
    and al: "\<forall>c n. can_alloc h c n"
    and src: "load_bytes h t (length ys) = Some ys" "block_of t \<noteq> Some b"
  obtains s' h' b' where "sdscatlen h s t (length ys) = Some (s', h')" "sds_holds h' s' b' (xs @ ys)"
    "evolves h b h' b'"
proof -
  obtain A where A: "sds_at h s b A" "sds_wf A" "sds_val A = xs" using hold by (auto simp: sds_holds_def)
  have lx: "length xs = slen A" using A sds_val_length by auto
  have ft': "fits (slen A + length ys)" using ft lx by simp
  have al': "\<not> length ys \<le> salloc A - slen A \<longrightarrow> can_alloc h (nxt h) (room_size (slen A + length ys))"
    using al by simp
  obtain s' h' b' B where B: "sdsMakeRoomFor h s (length ys) = Some (s', h')" "sds_at h' s' b' B"
    "sds_wf B" "slen B = slen A" "sds_val B = sds_val A" "slen A + length ys \<le> salloc B"
    "evolves h b h' b'" "s' \<noteq> Null"
    by (rule sdsMakeRoomFor_spec [OF A(1,2) ok ft' al'])
  have nb: "block_of t \<noteq> Some b'" if "ys \<noteq> []"
  proof (cases "b' = b")
    case False
    with B(7) have "mem h b' = None" by (simp add: evolves_def)
    with src(1) that show ?thesis by (cases t) (auto simp: load_bytes_def split: if_splits)
  qed (use src(2) in simp)
  have ld: "load_bytes h' t (length ys) = Some ys" using evolves_load [OF B(7) src(2,1)] .
  have room: "slen B + length ys \<le> salloc B" using B by simp
  obtain C where C: "do {
      h \<leftarrow> store_bytes h' (padd s' (int (slen B))) ys;
      h \<leftarrow> sdssetlen h s' (slen B + length ys);
      store h (padd s' (int (slen B + length ys))) 0
    } = Some (upd h' b' (sds_bytes C))" "sds_at (upd h' b' (sds_bytes C)) s' b' C" "sds_wf C"
    "sds_val C = sds_val B @ ys"
    using append_tail [OF B(2,3) room] by blast
  have cp: "memcpy h' (padd s' (int (slen A))) t (length ys) = store_bytes h' (padd s' (int (slen A))) ys"
  proof (cases "ys = []")
    case False
    then have "\<not> overlaps (padd s' (int (slen A))) t (length ys)"
      using nb sds_atD(1) [OF B(2)] by (cases t) auto
    then show ?thesis using ld by (simp add: memcpy_def)
  qed simp
  have sz: "size_add (slen A) (length ys) = slen A + length ys"
    using ft' by (simp add: size_add_exact fits_def)
  have "sdscatlen h s t (length ys) = Some (s', upd h' b' (sds_bytes C))"
    using C(1) B(1,4,8) by (simp add: sdscatlen_def sdslen_at [OF A(1)] sz cp bind_eq_Some_conv)
  moreover have "sds_holds (upd h' b' (sds_bytes C)) s' b' (xs @ ys)"
    using C(2-4) B(5) A(3) by (intro sds_holdsI) auto
  moreover have "evolves h b (upd h' b' (sds_bytes C)) b'"
    using evolves_trans [OF B(7) evolves_upd] B(7) sds_atD(2) [OF B(2)] by (simp add: evolves_def)
  ultimately show ?thesis using that by blast
qed

subsection \<open>Copying over, growing, shrinking\<close>

lemma memcpy_disjoint:
  assumes "load_bytes h t n = Some xs" "block_of t \<noteq> block_of d \<or> block_of t = None"
  shows "memcpy h d t n = store_bytes h d xs"
proof -
  have "\<not> overlaps d t n" using assms(2) by (cases d; cases t) auto
  with assms(1) show ?thesis by (simp add: memcpy_def)
qed

text \<open>Readable bytes are not in the block a string moved to.\<close>

lemma evolves_src:
  assumes "evolves h b h' b'" "load_bytes h t (length ys) = Some ys" "block_of t \<noteq> Some b" "ys \<noteq> []"
  shows "block_of t \<noteq> Some b'"
proof (cases "b' = b")
  case False
  with assms(1) have "mem h b' = None" by (simp add: evolves_def)
  with assms(2,4) show ?thesis by (cases t) (auto simp: load_bytes_def split: if_splits)
qed (use assms(3) in simp)

text \<open>Bytes written at the start, the length set, the terminator written.\<close>

lemma replace_tail:
  assumes at: "sds_at h s b A" and wf: "sds_wf A" and room: "length xs \<le> salloc A"
  shows "\<exists>B. do {
      h \<leftarrow> store_bytes h s xs;
      h \<leftarrow> store h (padd s (int (length xs))) 0;
      sdssetlen h s (length xs)
    } = Some (upd h b (sds_bytes B)) \<and> sds_at (upd h b (sds_bytes B)) s b B \<and> sds_wf B
      \<and> sds_val B = xs"
proof -
  have bd: "salloc A < length (sbuf A)" using wf by (simp add: sds_wf_def)
  have lim: "length xs < type_limit (ty A)" using room sds_atD(3) [OF at] by (auto simp: sds_layout_def)
  let ?A1 = "A\<lparr>sbuf := overwrite (sbuf A) 0 xs\<rparr>"
  have 1: "store_bytes h s xs = Some (upd h b (sds_bytes ?A1))"
    using sds_store_buf [OF at, of 0 xs] room bd by simp
  have lay1: "sds_layout ?A1" using sds_atD(3) [OF at] by (simp add: sds_layout_def)
  have at1: "sds_at (upd h b (sds_bytes ?A1)) s b ?A1" using sds_at_upd [OF at lay1] by simp
  let ?A2 = "A\<lparr>sbuf := (overwrite (sbuf A) 0 xs)[length xs := 0]\<rparr>"
  have 2: "store (upd h b (sds_bytes ?A1)) (padd s (int (length xs))) 0 = Some (upd h b (sds_bytes ?A2))"
    using sds_store_char [OF at1, of "length xs" 0] room bd by simp
  have lay2: "sds_layout ?A2" using sds_atD(3) [OF at] by (simp add: sds_layout_def)
  have at2: "sds_at (upd h b (sds_bytes ?A2)) s b ?A2" using sds_at_upd [OF at lay2] by simp
  let ?B = "with_len ?A2 (length xs)"
  have 3: "sdssetlen (upd h b (sds_bytes ?A2)) s (length xs) = Some (upd h b (sds_bytes ?B))"
    using sdssetlen_at [OF at2] by simp
  have layB: "sds_layout ?B" using sds_layout_with_len [OF lay2] lim by simp
  have atB: "sds_at (upd h b (sds_bytes ?B)) s b ?B" using sds_at_upd [OF at layB] by simp
  have wfB: "sds_wf ?B" using room bd by (auto simp: sds_wf_def)
  have vB: "sds_val ?B = xs" using room bd by (simp add: sds_val_def overwrite_def)
  show ?thesis using 1 2 3 atB wfB vB by (intro exI [of _ ?B]) simp
qed

lemma sdscpylen_ok:
  assumes hold: "sds_holds h s b xs" and ok: "heap_ok h" and ft: "fits (length ys)"
    and al: "\<forall>c n. can_alloc h c n"
    and src: "load_bytes h t (length ys) = Some ys" "block_of t \<noteq> Some b"
  obtains s' h' b' where "sdscpylen h s t (length ys) = Some (s', h')" "sds_holds h' s' b' ys"
    "evolves h b h' b'"
proof -
  obtain A where A: "sds_at h s b A" "sds_wf A" "sds_val A = xs" using hold by (auto simp: sds_holds_def)
  have le: "slen A \<le> salloc A" using A(2) by (simp add: sds_wf_def)
  define r where "r = (if salloc A < length ys then sdsMakeRoomFor h s (size_sub (length ys) (slen A))
    else Some (s, h))"
  have "\<exists>s' h' b' B. r = Some (s', h') \<and> sds_at h' s' b' B \<and> sds_wf B \<and> length ys \<le> salloc B
      \<and> evolves h b h' b' \<and> s' \<noteq> Null"
  proof (cases "salloc A < length ys")
    case True
    have sz: "size_sub (length ys) (slen A) = length ys - slen A"
      using True le ft by (intro size_sub_exact) (auto simp: fits_def)
    have ft': "fits (slen A + (length ys - slen A))" using True le ft by simp
    have al': "\<not> length ys - slen A \<le> salloc A - slen A \<longrightarrow>
        can_alloc h (nxt h) (room_size (slen A + (length ys - slen A)))"
      using al by simp
    obtain s' h' b' B where "sdsMakeRoomFor h s (length ys - slen A) = Some (s', h')" "sds_at h' s' b' B"
      "sds_wf B" "slen B = slen A" "sds_val B = sds_val A" "slen A + (length ys - slen A) \<le> salloc B"
      "evolves h b h' b'" "s' \<noteq> Null"
      by (rule sdsMakeRoomFor_spec [OF A(1,2) ok ft' al'])
    then show ?thesis using True le sz by (auto simp: r_def)
  next
    case False
    then show ?thesis using A(1,2) evolves_refl [OF ok] sds_atD(1) [OF A(1)]
      by (auto simp: r_def intro!: exI [of _ A])
  qed
  then obtain s' h' b' B where B: "r = Some (s', h')" "sds_at h' s' b' B" "sds_wf B"
    "length ys \<le> salloc B" "evolves h b h' b'" "s' \<noteq> Null" by blast
  obtain C where C: "do {
      h \<leftarrow> store_bytes h' s' ys;
      h \<leftarrow> store h (padd s' (int (length ys))) 0;
      sdssetlen h s' (length ys)
    } = Some (upd h' b' (sds_bytes C))" "sds_at (upd h' b' (sds_bytes C)) s' b' C" "sds_wf C"
    "sds_val C = ys"
    using replace_tail [OF B(2-4)] by blast
  have cp: "memcpy h' s' t (length ys) = store_bytes h' s' ys"
  proof (cases "ys = []")
    case False
    then show ?thesis
      using evolves_src [OF B(5) src] evolves_load [OF B(5) src(2,1)] sds_atD(1) [OF B(2)]
      by (intro memcpy_disjoint) auto
  qed simp
  have "sdscpylen h s t (length ys) = Some (s', upd h' b' (sds_bytes C))"
    unfolding sdscpylen_def sdsalloc_at [OF A(1)] sdslen_at [OF A(1)] bind.bind_lunit r_def [symmetric]
    using C(1) B(1,6) cp by (simp add: bind_eq_Some_conv)
  moreover have "evolves h b (upd h' b' (sds_bytes C)) b'"
    using evolves_trans [OF B(5) evolves_upd] B(5) sds_atD(2) [OF B(2)] by (simp add: evolves_def)
  ultimately show ?thesis using that sds_holdsI [OF C(2-4)] by blast
qed

end
