(* ===== verification/Sds_Resize.thy ===== *)
theory Sds_Resize
  imports Sds_Core
begin

text \<open>
  The operations of \<open>redis-learnning/sds/sds.c\<close> that change the length or the capacity of a
  string in place (\<open>sdsclear\<close>, \<open>sdsIncrLen\<close>, \<open>sdsgrowzero\<close>,
  \<open>sdsRemoveFreeSpace\<close>, \<open>sdsupdatelen\<close>) and the derived constructors and
  concatenations on NUL-terminated arguments.  Their definitions are in \<open>Sds_Core\<close>; this
  theory holds what each of them guarantees.
\<close>

subsection \<open>Clearing and growing\<close>

lemma sdsclear_ok:
  assumes hold: "sds_holds h s b xs" and ok: "heap_ok h"
  obtains h' where "sdsclear h s = Some h'" "sds_holds h' s b []" "evolves h b h' b"
proof -
  obtain A where A: "sds_at h s b A" "sds_wf A" using hold by (auto simp: sds_holds_def)
  have bd: "salloc A < length (sbuf A)" using A(2) by (simp add: sds_wf_def)
  let ?A1 = "with_len A 0"
  have lay1: "sds_layout ?A1"
    using sds_layout_with_len [OF sds_atD(3) [OF A(1)], of 0] sds_atD(3) [OF A(1)] by (simp add: sds_layout_def)
  have at1: "sds_at (upd h b (sds_bytes ?A1)) s b ?A1" using sds_at_upd [OF A(1) lay1] by simp
  let ?B = "?A1\<lparr>sbuf := (sbuf A)[0 := 0]\<rparr>"
  have "store (upd h b (sds_bytes ?A1)) s 0 = Some (upd h b (sds_bytes ?B))"
    using sds_store_char [OF at1, of 0 0] bd by fastforce
  then have 1: "sdsclear h s = Some (upd h b (sds_bytes ?B))"
    using sdssetlen_at [OF A(1)] by (simp add: sdsclear_def)
  have layB: "sds_layout ?B" using lay1 by (simp add: sds_layout_def)
  have "sds_at (upd h b (sds_bytes ?B)) s b ?B" using sds_at_upd [OF A(1) layB] by simp
  moreover have "sds_wf ?B" using bd by (cases "sbuf A") (auto simp: sds_wf_def)
  ultimately have "sds_holds (upd h b (sds_bytes ?B)) s b []"
    by (rule sds_holdsI) (simp add: sds_val_def)
  with 1 show ?thesis using that evolves_upd [OF ok sds_atD(2) [OF A(1)]] by blast
qed

lemma sdsgrowzero_ok:
  assumes hold: "sds_holds h s b xs" and ok: "heap_ok h" and ft: "fits n"
    and al: "\<forall>c n. can_alloc h c n"
  obtains s' h' b' where "sdsgrowzero h s n = Some (s', h')"
    "sds_holds h' s' b' (xs @ replicate (n - length xs) 0)" "evolves h b h' b'"
proof (cases "n \<le> length xs")
  case True
  then show ?thesis using that [of s h b] hold evolves_refl [OF ok]
    by (simp add: sdsgrowzero_def sds_holds_len [OF hold])
next
  case False
  obtain A where A: "sds_at h s b A" "sds_wf A" "sds_val A = xs" using hold by (auto simp: sds_holds_def)
  have lx: "length xs = slen A" using A sds_val_length by auto
  let ?k = "n - slen A"
  have ft': "fits (slen A + ?k)" using ft False lx by simp
  have al': "\<not> ?k \<le> salloc A - slen A \<longrightarrow> can_alloc h (nxt h) (room_size (slen A + ?k))" using al by simp
  obtain s' h' b' B where B: "sdsMakeRoomFor h s ?k = Some (s', h')" "sds_at h' s' b' B"
    "sds_wf B" "slen B = slen A" "sds_val B = sds_val A" "slen A + ?k \<le> salloc B"
    "evolves h b h' b'" "s' \<noteq> Null"
    by (rule sdsMakeRoomFor_spec [OF A(1,2) ok ft' al'])
  have bd: "n < length (sbuf B)" "n \<le> salloc B" using B False lx by (auto simp: sds_wf_def)
  have lim: "n < type_limit (ty B)" using bd(2) sds_atD(3) [OF B(2)] by (auto simp: sds_layout_def)
  let ?B1 = "B\<lparr>sbuf := overwrite (sbuf B) (slen A) (replicate (?k + 1) 0)\<rparr>"
  have 1: "memset h' (padd s' (int (slen A))) 0 (?k + 1) = Some (upd h' b' (sds_bytes ?B1))"
    unfolding memset_def using bd False lx by (intro sds_store_buf [OF B(2)]) auto
  have lay1: "sds_layout ?B1" using sds_atD(3) [OF B(2)] by (simp add: sds_layout_def)
  have at1: "sds_at (upd h' b' (sds_bytes ?B1)) s' b' ?B1" using sds_at_upd [OF B(2) lay1] by simp
  let ?C = "with_len ?B1 n"
  have 2: "sdssetlen (upd h' b' (sds_bytes ?B1)) s' n = Some (upd h' b' (sds_bytes ?C))"
    using sdssetlen_at [OF at1] by simp
  have layC: "sds_layout ?C" using sds_layout_with_len [OF lay1] lim by simp
  have atC: "sds_at (upd h' b' (sds_bytes ?C)) s' b' ?C" using sds_at_upd [OF B(2) layC] by simp
  have buf: "sbuf ?C = take (slen A) (sbuf B) @ replicate (?k + 1) 0 @ drop (n + 1) (sbuf B)"
    using False lx by (simp add: overwrite_def)
  have lt: "length (take (slen A) (sbuf B)) = slen A" using bd False lx by simp
  have "take n (sbuf ?C) = take (slen A) (sbuf B) @ replicate ?k 0"
    unfolding buf using False lx lt by (simp add: replicate_append_same [symmetric])
  moreover have "sbuf ?C ! n = 0"
    unfolding buf using False lx lt by (auto simp: nth_append nth_Cons' simp del: replicate.simps)
  moreover have "length (sbuf ?C) = length (sbuf B)" unfolding buf using bd False lx by simp
  ultimately have "sds_wf ?C" "sds_val ?C = xs @ replicate (n - length xs) 0"
    using bd B(3-5) A(3) lx by (auto simp: sds_wf_def sds_val_def)
  then have "sds_holds (upd h' b' (sds_bytes ?C)) s' b' (xs @ replicate (n - length xs) 0)"
    using atC by (intro sds_holdsI)
  moreover have "sdsgrowzero h s n = Some (s', upd h' b' (sds_bytes ?C))"
    using B(1,8) 1 2 False lx by (simp add: sdsgrowzero_def sdslen_at [OF A(1)])
  moreover have "evolves h b (upd h' b' (sds_bytes ?C)) b'"
    using evolves_trans [OF B(7) evolves_upd] B(7) sds_atD(2) [OF B(2)] by (simp add: evolves_def)
  ultimately show ?thesis using that by blast
qed

subsection \<open>Giving back the spare room\<close>

text \<open>
  \<open>sdsRemoveFreeSpace\<close> keeps the value; afterwards the string has no spare room at all.
\<close>

lemma sdsRemoveFreeSpace_unfold:
  assumes at: "sds_at h s b A" and wf: "sds_wf A" and free: "slen A < salloc A" and ft: "fits (slen A)"
  defines "t \<equiv> sdsReqType (slen A)"
  shows "sdsRemoveFreeSpace h s =
    (if ty A = t \<or> SDS_TYPE_8 < t then do {
       (newsh, h) \<leftarrow> s_realloc h (padd s (- int (sdsHdrSize (ty A)))) (sdsHdrSize (ty A) + slen A + 1);
       if newsh = Null then Some (Null, h)
       else do {
         h \<leftarrow> sdssetalloc h (padd newsh (int (sdsHdrSize (ty A)))) (slen A);
         Some (padd newsh (int (sdsHdrSize (ty A))), h)
       }
     }
     else (case s_malloc h (sdsHdrSize t + slen A + 1) of (newsh, h) \<Rightarrow>
       if newsh = Null then Some (Null, h)
       else do {
         h \<leftarrow> memcpy h (padd newsh (int (sdsHdrSize t))) s (slen A + 1);
         h \<leftarrow> s_free h (padd s (- int (sdsHdrSize (ty A))));
         h \<leftarrow> store h (padd (padd newsh (int (sdsHdrSize t))) (-1)) t;
         h \<leftarrow> sdssetlen h (padd newsh (int (sdsHdrSize t))) (slen A);
         h \<leftarrow> sdssetalloc h (padd newsh (int (sdsHdrSize t))) (slen A);
         Some (padd newsh (int (sdsHdrSize t)), h)
       }))"
proof -
  have le: "slen A \<le> salloc A" using free by simp
  have sz: "size_add (size_add (sdsHdrSize u) (slen A)) 1 = sdsHdrSize u + slen A + 1" for u
    using ft by (intro size_total) (simp add: fits_def)
  have ne: "\<not> salloc A - slen A = 0" using free by simp
  show ?thesis
    unfolding sdsRemoveFreeSpace_def sdsavail_at [OF at le] sds_flags [OF at] sdslen_at [OF at]
      bind.bind_lunit Let_def flag_byte_type [OF sds_atD(4) [OF at]] sz t_def [symmetric]
    using ne by (simp only: if_False)
qed

lemma sdsRemoveFreeSpace_ok:
  assumes hold: "sds_holds h s b xs" and ok: "heap_ok h" and ft: "fits (length xs)"
    and al: "\<forall>c n. can_alloc h c n"
  obtains s' h' b' where "sdsRemoveFreeSpace h s = Some (s', h')" "sds_holds h' s' b' xs"
    "sdsavail h' s' = Some 0" "evolves h b h' b'"
proof -
  obtain A where A: "sds_at h s b A" "sds_wf A" "sds_val A = xs" using hold by (auto simp: sds_holds_def)
  have lx: "length xs = slen A" using A sds_val_length by auto
  have le: "slen A \<le> salloc A" using A(2) by (simp add: sds_wf_def)
  show ?thesis
  proof (cases "salloc A = slen A")
    case True
    then have "sdsRemoveFreeSpace h s = Some (s, h)"
      using sdsavail_at [OF A(1) le] sds_flags [OF A(1)] sdslen_at [OF A(1)]
      by (simp add: sdsRemoveFreeSpace_def)
    with True show ?thesis using that hold sdsavail_at [OF A(1) le] evolves_refl [OF ok] by simp
  next
    case False
    let ?t = "sdsReqType (slen A)"
    have lt: "slen A < salloc A" using False le by simp
    have ne: "ty A \<noteq> SDS_TYPE_5" using False sds_atD(3) [OF A(1)] by (auto simp: sds_layout_def)
    have lim: "slen A < type_limit (ty A)" using sds_atD(3) [OF A(1)] by (simp add: sds_layout_def)
    have "slen A < 2 ^ 64" using ft lx by (simp add: fits_def)
    then have limt: "slen A < type_limit ?t" by (rule sdsReqType_limit)
    note U = sdsRemoveFreeSpace_unfold [OF A(1,2) lt ft [unfolded lx]]
    have "\<exists>u B. is_type u \<and> slen A < type_limit u \<and> regrown A u (slen A) B \<and>
        sdsRemoveFreeSpace h s = Some (Ptr (nxt h) (int (sdsHdrSize u)), moved h b (sds_bytes B))"
    proof (cases "ty A = ?t \<or> SDS_TYPE_8 < ?t")
      case True
      obtain B where B: "regrown A (ty A) (slen A) B"
        "do {
          (newsh, h) \<leftarrow> s_realloc h (padd s (- int (sdsHdrSize (ty A)))) (sdsHdrSize (ty A) + slen A + 1);
          h \<leftarrow> sdssetalloc h (padd newsh (int (sdsHdrSize (ty A)))) (slen A);
          Some (padd newsh (int (sdsHdrSize (ty A))), h)
        } = Some (Ptr (nxt h) (int (sdsHdrSize (ty A))), moved h b (sds_bytes B))"
        using move_same_type [OF A(1) sds_wf_room [OF A(2)] ok _ _ lim ne] al by blast
      obtain g where g: "s_realloc h (padd s (- int (sdsHdrSize (ty A)))) (sdsHdrSize (ty A) + slen A + 1)
          = Some (Ptr (nxt h) 0, g)"
        using s_realloc_ok [OF sds_atD(2) [OF A(1)] ok] al sds_atD(1) [OF A(1)] by simp
      show ?thesis using B U [unfolded g bind.bind_lunit] True sds_atD(4) [OF A(1)] lim
        unfolding g by (intro exI [of _ "ty A"] exI [of _ B]) simp
    next
      case nt: False
      obtain B where B: "regrown A ?t (slen A) B"
        "(case s_malloc h (sdsHdrSize ?t + slen A + 1) of (newsh, h) \<Rightarrow>
          do {
            h \<leftarrow> memcpy h (padd newsh (int (sdsHdrSize ?t))) s (slen A + 1);
            h \<leftarrow> s_free h (padd s (- int (sdsHdrSize (ty A))));
            h \<leftarrow> store h (padd (padd newsh (int (sdsHdrSize ?t))) (-1)) ?t;
            h \<leftarrow> sdssetlen h (padd newsh (int (sdsHdrSize ?t))) (slen A);
            h \<leftarrow> sdssetalloc h (padd newsh (int (sdsHdrSize ?t))) (slen A);
            Some (padd newsh (int (sdsHdrSize ?t)), h)
          }) = Some (Ptr (nxt h) (int (sdsHdrSize ?t)), moved h b (sds_bytes B))"
        using move_new_type [OF A(1) sds_wf_room [OF A(2)] ok _ _ _ order_refl limt] al by auto
      have "s_malloc h sz \<noteq> (Null, g)" for sz g using al by (simp add: s_malloc_ok)
      with B U nt limt show ?thesis
        by (intro exI [of _ ?t] exI [of _ B]) (auto split: prod.splits)
    qed
    then obtain u B where B: "is_type u" "slen A < type_limit u" "regrown A u (slen A) B"
      "sdsRemoveFreeSpace h s = Some (Ptr (nxt h) (int (sdsHdrSize u)), moved h b (sds_bytes B))"
      by blast
    have lay: "sds_layout B" using regrown_layout [OF B(3,1) _ B(2)] by simp
    have atB: "sds_at (moved h b (sds_bytes B)) (Ptr (nxt h) (int (sdsHdrSize u))) (nxt h) B"
      using lay regrownD(1) [OF B(3)] by (simp add: sds_at_def)
    have wfB: "sds_wf B" using regrown_wf [OF B(3) A(2)] by simp
    have "slen A < length (sbuf A)" using A(2) by (simp add: sds_wf_def)
    then have vB: "sds_val B = xs" using regrown_val [OF B(3)] A(3) by simp
    have "sdsavail (moved h b (sds_bytes B)) (Ptr (nxt h) (int (sdsHdrSize u))) = Some 0"
      using sdsavail_at [OF atB] regrownD [OF B(3)] by simp
    moreover have "b \<noteq> nxt h" using sds_atD(2) [OF A(1)] ok by (auto simp: heap_ok_def)
    ultimately show ?thesis
      using that [OF B(4) sds_holdsI [OF atB wfB vB]] evolves_moved [OF ok] by blast
  qed
qed

subsection \<open>Adjusting the length by hand\<close>

text \<open>
  \<open>sdsIncrLen\<close> is how a caller that wrote into the spare room commits it.  Within the
  bounds the assertions ask for, the new length is the old one plus \<open>incr\<close> and the
  terminator follows it; beyond them the program aborts.
\<close>

lemma incr_field_at:
  assumes at: "sds_at h s b A" and ne: "ty A \<noteq> SDS_TYPE_5" and wf: "sds_wf A"
    and lo: "- int (slen A) \<le> incr" and hi: "incr \<le> int (salloc A) - int (slen A)"
  shows "incr_field h s (hdr_width (ty A)) incr =
    Some (nat (int (slen A) + incr), upd h b (sds_bytes (with_len A (nat (int (slen A) + incr)))))"
proof -
  let ?w = "hdr_width (ty A)"
  have lim: "int (salloc A) < 2 ^ (8 * ?w)"
    using sds_atD(3) [OF at] ne by (auto simp: sds_layout_def type_limit_def power_mult)
  have le: "int (slen A) \<le> int (salloc A)" using wf by (simp add: sds_wf_def)
  have m: "(int (slen A) + incr) mod 2 ^ (8 * ?w) = int (slen A) + incr"
    using lo hi lim by (intro mod_pos_pos_trivial) linarith+
  have up: "incr mod 2 ^ (8 * ?w) \<le> (int (salloc A) - int (slen A)) mod 2 ^ (8 * ?w)" if "0 \<le> incr"
    using that hi lim le by (subst (1 2) mod_pos_pos_trivial) linarith+
  have dn: "(- incr) mod 2 ^ k \<le> int (slen A)" if "incr < 0" for k :: nat
    using zmod_le_nonneg_dividend [of "- incr" "2 ^ k"] that lo by simp
  have C: "0 \<le> incr \<and> (if ?w = 1 \<or> ?w = 2 then incr \<le> int (salloc A) - int (slen A)
        else incr mod 2 ^ (8 * ?w) \<le> (int (salloc A) - int (slen A)) mod 2 ^ (8 * ?w)) \<or>
      incr < 0 \<and> - incr mod 2 ^ (if ?w = 8 then 64 else (32 :: nat)) \<le> int (slen A)"
    using up dn [of "if ?w = 8 then 64 else 32"] hi by (metis not_le)
  show ?thesis
    unfolding incr_field_def sds_hdr_len [OF at ne] sds_hdr_alloc [OF at ne] bind.bind_lunit Let_def m
    using C sds_set_hdr_len [OF at ne] by (simp only: if_True bind.bind_lunit)
qed

lemma sdsIncrLen_ok:
  assumes at: "sds_at h s b A" and wf: "sds_wf A" and nz: "incr \<noteq> 0 \<or> ty A \<noteq> SDS_TYPE_5"
    and lo: "- int (slen A) \<le> incr" and hi: "incr \<le> int (salloc A) - int (slen A)"
  defines "n \<equiv> nat (int (slen A) + incr)"
  shows "\<exists>B. sdsIncrLen h s incr = Some (upd h b (sds_bytes B)) \<and>
    sds_at (upd h b (sds_bytes B)) s b B \<and> sds_wf B \<and> sds_val B = take n (sbuf A)"
proof -
  have bd: "slen A \<le> salloc A" "salloc A < length (sbuf A)" using wf by (simp_all add: sds_wf_def)
  have nle: "n \<le> salloc A" using lo hi bd by (simp add: n_def)
  have lim: "n < type_limit (ty A)" using nle sds_atD(3) [OF at] by (auto simp: sds_layout_def)
  let ?A1 = "with_len A n"
  have lay1: "sds_layout ?A1" using sds_layout_with_len [OF sds_atD(3) [OF at] lim] .
  have at1: "sds_at (upd h b (sds_bytes ?A1)) s b ?A1" using sds_at_upd [OF at lay1] by simp
  let ?B = "?A1\<lparr>sbuf := (sbuf A)[n := 0]\<rparr>"
  have st: "store (upd h b (sds_bytes ?A1)) (padd s (int n)) 0 = Some (upd h b (sds_bytes ?B))"
    using sds_store_char [OF at1, of n 0] bd nle by simp
  have "sdsIncrLen h s incr = Some (upd h b (sds_bytes ?B))"
  proof (cases "ty A = SDS_TYPE_5")
    case False
    note F = incr_field_at [OF at False wf lo hi, folded n_def]
    from sds_atD(4) [OF at] show ?thesis
      by (rule is_type_cases)
        (use False F st sds_flags [OF at] sds_atD(4) [OF at] in \<open>simp_all add: sdsIncrLen_def hdr_width_simps\<close>)
  next
    case True
    then have l: "slen A < 32" "salloc A = slen A"
      using sds_atD(3) [OF at] by (simp_all add: sds_layout_def type_limit_def)
    then have neg: "incr < 0" using hi nz True by auto
    have dn: "(- incr) mod 2 ^ 32 \<le> int (slen A)"
      using zmod_le_nonneg_dividend [of "- incr" "2 ^ 32"] neg lo by simp
    have m: "(int (slen A) + incr) mod 2 ^ 64 = int (slen A) + incr"
      using lo neg l by (intro mod_pos_pos_trivial) auto
    have "(of_int (int (slen A) + incr) :: byte) = of_nat n" using lo by (simp add: n_def)
    then have "store h (padd s (-1)) (SDS_TYPE_5 OR push_bit SDS_TYPE_BITS (of_int (int (slen A) + incr)))
        = Some (upd h b (sds_bytes ?A1))"
      using sds_set_flag5 [OF at True, of n] by (simp add: flag_byte_5 del: of_int_add)
    with True st l neg dn m sds_flags [OF at] sds_atD(4) [OF at] show ?thesis
      by (simp add: sdsIncrLen_def n_def Let_def del: of_int_add)
  qed
  moreover have "sds_layout ?B" using lay1 by (simp add: sds_layout_def)
  then have "sds_at (upd h b (sds_bytes ?B)) s b ?B" using sds_at_upd [OF at] by simp
  moreover have "sds_wf ?B" using bd nle by (auto simp: sds_wf_def)
  ultimately show ?thesis by (intro exI [of _ ?B]) (simp add: sds_val_def)
qed

lemma sdsIncrLen_overrun:
  assumes at: "sds_at h s b A" and wf: "sds_wf A" and ne: "ty A \<noteq> SDS_TYPE_5"
    and incr: "int (salloc A) - int (slen A) < incr" "incr < 2 ^ 32"
  shows "sdsIncrLen h s incr = None"
proof -
  let ?w = "hdr_width (ty A)"
  have le: "slen A \<le> salloc A" using wf by (simp add: sds_wf_def)
  have lim: "int (salloc A) < 2 ^ (8 * ?w)"
    using sds_atD(3) [OF at] ne by (auto simp: sds_layout_def type_limit_def power_mult)
  have up: "\<not> incr mod 2 ^ (8 * ?w) \<le> (int (salloc A) - int (slen A)) mod 2 ^ (8 * ?w)" if "?w \<noteq> 1 \<and> ?w \<noteq> 2"
  proof -
    have "?w = 4 \<or> ?w = 8" using that by (auto simp: hdr_width_def)
    then have "(2::int) ^ 32 \<le> 2 ^ (8 * ?w)" by auto
    then have "incr mod 2 ^ (8 * ?w) = incr" using incr le by (intro mod_pos_pos_trivial) auto
    moreover have "(int (salloc A) - int (slen A)) mod 2 ^ (8 * ?w) = int (salloc A) - int (slen A)"
      using lim le by (intro mod_pos_pos_trivial) linarith+
    ultimately show ?thesis using incr by simp
  qed
  have F: "incr_field h s ?w incr = None"
    unfolding incr_field_def sds_hdr_len [OF at ne] sds_hdr_alloc [OF at ne] bind.bind_lunit Let_def
    using up incr le by (auto simp: not_le)
  from sds_atD(4) [OF at] show ?thesis
    by (rule is_type_cases)
      (use ne F sds_flags [OF at] sds_atD(4) [OF at] in \<open>simp_all add: sdsIncrLen_def hdr_width_simps\<close>)
qed

subsection \<open>NUL-terminated arguments\<close>

text \<open>\<open>cstring h p xs\<close>: \<open>p\<close> points at the C string \<open>xs\<close>.\<close>

definition cstring :: "heap \<Rightarrow> ptr \<Rightarrow> byte list \<Rightarrow> bool" where
  "cstring h p xs \<longleftrightarrow> load_bytes h p (length xs + 1) = Some (xs @ [0]) \<and> 0 \<notin> set xs"

lemma nul_index_append: "0 \<notin> set xs \<Longrightarrow> nul_index (xs @ 0 # ys) = Some (length xs)"
  by (induction xs) auto

lemma load_bytes_prefix:
  "load_bytes h p (n + m) = Some xs \<Longrightarrow> load_bytes h p n = Some (take n xs)"
  by (cases "contents h p") (auto simp: load_bytes_def min_def split: if_splits)

lemma load_nth:
  assumes "load_bytes h p n = Some xs" "i < n"
  shows "load h (padd p (int i)) = Some (xs ! i)"
proof -
  obtain bs j where c: "contents h p = Some (bs, j)" "0 \<le> j" "nat j + n \<le> length bs"
    "xs = take n (drop (nat j) bs)"
    using assms by (auto simp: load_bytes_def bind_eq_Some_conv split: if_splits)
  then have "contents h (padd p (int i)) = Some (bs, j + int i)"
    by (cases p) (auto split: option.splits)
  moreover have "nat (j + int i) = nat j + i" using c(2) by (simp add: nat_add_distrib)
  ultimately have "load_bytes h (padd p (int i)) 1 = Some (take 1 (drop (nat j + i) bs))"
    using c(2,3) assms(2) by (simp add: load_bytes_def)
  moreover have "take 1 (drop (nat j + i) bs) = [xs ! i]"
    using c(3,4) assms(2) by (simp add: take_Suc_conv_app_nth hd_drop_conv_nth take_Suc)
  ultimately show ?thesis by (simp add: load_def)
qed

lemma load_sub:
  assumes "load_bytes h p (length xs) = Some xs" "j + n \<le> length xs"
  shows "load_bytes h (padd p (int j)) n = Some (take n (drop j xs))"
proof (cases "n = 0")
  case False
  obtain bs i where c: "contents h p = Some (bs, i)" "0 \<le> i" "nat i + length xs \<le> length bs"
    "xs = take (length xs) (drop (nat i) bs)"
    using assms False by (auto simp: load_bytes_def bind_eq_Some_conv split: if_splits)
  have "contents h (padd p (int j)) = Some (bs, i + int j)"
    using c(1) by (cases p) (auto split: option.splits)
  moreover have nt: "nat (i + int j) = nat i + j" using c(2) by (simp add: nat_add_distrib)
  ultimately have "load_bytes h (padd p (int j)) n = Some (take n (drop (nat i + j) bs))"
    using False c(2,3) assms(2) by (simp add: load_bytes_def)
  moreover have "take n (drop j xs) = take n (drop (nat i + j) bs)"
  proof -
    have "drop j xs = take (length xs - j) (drop (nat i + j) bs)"
      by (subst c(4)) (simp add: drop_take add.commute)
    then show ?thesis using assms(2) by (simp add: min_def)
  qed
  ultimately show ?thesis by simp
qed simp

lemma cstring_load: "cstring h p xs \<Longrightarrow> load_bytes h p (length xs) = Some xs"
  using load_bytes_prefix [of h p "length xs" 1] by (simp add: cstring_def)

lemma strlen_cstring:
  assumes "cstring h p xs"
  shows "strlen h p = Some (length xs)"
proof -
  obtain bs i where bs: "contents h p = Some (bs, i)" "0 \<le> i"
    "take (length xs + 1) (drop (nat i) bs) = xs @ [0]"
    using assms by (auto simp: cstring_def load_bytes_def bind_eq_Some_conv split: if_splits)
  then have "drop (nat i) bs = xs @ 0 # drop (length xs + 1) (drop (nat i) bs)"
    by (metis append_Cons append_assoc append_Nil append_take_drop_id)
  then have "nul_index (drop (nat i) bs) = Some (length xs)"
    using nul_index_append assms by (metis cstring_def)
  with bs show ?thesis by (simp add: strlen_def)
qed

lemma cstring_at:
  assumes "cstring h p ys" "k \<le> length ys"
  shows "load h (padd p (int k)) = Some ((ys @ [0]) ! k)" "cstring h (padd p (int k)) (drop k ys)"
proof -
  have ld: "load_bytes h p (length (ys @ [0])) = Some (ys @ [0])" using assms(1) by (simp add: cstring_def)
  from load_sub [OF ld, of k "length (drop k ys) + 1"] assms show "cstring h (padd p (int k)) (drop k ys)"
    by (auto simp: cstring_def dest: in_set_dropD)
  show "load h (padd p (int k)) = Some ((ys @ [0]) ! k)"
    using load_nth [OF ld] assms(2) by simp
qed

lemma cstring_Cons:
  assumes "cstring h p (c # ys)"
  shows "load h p = Some c" "cstring h (padd p 1) ys" "c \<noteq> 0"
  using cstring_at [OF assms, of 0] cstring_at [OF assms, of 1] assms by (auto simp: cstring_def)

lemma cstring_Nil: "cstring h p [] \<Longrightarrow> load h p = Some 0"
  using cstring_at(1) [of h p "[]" 0] by simp

lemma cstring_not_Null: "cstring h p xs \<Longrightarrow> p \<noteq> Null"
  by (auto simp: cstring_def load_bytes_def)

text \<open>A string of the library is a C string exactly when it holds no NUL.\<close>

lemma sds_holds_cstring:
  assumes "sds_holds h s b xs" "0 \<notin> set xs"
  shows "cstring h s xs"
proof -
  obtain A where A: "sds_at h s b A" "sds_wf A" "sds_val A = xs" using assms(1) by (auto simp: sds_holds_def)
  have lx: "length xs = slen A" using A sds_val_length by auto
  have bd: "slen A < length (sbuf A)" "sbuf A ! slen A = 0" using A(2) by (simp_all add: sds_wf_def)
  then have "take (slen A + 1) (sbuf A) = xs @ [0]"
    using A(3) by (simp add: sds_val_def take_Suc_conv_app_nth)
  with sds_load_buf [OF A(1), of 0 "slen A + 1"] bd lx assms(2) show ?thesis
    by (simp add: cstring_def)
qed

lemma sdscat_ok:
  assumes "sds_holds h s b xs" "heap_ok h" "fits (length xs + length ys)" "\<forall>c n. can_alloc h c n"
    "cstring h t ys" "block_of t \<noteq> Some b"
  obtains s' h' b' where "sdscat h s t = Some (s', h')" "sds_holds h' s' b' (xs @ ys)" "evolves h b h' b'"
proof -
  obtain s' h' b' where "sdscatlen h s t (length ys) = Some (s', h')" "sds_holds h' s' b' (xs @ ys)"
    "evolves h b h' b'"
    by (rule sdscatlen_ok [OF assms(1-4) cstring_load [OF assms(5)] assms(6)])
  then show ?thesis using that strlen_cstring [OF assms(5)] by (simp add: sdscat_def)
qed

lemma sdscatsds_ok:
  assumes "sds_holds h s b xs" "heap_ok h" "fits (length xs + length ys)" "\<forall>c n. can_alloc h c n"
    "sds_holds h t c ys" "c \<noteq> b"
  obtains s' h' b' where "sdscatsds h s t = Some (s', h')" "sds_holds h' s' b' (xs @ ys)"
    "evolves h b h' b'"
proof -
  have nb: "block_of t \<noteq> Some b" using sds_holds_block [OF assms(5)] assms(6) by simp
  obtain s' h' b' where "sdscatlen h s t (length ys) = Some (s', h')" "sds_holds h' s' b' (xs @ ys)"
    "evolves h b h' b'"
    by (rule sdscatlen_ok [OF assms(1-4) sds_holds_load [OF assms(5)] nb])
  then show ?thesis using that sds_holds_len [OF assms(5)] by (simp add: sdscatsds_def)
qed

lemma sdscpy_ok:
  assumes "sds_holds h s b xs" "heap_ok h" "fits (length ys)" "\<forall>c n. can_alloc h c n"
    "cstring h t ys" "block_of t \<noteq> Some b"
  obtains s' h' b' where "sdscpy h s t = Some (s', h')" "sds_holds h' s' b' ys" "evolves h b h' b'"
proof -
  obtain s' h' b' where "sdscpylen h s t (length ys) = Some (s', h')" "sds_holds h' s' b' ys"
    "evolves h b h' b'"
    by (rule sdscpylen_ok [OF assms(1-4) cstring_load [OF assms(5)] assms(6)])
  then show ?thesis using that strlen_cstring [OF assms(5)] by (simp add: sdscpy_def)
qed

subsection \<open>Constructors\<close>

text \<open>
  \<open>spawned h h' b\<close>: \<open>h'\<close> is \<open>h\<close> with one new block \<open>b\<close>, nothing else touched.
\<close>

definition spawned :: "heap \<Rightarrow> heap \<Rightarrow> nat \<Rightarrow> bool" where
  "spawned h h' b \<longleftrightarrow> mem h b = None \<and> (\<forall>c. c \<noteq> b \<longrightarrow> mem h' c = mem h c) \<and> nxt h \<le> nxt h'
     \<and> can_alloc h' = can_alloc h \<and> heap_ok h'"

lemma spawned_mem: "spawned h h' b \<Longrightarrow> mem h c \<noteq> None \<Longrightarrow> c \<noteq> b \<and> mem h' c = mem h c"
  by (metis spawned_def)

lemma sdsnewlen_spawns:
  assumes "heap_ok h" "length xs + 18 < 2 ^ 64" "\<forall>c n. can_alloc h c n"
    "load_bytes h init (length xs) = Some xs" "init \<noteq> Null" "init \<noteq> SDS_NOINIT"
  obtains s h' b where "sdsnewlen h init (length xs) = Some (s, h')" "sds_holds h' s b xs" "spawned h h' b"
proof -
  let ?h = "upd (bump h) (nxt h) (sds_bytes (new_obj xs))"
  have al: "can_alloc h (nxt h) (new_size (length xs))" using assms(3) by simp
  have "length xs < 2 ^ 64" using assms(2) by simp
  then have "sds_holds ?h (Ptr (nxt h) (int (sdsHdrSize (new_type (length xs))))) (nxt h) xs"
    by (intro sds_holdsI [OF new_obj_at]) simp_all
  moreover have "spawned h ?h (nxt h)"
    using assms(1) heap_ok_fresh [OF assms(1)] by (simp add: spawned_def)
  ultimately show ?thesis using that sdsnewlen_ok [OF assms(1,2) al assms(4-6)] by blast
qed

lemma sds_holds_not_literal: "sds_holds h s b xs \<Longrightarrow> s \<noteq> Null \<and> s \<noteq> SDS_NOINIT"
  by (auto simp: sds_holds_def sds_at_def SDS_NOINIT_def)

lemma sdsdup_ok:
  assumes "sds_holds h s b xs" "heap_ok h" "length xs + 18 < 2 ^ 64" "\<forall>c n. can_alloc h c n"
  obtains s' h' b' where "sdsdup h s = Some (s', h')" "sds_holds h' s' b' xs" "sds_holds h' s b xs"
    "b' \<noteq> b" "spawned h h' b'"
proof -
  obtain s' h' b' where R: "sdsnewlen h s (length xs) = Some (s', h')" "sds_holds h' s' b' xs"
    "spawned h h' b'"
    by (rule sdsnewlen_spawns [OF assms(2-4) sds_holds_load [OF assms(1)]])
      (use sds_holds_not_literal [OF assms(1)] in auto)
  have "mem h b \<noteq> None" using assms(1) by (auto simp: sds_holds_def sds_at_def)
  then have "b' \<noteq> b" "mem h' b = mem h b" using spawned_mem [OF R(3)] by auto
  moreover have "sds_holds h' s b xs"
    using assms(1) \<open>mem h' b = mem h b\<close> by (auto simp: sds_holds_def sds_at_def)
  ultimately show ?thesis using that R sds_holds_len [OF assms(1)] by (simp add: sdsdup_def)
qed

text \<open>
  \<open>sdsupdatelen\<close> is meant to set the length to the position of the first NUL.  It calls the
  constructor where it should call \<open>sdssetlen\<close>: the string is not touched, and the copy the
  constructor makes is unreachable.
\<close>

lemma sdsupdatelen_leaks:
  assumes "sds_at h s b A" "heap_ok h" "\<forall>c n. can_alloc h c n" "cstring h s ys" "length ys + 18 < 2 ^ 64"
  shows "\<exists>h' c. sdsupdatelen h s = Some h' \<and> sds_at h' s b A \<and> mem h c = None \<and> mem h' c \<noteq> None"
proof -
  have ne: "s \<noteq> Null" "s \<noteq> SDS_NOINIT" using sds_atD(1) [OF assms(1)] by (auto simp: SDS_NOINIT_def)
  obtain s' h' b' where R: "sdsnewlen h s (length ys) = Some (s', h')" "sds_holds h' s' b' ys"
    "spawned h h' b'"
    by (rule sdsnewlen_spawns [OF assms(2,5,3) cstring_load [OF assms(4)] ne])
  have "mem h b \<noteq> None" using sds_atD(2) [OF assms(1)] by simp
  then have "sds_at h' s b A" using spawned_mem [OF R(3)] assms(1) by (simp add: sds_at_def)
  moreover have "mem h' b' \<noteq> None" using R(2) by (auto simp: sds_holds_def sds_at_def)
  ultimately show ?thesis
    using R(1,3) strlen_cstring [OF assms(4)] by (auto simp: sdsupdatelen_def spawned_def)
qed

subsection \<open>A concrete heap\<close>

text \<open>The heap before any allocation, with an allocator that serves every request, and the same heap
  after \<open>sdsnew("hello")\<close>.\<close>

definition empty_heap :: heap where
  "empty_heap = \<lparr>mem = (\<lambda>b. None), nxt = 0, can_alloc = (\<lambda>b n. True), junk = (\<lambda>b i. 0)\<rparr>"

definition hello_heap :: heap where
  "hello_heap = upd (bump empty_heap) 0 (sds_bytes (new_obj (bytes ''hello'')))"

lemma empty_heap_sel [simp]:
  "mem empty_heap b = None" "nxt empty_heap = 0" "can_alloc empty_heap b n" "heap_ok empty_heap"
  by (simp_all add: empty_heap_def heap_ok_def)

lemma hello_heap_sel [simp]:
  "nxt hello_heap = 1" "can_alloc hello_heap b n" "heap_ok hello_heap"
  "mem hello_heap 0 = Some (sds_bytes (new_obj (bytes ''hello'')))"
  by (simp_all add: hello_heap_def heap_ok_def)

lemma hello_at: "sds_at hello_heap (Ptr 0 1) 0 (new_obj (bytes ''hello''))"
  using new_obj_at [of "bytes ''hello''" "bump empty_heap" 0]
  by (simp add: hello_heap_def new_type_def sdsReqType_def)

lemma hello_holds: "sds_holds hello_heap (Ptr 0 1) 0 (bytes ''hello'')"
  using hello_at by (rule sds_holdsI) simp_all

lemma literal_cstring: "0 \<notin> set xs \<Longrightarrow> cstring h (Str (xs @ [0]) 0) xs"
  by (simp add: cstring_def load_bytes_def)

lemma fits_small: "n < 2 ^ 32 \<Longrightarrow> fits n"
  by (simp add: fits_def)

subsection \<open>Properties\<close>

text \<open>
  C25.  \<open>sdsnewlen\<close>: on a heap where the allocator serves the request and the \<open>n\<close>
  initial bytes are readable, the constructor returns a pointer to a well-formed string whose
  value is exactly those bytes, in one new block; every other block is untouched.
\<close>

theorem sdsnewlen_creates:
  assumes "heap_ok h" "length xs + 18 < 2 ^ 64" "\<forall>c n. can_alloc h c n"
    "load_bytes h init (length xs) = Some xs" "init \<noteq> Null" "init \<noteq> SDS_NOINIT"
  shows "\<exists>s h' b. sdsnewlen h init (length xs) = Some (s, h') \<and> sds_holds h' s b xs \<and> spawned h h' b"
  using sdsnewlen_spawns [OF assms] by blast

theorem sdsnewlen_creates_witness:
  "\<exists>s h' b. sdsnewlen empty_heap (Str (cstr ''ab'') 0) (length (bytes ''ab'')) = Some (s, h') \<and> sds_holds h' s b (bytes ''ab'')
     \<and> spawned empty_heap h' b"
proof -
  have "load_bytes empty_heap (Str (cstr ''ab'') 0) (length (bytes ''ab'')) = Some (bytes ''ab'')"
    by (simp add: load_bytes_def cstr_def)
  then show ?thesis
    using sdsnewlen_creates [of empty_heap "bytes ''ab''" "Str (cstr ''ab'') 0"]
    by (simp add: SDS_NOINIT_def cstr_def bytes_def)
qed

text \<open>
  C26.  \<open>sdscatlen\<close> implements list append: if \<open>s\<close> holds \<open>xs\<close>, \<open>t\<close> points at
  the bytes \<open>ys\<close> outside the string's own block, and every allocation succeeds (\<open>sdsMakeRoomFor_oom_crash\<close> below shows what
  happens otherwise), the call succeeds without an invalid access,
  the returned string holds \<open>xs @ ys\<close>, and apart from the string itself (which may have moved,
  its old block then freed) no block of the heap changes.
\<close>

theorem sdscatlen_appends:
  assumes "sds_holds h s b xs" "heap_ok h" "fits (length xs + length ys)" "\<forall>c n. can_alloc h c n"
    "load_bytes h t (length ys) = Some ys" "block_of t \<noteq> Some b"
  shows "\<exists>s' h' b'. sdscatlen h s t (length ys) = Some (s', h') \<and> sds_holds h' s' b' (xs @ ys)
    \<and> evolves h b h' b'"
  using sdscatlen_ok [OF assms] by blast

theorem sdscatlen_appends_witness:
  "\<exists>s' h' b'. sdscatlen hello_heap (Ptr 0 1) (Str (bytes '' world'') 0) (length (bytes '' world'')) = Some (s', h') \<and>
     sds_holds h' s' b' (bytes ''hello'' @ bytes '' world'') \<and> evolves hello_heap 0 h' b'"
  using sdscatlen_appends [OF hello_holds, of "bytes '' world''" "Str (bytes '' world'') 0"]
  by (simp add: fits_small load_bytes_def)

text \<open>
  \<open>sdsMakeRoomFor\<close> after an allocation failure: when the enlarged string keeps its
  header type the result of \<open>realloc\<close> is not tested (the code tests \<open>newlen\<close>), and the
  execution writes through a null pointer instead of returning \<open>NULL\<close>.
\<close>

theorem sdsMakeRoomFor_oom_crash:
  assumes "sds_at h s b A" "sds_wf A" "\<not> addlen \<le> salloc A - slen A" "fits (slen A + addlen)"
    "\<not> can_alloc h (nxt h) (room_size (slen A + addlen))" "ty A = room_type (slen A + addlen)"
  shows "sdsMakeRoomFor h s addlen = None"
  using sdsMakeRoomFor_oom_same_type [OF assms(1) sds_wf_room [OF assms(2)] assms(3) refl assms(4-6)] .

theorem sdsMakeRoomFor_oom_crash_witness:
  "sdsMakeRoomFor (upd (empty_heap\<lparr>can_alloc := (\<lambda>b n. False), nxt := 1\<rparr>) 0 (sds_bytes (new_obj [])))
     (Ptr 0 3) 5 = None"
proof -
  let ?h = "upd (empty_heap\<lparr>can_alloc := (\<lambda>b n. False), nxt := 1\<rparr>) 0 (sds_bytes (new_obj []))"
  have "sds_at ?h (Ptr 0 3) 0 (new_obj [])"
    using new_obj_at [of "[]" "empty_heap\<lparr>can_alloc := (\<lambda>b n. False), nxt := 1\<rparr>" 0]
    by (simp add: new_type_def)
  then show ?thesis
    using sdsMakeRoomFor_oom_crash [of ?h "Ptr 0 3" 0 "new_obj []" 5]
    by (simp add: fits_small new_obj_def new_type_def room_type_def grow_len_def sdsReqType_def sds_wf_def)
qed

text \<open>
  \<open>sdsRemoveFreeSpace\<close> keeps the value of a string and leaves no spare room, changing
  at most the string's own block (moved, and the old one freed).
\<close>

theorem sdsRemoveFreeSpace_tight:
  assumes "sds_holds h s b xs" "heap_ok h" "fits (length xs)" "\<forall>c n. can_alloc h c n"
  shows "\<exists>s' h' b'. sdsRemoveFreeSpace h s = Some (s', h') \<and> sds_holds h' s' b' xs \<and>
    sdsavail h' s' = Some 0 \<and> evolves h b h' b'"
  using sdsRemoveFreeSpace_ok [OF assms] by blast

theorem sdsRemoveFreeSpace_tight_witness:
  "\<exists>s' h' b'. sdsRemoveFreeSpace hello_heap (Ptr 0 1) = Some (s', h') \<and>
     sds_holds h' s' b' (bytes ''hello'') \<and> sdsavail h' s' = Some 0 \<and> evolves hello_heap 0 h' b'"
  using sdsRemoveFreeSpace_tight [OF hello_holds] by (simp add: fits_small)

text \<open>
  \<open>sdsIncrLen\<close> within the bounds its assertions ask for: the new length is the old one
  plus \<open>incr\<close>, the value is that prefix of the buffer, and the terminator follows it.
\<close>

theorem sdsIncrLen_commits:
  assumes "sds_at h s b A" "sds_wf A" "incr \<noteq> 0 \<or> ty A \<noteq> SDS_TYPE_5"
    "- int (slen A) \<le> incr" "incr \<le> int (salloc A) - int (slen A)"
  shows "\<exists>B. sdsIncrLen h s incr = Some (upd h b (sds_bytes B)) \<and>
    sds_at (upd h b (sds_bytes B)) s b B \<and> sds_wf B \<and> sds_val B = take (nat (int (slen A) + incr)) (sbuf A)"
  using sdsIncrLen_ok [OF assms] by simp

theorem sdsIncrLen_commits_witness:
  "\<exists>B. sdsIncrLen hello_heap (Ptr 0 1) (-2) = Some (upd hello_heap 0 (sds_bytes B)) \<and> sds_val B = bytes ''hel''"
  using sdsIncrLen_commits [OF hello_at, of "-2"] by (auto simp: new_obj_def sds_wf_def nth_append bytes_def)

text \<open>
  \<open>sdsgrowzero\<close> extends a string to the requested length with zero bytes and leaves a
  string that is already long enough alone.
\<close>

theorem sdsgrowzero_extends:
  assumes "sds_holds h s b xs" "heap_ok h" "fits n" "\<forall>c n. can_alloc h c n"
  shows "\<exists>s' h' b'. sdsgrowzero h s n = Some (s', h') \<and>
    sds_holds h' s' b' (xs @ replicate (n - length xs) 0) \<and> evolves h b h' b'"
  using sdsgrowzero_ok [OF assms] by blast

theorem sdsgrowzero_extends_witness:
  "\<exists>s' h' b'. sdsgrowzero hello_heap (Ptr 0 1) 7 = Some (s', h') \<and>
     sds_holds h' s' b' (bytes ''hello'' @ replicate 2 0) \<and> evolves hello_heap 0 h' b'"
  using sdsgrowzero_extends [OF hello_holds, of 7] by (simp add: fits_small del: replicate.simps)

text \<open>
  \<open>sdscpylen\<close> replaces the value of a string by the given bytes, growing it when they
  do not fit.
\<close>

theorem sdscpylen_replaces:
  assumes "sds_holds h s b xs" "heap_ok h" "fits (length ys)" "\<forall>c n. can_alloc h c n"
    "load_bytes h t (length ys) = Some ys" "block_of t \<noteq> Some b"
  shows "\<exists>s' h' b'. sdscpylen h s t (length ys) = Some (s', h') \<and> sds_holds h' s' b' ys \<and> evolves h b h' b'"
  using sdscpylen_ok [OF assms] by blast

theorem sdscpylen_replaces_witness:
  "\<exists>s' h' b'. sdscpylen hello_heap (Ptr 0 1) (Str (bytes ''goodbye'') 0) (length (bytes ''goodbye'')) = Some (s', h') \<and>
     sds_holds h' s' b' (bytes ''goodbye'') \<and> evolves hello_heap 0 h' b'"
  using sdscpylen_replaces [OF hello_holds, of "bytes ''goodbye''" "Str (bytes ''goodbye'') 0"]
  by (simp add: fits_small load_bytes_def)

text \<open>
  \<open>sdsupdatelen\<close> does not update the length: the string is exactly as before the call,
  and the call leaves one more block allocated that nothing points to.
\<close>

theorem sdsupdatelen_only_leaks:
  assumes "sds_at h s b A" "heap_ok h" "\<forall>c n. can_alloc h c n" "cstring h s ys" "length ys + 18 < 2 ^ 64"
  shows "\<exists>h' c. sdsupdatelen h s = Some h' \<and> sds_at h' s b A \<and> mem h c = None \<and> mem h' c \<noteq> None"
  using sdsupdatelen_leaks [OF assms] .

theorem sdsupdatelen_only_leaks_witness:
  "\<exists>h' c. sdsupdatelen hello_heap (Ptr 0 1) = Some h' \<and>
     sds_at h' (Ptr 0 1) 0 (new_obj (bytes ''hello'')) \<and> mem hello_heap c = None \<and> mem h' c \<noteq> None"
proof -
  have "cstring hello_heap (Ptr 0 1) (bytes ''hello'')"
    by (rule sds_holds_cstring [OF hello_holds]) (simp add: bytes_def)
  then show ?thesis using sdsupdatelen_only_leaks [OF hello_at, of "bytes ''hello''"] by simp
qed

end
