(* ===== verification/Sds_Edit.thy ===== *)
theory Sds_Edit
  imports Sds_Resize
begin

text \<open>
  The operations of \<open>redis-learnning/sds/sds.c\<close> that edit a string in place or compare two
  strings: \<open>sdstrim\<close>, \<open>sdsrange\<close>, \<open>sdstolower\<close>, \<open>sdstoupper\<close>,
  \<open>sdsmapchars\<close> and \<open>sdscmp\<close>.  Each of them is shown to compute the corresponding
  function on lists of bytes.
\<close>

subsection \<open>Operations\<close>

text \<open>
  The two loops of \<open>sdstrim\<close>; the pointers \<open>sp\<close>, \<open>ep\<close> and \<open>end\<close> are offsets
  from \<open>s\<close>.
\<close>

function trim_left :: "heap \<Rightarrow> ptr \<Rightarrow> ptr \<Rightarrow> int \<Rightarrow> int \<Rightarrow> int option" where
  "trim_left h s cset sp end_pos =
     (if sp \<le> end_pos then do {
        c \<leftarrow> load h (padd s sp);
        found \<leftarrow> strchr_found h cset c;
        if found then trim_left h s cset (sp + 1) end_pos else Some sp
      } else Some sp)"
  by pat_completeness auto
termination by (relation "measure (\<lambda>(h, s, cset, sp, end_pos). nat (end_pos - sp + 1))") auto

function trim_right :: "heap \<Rightarrow> ptr \<Rightarrow> ptr \<Rightarrow> int \<Rightarrow> int \<Rightarrow> int option" where
  "trim_right h s cset sp ep =
     (if ep > sp then do {
        c \<leftarrow> load h (padd s ep);
        found \<leftarrow> strchr_found h cset c;
        if found then trim_right h s cset sp (ep - 1) else Some ep
      } else Some ep)"
  by pat_completeness auto
termination by (relation "measure (\<lambda>(h, s, cset, sp, ep). nat (ep - sp))") auto

declare trim_left.simps [simp del] trim_right.simps [simp del]

definition sdstrim :: "heap \<Rightarrow> ptr \<Rightarrow> ptr \<Rightarrow> (ptr \<times> heap) option" where
  "sdstrim h s cset = do {
     l \<leftarrow> sdslen h s;
     let end_pos = int l - 1;
     sp \<leftarrow> trim_left h s cset 0 end_pos;
     ep \<leftarrow> trim_right h s cset sp end_pos;
     let len = nat (ep - sp + 1);
     h \<leftarrow> (if sp \<noteq> 0 then memmove h s (padd s sp) len else Some h);
     h \<leftarrow> store h (padd s (int len)) 0;
     h \<leftarrow> sdssetlen h s len;
     Some (s, h)
   }"

text \<open>Conversion to the 64-bit signed \<open>ssize_t\<close>.\<close>

definition to_ssize :: "int \<Rightarrow> int" where
  "to_ssize x = (x + 2 ^ 63) mod 2 ^ 64 - 2 ^ 63"

text \<open>
  \<open>sdsrange\<close>: a negative index counts from the end.  The sum \<open>(end - start) + 1\<close> is
  signed, so its overflow is undefined.
\<close>

definition range_index :: "nat \<Rightarrow> int \<Rightarrow> int" where
  "range_index len i =
     (if i < 0 then (let j = to_ssize (int len + i) in if j < 0 then 0 else j) else i)"

definition sdsrange :: "heap \<Rightarrow> ptr \<Rightarrow> int \<Rightarrow> int \<Rightarrow> heap option" where
  "sdsrange h s start end_pos = do {
     len \<leftarrow> sdslen h s;
     if len = 0 then Some h
     else do {
       let start = range_index len start;
       let end_pos = range_index len end_pos;
       newlen \<leftarrow> (if start > end_pos then Some 0
                  else if end_pos - start + 1 \<ge> 2 ^ 63 then None
                  else Some (nat (end_pos - start + 1)));
       let newlen = (if newlen \<noteq> 0
         then (if start \<ge> to_ssize (int len) then 0
               else if end_pos \<ge> to_ssize (int len) then nat (to_ssize (int len - 1) - start + 1)
               else newlen)
         else newlen);
       h \<leftarrow> (if start \<noteq> 0 \<and> newlen \<noteq> 0 then memmove h s (padd s start) newlen else Some h);
       h \<leftarrow> store h (padd s (int newlen)) 0;
       sdssetlen h s newlen
     }
   }"

text \<open>\<open>tolower\<close> and \<open>toupper\<close> of the C library in the default locale.\<close>

definition tolower :: "byte \<Rightarrow> byte" where
  "tolower c = (if 65 \<le> unat c \<and> unat c \<le> 90 then c + 32 else c)"

definition toupper :: "byte \<Rightarrow> byte" where
  "toupper c = (if 97 \<le> unat c \<and> unat c \<le> 122 then c - 32 else c)"

text \<open>
  The loop \<open>for (j = 0; j < len; j++)\<close> that may replace each character; \<open>f\<close> says what is
  stored, if anything.
\<close>

primrec each_char :: "(heap \<Rightarrow> byte \<Rightarrow> byte option option) \<Rightarrow> heap \<Rightarrow> ptr \<Rightarrow> nat \<Rightarrow> nat \<Rightarrow> heap option" where
  "each_char f h s j 0 = Some h"
| "each_char f h s j (Suc k) = do {
     c \<leftarrow> load h (padd s (int j));
     r \<leftarrow> f h c;
     h \<leftarrow> (case r of None \<Rightarrow> Some h | Some x \<Rightarrow> store h (padd s (int j)) x);
     each_char f h s (Suc j) k
   }"

definition sdstolower :: "heap \<Rightarrow> ptr \<Rightarrow> heap option" where
  "sdstolower h s = do { len \<leftarrow> sdslen h s; each_char (\<lambda>h c. Some (Some (tolower c))) h s 0 len }"

definition sdstoupper :: "heap \<Rightarrow> ptr \<Rightarrow> heap option" where
  "sdstoupper h s = do { len \<leftarrow> sdslen h s; each_char (\<lambda>h c. Some (Some (toupper c))) h s 0 len }"

text \<open>The inner loop of \<open>sdsmapchars\<close>, from index \<open>i\<close> with \<open>k\<close> entries to go.\<close>

primrec mapchars_find :: "ptr \<Rightarrow> ptr \<Rightarrow> nat \<Rightarrow> nat \<Rightarrow> heap \<Rightarrow> byte \<Rightarrow> byte option option" where
  "mapchars_find from to i 0 h c = Some None"
| "mapchars_find from to i (Suc k) h c = do {
     x \<leftarrow> load h (padd from (int i));
     if c = x then do { y \<leftarrow> load h (padd to (int i)); Some (Some y) }
     else mapchars_find from to (Suc i) k h c
   }"

definition sdsmapchars :: "heap \<Rightarrow> ptr \<Rightarrow> ptr \<Rightarrow> ptr \<Rightarrow> nat \<Rightarrow> (ptr \<times> heap) option" where
  "sdsmapchars h s from to setlen = do {
     l \<leftarrow> sdslen h s;
     h \<leftarrow> each_char (mapchars_find from to 0 setlen) h s 0 l;
     Some (s, h)
   }"

definition sdscmp :: "heap \<Rightarrow> ptr \<Rightarrow> ptr \<Rightarrow> int option" where
  "sdscmp h s1 s2 = do {
     l1 \<leftarrow> sdslen h s1;
     l2 \<leftarrow> sdslen h s2;
     let minlen = (if l1 > l2 then l1 else l2);
     cmp \<leftarrow> memcmp h s1 s2 minlen;
     if cmp = 0 then Some (if l1 > l2 then 1 else if l1 < l2 then -1 else 0) else Some cmp
   }"

subsection \<open>Keeping a part of the string\<close>

lemma sds_shift:
  assumes at: "sds_at h s b A" and wf: "sds_wf A" and le: "i + n \<le> slen A"
  shows "\<exists>B. do {
      h \<leftarrow> memmove h s (padd s (int i)) n;
      h \<leftarrow> store h (padd s (int n)) 0;
      sdssetlen h s n
    } = Some (upd h b (sds_bytes B)) \<and> sds_at (upd h b (sds_bytes B)) s b B \<and> sds_wf B
      \<and> sds_val B = take n (drop i (sds_val A))"
proof -
  have bd: "slen A \<le> salloc A" "salloc A < length (sbuf A)" using wf by (simp_all add: sds_wf_def)
  let ?xs = "take n (drop i (sbuf A))"
  have len: "length ?xs = n" using le bd by simp
  have "load_bytes h (padd s (int i)) n = Some ?xs" using le bd by (intro sds_load_buf [OF at]) simp
  then have mv: "memmove h s (padd s (int i)) n = store_bytes h s ?xs" by (simp add: memmove_def)
  have "take n (drop i (sds_val A)) = ?xs" using le by (simp add: sds_val_def drop_take)
  with replace_tail [OF at wf, of ?xs] le bd len show ?thesis by (simp add: mv)
qed

text \<open>A \<open>memmove\<close> of a prefix onto itself changes nothing, so skipping it is the same.\<close>

lemma overwrite_self: "i + n \<le> length xs \<Longrightarrow> overwrite xs i (take n (drop i xs)) = xs"
  by (simp add: overwrite_def) (metis append_take_drop_id drop_drop add.commute)

lemma memmove_self:
  assumes "load_bytes h s n = Some xs" "block_of s \<noteq> None"
  shows "memmove h s s n = Some h"
proof (cases "n = 0")
  case False
  with assms obtain b i bs where s: "s = Ptr b i" "mem h b = Some bs" "0 \<le> i" "nat i + n \<le> length bs"
    "xs = take n (drop (nat i) bs)"
    by (cases s) (auto simp: load_bytes_def bind_eq_Some_conv split: if_splits option.splits)
  have "xs \<noteq> []" using s False by auto
  then have "store_bytes h s xs = Some (upd h b (overwrite bs (nat i) xs))"
    using s length_load_bytes [OF assms(1)] by (simp add: store_bytes_def)
  with s assms(1) show ?thesis by (simp add: memmove_def overwrite_self upd_same)
qed (simp add: memmove_def)

lemma sds_shift_skip:
  assumes at: "sds_at h s b A" and wf: "sds_wf A" and le: "i + n \<le> slen A" and skip: "skip \<longrightarrow> i = 0 \<or> n = 0"
  shows "(if skip then Some h else memmove h s (padd s (int i)) n) = memmove h s (padd s (int i)) n"
proof (cases skip)
  case True
  have bd: "slen A \<le> salloc A" "salloc A < length (sbuf A)" using wf by (simp_all add: sds_wf_def)
  have "memmove h s (padd s (int i)) n = Some h"
  proof (cases "n = 0")
    case False
    then have "i = 0" using skip True by simp
    moreover have "load_bytes h s n = Some (take n (sbuf A))"
      using sds_load_buf [OF at, of 0 n] le bd by simp
    ultimately show ?thesis using memmove_self sds_atD(1) [OF at] by simp
  qed (simp add: memmove_def)
  with True show ?thesis by simp
qed simp

subsection \<open>Trimming\<close>

text \<open>A character is trimmed if it is in the set; the NUL character always is, because
  \<open>strchr\<close> finds the terminator of the set.\<close>

definition trim_char :: "byte list \<Rightarrow> byte \<Rightarrow> bool" where
  "trim_char cs c \<longleftrightarrow> c \<in> set cs \<or> c = 0"

definition trimmed :: "byte list \<Rightarrow> byte list \<Rightarrow> byte list" where
  "trimmed cs xs = rev (dropWhile (trim_char cs) (rev (dropWhile (trim_char cs) xs)))"

lemma strchr_cstring: "cstring h p cs \<Longrightarrow> strchr_found h p c = Some (trim_char cs c)"
  by (simp add: strchr_found_def strlen_cstring cstring_load trim_char_def)

lemma trim_left_ok:
  assumes at: "sds_at h s b A" and wf: "sds_wf A" and cs: "cstring h cset cs" and le: "k \<le> slen A"
  shows "trim_left h s cset (int k) (int (slen A) - 1) =
    Some (int (k + length (takeWhile (trim_char cs) (drop k (sds_val A)))))"
  using le
proof (induction "slen A - k" arbitrary: k)
  case 0
  then show ?case using sds_val_length [OF wf] by (subst trim_left.simps) simp
next
  case (Suc m)
  have bd: "k < slen A" "slen A < length (sbuf A)" using Suc.hyps(2) wf by (auto simp: sds_wf_def)
  have ld: "load h (padd s (int k)) = Some (sbuf A ! k)" using bd by (intro sds_load_char [OF at]) simp
  have dr: "drop k (sds_val A) = sbuf A ! k # drop (Suc k) (sds_val A)"
    using bd sds_val_length [OF wf] by (subst Cons_nth_drop_Suc [symmetric]) (simp_all add: sds_val_def)
  have IH: "trim_left h s cset (int (Suc k)) (int (slen A) - 1) =
      Some (int (Suc k + length (takeWhile (trim_char cs) (drop (Suc k) (sds_val A)))))"
    using Suc.hyps bd by (intro Suc.hyps(1)) auto
  show ?case
    using ld dr IH bd strchr_cstring [OF cs] by (subst trim_left.simps) (simp add: add.commute)
qed

lemma trim_right_ok:
  assumes at: "sds_at h s b A" and wf: "sds_wf A" and cs: "cstring h cset cs"
    and i: "i < n" "n \<le> slen A" "\<not> trim_char cs (sbuf A ! i)"
  shows "trim_right h s cset (int i) (int n - 1) =
    Some (int (n - length (takeWhile (trim_char cs) (rev (take n (sbuf A))))) - 1)"
  using i(1,2)
proof (induction n)
  case (Suc n)
  have bd: "n < length (sbuf A)" using Suc.prems wf by (auto simp: sds_wf_def)
  have ld: "load h (padd s (int n)) = Some (sbuf A ! n)" using bd by (intro sds_load_char [OF at])
  have rv: "rev (take (Suc n) (sbuf A)) = sbuf A ! n # rev (take n (sbuf A))"
    using bd by (simp add: take_Suc_conv_app_nth)
  show ?case
  proof (cases "i = n")
    case True
    then show ?thesis using i(3) rv by (subst trim_right.simps) simp
  next
    case False
    then have IH: "trim_right h s cset (int i) (int n - 1) =
        Some (int (n - length (takeWhile (trim_char cs) (rev (take n (sbuf A))))) - 1)"
      using Suc by simp
    show ?thesis using ld rv IH False Suc.prems(1) strchr_cstring [OF cs]
      by (subst trim_right.simps) simp
  qed
qed simp

lemma trimmed_decomp:
  fixes cs xs :: "byte list"
  defines "i \<equiv> length (takeWhile (trim_char cs) xs)"
    and "k \<equiv> length (takeWhile (trim_char cs) (rev xs))"
  assumes "i < length xs"
  shows "trimmed cs xs = take (length xs - k - i) (drop i xs)" "i < length xs - k"
proof -
  let ?P = "trim_char cs"
  have x: "\<not> ?P (xs ! i)" using assms(3) by (simp add: i_def nth_length_takeWhile)
  have dW: "dropWhile ?P xs = drop i xs" by (simp add: i_def dropWhile_eq_drop)
  have tW: "takeWhile ?P (rev (drop i xs)) = takeWhile ?P (rev xs)"
  proof -
    have "rev xs = rev (drop i xs) @ rev (take i xs)" by (metis append_take_drop_id rev_append)
    moreover have "xs ! i \<in> set (rev (drop i xs))"
      using Cons_nth_drop_Suc [OF assms(3)] by (metis list.set_intros(1) set_rev)
    ultimately show ?thesis using x by (metis takeWhile_append1)
  qed
  have k: "k < length xs - i"
  proof (rule ccontr)
    assume "\<not> k < length xs - i"
    moreover have "k \<le> length (rev (drop i xs))"
      using length_takeWhile_le [of ?P "rev (drop i xs)"] tW by (simp add: k_def)
    ultimately have "takeWhile ?P (rev (drop i xs)) = rev (drop i xs)"
      using tW by (metis k_def length_drop length_rev nle_le not_less takeWhile_eq_take take_all)
    then have "\<forall>y \<in> set (drop i xs). ?P y" by (metis set_rev set_takeWhileD)
    then show False using x assms(3) by (metis Cons_nth_drop_Suc list.set_intros(1))
  qed
  show "i < length xs - k" using k by simp
  have "trimmed cs xs = rev (drop k (rev (drop i xs)))"
    unfolding trimmed_def dW by (simp add: dropWhile_eq_drop tW k_def)
  also have "\<dots> = take (length xs - i - k) (drop i xs)"
    by (simp only: rev_drop [of k "rev (drop i xs)"] rev_rev_ident length_rev length_drop)
  finally show "trimmed cs xs = take (length xs - k - i) (drop i xs)" by (simp add: add.commute)
qed

lemma trimmed_all: "length (takeWhile (trim_char cs) xs) = length xs \<Longrightarrow> trimmed cs xs = []"
  by (metis append_Nil2 append_eq_conv_conj dropWhile_eq_drop drop_all order_refl rev.simps(1)
      dropWhile.simps(1) trimmed_def)

lemma sdstrim_ok:
  assumes hold: "sds_holds h s b xs" and ok: "heap_ok h" and cs: "cstring h cset cs"
  obtains h' where "sdstrim h s cset = Some (s, h')" "sds_holds h' s b (trimmed cs xs)" "evolves h b h' b"
proof -
  obtain A where A: "sds_at h s b A" "sds_wf A" "sds_val A = xs" using hold by (auto simp: sds_holds_def)
  have lx: "slen A = length xs" using sds_val_length [OF A(2)] A(3) by simp
  let ?i = "length (takeWhile (trim_char cs) xs)"
  have L: "trim_left h s cset 0 (int (slen A) - 1) = Some (int ?i)"
    using trim_left_ok [OF A(1,2) cs, of 0] A(3) by simp
  have ile: "?i \<le> length xs" by (rule length_takeWhile_le)
  obtain n where n: "trim_right h s cset (int ?i) (int (slen A) - 1) = Some (int (?i + n) - 1)"
    "?i + n \<le> slen A" "take n (drop ?i xs) = trimmed cs xs"
  proof (cases "?i = length xs")
    case True
    then have "trim_right h s cset (int ?i) (int (slen A) - 1) = Some (int (slen A) - 1)"
      using lx by (subst trim_right.simps) simp
    then show ?thesis using that [of 0] True lx trimmed_all by simp
  next
    case False
    then have i: "?i < slen A" using ile lx by simp
    let ?k = "length (takeWhile (trim_char cs) (rev xs))"
    note T = trimmed_decomp [of cs xs, OF i [unfolded lx]]
    have "sbuf A ! ?i = xs ! ?i" using A(3) i by (auto simp: sds_val_def)
    then have "\<not> trim_char cs (sbuf A ! ?i)" using i lx by (simp add: nth_length_takeWhile)
    from trim_right_ok [OF A(1,2) cs i order_refl this]
    have "trim_right h s cset (int ?i) (int (slen A) - 1) = Some (int (slen A - ?k) - 1)"
      using A(3) by (simp add: sds_val_def)
    then show ?thesis using that [of "slen A - ?k - ?i"] T lx by (simp add: of_nat_diff)
  qed
  obtain B where B: "do {
      h \<leftarrow> memmove h s (padd s (int ?i)) n;
      h \<leftarrow> store h (padd s (int n)) 0;
      sdssetlen h s n
    } = Some (upd h b (sds_bytes B))" "sds_at (upd h b (sds_bytes B)) s b B" "sds_wf B"
    "sds_val B = take n (drop ?i (sds_val A))"
    using sds_shift [OF A(1,2) n(2)] by blast
  have mv: "(if int ?i \<noteq> 0 then memmove h s (padd s (int ?i)) n else Some h) = memmove h s (padd s (int ?i)) n"
    using sds_shift_skip [OF A(1,2) n(2), of "?i = 0"] by (simp split: if_splits)
  have len: "nat (int (?i + n) - 1 - int ?i + 1) = n" by simp
  have "sdstrim h s cset = Some (s, upd h b (sds_bytes B))"
    unfolding sdstrim_def sdslen_at [OF A(1)] bind.bind_lunit Let_def L n(1) len mv
    using B(1) by (auto simp: bind_eq_Some_conv)
  moreover have "sds_holds (upd h b (sds_bytes B)) s b (trimmed cs xs)"
    using B(2-4) n(3) A(3) by (intro sds_holdsI) auto
  ultimately show ?thesis using that evolves_upd [OF ok sds_atD(2) [OF A(1)]] by blast
qed

subsection \<open>Taking a range\<close>

definition slice :: "byte list \<Rightarrow> int \<Rightarrow> int \<Rightarrow> byte list" where
  "slice xs i j = take (nat (j + 1 - i)) (drop (nat i) xs)"

text \<open>A negative index counts from the end, and not past the beginning.\<close>

definition from_end :: "byte list \<Rightarrow> int \<Rightarrow> int" where
  "from_end xs i = (if i < 0 then max 0 (int (length xs) + i) else i)"

lemma to_ssize_exact: "- (2 ^ 63) \<le> x \<Longrightarrow> x < 2 ^ 63 \<Longrightarrow> to_ssize x = x"
  by (simp add: to_ssize_def)

lemma range_index_ok:
  "length xs < 2 ^ 63 \<Longrightarrow> - (2 ^ 63) \<le> i \<Longrightarrow> range_index (length xs) i = from_end xs i"
  by (auto simp: range_index_def from_end_def Let_def to_ssize_exact)

lemma from_end_nonneg [simp]: "0 \<le> from_end xs i"
  by (simp add: from_end_def)

text \<open>The arithmetic of \<open>sdsrange\<close>: the new length, as the code computes it.\<close>

lemma range_newlen:
  assumes "0 \<le> i" "0 \<le> j" "j < 2 ^ 63 - 1" "xs \<noteq> []" "length xs < 2 ^ 63"
  defines "m \<equiv> nat (j - i + 1)"
  defines "n \<equiv> (if (if i > j then 0 else m) \<noteq> 0
         then (if i \<ge> to_ssize (int (length xs)) then 0
               else if j \<ge> to_ssize (int (length xs)) then nat (to_ssize (int (length xs) - 1) - i + 1)
               else (if i > j then 0 else m))
         else (if i > j then 0 else m))"
  shows "take n (drop (nat i) xs) = slice xs i j" "n \<noteq> 0 \<longrightarrow> nat i + n \<le> length xs" "n \<le> length xs"
proof -
  have ss: "to_ssize (int (length xs)) = int (length xs)"
      "to_ssize (int (length xs) - 1) = int (length xs) - 1"
    using assms(4,5) by (simp_all add: to_ssize_exact)
  consider "i > j" | "i \<le> j" "int (length xs) \<le> i" | "i \<le> j" "i < int (length xs)" "int (length xs) \<le> j"
    | "i \<le> j" "j < int (length xs)" by linarith
  then have "take n (drop (nat i) xs) = slice xs i j \<and> (n \<noteq> 0 \<longrightarrow> nat i + n \<le> length xs) \<and> n \<le> length xs"
    by cases (use assms(1) ss in \<open>simp_all add: n_def m_def slice_def nat_le_iff algebra_simps\<close>)
  then show "take n (drop (nat i) xs) = slice xs i j" "n \<noteq> 0 \<longrightarrow> nat i + n \<le> length xs" "n \<le> length xs"
    by simp_all
qed

lemma sdsrange_ok:
  assumes hold: "sds_holds h s b xs" and ok: "heap_ok h" and len: "length xs < 2 ^ 63"
    and rng: "- (2 ^ 63) \<le> start" "- (2 ^ 63) \<le> stop" "stop < 2 ^ 63 - 1"
  obtains h' where "sdsrange h s start stop = Some h'"
    "sds_holds h' s b (slice xs (from_end xs start) (from_end xs stop))" "evolves h b h' b"
proof (cases "xs = []")
  case True
  then have "sdsrange h s start stop = Some h" by (simp add: sdsrange_def sds_holds_len [OF hold])
  then show ?thesis using that True hold evolves_refl [OF ok] by (simp add: slice_def)
next
  case False
  obtain A where A: "sds_at h s b A" "sds_wf A" "sds_val A = xs" using hold by (auto simp: sds_holds_def)
  have lx: "slen A = length xs" using sds_val_length [OF A(2)] A(3) by simp
  define i where "i = from_end xs start"
  define j where "j = from_end xs stop"
  have ij: "0 \<le> i" "0 \<le> j" "j < 2 ^ 63 - 1"
    using rng len by (auto simp: i_def j_def) (auto simp: from_end_def)
  define n where "n = (if (if i > j then 0 else nat (j - i + 1)) \<noteq> 0
         then (if i \<ge> to_ssize (int (length xs)) then 0
               else if j \<ge> to_ssize (int (length xs)) then nat (to_ssize (int (length xs) - 1) - i + 1)
               else (if i > j then 0 else nat (j - i + 1)))
         else (if i > j then 0 else nat (j - i + 1)))"
  note N = range_newlen [OF ij False len, folded n_def]
  define i' where "i' = (if n = 0 then 0 else nat i)"
  have le: "i' + n \<le> slen A" using N(2) lx by (simp add: i'_def)
  obtain B where B: "do {
      h \<leftarrow> memmove h s (padd s (int i')) n;
      h \<leftarrow> store h (padd s (int n)) 0;
      sdssetlen h s n
    } = Some (upd h b (sds_bytes B))" "sds_at (upd h b (sds_bytes B)) s b B" "sds_wf B"
    "sds_val B = take n (drop i' (sds_val A))"
    using sds_shift [OF A(1,2) le] by blast
  have mv: "(if i \<noteq> 0 \<and> n \<noteq> 0 then memmove h s (padd s i) n else Some h) = memmove h s (padd s (int i')) n"
    using sds_shift_skip [OF A(1,2) le, of "i = 0 \<or> n = 0"] ij(1) by (auto simp: i'_def split: if_splits)
  have ov: "(if i > j then Some 0 else if j - i + 1 \<ge> 2 ^ 63 then None else Some (nat (j - i + 1)))
      = Some (if i > j then 0 else nat (j - i + 1))"
    using ij by simp
  have "sdsrange h s start stop = Some (upd h b (sds_bytes B))"
    unfolding sdsrange_def sdslen_at [OF A(1)] lx bind.bind_lunit Let_def
      range_index_ok [OF len rng(1)] range_index_ok [OF len rng(2)]
      i_def [symmetric] j_def [symmetric] ov n_def [symmetric] mv
    using False B(1) by (simp add: bind_eq_Some_conv)
  moreover have "sds_val B = slice xs i j" using B(4) N(1) A(3) by (auto simp: i'_def split: if_splits)
  ultimately show ?thesis
    using that sds_holdsI [OF B(2,3)] evolves_upd [OF ok sds_atD(2) [OF A(1)]] by (simp add: i_def j_def)
qed

subsection \<open>Changing every character\<close>

lemma each_char_ok:
  assumes "sds_at h s b A" "sds_wf A" "j + k \<le> slen A" "\<And>xs c. f (upd h b xs) c = Some (g c)"
  shows "each_char f h s j k = Some (upd h b (sds_bytes (A\<lparr>sbuf := take j (sbuf A) @
    map (\<lambda>c. case g c of None \<Rightarrow> c | Some x \<Rightarrow> x) (take k (drop j (sbuf A))) @ drop (j + k) (sbuf A)\<rparr>)))"
  using assms
proof (induction k arbitrary: h A j)
  case 0
  then show ?case using sds_atD(2) [OF 0(1)] by (simp add: upd_same)
next
  case (Suc k)
  have bd: "j < length (sbuf A)" using Suc.prems(2,3) by (auto simp: sds_wf_def)
  have ld: "load h (padd s (int j)) = Some (sbuf A ! j)" by (rule sds_load_char [OF Suc.prems(1) bd])
  have f: "f h (sbuf A ! j) = Some (g (sbuf A ! j))"
    using Suc.prems(4) [of "sds_bytes A"] sds_atD(2) [OF Suc.prems(1)] by (simp add: upd_same)
  let ?x = "case g (sbuf A ! j) of None \<Rightarrow> sbuf A ! j | Some x \<Rightarrow> x"
  let ?A = "A\<lparr>sbuf := (sbuf A)[j := ?x]\<rparr>"
  have st: "(case g (sbuf A ! j) of None \<Rightarrow> Some h | Some x \<Rightarrow> store h (padd s (int j)) x)
      = Some (upd h b (sds_bytes ?A))"
    using sds_store_char [OF Suc.prems(1) bd] sds_atD(2) [OF Suc.prems(1)]
    by (auto simp: upd_same split: option.splits)
  have lay: "sds_layout ?A" using sds_atD(3) [OF Suc.prems(1)] by (simp add: sds_layout_def)
  have at: "sds_at (upd h b (sds_bytes ?A)) s b ?A" using sds_at_upd [OF Suc.prems(1) lay] by simp
  have wf: "sds_wf ?A" using Suc.prems(2,3) by (auto simp: sds_wf_def)
  have "each_char f (upd h b (sds_bytes ?A)) s (Suc j) k = Some (upd (upd h b (sds_bytes ?A)) b
      (sds_bytes (?A\<lparr>sbuf := take (Suc j) (sbuf ?A) @
        map (\<lambda>c. case g c of None \<Rightarrow> c | Some x \<Rightarrow> x) (take k (drop (Suc j) (sbuf ?A))) @
        drop (Suc j + k) (sbuf ?A)\<rparr>)))"
    using Suc.prems(3,4) by (intro Suc.IH [OF at wf]) simp_all
  moreover have "take (Suc j) ((sbuf A)[j := ?x]) = take j (sbuf A) @ [?x]"
    using bd by (simp add: take_Suc_conv_app_nth)
  moreover have "take (Suc k) (drop j (sbuf A)) = sbuf A ! j # take k (drop (Suc j) (sbuf A))"
    using bd by (simp add: Cons_nth_drop_Suc [symmetric])
  ultimately show ?case using ld f st by simp
qed

lemma each_char_holds:
  assumes hold: "sds_holds h s b xs" and ok: "heap_ok h" and f: "\<And>ys c. f (upd h b ys) c = Some (g c)"
  obtains h' where "each_char f h s 0 (length xs) = Some h'"
    "sds_holds h' s b (map (\<lambda>c. case g c of None \<Rightarrow> c | Some x \<Rightarrow> x) xs)" "evolves h b h' b"
proof -
  obtain A where A: "sds_at h s b A" "sds_wf A" "sds_val A = xs" using hold by (auto simp: sds_holds_def)
  have lx: "slen A = length xs" using sds_val_length [OF A(2)] A(3) by simp
  have bd: "slen A \<le> salloc A" "salloc A < length (sbuf A)" "sbuf A ! slen A = 0"
    using A(2) by (simp_all add: sds_wf_def)
  let ?m = "map (\<lambda>c. case g c of None \<Rightarrow> c | Some x \<Rightarrow> x) xs"
  let ?B = "A\<lparr>sbuf := ?m @ drop (slen A) (sbuf A)\<rparr>"
  have "each_char f h s 0 (length xs) = Some (upd h b (sds_bytes ?B))"
    using each_char_ok [OF A(1,2), of 0 "slen A" f g] f lx A(3) by (simp add: sds_val_def)
  moreover have "sds_layout ?B" using sds_atD(3) [OF A(1)] by (simp add: sds_layout_def)
  then have "sds_at (upd h b (sds_bytes ?B)) s b ?B" using sds_at_upd [OF A(1)] by simp
  moreover have "sds_wf ?B" using bd lx by (simp add: sds_wf_def nth_append)
  moreover have "sds_val ?B = ?m" using lx by (simp add: sds_val_def)
  ultimately show ?thesis using that sds_holdsI evolves_upd [OF ok sds_atD(2) [OF A(1)]] by blast
qed

lemma sdstolower_ok:
  assumes "sds_holds h s b xs" "heap_ok h"
  obtains h' where "sdstolower h s = Some h'" "sds_holds h' s b (map tolower xs)" "evolves h b h' b"
proof -
  obtain h' where "each_char (\<lambda>h c. Some (Some (tolower c))) h s 0 (length xs) = Some h'"
    "sds_holds h' s b (map (\<lambda>c. case Some (tolower c) of None \<Rightarrow> c | Some x \<Rightarrow> x) xs)" "evolves h b h' b"
    by (rule each_char_holds [OF assms, of "\<lambda>h c. Some (Some (tolower c))" "\<lambda>c. Some (tolower c)"]) simp_all
  then show ?thesis using that sds_holds_len [OF assms(1)] by (simp add: sdstolower_def)
qed

lemma sdstoupper_ok:
  assumes "sds_holds h s b xs" "heap_ok h"
  obtains h' where "sdstoupper h s = Some h'" "sds_holds h' s b (map toupper xs)" "evolves h b h' b"
proof -
  obtain h' where "each_char (\<lambda>h c. Some (Some (toupper c))) h s 0 (length xs) = Some h'"
    "sds_holds h' s b (map (\<lambda>c. case Some (toupper c) of None \<Rightarrow> c | Some x \<Rightarrow> x) xs)" "evolves h b h' b"
    by (rule each_char_holds [OF assms, of "\<lambda>h c. Some (Some (toupper c))" "\<lambda>c. Some (toupper c)"]) simp_all
  then show ?thesis using that sds_holds_len [OF assms(1)] by (simp add: sdstoupper_def)
qed

text \<open>\<open>sdsmapchars\<close> looks each character up in the association of \<open>from\<close> and \<open>to\<close>.\<close>

lemma mapchars_find_ok:
  assumes "load_bytes h from n = Some fs" "load_bytes h to n = Some ts" "i + k = n"
  shows "mapchars_find from to i k h c = Some (map_of (zip (drop i fs) (drop i ts)) c)"
  using assms(3)
proof (induction k arbitrary: i)
  case 0
  then show ?case using length_load_bytes [OF assms(1)] by simp
next
  case (Suc k)
  have len: "length fs = n" "length ts = n" using length_load_bytes assms(1,2) by blast+
  have i: "i < n" using Suc.prems by simp
  have "drop i fs = fs ! i # drop (Suc i) fs" "drop i ts = ts ! i # drop (Suc i) ts"
    using len i by (simp_all add: Cons_nth_drop_Suc)
  then show ?case
    using load_nth [OF assms(1) i] load_nth [OF assms(2) i] Suc.IH [of "Suc i"] Suc.prems by auto
qed

lemma sdsmapchars_ok:
  assumes hold: "sds_holds h s b xs" and ok: "heap_ok h"
    and fs: "load_bytes h from n = Some fs" "block_of from \<noteq> Some b"
    and ts: "load_bytes h to n = Some ts" "block_of to \<noteq> Some b"
  obtains h' where "sdsmapchars h s from to n = Some (s, h')"
    "sds_holds h' s b (map (\<lambda>c. case map_of (zip fs ts) c of None \<Rightarrow> c | Some x \<Rightarrow> x) xs)"
    "evolves h b h' b"
proof -
  have f: "mapchars_find from to 0 n (upd h b ys) c = Some (map_of (zip fs ts) c)" for ys c
    using mapchars_find_ok [of "upd h b ys" "from" n fs to ts 0 n c] fs ts by (simp add: mem_simps)
  obtain h' where "each_char (mapchars_find from to 0 n) h s 0 (length xs) = Some h'"
    "sds_holds h' s b (map (\<lambda>c. case map_of (zip fs ts) c of None \<Rightarrow> c | Some x \<Rightarrow> x) xs)" "evolves h b h' b"
    by (rule each_char_holds [OF hold ok, of "mapchars_find from to 0 n"]) (simp add: f)
  then show ?thesis using that sds_holds_len [OF hold] by (simp add: sdsmapchars_def)
qed

subsection \<open>Comparing\<close>

lemma sdscmp_same_length:
  assumes "sds_holds h s b xs" "sds_holds h t c ys" "length xs = length ys"
  shows "sdscmp h s t = Some (first_diff xs ys)"
  using sds_holds_len [OF assms(1)] sds_holds_len [OF assms(2)] sds_holds_load [OF assms(1)]
    sds_holds_load [OF assms(2)] assms(3)
  by (simp add: sdscmp_def memcmp_def Let_def)

lemma sdscmp_overread:
  assumes "sds_at h s b A" "sds_wf A" "sds_holds h t c ys" "length (sbuf A) < length ys"
  shows "sdscmp h s t = None" "sdscmp h t s = None"
proof -
  have lt: "slen A < length ys" using assms(2,4) by (simp add: sds_wf_def)
  have "load_bytes h s (length ys) = None"
    using sds_atD [OF assms(1)] assms(4) by (auto simp: load_bytes_def sds_bytes_def)
  then show "sdscmp h s t = None" "sdscmp h t s = None"
    using lt sdslen_at [OF assms(1)] sds_holds_len [OF assms(3)] sds_holds_load [OF assms(3)]
    by (simp_all add: sdscmp_def memcmp_def)
qed

subsection \<open>Properties\<close>

text \<open>
  \<open>sdstrim\<close> removes from both ends exactly the characters of the set (and NUL
  characters, which \<open>strchr\<close> always finds), in place, and the result is a well-formed string.
\<close>

theorem sdstrim_trims:
  assumes "sds_holds h s b xs" "heap_ok h" "cstring h cset cs"
  shows "\<exists>h'. sdstrim h s cset = Some (s, h') \<and> sds_holds h' s b (trimmed cs xs) \<and> evolves h b h' b"
  using sdstrim_ok [OF assms] by blast

theorem sdstrim_trims_witness:
  "\<exists>h'. sdstrim hello_heap (Ptr 0 1) (Str (bytes ''ho'' @ [0]) 0) = Some (Ptr 0 1, h') \<and>
     sds_holds h' (Ptr 0 1) 0 (bytes ''ell'') \<and> evolves hello_heap 0 h' 0"
proof -
  have "trimmed (bytes ''ho'') (bytes ''hello'') = bytes ''ell''"
    by (simp add: trimmed_def trim_char_def bytes_def)
  moreover have "cstring hello_heap (Str (bytes ''ho'' @ [0]) 0) (bytes ''ho'')"
    by (rule literal_cstring) (simp add: bytes_def)
  ultimately show ?thesis using sdstrim_trims [OF hello_holds, of "Str (bytes ''ho'' @ [0]) 0" "bytes ''ho''"] by simp
qed

text \<open>
  \<open>sdsrange\<close> keeps the bytes from \<open>start\<close> to \<open>stop\<close> inclusive, where a negative
  index counts from the end and indices past either end are cut off, for every pair of indices
  whose inclusive distance does not overflow \<open>ssize_t\<close>.
\<close>

theorem sdsrange_slices:
  assumes "sds_holds h s b xs" "heap_ok h" "length xs < 2 ^ 63"
    "- (2 ^ 63) \<le> start" "- (2 ^ 63) \<le> stop" "stop < 2 ^ 63 - 1"
  shows "\<exists>h'. sdsrange h s start stop = Some h' \<and>
    sds_holds h' s b (slice xs (from_end xs start) (from_end xs stop)) \<and> evolves h b h' b"
  using sdsrange_ok [OF assms] by blast

theorem sdsrange_slices_witness:
  "\<exists>h'. sdsrange hello_heap (Ptr 0 1) (-4) 2 = Some h' \<and> sds_holds h' (Ptr 0 1) 0 (bytes ''el'')
     \<and> evolves hello_heap 0 h' 0"
proof -
  have "slice (bytes ''hello'') (from_end (bytes ''hello'') (-4)) (from_end (bytes ''hello'') 2) = bytes ''el''"
    by (simp add: slice_def from_end_def bytes_def)
  then show ?thesis using sdsrange_slices [OF hello_holds, of "-4" 2] by simp
qed

text \<open>
  \<open>sdscmp\<close> computes the maximum of the two lengths and calls it the minimum.  When the
  longer string is longer than the other string's buffer, the comparison reads past the end of
  the shorter string's block, in both argument orders.
\<close>

theorem sdscmp_reads_past_end:
  assumes "sds_at h s b A" "sds_wf A" "sds_holds h t c ys" "length (sbuf A) < length ys"
  shows "sdscmp h s t = None \<and> sdscmp h t s = None"
  using sdscmp_overread [OF assms] by simp

theorem sdscmp_reads_past_end_witness:
  "let h = upd (bump hello_heap) 1 (sds_bytes (new_obj (bytes ''hi'')))
   in sdscmp h (Ptr 1 1) (Ptr 0 1) = None \<and> sdscmp h (Ptr 0 1) (Ptr 1 1) = None"
proof -
  let ?h = "upd (bump hello_heap) 1 (sds_bytes (new_obj (bytes ''hi'')))"
  have "sds_at ?h (Ptr 1 1) 1 (new_obj (bytes ''hi''))"
    using new_obj_at [of "bytes ''hi''" "bump hello_heap" 1] by (simp add: new_type_def sdsReqType_def)
  moreover have "sds_holds ?h (Ptr 0 1) 0 (bytes ''hello'')"
    using hello_at by (intro sds_holdsI [of _ _ _ "new_obj (bytes ''hello'')"]) (auto simp: sds_at_def)
  ultimately show ?thesis
    using sdscmp_reads_past_end [of ?h "Ptr 1 1" 1 "new_obj (bytes ''hi'')" "Ptr 0 1" 0 "bytes ''hello''"]
    by (simp add: Let_def new_obj_def [of "bytes ''hi''"] sds_wf_def nth_append)
qed

end
