(* ===== verification/Sds_Num.thy ===== *)
theory Sds_Num
  imports Sds_Resize
begin

text \<open>
  Integers as decimal strings (\<open>sdsll2str\<close>, \<open>sdsull2str\<close> and
  \<open>sdsfromlonglong\<close> of \<open>redis-learnning/sds/sds.c\<close>).  The conversion routines write
  into an array of the caller, here the list of its bytes; an index outside the array is an
  invalid access (\<open>None\<close>).  The digits come out least significant first and are then
  reversed in place.
\<close>

subsection \<open>Operations\<close>

definition put :: "byte list \<Rightarrow> nat \<Rightarrow> byte \<Rightarrow> byte list option" where
  "put buf i x = (if i < length buf then Some (buf[i := x]) else None)"

abbreviation (input) SDS_LLSTR_SIZE :: nat where "SDS_LLSTR_SIZE \<equiv> 21"

text \<open>The loop \<open>do ... while (v)\<close> that produces the digits from index \<open>p\<close> on.\<close>

function ll_digits :: "byte list \<Rightarrow> nat \<Rightarrow> nat \<Rightarrow> (byte list \<times> nat) option" where
  "ll_digits buf p v = do {
     buf \<leftarrow> put buf p (48 + of_nat (v mod 10));
     if v div 10 = 0 then Some (buf, p + 1) else ll_digits buf (p + 1) (v div 10)
   }"
  by pat_completeness auto
termination by (relation "measure (\<lambda>(buf, p, v). v)") (auto simp: div_eq_0_iff)

text \<open>The loop \<open>while (s < p)\<close> that swaps the ends.\<close>

function rev_loop :: "byte list \<Rightarrow> nat \<Rightarrow> nat \<Rightarrow> byte list option" where
  "rev_loop buf s p =
     (if s < p
      then (if p < length buf
            then do {
              let aux = buf ! s;
              buf \<leftarrow> put buf s (buf ! p);
              buf \<leftarrow> put buf p aux;
              rev_loop buf (s + 1) (p - 1)
            }
            else None)
      else Some buf)"
  by pat_completeness auto
termination by (relation "measure (\<lambda>(buf, s, p). p - s)") auto

declare ll_digits.simps [simp del] rev_loop.simps [simp del]

definition sdsll2str :: "byte list \<Rightarrow> int \<Rightarrow> (byte list \<times> nat) option" where
  "sdsll2str s value = do {
     let v = (if value < 0
              then (if value \<noteq> - (2 ^ 63) then nat (- value) else (2 ^ 63 - 1) + 1)
              else nat value);
     (s, p) \<leftarrow> ll_digits s 0 v;
     (s, p) \<leftarrow> (if value < 0 then do { s \<leftarrow> put s p 45; Some (s, p + 1) } else Some (s, p));
     let l = p;
     s \<leftarrow> put s p 0;
     s \<leftarrow> rev_loop s 0 (p - 1);
     Some (s, l)
   }"

definition sdsull2str :: "byte list \<Rightarrow> nat \<Rightarrow> (byte list \<times> nat) option" where
  "sdsull2str s v = do {
     (s, p) \<leftarrow> ll_digits s 0 v;
     let l = p;
     s \<leftarrow> put s p 0;
     s \<leftarrow> rev_loop s 0 (p - 1);
     Some (s, l)
   }"

text \<open>A local array: its initial bytes are indeterminate.\<close>

definition stack_buf :: "heap \<Rightarrow> nat \<Rightarrow> byte list" where
  "stack_buf h n = map (junk h (nxt h)) [0..<n]"

definition sdsfromlonglong :: "heap \<Rightarrow> int \<Rightarrow> (ptr \<times> heap) option" where
  "sdsfromlonglong h value = do {
     (buf, len) \<leftarrow> sdsll2str (stack_buf h SDS_LLSTR_SIZE) value;
     sdsnewlen h (Str buf 0) len
   }"

subsection \<open>Decimal notation\<close>

fun dec_digits :: "nat \<Rightarrow> byte list" where
  "dec_digits v = (if v < 10 then [48 + of_nat v] else dec_digits (v div 10) @ [48 + of_nat (v mod 10)])"

declare dec_digits.simps [simp del]

definition dec_of_int :: "int \<Rightarrow> byte list" where
  "dec_of_int i = (if i < 0 then [45] else []) @ dec_digits (nat \<bar>i\<bar>)"

text \<open>Reading a number back.\<close>

definition dec_value :: "byte list \<Rightarrow> nat" where
  "dec_value xs = foldl (\<lambda>a c. 10 * a + (unat c - 48)) 0 xs"

definition int_value :: "byte list \<Rightarrow> int" where
  "int_value xs = (case xs of c # cs \<Rightarrow> if c = 45 then - int (dec_value cs) else int (dec_value xs) | [] \<Rightarrow> 0)"

lemma digit_val: "d < 10 \<Longrightarrow> unat (48 + of_nat d :: byte) = 48 + d"
  by (simp add: unat_word_ariths unat_of_nat)

lemma dec_value_digits: "dec_value (dec_digits v) = v"
proof (induction v rule: dec_digits.induct)
  case (1 v)
  have d: "unat (48 + of_nat (v mod 10) :: byte) - 48 = v mod 10" by (simp add: digit_val)
  show ?case
  proof (cases "v < 10")
    case True
    then show ?thesis by (simp add: dec_value_def dec_digits.simps digit_val)
  next
    case False
    then have "dec_value (dec_digits v) = 10 * dec_value (dec_digits (v div 10)) + v mod 10"
      using d by (subst dec_digits.simps) (simp add: dec_value_def)
    then show ?thesis using 1 False by simp
  qed
qed

lemma dec_digits_range: "c \<in> set (dec_digits v) \<Longrightarrow> 48 \<le> unat c \<and> unat c \<le> 57"
proof (induction v rule: dec_digits.induct)
  case (1 v)
  have *: "unat (48 + of_nat (v mod 10) :: byte) = 48 + v mod 10" by (simp add: digit_val)
  have "v mod 10 \<le> 9" by simp
  with 1 * show ?case
    by (subst (asm) (2) dec_digits.simps) (auto simp: digit_val split: if_splits)
qed

lemma dec_digits_hd: "\<exists>c cs. dec_digits v = c # cs"
  by (induction v rule: dec_digits.induct) (subst dec_digits.simps, auto)

lemma int_value_dec: "int_value (dec_of_int i) = i"
proof -
  obtain c cs where c: "dec_digits (nat \<bar>i\<bar>) = c # cs" using dec_digits_hd by blast
  then have "c \<noteq> 45" using dec_digits_range [of c "nat \<bar>i\<bar>"] by auto
  then show ?thesis using c dec_value_digits [of "nat \<bar>i\<bar>"] by (auto simp: int_value_def dec_of_int_def)
qed

lemma length_dec_digits: "v < 10 ^ Suc k \<Longrightarrow> length (dec_digits v) \<le> Suc k"
proof (induction k arbitrary: v)
  case (Suc k)
  have "v div 10 < 10 ^ Suc k" using Suc.prems by (simp add: less_mult_imp_div_less mult.commute)
  from Suc.IH [OF this] show ?case by (subst dec_digits.simps) simp
qed (simp add: dec_digits.simps)

lemma length_dec_of_int_le: "length (dec_of_int i) \<le> Suc (length (dec_digits (nat \<bar>i\<bar>)))"
  by (auto simp: dec_of_int_def)

subsection \<open>The loops\<close>

lemma ll_digits_ok:
  "p + length (dec_digits v) \<le> length buf \<Longrightarrow>
   ll_digits buf p v = Some (overwrite buf p (rev (dec_digits v)), p + length (dec_digits v))"
proof (induction buf p v rule: ll_digits.induct)
  case (1 buf p v)
  have p: "p < length buf" using "1.prems" dec_digits_hd [of v] by auto
  then have pt: "put buf p x = Some (overwrite buf p [x])" for x by (simp add: put_def overwrite_single)
  show ?case
  proof (cases "v < 10")
    case True
    then show ?thesis using pt by (simp add: ll_digits.simps [of buf p v] dec_digits.simps [of v])
  next
    case False
    let ?x = "48 + of_nat (v mod 10) :: byte"
    have d: "dec_digits v = dec_digits (v div 10) @ [?x]" using False by (simp add: dec_digits.simps [of v])
    have "ll_digits (overwrite buf p [?x]) (p + 1) (v div 10) =
        Some (overwrite (overwrite buf p [?x]) (p + 1) (rev (dec_digits (v div 10))),
          p + 1 + length (dec_digits (v div 10)))"
      using False "1.prems" p d by (intro "1.IH" [OF pt]) auto
    moreover have "overwrite (overwrite buf p [?x]) (p + 1) ys = overwrite buf p (?x # ys)" for ys
      using p by (simp add: overwrite_def add.commute)
    moreover have "v div 10 \<noteq> 0" using False by (simp add: div_eq_0_iff)
    ultimately show ?thesis using pt d by (simp add: ll_digits.simps [of buf p v])
  qed
qed

lemma rev_loop_ok:
  "s \<le> Suc p \<Longrightarrow> p < length buf \<Longrightarrow>
   rev_loop buf s p = Some (take s buf @ rev (take (Suc p - s) (drop s buf)) @ drop (Suc p) buf)"
proof (induction buf s p rule: rev_loop.induct)
  case (1 buf s p)
  show ?case
  proof (cases "s < p")
    case True
    define A where "A = take s buf"
    define M where "M = take (p - s - 1) (drop (Suc s) buf)"
    define Z where "Z = drop (Suc p) buf"
    have len: "length A = s" "length M = p - s - 1" using True "1.prems" by (simp_all add: A_def M_def)
    have "drop (Suc s) buf = M @ drop p buf"
      using True by (simp add: M_def) (metis Suc_leI append_take_drop_id drop_drop le_add_diff_inverse2 diff_Suc_eq_diff_pred diff_commute)
    then have "buf = A @ buf ! s # M @ buf ! p # Z"
      using True "1.prems" by (metis A_def Z_def Cons_nth_drop_Suc append_take_drop_id less_trans)
    then obtain x y where buf: "buf = A @ x # M @ y # Z" by blast
    have at: "buf ! s = x" "buf ! p = y"
      using True len by (simp_all add: buf nth_append nth_Cons')
    let ?b = "A @ y # M @ x # Z"
    have p1: "put buf s y = Some (A @ y # M @ y # Z)"
      using len by (simp add: buf put_def list_update_append)
    have p2: "put (A @ y # M @ y # Z) p x = Some ?b"
      using list_update_length [of "A @ y # M" y Z x] len True by (simp add: put_def)
    have IH: "rev_loop ?b (s + 1) (p - 1) =
        Some (take (s + 1) ?b @ rev (take (Suc (p - 1) - (s + 1)) (drop (s + 1) ?b)) @ drop (Suc (p - 1)) ?b)"
      using True "1.prems" at p1 p2 len by (intro "1.IH") (auto simp: buf)
    have pm: "p - s = Suc (length M)" "Suc p - s = Suc (Suc (length M))" using len True by simp_all
    have "drop p ?b = x # Z" "drop (Suc p) buf = Z" "take (Suc p - s) (drop s buf) = x # M @ [y]"
      using len pm by (simp_all add: buf)
    then show ?thesis using True "1.prems" at p1 p2 IH len A_def by (simp add: rev_loop.simps [of buf s p])
  next
    case False
    then have "take (Suc p - s) (drop s buf) = [] \<or> (\<exists>x. take (Suc p - s) (drop s buf) = [x])"
      using "1.prems" by (cases "s = p") (auto simp: take_Suc)
    then have "rev (take (Suc p - s) (drop s buf)) = take (Suc p - s) (drop s buf)" by auto
    with False "1.prems" show ?thesis
      by (simp add: rev_loop.simps [of buf s p])
        (metis append_take_drop_id drop_drop le_add_diff_inverse2)
  qed
qed

subsection \<open>The conversions\<close>

lemma reverse_tail:
  assumes "length xs < length buf" "xs \<noteq> []"
  shows "do {
      s \<leftarrow> put (overwrite buf 0 xs) (length xs) 0;
      s \<leftarrow> rev_loop s 0 (length xs - 1);
      Some (s, length xs)
    } = Some (overwrite buf 0 (rev xs @ [0]), length xs)"
proof -
  have len: "length (overwrite buf 0 xs) = length buf" using assms by simp
  have dr: "drop (length xs) buf = buf ! length xs # drop (Suc (length xs)) buf"
    using assms by (simp add: Cons_nth_drop_Suc)
  have p: "put (overwrite buf 0 xs) (length xs) 0 = Some (xs @ 0 # drop (Suc (length xs)) buf)"
    using assms len dr by (simp add: put_def overwrite_def)
  have "rev_loop (xs @ 0 # drop (Suc (length xs)) buf) 0 (length xs - 1) =
      Some (rev xs @ 0 # drop (Suc (length xs)) buf)"
    using assms by (subst rev_loop_ok) (auto simp: Suc_diff_1 simp del: Suc_diff_1)
  with p show ?thesis by (simp add: overwrite_def)
qed

lemma sdsull2str_ok:
  assumes "v < 2 ^ 64" "SDS_LLSTR_SIZE \<le> length buf"
  shows "sdsull2str buf v = Some (overwrite buf 0 (dec_digits v @ [0]), length (dec_digits v))"
proof -
  have "v < 10 ^ Suc 19" using assms(1) by simp
  from length_dec_digits [OF this] have l: "length (dec_digits v) < length buf" using assms(2) by simp
  then have "ll_digits buf 0 v = Some (overwrite buf 0 (rev (dec_digits v)), length (dec_digits v))"
    using ll_digits_ok [of 0 v buf] by simp
  with reverse_tail [of "rev (dec_digits v)" buf] l dec_digits_hd [of v] show ?thesis
    by (auto simp: sdsull2str_def)
qed

lemma sdsll2str_ok:
  assumes "- (2 ^ 63) \<le> i" "i < 2 ^ 63" "SDS_LLSTR_SIZE \<le> length buf"
  shows "sdsll2str buf i = Some (overwrite buf 0 (dec_of_int i @ [0]), length (dec_of_int i))"
proof -
  let ?v = "nat \<bar>i\<bar>"
  have v: "(if i < 0 then (if i \<noteq> - (2 ^ 63) then nat (- i) else (2 ^ 63 - 1) + 1) else nat i) = ?v"
    by auto
  have "?v < 10 ^ Suc 18" using assms(1,2) by simp
  from length_dec_digits [OF this] have l: "length (dec_digits ?v) + 1 < length buf" using assms(3) by simp
  then have L: "ll_digits buf 0 ?v = Some (overwrite buf 0 (rev (dec_digits ?v)), length (dec_digits ?v))"
    using ll_digits_ok [of 0 ?v buf] by simp
  have sg: "(if i < 0 then do { s \<leftarrow> put (overwrite buf 0 (rev (dec_digits ?v))) (length (dec_digits ?v)) 45;
        Some (s, length (dec_digits ?v) + 1) } else Some (overwrite buf 0 (rev (dec_digits ?v)), length (dec_digits ?v)))
      = Some (overwrite buf 0 (rev (dec_of_int i)), length (rev (dec_of_int i)))"
  proof (cases "i < 0")
    case True
    have "drop (length (dec_digits ?v)) buf = buf ! length (dec_digits ?v) # drop (Suc (length (dec_digits ?v))) buf"
      using l by (simp add: Cons_nth_drop_Suc)
    moreover have "length (overwrite buf 0 (rev (dec_digits ?v))) = length buf" using l by simp
    ultimately show ?thesis using True l list_update_length [of "rev (dec_digits ?v)"]
      by (simp add: put_def dec_of_int_def overwrite_def)
  qed (simp add: dec_of_int_def)
  have "rev (dec_of_int i) \<noteq> []" using dec_digits_hd [of ?v] by (auto simp: dec_of_int_def)
  moreover have "length (rev (dec_of_int i)) < length buf" using l length_dec_of_int_le [of i] by simp
  ultimately show ?thesis
    using reverse_tail [of "rev (dec_of_int i)" buf]
    unfolding sdsll2str_def Let_def v L bind.bind_lunit prod.case sg by simp
qed

lemma length_dec_of_int: "- (2 ^ 63) \<le> i \<Longrightarrow> i < 2 ^ 63 \<Longrightarrow> length (dec_of_int i) \<le> 20"
  using length_dec_digits [of "nat \<bar>i\<bar>" 18] length_dec_of_int_le [of i] by fastforce

lemma length_stack_buf [simp]: "length (stack_buf h n) = n"
  by (simp add: stack_buf_def)

lemma load_overwritten:
  "length xs \<le> length buf \<Longrightarrow> load_bytes h (Str (overwrite buf 0 (xs @ ys)) 0) (length xs) = Some xs"
  by (auto simp: load_bytes_def overwrite_def)

lemma sdsfromlonglong_ok:
  assumes "heap_ok h" "\<forall>c n. can_alloc h c n" "- (2 ^ 63) \<le> i" "i < 2 ^ 63"
  obtains s h' b where "sdsfromlonglong h i = Some (s, h')" "sds_holds h' s b (dec_of_int i)" "spawned h h' b"
proof -
  let ?buf = "overwrite (stack_buf h 21) 0 (dec_of_int i @ [0])"
  have len: "length (dec_of_int i) \<le> 20" using length_dec_of_int assms by blast
  have ld: "load_bytes h (Str ?buf 0) (length (dec_of_int i)) = Some (dec_of_int i)"
    using len by (intro load_overwritten) simp
  have "length ?buf = 21" using len by simp
  moreover have "length (cstr ''SDS_NOINIT'') = 11" by (simp add: cstr_def)
  ultimately have ne: "Str ?buf 0 \<noteq> SDS_NOINIT" by (auto simp: SDS_NOINIT_def)
  have ft: "length (dec_of_int i) + 18 < 2 ^ 64" using len by simp
  obtain s h' b where R: "sdsnewlen h (Str ?buf 0) (length (dec_of_int i)) = Some (s, h')"
    "sds_holds h' s b (dec_of_int i)" "spawned h h' b"
    by (rule sdsnewlen_spawns [OF assms(1) ft assms(2) ld _ ne]) simp
  have "sdsfromlonglong h i = Some (s, h')"
    using R(1) sdsll2str_ok [OF assms(3,4), of "stack_buf h 21"] by (simp add: sdsfromlonglong_def)
  then show ?thesis using that R(2,3) by blast
qed

subsection \<open>Properties\<close>

text \<open>
  C31.  \<open>sdsll2str\<close> and \<open>sdsull2str\<close> terminate and write the decimal notation of every
  64-bit integer, \<open>LLONG_MIN\<close> included, into an array of \<open>SDS_LLSTR_SIZE\<close> bytes
  without leaving it: the result is NUL-terminated, the returned length is that of the text, and
  reading the text back gives the number.
\<close>

theorem sdsll2str_roundtrip:
  assumes "- (2 ^ 63) \<le> i" "i < 2 ^ 63" "v < 2 ^ 64" "length buf = SDS_LLSTR_SIZE"
  shows "\<exists>xs ys. sdsll2str buf i = Some (overwrite buf 0 (xs @ [0]), length xs) \<and> int_value xs = i
    \<and> sdsull2str buf v = Some (overwrite buf 0 (ys @ [0]), length ys) \<and> dec_value ys = v"
  using sdsll2str_ok [OF assms(1,2)] sdsull2str_ok [OF assms(3)] assms(4) int_value_dec dec_value_digits
  by (intro exI [of _ "dec_of_int i"] exI [of _ "dec_digits v"]) simp

theorem sdsll2str_roundtrip_witness:
  "\<exists>xs ys. sdsll2str (replicate 21 0) (- (2 ^ 63)) = Some (overwrite (replicate 21 0) 0 (xs @ [0]), length xs)
    \<and> int_value xs = - (2 ^ 63)
    \<and> sdsull2str (replicate 21 0) 42 = Some (overwrite (replicate 21 0) 0 (ys @ [0]), length ys) \<and> dec_value ys = 42"
  by (rule sdsll2str_roundtrip) (simp_all del: replicate.simps)

end
