(* ===== verification/Sds_Append.thy ===== *)
theory Sds_Append
  imports Sds_Num
begin

text \<open>
  The interface through which the rest of the library builds strings: something that can be
  appended (a range of bytes, a C string, another sds, formatted output) and the one law that
  appending it extends the value.  The clients (\<open>sdscatrepr\<close>, \<open>sdsjoin\<close>,
  \<open>sdsjoinsds\<close>) are loops of appends; what a loop of appends does is proved once, in the
  locale.  The theory also models \<open>sdscatvprintf\<close> and \<open>sdscatprintf\<close>
  (\<open>redis-learnning/sds/sds.c\<close>).
\<close>

subsection \<open>Formatted output\<close>

text \<open>
  The conversions the library itself passes to \<open>printf\<close>: \<open>%c\<close> and \<open>%02x\<close> (of an
  \<open>unsigned char\<close>).  Any other conversion is outside the model (\<open>None\<close>).
\<close>

definition hex_char :: "nat \<Rightarrow> byte" where
  "hex_char d = (if d < 10 then 48 + of_nat d else 87 + of_nat d)"

fun vformat :: "byte list \<Rightarrow> int list \<Rightarrow> byte list option" where
  "vformat [] ap = Some []"
| "vformat (c # f) ap =
     (if c \<noteq> 37 then do { out \<leftarrow> vformat f ap; Some (c # out) }
      else case f of
        d # f' \<Rightarrow>
          if d = 99 then
            (case ap of a # ap' \<Rightarrow> do { out \<leftarrow> vformat f' ap'; Some (of_int a # out) } | [] \<Rightarrow> None)
          else if d = 48 then
            (case f' of
               e # g # f'' \<Rightarrow>
                 if e = 50 \<and> g = 120 then
                   (case ap of
                      a # ap' \<Rightarrow>
                        if 0 \<le> a \<and> a < 256 then do {
                          out \<leftarrow> vformat f'' ap';
                          Some (hex_char (nat a div 16) # hex_char (nat a mod 16) # out)
                        } else None
                    | [] \<Rightarrow> None)
                 else None
             | _ \<Rightarrow> None)
          else None
      | [] \<Rightarrow> None)"

text \<open>
  \<open>vsnprintf\<close> writes at most \<open>sz\<close> bytes, the terminator included, and returns the length
  of the whole output, or a negative value when that is not an \<open>int\<close>.  The target is the
  local array \<open>staticbuf\<close> (a \<open>Str\<close>, whose new contents are returned) or a heap block.
\<close>

definition write_buf :: "heap \<Rightarrow> ptr \<Rightarrow> byte list \<Rightarrow> (ptr \<times> heap) option" where
  "write_buf h buf xs =
     (case buf of
        Str bs i \<Rightarrow> if 0 \<le> i \<and> nat i + length xs \<le> length bs
                    then Some (Str (overwrite bs (nat i) xs) i, h) else None
      | _ \<Rightarrow> do { h \<leftarrow> store_bytes h buf xs; Some (buf, h) })"

definition vsnprintf :: "heap \<Rightarrow> ptr \<Rightarrow> nat \<Rightarrow> ptr \<Rightarrow> int list \<Rightarrow> (int \<times> ptr \<times> heap) option" where
  "vsnprintf h buf sz fmt ap = do {
     n \<leftarrow> strlen h fmt;
     f \<leftarrow> load_bytes h fmt n;
     out \<leftarrow> vformat f ap;
     if length out \<ge> 2 ^ 31 then Some (-1, buf, h)
     else do {
       (buf, h) \<leftarrow> (if sz = 0 then Some (buf, h) else write_buf h buf (take (sz - 1) out @ [0]));
       Some (int (length out), buf, h)
     }
   }"

fun is_static :: "ptr \<Rightarrow> bool" where
  "is_static (Str bs i) = True"
| "is_static p = False"

definition free_buf :: "heap \<Rightarrow> ptr \<Rightarrow> heap option" where
  "free_buf h buf = (if is_static buf then Some h else s_free h buf)"

text \<open>
  The loop \<open>while (1)\<close>: a second round always has a buffer that is large enough, so two
  rounds of fuel are enough.  The result is the buffer and the length, or \<open>None\<close> for
  \<open>return NULL\<close>.
\<close>

primrec catvprintf_loop :: "nat \<Rightarrow> heap \<Rightarrow> ptr \<Rightarrow> nat \<Rightarrow> ptr \<Rightarrow> int list \<Rightarrow> ((ptr \<times> nat) option \<times> heap) option" where
  "catvprintf_loop 0 h buf buflen fmt ap = None"
| "catvprintf_loop (Suc fuel) h buf buflen fmt ap = do {
     (bufstrlen, buf, h) \<leftarrow> vsnprintf h buf buflen fmt ap;
     if bufstrlen < 0 then do { h \<leftarrow> free_buf h buf; Some (None, h) }
     else if nat bufstrlen \<ge> buflen then do {
       h \<leftarrow> free_buf h buf;
       let buflen = nat bufstrlen + 1;
       case s_malloc h buflen of (buf, h) \<Rightarrow>
         if buf = Null then Some (None, h) else catvprintf_loop fuel h buf buflen fmt ap
     }
     else Some (Some (buf, nat bufstrlen), h)
   }"

definition sdscatvprintf :: "heap \<Rightarrow> ptr \<Rightarrow> ptr \<Rightarrow> int list \<Rightarrow> (ptr \<times> heap) option" where
  "sdscatvprintf h s fmt ap = do {
     n \<leftarrow> strlen h fmt;
     let buflen = size_mul n 2;
     let (buf, buflen, h) = (if buflen > 1024
       then (case s_malloc h buflen of (buf, h) \<Rightarrow> (buf, buflen, h))
       else (Str (stack_buf h 1024) 0, 1024, h));
     if buf = Null then Some (Null, h)
     else do {
       (r, h) \<leftarrow> catvprintf_loop 2 h buf buflen fmt ap;
       case r of
         None \<Rightarrow> Some (Null, h)
       | Some (buf, bufstrlen) \<Rightarrow> do {
           (t, h) \<leftarrow> sdscatlen h s buf bufstrlen;
           h \<leftarrow> free_buf h buf;
           Some (t, h)
         }
     }
   }"

definition sdscatprintf :: "heap \<Rightarrow> ptr \<Rightarrow> ptr \<Rightarrow> int list \<Rightarrow> (ptr \<times> heap) option" where
  "sdscatprintf h s fmt args = sdscatvprintf h s fmt args"

subsection \<open>The temporary buffer\<close>

text \<open>
  \<open>aside h0 h buf n\<close>: since \<open>h0\<close> nothing changed but for the buffer \<open>buf\<close> of \<open>n\<close>
  bytes, which is either the local array or one new block.
\<close>

definition aside :: "heap \<Rightarrow> heap \<Rightarrow> ptr \<Rightarrow> nat \<Rightarrow> bool" where
  "aside h0 h buf n \<longleftrightarrow> heap_ok h \<and> can_alloc h = can_alloc h0 \<and> nxt h0 \<le> nxt h \<and>
     ((\<exists>bs. buf = Str bs 0 \<and> length bs = n \<and> mem h = mem h0) \<or>
      (\<exists>c bs. buf = Ptr c 0 \<and> length bs = n \<and> nxt h0 \<le> c \<and> mem h = (mem h0)(c \<mapsto> bs)))"

definition quiet :: "heap \<Rightarrow> heap \<Rightarrow> bool" where
  "quiet h0 h \<longleftrightarrow> heap_ok h \<and> can_alloc h = can_alloc h0 \<and> nxt h0 \<le> nxt h \<and> mem h = mem h0"

lemma load_bytes_mem:
  "(\<And>c. block_of p = Some c \<Longrightarrow> mem h c = mem h' c) \<Longrightarrow> load_bytes h p n = load_bytes h' p n"
  by (rule load_bytes_cong) (cases p; simp)

lemma aside_load:
  assumes "aside h0 h buf n" "heap_ok h0" "load_bytes h0 p k = Some xs"
  shows "load_bytes h p k = Some xs"
proof (cases "k = 0")
  case False
  then have nf: "mem h0 c \<noteq> None" if "block_of p = Some c" for c
    using that assms(3) by (cases p) (auto simp: load_bytes_def split: option.splits)
  then have "mem h c = mem h0 c" if "block_of p = Some c" for c
    using that assms(1,2) by (fastforce simp: aside_def heap_ok_def)
  then show ?thesis using load_bytes_mem [of p h h0] assms(3) by simp
qed (use assms(3) in simp)

lemma aside_cstring: "aside h0 h buf n \<Longrightarrow> heap_ok h0 \<Longrightarrow> cstring h0 p xs \<Longrightarrow> cstring h p xs"
  using aside_load by (auto simp: cstring_def)

lemma aside_block:
  "heap_ok h \<Longrightarrow> can_alloc h = can_alloc h0 \<Longrightarrow> nxt h0 \<le> nxt h \<Longrightarrow> nxt h0 \<le> c \<Longrightarrow> mem h = (mem h0)(c \<mapsto> bs) \<Longrightarrow>
   length bs = n \<Longrightarrow> aside h0 h (Ptr c 0) n"
  by (auto simp: aside_def intro!: exI [of _ bs])

lemma aside_malloc:
  assumes "quiet h0 h" "can_alloc h0 (nxt h) n"
  shows "\<exists>buf h'. s_malloc h n = (buf, h') \<and> buf \<noteq> Null \<and> aside h0 h' buf n"
  using assms by (auto simp: s_malloc_ok quiet_def intro!: aside_block)

lemma aside_free:
  assumes "aside h0 h buf n" "heap_ok h0"
  shows "\<exists>h'. free_buf h buf = Some h' \<and> quiet h0 h'"
  using assms by (auto simp: aside_def quiet_def free_buf_def s_free_def heap_ok_def fun_upd_idem)

lemma aside_write:
  assumes "aside h0 h buf n" "length xs \<le> n"
  shows "\<exists>buf' h'. write_buf h buf xs = Some (buf', h') \<and> aside h0 h' buf' n \<and>
    load_bytes h' buf' (length xs) = Some xs \<and> is_static buf' = is_static buf"
proof -
  have ov: "length xs \<le> length bs \<Longrightarrow> take (length xs) (overwrite bs 0 xs) = xs" for bs :: "byte list"
    by (simp add: overwrite_def)
  consider (local) bs where "buf = Str bs 0" "length bs = n" "mem h = mem h0"
    | (block) c bs where "buf = Ptr c 0" "length bs = n" "nxt h0 \<le> c" "mem h = (mem h0)(c \<mapsto> bs)"
    using assms(1) by (auto simp: aside_def)
  then show ?thesis
  proof cases
    case local
    then show ?thesis
      using assms ov [of bs] by (auto simp: write_buf_def aside_def load_bytes_def)
  next
    case block
    have m: "mem h c = Some bs" using block by simp
    have "store_bytes h (Ptr c (int 0)) xs = Some (upd h c (overwrite bs 0 xs))"
      using store_bytes_block [OF m, of 0 xs] assms(2) block(2) by simp
    moreover have "aside h0 (upd h c (overwrite bs 0 xs)) (Ptr c 0) n"
      by (rule aside_block [where bs = "overwrite bs 0 xs"])
        (use assms block m in \<open>auto simp: aside_def heap_ok_upd\<close>)
    moreover have "load_bytes (upd h c (overwrite bs 0 xs)) (Ptr c 0) (length xs) = Some xs"
      using ov [of bs] assms(2) block(2) by (auto simp: load_bytes_def)
    ultimately show ?thesis using block by (simp add: write_buf_def)
  qed
qed

lemma vsnprintf_ok:
  assumes as: "aside h0 h buf n" and ok: "heap_ok h0" and fmt: "cstring h0 fmt f"
    and out: "vformat f ap = Some out" "length out < 2 ^ 31" and n: "0 < n"
  shows "\<exists>buf' h'. vsnprintf h buf n fmt ap = Some (int (length out), buf', h') \<and> aside h0 h' buf' n \<and>
    (length out < n \<longrightarrow> load_bytes h' buf' (length out) = Some out)"
proof -
  let ?xs = "take (n - 1) out @ [0]"
  have "length ?xs \<le> n" using n by simp
  from aside_write [OF as this] obtain buf' h' where W: "write_buf h buf ?xs = Some (buf', h')"
    "aside h0 h' buf' n" "load_bytes h' buf' (length ?xs) = Some ?xs" by blast
  have "load_bytes h' buf' (length out) = Some out" if "length out < n"
  proof -
    have "?xs = out @ [0]" using that by simp
    then show ?thesis using W(3) load_bytes_prefix [of h' buf' "length out" 1] by simp
  qed
  moreover note aside_cstring [OF as ok fmt]
  ultimately show ?thesis using W(1,2) out n
    by (auto simp: vsnprintf_def strlen_cstring cstring_load)
qed

text \<open>Two rounds are enough, whatever the buffer the loop starts with.\<close>

lemma catvprintf_loop_ok:
  assumes as: "aside h0 h buf n" and ok: "heap_ok h0" and fmt: "cstring h0 fmt f"
    and out: "vformat f ap = Some out" "length out < 2 ^ 31" and n: "0 < n"
    and al: "\<forall>c n. can_alloc h0 c n"
  shows "\<exists>buf' h' m. catvprintf_loop 2 h buf n fmt ap = Some (Some (buf', length out), h') \<and>
    aside h0 h' buf' m \<and> load_bytes h' buf' (length out) = Some out"
proof -
  obtain b1 h1 where V: "vsnprintf h buf n fmt ap = Some (int (length out), b1, h1)" "aside h0 h1 b1 n"
    "length out < n \<longrightarrow> load_bytes h1 b1 (length out) = Some out"
    using vsnprintf_ok [OF as ok fmt out n] by blast
  show ?thesis
  proof (cases "length out < n")
    case True
    then show ?thesis using V by (auto simp: numeral_2_eq_2)
  next
    case False
    obtain h2 where F: "free_buf h1 b1 = Some h2" "quiet h0 h2" using aside_free [OF V(2) ok] by blast
    obtain b3 h3 where M: "s_malloc h2 (length out + 1) = (b3, h3)" "b3 \<noteq> Null" "aside h0 h3 b3 (length out + 1)"
      using aside_malloc [OF F(2)] al by blast
    obtain b4 h4 where V2: "vsnprintf h3 b3 (length out + 1) fmt ap = Some (int (length out), b4, h4)"
      "aside h0 h4 b4 (length out + 1)" "load_bytes h4 b4 (length out) = Some out"
      using vsnprintf_ok [OF M(3) ok fmt out] by auto
    show ?thesis using V(1) False F(1) M(1,2) V2 by (auto simp: numeral_2_eq_2)
  qed
qed

text \<open>Appending the contents of the temporary buffer and freeing it.\<close>

lemma aside_holds:
  assumes "aside h0 h buf n" "heap_ok h0" "sds_holds h0 s b xs"
  shows "sds_holds h s b xs" "block_of buf \<noteq> Some b"
proof -
  have nf: "mem h0 b \<noteq> None" using assms(3) by (auto simp: sds_holds_def sds_at_def)
  then have "mem h b = mem h0 b" "block_of buf \<noteq> Some b"
    using assms(1,2) by (fastforce simp: aside_def heap_ok_def)+
  then show "sds_holds h s b xs" "block_of buf \<noteq> Some b"
    using assms(3) by (auto simp: sds_holds_def sds_at_def)
qed

lemma aside_append_free:
  assumes as: "aside h0 h1 buf n" and ok: "heap_ok h0" and hold: "sds_holds h0 s b xs"
    and ev: "evolves h1 b h2 b'" and hold2: "sds_holds h2 s' b' ys"
  shows "\<exists>h3. free_buf h2 buf = Some h3 \<and> sds_holds h3 s' b' ys \<and> evolves h0 b h3 b'"
proof -
  have nb: "mem h0 b \<noteq> None" using hold by (auto simp: sds_holds_def sds_at_def)
  consider (local) bs where "buf = Str bs 0" "mem h1 = mem h0"
    | (block) c bs where "buf = Ptr c 0" "nxt h0 \<le> c" "mem h1 = (mem h0)(c \<mapsto> bs)"
    using as by (auto simp: aside_def)
  then show ?thesis
  proof cases
    case local
    then show ?thesis using as ev hold2 by (auto simp: free_buf_def evolves_def aside_def)
  next
    case block
    have c0: "mem h0 c = None" using ok block(2) by (simp add: heap_ok_def)
    have ne: "c \<noteq> b" using nb c0 by auto
    have ne': "c \<noteq> b'" using ev ne block(3) by (auto simp: evolves_def)
    have m2: "mem h2 c = Some bs" using ev ne ne' block(3) by (simp add: evolves_def)
    let ?h3 = "h2\<lparr>mem := (mem h2)(c := None)\<rparr>"
    have "free_buf h2 buf = Some ?h3" using block(1) m2 by (simp add: free_buf_def s_free_def)
    moreover have "sds_holds ?h3 s' b' ys" using hold2 ne' by (auto simp: sds_holds_def sds_at_def)
    moreover have "evolves h0 b ?h3 b'"
      using ev as block(3) ne ne' c0 by (auto simp: evolves_def aside_def heap_ok_def)
    ultimately show ?thesis by blast
  qed
qed

lemma sdscatvprintf_ok:
  assumes hold: "sds_holds h s b xs" and ok: "heap_ok h" and al: "\<forall>c n. can_alloc h c n"
    and fmt: "cstring h fmt f" and out: "vformat f ap = Some out" "length out < 2 ^ 31"
    and fl: "length f * 2 < 2 ^ 64" and ft: "fits (length xs + length out)"
  obtains s' h' b' where "sdscatvprintf h s fmt ap = Some (s', h')" "sds_holds h' s' b' (xs @ out)"
    "evolves h b h' b'"
proof -
  have q: "quiet h h" using ok by (simp add: quiet_def)
  obtain buf h1 n where I: "(if length f * 2 > 1024
       then (case s_malloc h (length f * 2) of (buf, h) \<Rightarrow> (buf, length f * 2, h))
       else (Str (stack_buf h 1024) 0, 1024, h)) = (buf, n, h1)" "buf \<noteq> Null" "aside h h1 buf n" "0 < n"
  proof (cases "length f * 2 > 1024")
    case True
    then show ?thesis using aside_malloc [OF q, of "length f * 2"] al that by auto
  next
    case False
    moreover have "aside h h (Str (stack_buf h 1024) 0) 1024" using ok by (simp add: aside_def)
    ultimately show ?thesis using that by simp
  qed
  obtain buf' h2 m where L: "catvprintf_loop 2 h1 buf n fmt ap = Some (Some (buf', length out), h2)"
    "aside h h2 buf' m" "load_bytes h2 buf' (length out) = Some out"
    using catvprintf_loop_ok [OF I(3) ok fmt out I(4) al] by blast
  note H = aside_holds [OF L(2) ok hold]
  have ok2: "heap_ok h2" "\<forall>c n. can_alloc h2 c n" using L(2) al by (simp_all add: aside_def)
  obtain s' h3 b' where C: "sdscatlen h2 s buf' (length out) = Some (s', h3)" "sds_holds h3 s' b' (xs @ out)"
    "evolves h2 b h3 b'"
    by (rule sdscatlen_ok [OF H(1) ok2(1) ft ok2(2) L(3) H(2)])
  obtain h4 where F: "free_buf h3 buf' = Some h4" "sds_holds h4 s' b' (xs @ out)" "evolves h b h4 b'"
    using aside_append_free [OF L(2) ok hold C(3,2)] by blast
  have "sdscatvprintf h s fmt ap = Some (s', h4)"
    using I(2) L(1) C(1) F(1)
    unfolding sdscatvprintf_def strlen_cstring [OF fmt] bind.bind_lunit size_mul_exact [OF fl] Let_def I(1)
    by simp
  then show ?thesis using that F(2,3) by blast
qed

subsection \<open>The append interface\<close>

text \<open>
  \<open>emit h s a\<close> appends the piece \<open>a\<close>; \<open>piece h b a ys\<close> says that in heap \<open>h\<close> the
  piece \<open>a\<close> stands for the bytes \<open>ys\<close> and does not live in the block \<open>b\<close> of the string
  it is appended to.
\<close>

primrec emit_all :: "('h \<Rightarrow> 's \<Rightarrow> 'a \<Rightarrow> ('s \<times> 'h) option) \<Rightarrow> 'h \<Rightarrow> 's \<Rightarrow> 'a list \<Rightarrow> ('s \<times> 'h) option" where
  "emit_all emit h s [] = Some (s, h)"
| "emit_all emit h s (a # as) = do { (s, h) \<leftarrow> emit h s a; emit_all emit h s as }"

locale appender =
  fixes emit :: "'h \<Rightarrow> 's \<Rightarrow> 'a \<Rightarrow> ('s \<times> 'h) option"
    and valid :: "'h \<Rightarrow> bool"
    and holds :: "'h \<Rightarrow> 's \<Rightarrow> 'b \<Rightarrow> byte list \<Rightarrow> bool"
    and change :: "'h \<Rightarrow> 'b \<Rightarrow> 'h \<Rightarrow> 'b \<Rightarrow> bool"
    and piece :: "'h \<Rightarrow> 'b \<Rightarrow> 'a \<Rightarrow> byte list \<Rightarrow> bool"
    and room :: "nat \<Rightarrow> bool"
  assumes emit_ok: "valid h \<Longrightarrow> holds h s b xs \<Longrightarrow> piece h b a ys \<Longrightarrow> room (length xs + length ys) \<Longrightarrow>
      \<exists>s' h' b'. emit h s a = Some (s', h') \<and> holds h' s' b' (xs @ ys) \<and> change h b h' b'"
    and change_valid: "valid h \<Longrightarrow> change h b h' b' \<Longrightarrow> valid h'"
    and change_piece: "change h b h' b' \<Longrightarrow> piece h b a ys \<Longrightarrow> piece h' b' a ys"
    and change_refl: "valid h \<Longrightarrow> change h b h b"
    and change_trans: "change h b h1 b1 \<Longrightarrow> change h1 b1 h2 b2 \<Longrightarrow> change h b h2 b2"
    and room_le: "room n \<Longrightarrow> m \<le> n \<Longrightarrow> room m"
begin

lemma emit_all_ok:
  assumes "valid h" "holds h s b xs" "list_all2 (piece h b) as yss"
    "room (length xs + length (concat yss))"
  shows "\<exists>s' h' b'. emit_all emit h s as = Some (s', h') \<and> holds h' s' b' (xs @ concat yss) \<and> change h b h' b'"
  using assms
proof (induction as arbitrary: h s b xs yss)
  case Nil
  then show ?case using change_refl by fastforce
next
  case (Cons a as)
  from Cons.prems(3) obtain ys zss where yss: "yss = ys # zss" "piece h b a ys" "list_all2 (piece h b) as zss"
    by (auto simp: list_all2_Cons1)
  have "room (length xs + length ys)" using room_le [OF Cons.prems(4)] yss(1) by simp
  from emit_ok [OF Cons.prems(1,2) yss(2) this] obtain s1 h1 b1 where
    E: "emit h s a = Some (s1, h1)" "holds h1 s1 b1 (xs @ ys)" "change h b h1 b1" by blast
  have "list_all2 (piece h1 b1) as zss"
    using yss(3) change_piece [OF E(3)] by (auto elim: list_all2_mono)
  from Cons.IH [OF change_valid [OF Cons.prems(1) E(3)] E(2) this] Cons.prems(4) yss(1)
  obtain s' h' b' where "emit_all emit h1 s1 as = Some (s', h')"
    "holds h' s' b' ((xs @ ys) @ concat zss)" "change h1 b1 h' b'" by (auto simp: add.assoc)
  then show ?case using E(1) change_trans [OF E(3)] yss(1) by auto
qed

end

text \<open>The pieces the library appends, and its append functions as one operation.\<close>

datatype piece = P_len ptr nat | P_str ptr | P_sds ptr | P_fmt ptr "int list"

fun emit_piece :: "heap \<Rightarrow> ptr \<Rightarrow> piece \<Rightarrow> (ptr \<times> heap) option" where
  "emit_piece h s (P_len t n) = sdscatlen h s t n"
| "emit_piece h s (P_str t) = sdscat h s t"
| "emit_piece h s (P_sds t) = sdscatsds h s t"
| "emit_piece h s (P_fmt t ap) = sdscatprintf h s t ap"

fun piece_bytes :: "heap \<Rightarrow> nat \<Rightarrow> piece \<Rightarrow> byte list \<Rightarrow> bool" where
  "piece_bytes h b (P_len t n) ys \<longleftrightarrow>
     load_bytes h t n = Some ys \<and> (ys \<noteq> [] \<longrightarrow> block_of t \<noteq> Some b)"
| "piece_bytes h b (P_str t) ys \<longleftrightarrow> cstring h t ys \<and> block_of t \<noteq> Some b"
| "piece_bytes h b (P_sds t) ys \<longleftrightarrow> (\<exists>c. sds_holds h t c ys \<and> c \<noteq> b)"
| "piece_bytes h b (P_fmt t ap) ys \<longleftrightarrow>
     (\<exists>f. cstring h t f \<and> block_of t \<noteq> Some b \<and> length f * 2 < 2 ^ 64 \<and> vformat f ap = Some ys \<and> length ys < 2 ^ 31)"

definition heap_valid :: "heap \<Rightarrow> bool" where
  "heap_valid h \<longleftrightarrow> heap_ok h \<and> (\<forall>c n. can_alloc h c n)"

lemma heap_validD: "heap_valid h \<Longrightarrow> heap_ok h" "heap_valid h \<Longrightarrow> can_alloc h c n"
  by (simp_all add: heap_valid_def)

lemma evolves_cstring:
  assumes "evolves h b h' b'" "cstring h t xs" "block_of t \<noteq> Some b"
  shows "cstring h' t xs" "block_of t \<noteq> Some b'"
proof -
  have ld: "load_bytes h t (length (xs @ [0])) = Some (xs @ [0])" using assms(2) by (simp add: cstring_def)
  from evolves_load [OF assms(1,3) ld] show "cstring h' t xs" using assms(2) by (simp add: cstring_def)
  from evolves_src [OF assms(1) ld assms(3)] show "block_of t \<noteq> Some b'" by simp
qed

lemma sdscatlen_0: "sdscatlen h s t 0 = sdscatlen h s Null 0"
  by (simp add: sdscatlen_def cong: if_cong)

interpretation sds: appender emit_piece heap_valid sds_holds evolves piece_bytes fits
proof
  fix h s b xs a ys
  assume v: "heap_valid h" and hold: "sds_holds h s b xs" and p: "piece_bytes h b a ys"
    and ft: "fits (length xs + length ys)"
  have ok: "heap_ok h" "\<forall>c n. can_alloc h c n" using v by (simp_all add: heap_valid_def)
  show "\<exists>s' h' b'. emit_piece h s a = Some (s', h') \<and> sds_holds h' s' b' (xs @ ys) \<and> evolves h b h' b'"
  proof (cases a)
    case (P_len t n)
    then have ld: "load_bytes h t n = Some ys" "n = length ys" using p length_load_bytes by auto
    show ?thesis
    proof (cases "ys = []")
      case True
      then show ?thesis using P_len ld sdscatlen_ok [OF hold ok(1) ft ok(2), of Null] sdscatlen_0 [of h s t]
        by (simp; metis append_Nil2)
    next
      case False
      then have nb: "block_of t \<noteq> Some b" using p P_len by simp
      show ?thesis
        by (rule sdscatlen_ok [OF hold ok(1) ft ok(2) ld(1) [unfolded ld(2)] nb]) (auto simp: P_len ld(2))
    qed
  next
    case (P_str t)
    then have c: "cstring h t ys" "block_of t \<noteq> Some b" using p by simp_all
    show ?thesis by (rule sdscat_ok [OF hold ok(1) ft ok(2) c]) (auto simp: P_str)
  next
    case (P_sds t)
    then obtain c where c: "sds_holds h t c ys" "c \<noteq> b" using p by auto
    show ?thesis by (rule sdscatsds_ok [OF hold ok(1) ft ok(2) c]) (auto simp: P_sds)
  next
    case (P_fmt t ap)
    then obtain f where f: "cstring h t f" "vformat f ap = Some ys" "length ys < 2 ^ 31" "length f * 2 < 2 ^ 64"
      using p by auto
    show ?thesis by (rule sdscatvprintf_ok [OF hold ok f ft]) (auto simp: P_fmt sdscatprintf_def)
  qed
next
  fix h b h' b' a ys
  assume ev: "evolves h b h' b'" and p: "piece_bytes h b a ys"
  show "piece_bytes h' b' a ys"
  proof (cases a)
    case (P_len t n)
    then have n: "n = length ys" using p length_load_bytes by auto
    then show ?thesis using P_len p evolves_load [OF ev, of t n ys] evolves_src [OF ev, of t ys]
      by (cases "ys = []") auto
  next
    case (P_str t)
    then show ?thesis using p evolves_cstring [OF ev, of t ys] by simp
  next
    case (P_sds t)
    then obtain c where c: "sds_holds h t c ys" "c \<noteq> b" using p by auto
    then have "mem h c \<noteq> None" by (auto simp: sds_holds_def sds_at_def)
    then have "c \<noteq> b'" using ev c(2) by (auto simp: evolves_def)
    then show ?thesis using P_sds sds_holds_evolves [OF ev c] by auto
  next
    case (P_fmt t ap)
    then obtain f where f: "cstring h t f" "block_of t \<noteq> Some b" "length f * 2 < 2 ^ 64"
      "vformat f ap = Some ys" "length ys < 2 ^ 31" using p by auto
    then show ?thesis using P_fmt evolves_cstring [OF ev f(1,2)] by auto
  qed
qed (auto simp: heap_valid_def evolves_refl fits_le intro: evolves_trans, auto simp: evolves_def)

end
