(* ===== verification/Sds_Repr.thy ===== *)
theory Sds_Repr
  imports Sds_Append
begin

text \<open>
  The clients of the append interface in \<open>redis-learnning/sds/sds.c\<close>: \<open>sdscatrepr\<close>
  (quoting with escapes), \<open>sdsjoin\<close> and \<open>sdsjoinsds\<close>.  Each loop is shown to be a run of
  appends, and what it appends is given as a function on lists of bytes.
\<close>

subsection \<open>Operations\<close>

text \<open>\<open>isprint\<close> of the C library in the default locale.\<close>

definition isprint :: "byte \<Rightarrow> bool" where
  "isprint c \<longleftrightarrow> 32 \<le> unat c \<and> unat c \<le> 126"

definition lit :: "string \<Rightarrow> ptr" where
  "lit cs = Str (cstr cs) 0"

definition backslash :: "string \<Rightarrow> string" where
  "backslash cs = CHR 0x5C # cs"

text \<open>The character's value as an \<open>int\<close>: \<open>char\<close> is signed.\<close>

definition char_int :: "byte \<Rightarrow> int" where
  "char_int c = sint c"

fun catrepr_loop :: "heap \<Rightarrow> ptr \<Rightarrow> ptr \<Rightarrow> nat \<Rightarrow> (ptr \<times> heap) option" where
  "catrepr_loop h s p 0 = Some (s, h)"
| "catrepr_loop h s p (Suc len) = do {
     c \<leftarrow> load h p;
     (s, h) \<leftarrow>
       (if c = 0x5C \<or> c = 0x22 then sdscatprintf h s (lit (backslash ''%c'')) [char_int c]
        else if c = 10 then sdscatlen h s (lit (backslash ''n'')) 2
        else if c = 13 then sdscatlen h s (lit (backslash ''r'')) 2
        else if c = 9 then sdscatlen h s (lit (backslash ''t'')) 2
        else if c = 7 then sdscatlen h s (lit (backslash ''a'')) 2
        else if c = 8 then sdscatlen h s (lit (backslash ''b'')) 2
        else if isprint c then sdscatprintf h s (lit ''%c'') [char_int c]
        else sdscatprintf h s (lit (backslash ''x%02x'')) [int (unat c)]);
     catrepr_loop h s (padd p 1) len
   }"

definition sdscatrepr :: "heap \<Rightarrow> ptr \<Rightarrow> ptr \<Rightarrow> nat \<Rightarrow> (ptr \<times> heap) option" where
  "sdscatrepr h s p len = do {
     (s, h) \<leftarrow> sdscatlen h s (lit ''\"'') 1;
     (s, h) \<leftarrow> catrepr_loop h s p len;
     sdscatlen h s (lit ''\"'') 1
   }"

text \<open>
  The array \<open>argv\<close> is the list of the pointers it holds; an index past it is an invalid
  access.  The loop of \<open>sdsjoin\<close> from index \<open>j\<close>, with \<open>k\<close> rounds to go.
\<close>

definition arg :: "ptr list \<Rightarrow> nat \<Rightarrow> ptr option" where
  "arg argv j = (if j < length argv then Some (argv ! j) else None)"

primrec join_loop :: "nat \<Rightarrow> heap \<Rightarrow> ptr \<Rightarrow> ptr list \<Rightarrow> nat \<Rightarrow> int \<Rightarrow> ptr \<Rightarrow> (ptr \<times> heap) option" where
  "join_loop 0 h join argv j argc sep = Some (join, h)"
| "join_loop (Suc k) h join argv j argc sep = do {
     a \<leftarrow> arg argv j;
     (join, h) \<leftarrow> sdscat h join a;
     (join, h) \<leftarrow> (if int j \<noteq> argc - 1 then sdscat h join sep else Some (join, h));
     join_loop k h join argv (j + 1) argc sep
   }"

definition sdsjoin :: "heap \<Rightarrow> ptr list \<Rightarrow> int \<Rightarrow> ptr \<Rightarrow> (ptr \<times> heap) option" where
  "sdsjoin h argv argc sep = do {
     (join, h) \<leftarrow> sdsempty h;
     join_loop (nat argc) h join argv 0 argc sep
   }"

primrec joinsds_loop :: "nat \<Rightarrow> heap \<Rightarrow> ptr \<Rightarrow> ptr list \<Rightarrow> nat \<Rightarrow> int \<Rightarrow> ptr \<Rightarrow> nat \<Rightarrow> (ptr \<times> heap) option" where
  "joinsds_loop 0 h join argv j argc sep seplen = Some (join, h)"
| "joinsds_loop (Suc k) h join argv j argc sep seplen = do {
     a \<leftarrow> arg argv j;
     (join, h) \<leftarrow> sdscatsds h join a;
     (join, h) \<leftarrow> (if int j \<noteq> argc - 1 then sdscatlen h join sep seplen else Some (join, h));
     joinsds_loop k h join argv (j + 1) argc sep seplen
   }"

definition sdsjoinsds :: "heap \<Rightarrow> ptr list \<Rightarrow> int \<Rightarrow> ptr \<Rightarrow> nat \<Rightarrow> (ptr \<times> heap) option" where
  "sdsjoinsds h argv argc sep seplen = do {
     (join, h) \<leftarrow> sdsempty h;
     joinsds_loop (nat argc) h join argv 0 argc sep seplen
   }"

subsection \<open>Quoting\<close>

text \<open>What is appended for one character, and the piece it is appended as.\<close>

definition repr_byte :: "byte \<Rightarrow> byte list" where
  "repr_byte c =
     (if c = 0x5C \<or> c = 0x22 then [0x5C, c]
      else if c = 10 then [0x5C, 110]
      else if c = 13 then [0x5C, 114]
      else if c = 9 then [0x5C, 116]
      else if c = 7 then [0x5C, 97]
      else if c = 8 then [0x5C, 98]
      else if isprint c then [c]
      else [0x5C, 120, hex_char (unat c div 16), hex_char (unat c mod 16)])"

definition repr_piece :: "byte \<Rightarrow> piece" where
  "repr_piece c =
     (if c = 0x5C \<or> c = 0x22 then P_fmt (lit (backslash ''%c'')) [char_int c]
      else if c = 10 then P_len (lit (backslash ''n'')) 2
      else if c = 13 then P_len (lit (backslash ''r'')) 2
      else if c = 9 then P_len (lit (backslash ''t'')) 2
      else if c = 7 then P_len (lit (backslash ''a'')) 2
      else if c = 8 then P_len (lit (backslash ''b'')) 2
      else if isprint c then P_fmt (lit ''%c'') [char_int c]
      else P_fmt (lit (backslash ''x%02x'')) [int (unat c)])"

definition repr :: "byte list \<Rightarrow> byte list" where
  "repr ys = [0x22] @ concat (map repr_byte ys) @ [0x22]"

lemma cstring_lit: "0 \<notin> set (bytes cs) \<Longrightarrow> cstring h (lit cs) (bytes cs)"
  by (simp add: lit_def cstr_def literal_cstring)

lemma block_of_lit [simp]: "block_of (lit cs) = None"
  by (simp add: lit_def)

lemma piece_lit: "n = length cs \<Longrightarrow> piece_bytes h b (P_len (lit cs) n) (bytes cs)"
  by (auto simp: lit_def load_bytes_def cstr_def bytes_def)

lemma of_int_sint_byte [simp]: "(of_int (sint c) :: byte) = c"
  by simp

lemma piece_fmt:
  assumes "0 \<notin> set (bytes cs)" "length cs < 100" "vformat (bytes cs) ap = Some ys" "length ys < 2 ^ 31"
  shows "piece_bytes h b (P_fmt (lit cs) ap) ys"
  using assms cstring_lit [OF assms(1), of h] by (auto intro!: exI [of _ "bytes cs"])

lemma repr_piece_bytes: "piece_bytes h b (repr_piece c) (repr_byte c)"
proof -
  have 1: "vformat (bytes (backslash ''%c'')) [char_int c] = Some [0x5C, c]"
    "vformat (bytes ''%c'') [char_int c] = Some [c]"
    by (simp_all add: bytes_def backslash_def char_int_def)
  have 2: "vformat (bytes (backslash ''x%02x'')) [int (unat c)] =
      Some [0x5C, 120, hex_char (unat c div 16), hex_char (unat c mod 16)]"
    using unsigned_less [of c, where 'a = int] by (simp add: bytes_def backslash_def)
  have f1: "piece_bytes h b (P_fmt (lit (backslash ''%c'')) [char_int c]) [0x5C, c]"
    by (rule piece_fmt [OF _ _ 1(1)]) (simp_all add: bytes_def backslash_def)
  have f2: "piece_bytes h b (P_fmt (lit ''%c'') [char_int c]) [c]"
    by (rule piece_fmt [OF _ _ 1(2)]) (simp_all add: bytes_def)
  have f3: "piece_bytes h b (P_fmt (lit (backslash ''x%02x'')) [int (unat c)])
      [0x5C, 120, hex_char (unat c div 16), hex_char (unat c mod 16)]"
    by (rule piece_fmt [OF _ _ 2]) (simp_all add: bytes_def backslash_def)
  have l: "piece_bytes h b (P_len (lit (backslash [x])) 2) [0x5C, of_char x]" for x
    using piece_lit [of 2 "backslash [x]" h b] by (simp add: bytes_def backslash_def)
  show ?thesis
    using f1 f2 f3 l [of "CHR ''n''"] l [of "CHR ''r''"] l [of "CHR ''t''"] l [of "CHR ''a''"] l [of "CHR ''b''"]
    by (simp add: repr_piece_def repr_byte_def del: piece_bytes.simps)
qed

lemma catrepr_loop_emit:
  "catrepr_loop h s p (Suc n) =
     do { c \<leftarrow> load h p; (s, h) \<leftarrow> emit_piece h s (repr_piece c); catrepr_loop h s (padd p 1) n }"
  by (simp add: repr_piece_def if_distrib [of "emit_piece _ _"] cong: if_cong)

lemma load_bytes_Cons:
  "load_bytes h p (Suc n) = Some ys \<Longrightarrow>
   \<exists>y zs. ys = y # zs \<and> load h p = Some y \<and> load_bytes h (padd p 1) n = Some zs"
proof -
  assume ld: "load_bytes h p (Suc n) = Some ys"
  then obtain bs i where c: "contents h p = Some (bs, i)" "0 \<le> i" "nat i + Suc n \<le> length bs"
    "ys = take (Suc n) (drop (nat i) bs)"
    by (auto simp: load_bytes_def bind_eq_Some_conv split: if_splits)
  have dr: "drop (nat i) bs = bs ! nat i # drop (Suc (nat i)) bs"
    using c(3) by (simp add: Cons_nth_drop_Suc)
  have "contents h (padd p 1) = Some (bs, i + 1)" using c(1) by (cases p) (auto split: option.splits)
  moreover have "nat (i + 1) = Suc (nat i)" using c(2) by simp
  ultimately have "load_bytes h (padd p 1) n = Some (take n (drop (Suc (nat i)) bs))"
    using c(2,3) by (simp add: load_bytes_def)
  moreover have "load h p = Some (bs ! nat i)"
    using c dr by (simp add: load_def load_bytes_def)
  ultimately show ?thesis using c(4) dr by simp
qed

text \<open>Every round appends the representation of the next character, which is read from the
  source when its turn comes.\<close>

lemma catrepr_loop_ok:
  assumes "heap_valid h" "sds_holds h s b xs" "load_bytes h p (length ys) = Some ys"
    "ys \<noteq> [] \<longrightarrow> block_of p \<noteq> Some b" "fits (length xs + length (concat (map repr_byte ys)))"
  shows "\<exists>s' h' b'. catrepr_loop h s p (length ys) = Some (s', h') \<and>
    sds_holds h' s' b' (xs @ concat (map repr_byte ys)) \<and> evolves h b h' b'"
  using assms
proof (induction ys arbitrary: h s b xs p)
  case Nil
  then show ?case using sds.change_refl by fastforce
next
  case (Cons y ys)
  have ld: "load h p = Some y" "load_bytes h (padd p 1) (length ys) = Some ys"
    using load_bytes_Cons [of h p "length ys" "y # ys"] Cons.prems(3) by auto
  have "fits (length xs + length (repr_byte y))" using fits_le [OF Cons.prems(5)] by simp
  from sds.emit_ok [OF Cons.prems(1,2) repr_piece_bytes this] obtain s1 h1 b1 where
    E: "emit_piece h s (repr_piece y) = Some (s1, h1)" "sds_holds h1 s1 b1 (xs @ repr_byte y)"
      "evolves h b h1 b1" by blast
  have nb: "block_of p \<noteq> Some b" "block_of (padd p 1) \<noteq> Some b" using Cons.prems(4) by auto
  have ld1: "load_bytes h1 (padd p 1) (length ys) = Some ys"
    using evolves_load [OF E(3) nb(2) ld(2)] .
  have nb1: "ys \<noteq> [] \<longrightarrow> block_of (padd p 1) \<noteq> Some b1"
    using evolves_src [OF E(3) ld(2) nb(2)] by simp
  have ft: "fits (length (xs @ repr_byte y) + length (concat (map repr_byte ys)))"
    using Cons.prems(5) by (simp add: add.assoc)
  from Cons.IH [OF sds.change_valid [OF Cons.prems(1) E(3)] E(2) ld1 nb1 ft] obtain s' h' b' where
    "catrepr_loop h1 s1 (padd p 1) (length ys) = Some (s', h')"
    "sds_holds h' s' b' ((xs @ repr_byte y) @ concat (map repr_byte ys))" "evolves h1 b1 h' b'" by blast
  then show ?case using E(1) ld(1) evolves_trans [OF E(3)]
    by (auto simp: catrepr_loop_emit simp del: catrepr_loop.simps)
qed

lemma sdscatrepr_ok:
  assumes v: "heap_valid h" and hold: "sds_holds h s b xs" and ld: "load_bytes h p (length ys) = Some ys"
    and nb: "block_of p \<noteq> Some b" and ft: "fits (length xs + length (repr ys))"
  shows "\<exists>s' h' b'. sdscatrepr h s p (length ys) = Some (s', h') \<and> sds_holds h' s' b' (xs @ repr ys)
    \<and> evolves h b h' b'"
proof -
  have q: "piece_bytes g c (P_len (lit ''\"'') 1) [0x22]" for g c
    using piece_lit [of 1 "''\"''" g c] by (simp add: bytes_def)
  have ft1: "fits (length xs + length [0x22::byte])" using fits_le [OF ft] by (simp add: repr_def)
  obtain s1 h1 b1 where E: "emit_piece h s (P_len (lit ''\"'') 1) = Some (s1, h1)"
    "sds_holds h1 s1 b1 (xs @ [0x22])" "evolves h b h1 b1"
    using sds.emit_ok [OF v hold q ft1] by blast
  have v1: "heap_valid h1" using sds.change_valid [OF v E(3)] .
  have ld1: "load_bytes h1 p (length ys) = Some ys" using evolves_load [OF E(3) nb ld] .
  have nb1: "ys \<noteq> [] \<longrightarrow> block_of p \<noteq> Some b1" using evolves_src [OF E(3) ld nb] by simp
  have ft2: "fits (length (xs @ [0x22]) + length (concat (map repr_byte ys)))"
    using fits_le [OF ft] by (simp add: repr_def)
  obtain s2 h2 b2 where L: "catrepr_loop h1 s1 p (length ys) = Some (s2, h2)"
    "sds_holds h2 s2 b2 ((xs @ [0x22]) @ concat (map repr_byte ys))" "evolves h1 b1 h2 b2"
    using catrepr_loop_ok [OF v1 E(2) ld1 nb1 ft2] by blast
  have ft3: "fits (length ((xs @ [0x22]) @ concat (map repr_byte ys)) + length [0x22::byte])"
    using fits_le [OF ft] by (simp add: repr_def)
  obtain s3 h3 b3 where F: "emit_piece h2 s2 (P_len (lit ''\"'') 1) = Some (s3, h3)"
    "sds_holds h3 s3 b3 (((xs @ [0x22]) @ concat (map repr_byte ys)) @ [0x22])" "evolves h2 b2 h3 b3"
    using sds.emit_ok [OF sds.change_valid [OF v1 L(3)] L(2) q ft3] by blast
  have "sdscatrepr h s p (length ys) = Some (s3, h3)"
    using E(1) L(1) F(1) by (simp add: sdscatrepr_def)
  moreover have "sds_holds h3 s3 b3 (xs @ repr ys)" using F(2) by (simp add: repr_def)
  ultimately show ?thesis using evolves_trans [OF evolves_trans [OF E(3) L(3)] F(3)] by blast
qed

subsection \<open>Joining\<close>

fun sep_list :: "'a \<Rightarrow> 'a list \<Rightarrow> 'a list" where
  "sep_list s [] = []"
| "sep_list s [a] = [a]"
| "sep_list s (a # b # as) = a # s # sep_list s (b # as)"

definition join_bytes :: "byte list \<Rightarrow> byte list list \<Rightarrow> byte list" where
  "join_bytes sep yss = concat (sep_list sep yss)"

lemma list_all2_sep:
  "P s t \<Longrightarrow> list_all2 P as bs \<Longrightarrow> list_all2 P (sep_list s as) (sep_list t bs)"
proof (induction s as arbitrary: bs rule: sep_list.induct)
  case (3 s a b as)
  from "3.prems"(2) obtain x y zs where "bs = x # y # zs" "P a x" "list_all2 P (b # as) (y # zs)"
    by (auto simp: list_all2_Cons1)
  then show ?case using "3.IH" "3.prems"(1) by simp
qed (auto simp: list_all2_Cons1)

lemma sep_list_drop:
  assumes "j < length as"
  shows "sep_list s (drop j as) =
    (if Suc j = length as then [as ! j] else as ! j # s # sep_list s (drop (Suc j) as))"
proof -
  have d: "drop j as = as ! j # drop (Suc j) as" using assms by (simp add: Cons_nth_drop_Suc)
  show ?thesis
  proof (cases "Suc j = length as")
    case False
    then have "drop (Suc j) as = as ! Suc j # drop (Suc (Suc j)) as"
      using assms by (simp add: Cons_nth_drop_Suc)
    then show ?thesis using False d by simp
  qed (simp add: d)
qed

lemma join_loop_emit:
  "j + k = length argv \<Longrightarrow> join_loop k h join argv j (int (length argv)) sep =
     emit_all emit_piece h join (sep_list (P_str sep) (drop j (map P_str argv)))"
proof (induction k arbitrary: h join j)
  case (Suc k)
  have j: "j < length (map P_str argv)" using Suc.prems by simp
  have "int j \<noteq> int (length argv) - 1 \<longleftrightarrow> Suc j \<noteq> length argv" by linarith
  then show ?case
    using Suc.IH [of "Suc j"] Suc.prems j sep_list_drop [OF j, of "P_str sep"]
    by (auto simp: arg_def split_def cong: Option.bind_cong)
qed simp

lemma joinsds_loop_emit:
  "j + k = length argv \<Longrightarrow> joinsds_loop k h join argv j (int (length argv)) sep seplen =
     emit_all emit_piece h join (sep_list (P_len sep seplen) (drop j (map P_sds argv)))"
proof (induction k arbitrary: h join j)
  case (Suc k)
  have j: "j < length (map P_sds argv)" using Suc.prems by simp
  have "int j \<noteq> int (length argv) - 1 \<longleftrightarrow> Suc j \<noteq> length argv" by linarith
  then show ?case
    using Suc.IH [of "Suc j"] Suc.prems j sep_list_drop [OF j, of "P_len sep seplen"]
    by (auto simp: arg_def split_def cong: Option.bind_cong)
qed simp

lemma sdsempty_spawns:
  assumes "heap_valid h"
  obtains s h' b where "sdsempty h = Some (s, h')" "sds_holds h' s b []" "spawned h h' b" "heap_valid h'"
proof -
  have ok: "heap_ok h" "\<forall>c n. can_alloc h c n" using assms by (simp_all add: heap_valid_def)
  have ne: "Str (cstr '''') 0 \<noteq> SDS_NOINIT" by (simp add: SDS_NOINIT_def cstr_def bytes_def)
  obtain s h' b where R: "sdsnewlen h (Str (cstr '''') 0) (length ([] :: byte list)) = Some (s, h')"
    "sds_holds h' s b []" "spawned h h' b"
    by (rule sdsnewlen_spawns [OF ok(1) _ ok(2) _ _ ne, of "[]"]) auto
  then have "heap_valid h'" using ok by (simp add: spawned_def heap_valid_def)
  then show ?thesis using that R by (simp add: sdsempty_def)
qed

text \<open>What could be read before an allocation can be read after it, outside the new block.\<close>

lemma spawned_load:
  assumes "spawned h h' b" "load_bytes h p n = Some xs"
  shows "load_bytes h' p n = Some xs" "n \<noteq> 0 \<Longrightarrow> block_of p \<noteq> Some b"
proof -
  have nf: "mem h c \<noteq> None" if "block_of p = Some c" "n \<noteq> 0" for c
    using that assms(2) by (cases p) (auto simp: load_bytes_def split: option.splits)
  then show "n \<noteq> 0 \<Longrightarrow> block_of p \<noteq> Some b" using assms(1) by (auto simp: spawned_def)
  show "load_bytes h' p n = Some xs"
  proof (cases "n = 0")
    case False
    then have "load_bytes h' p n = load_bytes h p n"
      using nf spawned_mem [OF assms(1)] by (intro load_bytes_mem) auto
    with assms(2) show ?thesis by simp
  qed (use assms(2) in simp)
qed

lemma spawned_pieces:
  assumes "spawned h h' b"
  shows "cstring h t ys \<Longrightarrow> piece_bytes h' b (P_str t) ys"
    "sds_holds h t c ys \<Longrightarrow> piece_bytes h' b (P_sds t) ys"
    "load_bytes h t n = Some ys \<Longrightarrow> piece_bytes h' b (P_len t n) ys"
proof -
  show "cstring h t ys \<Longrightarrow> piece_bytes h' b (P_str t) ys"
    using spawned_load [OF assms, of t "length ys + 1"] by (simp add: cstring_def)
  show "load_bytes h t n = Some ys \<Longrightarrow> piece_bytes h' b (P_len t n) ys"
    using spawned_load [OF assms, of t n ys] by (cases n) auto
  show "piece_bytes h' b (P_sds t) ys" if "sds_holds h t c ys"
  proof -
    have "mem h c \<noteq> None" using that by (auto simp: sds_holds_def sds_at_def)
    then have "c \<noteq> b" "mem h' c = mem h c" using spawned_mem [OF assms] by auto
    moreover have "sds_holds h' t c ys"
      using that \<open>mem h' c = mem h c\<close> by (auto simp: sds_holds_def sds_at_def)
    ultimately show ?thesis by auto
  qed
qed

lemma spawned_evolves: "spawned h h1 b1 \<Longrightarrow> evolves h1 b1 h2 b2 \<Longrightarrow> spawned h h2 b2"
proof -
  assume a: "spawned h h1 b1" "evolves h1 b1 h2 b2"
  have "mem h b2 = None" using a by (cases "b2 = b1") (auto simp: spawned_def evolves_def)
  moreover have "mem h2 c = mem h c" if "c \<noteq> b2" for c
    using a that by (cases "c = b1") (auto simp: spawned_def evolves_def)
  ultimately show ?thesis using a by (auto simp: spawned_def evolves_def heap_ok_def)
qed

lemma sdsjoin_ok:
  assumes v: "heap_valid h" and args: "list_all2 (cstring h) argv yss" and sep: "cstring h sep ss"
    and ft: "fits (length (join_bytes ss yss))"
  shows "\<exists>s h' b. sdsjoin h argv (int (length argv)) sep = Some (s, h') \<and> sds_holds h' s b (join_bytes ss yss)
    \<and> spawned h h' b"
proof -
  obtain s h1 b where E: "sdsempty h = Some (s, h1)" "sds_holds h1 s b []" "spawned h h1 b" "heap_valid h1"
    by (rule sdsempty_spawns [OF v])
  have "list_all2 (piece_bytes h1 b) (map P_str argv) yss"
    unfolding list_all2_map1 using args spawned_pieces(1) [OF E(3)] by (rule list_all2_mono)
  then have "list_all2 (piece_bytes h1 b) (sep_list (P_str sep) (map P_str argv)) (sep_list ss yss)"
    by (rule list_all2_sep [where P = "piece_bytes h1 b", OF spawned_pieces(1) [OF E(3) sep]])
  moreover have "fits (length ([] :: byte list) + length (concat (sep_list ss yss)))"
    using ft by (simp add: join_bytes_def)
  ultimately obtain s' h' b' where J:
    "emit_all emit_piece h1 s (sep_list (P_str sep) (map P_str argv)) = Some (s', h')"
    "sds_holds h' s' b' (join_bytes ss yss)" "evolves h1 b h' b'"
    using sds.emit_all_ok [OF E(4,2)] unfolding join_bytes_def append_Nil by blast
  have "sdsjoin h argv (int (length argv)) sep = Some (s', h')"
    using E(1) J(1) join_loop_emit [of 0 "length argv" argv h1 s sep] by (simp add: sdsjoin_def)
  then show ?thesis using J(2) spawned_evolves [OF E(3) J(3)] by blast
qed

lemma sdsjoinsds_ok:
  assumes v: "heap_valid h" and args: "list_all2 (\<lambda>t ys. \<exists>c. sds_holds h t c ys) argv yss"
    and sep: "load_bytes h sep seplen = Some ss" and ft: "fits (length (join_bytes ss yss))"
  shows "\<exists>s h' b. sdsjoinsds h argv (int (length argv)) sep seplen = Some (s, h') \<and>
    sds_holds h' s b (join_bytes ss yss) \<and> spawned h h' b"
proof -
  obtain s h1 b where E: "sdsempty h = Some (s, h1)" "sds_holds h1 s b []" "spawned h h1 b" "heap_valid h1"
    by (rule sdsempty_spawns [OF v])
  have "list_all2 (piece_bytes h1 b) (map P_sds argv) yss"
    unfolding list_all2_map1 using args by (rule list_all2_mono) (use spawned_pieces(2) [OF E(3)] in blast)
  then have "list_all2 (piece_bytes h1 b) (sep_list (P_len sep seplen) (map P_sds argv)) (sep_list ss yss)"
    by (rule list_all2_sep [where P = "piece_bytes h1 b", OF spawned_pieces(3) [OF E(3) sep]])
  moreover have "fits (length ([] :: byte list) + length (concat (sep_list ss yss)))"
    using ft by (simp add: join_bytes_def)
  ultimately obtain s' h' b' where J:
    "emit_all emit_piece h1 s (sep_list (P_len sep seplen) (map P_sds argv)) = Some (s', h')"
    "sds_holds h' s' b' (join_bytes ss yss)" "evolves h1 b h' b'"
    using sds.emit_all_ok [OF E(4,2)] unfolding join_bytes_def append_Nil by blast
  have "sdsjoinsds h argv (int (length argv)) sep seplen = Some (s', h')"
    using E(1) J(1) joinsds_loop_emit [of 0 "length argv" argv h1 s sep seplen] by (simp add: sdsjoinsds_def)
  then show ?thesis using J(2) spawned_evolves [OF E(3) J(3)] by blast
qed

subsection \<open>Properties\<close>

text \<open>
  \<open>sdsjoinsds\<close> joins an array of strings with a separator: the result is one fresh
  string holding the values interleaved with the separator, and no other block changes.
\<close>

theorem sdsjoinsds_joins:
  assumes "heap_valid h" "list_all2 (\<lambda>t ys. \<exists>c. sds_holds h t c ys) argv yss"
    "load_bytes h sep seplen = Some ss" "fits (length (join_bytes ss yss))"
  shows "\<exists>s h' b. sdsjoinsds h argv (int (length argv)) sep seplen = Some (s, h') \<and>
    sds_holds h' s b (join_bytes ss yss) \<and> spawned h h' b"
  by (rule sdsjoinsds_ok [OF assms])

theorem sdsjoinsds_joins_witness:
  "\<exists>s h' b. sdsjoinsds hello_heap [Ptr 0 1, Ptr 0 1] (int (length [Ptr 0 1, Ptr 0 1])) (Str (bytes '', '') 0) (length (bytes '', ''))
     = Some (s, h') \<and> sds_holds h' s b (join_bytes (bytes '', '') [bytes ''hello'', bytes ''hello'']) \<and>
     spawned hello_heap h' b"
  by (rule sdsjoinsds_joins)
    (use hello_holds in \<open>auto simp: heap_valid_def join_bytes_def fits_small load_bytes_def\<close>)

end
