(* ===== verification/Sds_Split.thy ===== *)
theory Sds_Split
  imports Sds_Repr
begin

text \<open>
  Splitting a string at a separator (\<open>sdssplitlen\<close> and \<open>sdsfreesplitres\<close> of
  \<open>redis-learnning/sds/sds.c\<close>).  The array of tokens is a heap block of \<open>8 * slots\<close>
  bytes that is allocated, enlarged and freed like any other; the pointers stored in it are
  carried along as a list, and a store past the last slot is an invalid access.
\<close>

subsection \<open>Operations\<close>

definition vec_put :: "nat \<Rightarrow> ptr list \<Rightarrow> ptr \<Rightarrow> ptr list option" where
  "vec_put slots toks t = (if length toks < slots then Some (toks @ [t]) else None)"

text \<open>
  Making room for the next element and the final one; doubling \<open>slots\<close> beyond an
  \<open>int\<close> would be an overflow.
\<close>

definition split_grow :: "heap \<Rightarrow> ptr \<Rightarrow> nat \<Rightarrow> nat \<Rightarrow> (bool \<times> heap \<times> ptr \<times> nat) option" where
  "split_grow h tokens slots elements =
     (if slots < elements + 2
      then (if slots * 2 \<ge> 2 ^ 31 then None
            else do {
              (newtokens, h) \<leftarrow> s_realloc h tokens (8 * (slots * 2));
              if newtokens = Null then Some (False, h, tokens, slots * 2)
              else Some (True, h, newtokens, slots * 2)
            })
      else Some (True, h, tokens, slots))"

text \<open>The search for the separator at position \<open>j\<close>.\<close>

definition split_test :: "heap \<Rightarrow> ptr \<Rightarrow> int \<Rightarrow> ptr \<Rightarrow> int \<Rightarrow> bool option" where
  "split_test h s j sep seplen = do {
     one \<leftarrow> (if seplen = 1
             then do { x \<leftarrow> load h (padd s j); y \<leftarrow> load h sep; Some (x = y) }
             else Some False);
     if one then Some True
     else do { r \<leftarrow> memcmp h (padd s j) sep (nat seplen); Some (r = 0) }
   }"

text \<open>
  The \<open>for\<close> loop.  The result says whether the loop ended normally (otherwise: \<open>goto
  cleanup\<close>), the heap, the array with its size and contents, and \<open>start\<close>.  That
  \<open>seplen\<close> is positive is the guard at the entry of the function.
\<close>

function split_loop :: "heap \<Rightarrow> ptr \<Rightarrow> int \<Rightarrow> ptr \<Rightarrow> int \<Rightarrow> ptr \<Rightarrow> nat \<Rightarrow> ptr list \<Rightarrow> int \<Rightarrow> int \<Rightarrow>
    (bool \<times> heap \<times> ptr \<times> nat \<times> ptr list \<times> int) option" where
  "split_loop h s len sep seplen tokens slots toks start j =
     (if 0 < seplen \<and> j < len - (seplen - 1) then do {
        (ok, h, tokens, slots) \<leftarrow> split_grow h tokens slots (length toks);
        if \<not> ok then Some (False, h, tokens, slots, toks, start)
        else do {
          hit \<leftarrow> split_test h s j sep seplen;
          if hit then do {
            (t, h) \<leftarrow> sdsnewlen h (padd s start) (nat (j - start));
            if t = Null then Some (False, h, tokens, slots, toks, start)
            else do {
              toks \<leftarrow> vec_put slots toks t;
              split_loop h s len sep seplen tokens slots toks (j + seplen) (j + seplen - 1 + 1)
            }
          }
          else split_loop h s len sep seplen tokens slots toks start (j + 1)
        }
      }
      else Some (True, h, tokens, slots, toks, start))"
  by pat_completeness auto
termination
  by (relation "measure (\<lambda>(h, s, len, sep, seplen, tokens, slots, toks, start, j). nat (len - (seplen - 1) - j))")
    auto

declare split_loop.simps [simp del]

primrec free_all :: "heap \<Rightarrow> ptr list \<Rightarrow> heap option" where
  "free_all h [] = Some h"
| "free_all h (t # ts) = do { h \<leftarrow> sdsfree h t; free_all h ts }"

definition split_cleanup :: "heap \<Rightarrow> ptr \<Rightarrow> ptr list \<Rightarrow> (ptr \<times> ptr list \<times> nat option \<times> heap) option" where
  "split_cleanup h tokens toks = do {
     h \<leftarrow> free_all h toks;
     h \<leftarrow> s_free h tokens;
     Some (Null, [], Some 0, h)
   }"

text \<open>
  The result is the array, the tokens in it, what was assigned to \<open>*count\<close> (\<open>None\<close> when
  nothing was) and the heap.
\<close>

definition sdssplitlen :: "heap \<Rightarrow> ptr \<Rightarrow> int \<Rightarrow> ptr \<Rightarrow> int \<Rightarrow> (ptr \<times> ptr list \<times> nat option \<times> heap) option" where
  "sdssplitlen h s len sep seplen =
     (if seplen < 1 \<or> len \<le> 0 then Some (Null, [], Some 0, h)
      else case s_malloc h (8 * 5) of (tokens, h) \<Rightarrow>
        if tokens = Null then Some (Null, [], None, h)
        else do {
          (ok, h, tokens, slots, toks, start) \<leftarrow> split_loop h s len sep seplen tokens 5 [] 0 0;
          if \<not> ok then split_cleanup h tokens toks
          else do {
            (t, h) \<leftarrow> sdsnewlen h (padd s start) (nat (len - start));
            if t = Null then split_cleanup h tokens toks
            else do {
              toks \<leftarrow> vec_put slots toks t;
              Some (tokens, toks, Some (length toks), h)
            }
          }
        })"

primrec free_down :: "heap \<Rightarrow> ptr list \<Rightarrow> nat \<Rightarrow> heap option" where
  "free_down h toks 0 = Some h"
| "free_down h toks (Suc count) = do {
     t \<leftarrow> arg toks count;
     h \<leftarrow> sdsfree h t;
     free_down h toks count
   }"

definition sdsfreesplitres :: "heap \<Rightarrow> ptr \<Rightarrow> ptr list \<Rightarrow> nat \<Rightarrow> heap option" where
  "sdsfreesplitres h tokens toks count =
     (if tokens = Null then Some h
      else do { h \<leftarrow> free_down h toks count; s_free h tokens })"

subsection \<open>Splitting a list\<close>

function split_list :: "byte list \<Rightarrow> byte list \<Rightarrow> byte list \<Rightarrow> byte list list" where
  "split_list sep acc xs =
     (if sep = [] \<or> length xs < length sep then [acc @ xs]
      else if take (length sep) xs = sep then acc # split_list sep [] (drop (length sep) xs)
      else split_list sep (acc @ [hd xs]) (tl xs))"
  by pat_completeness auto
termination by (relation "measure (\<lambda>(sep, acc, xs). length xs)") (auto simp flip: length_greater_0_conv)

declare split_list.simps [simp del]

lemma sep_list_Cons: "ys \<noteq> [] \<Longrightarrow> sep_list s (x # ys) = x # s # sep_list s ys"
  by (cases ys) auto

lemma split_list_ne: "split_list sep acc xs \<noteq> []"
  by (induction sep acc xs rule: split_list.induct) (subst split_list.simps, auto)

text \<open>Joining the pieces gives the list back.\<close>

lemma join_split: "join_bytes sep (split_list sep acc xs) = acc @ xs"
proof (induction sep acc xs rule: split_list.induct)
  case (1 sep acc xs)
  show ?case
  proof (cases "sep = [] \<or> length xs < length sep")
    case True
    then show ?thesis by (subst split_list.simps) (simp add: join_bytes_def)
  next
    case False
    then have ne: "xs \<noteq> []" by auto
    show ?thesis
    proof (cases "take (length sep) xs = sep")
      case True
      then have "join_bytes sep (split_list sep acc xs) = acc @ sep @ drop (length sep) xs"
        using False "1.IH"(1) [OF False True] split_list_ne
        by (subst split_list.simps) (simp add: join_bytes_def sep_list_Cons)
      then show ?thesis using True by (metis append_take_drop_id)
    next
      case nt: False
      then have "split_list sep acc xs = split_list sep (acc @ [hd xs]) (tl xs)"
        using False by (subst split_list.simps) simp
      then show ?thesis using "1.IH"(2) [OF False nt] ne by simp
    qed
  qed
qed

text \<open>No piece contains the separator.\<close>

definition occurs :: "byte list \<Rightarrow> byte list \<Rightarrow> bool" where
  "occurs sep ys \<longleftrightarrow> (\<exists>i. i + length sep \<le> length ys \<and> take (length sep) (drop i ys) = sep)"

lemma split_no_sep:
  assumes "sep \<noteq> []" "\<forall>i < length acc. take (length sep) (drop i (acc @ xs)) \<noteq> sep"
    "y \<in> set (split_list sep acc xs)"
  shows "\<not> occurs sep y"
  using assms
proof (induction sep acc xs rule: split_list.induct)
  case (1 sep acc xs)
  have n: "0 < length sep" using "1.prems"(1) by simp
  show ?case
  proof (cases "length xs < length sep")
    case True
    then have y: "y = acc @ xs" using "1.prems"(3) by (simp add: split_list.simps [of sep acc xs])
    show ?thesis
    proof
      assume "occurs sep y"
      then obtain i where i: "i + length sep \<le> length y" "take (length sep) (drop i y) = sep"
        by (auto simp: occurs_def)
      then have "i < length acc" using True y by simp
      then show False using "1.prems"(2) i(2) y by blast
    qed
  next
    case False
    then have nl: "\<not> (sep = [] \<or> length xs < length sep)" using "1.prems"(1) by simp
    then have ne: "xs \<noteq> []" by auto
    show ?thesis
    proof (cases "take (length sep) xs = sep")
      case True
      have "y = acc \<or> y \<in> set (split_list sep [] (drop (length sep) xs))"
        using "1.prems"(3) nl True by (simp add: split_list.simps [of sep acc xs])
      moreover have "\<not> occurs sep acc"
      proof
        assume "occurs sep acc"
        then obtain i where i: "i + length sep \<le> length acc" "take (length sep) (drop i acc) = sep"
          by (auto simp: occurs_def)
        then have "take (length sep) (drop i (acc @ xs)) = sep" "i < length acc"
          using n by (simp_all flip: length_greater_0_conv)
        then show False using "1.prems"(2) by blast
      qed
      ultimately show ?thesis using "1.IH"(1) [OF nl True] "1.prems"(1) by auto
    next
      case nt: False
      have "take (length sep) (drop i ((acc @ [hd xs]) @ tl xs)) \<noteq> sep" if "i < length (acc @ [hd xs])" for i
      proof (cases "i < length acc")
        case True
        then show ?thesis using "1.prems"(2) ne by simp
      next
        case False
        then have "i = length acc" using that by simp
        then show ?thesis using nt ne by simp
      qed
      moreover have "y \<in> set (split_list sep (acc @ [hd xs]) (tl xs))"
        using "1.prems"(3) nl nt by (simp add: split_list.simps [of sep acc xs])
      ultimately show ?thesis using "1.IH"(2) [OF nl nt "1.prems"(1)] by blast
    qed
  qed
qed

subsection \<open>The array of tokens\<close>

text \<open>
  \<open>held h toks vs\<close>: the pointers \<open>toks\<close> are distinct strings with values \<open>vs\<close>.
  \<open>vec_ok h0 h tokens n toks vs X\<close>: since \<open>h0\<close> the blocks that are new are exactly the
  array \<open>tokens\<close> of \<open>n\<close> slots (none yet when it is \<open>NULL\<close>), the tokens, and the blocks
  \<open>X\<close>; every block of \<open>h0\<close> is as it was.
\<close>

definition held :: "heap \<Rightarrow> ptr list \<Rightarrow> byte list list \<Rightarrow> bool" where
  "held h toks vs \<longleftrightarrow> list_all2 (\<lambda>t v. \<exists>b. sds_holds h t b v) toks vs \<and> distinct (map block_of toks)"

definition tok_blocks :: "ptr list \<Rightarrow> nat set" where
  "tok_blocks toks = {b. Some b \<in> block_of ` set toks}"

definition vec_blocks :: "heap \<Rightarrow> ptr \<Rightarrow> nat \<Rightarrow> nat set \<Rightarrow> bool" where
  "vec_blocks h tokens n V \<longleftrightarrow> (tokens = Null \<and> n = 0 \<and> V = {}) \<or>
     (\<exists>v bs. tokens = Ptr v 0 \<and> mem h v = Some bs \<and> length bs = 8 * n \<and> V = {v})"

definition vec_ok :: "heap \<Rightarrow> heap \<Rightarrow> ptr \<Rightarrow> nat \<Rightarrow> ptr list \<Rightarrow> byte list list \<Rightarrow> nat set \<Rightarrow> bool" where
  "vec_ok h0 h tokens n toks vs X \<longleftrightarrow> heap_valid h \<and> held h toks vs \<and> (\<forall>c \<in> X. mem h c \<noteq> None) \<and>
     (\<exists>V. vec_blocks h tokens n V \<and> V \<inter> tok_blocks toks = {} \<and> X \<inter> (V \<union> tok_blocks toks) = {} \<and>
        (\<forall>c \<in> V \<union> tok_blocks toks \<union> X. mem h0 c = None) \<and>
        (\<forall>c. c \<notin> V \<union> tok_blocks toks \<union> X \<longrightarrow> mem h c = mem h0 c))"

lemma tok_blocks_simps [simp]:
  "tok_blocks [] = {}"
  "block_of t = Some b \<Longrightarrow> tok_blocks (t # ts) = insert b (tok_blocks ts)"
  "block_of t = Some b \<Longrightarrow> tok_blocks (ts @ [t]) = insert b (tok_blocks ts)"
  by (auto simp: tok_blocks_def)

lemma vec_okE:
  assumes "vec_ok h0 h tokens n toks vs X"
  obtains V where "heap_valid h" "held h toks vs" "vec_blocks h tokens n V" "V \<inter> tok_blocks toks = {}"
    "X \<inter> (V \<union> tok_blocks toks) = {}" "\<forall>c \<in> V \<union> tok_blocks toks \<union> X. mem h0 c = None"
    "\<forall>c. c \<notin> V \<union> tok_blocks toks \<union> X \<longrightarrow> mem h c = mem h0 c" "\<forall>c \<in> X. mem h c \<noteq> None"
  using assms unfolding vec_ok_def by blast

lemma held_cong:
  assumes "held h toks vs" "\<And>c. c \<in> tok_blocks toks \<Longrightarrow> mem h' c = mem h c"
  shows "held h' toks vs"
proof -
  have "\<exists>b. sds_holds h' t b v" if "t \<in> set toks" "\<exists>b. sds_holds h t b v" for t v
  proof -
    from that(2) obtain b where b: "sds_holds h t b v" by blast
    then have "b \<in> tok_blocks toks" using that(1) sds_holds_block [OF b] by (force simp: tok_blocks_def)
    then have "sds_holds h' t b v" using b assms(2) by (auto simp: sds_holds_def sds_at_def)
    then show ?thesis by blast
  qed
  then show ?thesis using assms(1)
    by (auto simp: held_def list_all2_conv_all_nth)
qed

lemma held_tok: "held h toks vs \<Longrightarrow> t \<in> set toks \<Longrightarrow> \<exists>b v. sds_holds h t b v"
  by (simp add: held_def list_all2_conv_all_nth in_set_conv_nth) metis

lemma held_live:
  assumes "held h toks vs" "c \<in> tok_blocks toks"
  shows "mem h c \<noteq> None"
proof -
  from assms(2) obtain t where t: "t \<in> set toks" "block_of t = Some c" by (auto simp: tok_blocks_def)
  then obtain b v where b: "sds_holds h t b v" using held_tok [OF assms(1)] by blast
  then have "b = c" using t sds_holds_block by force
  with b show ?thesis by (auto simp: sds_holds_def sds_at_def)
qed

lemma vec_ok_live: "vec_ok h0 h tokens n toks vs X \<Longrightarrow> mem h0 c \<noteq> None \<Longrightarrow> mem h c = mem h0 c"
  by (erule vec_okE) metis

lemma vec_ok_load:
  assumes "vec_ok h0 h tokens n toks vs X" "load_bytes h0 p k = Some xs"
  shows "load_bytes h p k = Some xs"
proof (cases "k = 0")
  case False
  then have "mem h0 c \<noteq> None" if "block_of p = Some c" for c
    using that assms(2) by (cases p) (auto simp: load_bytes_def split: option.splits)
  then have "load_bytes h p k = load_bytes h0 p k"
    using vec_ok_live [OF assms(1)] by (intro load_bytes_mem) auto
  with assms(2) show ?thesis by simp
qed (use assms(2) in simp)

text \<open>A fresh string beside the array, and storing it there.\<close>

lemma vec_ok_extra:
  assumes vo: "vec_ok h0 h tokens n toks vs {}" and sp: "spawned h h' b" and hd: "sds_holds h' t b xs"
  shows "vec_ok h0 h' tokens n toks vs {b}"
proof -
  obtain V where V: "heap_valid h" "held h toks vs" "vec_blocks h tokens n V" "V \<inter> tok_blocks toks = {}"
    "{} \<inter> (V \<union> tok_blocks toks) = {}"
    "\<forall>c \<in> V \<union> tok_blocks toks \<union> {}. mem h0 c = None"
    "\<forall>c. c \<notin> V \<union> tok_blocks toks \<union> {} \<longrightarrow> mem h c = mem h0 c" "\<forall>c \<in> {}. mem h c \<noteq> None"
    by (rule vec_okE [OF vo])
  have fresh: "mem h b = None" using sp by (simp add: spawned_def)
  have nb: "b \<notin> tok_blocks toks" "b \<notin> V"
    using fresh held_live [OF V(2), of b] V(3) by (auto simp: vec_blocks_def)
  have same: "mem h' c = mem h c" if "c \<noteq> b" for c using sp that by (simp add: spawned_def)
  have "held h' toks vs" by (rule held_cong [OF V(2)]) (use nb same in metis)
  moreover have "vec_blocks h' tokens n V" using V(3) nb same by (auto simp: vec_blocks_def)
  moreover have "heap_valid h'" using sp V(1) by (simp add: spawned_def heap_valid_def)
  moreover have "mem h0 b = None" using V(7) nb fresh by auto
  moreover have "mem h' b \<noteq> None" using hd by (auto simp: sds_holds_def sds_at_def)
  ultimately show ?thesis unfolding vec_ok_def
    using V nb same by (auto intro!: exI [of _ V])
qed

lemma vec_ok_take:
  assumes vo: "vec_ok h0 h tokens n toks vs {b}" and hd: "sds_holds h t b xs"
  shows "vec_ok h0 h tokens n (toks @ [t]) (vs @ [xs]) {}"
proof -
  obtain V where V: "heap_valid h" "held h toks vs" "vec_blocks h tokens n V" "V \<inter> tok_blocks toks = {}"
    "{b} \<inter> (V \<union> tok_blocks toks) = {}" "\<forall>c \<in> V \<union> tok_blocks toks \<union> {b}. mem h0 c = None"
    "\<forall>c. c \<notin> V \<union> tok_blocks toks \<union> {b} \<longrightarrow> mem h c = mem h0 c" "\<forall>c \<in> {b}. mem h c \<noteq> None"
    by (rule vec_okE [OF vo])
  note bt = sds_holds_block [OF hd]
  have "held h (toks @ [t]) (vs @ [xs])"
    using V(2,5) hd bt by (auto simp: held_def tok_blocks_def intro!: list_all2_appendI)
  then show ?thesis unfolding vec_ok_def using V bt by (auto intro!: exI [of _ V])
qed

lemmas vec_ok_spawn = vec_ok_take [OF vec_ok_extra]

lemma vec_ok_push:
  assumes vo: "vec_ok h0 h tokens n toks vs {}" and ld: "load_bytes h0 p (length xs) = Some xs"
    and p: "p \<noteq> Null" "p \<noteq> SDS_NOINIT" and len: "length xs + 18 < 2 ^ 64"
  shows "\<exists>t h'. sdsnewlen h p (length xs) = Some (t, h') \<and> t \<noteq> Null \<and>
    vec_ok h0 h' tokens n (toks @ [t]) (vs @ [xs]) {}"
proof -
  have v: "heap_valid h" using vo by (simp add: vec_ok_def)
  obtain t h' b where R: "sdsnewlen h p (length xs) = Some (t, h')" "sds_holds h' t b xs" "spawned h h' b"
    by (rule sdsnewlen_spawns [OF heap_validD(1) [OF v] len _ vec_ok_load [OF vo ld] p])
      (use v in \<open>auto simp: heap_valid_def\<close>)
  then show ?thesis using vec_ok_spawn [OF vo R(3,2,2)] sds_holds_not_Null [OF R(2)] by blast
qed

text \<open>Enlarging the array.\<close>

lemma vec_ok_realloc:
  assumes vo: "vec_ok h0 h tokens n toks vs X"
  shows "\<exists>nt h'. s_realloc h tokens (8 * m) = Some (nt, h') \<and> nt \<noteq> Null \<and> vec_ok h0 h' nt m toks vs X \<and>
    (\<forall>c \<in> X. mem h' c = mem h c)"
proof -
  obtain V where V: "heap_valid h" "held h toks vs" "vec_blocks h tokens n V" "V \<inter> tok_blocks toks = {}"
    "X \<inter> (V \<union> tok_blocks toks) = {}" "\<forall>c \<in> V \<union> tok_blocks toks \<union> X. mem h0 c = None"
    "\<forall>c. c \<notin> V \<union> tok_blocks toks \<union> X \<longrightarrow> mem h c = mem h0 c" "\<forall>c \<in> X. mem h c \<noteq> None"
    by (rule vec_okE [OF vo])
  note ok = heap_validD [OF V(1)]
  let ?w = "nxt h"
  note live = held_live [OF V(2)]
  have fresh: "mem h ?w = None" using heap_ok_fresh [OF ok(1)] .
  have nw: "?w \<notin> tok_blocks toks" using live [of ?w] fresh by auto
  have R: "\<exists>h' bs. s_realloc h tokens (8 * m) = Some (Ptr ?w 0, h') \<and> length bs = 8 * m \<and> heap_valid h' \<and>
      mem h' = (\<lambda>c. if c = ?w then Some bs else if c \<in> V then None else mem h c)"
  proof (cases "tokens = Null")
    case True
    then have "V = {}" using V(3) by (auto simp: vec_blocks_def)
    then show ?thesis using True ok V(1)
      by (intro exI [of _ "upd (bump h) ?w (map (junk h ?w) [0..<8 * m])"] exI [of _ "map (junk h ?w) [0..<8 * m]"])
        (auto simp: s_realloc_def s_malloc_ok heap_valid_def fun_eq_iff)
  next
    case False
    then obtain v bs where v: "tokens = Ptr v 0" "mem h v = Some bs" "V = {v}"
      using V(3) by (auto simp: vec_blocks_def)
    let ?bs = "take (8 * m) bs @ drop (length bs) (map (junk h ?w) [0..<8 * m])"
    have "length ?bs = 8 * m" by (simp add: min_def)
    moreover have "v \<noteq> ?w" using v fresh by auto
    ultimately show ?thesis using s_realloc_ok [OF v(2) ok(1)] ok v V(1)
      by (intro exI [of _ "moved h v ?bs"] exI [of _ ?bs])
        (auto simp: heap_valid_def heap_ok_moved fun_eq_iff)
  qed
  then obtain h' bs where R: "s_realloc h tokens (8 * m) = Some (Ptr ?w 0, h')" "length bs = 8 * m"
    "heap_valid h'" "mem h' = (\<lambda>c. if c = ?w then Some bs else if c \<in> V then None else mem h c)" by blast
  have nX: "?w \<notin> X" "?w \<notin> V" using V(8) fresh V(3) by (auto simp: vec_blocks_def)
  have w0: "mem h0 ?w = None" using V(7) nw nX fresh by auto
  have same: "mem h' c = mem h c" if "c \<in> tok_blocks toks \<union> X" for c
    using that nw nX V(4,5) by (auto simp: R(4))
  have hd: "held h' toks vs" by (rule held_cong [OF V(2)]) (use same in auto)
  have vb: "vec_blocks h' (Ptr ?w 0) m {?w}" using R(2,4) by (auto simp: vec_blocks_def)
  have out: "mem h' c = mem h0 c" if "c \<notin> {?w} \<union> tok_blocks toks \<union> X" for c
    using that V(6,7) by (auto simp: R(4))
  have "vec_ok h0 h' (Ptr ?w 0) m toks vs X"
    unfolding vec_ok_def
    using R(3) hd vb nw nX w0 V(5,6,8) same out by (auto intro!: exI [of _ "{?w}"])
  then show ?thesis using R(1) same by blast
qed

text \<open>Freeing everything: the heap is back to the blocks it had.\<close>

lemma sdsfree_holds: "sds_holds h t b v \<Longrightarrow> sdsfree h t = Some (h\<lparr>mem := (mem h)(b := None)\<rparr>)"
  using sdsfree_ok by (auto simp: sds_holds_def)

lemma heap_valid_free [simp]: "heap_valid h \<Longrightarrow> heap_valid (h\<lparr>mem := (mem h)(b := None)\<rparr>)"
  by (simp add: heap_valid_def heap_ok_def)

lemma held_butlast:
  assumes "held h (toks @ [t]) vs"
  obtains b us u where "vs = us @ [u]" "sds_holds h t b u" "held h toks us" "b \<notin> tok_blocks toks"
proof -
  obtain us u where vs: "vs = us @ [u]"
    using assms by (cases vs rule: rev_cases) (auto simp: held_def)
  then have "length toks = length us" using assms by (auto simp: held_def dest: list_all2_lengthD)
  then obtain b where b: "sds_holds h t b u" "list_all2 (\<lambda>t v. \<exists>b. sds_holds h t b v) toks us"
    using assms vs by (auto simp: held_def list_all2_append)
  then show ?thesis using that [OF vs b(1)] assms sds_holds_block [OF b(1)]
    by (auto simp: held_def tok_blocks_def)
qed

lemma vec_ok_pop:
  assumes vo: "vec_ok h0 h tokens n (toks @ [t]) vs X"
  shows "\<exists>h'. sdsfree h t = Some h' \<and> vec_ok h0 h' tokens n toks (butlast vs) X \<and>
    (\<forall>c \<in> X. mem h' c = mem h c)"
proof -
  obtain V where V: "heap_valid h" "held h (toks @ [t]) vs" "vec_blocks h tokens n V"
    "V \<inter> tok_blocks (toks @ [t]) = {}" "X \<inter> (V \<union> tok_blocks (toks @ [t])) = {}"
    "\<forall>c \<in> V \<union> tok_blocks (toks @ [t]) \<union> X. mem h0 c = None"
    "\<forall>c. c \<notin> V \<union> tok_blocks (toks @ [t]) \<union> X \<longrightarrow> mem h c = mem h0 c" "\<forall>c \<in> X. mem h c \<noteq> None"
    by (rule vec_okE [OF vo])
  obtain b us u where b: "vs = us @ [u]" "sds_holds h t b u" "held h toks us" "b \<notin> tok_blocks toks"
    by (rule held_butlast [OF V(2)])
  note tb = tok_blocks_simps(3) [OF sds_holds_block [OF b(2)], of toks]
  let ?h = "h\<lparr>mem := (mem h)(b := None)\<rparr>"
  have "held ?h toks us" by (rule held_cong [OF b(3)]) (use b(4) in auto)
  moreover have "vec_blocks ?h tokens n V" using V(3,4) by (auto simp: vec_blocks_def tb)
  moreover have "mem h0 b = None" using V(6) by (simp add: tb)
  moreover have "\<forall>c \<in> X. mem ?h c \<noteq> None" using V(5,8) by (auto simp: tb)
  ultimately have "vec_ok h0 ?h tokens n toks us X"
    unfolding vec_ok_def using V b(4) by (auto simp: tb intro!: exI [of _ V])
  moreover have "\<forall>c \<in> X. mem ?h c = mem h c" using V(5) by (auto simp: tb)
  ultimately show ?thesis using sdsfree_holds [OF b(2)] b(1) by simp
qed

lemma free_down_prefix: "k \<le> length toks \<Longrightarrow> free_down h (toks @ ts) k = free_down h toks k"
  by (induction k arbitrary: h) (auto simp: arg_def nth_append)

lemma free_down_ok:
  "vec_ok h0 h tokens n toks vs X \<Longrightarrow>
   \<exists>h'. free_down h toks (length toks) = Some h' \<and> vec_ok h0 h' tokens n [] [] X \<and> (\<forall>c \<in> X. mem h' c = mem h c)"
proof (induction toks arbitrary: h vs rule: rev_induct)
  case Nil
  then show ?case by (auto simp: vec_ok_def held_def)
next
  case (snoc t toks)
  obtain h1 where h1: "sdsfree h t = Some h1" "vec_ok h0 h1 tokens n toks (butlast vs) X"
    "\<forall>c \<in> X. mem h1 c = mem h c"
    using vec_ok_pop [OF snoc.prems] by blast
  obtain h2 where "free_down h1 toks (length toks) = Some h2" "vec_ok h0 h2 tokens n [] [] X"
    "\<forall>c \<in> X. mem h2 c = mem h1 c"
    using snoc.IH [OF h1(2)] by blast
  then show ?case using h1(1,3) free_down_prefix [of "length toks" toks h1 "[t]"] by (simp add: arg_def)
qed

lemma vec_free:
  assumes "vec_ok h0 h tokens n [] [] {}"
  shows "\<exists>h'. s_free h tokens = Some h' \<and> mem h' = mem h0"
proof -
  obtain V where V: "vec_blocks h tokens n V" "\<forall>c \<in> V. mem h0 c = None"
    "\<forall>c. c \<notin> V \<longrightarrow> mem h c = mem h0 c"
    using assms by (auto elim!: vec_okE)
  then show ?thesis by (auto simp: vec_blocks_def s_free_def fun_eq_iff)
qed

lemma sdsfreesplitres_ok:
  assumes "vec_ok h0 h tokens n toks vs {}"
  shows "\<exists>h'. sdsfreesplitres h tokens toks (length toks) = Some h' \<and> (tokens \<noteq> Null \<longrightarrow> mem h' = mem h0)"
proof (cases "tokens = Null")
  case False
  obtain h1 where h1: "free_down h toks (length toks) = Some h1" "vec_ok h0 h1 tokens n [] [] {}"
    using free_down_ok [OF assms] by blast
  then show ?thesis using vec_free [OF h1(2)] False by (auto simp: sdsfreesplitres_def)
qed (simp add: sdsfreesplitres_def)

subsection \<open>The loop\<close>

text \<open>The test for the separator at position \<open>j\<close>.\<close>

lemma split_hit:
  assumes s: "load_bytes h s (length xs) = Some xs" and sep: "load_bytes h sep (length ss) = Some ss"
    and j: "j + length ss \<le> length xs" "ss \<noteq> []"
  shows "split_test h s (int j) sep (int (length ss)) = Some (take (length ss) (drop j xs) = ss)"
proof -
  let ?t = "take (length ss) (drop j xs)"
  have l: "load_bytes h (padd s (int j)) (length ss) = Some ?t" using load_sub [OF s j(1)] .
  have m: "do { r \<leftarrow> memcmp h (padd s (int j)) sep (nat (int (length ss))); Some (r = 0) } = Some (?t = ss)"
    using l sep j(1) first_diff_eq_0 [of ?t ss] by (simp add: memcmp_def)
  show ?thesis
  proof (cases "length ss = 1")
    case True
    then obtain y where y: "ss = [y]" by (cases ss) auto
    have "length ?t = 1" using j(1) True by simp
    then obtain x where x: "?t = [x]" by (cases ?t) auto
    have "load h (padd s (int j)) = Some x" "load h sep = Some y"
      using l sep x y by (simp_all add: load_def)
    then show ?thesis using True m x y by (auto simp: split_test_def)
  next
    case False
    then show ?thesis using m by (simp add: split_test_def)
  qed
qed

text \<open>The room for the next token and the final one.\<close>

lemma split_room:
  assumes vo: "vec_ok h0 h tokens slots toks vs {}" and n: "length toks < slots" "length toks + 1 < 2 ^ 30"
  shows "\<exists>h' tokens' slots'. split_grow h tokens slots (length toks) = Some (True, h', tokens', slots') \<and>
      vec_ok h0 h' tokens' slots' toks vs {} \<and> length toks + 2 \<le> slots'"
proof (cases "slots < length toks + 2")
  case True
  obtain nt h' where "s_realloc h tokens (8 * (slots * 2)) = Some (nt, h')" "nt \<noteq> Null"
    "vec_ok h0 h' nt (slots * 2) toks vs {}" using vec_ok_realloc [OF vo] by blast
  moreover have "\<not> slots * 2 \<ge> 2 ^ 31" "length toks + 2 \<le> slots * 2" using True n by auto
  ultimately show ?thesis using True by (auto simp: split_grow_def)
next
  case False
  then show ?thesis using vo by (auto simp: split_grow_def)
qed

lemma split_list_hit:
  assumes "ss \<noteq> []" "j + length ss \<le> length xs" "take (length ss) (drop j xs) = ss"
  shows "split_list ss acc (drop j xs) = acc # split_list ss [] (drop (j + length ss) xs)"
proof -
  have "\<not> length (drop j xs) < length ss" using assms(2) by simp
  then show ?thesis using assms(1,3) by (subst split_list.simps) (simp only: simp_thms if_False if_True drop_drop add.commute)
qed

lemma split_list_miss:
  assumes "ss \<noteq> []" "j + length ss \<le> length xs" "take (length ss) (drop j xs) \<noteq> ss" "start \<le> j"
  shows "split_list ss (take (j - start) (drop start xs)) (drop j xs) =
    split_list ss (take (Suc j - start) (drop start xs)) (drop (Suc j) xs)"
proof -
  have j: "j < length xs" using assms(1,2) by (cases ss) auto
  have "take (Suc j - start) (drop start xs) = take (j - start) (drop start xs) @ [hd (drop j xs)]"
    using j assms(4) by (simp add: Suc_diff_le take_Suc_conv_app_nth hd_drop_conv_nth)
  moreover have "tl (drop j xs) = drop (Suc j) xs" by (simp add: tl_drop drop_Suc)
  moreover have "\<not> length (drop j xs) < length ss" using assms(2) by simp
  ultimately show ?thesis using assms(1,3)
    by (subst (1) split_list.simps) (simp only: simp_thms if_False)
qed

lemma split_loop_ok:
  assumes s: "load_bytes h0 s (length xs) = Some xs" and sep: "load_bytes h0 sep (length ss) = Some ss"
    and ss: "ss \<noteq> []" and p: "s \<noteq> Null" "\<forall>i. padd s i \<noteq> SDS_NOINIT" and len: "length xs + 1 < 2 ^ 30"
    and vo: "vec_ok h0 h tokens slots toks vs {}" and n: "length toks < slots" "length toks \<le> j"
    and sj: "start \<le> j" "j \<le> length xs"
  shows "\<exists>h' tokens' slots' toks' start' vs'.
    split_loop h s (int (length xs)) sep (int (length ss)) tokens slots toks (int start) (int j) =
      Some (True, h', tokens', slots', toks', int start') \<and>
    vec_ok h0 h' tokens' slots' toks' vs' {} \<and> length toks' < slots' \<and> start' \<le> length xs \<and>
    vs' @ [drop start' xs] = vs @ split_list ss (take (j - start) (drop start xs)) (drop j xs)"
  using vo n sj
proof (induction "length xs - j" arbitrary: h tokens slots toks vs start j rule: less_induct)
  case less
  have ls: "0 < length ss" using ss by simp
  show ?case
  proof (cases "j + length ss \<le> length xs")
    case False
    then have nl: "length (drop j xs) < length ss" using less.prems(5) by simp
    have "split_list ss (take (j - start) (drop start xs)) (drop j xs)
        = [take (j - start) (drop start xs) @ drop j xs]"
      using nl by (subst split_list.simps) (simp only: simp_thms if_True)
    also have "take (j - start) (drop start xs) @ drop j xs = drop start xs"
      using less.prems(4) by (metis append_take_drop_id drop_drop le_add_diff_inverse2)
    finally show ?thesis using less.prems False ss
      by (subst split_loop.simps) (auto intro!: exI [of _ start] exI [of _ vs])
  next
    case True
    have cond: "0 < int (length ss) \<and> int j < int (length xs) - (int (length ss) - 1)" using True ls by auto
    have small: "length toks + 1 < 2 ^ 30" using len less.prems(3,5) by linarith
    obtain h1 tk sl where G: "split_grow h tokens slots (length toks) = Some (True, h1, tk, sl)"
      "vec_ok h0 h1 tk sl toks vs {}" "length toks + 2 \<le> sl"
      using split_room [OF less.prems(1,2) small] by blast
    note H = split_hit [OF vec_ok_load [OF G(2) s] vec_ok_load [OF G(2) sep] True ss]
    show ?thesis
    proof (cases "take (length ss) (drop j xs) = ss")
      case hit: True
      let ?t = "take (j - start) (drop start xs)"
      have ln: "length ?t = j - start" using less.prems(4,5) by simp
      have ld: "load_bytes h0 (padd s (int start)) (length ?t) = Some ?t"
        using load_sub [OF s, of start "j - start"] less.prems(4,5) ln by simp
      have sm: "length ?t + 18 < 2 ^ 64" using len ln less.prems(5) by simp
      obtain t h2 where T: "sdsnewlen h1 (padd s (int start)) (length ?t) = Some (t, h2)" "t \<noteq> Null"
        "vec_ok h0 h2 tk sl (toks @ [t]) (vs @ [?t]) {}"
        using vec_ok_push [OF G(2) ld _ _ sm] p by auto
      have nn: "nat (int j - int start) = length ?t" using less.prems(4) ln by simp
      have vp: "vec_put sl toks t = Some (toks @ [t])" using G(3) by (simp add: vec_put_def)
      have dec: "length xs - (j + length ss) < length xs - j" using True ls by linarith
      have n1: "length (toks @ [t]) < sl" "length (toks @ [t]) \<le> j + length ss"
        using G(3) less.prems(3) ls by (simp_all flip: length_greater_0_conv)
      obtain h' tokens' slots' toks' start' vs' where IH:
        "split_loop h2 s (int (length xs)) sep (int (length ss)) tk sl (toks @ [t])
           (int (j + length ss)) (int (j + length ss)) = Some (True, h', tokens', slots', toks', int start')"
        "vec_ok h0 h' tokens' slots' toks' vs' {}" "length toks' < slots'" "start' \<le> length xs"
        "vs' @ [drop start' xs] = (vs @ [?t]) @ split_list ss [] (drop (j + length ss) xs)"
        using less.hyps [OF dec T(3), of "j + length ss"] n1 True by (auto simp del: of_nat_add)
      have "split_loop h s (int (length xs)) sep (int (length ss)) tokens slots toks (int start) (int j) =
          Some (True, h', tokens', slots', toks', int start')"
        using cond G(1) H hit T(1,2) nn vp IH(1)
        by (subst split_loop.simps) (simp add: algebra_simps)
      then show ?thesis using IH(2-5) split_list_hit [OF ss True hit, of ?t] by auto
    next
      case miss: False
      have dec: "length xs - Suc j < length xs - j" using True ls by linarith
      have n1: "length toks < sl" "length toks \<le> Suc j" "start \<le> Suc j" "Suc j \<le> length xs"
        using G(3) less.prems(3,4) True ls by linarith+
      obtain h' tokens' slots' toks' start' vs' where IH:
        "split_loop h1 s (int (length xs)) sep (int (length ss)) tk sl toks (int start) (int (Suc j)) =
           Some (True, h', tokens', slots', toks', int start')"
        "vec_ok h0 h' tokens' slots' toks' vs' {}" "length toks' < slots'" "start' \<le> length xs"
        "vs' @ [drop start' xs] = vs @ split_list ss (take (Suc j - start) (drop start xs)) (drop (Suc j) xs)"
        using less.hyps [OF dec G(2), of start] n1 by (auto simp del: of_nat_Suc)
      have "split_loop h s (int (length xs)) sep (int (length ss)) tokens slots toks (int start) (int j) =
          Some (True, h', tokens', slots', toks', int start')"
        using cond G(1) H miss IH(1)
        by (subst split_loop.simps) (simp add: algebra_simps)
      then show ?thesis using IH(2-5) split_list_miss [OF ss True miss less.prems(4)] by auto
    qed
  qed
qed

lemma sdssplitlen_ok:
  assumes v: "heap_valid h" and s: "load_bytes h s (length xs) = Some xs"
    and sep: "load_bytes h sep (length ss) = Some ss" and ne: "xs \<noteq> []" "ss \<noteq> []"
    and p: "s \<noteq> Null" "\<forall>i. padd s i \<noteq> SDS_NOINIT" and len: "length xs + 1 < 2 ^ 30"
  shows "\<exists>tokens toks n h'. sdssplitlen h s (int (length xs)) sep (int (length ss)) =
      Some (tokens, toks, Some (length toks), h') \<and> tokens \<noteq> Null \<and>
    vec_ok h h' tokens n toks (split_list ss [] xs) {}"
proof -
  note ok = heap_validD [OF v]
  let ?h1 = "upd (bump h) (nxt h) (map (junk h (nxt h)) [0..<8 * 5])"
  have vo: "vec_ok h ?h1 (Ptr (nxt h) 0) 5 [] [] {}"
    unfolding vec_ok_def using ok heap_ok_fresh [OF ok(1)]
    by (auto simp: vec_blocks_def held_def heap_valid_def intro!: exI [of _ "{nxt h}"])
  obtain h2 tk sl toks start vs where L:
    "split_loop ?h1 s (int (length xs)) sep (int (length ss)) (Ptr (nxt h) 0) 5 [] (int 0) (int 0) =
      Some (True, h2, tk, sl, toks, int start)"
    "vec_ok h h2 tk sl toks vs {}" "length toks < sl" "start \<le> length xs"
    "vs @ [drop start xs] = [] @ split_list ss (take (0 - 0) (drop 0 xs)) (drop 0 xs)"
    using split_loop_ok [OF s sep ne(2) p len vo, of 0 0] by auto
  let ?t = "drop start xs"
  have ld: "load_bytes h (padd s (int start)) (length ?t) = Some ?t"
    using load_sub [OF s, of start "length xs - start"] L(4) by simp
  have sm: "length ?t + 18 < 2 ^ 64" using len by simp
  obtain t h3 where T: "sdsnewlen h2 (padd s (int start)) (length ?t) = Some (t, h3)" "t \<noteq> Null"
    "vec_ok h h3 tk sl (toks @ [t]) (vs @ [?t]) {}"
    using vec_ok_push [OF L(2) ld _ _ sm] p by auto
  have nn: "nat (int (length xs) - int start) = length ?t" using L(4) by simp
  have g: "\<not> (int (length ss) < 1 \<or> int (length xs) \<le> 0)" using ne by (cases ss; cases xs) auto
  have "sdssplitlen h s (int (length xs)) sep (int (length ss)) =
      Some (tk, toks @ [t], Some (length (toks @ [t])), h3)"
    unfolding sdssplitlen_def s_malloc_ok [OF ok(2)]
    using g L(1,3) T(1,2) nn by (simp only: if_False prod.case) (simp add: vec_put_def)
  moreover have "tk \<noteq> Null" using L(2,3) by (auto simp: vec_ok_def vec_blocks_def)
  ultimately show ?thesis using T(3) L(5) by auto
qed

subsection \<open>Properties\<close>

text \<open>
  C29.  When every allocation succeeds, \<open>sdssplitlen\<close> splits a non-empty string of less than \<open>2^30\<close> bytes at a non-empty separator: the tokens, in the
  array the call returns, are distinct fresh strings; joined with the separator they give the
  string back, none of them contains the separator, and \<open>*count\<close> is their number.
  \<open>sdsfreesplitres\<close> on the result frees every block the call allocated: the heap is as
  before the call.
\<close>

theorem sdssplitlen_splits:
  assumes "heap_valid h" "load_bytes h s (length xs) = Some xs" "load_bytes h sep (length ss) = Some ss"
    "xs \<noteq> []" "ss \<noteq> []" "s \<noteq> Null" "\<forall>i. padd s i \<noteq> SDS_NOINIT" "length xs + 1 < 2 ^ 30"
  shows "\<exists>tokens toks vs h'. sdssplitlen h s (int (length xs)) sep (int (length ss)) =
      Some (tokens, toks, Some (length toks), h') \<and> held h' toks vs \<and>
    join_bytes ss vs = xs \<and> (\<forall>v. v \<in> set vs \<longrightarrow> \<not> occurs ss v) \<and>
    (\<exists>h''. sdsfreesplitres h' tokens toks (length toks) = Some h'' \<and> mem h'' = mem h)"
proof -
  obtain tokens toks n h' where S: "sdssplitlen h s (int (length xs)) sep (int (length ss)) =
      Some (tokens, toks, Some (length toks), h')" "tokens \<noteq> Null"
    "vec_ok h h' tokens n toks (split_list ss [] xs) {}"
    using sdssplitlen_ok [OF assms] by blast
  have "\<forall>v. v \<in> set (split_list ss [] xs) \<longrightarrow> \<not> occurs ss v"
    using split_no_sep [OF assms(5), of "[]" xs] by auto
  then show ?thesis
    using S sdsfreesplitres_ok [OF S(3)] join_split [of ss "[]" xs] by (auto simp: vec_ok_def)
qed

theorem sdssplitlen_splits_witness:
  "\<exists>tokens toks vs h'. sdssplitlen hello_heap (Ptr 0 1) (int (length (bytes ''hello''))) (lit ''l'') (int (length (bytes ''l''))) =
      Some (tokens, toks, Some (length toks), h') \<and> held h' toks vs \<and>
    join_bytes (bytes ''l'') vs = bytes ''hello'' \<and> list_all (\<lambda>v. \<not> occurs (bytes ''l'') v) vs \<and>
    (\<exists>h''. sdsfreesplitres h' tokens toks (length toks) = Some h'' \<and> mem h'' = mem hello_heap)"
proof -
  have sep: "load_bytes hello_heap (lit ''l'') (length (bytes ''l'')) = Some (bytes ''l'')"
    by (rule cstring_load [OF cstring_lit]) (simp add: bytes_def)
  show ?thesis unfolding list_all_iff Ball_def
    by (rule sdssplitlen_splits [OF _ sds_holds_load [OF hello_holds] sep])
      (simp_all add: heap_valid_def SDS_NOINIT_def bytes_def)
qed

end
