(* ===== verification/Sds_Args.thy ===== *)
theory Sds_Args
  imports Sds_Split
begin

text \<open>
  Splitting a command line into arguments (\<open>is_hex_digit\<close>, \<open>hex_digit_to_int\<close> and
  \<open>sdssplitargs\<close> of \<open>redis-learnning/sds/sds.c\<close>).  The inner loop reads the line one
  character at a time in one of three modes (plain, in double quotes, in single quotes); its
  decision for the current position is \<open>token_act\<close>.  The lemmas show that the whole
  function computes the tokenizer \<open>args_of\<close> on the bytes of the line, with every block
  accounted for, and that the tokenizer inverts the quoting of \<open>sdscatrepr\<close>.
\<close>

subsection \<open>Operations\<close>

definition is_hex_digit :: "byte \<Rightarrow> bool" where
  "is_hex_digit c \<longleftrightarrow> (48 \<le> unat c \<and> unat c \<le> 57) \<or> (97 \<le> unat c \<and> unat c \<le> 102) \<or>
     (65 \<le> unat c \<and> unat c \<le> 70)"

definition hex_digit_to_int :: "byte \<Rightarrow> nat" where
  "hex_digit_to_int c =
     (if c = 48 then 0 else if c = 49 then 1 else if c = 50 then 2 else if c = 51 then 3
      else if c = 52 then 4 else if c = 53 then 5 else if c = 54 then 6 else if c = 55 then 7
      else if c = 56 then 8 else if c = 57 then 9
      else if c = 97 \<or> c = 65 then 10 else if c = 98 \<or> c = 66 then 11
      else if c = 99 \<or> c = 67 then 12 else if c = 100 \<or> c = 68 then 13
      else if c = 101 \<or> c = 69 then 14 else if c = 102 \<or> c = 70 then 15 else 0)"

definition isspace :: "byte \<Rightarrow> bool" where
  "isspace c \<longleftrightarrow> c = 32 \<or> (9 \<le> unat c \<and> unat c \<le> 13)"

text \<open>
  What one round of the loop \<open>while (!done)\<close> does: append one byte (read from a pointer) and
  move on by some characters, finish the token, fail, or change the quoting mode.  The final
  \<open>if (*p) p++\<close> of the round is \<open>next_char\<close>.
\<close>

datatype token_action = Emit ptr int | Done | Fail | Mode bool bool

definition unescape :: "byte \<Rightarrow> byte" where
  "unescape c = (if c = 110 then 10 else if c = 114 then 13 else if c = 116 then 9
     else if c = 98 then 8 else if c = 97 then 7 else c)"

definition hex_escape :: "heap \<Rightarrow> ptr \<Rightarrow> bool option" where
  "hex_escape h p = do {
     c0 \<leftarrow> load h p;
     if c0 \<noteq> 0x5C then Some False
     else do {
       c1 \<leftarrow> load h (padd p 1);
       if c1 \<noteq> 120 then Some False
       else do {
         c2 \<leftarrow> load h (padd p 2);
         if \<not> is_hex_digit c2 then Some False
         else do { c3 \<leftarrow> load h (padd p 3); Some (is_hex_digit c3) }
       }
     }
   }"

definition token_act :: "heap \<Rightarrow> ptr \<Rightarrow> bool \<Rightarrow> bool \<Rightarrow> token_action option" where
  "token_act h p inq insq = do {
     c0 \<leftarrow> load h p;
     if inq then do {
       hex \<leftarrow> hex_escape h p;
       if hex then do {
         c2 \<leftarrow> load h (padd p 2);
         c3 \<leftarrow> load h (padd p 3);
         Some (Emit (Str [of_nat (hex_digit_to_int c2 * 16 + hex_digit_to_int c3)] 0) 3)
       }
       else do {
         c1 \<leftarrow> (if c0 = 0x5C \<or> c0 = 0x22 then load h (padd p 1) else Some 0);
         if c0 = 0x5C \<and> c1 \<noteq> 0 then Some (Emit (Str [unescape c1] 0) 1)
         else if c0 = 0x22 then Some (if c1 \<noteq> 0 \<and> \<not> isspace c1 then Fail else Done)
         else if c0 = 0 then Some Fail
         else Some (Emit p 0)
       }
     }
     else if insq then do {
       c1 \<leftarrow> (if c0 = 0x5C \<or> c0 = 0x27 then load h (padd p 1) else Some 0);
       if c0 = 0x5C \<and> c1 = 0x27 then Some (Emit (Str [0x27] 0) 1)
       else if c0 = 0x27 then Some (if c1 \<noteq> 0 \<and> \<not> isspace c1 then Fail else Done)
       else if c0 = 0 then Some Fail
       else Some (Emit p 0)
     }
     else if c0 = 32 \<or> c0 = 10 \<or> c0 = 13 \<or> c0 = 9 \<or> c0 = 0 then Some Done
     else if c0 = 0x22 then Some (Mode True False)
     else if c0 = 0x27 then Some (Mode False True)
     else Some (Emit p 0)
   }"

definition next_char :: "heap \<Rightarrow> ptr \<Rightarrow> ptr option" where
  "next_char h p = do { c \<leftarrow> load h p; Some (if c \<noteq> 0 then padd p 1 else p) }"

text \<open>
  The loop for one token.  Fuel: every round but the last moves at least one character towards
  the terminator of the line.  The result says whether the token is complete (otherwise:
  \<open>goto err\<close>), the heap, \<open>current\<close> and \<open>p\<close>.
\<close>

primrec arg_token :: "nat \<Rightarrow> heap \<Rightarrow> ptr \<Rightarrow> ptr \<Rightarrow> bool \<Rightarrow> bool \<Rightarrow> (bool \<times> heap \<times> ptr \<times> ptr) option" where
  "arg_token 0 h cur p inq insq = None"
| "arg_token (Suc fuel) h cur p inq insq = do {
     a \<leftarrow> token_act h p inq insq;
     case a of
       Emit src k \<Rightarrow> do {
         (cur, h) \<leftarrow> sdscatlen h cur src 1;
         p \<leftarrow> next_char h (padd p k);
         arg_token fuel h cur p inq insq
       }
     | Mode q sq \<Rightarrow> do { p \<leftarrow> next_char h p; arg_token fuel h cur p q sq }
     | Done \<Rightarrow> do { p \<leftarrow> next_char h p; Some (True, h, cur, p) }
     | Fail \<Rightarrow> Some (False, h, cur, p)
   }"

primrec skip_blanks :: "nat \<Rightarrow> heap \<Rightarrow> ptr \<Rightarrow> ptr option" where
  "skip_blanks 0 h p = None"
| "skip_blanks (Suc fuel) h p = do {
     c \<leftarrow> load h p;
     if c \<noteq> 0 \<and> isspace c then skip_blanks fuel h (padd p 1) else Some p
   }"

text \<open>The label \<open>err\<close>.\<close>

definition splitargs_err :: "heap \<Rightarrow> ptr \<Rightarrow> ptr list \<Rightarrow> ptr \<Rightarrow> (ptr \<times> ptr list \<times> nat \<times> heap) option" where
  "splitargs_err h vector toks cur = do {
     h \<leftarrow> free_down h toks (length toks);
     h \<leftarrow> s_free h vector;
     h \<leftarrow> (if cur \<noteq> Null then sdsfree h cur else Some h);
     Some (Null, [], 0, h)
   }"

text \<open>The loop \<open>while (1)\<close>; the result is the vector, its contents, \<open>*argc\<close> and the heap.\<close>

definition INT_LIMIT :: nat where "INT_LIMIT = 2 ^ 31"

primrec splitargs_loop :: "nat \<Rightarrow> nat \<Rightarrow> heap \<Rightarrow> ptr \<Rightarrow> ptr \<Rightarrow> ptr list \<Rightarrow> (ptr \<times> ptr list \<times> nat \<times> heap) option" where
  "splitargs_loop n 0 h p vector toks = None"
| "splitargs_loop n (Suc fuel) h p vector toks = do {
     p \<leftarrow> skip_blanks n h p;
     c \<leftarrow> load h p;
     if c \<noteq> 0 then do {
       (cur, h) \<leftarrow> sdsempty h;
       (ok, h, cur, p) \<leftarrow> arg_token n h cur p False False;
       if \<not> ok then splitargs_err h vector toks cur
       else if \<not> length toks + 1 < INT_LIMIT then None
       else do {
         (vector, h) \<leftarrow> s_realloc h vector (8 * (length toks + 1));
         if vector = Null then None
         else splitargs_loop n fuel h p vector (toks @ [cur])
       }
     }
     else if vector = Null then (case s_malloc h 8 of (vector, h) \<Rightarrow> Some (vector, toks, length toks, h))
     else Some (vector, toks, length toks, h)
   }"

definition sdssplitargs :: "heap \<Rightarrow> ptr \<Rightarrow> (ptr \<times> ptr list \<times> nat \<times> heap) option" where
  "sdssplitargs h line = do {
     n \<leftarrow> strlen h line;
     splitargs_loop (n + 1) (n + 1) h line Null []
   }"

subsection \<open>The tokenizer on lists\<close>

datatype list_action = L_emit byte nat | L_done nat | L_fail | L_mode bool bool

fun hex_ahead :: "byte list \<Rightarrow> bool" where
  "hex_ahead (x # a # b # r) \<longleftrightarrow> x = 120 \<and> is_hex_digit a \<and> is_hex_digit b"
| "hex_ahead _ \<longleftrightarrow> False"

definition list_act :: "bool \<Rightarrow> bool \<Rightarrow> byte list \<Rightarrow> list_action" where
  "list_act inq insq xs =
     (if inq then
        (case xs of
           [] \<Rightarrow> L_fail
         | c # r \<Rightarrow>
             if c = 0x5C \<and> hex_ahead r
             then L_emit (of_nat (hex_digit_to_int (r ! 1) * 16 + hex_digit_to_int (r ! 2))) 4
             else if c = 0x5C \<and> r \<noteq> [] then L_emit (unescape (hd r)) 2
             else if c = 0x22 then (if r \<noteq> [] \<and> \<not> isspace (hd r) then L_fail else L_done 1)
             else L_emit c 1)
      else if insq then
        (case xs of
           [] \<Rightarrow> L_fail
         | c # r \<Rightarrow>
             if c = 0x5C \<and> r \<noteq> [] \<and> hd r = 0x27 then L_emit 0x27 2
             else if c = 0x27 then (if r \<noteq> [] \<and> \<not> isspace (hd r) then L_fail else L_done 1)
             else L_emit c 1)
      else
        (case xs of
           [] \<Rightarrow> L_done 0
         | c # r \<Rightarrow>
             if c = 32 \<or> c = 10 \<or> c = 13 \<or> c = 9 then L_done 1
             else if c = 0x22 then L_mode True False
             else if c = 0x27 then L_mode False True
             else L_emit c 1))"

lemma list_act_Nil: "list_act q s [] = (if q \<or> s then L_fail else L_done 0)"
  by (simp add: list_act_def)

lemma list_act_emit: "list_act q s xs = L_emit b k \<Longrightarrow> xs \<noteq> [] \<and> 0 < k"
  by (auto simp: list_act_def split: list.splits if_splits)

lemma list_act_mode: "list_act q s xs = L_mode q' s' \<Longrightarrow> xs \<noteq> []"
  by (auto simp: list_act_def split: list.splits if_splits)

function token_of :: "bool \<Rightarrow> bool \<Rightarrow> byte list \<Rightarrow> byte list \<Rightarrow> (byte list \<times> byte list) option" where
  "token_of inq insq acc xs =
     (case list_act inq insq xs of
        L_emit b k \<Rightarrow> token_of inq insq (acc @ [b]) (drop k xs)
      | L_done k \<Rightarrow> Some (acc, drop k xs)
      | L_fail \<Rightarrow> None
      | L_mode q s \<Rightarrow> token_of q s acc (drop 1 xs))"
  by pat_completeness auto
termination
  by (relation "measure (\<lambda>(inq, insq, acc, xs). length xs)")
    (auto dest: list_act_emit list_act_mode simp flip: length_greater_0_conv)

declare token_of.simps [simp del]

lemma token_of_shorter:
  "token_of inq insq acc xs = Some (t, r) \<Longrightarrow> length r \<le> length xs"
proof (induction inq insq acc xs rule: token_of.induct)
  case (1 inq insq acc xs)
  show ?case
    using "1.prems" 1(1,2)
    by (subst (asm) token_of.simps) (fastforce split: list_action.splits)
qed

text \<open>A token that starts consumes something.\<close>

lemma token_of_progress:
  "token_of False False acc (c # xs) = Some (t, r) \<Longrightarrow> length r < length (c # xs)"
  by (subst (asm) token_of.simps)
    (auto simp: list_act_def split: if_splits dest!: token_of_shorter)

function args_of :: "byte list \<Rightarrow> byte list list option" where
  "args_of xs =
     (case dropWhile isspace xs of
        [] \<Rightarrow> Some []
      | c # ys \<Rightarrow>
          (case token_of False False [] (c # ys) of
             None \<Rightarrow> None
           | Some (t, r) \<Rightarrow> do { ts \<leftarrow> args_of r; Some (t # ts) }))"
  by pat_completeness auto
termination
proof (relation "measure length")
  fix xs c ys x t r
  assume a: "dropWhile isspace xs = c # ys" "token_of False False [] (c # ys) = Some x" "(t, r) = x"
  then have "length r < length (dropWhile isspace xs)" using token_of_progress by metis
  also have "\<dots> \<le> length xs" by (rule length_dropWhile_le)
  finally show "(r, xs) \<in> measure length" by simp
qed simp

declare args_of.simps [simp del]

text \<open>The number of complete arguments before the end of the line or an unbalanced quote, which the \<open>int\<close> \<open>*argc\<close> counts.\<close>

function args_count :: "byte list \<Rightarrow> nat" where
  "args_count xs =
     (case dropWhile isspace xs of
        [] \<Rightarrow> 0
      | c # ys \<Rightarrow> (case token_of False False [] (c # ys) of None \<Rightarrow> 0 | Some (t, r) \<Rightarrow> 1 + args_count r))"
  by pat_completeness auto
termination
proof (relation "measure length")
  fix xs c ys x t r
  assume a: "dropWhile isspace xs = c # ys" "token_of False False [] (c # ys) = Some x" "(t, r) = x"
  then have "length r < length (dropWhile isspace xs)" using token_of_progress by metis
  also have "\<dots> \<le> length xs" by (rule length_dropWhile_le)
  finally show "(r, xs) \<in> measure length" by simp
qed simp

declare args_count.simps [simp del]

lemma args_count_Nil: "dropWhile isspace xs = [] \<Longrightarrow> args_of xs = Some [] \<and> args_count xs = 0"
  by (subst args_of.simps, subst args_count.simps) (simp only: list.case)

lemma args_count_Cons:
  assumes "dropWhile isspace xs = c # ys" "token_of False False [] (c # ys) = Some (t, r)"
  shows "args_of xs = do { ts \<leftarrow> args_of r; Some (t # ts) } \<and> args_count xs = 1 + args_count r \<and> length r < length xs"
proof -
  have "length r < length (dropWhile isspace xs)" using token_of_progress assms by metis
  also have "\<dots> \<le> length xs" by (rule length_dropWhile_le)
  finally show ?thesis using assms by (simp add: args_of.simps [of xs] args_count.simps [of xs])
qed

lemma args_count_of: "args_of xs = Some ts \<Longrightarrow> args_count xs = length ts"
proof (induction xs arbitrary: ts rule: args_of.induct)
  case (1 xs)
  show ?case
  proof (cases "dropWhile isspace xs")
    case Nil
    then show ?thesis using args_count_Nil 1(2) by simp
  next
    case (Cons c ys)
    then obtain t r where tr: "token_of False False [] (c # ys) = Some (t, r)" using 1(2) by (auto simp: args_of.simps [of xs] split: option.splits)
    note C = args_count_Cons [OF Cons tr]
    obtain us where us: "args_of r = Some us" "ts = t # us" using C 1(2) by (cases "args_of r") auto
    have "args_count r = length us" by (rule 1(1) [OF Cons tr refl us(1)])
    then show ?thesis using C us(2) by simp
  qed
qed

lemma args_count_le: "args_count xs \<le> length xs"
proof (induction xs rule: length_induct)
  case (1 xs)
  show ?case
  proof (cases "dropWhile isspace xs")
    case Nil
    then show ?thesis using args_count_Nil by simp
  next
    case (Cons c ys)
    show ?thesis
    proof (cases "token_of False False [] (c # ys)")
      case None
      then show ?thesis using Cons by (simp add: args_count.simps [of xs])
    next
      case (Some tr)
      obtain t r where "tr = (t, r)" by (cases tr)
      then have C: "args_count xs = 1 + args_count r" "length r < length xs" using args_count_Cons [OF Cons] Some by auto
      have "args_count r \<le> length r" using 1 C(2) by blast
      then show ?thesis using C by simp
    qed
  qed
qed

subsection \<open>Reading the line\<close>

lemma next_char_ok: "cstring h p ys \<Longrightarrow> next_char h p = Some (padd p (if ys = [] then 0 else 1))"
  by (cases ys) (auto simp: next_char_def cstring_Nil cstring_Cons)

lemma is_hex_digit_0 [simp]: "\<not> is_hex_digit 0"
  by (simp add: is_hex_digit_def)

lemma hex_escape_ok:
  assumes "cstring h p (c # r)"
  shows "hex_escape h p = Some (c = 0x5C \<and> hex_ahead r)"
    "c = 0x5C \<Longrightarrow> hex_ahead r \<Longrightarrow> load h (padd p 2) = Some (r ! 1) \<and> load h (padd p 3) = Some (r ! 2)"
proof -
  note C = cstring_Cons [OF assms]
  have l1: "load h (padd p 1) = Some ((r @ [0]) ! 0)" using cstring_at(1) [OF assms, of 1] by simp
  have l2: "load h (padd p 2) = Some ((r @ [0]) ! 1)" if "1 \<le> length r"
    using cstring_at(1) [OF assms, of 2] that by simp
  have l3: "load h (padd p 3) = Some ((r @ [0]) ! 2)" if "2 \<le> length r"
    using cstring_at(1) [OF assms, of 3] that by simp
  consider "r = []" | x where "r = [x]" | x a where "r = [x, a]" | x a b r' where "r = x # a # b # r'"
    by (metis list.exhaust)
  then show "hex_escape h p = Some (c = 0x5C \<and> hex_ahead r)"
    by cases (use C l1 l2 l3 in \<open>auto simp: hex_escape_def\<close>)
  show "load h (padd p 2) = Some (r ! 1) \<and> load h (padd p 3) = Some (r ! 2)" if "c = 0x5C" "hex_ahead r"
    using that(2) l2 l3 by (cases r rule: hex_ahead.cases) auto
qed

fun act_rel :: "heap \<Rightarrow> ptr \<Rightarrow> byte list \<Rightarrow> token_action \<Rightarrow> list_action \<Rightarrow> bool" where
  "act_rel h p ys (Emit src k) (L_emit b m) \<longleftrightarrow> load_bytes h src (length [b]) = Some [b] \<and>
     (src = p \<or> block_of src = None) \<and> k = int m - 1 \<and> 0 < m \<and> m \<le> length ys"
| "act_rel h p ys Done (L_done k) \<longleftrightarrow> k = (if ys = [] then 0 else 1)"
| "act_rel h p ys Fail L_fail \<longleftrightarrow> True"
| "act_rel h p ys (Mode q s) (L_mode q' s') \<longleftrightarrow> q = q' \<and> s = s' \<and> ys \<noteq> []"
| "act_rel h p ys _ _ \<longleftrightarrow> False"

lemma hex_ahead_length: "hex_ahead r \<Longrightarrow> 3 \<le> length r"
  by (cases r rule: hex_ahead.cases) auto

lemma token_act_ok:
  assumes cs: "cstring h p ys"
  shows "\<exists>a. token_act h p inq insq = Some a \<and> act_rel h p ys a (list_act inq insq ys)"
proof (cases ys)
  case Nil
  then have "load h p = Some 0" using cstring_Nil cs by simp
  moreover have "hex_escape h p = Some False" if "load h p = Some 0" using that by (simp add: hex_escape_def)
  ultimately show ?thesis using Nil by (auto simp: token_act_def list_act_Nil)
next
  case (Cons c r)
  note C = cstring_Cons [OF cs [unfolded Cons]]
  note H = hex_escape_ok [OF cs [unfolded Cons]]
  have l1: "load h (padd p 1) = Some (if r = [] then 0 else hd r)"
    using cstring_at(1) [OF cs [unfolded Cons], of 1] by (cases r) auto
  have r0: "r \<noteq> [] \<Longrightarrow> hd r \<noteq> 0" using cs Cons by (cases r) (auto simp: cstring_def)
  have lp: "load_bytes h p (length [c]) = Some [c]"
    using load_bytes_prefix [of h p 1 "length r + 1"] cs Cons by (simp add: cstring_def)
  have lit1: "load_bytes h (Str [b] 0) (length [b]) = Some [b]" for b by (simp add: load_bytes_def)
  consider (q) "inq" | (sq) "\<not> inq" "insq" | (plain) "\<not> inq" "\<not> insq" by blast
  then show ?thesis
  proof cases
    case q
    show ?thesis
    proof (cases "c = 0x5C \<and> hex_ahead r")
      case True
      then show ?thesis using q Cons C(1) H lit1 hex_ahead_length [of r]
        by (simp add: token_act_def list_act_def)
    next
      case False
      then show ?thesis using q Cons C(1,3) H(1) l1 r0 lp lit1
        by (cases "r = []") (auto simp: token_act_def list_act_def Suc_le_eq)
    qed
  next
    case sq
    then show ?thesis using Cons C(1,3) l1 r0 lp lit1
      by (cases "r = []") (auto simp: token_act_def list_act_def Suc_le_eq)
  next
    case plain
    then show ?thesis using Cons C(1,3) lp by (auto simp: token_act_def list_act_def)
  qed
qed

subsection \<open>The loops\<close>

text \<open>
  One token: the loop follows the tokenizer, appending to \<open>current\<close>; when the tokenizer
  fails so does the loop, with a string in \<open>current\<close> that is still well-formed (to be freed).
\<close>

definition token_result :: "heap \<Rightarrow> nat \<Rightarrow> ptr \<Rightarrow> (byte list \<times> byte list) option \<Rightarrow>
    (bool \<times> heap \<times> ptr \<times> ptr) option \<Rightarrow> bool" where
  "token_result h b p tr res \<longleftrightarrow>
     (case tr of
        Some (t, r) \<Rightarrow> \<exists>h' b' cur' p'. res = Some (True, h', cur', p') \<and> sds_holds h' cur' b' t \<and>
          evolves h b h' b' \<and> cstring h' p' r \<and> block_of p' = block_of p
      | None \<Rightarrow> \<exists>h' b' cur' p' t. res = Some (False, h', cur', p') \<and> sds_holds h' cur' b' t \<and> evolves h b h' b')"

lemma token_result_step:
  assumes "token_result h1 b1 p1 tr res" "evolves h b h1 b1" "block_of p1 = block_of p"
  shows "token_result h b p tr res"
  using assms evolves_trans [OF assms(2)]
  by (fastforce simp: token_result_def split: option.splits)

lemma arg_token_ok:
  assumes "heap_valid h" "sds_holds h cur b acc" "cstring h p ys" "block_of p \<noteq> Some b"
    "length ys < fuel" "fits (length acc + length ys)"
  shows "token_result h b p (token_of inq insq acc ys) (arg_token fuel h cur p inq insq)"
  using assms
proof (induction inq insq acc ys arbitrary: fuel h cur b p rule: token_of.induct)
  case (1 inq insq acc ys)
  obtain f where f: "fuel = Suc f" using "1.prems"(5) by (cases fuel) auto
  obtain a where A: "token_act h p inq insq = Some a" "act_rel h p ys a (list_act inq insq ys)"
    using token_act_ok [OF "1.prems"(3)] by blast
  note T = token_of.simps [of inq insq acc ys]
  note nc = next_char_ok [OF "1.prems"(3)]
  show ?case
  proof (cases "list_act inq insq ys")
    case (L_emit x m)
    then obtain src k where E: "a = Emit src k" "load_bytes h src (length [x]) = Some [x]"
      "src = p \<or> block_of src = None" "k = int m - 1" "0 < m" "m \<le> length ys"
      using A(2) by (cases a) auto
    have pc: "piece_bytes h b (P_len src (length [x])) [x]" using E(2,3) "1.prems"(4) by auto
    have ft: "fits (length acc + length [x])" using fits_le [OF "1.prems"(6)] E(5,6) by simp
    obtain c1 h1 b1 where S: "emit_piece h cur (P_len src (length [x])) = Some (c1, h1)"
      "sds_holds h1 c1 b1 (acc @ [x])" "evolves h b h1 b1"
      using sds.emit_ok [OF "1.prems"(1,2) pc ft] by blast
    note C1 = evolves_cstring [OF S(3) "1.prems"(3,4)]
    have "next_char h1 (padd p k) = Some (padd p (int m))"
    proof -
      have "cstring h1 (padd p (int (m - 1))) (drop (m - 1) ys)" using cstring_at(2) [OF C1(1), of "m - 1"] E(6) by simp
      then have "next_char h1 (padd p (int (m - 1))) = Some (padd (padd p (int (m - 1))) (if drop (m - 1) ys = [] then 0 else 1))"
        by (rule next_char_ok)
      then show ?thesis using E(4,5,6) by (auto simp: of_nat_diff)
    qed
    then have step: "arg_token fuel h cur p inq insq = arg_token f h1 c1 (padd p (int m)) inq insq"
      using A(1) E(1) S(1) by (simp add: f)
    have ft1: "fits (length (acc @ [x]) + length (drop m ys))"
      using E(5,6) by (intro fits_le [OF "1.prems"(6)]) simp
    have sm: "length (drop m ys) < f" using "1.prems"(5) f E(5,6) by simp
    have "token_result h1 b1 (padd p (int m)) (token_of inq insq (acc @ [x]) (drop m ys))
        (arg_token f h1 c1 (padd p (int m)) inq insq)"
      using "1.IH"(1) [OF L_emit sds.change_valid [OF "1.prems"(1) S(3)] S(2) cstring_at(2) [OF C1(1) E(6)]
        _ sm ft1] C1(2) by simp
    from token_result_step [OF this S(3)] show ?thesis using step T L_emit by simp
  next
    case (L_done k)
    then have a: "a = Done" "k = (if ys = [] then 0 else 1)" using A(2) by (cases a; simp)+
    have "cstring h (padd p (int k)) (drop k ys)" using a(2) by (intro cstring_at(2) [OF "1.prems"(3)]) (cases ys; simp)
    then show ?thesis
      using A(1) a nc T L_done f "1.prems"(1,2) evolves_refl [OF heap_validD(1) [OF "1.prems"(1)]]
      by (auto simp: token_result_def)
  next
    case L_fail
    then have "a = Fail" using A(2) by (cases a) auto
    then show ?thesis
      using A(1) T L_fail f "1.prems"(1,2) evolves_refl [OF heap_validD(1) [OF "1.prems"(1)]]
      by (auto simp: token_result_def)
  next
    case (L_mode q s)
    then have a: "a = Mode q s" "ys \<noteq> []" using A(2) by (cases a; simp)+
    then have le: "1 \<le> length ys" by (cases ys) auto
    have step: "arg_token fuel h cur p inq insq = arg_token f h cur (padd p (int 1)) q s"
      using A(1) a nc by (simp add: f)
    have "token_result h b (padd p (int 1)) (token_of q s acc (drop 1 ys)) (arg_token f h cur (padd p (int 1)) q s)"
      using "1.IH"(2) [OF L_mode "1.prems"(1,2) cstring_at(2) [OF "1.prems"(3) le]] "1.prems"(4-6) f le
        fits_le [OF "1.prems"(6)] by simp
    from token_result_step [OF this evolves_refl [OF heap_validD(1) [OF "1.prems"(1)]]]
    show ?thesis using step T L_mode by simp
  qed
qed

lemma skip_blanks_ok:
  "cstring h p ys \<Longrightarrow> length ys < n \<Longrightarrow>
   \<exists>p'. skip_blanks n h p = Some p' \<and> cstring h p' (dropWhile isspace ys) \<and> block_of p' = block_of p"
proof (induction ys arbitrary: n p)
  case Nil
  then show ?case by (cases n) (auto simp: cstring_Nil)
next
  case (Cons c ys)
  obtain m where m: "n = Suc m" using Cons.prems(2) by (cases n) auto
  note C = cstring_Cons [OF Cons.prems(1)]
  show ?case using C Cons.IH [OF C(2), of m] Cons.prems m by auto
qed

lemma cstring_mem:
  assumes "cstring h p ys" "\<And>c. block_of p = Some c \<Longrightarrow> mem h' c = mem h c"
  shows "cstring h' p ys"
  using assms load_bytes_mem [of p h' h] by (auto simp: cstring_def)

lemma cstring_live: "cstring h p ys \<Longrightarrow> block_of p = Some c \<Longrightarrow> mem h c \<noteq> None"
  by (cases p) (auto simp: cstring_def load_bytes_def split: option.splits)

text \<open>The clean-up after an error gives every block back.\<close>

lemma splitargs_err_ok:
  assumes vo: "vec_ok h0 h vector n toks vs {b}" and hd: "sds_holds h cur b t"
  shows "\<exists>h'. splitargs_err h vector toks cur = Some (Null, [], 0, h') \<and> mem h' = mem h0"
proof -
  obtain h1 where h1: "free_down h toks (length toks) = Some h1" "vec_ok h0 h1 vector n [] [] {b}"
    "\<forall>c \<in> {b}. mem h1 c = mem h c" using free_down_ok [OF vo] by blast
  then obtain V where V: "vec_blocks h1 vector n V" "b \<notin> V" "\<forall>c \<in> V \<union> {b}. mem h0 c = None"
    "\<forall>c. c \<notin> V \<union> {b} \<longrightarrow> mem h1 c = mem h0 c"
    by (auto elim!: vec_okE)
  have cur1: "sds_holds h1 cur b t" using hd h1(3) by (auto simp: sds_holds_def sds_at_def)
  obtain h2 where h2: "s_free h1 vector = Some h2" "mem h2 = (\<lambda>c. if c \<in> V then None else mem h1 c)"
    using V(1) by (auto simp: vec_blocks_def s_free_def fun_eq_iff)
  have "sds_holds h2 cur b t" using cur1 V(2) h2(2) by (auto simp: sds_holds_def sds_at_def)
  then have "sdsfree h2 cur = Some (h2\<lparr>mem := (mem h2)(b := None)\<rparr>)" by (rule sdsfree_holds)
  moreover have "(mem h2)(b := None) = mem h0" using V(3,4) h2(2) by (auto simp: fun_eq_iff)
  ultimately show ?thesis using h1(1) h2(1) sds_holds_not_Null [OF hd] by (simp add: splitargs_err_def)
qed

definition args_result :: "heap \<Rightarrow> byte list list \<Rightarrow> byte list list option \<Rightarrow>
    (ptr \<times> ptr list \<times> nat \<times> heap) option \<Rightarrow> bool" where
  "args_result h0 vs tsr res \<longleftrightarrow>
     (case tsr of
        Some ts \<Rightarrow> \<exists>v m toks h'. res = Some (v, toks, length toks, h') \<and> v \<noteq> Null \<and>
          vec_ok h0 h' v m toks (vs @ ts) {}
      | None \<Rightarrow> \<exists>h'. res = Some (Null, [], 0, h') \<and> mem h' = mem h0)"

lemma args_result_Cons:
  "args_result h0 (vs @ [t]) tsr res \<Longrightarrow> args_result h0 vs (do { ts \<leftarrow> tsr; Some (t # ts) }) res"
  by (cases tsr) (auto simp: args_result_def)

text \<open>One token read and stored.\<close>

lemma splitargs_token:
  assumes vo: "vec_ok h0 h vector n toks vs {}" and cs: "cstring h0 p ys" "cstring h p ys"
    and len: "length ys < N" and ft: "fits (length ys)"
  shows "\<exists>cur h1. sdsempty h = Some (cur, h1) \<and>
    (case token_of False False [] ys of
       None \<Rightarrow> \<exists>h2 cur' p' b t. arg_token N h1 cur p False False = Some (False, h2, cur', p') \<and>
         vec_ok h0 h2 vector n toks vs {b} \<and> sds_holds h2 cur' b t
     | Some (t, r) \<Rightarrow> \<exists>h2 cur' p' h3 v. arg_token N h1 cur p False False = Some (True, h2, cur', p') \<and>
         s_realloc h2 vector (8 * (length toks + 1)) = Some (v, h3) \<and> v \<noteq> Null \<and>
         vec_ok h0 h3 v (length toks + 1) (toks @ [cur']) (vs @ [t]) {} \<and> cstring h0 p' r)"
proof -
  have v: "heap_valid h" using vo by (simp add: vec_ok_def)
  obtain cur h1 b where E: "sdsempty h = Some (cur, h1)" "sds_holds h1 cur b []" "spawned h h1 b" "heap_valid h1"
    by (rule sdsempty_spawns [OF v])
  have pb: "mem h c \<noteq> None" "mem h0 c \<noteq> None" if "block_of p = Some c" for c
    using cstring_live [OF cs(2) that] cstring_live [OF cs(1) that] by auto
  have cs1: "cstring h1 p ys" using cstring_mem [OF cs(2)] spawned_mem [OF E(3)] pb(1) by simp
  have nb: "block_of p \<noteq> Some b" using pb(1) E(3) by (auto simp: spawned_def)
  note T = arg_token_ok [OF E(4,2) cs1 nb len, of False False]
  have X: "vec_ok h0 h2 vector n toks vs {b'}" if "evolves h1 b h2 b'" "sds_holds h2 c b' t" for h2 b' c t
    using vec_ok_extra [OF vo spawned_evolves [OF E(3) that(1)] that(2)] .
  show ?thesis
  proof (cases "token_of False False [] ys")
    case None
    then obtain h2 b' cur' p' t where "arg_token N h1 cur p False False = Some (False, h2, cur', p')"
      "sds_holds h2 cur' b' t" "evolves h1 b h2 b'"
      using T ft by (auto simp: token_result_def)
    then show ?thesis using None E(1) X by fastforce
  next
    case (Some tr)
    obtain t r where tr: "tr = (t, r)" by (cases tr)
    then obtain h2 b' cur' p' where A: "arg_token N h1 cur p False False = Some (True, h2, cur', p')"
      "sds_holds h2 cur' b' t" "evolves h1 b h2 b'" "cstring h2 p' r" "block_of p' = block_of p"
      using T ft Some by (auto simp: token_result_def)
    obtain w h3 where R: "s_realloc h2 vector (8 * (length toks + 1)) = Some (w, h3)" "w \<noteq> Null"
      "vec_ok h0 h3 w (length toks + 1) toks vs {b'}" "\<forall>c \<in> {b'}. mem h3 c = mem h2 c"
      using vec_ok_realloc [OF X [OF A(3,2)]] by blast
    have "sds_holds h3 cur' b' t" using A(2) R(4) by (auto simp: sds_holds_def sds_at_def)
    then have "vec_ok h0 h3 w (length toks + 1) (toks @ [cur']) (vs @ [t]) {}" using vec_ok_take [OF R(3)] by blast
    moreover have "cstring h0 p' r"
      using cstring_mem [OF A(4)] vec_ok_live [OF X [OF A(3,2)]] pb(2) A(5) by simp
    ultimately show ?thesis using Some tr E(1) A(1) R(1,2) by fastforce
  qed
qed

lemma splitargs_loop_ok:
  assumes "vec_ok h0 h vector n toks vs {}" "vector = Null \<longrightarrow> toks = []" "cstring h0 p ys"
    "length ys < fuel" "length ys < N" "fits (length ys)" "length toks + args_count ys < INT_LIMIT"
  shows "args_result h0 vs (args_of ys) (splitargs_loop N fuel h p vector toks)"
  using assms
proof (induction ys arbitrary: fuel h p vector n toks vs rule: args_of.induct)
  case (1 ys)
  obtain f where f: "fuel = Suc f" using "1.prems"(4) by (cases fuel) auto
  have cs: "cstring h p ys"
    using "1.prems"(1,3) cstring_live cstring_mem vec_ok_live by metis
  obtain q where q: "skip_blanks N h p = Some q" "cstring h q (dropWhile isspace ys)" "block_of q = block_of p"
    using skip_blanks_ok [OF cs "1.prems"(5)] by blast
  have q0: "cstring h0 q (dropWhile isspace ys)"
    using cstring_mem [OF q(2)] q(3) vec_ok_live [OF "1.prems"(1)] cstring_live [OF "1.prems"(3)] by simp
  have le: "length (dropWhile isspace ys) \<le> length ys" by (rule length_dropWhile_le)
  show ?case
  proof (cases "dropWhile isspace ys")
    case Nil
    then have ao: "args_of ys = Some []" by (subst args_of.simps) (simp only: list.case)
    have ld: "load h q = Some 0" using q(2) Nil cstring_Nil by simp
    show ?thesis
    proof (cases "vector = Null")
      case True
      have "s_realloc h vector (8 * 1) = Some (s_malloc h 8)" using True by (simp add: s_realloc_def)
      then obtain w h' where "s_malloc h 8 = (w, h')" "w \<noteq> Null" "vec_ok h0 h' w 1 toks vs {}"
        using vec_ok_realloc [OF "1.prems"(1), of 1] by auto
      then show ?thesis using ao q(1) ld True "1.prems"(2) f by (auto simp: args_result_def)
    next
      case False
      then show ?thesis using ao q(1) ld "1.prems"(1) f by (auto simp: args_result_def)
    qed
  next
    case (Cons c zs)
    have ld: "load h q = Some c" "c \<noteq> 0" using q(2) Cons cstring_Cons by simp_all
    have N: "length (c # zs) < N" "fits (length (c # zs))" using le "1.prems"(5) fits_le [OF "1.prems"(6)] Cons by auto
    note T = splitargs_token [OF "1.prems"(1) q0 [unfolded Cons] q(2) [unfolded Cons] N]
    show ?thesis
    proof (cases "token_of False False [] (c # zs)")
      case None
      then have ao: "args_of ys = None" using Cons by (simp add: args_of.simps)
      from T None obtain cur h1 h2 cur' p' b t where E: "sdsempty h = Some (cur, h1)"
        "arg_token N h1 cur q False False = Some (False, h2, cur', p')"
        "vec_ok h0 h2 vector n toks vs {b}" "sds_holds h2 cur' b t" by auto
      then show ?thesis using ao q(1) ld f splitargs_err_ok [OF E(3,4)] by (auto simp: args_result_def)
    next
      case (Some tr)
      obtain t r where tr: "tr = (t, r)" by (cases tr)
      then have ao: "args_of ys = do { ts \<leftarrow> args_of r; Some (t # ts) }"
        using Cons Some by (simp add: args_of.simps [of ys])
      from T Some tr obtain cur h1 h2 cur' p' h3 w where E: "sdsempty h = Some (cur, h1)"
        "arg_token N h1 cur q False False = Some (True, h2, cur', p')"
        "s_realloc h2 vector (8 * (length toks + 1)) = Some (w, h3)" "w \<noteq> Null"
        "vec_ok h0 h3 w (length toks + 1) (toks @ [cur']) (vs @ [t]) {}" "cstring h0 p' r" by auto
      have "length r < length ys" using token_of_progress Some tr Cons le by fastforce
      then have sm: "length r < f" "length r < N" "fits (length r)"
        using "1.prems"(4,5) f fits_le [OF "1.prems"(6)] by auto
      have cn: "length toks + 1 + args_count r < INT_LIMIT"
        using "1.prems"(7) Cons Some tr by (simp add: args_count.simps [of ys])
      have "args_result h0 (vs @ [t]) (args_of r) (splitargs_loop N f h3 p' w (toks @ [cur']))"
        by (rule "1.IH" [OF Cons Some tr [symmetric] E(5) _ E(6) sm]) (use E(4) cn in simp_all)
      moreover have "splitargs_loop N fuel h p vector toks = splitargs_loop N f h3 p' w (toks @ [cur'])"
        using q(1) ld E(1-4) f cn by simp
      ultimately show ?thesis using ao args_result_Cons by simp
    qed
  qed
qed

lemma sdssplitargs_ok:
  assumes v: "heap_valid h" and cs: "cstring h line xs" and ft: "fits (length xs)" and n: "args_count xs < 2 ^ 31"
  shows "args_result h [] (args_of xs) (sdssplitargs h line)"
proof -
  have "vec_ok h h Null 0 [] [] {}"
    unfolding vec_ok_def using v by (auto simp: held_def vec_blocks_def)
  from splitargs_loop_ok [OF this _ cs _ _ ft, of "length xs + 1" "length xs + 1"]
  show ?thesis using strlen_cstring [OF cs] n by (simp add: sdssplitargs_def INT_LIMIT_def)
qed

subsection \<open>Quoting and splitting\<close>

lemma hex_char_ok:
  assumes "d < 16"
  shows "is_hex_digit (hex_char d)" "hex_digit_to_int (hex_char d) = d" "hex_char d \<noteq> 0"
proof -
  have "list_all (\<lambda>d. is_hex_digit (hex_char d) \<and> hex_digit_to_int (hex_char d) = d \<and> hex_char d \<noteq> 0) [0..<16]"
    by code_simp
  then show "is_hex_digit (hex_char d)" "hex_digit_to_int (hex_char d) = d" "hex_char d \<noteq> 0"
    using assms by (simp_all add: list_all_iff del: upt_conv_Nil)
qed

lemma byte_hex: "(of_nat (unat c div 16 * 16 + unat c mod 16) :: byte) = c"
  by (simp only: div_mult_mod_eq) simp

lemma hex_ahead_other: "x \<noteq> 120 \<Longrightarrow> \<not> hex_ahead (x # xs)"
  by (cases "x # xs" rule: hex_ahead.cases) auto

text \<open>In double quotes the tokenizer reads the representation of a byte back as that byte.\<close>

lemma list_act_repr: "list_act True False (repr_byte c @ xs) = L_emit c (length (repr_byte c))"
proof -
  have d: "unat c div 16 < 16" "unat c mod 16 < 16"
    using unat_byte [of c] by (simp_all add: less_mult_imp_div_less del: unat_byte)
  note H = hex_char_ok [OF d(1)] hex_char_ok [OF d(2)]
  show ?thesis
    using H byte_hex [of c]
    by (simp add: repr_byte_def list_act_def unescape_def hex_ahead_other del: of_nat_add of_nat_mult)
qed

lemma token_of_repr:
  "token_of True False acc (concat (map repr_byte ys) @ [0x22]) = Some (acc @ ys, [])"
proof (induction ys arbitrary: acc)
  case Nil
  show ?case by (subst token_of.simps) (simp add: list_act_def)
next
  case (Cons y ys)
  show ?case by (subst token_of.simps) (simp add: list_act_repr Cons.IH)
qed

lemma args_of_repr: "args_of (repr ys) = Some [ys]"
proof -
  have dW: "dropWhile isspace (repr ys) = 0x22 # concat (map repr_byte ys) @ [0x22]"
    by (simp add: repr_def isspace_def)
  have "token_of False False [] (0x22 # concat (map repr_byte ys) @ [0x22]) = Some (ys, [])"
    using token_of_repr [of "[]" ys] by (subst token_of.simps) (simp add: list_act_def)
  moreover have "args_of [] = Some []" by (subst args_of.simps) simp
  ultimately show ?thesis using dW by (simp add: args_of.simps [of "repr ys"])
qed

lemma repr_no_nul: "0 \<notin> set (repr ys)"
proof -
  have "0 \<notin> set (repr_byte c)" for c
  proof -
    have d: "unat c div 16 < 16" "unat c mod 16 < 16"
      using unat_byte [of c] by (simp_all add: less_mult_imp_div_less del: unat_byte)
    then show ?thesis using hex_char_ok(3) [OF d(1)] hex_char_ok(3) [OF d(2)]
      by (auto simp: repr_byte_def isprint_def)
  qed
  then show ?thesis by (auto simp: repr_def)
qed

subsection \<open>Properties\<close>

text \<open>
  C27.  As long as every allocation succeeds (the code does not test \<open>current\<close> and \<open>vector\<close>, and would
  dereference a null pointer) and the line has fewer than \<open>2^31\<close> complete arguments, which every line shorter than 2 GB has (otherwise
  the \<open>int\<close> \<open>*argc\<close> overflows), \<open>sdssplitargs\<close> terminates without an invalid access on a C string and computes
  the tokenizer: if the quoting is balanced the returned vector holds one fresh string per
  argument, and otherwise \<open>NULL\<close> is returned with \<open>*argc\<close> zero and every block the call
  allocated has been freed.
\<close>

theorem sdssplitargs_tokenizes:
  assumes "heap_ok h" "\<forall>c n. can_alloc h c n" "cstring h line xs" "fits (length xs)" "args_count xs < 2 ^ 31"
  shows "case args_of xs of
      Some ts \<Rightarrow> \<exists>v toks h'. sdssplitargs h line = Some (v, toks, length toks, h') \<and> v \<noteq> Null \<and> held h' toks ts
    | None \<Rightarrow> \<exists>h'. sdssplitargs h line = Some (Null, [], 0, h') \<and> mem h' = mem h"
  using sdssplitargs_ok [OF _ assms(3-5)] assms(1,2) by (auto simp: args_result_def vec_ok_def heap_valid_def split: option.splits)

theorem sdssplitargs_tokenizes_witness:
  "(\<exists>v toks h'. sdssplitargs hello_heap (lit ''set k v'') = Some (v, toks, length toks, h') \<and> v \<noteq> Null \<and>
      held h' toks [bytes ''set'', bytes ''k'', bytes ''v'']) \<and>
   (\<exists>h'. sdssplitargs hello_heap (lit ''get \"k'') = Some (Null, [], 0, h') \<and> mem h' = mem hello_heap)"
proof -
  have 1: "args_of (bytes ''set k v'') = Some [bytes ''set'', bytes ''k'', bytes ''v'']" by code_simp
  have 2: "args_of (bytes ''get \"k'') = None" by code_simp
  have c: "cstring hello_heap (lit ''set k v'') (bytes ''set k v'')"
    "cstring hello_heap (lit ''get \"k'') (bytes ''get \"k'')"
    by (rule cstring_lit, simp add: bytes_def)+
  have n: "args_count (bytes ''set k v'') < 2 ^ 31" "args_count (bytes ''get \"k'') < 2 ^ 31"
    using args_count_le [of "bytes ''set k v''"] args_count_le [of "bytes ''get \"k''"] by (simp_all add: bytes_def)
  have v: "heap_ok hello_heap" "\<forall>c n. can_alloc hello_heap c n" by simp_all
  show ?thesis
    using sdssplitargs_tokenizes [OF v c(1) _ n(1)] sdssplitargs_tokenizes [OF v c(2) _ n(2)] 1 2 by (simp add: fits_small)
qed

text \<open>
  C28.  Quoting and splitting are inverse: when every allocation succeeds, the line that \<open>sdscatrepr\<close> writes for any bytes
  outside the block of the string, NUL and non-printable ones included, is split by \<open>sdssplitargs\<close> into exactly one argument,
  which holds those bytes.
\<close>

theorem sdscatrepr_splitargs_roundtrip:
  assumes "heap_valid h" "sds_holds h s b []" "load_bytes h p (length ys) = Some ys"
    "block_of p \<noteq> Some b" "fits (length (repr ys))"
  shows "\<exists>s' h' v t h''. sdscatrepr h s p (length ys) = Some (s', h') \<and>
    sdssplitargs h' s' = Some (v, [t], 1, h'') \<and> held h'' [t] [ys]"
proof -
  obtain s' h' b' where R: "sdscatrepr h s p (length ys) = Some (s', h')" "sds_holds h' s' b' (repr ys)"
    "evolves h b h' b'" using sdscatrepr_ok [OF assms(1-4)] assms(5) by auto
  have v: "heap_valid h'" using sds.change_valid [OF assms(1) R(3)] .
  have "args_result h' [] (Some [ys]) (sdssplitargs h' s')"
    using sdssplitargs_ok [OF v sds_holds_cstring [OF R(2) repr_no_nul] assms(5)] args_of_repr [of ys]
      args_count_of [OF args_of_repr [of ys]] by simp
  then obtain w toks h'' where W: "sdssplitargs h' s' = Some (w, toks, length toks, h'')" "held h'' toks [ys]"
    by (auto simp: args_result_def vec_ok_def)
  then obtain t where "toks = [t]" by (auto simp: held_def list_all2_Cons2)
  then show ?thesis using R(1) W by auto
qed

theorem sdscatrepr_splitargs_roundtrip_witness:
  "\<exists>s' h' v t h''. sdscatrepr (upd (bump empty_heap) 0 (sds_bytes (new_obj []))) (Ptr 0 3) (Str [0, 34, 200] 0)
      (length [0, 34, 200 :: byte]) = Some (s', h') \<and>
    sdssplitargs h' s' = Some (v, [t], 1, h'') \<and> held h'' [t] [[0, 34, 200]]"
proof (rule sdscatrepr_splitargs_roundtrip)
  show "heap_valid (upd (bump empty_heap) 0 (sds_bytes (new_obj [])))" by (simp add: heap_valid_def heap_ok_def)
  show "sds_holds (upd (bump empty_heap) 0 (sds_bytes (new_obj []))) (Ptr 0 3) 0 []"
    using new_obj_at [of "[]" "bump empty_heap" 0] by (auto intro!: sds_holdsI simp: new_type_def)
qed (simp_all add: load_bytes_def fits_small repr_def repr_byte_def isprint_def)

end
