(* ===== verification/Sds_Catfmt.thy ===== *)
theory Sds_Catfmt
  imports Sds_Append
begin

text \<open>
  \<open>sdscatfmt\<close> of \<open>redis-learnning/sds/sds.c\<close>: the library's own formatter, which writes
  directly behind the string and keeps the length up to date while the terminator is missing.
  The variable arguments are a list of typed values; reading an argument at another type is
  undefined.
\<close>

subsection \<open>Operations\<close>

datatype va_arg = A_ptr ptr | A_int int | A_llong int | A_uint nat | A_ullong nat

text \<open>The block shared by the conversions: make room, copy, count.\<close>

definition fmt_append :: "heap \<Rightarrow> ptr \<Rightarrow> nat \<Rightarrow> ptr \<Rightarrow> nat \<Rightarrow> (ptr \<times> heap \<times> nat) option" where
  "fmt_append h s i src l = do {
     avail \<leftarrow> sdsavail h s;
     (s, h) \<leftarrow> (if avail < l then sdsMakeRoomFor h s l else Some (s, h));
     h \<leftarrow> memcpy h (padd s (int i)) src l;
     h \<leftarrow> sdsinclen h s l;
     Some (s, h, i + l)
   }"

definition fmt_char :: "heap \<Rightarrow> ptr \<Rightarrow> nat \<Rightarrow> byte \<Rightarrow> (ptr \<times> heap \<times> nat) option" where
  "fmt_char h s i c = do {
     h \<leftarrow> store h (padd s (int i)) c;
     h \<leftarrow> sdsinclen h s 1;
     Some (s, h, i + 1)
   }"

text \<open>The inner \<open>switch\<close> on the conversion character.\<close>

definition fmt_conv :: "heap \<Rightarrow> ptr \<Rightarrow> nat \<Rightarrow> byte \<Rightarrow> va_arg list \<Rightarrow> (ptr \<times> heap \<times> nat \<times> va_arg list) option" where
  "fmt_conv h s i next ap =
     (if next = 115 \<or> next = 83 then
        (case ap of
           A_ptr str # ap \<Rightarrow> do {
             l \<leftarrow> (if next = 115 then strlen h str else sdslen h str);
             (s, h, i) \<leftarrow> fmt_append h s i str l;
             Some (s, h, i, ap)
           }
         | _ \<Rightarrow> None)
      else if next = 105 \<or> next = 73 then do {
        (num, ap) \<leftarrow> (case ap of
            A_int n # ap \<Rightarrow> if next = 105 then Some (n, ap) else None
          | A_llong n # ap \<Rightarrow> if next = 73 then Some (n, ap) else None
          | _ \<Rightarrow> None);
        (buf, l) \<leftarrow> sdsll2str (stack_buf h SDS_LLSTR_SIZE) num;
        (s, h, i) \<leftarrow> fmt_append h s i (Str buf 0) l;
        Some (s, h, i, ap)
      }
      else if next = 117 \<or> next = 85 then do {
        (unum, ap) \<leftarrow> (case ap of
            A_uint n # ap \<Rightarrow> if next = 117 then Some (n, ap) else None
          | A_ullong n # ap \<Rightarrow> if next = 85 then Some (n, ap) else None
          | _ \<Rightarrow> None);
        (buf, l) \<leftarrow> sdsull2str (stack_buf h SDS_LLSTR_SIZE) unum;
        (s, h, i) \<leftarrow> fmt_append h s i (Str buf 0) l;
        Some (s, h, i, ap)
      }
      else do {
        (s, h, i) \<leftarrow> fmt_char h s i next;
        Some (s, h, i, ap)
      })"

text \<open>The loop \<open>while (*f)\<close>; every round consumes at least one character of the format.\<close>

primrec catfmt_loop :: "nat \<Rightarrow> heap \<Rightarrow> ptr \<Rightarrow> nat \<Rightarrow> ptr \<Rightarrow> va_arg list \<Rightarrow> (ptr \<times> heap \<times> nat) option" where
  "catfmt_loop 0 h s i f ap = None"
| "catfmt_loop (Suc fuel) h s i f ap = do {
     c \<leftarrow> load h f;
     if c = 0 then Some (s, h, i)
     else do {
       avail \<leftarrow> sdsavail h s;
       (s, h) \<leftarrow> (if avail = 0 then sdsMakeRoomFor h s 1 else Some (s, h));
       c \<leftarrow> load h f;
       if c = 37 then do {
         next \<leftarrow> load h (padd f 1);
         if next = 0 then catfmt_loop fuel h s i (padd f 1) ap
         else do {
           (s, h, i, ap) \<leftarrow> fmt_conv h s i next ap;
           catfmt_loop fuel h s i (padd f 2) ap
         }
       }
       else do {
         (s, h, i) \<leftarrow> fmt_char h s i c;
         catfmt_loop fuel h s i (padd f 1) ap
       }
     }
   }"

definition sdscatfmt :: "heap \<Rightarrow> ptr \<Rightarrow> ptr \<Rightarrow> va_arg list \<Rightarrow> (ptr \<times> heap) option" where
  "sdscatfmt h s fmt ap = do {
     initlen \<leftarrow> sdslen h s;
     n \<leftarrow> strlen h fmt;
     (s, h) \<leftarrow> sdsMakeRoomFor h s (size_add initlen (size_mul n 2));
     (s, h, i) \<leftarrow> catfmt_loop (n + 1) h s initlen fmt ap;
     h \<leftarrow> store h (padd s (int i)) 0;
     Some (s, h)
   }"

subsection \<open>What a format produces\<close>

text \<open>The text of one argument under one conversion character.\<close>

definition arg_text :: "heap \<Rightarrow> nat \<Rightarrow> byte \<Rightarrow> va_arg \<Rightarrow> byte list \<Rightarrow> bool" where
  "arg_text h b next a ys \<longleftrightarrow>
     (case a of
        A_ptr t \<Rightarrow> (next = 115 \<and> cstring h t ys \<and> block_of t \<noteq> Some b) \<or>
                   (next = 83 \<and> (\<exists>c. sds_holds h t c ys \<and> c \<noteq> b))
      | A_int n \<Rightarrow> next = 105 \<and> - (2 ^ 31) \<le> n \<and> n < 2 ^ 31 \<and> ys = dec_of_int n
      | A_llong n \<Rightarrow> next = 73 \<and> - (2 ^ 63) \<le> n \<and> n < 2 ^ 63 \<and> ys = dec_of_int n
      | A_uint n \<Rightarrow> next = 117 \<and> n < 2 ^ 32 \<and> ys = dec_digits n
      | A_ullong n \<Rightarrow> next = 85 \<and> n < 2 ^ 64 \<and> ys = dec_digits n)"

definition is_conv :: "byte \<Rightarrow> bool" where
  "is_conv c \<longleftrightarrow> c \<in> {115, 83, 105, 73, 117, 85}"

inductive fmt_out :: "heap \<Rightarrow> nat \<Rightarrow> byte list \<Rightarrow> va_arg list \<Rightarrow> byte list \<Rightarrow> bool" for h b where
  fmt_end: "fmt_out h b [] ap []"
| fmt_percent_end: "fmt_out h b [37] ap []"
| fmt_lit: "c \<noteq> 37 \<Longrightarrow> fmt_out h b f ap out \<Longrightarrow> fmt_out h b (c # f) ap (c # out)"
| fmt_arg: "is_conv n \<Longrightarrow> arg_text h b n a t \<Longrightarrow> fmt_out h b f ap out \<Longrightarrow>
    fmt_out h b (37 # n # f) (a # ap) (t @ out)"
| fmt_other: "\<not> is_conv n \<Longrightarrow> fmt_out h b f ap out \<Longrightarrow> fmt_out h b (37 # n # f) ap (n # out)"

inductive_cases fmt_out_NilE: "fmt_out h b [] ap out"
inductive_cases fmt_out_ConsE: "fmt_out h b (c # f) ap out"

lemma arg_text_evolves:
  assumes ev: "evolves h b h' b'" and t: "arg_text h b n a ys"
  shows "arg_text h' b' n a ys"
proof (cases a)
  case (A_ptr p)
  then consider "n = 115" "cstring h p ys" "block_of p \<noteq> Some b"
    | c where "n = 83" "sds_holds h p c ys" "c \<noteq> b" using t by (auto simp: arg_text_def)
  then show ?thesis
  proof cases
    case 1
    then show ?thesis using evolves_cstring [OF ev 1(2,3)] A_ptr by (simp add: arg_text_def)
  next
    case (2 c)
    then have "piece_bytes h' b' (P_sds p) ys"
      using sds.change_piece [OF ev, of "P_sds p" ys] by auto
    then show ?thesis using A_ptr 2(1) by (simp add: arg_text_def)
  qed
qed (use t in \<open>auto simp: arg_text_def\<close>)

lemma fmt_out_evolves:
  assumes "fmt_out h b f ap out" "evolves h b h' b'"
  shows "fmt_out h' b' f ap out"
  using assms by (induction rule: fmt_out.induct) (auto intro: fmt_out.intros arg_text_evolves)

subsection \<open>Strings without their terminator\<close>

definition sds_open :: "heap \<Rightarrow> ptr \<Rightarrow> nat \<Rightarrow> nat \<Rightarrow> byte list \<Rightarrow> bool" where
  "sds_open h s b n xs \<longleftrightarrow>
     (\<exists>A. sds_at h s b A \<and> sds_room A \<and> sds_val A = xs \<and> slen A = length xs \<and> n + length xs \<le> salloc A)"

lemma sds_open_0: "sds_open h s b n xs \<Longrightarrow> sds_open h s b 0 xs"
  by (auto simp: sds_open_def)

lemma sds_room_length: "sds_room A \<Longrightarrow> length (sds_val A) = slen A"
  by (simp add: sds_val_def sds_room_def)

lemma sds_holds_open: "sds_holds h s b xs \<Longrightarrow> sds_open h s b 0 xs"
  by (simp add: sds_holds_def sds_open_def) (metis sds_val_length sds_wf_def sds_wf_room)

lemma open_room:
  assumes op: "sds_open h s b 0 xs" and v: "heap_valid h" and ft: "fits (length xs + l)"
  shows "\<exists>s' h' b'. sdsMakeRoomFor h s l = Some (s', h') \<and> sds_open h' s' b' l xs \<and> evolves h b h' b'"
proof -
  obtain A where A: "sds_at h s b A" "sds_room A" "sds_val A = xs" "slen A = length xs"
    using op by (auto simp: sds_open_def)
  have al: "\<not> l \<le> salloc A - slen A \<longrightarrow> can_alloc h (nxt h) (room_size (slen A + l))"
    using heap_validD(2) [OF v] by simp
  show ?thesis
    by (rule sdsMakeRoomFor_room [OF A(1,2) heap_validD(1) [OF v] _ al])
      (use A ft in \<open>auto simp: sds_open_def add.commute\<close>)
qed

text \<open>Writing behind the string and counting what was written.\<close>

lemma open_write:
  assumes op: "sds_open h s b (length ys) xs" and ok: "heap_ok h"
  shows "\<exists>h'. do { h \<leftarrow> store_bytes h (padd s (int (length xs))) ys; sdsinclen h s (length ys) } = Some h' \<and>
    sds_open h' s b 0 (xs @ ys) \<and> evolves h b h' b"
proof -
  obtain A where A: "sds_at h s b A" "sds_room A" "sds_val A = xs" "slen A = length xs"
    "length ys + length xs \<le> salloc A" using op by (auto simp: sds_open_def)
  have bd: "salloc A < length (sbuf A)" using A(2) by (simp add: sds_room_def)
  let ?n = "length xs + length ys"
  have lim: "?n < type_limit (ty A)" "ty A = SDS_TYPE_5 \<longrightarrow> salloc A = slen A"
    using A(4,5) sds_atD(3) [OF A(1)] by (auto simp: sds_layout_def)
  let ?A1 = "A\<lparr>sbuf := overwrite (sbuf A) (length xs) ys\<rparr>"
  have 1: "store_bytes h (padd s (int (length xs))) ys = Some (upd h b (sds_bytes ?A1))"
    using A(5) bd by (intro sds_store_buf [OF A(1)]) auto
  have lay1: "sds_layout ?A1" using sds_atD(3) [OF A(1)] by (simp add: sds_layout_def)
  have at1: "sds_at (upd h b (sds_bytes ?A1)) s b ?A1" using sds_at_upd [OF A(1) lay1] by simp
  let ?B = "with_len ?A1 ?n"
  have 2: "sdsinclen (upd h b (sds_bytes ?A1)) s (length ys) = Some (upd h b (sds_bytes ?B))"
    using sdsinclen_at [OF at1, of "length ys"] A(4) by simp
  have layB: "sds_layout ?B" using sds_layout_with_len [OF lay1] lim by simp
  have atB: "sds_at (upd h b (sds_bytes ?B)) s b ?B" using sds_at_upd [OF A(1) layB] by simp
  have len: "length (overwrite (sbuf A) (length xs) ys) = length (sbuf A)" using A(5) bd by simp
  have rm: "sds_room ?B" using A(4,5) bd len lim(2) by (auto simp: sds_room_def)
  have "take ?n (overwrite (sbuf A) (length xs) ys) = xs @ ys"
    using A(3,4,5) bd by (subst take_overwrite_all) (auto simp: sds_val_def)
  then have vB: "sds_val ?B = xs @ ys" by (simp add: sds_val_def)
  have "sds_open (upd h b (sds_bytes ?B)) s b 0 (xs @ ys)"
    unfolding sds_open_def using atB rm vB A(4,5) lim(2) by (intro exI [of _ ?B]) auto
  then show ?thesis using 1 2 evolves_upd [OF ok sds_atD(2) [OF A(1)]] by simp
qed

lemma sds_open_avail:
  assumes "sds_open h s b n xs"
  obtains k where "sdsavail h s = Some k" "n \<le> k" "sds_open h s b k xs"
proof -
  obtain A where A: "sds_at h s b A" "sds_room A" "sds_val A = xs" "slen A = length xs" "n + length xs \<le> salloc A"
    using assms by (auto simp: sds_open_def)
  have "sdsavail h s = Some (salloc A - slen A)" using A(4,5) by (intro sdsavail_at [OF A(1)]) simp
  moreover have "sds_open h s b (salloc A - slen A) xs" unfolding sds_open_def using A by (intro exI [of _ A]) simp
  moreover have "n \<le> salloc A - slen A" using A(4,5) by simp
  ultimately show ?thesis using that by blast
qed

lemma sds_open_block: "sds_open h s b n xs \<Longrightarrow> block_of s = Some b"
  by (auto simp: sds_open_def sds_at_def)

lemma sds_open_le: "sds_open h s b n xs \<Longrightarrow> m \<le> n \<Longrightarrow> sds_open h s b m xs"
  by (auto simp: sds_open_def)

lemma fmt_append_ok:
  assumes op: "sds_open h s b 0 xs" and v: "heap_valid h" and ft: "fits (length xs + length ys)"
    and src: "load_bytes h t (length ys) = Some ys" "ys \<noteq> [] \<longrightarrow> block_of t \<noteq> Some b"
  shows "\<exists>s' h' b'. fmt_append h s (length xs) t (length ys) = Some (s', h', length (xs @ ys)) \<and>
    sds_open h' s' b' 0 (xs @ ys) \<and> evolves h b h' b'"
proof -
  obtain k where k: "sdsavail h s = Some k" "sds_open h s b k xs" by (rule sds_open_avail [OF op])
  obtain s1 h1 b1 where R: "(if k < length ys then sdsMakeRoomFor h s (length ys) else Some (s, h)) = Some (s1, h1)"
    "sds_open h1 s1 b1 (length ys) xs" "evolves h b h1 b1"
  proof (cases "k < length ys")
    case True
    then show ?thesis using open_room [OF op v ft] that by auto
  next
    case False
    then show ?thesis using that [of s h b] sds_open_le [OF k(2)] evolves_refl [OF heap_validD(1) [OF v]] by simp
  qed
  have p1: "piece_bytes h1 b1 (P_len t (length ys)) ys"
    using sds.change_piece [OF R(3), of "P_len t (length ys)" ys] src by simp
  have cp: "memcpy h1 (padd s1 (int (length xs))) t (length ys) = store_bytes h1 (padd s1 (int (length xs))) ys"
  proof (cases "ys = []")
    case False
    then show ?thesis using p1 sds_open_block [OF R(2)] by (intro memcpy_disjoint) auto
  qed simp
  obtain h2 where W: "do { h \<leftarrow> store_bytes h1 (padd s1 (int (length xs))) ys; sdsinclen h s1 (length ys) } = Some h2"
    "sds_open h2 s1 b1 0 (xs @ ys)" "evolves h1 b1 h2 b1"
    using open_write [OF R(2) heap_validD(1) [OF sds.change_valid [OF v R(3)]]] by blast
  have "fmt_append h s (length xs) t (length ys) = Some (s1, h2, length (xs @ ys))"
    using W(1) unfolding fmt_append_def k(1) bind.bind_lunit R(1) prod.case cp
    by (simp add: bind_eq_Some_conv)
  then show ?thesis using W(2) evolves_trans [OF R(3) W(3)] by blast
qed

lemma fmt_char_ok:
  assumes op: "sds_open h s b 1 xs" and v: "heap_valid h"
  shows "\<exists>h'. fmt_char h s (length xs) c = Some (s, h', length (xs @ [c])) \<and>
    sds_open h' s b 0 (xs @ [c]) \<and> evolves h b h' b"
  using open_write [of h s b "[c]" xs] op heap_validD(1) [OF v]
  by (auto simp: fmt_char_def store_def bind_eq_Some_conv)

text \<open>One conversion.\<close>

lemma fmt_conv_arg:
  assumes op: "sds_open h s b 0 xs" and v: "heap_valid h" and t: "arg_text h b n a ys"
    and ft: "fits (length xs + length ys)"
  shows "\<exists>s' h' b'. fmt_conv h s (length xs) n (a # ap) = Some (s', h', length (xs @ ys), ap) \<and>
    sds_open h' s' b' 0 (xs @ ys) \<and> evolves h b h' b'"
proof -
  note F = fmt_append_ok [OF op v ft]
  have I: "\<exists>buf. sdsll2str (stack_buf h SDS_LLSTR_SIZE) i = Some (buf, length ys) \<and> load_bytes h (Str buf 0) (length ys) = Some ys"
    if "ys = dec_of_int i" "- (2 ^ 63) \<le> i" "i < 2 ^ 63" for i
    using sdsll2str_ok [OF that(2,3), of "stack_buf h 21"] length_dec_of_int [OF that(2,3)] that(1)
      load_overwritten [of ys "stack_buf h 21" h "[0]"] by simp
  have U: "\<exists>buf. sdsull2str (stack_buf h SDS_LLSTR_SIZE) i = Some (buf, length ys) \<and> load_bytes h (Str buf 0) (length ys) = Some ys"
    if "ys = dec_digits i" "i < 2 ^ 64" for i
    using sdsull2str_ok [OF that(2), of "stack_buf h 21"] length_dec_digits [of i 19] that
      load_overwritten [of ys "stack_buf h 21" h "[0]"] by simp
  show ?thesis
  proof (cases a)
    case (A_ptr p)
    have "load_bytes h p (length ys) = Some ys \<and> block_of p \<noteq> Some b \<and>
        ((n = 115 \<and> strlen h p = Some (length ys)) \<or> (n = 83 \<and> sdslen h p = Some (length ys)))"
      using t A_ptr by (auto simp: arg_text_def cstring_load strlen_cstring sds_holds_load sds_holds_len
          dest: sds_holds_block)
    then show ?thesis using A_ptr F [of p] by (auto simp: fmt_conv_def)
  next
    case (A_int i)
    then obtain buf where "sdsll2str (stack_buf h SDS_LLSTR_SIZE) i = Some (buf, length ys)"
      "load_bytes h (Str buf 0) (length ys) = Some ys" "n = 105"
      using t I [of i] by (auto simp: arg_text_def)
    then show ?thesis using A_int F [of "Str buf 0"] by (auto simp: fmt_conv_def)
  next
    case (A_llong i)
    then obtain buf where "sdsll2str (stack_buf h SDS_LLSTR_SIZE) i = Some (buf, length ys)"
      "load_bytes h (Str buf 0) (length ys) = Some ys" "n = 73"
      using t I [of i] by (auto simp: arg_text_def)
    then show ?thesis using A_llong F [of "Str buf 0"] by (auto simp: fmt_conv_def)
  next
    case (A_uint i)
    then obtain buf where "sdsull2str (stack_buf h SDS_LLSTR_SIZE) i = Some (buf, length ys)"
      "load_bytes h (Str buf 0) (length ys) = Some ys" "n = 117"
      using t U [of i] by (auto simp: arg_text_def)
    then show ?thesis using A_uint F [of "Str buf 0"] by (auto simp: fmt_conv_def)
  next
    case (A_ullong i)
    then obtain buf where "sdsull2str (stack_buf h SDS_LLSTR_SIZE) i = Some (buf, length ys)"
      "load_bytes h (Str buf 0) (length ys) = Some ys" "n = 85"
      using t U [of i] by (auto simp: arg_text_def)
    then show ?thesis using A_ullong F [of "Str buf 0"] by (auto simp: fmt_conv_def)
  qed
qed

lemma fmt_conv_other:
  "\<not> is_conv n \<Longrightarrow> fmt_conv h s i n ap = do { (s, h, i) \<leftarrow> fmt_char h s i n; Some (s, h, i, ap) }"
  by (simp add: fmt_conv_def is_conv_def)

subsection \<open>The loop\<close>

definition fmt_result :: "heap \<Rightarrow> nat \<Rightarrow> byte list \<Rightarrow> (ptr \<times> heap \<times> nat) option \<Rightarrow> bool" where
  "fmt_result h b ys r \<longleftrightarrow>
     (\<exists>s' h' b'. r = Some (s', h', length ys) \<and> sds_open h' s' b' 0 ys \<and> evolves h b h' b')"

lemma fmt_result_trans: "fmt_result h1 b1 ys r \<Longrightarrow> evolves h b h1 b1 \<Longrightarrow> fmt_result h b ys r"
  using evolves_trans by (fastforce simp: fmt_result_def)

text \<open>The room for one more character that every round makes first.\<close>

lemma round_room:
  assumes op: "sds_open h s b 0 xs" and v: "heap_valid h" and ft: "fits (length xs + 1)"
  shows "\<exists>k s' h' b'. sdsavail h s = Some k \<and>
    (if k = 0 then sdsMakeRoomFor h s 1 else Some (s, h)) = Some (s', h') \<and> sds_open h' s' b' 1 xs \<and> evolves h b h' b'"
proof -
  obtain k where k: "sdsavail h s = Some k" "sds_open h s b k xs" by (rule sds_open_avail [OF op])
  show ?thesis
  proof (cases "k = 0")
    case True
    then show ?thesis using k(1) open_room [OF op v ft] by auto
  next
    case False
    then have "sds_open h s b 1 xs" using sds_open_le [OF k(2), of 1] by simp
    then show ?thesis using False k(1) evolves_refl [OF heap_validD(1) [OF v]] by auto
  qed
qed

lemma catfmt_loop_ok:
  assumes "sds_open h s b 0 xs" "heap_valid h" "cstring h f fs" "block_of f \<noteq> Some b"
    "fmt_out h b fs ap out" "length fs < fuel" "fits (length xs + length out + 1)"
  shows "fmt_result h b (xs @ out) (catfmt_loop fuel h s (length xs) f ap)"
  using assms
proof (induction "length fs" arbitrary: fs h s b xs f ap out fuel rule: less_induct)
  case less
  obtain k where fuel: "fuel = Suc k" using less.prems(6) by (cases fuel) auto
  show ?case
  proof (cases fs)
    case Nil
    then have "out = []" using less.prems(5) by (auto elim: fmt_out_NilE)
    then show ?thesis using fuel less.prems(1) cstring_Nil less.prems(3) Nil evolves_refl [OF heap_validD(1) [OF less.prems(2)]]
      by (auto simp: fmt_result_def)
  next
    case (Cons c gs)
    note C = cstring_Cons [OF less.prems(3) [unfolded Cons]]
    have ft1: "fits (length xs + 1)" using fits_le [OF less.prems(7)] by simp
    obtain m s1 h1 b1 where R: "sdsavail h s = Some m"
      "(if m = 0 then sdsMakeRoomFor h s 1 else Some (s, h)) = Some (s1, h1)"
      "sds_open h1 s1 b1 1 xs" "evolves h b h1 b1"
      using round_room [OF less.prems(1,2) ft1] by blast
    note v1 = sds.change_valid [OF less.prems(2) R(4)]
    note F1 = evolves_cstring [OF R(4) less.prems(3,4)]
    note C1 = cstring_Cons [OF F1(1) [unfolded Cons]]
    note O1 = fmt_out_evolves [OF less.prems(5) R(4), unfolded Cons]
    note fin = fmt_result_trans [OF _ R(4)]
    have go: "catfmt_loop fuel h s (length xs) f ap =
      (if c = 37 then do {
         next \<leftarrow> load h1 (padd f 1);
         if next = 0 then catfmt_loop k h1 s1 (length xs) (padd f 1) ap
         else do {
           (s, h, i, ap) \<leftarrow> fmt_conv h1 s1 (length xs) next ap;
           catfmt_loop k h s i (padd f 2) ap
         }
       }
       else do {
         (s, h, i) \<leftarrow> fmt_char h1 s1 (length xs) c;
         catfmt_loop k h s i (padd f 1) ap
       })"
      unfolding fuel catfmt_loop.simps C(1) bind.bind_lunit R(1,2) prod.case C1(1)
      using C(3) by (simp only: if_False)
    text \<open>What every step that appended \<open>ys\<close> leads to.\<close>
    have next_round: "fmt_result h b (xs @ ys @ out') (catfmt_loop k h2 s2 (length (xs @ ys)) (padd f (int d)) ap')"
      if "sds_open h2 s2 b2 0 (xs @ ys)" "evolves h1 b1 h2 b2" "fmt_out h1 b1 (drop d fs) ap' out'" "0 < d" "d \<le> length fs"
        "out = ys @ out'" for ys out' h2 s2 b2 d ap'
    proof -
      note E = evolves_cstring [OF that(2) cstring_at(2) [OF F1(1) that(5)]]
      have "fmt_result h2 b2 ((xs @ ys) @ out') (catfmt_loop k h2 s2 (length (xs @ ys)) (padd f (int d)) ap')"
        using that E F1(2) less.prems(6,7) fuel
        by (intro less.hyps [OF _ that(1) sds.change_valid [OF v1 that(2)] _ _ fmt_out_evolves [OF that(3,2)]])
          (auto simp: add.assoc)
      then show ?thesis using fmt_result_trans [OF _ evolves_trans [OF R(4) that(2)]] by simp
    qed
    from O1 show ?thesis
    proof (cases rule: fmt_out.cases)
      case fmt_percent_end
      then have "load h1 (padd f 1) = Some 0" using C1(2) cstring_Nil by simp
      then show ?thesis
        using go fmt_percent_end next_round [of h1 s1 b1 "[]" 1 ap "[]"] sds_open_0 [OF R(3)] Cons
          evolves_refl [OF heap_validD(1) [OF v1]] fmt_out.fmt_end by simp
    next
      case (fmt_lit out')
      obtain h2 where "fmt_char h1 s1 (length xs) c = Some (s1, h2, length (xs @ [c]))"
        "sds_open h2 s1 b1 0 (xs @ [c])" "evolves h1 b1 h2 b1" using fmt_char_ok [OF R(3) v1] by blast
      then show ?thesis using go fmt_lit next_round [of h2 s1 b1 "[c]" 1 ap out'] Cons by simp
    next
      case (fmt_arg n a t gs' ap' out')
      have nx: "load h1 (padd f 1) = Some n" "n \<noteq> 0" using cstring_Cons [of h1 "padd f 1" n gs'] C1(2) fmt_arg by auto
      have ft: "fits (length xs + length t)" using fits_le [OF less.prems(7)] fmt_arg by simp
      obtain s2 h2 b2 where "fmt_conv h1 s1 (length xs) n (a # ap') = Some (s2, h2, length (xs @ t), ap')"
        "sds_open h2 s2 b2 0 (xs @ t)" "evolves h1 b1 h2 b2"
        using fmt_conv_arg [OF sds_open_0 [OF R(3)] v1 fmt_arg(6) ft] by blast
      then show ?thesis using go nx fmt_arg next_round [of h2 s2 b2 t 2 ap' out'] Cons by simp
    next
      case (fmt_other n gs' out')
      have nx: "load h1 (padd f 1) = Some n" "n \<noteq> 0" using cstring_Cons [of h1 "padd f 1" n gs'] C1(2) fmt_other by auto
      obtain h2 where "fmt_char h1 s1 (length xs) n = Some (s1, h2, length (xs @ [n]))"
        "sds_open h2 s1 b1 0 (xs @ [n])" "evolves h1 b1 h2 b1" using fmt_char_ok [OF R(3) v1] by blast
      then show ?thesis using go nx fmt_other fmt_conv_other next_round [of h2 s1 b1 "[n]" 2 ap out'] Cons by simp
    qed
  qed
qed

lemma sds_close:
  assumes op: "sds_open h s b 0 ys" and ok: "heap_ok h"
  shows "\<exists>h'. store h (padd s (int (length ys))) 0 = Some h' \<and> sds_holds h' s b ys \<and> evolves h b h' b"
proof -
  obtain A where A: "sds_at h s b A" "sds_room A" "sds_val A = ys" "slen A = length ys"
    using op by (auto simp: sds_open_def)
  have bd: "slen A \<le> salloc A" "salloc A < length (sbuf A)" using A(2) by (simp_all add: sds_room_def)
  let ?B = "A\<lparr>sbuf := (sbuf A)[length ys := 0]\<rparr>"
  have st: "store h (padd s (int (length ys))) 0 = Some (upd h b (sds_bytes ?B))"
    using sds_store_char [OF A(1), of "length ys" 0] A(4) bd by simp
  have "sds_layout ?B" using sds_atD(3) [OF A(1)] by (simp add: sds_layout_def)
  then have "sds_at (upd h b (sds_bytes ?B)) s b ?B" using sds_at_upd [OF A(1)] by simp
  moreover have "sds_wf ?B" using bd A(4) by (simp add: sds_wf_def)
  moreover have "sds_val ?B = ys" using A(3,4) by (simp add: sds_val_def)
  ultimately show ?thesis using st sds_holdsI evolves_upd [OF ok sds_atD(2) [OF A(1)]] by blast
qed

lemma sdscatfmt_ok:
  assumes hold: "sds_holds h s b xs" and v: "heap_valid h" and cs: "cstring h fmt fs" "block_of fmt \<noteq> Some b"
    and out: "fmt_out h b fs ap out" and ft: "fits (2 * length xs + 2 * length fs)" "fits (length xs + length out + 1)"
  shows "\<exists>s' h' b'. sdscatfmt h s fmt ap = Some (s', h') \<and> sds_holds h' s' b' (xs @ out) \<and> evolves h b h' b'"
proof -
  let ?l = "length xs + length fs * 2"
  have sz: "size_add (length xs) (size_mul (length fs) 2) = ?l"
    using ft(1) by (simp add: fits_def size_add_exact size_mul_exact)
  have "fits (length xs + ?l)" using ft(1) by (rule fits_le) simp
  then obtain s1 h1 b1 where R: "sdsMakeRoomFor h s ?l = Some (s1, h1)" "sds_open h1 s1 b1 ?l xs" "evolves h b h1 b1"
    using open_room [OF sds_holds_open [OF hold] v] by blast
  note v1 = sds.change_valid [OF v R(3)]
  note C = evolves_cstring [OF R(3) cs]
  have "fmt_result h1 b1 (xs @ out) (catfmt_loop (length fs + 1) h1 s1 (length xs) fmt ap)"
    by (rule catfmt_loop_ok [OF sds_open_0 [OF R(2)] v1 C fmt_out_evolves [OF out R(3)] _ ft(2)]) simp
  then obtain s2 h2 b2 where L: "catfmt_loop (length fs + 1) h1 s1 (length xs) fmt ap = Some (s2, h2, length (xs @ out))"
    "sds_open h2 s2 b2 0 (xs @ out)" "evolves h1 b1 h2 b2" by (auto simp: fmt_result_def)
  obtain h3 where S: "store h2 (padd s2 (int (length (xs @ out)))) 0 = Some h3" "sds_holds h3 s2 b2 (xs @ out)"
    "evolves h2 b2 h3 b2"
    using sds_close [OF L(2) heap_validD(1) [OF sds.change_valid [OF v1 L(3)]]] by blast
  have "sdscatfmt h s fmt ap = Some (s2, h3)"
    unfolding sdscatfmt_def sds_holds_len [OF hold] strlen_cstring [OF cs(1)] bind.bind_lunit sz R(1) prod.case L(1)
    using S(1) by simp
  then show ?thesis using S(2) evolves_trans [OF evolves_trans [OF R(3) L(3)] S(3)] by blast
qed

subsection \<open>Properties\<close>

text \<open>
  C30.  When every allocation succeeds, \<open>sdscatfmt\<close> appends exactly the text its format denotes: literal characters, the
  bytes of C strings (\<open>%s\<close>) and sds strings (\<open>%S\<close>), the decimal notation of signed and
  unsigned integers of both widths, the character itself for any other \<open>%\<close> sequence, and
  nothing for a \<open>%\<close> at the very end.  The call terminates without an invalid access and the
  result is a well-formed string.
\<close>

theorem sdscatfmt_formats:
  assumes "sds_holds h s b xs" "heap_valid h" "cstring h fmt fs" "block_of fmt \<noteq> Some b"
    "fmt_out h b fs ap out" "fits (2 * length xs + 2 * length fs)" "fits (length xs + length out + 1)"
  shows "\<exists>s' h' b'. sdscatfmt h s fmt ap = Some (s', h') \<and> sds_holds h' s' b' (xs @ out) \<and> evolves h b h' b'"
  by (rule sdscatfmt_ok [OF assms])

theorem sdscatfmt_formats_witness:
  "\<exists>s' h' b'. sdscatfmt hello_heap (Ptr 0 1) (Str (bytes ''=%i%%'' @ [0]) 0) [A_int (-42)] = Some (s', h') \<and>
     sds_holds h' s' b' (bytes ''hello'' @ bytes ''=-42%'') \<and> evolves hello_heap 0 h' b'"
proof -
  have d: "dec_of_int (-42) = bytes ''-42''" by code_simp
  have "fmt_out hello_heap 0 [61, 37, 105, 37, 37] [A_int (-42)] (61 # dec_of_int (-42) @ 37 # [])"
    by (intro fmt_out.intros) (simp_all add: is_conv_def arg_text_def)
  then have "fmt_out hello_heap 0 (bytes ''=%i%%'') [A_int (-42)] (bytes ''=-42%'')"
    by (simp add: d bytes_def)
  moreover have "cstring hello_heap (Str (bytes ''=%i%%'' @ [0]) 0) (bytes ''=%i%%'')"
    by (rule literal_cstring) (simp add: bytes_def)
  ultimately show ?thesis
    using sdscatfmt_formats [OF hello_holds, of "Str (bytes ''=%i%%'' @ [0]) 0" "bytes ''=%i%%''" "[A_int (-42)]"]
    by (simp add: heap_valid_def fits_small)
qed

end
