(* ===== verification/LL.thy ===== *)
theory LL
  imports Prelude
begin

text \<open>
  The doubly linked lists of the thread pools (\<open>LL_ADD\<close> and \<open>LL_REMOVE\<close> in
  \<open>system-programming/threadpool/version1/threadpool.h\<close>).  Nodes live in a store indexed by
  address; an access through a dangling pointer is \<open>None\<close>.  \<open>dll\<close> relates a head pointer
  to the list of the addresses reachable from it, and the macros are shown to be insertion at
  the front and removal of an element.
\<close>

record 'a node =
  prev :: "nat option"
  succ :: "nat option"
  data :: 'a

type_synonym 'a store = "nat \<Rightarrow> 'a node option"

definition set_prev :: "'a store \<Rightarrow> nat \<Rightarrow> nat option \<Rightarrow> 'a store option" where
  "set_prev m a p = do { n \<leftarrow> m a; Some (m(a \<mapsto> n\<lparr>prev := p\<rparr>)) }"

definition set_succ :: "'a store \<Rightarrow> nat \<Rightarrow> nat option \<Rightarrow> 'a store option" where
  "set_succ m a p = do { n \<leftarrow> m a; Some (m(a \<mapsto> n\<lparr>succ := p\<rparr>)) }"

definition LL_ADD :: "'a store \<Rightarrow> nat \<Rightarrow> nat option \<Rightarrow> ('a store \<times> nat option) option" where
  "LL_ADD m item lst = do {
     m \<leftarrow> set_prev m item None;
     m \<leftarrow> set_succ m item lst;
     m \<leftarrow> (case lst of Some l \<Rightarrow> set_prev m l (Some item) | None \<Rightarrow> Some m);
     Some (m, Some item)
   }"

definition LL_REMOVE :: "'a store \<Rightarrow> nat \<Rightarrow> nat option \<Rightarrow> ('a store \<times> nat option) option" where
  "LL_REMOVE m item lst = do {
     n \<leftarrow> m item;
     m \<leftarrow> (case prev n of Some p \<Rightarrow> set_succ m p (succ n) | None \<Rightarrow> Some m);
     n \<leftarrow> m item;
     m \<leftarrow> (case succ n of Some s \<Rightarrow> set_prev m s (prev n) | None \<Rightarrow> Some m);
     n \<leftarrow> m item;
     let lst = (if lst = Some item then succ n else lst);
     m \<leftarrow> set_succ m item None;
     m \<leftarrow> set_prev m item None;
     Some (m, lst)
   }"

subsection \<open>Lists in the store\<close>

text \<open>\<open>dll m p l xs\<close>: from the head pointer \<open>l\<close> the nodes \<open>xs\<close> follow, the first with
  predecessor \<open>p\<close>.\<close>

fun dll :: "'a store \<Rightarrow> nat option \<Rightarrow> nat option \<Rightarrow> nat list \<Rightarrow> bool" where
  "dll m p l [] \<longleftrightarrow> l = None"
| "dll m p l (x # xs) \<longleftrightarrow> l = Some x \<and> (\<exists>n. m x = Some n \<and> prev n = p \<and> dll m (Some x) (succ n) xs)"

text \<open>Two stores with the same data fields outside a set of addresses.\<close>

definition same_data :: "'a store \<Rightarrow> 'a store \<Rightarrow> bool" where
  "same_data m m' \<longleftrightarrow> (\<forall>a. map_option data (m' a) = map_option data (m a))"

lemma dll_frame: "dll m p l xs \<Longrightarrow> (\<And>a. a \<in> set xs \<Longrightarrow> m' a = m a) \<Longrightarrow> dll m' p l xs"
  by (induction xs arbitrary: p l) auto

lemma dll_live: "dll m p l xs \<Longrightarrow> a \<in> set xs \<Longrightarrow> \<exists>n. m a = Some n"
  by (induction xs arbitrary: p l) auto

lemma same_data_refl [simp]: "same_data m m"
  by (simp add: same_data_def)

lemma same_data_trans: "same_data m m' \<Longrightarrow> same_data m' m'' \<Longrightarrow> same_data m m''"
  by (simp add: same_data_def)

lemma same_data_upd:
  "m a = Some n \<Longrightarrow> data n' = data n \<Longrightarrow> same_data m (m(a \<mapsto> n'))"
  by (simp add: same_data_def)

lemma LL_ADD_ok:
  assumes "dll m None lst xs" "distinct xs" "item \<notin> set xs" "m item = Some n"
  shows "\<exists>m'. LL_ADD m item lst = Some (m', Some item) \<and> dll m' None (Some item) (item # xs) \<and>
    same_data m m' \<and> (\<forall>a. a \<notin> insert item (set xs) \<longrightarrow> m' a = m a)"
proof (cases xs)
  case Nil
  then show ?thesis using assms
    by (auto simp: LL_ADD_def set_prev_def set_succ_def same_data_def)
next
  case (Cons y ys)
  then obtain k where k: "lst = Some y" "m y = Some k" "prev k = None" "dll m (Some y) (succ k) ys"
    using assms(1) by auto
  let ?m = "m(item \<mapsto> n\<lparr>prev := None, succ := Some y\<rparr>, y \<mapsto> k\<lparr>prev := Some item\<rparr>)"
  have ne: "y \<noteq> item" using assms(3) Cons by auto
  have "LL_ADD m item lst = Some (?m, Some item)"
    using assms(4) k(1,2) ne by (simp add: LL_ADD_def set_prev_def set_succ_def)
  moreover have "dll ?m (Some y) (succ k) ys"
    using k(4) assms(2,3) Cons by (auto intro!: dll_frame [OF k(4)])
  then have "dll ?m None (Some item) (item # xs)" using Cons ne by simp
  moreover have "same_data m ?m" using assms(4) k(2) ne by (auto simp: same_data_def)
  ultimately show ?thesis using Cons by auto
qed

text \<open>Removing the element in front, as the workers do.\<close>

lemma LL_REMOVE_front:
  assumes "dll m None lst (x # xs)" "distinct (x # xs)"
  shows "\<exists>m' lst'. LL_REMOVE m x lst = Some (m', lst') \<and> dll m' None lst' xs \<and> same_data m m' \<and>
    (\<forall>a. a \<notin> set (x # xs) \<longrightarrow> m' a = m a)"
proof -
  from assms(1) obtain n where n: "lst = Some x" "m x = Some n" "prev n = None" "dll m (Some x) (succ n) xs" by auto
  show ?thesis
  proof (cases xs)
    case Nil
    then show ?thesis using n by (auto simp: LL_REMOVE_def set_prev_def set_succ_def same_data_def)
  next
    case (Cons y ys)
    then obtain k where k: "succ n = Some y" "m y = Some k" "dll m (Some y) (succ k) ys" using n(4) by auto
    have ne: "x \<noteq> y" using assms(2) Cons by simp
    let ?m = "m(y \<mapsto> k\<lparr>prev := None\<rparr>, x \<mapsto> n\<lparr>succ := None, prev := None\<rparr>)"
    have "LL_REMOVE m x lst = Some (?m, Some y)"
      using n k ne by (simp add: LL_REMOVE_def set_prev_def set_succ_def)
    moreover have "dll ?m (Some y) (succ k) ys"
      using assms(2) Cons by (auto intro!: dll_frame [OF k(3)])
    then have "dll ?m None (Some y) xs" using Cons ne by simp
    moreover have "same_data m ?m" using n(2) k(2) ne by (auto simp: same_data_def)
    ultimately show ?thesis using Cons by auto
  qed
qed

subsection \<open>Segments, insertion and removal inside a list\<close>

text \<open>\<open>dseg m p l xs q r\<close>: the nodes \<open>xs\<close> lead from \<open>l\<close>, with predecessor \<open>p\<close>, to \<open>r\<close>, whose predecessor is
  then \<open>q\<close>.\<close>

fun dseg :: "'a store \<Rightarrow> nat option \<Rightarrow> nat option \<Rightarrow> nat list \<Rightarrow> nat option \<Rightarrow> nat option \<Rightarrow> bool" where
  "dseg m p l [] q r \<longleftrightarrow> l = r \<and> p = q"
| "dseg m p l (x # xs) q r \<longleftrightarrow> l = Some x \<and> (\<exists>n. m x = Some n \<and> prev n = p \<and> dseg m (Some x) (succ n) xs q r)"

lemma dll_append: "dll m p l (xs @ ys) \<longleftrightarrow> (\<exists>q r. dseg m p l xs q r \<and> dll m q r ys)"
  by (induction xs arbitrary: p l) auto

lemma dseg_append: "dseg m p l (xs @ ys) q r \<longleftrightarrow> (\<exists>q' r'. dseg m p l xs q' r' \<and> dseg m q' r' ys q r)"
  by (induction xs arbitrary: p l) auto

lemma dseg_other [simp]: "a \<notin> set xs \<Longrightarrow> dseg (m(a := v)) p l xs q r \<longleftrightarrow> dseg m p l xs q r"
  by (induction xs arbitrary: p l) auto

lemma dll_other [simp]: "a \<notin> set xs \<Longrightarrow> dll (m(a := v)) p l xs \<longleftrightarrow> dll m p l xs"
  by (induction xs arbitrary: p l) auto

lemma dll_head: "dll m p l xs \<Longrightarrow> l = (if xs = [] then None else Some (hd xs))"
  by (cases xs) auto

lemma dll_new_prev:
  assumes "dll m p l xs" "distinct xs"
  shows "dll (case l of None \<Rightarrow> m | Some a \<Rightarrow> m(a \<mapsto> (the (m a))\<lparr>prev := p'\<rparr>)) p' l xs"
  using assms by (cases xs) auto

text \<open>Linking \<open>t\<close> in after \<open>y\<close>.\<close>

lemma dll_insert_after:
  assumes "dll m p l (xs @ y # zs)" "distinct (xs @ y # zs)" "t \<notin> set (xs @ y # zs)" "m t = Some n" "m y = Some k"
  shows "dll ((case zs of [] \<Rightarrow> m | z # _ \<Rightarrow> m(z \<mapsto> (the (m z))\<lparr>prev := Some t\<rparr>))
      (y \<mapsto> k\<lparr>succ := Some t\<rparr>, t \<mapsto> n\<lparr>prev := Some y, succ := succ k\<rparr>)) p l (xs @ y # t # zs)"
  using assms by (cases zs) (auto simp: dll_append)

text \<open>Linking \<open>t\<close>, which follows \<open>y\<close>, out.\<close>

lemma dll_remove_after:
  assumes "dll m p l (xs @ y # t # zs)" "distinct (xs @ y # t # zs)" "m t = Some n" "m y = Some k"
  shows "dll ((case zs of [] \<Rightarrow> m | z # _ \<Rightarrow> m(z \<mapsto> (the (m z))\<lparr>prev := Some y\<rparr>))
      (y \<mapsto> k\<lparr>succ := succ n\<rparr>, t := v)) p l (xs @ y # zs)"
  using assms by (cases zs) (auto simp: dll_append)

end
