(* ===== verification/Task_Pool.thy ===== *)
theory Task_Pool
  imports Prelude "HOL-Library.Multiset"
begin

text \<open>
  The contract between the producers and the workers of a pool: tasks are put into and taken out
  of a container.  \<open>task_pool\<close> promises that nothing is lost and nothing is handed out twice,
  \<open>fifo_pool\<close> in addition that the oldest task comes first.  What a whole run of operations
  does follows once for every container; the containers of the repository (the pointer queue
  of the spinlock pool, the doubly linked list of the first pool, the ring buffer of the web
  server's log) are interpretations.
\<close>

inductive pool_run :: "('s \<Rightarrow> 't \<Rightarrow> bool) \<Rightarrow> ('s \<Rightarrow> 't \<Rightarrow> 's option) \<Rightarrow> ('s \<Rightarrow> ('t option \<times> 's) option) \<Rightarrow>
    's \<Rightarrow> 't list \<Rightarrow> 't list \<Rightarrow> 's \<Rightarrow> bool" for ready put take where
  run_start: "pool_run ready put take s [] [] s"
| run_put: "pool_run ready put take s ps ts s1 \<Longrightarrow> ready s1 t \<Longrightarrow> put s1 t = Some s2 \<Longrightarrow>
    pool_run ready put take s (ps @ [t]) ts s2"
| run_take: "pool_run ready put take s ps ts s1 \<Longrightarrow> take s1 = Some (Some t, s2) \<Longrightarrow>
    pool_run ready put take s ps (ts @ [t]) s2"
| run_miss: "pool_run ready put take s ps ts s1 \<Longrightarrow> take s1 = Some (None, s2) \<Longrightarrow>
    pool_run ready put take s ps ts s2"

locale task_pool =
  fixes content :: "'s \<Rightarrow> 't list \<Rightarrow> bool"
    and ready :: "'s \<Rightarrow> 't \<Rightarrow> bool"
    and put :: "'s \<Rightarrow> 't \<Rightarrow> 's option"
    and take :: "'s \<Rightarrow> ('t option \<times> 's) option"
  assumes put_ok: "content s xs \<Longrightarrow> ready s t \<Longrightarrow>
      \<exists>s' ys. put s t = Some s' \<and> content s' ys \<and> mset ys = add_mset t (mset xs)"
    and take_empty: "content s [] \<Longrightarrow> \<exists>s'. take s = Some (None, s') \<and> content s' []"
    and take_some: "content s xs \<Longrightarrow> xs \<noteq> [] \<Longrightarrow>
      \<exists>t s' ys. take s = Some (Some t, s') \<and> content s' ys \<and> mset xs = add_mset t (mset ys)"
begin

lemma take_cases:
  assumes "content s xs" "take s = Some (r, s')"
  obtains "r = None" "xs = []" "content s' []"
  | t ys where "r = Some t" "content s' ys" "mset xs = add_mset t (mset ys)"
  using take_empty [of s] take_some [OF assms(1)] assms by (cases "xs = []") force+

text \<open>Conservation: what was put is what was taken together with what is still there.\<close>

lemma run_conserves:
  "pool_run ready put take s ps ts s' \<Longrightarrow> content s xs \<Longrightarrow>
   \<exists>ys. content s' ys \<and> mset xs + mset ps = mset ts + mset ys"
proof (induction rule: pool_run.induct)
  case (run_start s)
  then show ?case by auto
next
  case (run_put s ps ts s1 t s2)
  then obtain ys where ys: "content s1 ys" "mset xs + mset ps = mset ts + mset ys" by blast
  from put_ok [OF ys(1) run_put.hyps(2)] run_put.hyps(3) show ?case using ys(2) by auto
next
  case (run_take s ps ts s1 t s2)
  then obtain ys where ys: "content s1 ys" "mset xs + mset ps = mset ts + mset ys" by blast
  from ys(1) run_take.hyps(2) show ?case by (rule take_cases) (use ys(2) in auto)
next
  case (run_miss s ps ts s1 s2)
  then obtain ys where ys: "content s1 ys" "mset xs + mset ps = mset ts + mset ys" by blast
  from ys(1) run_miss.hyps(2) show ?case by (rule take_cases) (use ys(2) in auto)
qed

end

locale fifo_pool =
  fixes content :: "'s \<Rightarrow> 't list \<Rightarrow> bool"
    and ready :: "'s \<Rightarrow> 't \<Rightarrow> bool"
    and put :: "'s \<Rightarrow> 't \<Rightarrow> 's option"
    and take :: "'s \<Rightarrow> ('t option \<times> 's) option"
  assumes put_last: "content s xs \<Longrightarrow> ready s t \<Longrightarrow> \<exists>s'. put s t = Some s' \<and> content s' (xs @ [t])"
    and take_none: "content s [] \<Longrightarrow> \<exists>s'. take s = Some (None, s') \<and> content s' []"
    and take_first: "content s (x # xs) \<Longrightarrow> \<exists>s'. take s = Some (Some x, s') \<and> content s' xs"
begin

text \<open>First in, first out, over a whole run.\<close>

lemma run_fifo:
  "pool_run ready put take s ps ts s' \<Longrightarrow> content s xs \<Longrightarrow> \<exists>ys. content s' ys \<and> xs @ ps = ts @ ys"
proof (induction rule: pool_run.induct)
  case (run_start s)
  then show ?case by auto
next
  case (run_put s ps ts s1 t s2)
  then obtain ys where ys: "content s1 ys" "xs @ ps = ts @ ys" by blast
  from put_last [OF ys(1) run_put.hyps(2)] run_put.hyps(3) have "content s2 (ys @ [t])" by auto
  then show ?case using ys(2) by (metis append_assoc)
next
  case (run_take s ps ts s1 t s2)
  then obtain ys where ys: "content s1 ys" "xs @ ps = ts @ ys" by blast
  then show ?case using take_none [of s1] take_first [of s1] run_take.hyps(2) by (cases ys) force+
next
  case (run_miss s ps ts s1 s2)
  then obtain ys where ys: "content s1 ys" "xs @ ps = ts @ ys" by blast
  then show ?case using take_none [of s1] take_first [of s1] run_miss.hyps(2) by (cases ys) force+
qed

end

sublocale fifo_pool \<subseteq> task_pool content ready put take
proof
  fix s xs t
  assume "content s xs" "ready s t"
  from put_last [OF this] obtain s' where "put s t = Some s'" "content s' (xs @ [t])" by blast
  then show "\<exists>s' ys. put s t = Some s' \<and> content s' ys \<and> mset ys = add_mset t (mset xs)"
    by (intro exI [of _ s'] exI [of _ "xs @ [t]"]) simp
next
  fix s xs
  assume a: "content s xs" "xs \<noteq> []"
  then obtain x ys where "xs = x # ys" by (cases xs) auto
  then show "\<exists>t s' ys. take s = Some (Some t, s') \<and> content s' ys \<and> mset xs = add_mset t (mset ys)"
    using take_first a by fastforce
qed (rule take_none)

end
