(* ===== verification/Pool1.thy ===== *)
theory Pool1
  imports LL Task_Pool
begin

text \<open>
  The first thread pool (\<open>system-programming/threadpool/version1/threadpool.c\<close>).  A pool is the
  two list heads with the stores their nodes live in, and the threads that wait on its condition
  variable.  Every section between \<open>pthread_mutex_lock\<close> and \<open>pthread_mutex_unlock\<close>
  is one operation, \<open>None\<close> is an access to a freed node, and the results of \<open>malloc\<close> and
  \<open>pthread_create\<close> are arguments.  Shown: pushing and taking conserve the tasks, newest
  first; creating a pool links one worker per thread that could be started; an idle worker spins;
  and destroying a pool whose workers run reads freed workers.
\<close>

subsection \<open>Data\<close>

record worker_t =
  thread_id :: nat
  terminated :: int

record task_t =
  task_func :: nat
  user_data :: nat

record thread_pool_t =
  workers :: "nat option"
  wmem :: "worker_t store"
  tasks :: "nat option"
  tmem :: "task_t store"
  waiters :: "nat list"

text \<open>\<open>pthread_cond_signal\<close> wakes one waiting thread; which one is up to the scheduler,
  here the number \<open>k\<close>.  \<open>pthread_cond_broadcast\<close> wakes them all.\<close>

definition cond_signal :: "nat \<Rightarrow> nat list \<Rightarrow> nat list" where
  "cond_signal k ws = (let i = k mod length ws in take i ws @ drop (Suc i) ws)"

subsection \<open>Operations\<close>

text \<open>One round of the outer loop of \<open>get_task\<close>: the thread waits on the condition
  variable, or \<open>NULL\<close> is returned, or a task, or the loop goes round again.\<close>

datatype round = Waits | Null_task | Got nat | Again

definition get_task :: "thread_pool_t \<Rightarrow> nat \<Rightarrow> (round \<times> thread_pool_t) option" where
  "get_task pool worker = do {
     w \<leftarrow> wmem pool worker;
     if workers pool = None \<and> terminated (data w) = 0
     then Some (Waits, pool\<lparr>waiters := waiters pool @ [worker]\<rparr>)
     else if terminated (data w) \<noteq> 0 then Some (Null_task, pool)
     else case tasks pool of
       None \<Rightarrow> Some (Again, pool)
     | Some task \<Rightarrow> do {
         (m, l) \<leftarrow> LL_REMOVE (tmem pool) task (tasks pool);
         Some (Got task, pool\<lparr>tmem := m, tasks := l\<rparr>)
       }
   }"

text \<open>What a worker does with the result: it runs the task, or frees its own node and exits.\<close>

datatype activity = Slept | Spun | Called nat nat | Exited

definition thread_callback :: "thread_pool_t \<Rightarrow> nat \<Rightarrow> (activity \<times> thread_pool_t) option" where
  "thread_callback pool worker = do {
     (r, pool) \<leftarrow> get_task pool worker;
     case r of
       Waits \<Rightarrow> Some (Slept, pool)
     | Again \<Rightarrow> Some (Spun, pool)
     | Null_task \<Rightarrow> Some (Exited, pool\<lparr>wmem := (wmem pool)(worker := None)\<rparr>)
     | Got task \<Rightarrow> do { t \<leftarrow> tmem pool task; Some (Called (task_func (data t)) task, pool) }
   }"

text \<open>One iteration of the creation loop.  \<open>mal\<close> is the result of \<open>malloc\<close>,
  \<open>tid\<close> the thread id, or \<open>None\<close> when \<open>pthread_create\<close> fails.  The thread runs from
  \<open>pthread_create\<close> on, before its worker is linked, so starting and linking are separate.\<close>

definition create_start :: "nat option \<Rightarrow> nat option \<Rightarrow> thread_pool_t \<Rightarrow> nat option \<times> thread_pool_t" where
  "create_start mal tid pool = (case mal of
     None \<Rightarrow> (None, pool)
   | Some worker \<Rightarrow> (case tid of
       None \<Rightarrow> (None, pool\<lparr>wmem := (wmem pool)(worker := None)\<rparr>)
     | Some t \<Rightarrow> (Some worker, pool\<lparr>wmem := (wmem pool)(worker \<mapsto>
         \<lparr>prev = None, succ = None, data = \<lparr>thread_id = t, terminated = 0\<rparr>\<rparr>)\<rparr>)))"

definition create_link :: "nat \<Rightarrow> thread_pool_t \<Rightarrow> thread_pool_t option" where
  "create_link worker pool = do {
     (m, l) \<leftarrow> LL_ADD (wmem pool) worker (workers pool);
     Some (pool\<lparr>wmem := m, workers := l\<rparr>)
   }"

primrec create_loop :: "nat \<Rightarrow> nat \<Rightarrow> (nat \<Rightarrow> nat option) \<Rightarrow> (nat \<Rightarrow> nat option) \<Rightarrow> thread_pool_t \<Rightarrow>
    (nat \<times> thread_pool_t) option" where
  "create_loop 0 idx mal tid pool = Some (idx, pool)"
| "create_loop (Suc n) idx mal tid pool = do {
     let (started, pool) = create_start (mal idx) (tid idx) pool;
     case started of
       None \<Rightarrow> Some (idx, pool)
     | Some worker \<Rightarrow> do {
         pool \<leftarrow> create_link worker pool;
         create_loop n (Suc idx) mal tid pool
       }
   }"

definition thread_pool_create :: "thread_pool_t \<Rightarrow> int \<Rightarrow> (nat \<Rightarrow> nat option) \<Rightarrow> (nat \<Rightarrow> nat option) \<Rightarrow>
    (nat \<times> thread_pool_t) option" where
  "thread_pool_create pool thread_num mal tid =
     (let thread_num = (if thread_num < 1 then 1 else thread_num);
          pool = pool\<lparr>workers := None, tasks := None, waiters := []\<rparr>
      in create_loop (nat thread_num) 0 mal tid pool)"

definition thread_pool_push_task :: "nat \<Rightarrow> thread_pool_t \<Rightarrow> nat \<Rightarrow> thread_pool_t option" where
  "thread_pool_push_task k pool task = do {
     (m, l) \<leftarrow> LL_ADD (tmem pool) task (tasks pool);
     Some (pool\<lparr>tmem := m, tasks := l, waiters := cond_signal k (waiters pool)\<rparr>)
   }"

text \<open>The loop of \<open>thread_destroy\<close> runs without the mutex, so its two accesses to a worker
  are separate: setting the flag, and reading the successor.\<close>

definition destroy_mark :: "thread_pool_t \<Rightarrow> nat \<Rightarrow> thread_pool_t option" where
  "destroy_mark pool worker = do {
     w \<leftarrow> wmem pool worker;
     Some (pool\<lparr>wmem := (wmem pool)(worker \<mapsto> w\<lparr>data := (data w)\<lparr>terminated := 1\<rparr>\<rparr>)\<rparr>)
   }"

definition destroy_next :: "thread_pool_t \<Rightarrow> nat \<Rightarrow> nat option option" where
  "destroy_next pool worker = do { w \<leftarrow> wmem pool worker; Some (succ w) }"

partial_function (option) destroy_walk :: "thread_pool_t \<Rightarrow> nat option \<Rightarrow> thread_pool_t option" where
  "destroy_walk pool cur = (case cur of
     None \<Rightarrow> Some pool
   | Some worker \<Rightarrow> do {
       pool \<leftarrow> destroy_mark pool worker;
       nxt \<leftarrow> destroy_next pool worker;
       destroy_walk pool nxt
     })"

definition thread_destroy :: "thread_pool_t \<Rightarrow> thread_pool_t option" where
  "thread_destroy pool = do {
     pool \<leftarrow> destroy_walk pool (workers pool);
     Some (pool\<lparr>waiters := []\<rparr>)
   }"

subsection \<open>Tasks\<close>

text \<open>The pool's task list, for a worker that is alive and has not been told to stop.\<close>

definition task_list :: "thread_pool_t \<Rightarrow> nat list \<Rightarrow> bool" where
  "task_list pool ts \<longleftrightarrow> dll (tmem pool) None (tasks pool) ts \<and> distinct ts"

definition active :: "thread_pool_t \<Rightarrow> nat \<Rightarrow> bool" where
  "active pool worker \<longleftrightarrow> workers pool \<noteq> None \<and>
     (case wmem pool worker of None \<Rightarrow> False | Some w \<Rightarrow> terminated (data w) = 0)"

definition unlinked :: "thread_pool_t \<Rightarrow> nat \<Rightarrow> bool" where
  "unlinked pool task \<longleftrightarrow> tmem pool task \<noteq> None \<and> (\<forall>ts. task_list pool ts \<longrightarrow> task \<notin> set ts)"

lemma push_ok:
  assumes "task_list pool ts" "task \<notin> set ts" "tmem pool task = Some n"
  shows "\<exists>m. thread_pool_push_task k pool task =
      Some (pool\<lparr>tmem := m, tasks := Some task, waiters := cond_signal k (waiters pool)\<rparr>) \<and>
    same_data (tmem pool) m \<and> dll m None (Some task) (task # ts) \<and>
    (\<forall>a. a \<notin> insert task (set ts) \<longrightarrow> m a = tmem pool a)"
proof -
  have d: "dll (tmem pool) None (tasks pool) ts" "distinct ts" using assms(1) by (auto simp: task_list_def)
  from LL_ADD_ok [OF d assms(2,3)] show ?thesis by (auto simp: thread_pool_push_task_def)
qed

lemma get_task_ok:
  assumes "active pool worker" "task_list pool ts"
  shows "case ts of
      [] \<Rightarrow> get_task pool worker = Some (Again, pool)
    | t # us \<Rightarrow> \<exists>m l. get_task pool worker = Some (Got t, pool\<lparr>tmem := m, tasks := l\<rparr>) \<and>
        same_data (tmem pool) m \<and> dll m None l us \<and> (\<forall>a. a \<notin> set ts \<longrightarrow> m a = tmem pool a)"
proof (cases ts)
  case Nil
  then show ?thesis using assms by (auto simp: get_task_def active_def task_list_def split: option.splits)
next
  case (Cons t us)
  then have d: "dll (tmem pool) None (tasks pool) (t # us)" "distinct (t # us)"
    using assms(2) by (auto simp: task_list_def)
  from LL_REMOVE_front [OF d] obtain m l where
    "LL_REMOVE (tmem pool) t (tasks pool) = Some (m, l)" "dll m None l us" "same_data (tmem pool) m"
    "\<forall>a. a \<notin> set (t # us) \<longrightarrow> m a = tmem pool a" by blast
  moreover have "tasks pool = Some t" using d(1) by simp
  ultimately show ?thesis using assms(1) Cons
    by (auto simp: get_task_def active_def split: option.splits)
qed

subsection \<open>The task pool interface\<close>

definition pool_content :: "nat \<Rightarrow> thread_pool_t \<Rightarrow> nat list \<Rightarrow> bool" where
  "pool_content worker pool ts \<longleftrightarrow> active pool worker \<and> task_list pool ts"

definition pool_take :: "nat \<Rightarrow> thread_pool_t \<Rightarrow> (nat option \<times> thread_pool_t) option" where
  "pool_take worker pool = do {
     (r, pool) \<leftarrow> get_task pool worker;
     Some (case r of Got t \<Rightarrow> Some t | _ \<Rightarrow> None, pool)
   }"

lemma active_upd [simp]:
  "active (pool\<lparr>tmem := m, tasks := l\<rparr>) worker = active pool worker"
  "active (pool\<lparr>tmem := m, tasks := l, waiters := v\<rparr>) worker = active pool worker"
  by (simp_all add: active_def)

interpretation pool1: task_pool "pool_content worker" unlinked "thread_pool_push_task k" "pool_take worker"
  for worker k
proof
  fix s xs t
  assume a: "pool_content worker s xs" "unlinked s t"
  then have ts: "task_list s xs" "t \<notin> set xs" by (auto simp: pool_content_def unlinked_def)
  obtain n where "tmem s t = Some n" using a(2) by (auto simp: unlinked_def)
  from push_ok [OF ts this, of k] show "\<exists>s' ys. thread_pool_push_task k s t = Some s' \<and>
      pool_content worker s' ys \<and> mset ys = add_mset t (mset xs)"
    using a(1) ts by (auto simp: pool_content_def task_list_def intro!: exI [of _ "t # xs"])
next
  fix s
  assume "pool_content worker s []"
  then show "\<exists>s'. pool_take worker s = Some (None, s') \<and> pool_content worker s' []"
    using get_task_ok [of s worker "[]"] by (auto simp: pool_content_def pool_take_def)
next
  fix s xs
  assume a: "pool_content worker s xs" "xs \<noteq> []"
  then obtain t us where xs: "xs = t # us" by (cases xs) auto
  from get_task_ok [of s worker xs] a xs show "\<exists>t s' ys. pool_take worker s = Some (Some t, s') \<and>
      pool_content worker s' ys \<and> mset xs = add_mset t (mset ys)"
    by (auto simp: pool_content_def pool_take_def task_list_def intro!: exI [of _ us])
qed

subsection \<open>Workers\<close>

text \<open>The worker list with the flag of every worker on it.\<close>

definition worker_list :: "thread_pool_t \<Rightarrow> nat list \<Rightarrow> int \<Rightarrow> bool" where
  "worker_list pool ws f \<longleftrightarrow> dll (wmem pool) None (workers pool) ws \<and> distinct ws \<and>
     (\<forall>w. w \<in> set ws \<longrightarrow> (\<exists>n. wmem pool w = Some n \<and> terminated (data n) = f))"

text \<open>From the call number \<open>idx\<close> on, \<open>malloc\<close> returns distinct addresses that are not in use.\<close>

definition fresh_addrs :: "(nat \<Rightarrow> nat option) \<Rightarrow> nat \<Rightarrow> nat set \<Rightarrow> bool" where
  "fresh_addrs mal idx used \<longleftrightarrow> (\<forall>i x. idx \<le> i \<and> mal i = Some x \<longrightarrow>
     x \<notin> used \<and> (\<forall>j. idx \<le> j \<and> mal j = Some x \<longrightarrow> j = i))"

lemma fresh_addrs_Suc:
  assumes "fresh_addrs mal idx used" "mal idx = Some w"
    "set ws = used"
  shows "fresh_addrs mal (Suc idx) (set (w # ws))"
  unfolding fresh_addrs_def
proof (intro allI impI conjI)
  fix i x
  assume i: "Suc idx \<le> i \<and> mal i = Some x"
  then have x: "x \<notin> used" "\<forall>j. idx \<le> j \<and> mal j = Some x \<longrightarrow> j = i"
    using assms(1) unfolding fresh_addrs_def by (meson Suc_leD)+
  then show "x \<notin> set (w # ws)" using assms(2,3) i by force
  fix j
  assume "Suc idx \<le> j \<and> mal j = Some x"
  then show "j = i" using x(2) by simp
qed

lemma same_data_flag:
  assumes "same_data m m'" "m a = Some n"
  shows "\<exists>n'. m' a = Some n' \<and> data n' = data n"
proof -
  have "map_option data (m' a) = Some (data n)" using assms by (simp add: same_data_def)
  then show ?thesis by auto
qed

lemma create_start_ok:
  assumes "worker_list pool ws f" "w \<notin> set ws"
  shows "\<exists>m n. create_start (Some w) (Some t) pool = (Some w, pool\<lparr>wmem := m\<rparr>) \<and>
    worker_list (pool\<lparr>wmem := m\<rparr>) ws f \<and> m w = Some n \<and> terminated (data n) = 0 \<and>
    (\<forall>a. a \<noteq> w \<longrightarrow> m a = wmem pool a)"
  using assms by (auto simp: create_start_def worker_list_def intro!: dll_frame [of "wmem pool"])

lemma create_link_ok:
  assumes "worker_list pool ws f" "w \<notin> set ws" "wmem pool w = Some n" "terminated (data n) = f"
  shows "\<exists>m. create_link w pool = Some (pool\<lparr>wmem := m, workers := Some w\<rparr>) \<and>
    worker_list (pool\<lparr>wmem := m, workers := Some w\<rparr>) (w # ws) f \<and> same_data (wmem pool) m"
proof -
  have "dll (wmem pool) None (workers pool) ws" "distinct ws" using assms by (auto simp: worker_list_def)
  from LL_ADD_ok [OF this assms(2,3)] obtain m where
    m: "LL_ADD (wmem pool) w (workers pool) = Some (m, Some w)" "dll m None (Some w) (w # ws)"
    "same_data (wmem pool) m" by auto
  have "\<exists>n. m x = Some n \<and> terminated (data n) = f" if "x \<in> set (w # ws)" for x
  proof -
    have "\<exists>k. wmem pool x = Some k \<and> terminated (data k) = f" using that assms by (auto simp: worker_list_def)
    then show ?thesis using same_data_flag [OF m(3)] by fastforce
  qed
  then show ?thesis using m assms(1,2) by (auto simp: create_link_def worker_list_def)
qed

lemma create_one_ok:
  assumes "worker_list pool ws 0" "w \<notin> set ws"
  shows "\<exists>m. (let (started, pool) = create_start (Some w) (Some t) pool in create_link w pool) =
      Some (pool\<lparr>wmem := m, workers := Some w\<rparr>) \<and> fst (create_start (Some w) (Some t) pool) = Some w \<and>
    worker_list (pool\<lparr>wmem := m, workers := Some w\<rparr>) (w # ws) 0"
proof -
  from create_start_ok [OF assms, of t] obtain m n where
    m: "create_start (Some w) (Some t) pool = (Some w, pool\<lparr>wmem := m\<rparr>)"
    "worker_list (pool\<lparr>wmem := m\<rparr>) ws 0" "m w = Some n" "terminated (data n) = 0" by blast
  from create_link_ok [OF m(2) assms(2), of n] m(1,3,4) show ?thesis by auto
qed

lemma create_loop_ok:
  assumes "worker_list pool ws 0" "fresh_addrs mal idx (set ws)"
    "\<forall>i. idx \<le> i \<and> i < k \<longrightarrow> mal i \<noteq> None \<and> tid i \<noteq> None"
    "idx \<le> k" "k = idx + n \<or> k < idx + n \<and> (mal k = None \<or> tid k = None)"
  shows "\<exists>pool'. create_loop n idx mal tid pool = Some (k, pool') \<and>
    worker_list pool' (rev (map (\<lambda>i. the (mal i)) [idx..<k]) @ ws) 0 \<and> tasks pool' = tasks pool"
  using assms
proof (induction n arbitrary: idx pool ws)
  case 0
  then show ?case by auto
next
  case (Suc n)
  show ?case
  proof (cases "idx < k")
    case True
    then obtain w t where w: "mal idx = Some w" "tid idx = Some t" using Suc.prems(3) by fastforce
    then have nw: "w \<notin> set ws" using Suc.prems(2) by (auto simp: fresh_addrs_def)
    from create_one_ok [OF Suc.prems(1) nw, of t] obtain m where
      m: "(let (started, pool) = create_start (Some w) (Some t) pool in create_link w pool) =
        Some (pool\<lparr>wmem := m, workers := Some w\<rparr>)" "fst (create_start (Some w) (Some t) pool) = Some w"
      "worker_list (pool\<lparr>wmem := m, workers := Some w\<rparr>) (w # ws) 0" by blast
    note fr = fresh_addrs_Suc [OF Suc.prems(2) w(1) refl]
    have c: "\<forall>i. Suc idx \<le> i \<and> i < k \<longrightarrow> mal i \<noteq> None \<and> tid i \<noteq> None" "Suc idx \<le> k"
      "k = Suc idx + n \<or> k < Suc idx + n \<and> (mal k = None \<or> tid k = None)"
      using Suc.prems(3-5) True by (auto simp del: not_None_eq)
    obtain pool' where
      "create_loop n (Suc idx) mal tid (pool\<lparr>wmem := m, workers := Some w\<rparr>) = Some (k, pool')"
      "worker_list pool' (rev (map (\<lambda>i. the (mal i)) [Suc idx..<k]) @ w # ws) 0"
      "tasks pool' = tasks (pool\<lparr>wmem := m, workers := Some w\<rparr>)"
      using Suc.IH [OF m(3) fr c] by blast
    then show ?thesis using True w m(1,2) by (simp add: upt_conv_Cons Let_def split: prod.splits)
  next
    case False
    then have k: "k = idx" "mal idx = None \<or> tid idx = None" using Suc.prems(4,5) by auto
    have "worker_list (pool\<lparr>wmem := (wmem pool)(x := None)\<rparr>) ws 0" if "mal idx = Some x" for x
    proof -
      have "x \<notin> set ws" using that Suc.prems(2) unfolding fresh_addrs_def by blast
      then show ?thesis using Suc.prems(1) by (auto simp: worker_list_def intro!: dll_frame [of "wmem pool"])
    qed
    then show ?thesis using k Suc.prems(1)
      by (auto simp: create_start_def split: option.splits)
  qed
qed

lemma destroy_mark_ok:
  assumes "wmem pool w = Some n"
  shows "destroy_mark pool w =
      Some (pool\<lparr>wmem := (wmem pool)(w \<mapsto> n\<lparr>data := (data n)\<lparr>terminated := 1\<rparr>\<rparr>)\<rparr>)"
  using assms by (simp add: destroy_mark_def)

lemma destroy_walk_ok:
  assumes "dll (wmem pool) p cur ws" "distinct ws"
  shows "\<exists>m. destroy_walk pool cur = Some (pool\<lparr>wmem := m\<rparr>) \<and> dll m p cur ws \<and>
    (\<forall>w. w \<in> set ws \<longrightarrow> (\<exists>n. m w = Some n \<and> terminated (data n) = 1)) \<and>
    (\<forall>w. w \<notin> set ws \<longrightarrow> m w = wmem pool w)"
  using assms
proof (induction ws arbitrary: pool p cur)
  case Nil
  then show ?case by (auto simp: destroy_walk.simps intro!: exI [of _ "wmem pool"])
next
  case (Cons w ws)
  then obtain n where n: "cur = Some w" "wmem pool w = Some n" "prev n = p" "dll (wmem pool) (Some w) (succ n) ws"
    by auto
  let ?n = "n\<lparr>data := (data n)\<lparr>terminated := 1\<rparr>\<rparr>"
  let ?pool = "pool\<lparr>wmem := (wmem pool)(w \<mapsto> ?n)\<rparr>"
  have "dll (wmem ?pool) (Some w) (succ n) ws" "distinct ws"
    using n(4) Cons.prems(2) by (auto intro!: dll_frame [of "wmem pool"])
  from Cons.IH [OF this] obtain m where
    m: "destroy_walk ?pool (succ n) = Some (?pool\<lparr>wmem := m\<rparr>)" "dll m (Some w) (succ n) ws"
    "\<forall>x. x \<in> set ws \<longrightarrow> (\<exists>n. m x = Some n \<and> terminated (data n) = 1)"
    "\<forall>x. x \<notin> set ws \<longrightarrow> m x = wmem ?pool x" by blast
  have mw: "m w = Some ?n" using m(4) Cons.prems(2) by simp
  have "destroy_walk pool cur = Some (pool\<lparr>wmem := m\<rparr>)"
    using n m(1) by (subst destroy_walk.simps) (simp add: destroy_mark_def destroy_next_def)
  then show ?case using m mw n by (intro exI [of _ m]) auto
qed

lemma thread_destroy_ok:
  assumes "worker_list pool ws f"
  shows "\<exists>m. thread_destroy pool = Some (pool\<lparr>wmem := m, waiters := []\<rparr>) \<and>
    worker_list (pool\<lparr>wmem := m, waiters := []\<rparr>) ws 1"
  using destroy_walk_ok [of pool None "workers pool" ws] assms
  by (auto simp: thread_destroy_def worker_list_def)

lemma stopped_exits:
  assumes "wmem pool w = Some n" "terminated (data n) \<noteq> 0"
  shows "thread_callback pool w = Some (Exited, pool\<lparr>wmem := (wmem pool)(w := None)\<rparr>)"
  using assms by (simp add: thread_callback_def get_task_def)

text \<open>While the pool has workers, no worker ever waits: an idle worker goes round again.\<close>

lemma get_task_never_waits:
  "get_task pool w = Some (r, pool') \<Longrightarrow> workers pool \<noteq> None \<Longrightarrow> r \<noteq> Waits"
  by (auto simp: get_task_def bind_eq_Some_conv split: if_splits option.splits prod.splits)

subsection \<open>Properties\<close>

text \<open>
  No task is lost and none is handed out twice: after any sequence of pushes and of rounds of
  a running worker, the tasks pushed are exactly the tasks taken together with those that
  are still linked in the pool, whatever threads the signals wake.
\<close>

theorem pool_conserves_tasks:
  assumes "pool_run unlinked (thread_pool_push_task k) (pool_take worker) pool pushed taken pool'"
    "active pool worker" "task_list pool ts"
  shows "\<exists>us. task_list pool' us \<and> mset ts + mset pushed = mset taken + mset us"
  using pool1.run_conserves [OF assms(1), of ts] assms(2,3) by (auto simp: pool_content_def)

definition one_worker :: thread_pool_t where
  "one_worker = \<lparr>workers = Some 0,
     wmem = [0 \<mapsto> \<lparr>prev = None, succ = None, data = \<lparr>thread_id = 7, terminated = 0\<rparr>\<rparr>],
     tasks = None, tmem = [5 \<mapsto> \<lparr>prev = None, succ = None, data = \<lparr>task_func = 1, user_data = 2\<rparr>\<rparr>],
     waiters = []\<rparr>"

theorem pool_conserves_tasks_witness:
  "\<exists>pool'. pool_run unlinked (thread_pool_push_task 0) (pool_take 0) one_worker [5] [5] pool' \<and>
     (\<exists>us. task_list pool' us \<and> mset [] + mset [5] = mset [5] + mset us)"
proof -
  have t: "task_list one_worker []" by (simp add: one_worker_def task_list_def)
  then have u: "unlinked one_worker 5"
    by (auto simp: unlinked_def one_worker_def task_list_def elim: dll.elims)
  obtain p1 where p1: "thread_pool_push_task 0 one_worker 5 = Some p1" "tasks p1 = Some 5"
      "\<exists>p2. pool_take 0 p1 = Some (Some 5, p2)"
    by (simp add: thread_pool_push_task_def one_worker_def LL_ADD_def set_prev_def set_succ_def
        pool_take_def get_task_def LL_REMOVE_def)
  then obtain p2 where p2: "pool_take 0 p1 = Some (Some 5, p2)" by blast
  have "pool_run unlinked (thread_pool_push_task 0) (pool_take 0) one_worker [5] [] p1"
    using run_put [of unlinked "thread_pool_push_task 0" "pool_take 0" one_worker "[]" "[]" one_worker 5 p1] u p1(1)
    by (simp add: run_start)
  from run_take [OF this p2] have r: "pool_run unlinked (thread_pool_push_task 0) (pool_take 0) one_worker [5] [5] p2"
    by simp
  have "active one_worker 0" by (simp add: active_def one_worker_def)
  from pool_conserves_tasks [OF r this t] show ?thesis using r by blast
qed

text \<open>
  The pool is a stack, although its source calls it a queue: the task pushed last is the task
  the next running worker gets, and the pool is back to the tasks it had before.
\<close>

theorem push_get_is_lifo:
  assumes "active pool worker" "task_list pool ts" "tmem pool task = Some n" "task \<notin> set ts"
  shows "\<exists>pool1 pool2. thread_pool_push_task k pool task = Some pool1 \<and>
    get_task pool1 worker = Some (Got task, pool2) \<and> task_list pool2 ts \<and> same_data (tmem pool) (tmem pool2)"
proof -
  from push_ok [OF assms(2,4,3), of k] obtain m where
    m: "thread_pool_push_task k pool task = Some (pool\<lparr>tmem := m, tasks := Some task, waiters := cond_signal k (waiters pool)\<rparr>)"
    "same_data (tmem pool) m" "dll m None (Some task) (task # ts)" by blast
  let ?p = "pool\<lparr>tmem := m, tasks := Some task, waiters := cond_signal k (waiters pool)\<rparr>"
  have "active ?p worker" "task_list ?p (task # ts)" using assms m(3) by (auto simp: task_list_def)
  from get_task_ok [OF this] show ?thesis using m(1,2) assms(2)
    by (auto simp: task_list_def intro: same_data_trans)
qed

theorem push_get_is_lifo_witness:
  "\<exists>pool1 pool2. thread_pool_push_task 0 one_worker 5 = Some pool1 \<and>
    get_task pool1 0 = Some (Got 5, pool2) \<and> task_list pool2 [] \<and> same_data (tmem one_worker) (tmem pool2)"
  by (rule push_get_is_lifo) (auto simp: one_worker_def active_def task_list_def)

text \<open>
  \<open>thread_pool_create\<close> returns the number of threads it could start: with \<open>k\<close> the
  first call whose allocation or thread creation fails (or the requested number, at least
  one, when none fails) exactly the first \<open>k\<close> workers are linked, the newest first, none of
  them told to stop, and the pool has no tasks.
\<close>

theorem create_links_started_workers:
  assumes "fresh_addrs mal 0 {}" "n = nat (max 1 thread_num)"
    "\<forall>i. i < k \<longrightarrow> mal i \<noteq> None \<and> tid i \<noteq> None"
    "k = n \<or> k < n \<and> (mal k = None \<or> tid k = None)"
  shows "\<exists>pool'. thread_pool_create pool thread_num mal tid = Some (k, pool') \<and>
    worker_list pool' (rev (map (\<lambda>i. the (mal i)) [0..<k])) 0 \<and> task_list pool' []"
proof -
  let ?p = "pool\<lparr>workers := None, tasks := None, waiters := []\<rparr>"
  have "worker_list ?p [] 0" by (simp add: worker_list_def)
  moreover have "thread_pool_create pool thread_num mal tid = create_loop n 0 mal tid ?p"
    using assms(2) by (simp add: thread_pool_create_def Let_def max_def)
  ultimately show ?thesis
    using create_loop_ok [of ?p "[]" mal 0 k tid n] assms by (auto simp: task_list_def simp del: not_None_eq)
qed

theorem create_links_started_workers_witness:
  "\<exists>pool'. thread_pool_create one_worker 10 (\<lambda>i. Some (100 + i)) (\<lambda>i. if i = 2 then None else Some i) = Some (2, pool') \<and>
    worker_list pool' (rev (map (\<lambda>i. the (Some (100 + i))) [0..<2])) 0 \<and> task_list pool' []"
  by (rule create_links_started_workers [where n = 10]) (auto simp: fresh_addrs_def)

text \<open>
  Destroying a pool in which no worker runs meanwhile tells every worker to stop, and each
  worker then frees its own node and exits.  The nodes stay linked, so destroying the pool
  again reads freed memory.
\<close>

theorem destroy_stops_workers:
  assumes "worker_list pool ws 0" "w \<in> set ws"
  shows "\<exists>pool1 pool2. thread_destroy pool = Some pool1 \<and> worker_list pool1 ws 1 \<and>
    thread_callback pool1 w = Some (Exited, pool2) \<and> wmem pool2 w = None \<and>
    (w = hd ws \<longrightarrow> thread_destroy pool2 = None)"
proof -
  from thread_destroy_ok [OF assms(1)] obtain m where
    d: "thread_destroy pool = Some (pool\<lparr>wmem := m, waiters := []\<rparr>)"
    "worker_list (pool\<lparr>wmem := m, waiters := []\<rparr>) ws 1" by blast
  let ?p = "pool\<lparr>wmem := m, waiters := []\<rparr>"
  from d(2) assms(2) obtain n where "wmem ?p w = Some n" "terminated (data n) \<noteq> 0"
    by (fastforce simp: worker_list_def)
  from stopped_exits [OF this] have e:
    "thread_callback ?p w = Some (Exited, ?p\<lparr>wmem := m(w := None)\<rparr>)" by simp
  have "workers pool = Some w" if "w = hd ws"
    using that d(2) assms(2) by (cases ws) (auto simp: worker_list_def)
  then have "thread_destroy (?p\<lparr>wmem := m(w := None)\<rparr>) = None" if "w = hd ws"
    using that by (simp add: thread_destroy_def destroy_mark_def destroy_walk.simps [of _ "Some (hd ws)"])
  then show ?thesis using d e by auto
qed

theorem destroy_stops_workers_witness:
  "\<exists>pool1 pool2. thread_destroy one_worker = Some pool1 \<and> worker_list pool1 [0] 1 \<and>
    thread_callback pool1 0 = Some (Exited, pool2) \<and> wmem pool2 0 = None \<and> thread_destroy pool2 = None"
proof -
  have "worker_list one_worker [0] 0" "0 \<in> set [0 :: nat]" by (auto simp: worker_list_def one_worker_def)
  from destroy_stops_workers [OF this] show ?thesis by simp
qed

end
