(* ===== verification/Pool2.thy ===== *)
theory Pool2
  imports Pool1
begin

text \<open>
  The second thread pool (\<open>system-programming/threadpool/version2/threadpool.c\<close>), one file with
  the pool and a program that uses it.  The pool's operations are those of the first version
  under other names, which is proved.  The program is a transition system of the main
  thread and its workers: the main thread creates the pool, pushes a thousand tasks that print a
  number and free themselves, and destroys the pool, while the workers run.  Shown for
  every interleaving: each number is printed at most once and none is lost, no task is used after
  it is freed and nothing crashes before the pool is destroyed; and destroying the pool can read a
  worker that has already freed itself.
\<close>

subsection \<open>The operations\<close>

definition get_task_v2 :: "thread_pool_t \<Rightarrow> nat \<Rightarrow> (round \<times> thread_pool_t) option" where
  "get_task_v2 thread_poll worker = do {
     w \<leftarrow> wmem thread_poll worker;
     if workers thread_poll = None \<and> terminated (data w) = 0
     then Some (Waits, thread_poll\<lparr>waiters := waiters thread_poll @ [worker]\<rparr>)
     else if terminated (data w) \<noteq> 0 then Some (Null_task, thread_poll)
     else (let task = tasks thread_poll in
       case task of
         None \<Rightarrow> Some (Again, thread_poll)
       | Some t \<Rightarrow> do {
           (m, l) \<leftarrow> LL_REMOVE (tmem thread_poll) t (tasks thread_poll);
           Some (Got t, thread_poll\<lparr>tmem := m, tasks := l\<rparr>)
         })
   }"

definition thread_callback_v2 :: "thread_pool_t \<Rightarrow> nat \<Rightarrow> (activity \<times> thread_pool_t) option" where
  "thread_callback_v2 thread_poll worker = do {
     (r, thread_poll) \<leftarrow> get_task_v2 thread_poll worker;
     case r of
       Waits \<Rightarrow> Some (Slept, thread_poll)
     | Again \<Rightarrow> Some (Spun, thread_poll)
     | Null_task \<Rightarrow> Some (Exited, thread_poll\<lparr>wmem := (wmem thread_poll)(worker := None)\<rparr>)
     | Got task \<Rightarrow> do { t \<leftarrow> tmem thread_poll task; Some (Called (task_func (data t)) task, thread_poll) }
   }"

primrec poll_create_loop :: "nat \<Rightarrow> nat \<Rightarrow> (nat \<Rightarrow> nat option) \<Rightarrow> (nat \<Rightarrow> nat option) \<Rightarrow> thread_pool_t \<Rightarrow>
    (nat \<times> thread_pool_t) option" where
  "poll_create_loop 0 idx mal tid poll = Some (idx, poll)"
| "poll_create_loop (Suc n) idx mal tid poll = (case create_start (mal idx) (tid idx) poll of
     (None, poll) \<Rightarrow> Some (idx, poll)
   | (Some worker, poll) \<Rightarrow> do {
       poll \<leftarrow> create_link worker poll;
       poll_create_loop n (Suc idx) mal tid poll
     })"

definition thread_poll_create :: "thread_pool_t \<Rightarrow> int \<Rightarrow> (nat \<Rightarrow> nat option) \<Rightarrow> (nat \<Rightarrow> nat option) \<Rightarrow>
    (nat \<times> thread_pool_t) option" where
  "thread_poll_create poll thread_num mal tid =
     (let thread_num = (if thread_num < 1 then 1 else thread_num);
          poll = poll\<lparr>workers := None, tasks := None, waiters := []\<rparr>
      in poll_create_loop (nat thread_num) 0 mal tid poll)"

definition thread_poll_push_task :: "nat \<Rightarrow> thread_pool_t \<Rightarrow> nat \<Rightarrow> thread_pool_t option" where
  "thread_poll_push_task k thread_poll task = do {
     (m, l) \<leftarrow> LL_ADD (tmem thread_poll) task (tasks thread_poll);
     Some (thread_poll\<lparr>tmem := m, tasks := l, waiters := cond_signal k (waiters thread_poll)\<rparr>)
   }"

definition thread_destroy_v2 :: "thread_pool_t \<Rightarrow> thread_pool_t option" where
  "thread_destroy_v2 thread_poll = do {
     thread_poll \<leftarrow> destroy_walk thread_poll (workers thread_poll);
     Some (thread_poll\<lparr>waiters := []\<rparr>)
   }"

subsection \<open>The program\<close>

definition THREAD_COUNT :: nat where "THREAD_COUNT = 10"
definition TASK_COUNT :: nat where "TASK_COUNT = 1000"

text \<open>Where the main thread is: creating the \<open>n\<close>-th worker, linking a worker whose thread runs
  already, pushing the \<open>n\<close>-th task, waiting for a key, or in the loop of \<open>thread_destroy\<close>,
  about to set a worker's flag or to read its successor; \<open>True\<close> marks the call after a
  failed creation, after which the program goes on.\<close>

datatype main_pc = Create nat | Link nat nat | Push nat | Key | Mark "nat option" bool | Next nat bool | Halt

record prog =
  pool :: thread_pool_t
  ints :: "nat \<Rightarrow> int option"
  idle :: "nat list"
  busy :: "(nat \<times> nat) list"
  printed :: "int list"
  pushed :: nat
  pc :: main_pc

text \<open>The function of every task: it prints the number and frees it and the task.\<close>

definition counter :: "prog \<Rightarrow> nat \<Rightarrow> prog option" where
  "counter s task = do {
     t \<leftarrow> tmem (pool s) task;
     idx \<leftarrow> ints s (user_data (data t));
     Some (s\<lparr>printed := printed s @ [idx], ints := (ints s)(user_data (data t) := None),
       pool := (pool s)\<lparr>tmem := (tmem (pool s))(task := None)\<rparr>\<rparr>)
   }"

text \<open>One step of the main thread; \<open>mal\<close> and \<open>mal2\<close> are the results of its calls of
  \<open>malloc\<close>, \<open>tid\<close> that of \<open>pthread_create\<close>.\<close>

definition new_task :: "nat \<Rightarrow> task_t node" where
  "new_task d = \<lparr>prev = None, succ = None, data = \<lparr>task_func = 0, user_data = d\<rparr>\<rparr>"

definition main_step :: "nat option \<Rightarrow> nat option \<Rightarrow> nat option \<Rightarrow> nat \<Rightarrow> prog \<Rightarrow> prog option" where
  "main_step mal mal2 tid k s = (case pc s of
     Create i \<Rightarrow>
       if i < THREAD_COUNT
       then (case create_start mal tid (pool s) of
           (None, p) \<Rightarrow> Some (s\<lparr>pool := p, pc := Mark (workers p) True\<rparr>)
         | (Some w, p) \<Rightarrow> Some (s\<lparr>pool := p, idle := w # idle s, pc := Link w i\<rparr>))
       else Some (s\<lparr>pc := Push 0\<rparr>)
   | Link w i \<Rightarrow> do { p \<leftarrow> create_link w (pool s); Some (s\<lparr>pool := p, pc := Create (Suc i)\<rparr>) }
   | Push i \<Rightarrow>
       if i < TASK_COUNT
       then (case mal of
           None \<Rightarrow> Some (s\<lparr>pc := Halt\<rparr>)
         | Some task \<Rightarrow> do {
             d \<leftarrow> mal2;
             p \<leftarrow> thread_poll_push_task k ((pool s)\<lparr>tmem := (tmem (pool s))(task \<mapsto> new_task d)\<rparr>) task;
             Some (s\<lparr>pool := p, ints := (ints s)(d \<mapsto> int i), pushed := Suc i, pc := Push (Suc i)\<rparr>)
           })
       else Some (s\<lparr>pc := Key\<rparr>)
   | Key \<Rightarrow> Some (s\<lparr>pc := Mark (workers (pool s)) False\<rparr>)
   | Mark None early \<Rightarrow>
       Some (s\<lparr>pool := (pool s)\<lparr>waiters := []\<rparr>, pc := (if early then Push 0 else Halt)\<rparr>)
   | Mark (Some w) early \<Rightarrow> do { p \<leftarrow> destroy_mark (pool s) w; Some (s\<lparr>pool := p, pc := Next w early\<rparr>) }
   | Next w early \<Rightarrow> do { c \<leftarrow> destroy_next (pool s) w; Some (s\<lparr>pc := Mark c early\<rparr>) }
   | Halt \<Rightarrow> Some s)"

text \<open>One step of a worker thread in \<open>get_task\<close>, and of one that runs a task.\<close>

definition idle_step :: "nat \<Rightarrow> prog \<Rightarrow> prog option" where
  "idle_step w s = do {
     (a, p) \<leftarrow> thread_callback_v2 (pool s) w;
     case a of
       Called f task \<Rightarrow> Some (s\<lparr>pool := p, idle := remove1 w (idle s), busy := (w, task) # busy s\<rparr>)
     | Exited \<Rightarrow> Some (s\<lparr>pool := p, idle := remove1 w (idle s)\<rparr>)
     | _ \<Rightarrow> Some (s\<lparr>pool := p\<rparr>)
   }"

definition busy_step :: "nat \<Rightarrow> nat \<Rightarrow> prog \<Rightarrow> prog option" where
  "busy_step w task s = do {
     s \<leftarrow> counter s task;
     Some (s\<lparr>busy := remove1 (w, task) (busy s), idle := w # idle s\<rparr>)
   }"

definition program_start :: prog where
  "program_start = \<lparr>pool = \<lparr>workers = None, wmem = Map.empty, tasks = None, tmem = Map.empty, waiters = []\<rparr>,
     ints = Map.empty, idle = [], busy = [], printed = [], pushed = 0, pc = Create 0\<rparr>"

text \<open>An allocation is fresh when nothing live has its address.\<close>

definition fresh_alloc :: "prog \<Rightarrow> nat option \<Rightarrow> nat option \<Rightarrow> bool" where
  "fresh_alloc s mal mal2 \<longleftrightarrow>
     (\<forall>a. mal = Some a \<longrightarrow> tmem (pool s) a = None \<and> wmem (pool s) a = None) \<and>
     (\<forall>a. mal2 = Some a \<longrightarrow> ints s a = None)"

text \<open>The interleaved execution; the state \<open>None\<close> is a crash.\<close>

inductive prog_step :: "prog option \<Rightarrow> prog option \<Rightarrow> bool" where
  step_main: "pc s \<noteq> Halt \<Longrightarrow> fresh_alloc s mal mal2 \<Longrightarrow> prog_step (Some s) (main_step mal mal2 tid k s)"
| step_idle: "pc s \<noteq> Halt \<Longrightarrow> w \<in> set (idle s) \<Longrightarrow> w \<notin> set (waiters (pool s)) \<Longrightarrow>
    prog_step (Some s) (idle_step w s)"
| step_busy: "pc s \<noteq> Halt \<Longrightarrow> (w, task) \<in> set (busy s) \<Longrightarrow> prog_step (Some s) (busy_step w task s)"

inductive_cases prog_stepE: "prog_step (Some s) s'"

subsection \<open>Version two is version one\<close>

lemma v2_same [simp]:
  "get_task_v2 = get_task" "thread_callback_v2 = thread_callback"
  "thread_poll_push_task = thread_pool_push_task" "thread_destroy_v2 = thread_destroy"
proof -
  show g: "get_task_v2 = get_task" by (intro ext) (simp only: get_task_v2_def get_task_def Let_def)
  show "thread_callback_v2 = thread_callback"
    by (intro ext) (simp add: thread_callback_v2_def thread_callback_def g)
qed (intro ext, simp add: thread_poll_push_task_def thread_pool_push_task_def thread_destroy_v2_def thread_destroy_def)+

lemma create_v2_same [simp]: "thread_poll_create = thread_pool_create"
proof -
  have "poll_create_loop n = create_loop n" for n
    by (induction n) (auto intro!: ext split: prod.splits option.splits)
  then show ?thesis by (intro ext) (simp add: thread_poll_create_def thread_pool_create_def)
qed

subsection \<open>Tasks in flight\<close>

text \<open>The address of a task's number, and the number; \<open>owned\<close> says that the tasks of a list are
  allocated and own distinct allocated numbers.\<close>

definition ud :: "task_t store \<Rightarrow> nat \<Rightarrow> nat option" where
  "ud tm t = map_option (\<lambda>n. user_data (data n)) (tm t)"

definition val :: "task_t store \<Rightarrow> (nat \<Rightarrow> int option) \<Rightarrow> nat \<Rightarrow> int" where
  "val tm im t = the (im (the (ud tm t)))"

definition owned :: "task_t store \<Rightarrow> (nat \<Rightarrow> int option) \<Rightarrow> nat list \<Rightarrow> bool" where
  "owned tm im ts \<longleftrightarrow> distinct ts \<and> inj_on (ud tm) (set ts) \<and>
     (\<forall>t\<in>set ts. \<exists>d v. ud tm t = Some d \<and> im d = Some v)"

lemma ud_same: "same_data tm tm' \<Longrightarrow> ud tm' = ud tm"
proof
  fix t
  assume "same_data tm tm'"
  then have "map_option user_data (map_option data (tm' t)) = map_option user_data (map_option data (tm t))"
    by (simp add: same_data_def)
  then show "ud tm' t = ud tm t" by (simp add: ud_def option.map_comp comp_def)
qed

lemma owned_same: "same_data tm tm' \<Longrightarrow> owned tm' im ts = owned tm im ts"
  and val_same: "same_data tm tm' \<Longrightarrow> val tm' im = val tm im"
  by (simp_all add: owned_def val_def ud_same fun_eq_iff)

lemma owned_mset: "mset ts = mset us \<Longrightarrow> owned tm im ts = owned tm im us"
  using mset_eq_setD [of ts us] mset_eq_imp_distinct_iff [of ts us] by (simp add: owned_def)

lemma owned_live:
  assumes "owned tm im ts" "x \<in> set ts"
  obtains d v where "ud tm x = Some d" "im d = Some v"
  using assms unfolding owned_def by blast

lemma owned_add:
  assumes "owned tm im ts" "tm t = None" "im d = None"
  shows "owned (tm(t \<mapsto> new_task d)) (im(d \<mapsto> v)) (t # ts)"
    "x \<in> set ts \<Longrightarrow> val (tm(t \<mapsto> new_task d)) (im(d \<mapsto> v)) x = val tm im x"
    "val (tm(t \<mapsto> new_task d)) (im(d \<mapsto> v)) t = v"
proof -
  have ne: "x \<noteq> t \<and> ud tm x \<noteq> Some d" if "x \<in> set ts" for x
    using that assms unfolding owned_def by (force simp: ud_def)
  have u: "ud (tm(t \<mapsto> new_task d)) = (ud tm)(t \<mapsto> d)" by (auto simp: ud_def new_task_def)
  have l: "\<exists>e v'. ((ud tm)(t \<mapsto> d)) x = Some e \<and> (im(d \<mapsto> v)) e = Some v'" if "x \<in> set (t # ts)" for x
  proof (cases "x = t")
    case False
    then have x: "x \<in> set ts" using that by simp
    obtain e v' where "ud tm x = Some e" "im e = Some v'" by (rule owned_live [OF assms(1) x])
    then show ?thesis using False ne [OF x] by auto
  qed auto
  have "inj_on ((ud tm)(t \<mapsto> d)) (set ts)" "Some d \<notin> ud tm ` set ts" "t \<notin> set ts"
    using assms(1) ne by (auto simp: owned_def inj_on_def)
  moreover have "((ud tm)(t \<mapsto> d)) ` (set ts - {t}) = ud tm ` set ts" using ne by auto
  ultimately show "owned (tm(t \<mapsto> new_task d)) (im(d \<mapsto> v)) (t # ts)"
    using assms(1) l unfolding owned_def u by (simp add: del: fun_upd_apply) simp
  show "val (tm(t \<mapsto> new_task d)) (im(d \<mapsto> v)) x = val tm im x" if x: "x \<in> set ts"
  proof -
    obtain e v' where "ud tm x = Some e" "im e = Some v'" by (rule owned_live [OF assms(1) x])
    then show ?thesis using ne [OF x] by (simp add: val_def u)
  qed
  show "val (tm(t \<mapsto> new_task d)) (im(d \<mapsto> v)) t = v" by (simp add: val_def u)
qed

lemma owned_remove:
  assumes "owned tm im (t # ts)" "ud tm t = Some d"
  shows "owned (tm(t := None)) (im(d := None)) ts"
    "x \<in> set ts \<Longrightarrow> val (tm(t := None)) (im(d := None)) x = val tm im x"
proof -
  have ne: "x \<noteq> t \<and> ud tm x \<noteq> Some d" if "x \<in> set ts" for x
    using that assms unfolding owned_def inj_on_def by force
  have u: "ud (tm(t := None)) x = ud tm x" if "x \<in> set ts" for x using ne [OF that] by (simp add: ud_def)
  have l: "\<exists>e v. ud (tm(t := None)) x = Some e \<and> (im(d := None)) e = Some v" if "x \<in> set ts" for x
  proof -
    have x: "x \<in> set (t # ts)" using that by simp
    obtain e v where "ud tm x = Some e" "im e = Some v" by (rule owned_live [OF assms(1) x])
    then show ?thesis using u [OF that] ne [OF that] by auto
  qed
  moreover have "inj_on (ud (tm(t := None))) (set ts)" using assms(1) u by (auto simp: owned_def inj_on_def)
  ultimately show "owned (tm(t := None)) (im(d := None)) ts"
    using assms(1) unfolding owned_def by simp
  show "val (tm(t := None)) (im(d := None)) x = val tm im x" if "x \<in> set ts"
  proof -
    have x: "x \<in> set (t # ts)" using that by simp
    obtain e v' where "ud tm x = Some e" "im e = Some v'" by (rule owned_live [OF assms(1) x])
    then show ?thesis using ne [OF that] u [OF that] by (simp add: val_def)
  qed
qed

text \<open>What a worker in \<open>get_task\<close> can do next.\<close>

lemma callback_cases:
  assumes "task_list p ts" "wmem p w = Some n"
  obtains (sleep) "thread_callback p w = Some (Slept, p\<lparr>waiters := waiters p @ [w]\<rparr>)"
  | (spin) "thread_callback p w = Some (Spun, p)"
  | (exit) "terminated (data n) \<noteq> 0"
      "thread_callback p w = Some (Exited, p\<lparr>wmem := (wmem p)(w := None)\<rparr>)"
  | (call) f t us m l where "ts = t # us" "thread_callback p w = Some (Called f t, p\<lparr>tmem := m, tasks := l\<rparr>)"
      "same_data (tmem p) m" "dll m None l us"
proof -
  consider "workers p = None" "terminated (data n) = 0" | "terminated (data n) \<noteq> 0" | "active p w"
    using assms(2) by (auto simp: active_def)
  then show thesis
  proof cases
    case 1
    then show ?thesis using assms(2) sleep by (simp add: thread_callback_def get_task_def)
  next
    case 2
    then show ?thesis using exit stopped_exits [OF assms(2)] by blast
  next
    case 3
    show ?thesis
    proof (cases ts)
      case Nil
      then show ?thesis using spin get_task_ok [OF 3 assms(1)] by (simp add: thread_callback_def)
    next
      case (Cons t us)
      then obtain m l where g: "get_task p w = Some (Got t, p\<lparr>tmem := m, tasks := l\<rparr>)"
        "same_data (tmem p) m" "dll m None l us" using get_task_ok [OF 3 assms(1)] by auto
      have "tmem p t \<noteq> None" using assms(1) Cons by (auto simp: task_list_def)
      then obtain k where "m t = Some k" using same_data_flag [OF g(2)] by blast
      then show ?thesis using call [OF Cons] g by (simp add: thread_callback_def)
    qed
  qed
qed

subsection \<open>The invariant\<close>

text \<open>The tasks that exist are those in the pool and those a worker runs, and together with
  what has been printed their numbers are the numbers pushed so far.\<close>

definition tasks_inv :: "thread_pool_t \<Rightarrow> (nat \<Rightarrow> int option) \<Rightarrow> nat list \<Rightarrow> int list \<Rightarrow> nat \<Rightarrow> bool" where
  "tasks_inv p im run shown n \<longleftrightarrow> (\<exists>ts. task_list p ts \<and> owned (tmem p) im (ts @ run) \<and>
     mset shown + image_mset (val (tmem p) im) (mset (ts @ run)) = mset (map int [0..<n]))"

definition count_inv :: "prog \<Rightarrow> bool" where
  "count_inv s \<longleftrightarrow> (case pc s of
     Create _ \<Rightarrow> pushed s = 0 | Link _ _ \<Rightarrow> pushed s = 0 | Push i \<Rightarrow> pushed s = i
   | Mark _ early \<Rightarrow> early \<longrightarrow> pushed s = 0 | Next _ early \<Rightarrow> early \<longrightarrow> pushed s = 0 | _ \<Rightarrow> True)"

text \<open>A thread that has not exited has its worker; while the pool is created no worker has been told
  to stop, and each running thread's worker is linked, or is the one about to be.\<close>

definition threads :: "prog \<Rightarrow> nat list" where
  "threads s = idle s @ map fst (busy s)"

definition threads_inv :: "prog \<Rightarrow> bool" where
  "threads_inv s \<longleftrightarrow> distinct (threads s) \<and> (\<forall>w. w \<in> set (threads s) \<longrightarrow> wmem (pool s) w \<noteq> None) \<and>
     (case pc s of
        Create _ \<Rightarrow> \<exists>ws. worker_list (pool s) ws 0 \<and> set (threads s) \<subseteq> set ws
      | Link x _ \<Rightarrow> \<exists>ws n. worker_list (pool s) ws 0 \<and> set (threads s) \<subseteq> insert x (set ws) \<and>
          x \<notin> set ws \<and> wmem (pool s) x = Some n \<and> terminated (data n) = 0
      | _ \<Rightarrow> True)"

definition prog_inv :: "prog \<Rightarrow> bool" where
  "prog_inv s \<longleftrightarrow> tasks_inv (pool s) (ints s) (map snd (busy s)) (printed s) (pushed s) \<and>
     count_inv s \<and> threads_inv s"

lemma tasks_inv_cong:
  "tasks p' = tasks p \<Longrightarrow> tmem p' = tmem p \<Longrightarrow> tasks_inv p' im run shown n = tasks_inv p im run shown n"
  by (simp add: tasks_inv_def task_list_def)

lemma tasks_inv_mset:
  assumes "mset run = mset run'"
  shows "tasks_inv p im run shown n = tasks_inv p im run' shown n"
proof -
  have m: "mset (ts @ run) = mset (ts @ run')" for ts using assms by simp
  show ?thesis unfolding tasks_inv_def m owned_mset [OF m] ..
qed

lemma tasks_inv_push:
  assumes "tasks_inv p im run shown n" "tmem p t = None" "im d = None"
  shows "\<exists>p'. thread_pool_push_task k (p\<lparr>tmem := (tmem p)(t \<mapsto> new_task d)\<rparr>) t = Some p' \<and>
    tasks_inv p' (im(d \<mapsto> int n)) run shown (Suc n) \<and> wmem p' = wmem p \<and> workers p' = workers p"
proof -
  obtain ts where ts: "task_list p ts" "owned (tmem p) im (ts @ run)"
    "mset shown + image_mset (val (tmem p) im) (mset (ts @ run)) = mset (map int [0..<n])"
    using assms(1) by (auto simp: tasks_inv_def)
  let ?p = "p\<lparr>tmem := (tmem p)(t \<mapsto> new_task d)\<rparr>"
  have nt: "t \<notin> set ts" using ts(1) assms(2) dll_live by (fastforce simp: task_list_def)
  have "task_list ?p ts" using ts(1) nt by (auto simp: task_list_def intro!: dll_frame [of "tmem p"])
  from push_ok [OF this nt, of "new_task d" k] obtain m where
    m: "thread_pool_push_task k ?p t = Some (?p\<lparr>tmem := m, tasks := Some t, waiters := cond_signal k (waiters p)\<rparr>)"
    "same_data (tmem ?p) m" "dll m None (Some t) (t # ts)" by auto
  note add = owned_add [OF ts(2) assms(2,3), where v = "int n"]
  have "image_mset (val (tmem ?p) (im(d \<mapsto> int n))) (mset (ts @ run)) = image_mset (val (tmem p) im) (mset (ts @ run))"
    using add(2) by (intro image_mset_cong) simp
  then have "mset shown + image_mset (val m (im(d \<mapsto> int n))) (mset (t # ts @ run)) = mset (map int [0..<Suc n])"
    using ts(3) add(3) val_same [OF m(2)] by simp
  then show ?thesis using m(1,3) add(1) owned_same [OF m(2)] ts(1) nt
    by (auto simp: tasks_inv_def task_list_def intro!: exI [of _ "t # ts"])
qed

lemma tasks_inv_get:
  assumes "task_list p (t # us)" "owned (tmem p) im ((t # us) @ run)"
    "mset shown + image_mset (val (tmem p) im) (mset ((t # us) @ run)) = mset (map int [0..<n])"
    "same_data (tmem p) m" "dll m None l us"
  shows "tasks_inv (p\<lparr>tmem := m, tasks := l\<rparr>) im (t # run) shown n"
proof -
  have "owned m im (us @ t # run)"
    using assms(2) owned_same [OF assms(4)] owned_mset [of "us @ t # run" "(t # us) @ run"] by simp
  then show ?thesis using assms(1,3,5) val_same [OF assms(4)]
    by (auto simp: tasks_inv_def task_list_def intro!: exI [of _ us])
qed

lemma tasks_inv_counter:
  assumes "tasks_inv (pool s) (ints s) run (printed s) n" "t \<in> set run"
  shows "\<exists>v im m. counter s t = Some (s\<lparr>printed := printed s @ [v], ints := im, pool := (pool s)\<lparr>tmem := m\<rparr>\<rparr>) \<and>
    tasks_inv ((pool s)\<lparr>tmem := m\<rparr>) im (remove1 t run) (printed s @ [v]) n"
proof -
  let ?tm = "tmem (pool s)"
  obtain ts where ts: "task_list (pool s) ts" "owned ?tm (ints s) (ts @ run)"
    "mset (printed s) + image_mset (val ?tm (ints s)) (mset (ts @ run)) = mset (map int [0..<n])"
    using assms(1) by (auto simp: tasks_inv_def)
  have ms: "mset (ts @ run) = mset (t # ts @ remove1 t run)" using assms(2) by simp
  then have o: "owned ?tm (ints s) (t # ts @ remove1 t run)" using ts(2) owned_mset by blast
  have "t \<in> set (t # ts @ remove1 t run)" by simp
  from owned_live [OF o this] obtain d v where d: "ud ?tm t = Some d" "ints s d = Some v" by blast
  note rem = owned_remove [OF o d(1)]
  have nt: "t \<notin> set ts" using o by (simp add: owned_def)
  have "image_mset (val (?tm(t := None)) ((ints s)(d := None))) (mset (ts @ remove1 t run)) =
      image_mset (val ?tm (ints s)) (mset (ts @ remove1 t run))"
    using rem(2) by (intro image_mset_cong) (simp only: set_mset_mset)
  moreover have "val ?tm (ints s) t = v" using d by (simp add: val_def)
  ultimately have "mset (printed s @ [v]) + image_mset (val (?tm(t := None)) ((ints s)(d := None))) (mset (ts @ remove1 t run)) =
      mset (map int [0..<n])" using ts(3) unfolding ms by (simp del: mset_map)
  then have "tasks_inv ((pool s)\<lparr>tmem := ?tm(t := None)\<rparr>) ((ints s)(d := None)) (remove1 t run) (printed s @ [v]) n"
    using rem(1) ts(1) nt by (auto simp: tasks_inv_def task_list_def intro!: exI [of _ ts] dll_frame [of ?tm])
  moreover have "counter s t = Some (s\<lparr>printed := printed s @ [v], ints := (ints s)(d := None),
      pool := (pool s)\<lparr>tmem := ?tm(t := None)\<rparr>\<rparr>)" using d by (auto simp: counter_def ud_def)
  ultimately show ?thesis by blast
qed

subsection \<open>Every step keeps the invariant\<close>

lemma threads_inv_weaken:
  assumes "threads_inv s" "threads s' = threads s" "wmem (pool s') = wmem (pool s)"
    "\<forall>i x. pc s' \<noteq> Create i \<and> pc s' \<noteq> Link x i"
  shows "threads_inv s'"
  using assms by (cases "pc s'") (simp_all add: threads_inv_def)

lemma main_step_Create:
  assumes "prog_inv s" "pc s = Create i" "fresh_alloc s mal mal2" "main_step mal mal2 tid k s = Some s'"
  shows "prog_inv s'"
proof -
  obtain ws where ws: "worker_list (pool s) ws 0" "set (threads s) \<subseteq> set ws"
    using assms(1,2) by (auto simp: prog_inv_def threads_inv_def)
  have T: "tasks_inv (pool s) (ints s) (map snd (busy s)) (printed s) (pushed s)" "pushed s = 0"
    using assms(1,2) by (auto simp: prog_inv_def count_inv_def)
  have D: "distinct (threads s)" "\<forall>w. w \<in> set (threads s) \<longrightarrow> wmem (pool s) w \<noteq> None"
    using assms(1) by (auto simp: prog_inv_def threads_inv_def)
  consider "\<not> i < THREAD_COUNT" | w t where "i < THREAD_COUNT" "mal = Some w" "tid = Some t"
    | w where "i < THREAD_COUNT" "mal = Some w" "tid = None" | "i < THREAD_COUNT" "mal = None" by fastforce
  then show ?thesis
  proof cases
    case 1
    then have s': "s' = s\<lparr>pc := Push 0\<rparr>" using assms(2,4) by (simp add: main_step_def)
    have th: "threads_inv s" using assms(1) by (simp add: prog_inv_def)
    have "threads_inv s'" by (rule threads_inv_weaken [OF th]) (simp_all add: s' threads_def)
    then show ?thesis using T by (simp add: s' prog_inv_def count_inv_def)
  next
    case 2
    have free: "wmem (pool s) w = None" using assms(3) 2 by (simp add: fresh_alloc_def)
    then have nw: "w \<notin> set ws" using ws(1) dll_live by (fastforce simp: worker_list_def)
    from create_start_ok [OF ws(1) nw, of t] obtain m n where m:
      "create_start (Some w) (Some t) (pool s) = (Some w, (pool s)\<lparr>wmem := m\<rparr>)"
      "worker_list ((pool s)\<lparr>wmem := m\<rparr>) ws 0" "m w = Some n" "terminated (data n) = 0"
      "\<forall>a. a \<noteq> w \<longrightarrow> m a = wmem (pool s) a" by blast
    have s': "s' = s\<lparr>pool := (pool s)\<lparr>wmem := m\<rparr>, idle := w # idle s, pc := Link w i\<rparr>"
      using assms(2,4) 2 m(1) by (simp add: main_step_def)
    have "threads s' = w # threads s" by (simp add: s' threads_def)
    moreover have "w \<notin> set (threads s)" using D(2) free by blast
    ultimately have "threads_inv s'" using D m(2-5) ws(2) nw by (auto simp: threads_inv_def s')
    then show ?thesis using T s' tasks_inv_cong [of "(pool s)\<lparr>wmem := m\<rparr>" "pool s"]
      by (simp add: prog_inv_def count_inv_def)
  next
    case 3
    have "w \<notin> set (threads s)" using D(2) assms(3) 3 by (auto simp: fresh_alloc_def)
    moreover have "s' = s\<lparr>pool := (pool s)\<lparr>wmem := (wmem (pool s))(w := None)\<rparr>, pc := Mark (workers (pool s)) True\<rparr>"
      using assms(2,4) 3 by (simp add: main_step_def create_start_def)
    ultimately show ?thesis using T D tasks_inv_cong [of "(pool s)\<lparr>wmem := (wmem (pool s))(w := None)\<rparr>" "pool s"]
      by (auto simp: prog_inv_def count_inv_def threads_inv_def threads_def)
  next
    case 4
    then have "s' = s\<lparr>pc := Mark (workers (pool s)) True\<rparr>"
      using assms(2,4) by (simp add: main_step_def create_start_def)
    then show ?thesis using T D by (simp add: prog_inv_def count_inv_def threads_inv_def threads_def)
  qed
qed

lemma main_step_Link:
  assumes "prog_inv s" "pc s = Link w i"
  shows "\<exists>s'. main_step mal mal2 tid k s = Some s' \<and> prog_inv s'"
proof -
  obtain ws n where ws: "worker_list (pool s) ws 0" "set (threads s) \<subseteq> insert w (set ws)" "w \<notin> set ws"
      "wmem (pool s) w = Some n" "terminated (data n) = 0"
    using assms by (auto simp: prog_inv_def threads_inv_def)
  from create_link_ok [OF ws(1,3,4,5)] obtain m where
    m: "create_link w (pool s) = Some ((pool s)\<lparr>wmem := m, workers := Some w\<rparr>)"
    "worker_list ((pool s)\<lparr>wmem := m, workers := Some w\<rparr>) (w # ws) 0" "same_data (wmem (pool s)) m" by blast
  have live: "m x \<noteq> None" if "x \<in> set (threads s)" for x
    using that assms(1) same_data_flag [OF m(3), of x] by (fastforce simp: prog_inv_def threads_inv_def)
  let ?s = "s\<lparr>pool := (pool s)\<lparr>wmem := m, workers := Some w\<rparr>, pc := Create (Suc i)\<rparr>"
  have "threads_inv ?s" using assms(1) live m(2) ws(2)
    by (auto simp: prog_inv_def threads_inv_def threads_def intro!: exI [of _ "w # ws"])
  then have "prog_inv ?s" using assms tasks_inv_cong [of "(pool s)\<lparr>wmem := m, workers := Some w\<rparr>" "pool s"]
    by (auto simp: prog_inv_def count_inv_def)
  then show ?thesis using assms(2) m(1) by (simp add: main_step_def)
qed

lemma main_step_Push:
  assumes "prog_inv s" "pc s = Push i" "fresh_alloc s mal mal2"
  shows "case main_step mal mal2 tid k s of Some s' \<Rightarrow> prog_inv s' | None \<Rightarrow> mal2 = None"
proof -
  have T: "tasks_inv (pool s) (ints s) (map snd (busy s)) (printed s) i" "pushed s = i"
    using assms(1,2) by (auto simp: prog_inv_def count_inv_def)
  have th: "threads_inv s" using assms(1) by (simp add: prog_inv_def)
  consider "\<not> i < TASK_COUNT \<or> mal = None" | t d where "i < TASK_COUNT" "mal = Some t" "mal2 = Some d"
    | "mal2 = None" "i < TASK_COUNT" "mal \<noteq> None" by fastforce
  then show ?thesis
  proof cases
    case 1
    then obtain c where c: "main_step mal mal2 tid k s = Some (s\<lparr>pc := c\<rparr>)" "c = Halt \<or> c = Key"
      using assms(2) by (cases "i < TASK_COUNT") (auto simp: main_step_def)
    then have "threads_inv (s\<lparr>pc := c\<rparr>)" by (intro threads_inv_weaken [OF th]) (auto simp: threads_def)
    then show ?thesis using c T by (auto simp: prog_inv_def count_inv_def)
  next
    case 2
    have f: "tmem (pool s) t = None" "ints s d = None" using assms(3) 2 by (auto simp: fresh_alloc_def)
    from tasks_inv_push [OF T(1) f, of k] obtain p where p:
      "thread_pool_push_task k ((pool s)\<lparr>tmem := (tmem (pool s))(t \<mapsto> new_task d)\<rparr>) t = Some p"
      "tasks_inv p ((ints s)(d \<mapsto> int i)) (map snd (busy s)) (printed s) (Suc i)" "wmem p = wmem (pool s)" by blast
    let ?s = "s\<lparr>pool := p, ints := (ints s)(d \<mapsto> int i), pushed := Suc i, pc := Push (Suc i)\<rparr>"
    have "threads_inv ?s" by (rule threads_inv_weaken [OF th]) (simp_all add: threads_def p(3))
    then have "prog_inv ?s" using p(2) by (simp add: prog_inv_def count_inv_def)
    then show ?thesis using assms(2) 2 p(1) by (simp add: main_step_def)
  next
    case 3
    then show ?thesis using assms(2) by (auto simp: main_step_def)
  qed
qed

lemma main_step_destroy:
  assumes "prog_inv s" "\<forall>i x. pc s \<noteq> Create i \<and> pc s \<noteq> Link x i \<and> pc s \<noteq> Push i"
    "main_step mal mal2 tid k s = Some s'"
  shows "prog_inv s'"
proof -
  have T: "tasks_inv (pool s) (ints s) (map snd (busy s)) (printed s) (pushed s)" and th: "threads_inv s"
    and c: "count_inv s" using assms(1) by (auto simp: prog_inv_def)
  show ?thesis
  proof (cases "pc s")
    case Key
    then have s': "s' = s\<lparr>pc := Mark (workers (pool s)) False\<rparr>" using assms(3) by (simp add: main_step_def)
    have "threads_inv s'" by (rule threads_inv_weaken [OF th]) (simp_all add: s' threads_def)
    then show ?thesis using T s' by (simp add: prog_inv_def count_inv_def)
  next
    case (Mark cur early)
    show ?thesis
    proof (cases cur)
      case None
      let ?p = "(pool s)\<lparr>waiters := []\<rparr>"
      have s': "s' = s\<lparr>pool := ?p, pc := (if early then Push 0 else Halt)\<rparr>"
        using assms(3) Mark None by (simp add: main_step_def)
      have "threads_inv s'" by (rule threads_inv_weaken [OF th]) (simp_all add: s' threads_def)
      then show ?thesis using T s' c Mark tasks_inv_cong [of ?p "pool s"]
        by (simp add: prog_inv_def count_inv_def)
    next
      case (Some w)
      then obtain n where n: "wmem (pool s) w = Some n"
        using assms(3) Mark by (auto simp: main_step_def destroy_mark_def bind_eq_Some_conv)
      let ?p = "(pool s)\<lparr>wmem := (wmem (pool s))(w \<mapsto> n\<lparr>data := (data n)\<lparr>terminated := 1\<rparr>\<rparr>)\<rparr>"
      have s': "s' = s\<lparr>pool := ?p, pc := Next w early\<rparr>"
        using assms(3) Mark Some destroy_mark_ok [OF n] by (simp add: main_step_def)
      have "threads_inv s'" using th by (auto simp: threads_inv_def s' threads_def)
      then show ?thesis using T s' c Mark tasks_inv_cong [of ?p "pool s"]
        by (simp add: prog_inv_def count_inv_def)
    qed
  next
    case (Next w early)
    then obtain cur where s': "s' = s\<lparr>pc := Mark cur early\<rparr>"
      using assms(3) by (auto simp: main_step_def bind_eq_Some_conv)
    have "threads_inv s'" by (rule threads_inv_weaken [OF th]) (simp_all add: s' threads_def)
    then show ?thesis using T s' c Next by (simp add: prog_inv_def count_inv_def)
  qed (use assms in \<open>auto simp: main_step_def\<close>)
qed

lemma distinct_mset_mono:
  assumes "mset xs \<subseteq># mset ys" "distinct ys"
  shows "distinct xs" "set xs \<subseteq> set ys"
proof -
  obtain zs where "mset zs = mset ys - mset xs" using ex_mset by blast
  then have m: "mset ys = mset (xs @ zs)" using assms(1) by (simp add: subset_mset.add_diff_inverse)
  show "distinct xs" using assms(2) mset_eq_imp_distinct_iff [OF m] by simp
  show "set xs \<subseteq> set ys" using mset_eq_setD [OF m] by simp
qed

lemma threads_inv_cong:
  assumes "threads_inv s" "mset (threads s') \<subseteq># mset (threads s)" "wmem (pool s') = wmem (pool s)"
    "workers (pool s') = workers (pool s)" "pc s' = pc s"
  shows "threads_inv s'"
proof -
  have "distinct (threads s)" using assms(1) by (simp add: threads_inv_def)
  note sub = distinct_mset_mono [OF assms(2) this]
  have "worker_list (pool s') ws f = worker_list (pool s) ws f" for ws f
    by (simp add: worker_list_def assms)
  then show ?thesis using assms(1,3,5) sub unfolding threads_inv_def
    by (cases "pc s") (auto, blast+)
qed

lemma count_inv_cong: "count_inv s \<Longrightarrow> pc s' = pc s \<Longrightarrow> pushed s' = pushed s \<Longrightarrow> count_inv s'"
  by (cases "pc s") (simp_all add: count_inv_def)

lemma idle_step_ok:
  assumes "prog_inv s" "w \<in> set (idle s)"
  shows "\<exists>s'. idle_step w s = Some s' \<and> prog_inv s'"
proof -
  have th: "threads_inv s" and c: "count_inv s" using assms(1) by (auto simp: prog_inv_def)
  obtain ts where ts: "task_list (pool s) ts" "owned (tmem (pool s)) (ints s) (ts @ map snd (busy s))"
    "mset (printed s) + image_mset (val (tmem (pool s)) (ints s)) (mset (ts @ map snd (busy s))) = mset (map int [0..<pushed s])"
    using assms(1) by (auto simp: prog_inv_def tasks_inv_def)
  have T: "tasks_inv (pool s) (ints s) (map snd (busy s)) (printed s) (pushed s)"
    using assms(1) by (simp add: prog_inv_def)
  have wt: "w \<in> set (threads s)" using assms(2) by (simp add: threads_def)
  then obtain n where n: "wmem (pool s) w = Some n" using th by (auto simp: threads_inv_def)
  from ts(1) n show ?thesis
  proof (cases rule: callback_cases)
    case sleep
    let ?s = "s\<lparr>pool := (pool s)\<lparr>waiters := waiters (pool s) @ [w]\<rparr>\<rparr>"
    have "threads_inv ?s" by (rule threads_inv_cong [OF th]) (simp_all add: threads_def)
    then have "prog_inv ?s" using T count_inv_cong [OF c, of ?s] tasks_inv_cong [of "pool ?s" "pool s"]
      by (simp add: prog_inv_def)
    then show ?thesis using sleep by (simp add: idle_step_def)
  next
    case spin
    then show ?thesis using assms(1) by (simp add: idle_step_def)
  next
    case exit
    let ?s = "s\<lparr>pool := (pool s)\<lparr>wmem := (wmem (pool s))(w := None)\<rparr>, idle := remove1 w (idle s)\<rparr>"
    have "\<forall>i x. pc s \<noteq> Create i \<and> pc s \<noteq> Link x i"
      using th wt n exit(1) by (auto simp: threads_inv_def worker_list_def) force+
    moreover have "mset (threads ?s) = mset (threads s) - {#w#}" using assms(2) by (simp add: threads_def)
    then have m: "mset (threads s) = mset (w # threads ?s)" using wt by simp
    moreover have "distinct (threads s)" using th by (simp add: threads_inv_def)
    then have "distinct (w # threads ?s)" "set (w # threads ?s) = set (threads s)"
      using mset_eq_imp_distinct_iff [OF m] mset_eq_setD [OF m] by simp_all
    ultimately have "threads_inv ?s" using th by (cases "pc s") (auto simp: threads_inv_def)
    then have "prog_inv ?s" using T count_inv_cong [OF c, of ?s] tasks_inv_cong [of "pool ?s" "pool s"]
      by (simp add: prog_inv_def)
    then show ?thesis using exit(2) by (auto simp: idle_step_def)
  next
    case (call f t us m l)
    let ?s = "s\<lparr>pool := (pool s)\<lparr>tmem := m, tasks := l\<rparr>, idle := remove1 w (idle s), busy := (w, t) # busy s\<rparr>"
    have "threads_inv ?s" using assms(2) by (intro threads_inv_cong [OF th]) (simp_all add: threads_def)
    moreover have "tasks_inv (pool ?s) (ints ?s) (map snd (busy ?s)) (printed ?s) (pushed ?s)"
      using tasks_inv_get [of "pool s" t us "ints s"] ts call by simp
    ultimately have "prog_inv ?s" using count_inv_cong [OF c, of ?s] by (simp add: prog_inv_def)
    then show ?thesis using call(2) by (simp add: idle_step_def)
  qed
qed

lemma busy_step_ok:
  assumes "prog_inv s" "(w, t) \<in> set (busy s)"
  shows "\<exists>s'. busy_step w t s = Some s' \<and> prog_inv s'"
proof -
  have "t \<in> set (map snd (busy s))" using assms(2) by force
  then obtain v im m where v:
    "counter s t = Some (s\<lparr>printed := printed s @ [v], ints := im, pool := (pool s)\<lparr>tmem := m\<rparr>\<rparr>)"
    "tasks_inv ((pool s)\<lparr>tmem := m\<rparr>) im (remove1 t (map snd (busy s))) (printed s @ [v]) (pushed s)"
    using tasks_inv_counter [of s "map snd (busy s)" "pushed s" t] assms(1) by (auto simp: prog_inv_def)
  let ?s = "s\<lparr>printed := printed s @ [v], ints := im, pool := (pool s)\<lparr>tmem := m\<rparr>,
    busy := remove1 (w, t) (busy s), idle := w # idle s\<rparr>"
  have ms: "mset (busy s) = add_mset (w, t) (mset (remove1 (w, t) (busy s)))" using assms(2) by simp
  have "mset (remove1 t (map snd (busy s))) = image_mset snd (mset (busy s)) - {#t#}" by simp
  then have b: "mset (map snd (remove1 (w, t) (busy s))) = mset (remove1 t (map snd (busy s)))"
    "mset (threads ?s) = mset (threads s)"
    unfolding ms by (simp_all add: threads_def ms del: mset_remove1)
  have "threads_inv ?s" using assms(1) b(2) threads_inv_cong [of s ?s] by (simp add: prog_inv_def)
  moreover have "tasks_inv (pool ?s) (ints ?s) (map snd (busy ?s)) (printed ?s) (pushed ?s)"
    using v(2) tasks_inv_mset [OF b(1)] by simp
  ultimately have "prog_inv ?s" using assms(1) count_inv_cong [of s ?s] by (auto simp: prog_inv_def)
  then show ?thesis using v(1) by (simp add: busy_step_def)
qed

definition prog_start :: "prog option \<Rightarrow> bool" where
  "prog_start so \<longleftrightarrow> so = Some program_start"

definition prog_safe :: "prog option \<Rightarrow> bool" where
  "prog_safe so \<longleftrightarrow> (case so of None \<Rightarrow> True | Some s \<Rightarrow> prog_inv s)"

interpretation poll: invariant_system prog_start prog_step prog_safe
proof
  fix so
  assume "prog_start so"
  moreover have "prog_inv program_start"
    by (auto simp: prog_inv_def tasks_inv_def count_inv_def threads_inv_def threads_def program_start_def
        task_list_def owned_def worker_list_def intro!: exI [of _ "[]"])
  ultimately show "prog_safe so" by (simp add: prog_start_def prog_safe_def)
next
  fix so so'
  assume safe: "prog_safe so" and "prog_step so so'"
  from this(2) show "prog_safe so'"
  proof cases
    case (step_main s mal mal2 tid k)
    have "prog_inv s'" if "so' = Some s'" for s'
    proof -
      have eq: "main_step mal mal2 tid k s = Some s'" using that step_main by simp
      show ?thesis
        using main_step_Create [OF _ _ _ eq] main_step_Link [of s _ _ mal mal2 tid k]
          main_step_Push [of s _ mal mal2 tid k] main_step_destroy [OF _ _ eq] safe step_main
        by (cases "pc s") (auto simp: prog_safe_def eq)
    qed
    then show ?thesis by (simp add: prog_safe_def split: option.splits)
  qed (use safe idle_step_ok busy_step_ok in \<open>fastforce simp: prog_safe_def\<close>)+
qed

subsection \<open>Properties\<close>

text \<open>
  C2.  In every reachable state of the program, under every interleaving of the main thread and
  the workers, the numbers printed so far together with those of the tasks in the pool and
  of the tasks being run are exactly the numbers pushed so far, each once: no task is lost, run
  twice or used after it was freed.
\<close>

theorem program_conserves_numbers:
  assumes "reachable prog_start prog_step (Some s)"
  shows "\<exists>ts. task_list (pool s) ts \<and> owned (tmem (pool s)) (ints s) (ts @ map snd (busy s)) \<and>
    mset (printed s) + image_mset (val (tmem (pool s)) (ints s)) (mset (ts @ map snd (busy s))) =
      mset (map int [0..<pushed s])"
  using poll.reachable_inv [OF assms] by (simp add: prog_safe_def prog_inv_def tasks_inv_def)

text \<open>The program after its first worker has been started and linked and the second could not be
  started; the worker has been told to stop and has exited, while the main thread is about to read
  the worker's successor.\<close>

definition first_thread :: thread_pool_t where
  "first_thread = \<lparr>workers = Some 1,
     wmem = [1 \<mapsto> \<lparr>prev = None, succ = None, data = \<lparr>thread_id = 7, terminated = 0\<rparr>\<rparr>],
     tasks = None, tmem = Map.empty, waiters = []\<rparr>"

definition after_create :: prog where
  "after_create = program_start\<lparr>pool := first_thread, idle := [1], pc := Create 1\<rparr>"

lemma reach_main:
  assumes "reachable prog_start prog_step (Some s)" "pc s \<noteq> Halt" "fresh_alloc s mal mal2"
    "main_step mal mal2 tid k s = so"
  shows "reachable prog_start prog_step so"
  using reach_step [OF assms(1) step_main [OF assms(2,3)]] assms(4) by blast

lemma reach_after_create: "reachable prog_start prog_step (Some after_create)"
proof -
  have 0: "reachable prog_start prog_step (Some program_start)" by (rule reach_init) (simp add: prog_start_def)
  let ?l = "after_create\<lparr>pool := first_thread\<lparr>workers := None\<rparr>, pc := Link 1 0\<rparr>"
  have 1: "reachable prog_start prog_step (Some ?l)"
    by (rule reach_main [OF 0, of "Some 1" None "Some 7"])
      (simp_all add: program_start_def fresh_alloc_def main_step_def THREAD_COUNT_def create_start_def
        after_create_def first_thread_def)
  show ?thesis
    by (rule reach_main [OF 1, of None None])
      (simp_all add: program_start_def fresh_alloc_def main_step_def create_link_def LL_ADD_def set_prev_def
        set_succ_def after_create_def first_thread_def)
qed

theorem program_conserves_numbers_witness:
  "\<exists>ts. task_list (pool after_create) ts \<and>
     owned (tmem (pool after_create)) (ints after_create) (ts @ map snd (busy after_create)) \<and>
     mset (printed after_create) +
       image_mset (val (tmem (pool after_create)) (ints after_create)) (mset (ts @ map snd (busy after_create))) =
     mset (map int [0..<pushed after_create])"
  by (rule program_conserves_numbers [OF reach_after_create])

text \<open>
  C33.  The program cannot crash while it creates the pool, pushes tasks or waits for a key: no
  step of a worker is ever an invalid access, and a step of the main thread is one at most in
  the loop of \<open>thread_destroy\<close> or when the unchecked allocation of a task's number fails.
\<close>

theorem crash_only_in_destroy:
  assumes "reachable prog_start prog_step (Some s)"
  shows "(w \<in> set (idle s) \<longrightarrow> idle_step w s \<noteq> None) \<and> ((w, t) \<in> set (busy s) \<longrightarrow> busy_step w t s \<noteq> None) \<and>
    (fresh_alloc s mal (Some d) \<and> main_step mal (Some d) tid k s = None \<longrightarrow>
      (\<exists>x e. pc s = Mark (Some x) e \<or> pc s = Next x e))"
proof -
  have i: "prog_inv s" using poll.reachable_inv [OF assms] by (simp add: prog_safe_def)
  have "\<exists>x e. pc s = Mark (Some x) e \<or> pc s = Next x e"
    if "fresh_alloc s mal (Some d)" "main_step mal (Some d) tid k s = None"
  proof (cases "pc s")
    case (Mark c e)
    then show ?thesis using that by (cases c) (auto simp: main_step_def)
  next
    case (Create j)
    then show ?thesis using that by (auto simp: main_step_def split: if_splits prod.splits option.splits)
  next
    case (Link x j)
    then show ?thesis using main_step_Link [OF i Link, of mal "Some d" tid k] that by auto
  next
    case (Push j)
    then show ?thesis using main_step_Push [OF i Push that(1), of tid k] that(2) by simp
  qed (use that in \<open>auto simp: main_step_def\<close>)
  then show ?thesis using idle_step_ok [OF i, of w] busy_step_ok [OF i, of w t] by auto
qed

theorem crash_only_in_destroy_witness:
  "idle_step 1 after_create \<noteq> None \<and> main_step None (Some 3) None 0 after_create \<noteq> None"
  using crash_only_in_destroy [OF reach_after_create, of 1 2 None 3 None 0]
  by (auto simp: after_create_def fresh_alloc_def program_start_def)

text \<open>
  Destroying the pool races with the workers it stops: a run of the program reaches a state in
  which the loop of \<open>thread_destroy\<close> is about to read the successor of a worker that has
  already freed itself, so that its next step is an invalid access.
\<close>

theorem destroy_use_after_free:
  "\<exists>s w early. reachable prog_start prog_step (Some s) \<and> pc s = Next w early \<and> wmem (pool s) w = None \<and>
     main_step mal mal2 tid k s = None"
proof -
  have 1: "reachable prog_start prog_step (Some (after_create\<lparr>pc := Mark (Some 1) True\<rparr>))"
    by (rule reach_main [OF reach_after_create, of None None])
      (simp_all add: fresh_alloc_def main_step_def create_start_def THREAD_COUNT_def after_create_def first_thread_def)
  let ?m = "[1 \<mapsto> \<lparr>prev = None, succ = None, data = \<lparr>thread_id = 7, terminated = 1\<rparr>\<rparr>]"
  let ?s = "after_create\<lparr>pool := first_thread\<lparr>wmem := ?m\<rparr>, pc := Next 1 True\<rparr>"
  have 2: "reachable prog_start prog_step (Some ?s)"
    by (rule reach_main [OF 1, of None None])
      (simp_all add: fresh_alloc_def main_step_def destroy_mark_def after_create_def first_thread_def)
  let ?t = "?s\<lparr>pool := first_thread\<lparr>wmem := ?m(1 := None)\<rparr>, idle := []\<rparr>"
  have "idle_step 1 ?s = Some ?t"
    by (simp add: idle_step_def thread_callback_def get_task_def first_thread_def after_create_def)
  moreover have "prog_step (Some ?s) (idle_step 1 ?s)"
    by (rule step_idle) (simp_all add: after_create_def first_thread_def)
  ultimately have "reachable prog_start prog_step (Some ?t)" using reach_step [OF 2] by simp
  then show ?thesis
    by (intro exI [of _ ?t] exI [of _ 1] exI [of _ True]) (simp add: main_step_def destroy_next_def first_thread_def)
qed

end
