(* ===== verification/Spin_Queue.thy ===== *)
theory Spin_Queue
  imports Task_Pool
begin

text \<open>
  The thread pool with the spin lock (\<open>system-programming/threadpool/spinlock-version/threadpool.c\<close>),
  one operation after the other: the singly linked task queue whose \<open>tail\<close> is the address of
  the link to write next, and the life of a pool.  \<open>None\<close> is an access to a freed task.  The queue
  implements the first-in-first-out interface; creating and discarding a pool is followed down to the
  blocks that stay allocated.  The interleavings are the subject of the theory \<open>Spin_Conc\<close>.
\<close>

subsection \<open>Data\<close>

record task_s =
  tnext :: "nat option"
  handler :: nat
  arg :: nat

text \<open>The value of \<open>tail\<close>: the address of the queue's \<open>head\<close>, or of a task, whose first field is
  its \<open>next\<close> pointer.\<close>

datatype link = Head | Next_of nat

record task_queue_s =
  head :: "nat option"
  tail :: link
  block :: int
  mem :: "nat \<Rightarrow> task_s option"

definition write_link :: "task_queue_s \<Rightarrow> link \<Rightarrow> nat option \<Rightarrow> task_queue_s option" where
  "write_link q l v = (case l of
     Head \<Rightarrow> Some (q\<lparr>head := v\<rparr>)
   | Next_of a \<Rightarrow> do { n \<leftarrow> mem q a; Some (q\<lparr>mem := (mem q)(a \<mapsto> n\<lparr>tnext := v\<rparr>)\<rparr>) })"

subsection \<open>The task queue\<close>

text \<open>\<open>__task_queue_create\<close>; the arguments say whether \<open>malloc\<close> succeeds and what the
  initialisations of the mutex and the condition variable return.\<close>

definition task_queue_create :: "(nat \<Rightarrow> task_s option) \<Rightarrow> bool \<Rightarrow> int \<Rightarrow> int \<Rightarrow> task_queue_s option" where
  "task_queue_create m mal mutex_init cond_init =
     (if \<not> mal then None
      else if mutex_init = 0 \<and> cond_init = 0 then Some \<lparr>head = None, tail = Head, block = 1, mem = m\<rparr>
      else None)"

definition nonblock :: "task_queue_s \<Rightarrow> task_queue_s" where
  "nonblock q = q\<lparr>block := 0\<rparr>"

definition add_task :: "task_queue_s \<Rightarrow> nat \<Rightarrow> task_queue_s option" where
  "add_task q task = do {
     q \<leftarrow> write_link q (Next_of task) None;
     q \<leftarrow> write_link q (tail q) (Some task);
     Some (q\<lparr>tail := Next_of task\<rparr>)
   }"

definition pop_task :: "task_queue_s \<Rightarrow> (nat option \<times> task_queue_s) option" where
  "pop_task q = (case head q of
     None \<Rightarrow> Some (None, q)
   | Some task \<Rightarrow> do {
       n \<leftarrow> mem q task;
       let q = q\<lparr>head := tnext n\<rparr>;
       let q = (if head q = None then q\<lparr>tail := Head\<rparr> else q);
       Some (Some task, q)
     })"

text \<open>One round of \<open>__get_task\<close>: the task, or \<open>NULL\<close> for a queue that no longer blocks, or a
  wait on the condition variable.\<close>

datatype got = Task nat | Closed | Wait

definition get_task_round :: "task_queue_s \<Rightarrow> (got \<times> task_queue_s) option" where
  "get_task_round q = do {
     (t, q) \<leftarrow> pop_task q;
     Some (case t of Some task \<Rightarrow> Task task | None \<Rightarrow> if block q = 0 then Closed else Wait, q)
   }"

text \<open>\<open>__thread_pool_destroy\<close>.  The loop compares an uninitialised variable, here \<open>task\<close>, with
  the task it pops.\<close>

definition free_task :: "task_queue_s \<Rightarrow> nat option \<Rightarrow> task_queue_s option" where
  "free_task q t = (case t of None \<Rightarrow> Some q
     | Some a \<Rightarrow> do { n \<leftarrow> mem q a; Some (q\<lparr>mem := (mem q)(a := None)\<rparr>) })"

partial_function (option) destroy_loop :: "nat option \<Rightarrow> task_queue_s \<Rightarrow> task_queue_s option" where
  "destroy_loop task q = do {
     (t, q) \<leftarrow> pop_task q;
     if task = t then do { q \<leftarrow> free_task q task; destroy_loop task q } else Some q
   }"

subsection \<open>The pool\<close>

text \<open>The blocks a pool allocates besides its tasks.\<close>

datatype blk = B_pool | B_queue | B_threads

record thread_pool_s =
  task_queue :: task_queue_s
  quit :: int
  thread_count :: nat
  threads :: "nat list"
  blocks :: "blk set"

definition threads_terminate :: "thread_pool_s \<Rightarrow> thread_pool_s" where
  "threads_terminate pool = pool\<lparr>quit := 1, task_queue := nonblock (task_queue pool)\<rparr>"

text \<open>\<open>created\<close> is the number of threads that can be created, \<open>attr\<close> what
  \<open>pthread_attr_init\<close> returns.\<close>

definition threads_create :: "thread_pool_s \<Rightarrow> nat \<Rightarrow> int \<Rightarrow> bool \<Rightarrow> nat \<Rightarrow> int \<times> thread_pool_s" where
  "threads_create pool n attr mal created =
     (if attr \<noteq> 0 then (attr, pool)
      else if \<not> mal then (-1, pool)
      else
        let i = min created n;
            pool = pool\<lparr>threads := [0..<i], thread_count := i, blocks := insert B_threads (blocks pool)\<rparr>
        in if i = n then (0, pool) else (-1, threads_terminate pool))"

definition task_queue_destroy :: "thread_pool_s \<Rightarrow> thread_pool_s" where
  "task_queue_destroy pool = pool"

definition thread_pool_create_spin :: "(nat \<Rightarrow> task_s option) \<Rightarrow> nat \<Rightarrow> bool \<Rightarrow> bool \<Rightarrow> int \<Rightarrow> int \<Rightarrow> int \<Rightarrow>
    bool \<Rightarrow> nat \<Rightarrow> thread_pool_s option \<times> blk set" where
  "thread_pool_create_spin m n mal_pool mal_queue mutex_init cond_init attr mal_threads created =
     (if \<not> mal_pool then (None, {})
      else case task_queue_create m mal_queue mutex_init cond_init of
        None \<Rightarrow> (None, if mal_queue then {B_queue} else {})
      | Some q \<Rightarrow>
          let pool = \<lparr>task_queue = q, quit = 0, thread_count = 0, threads = [], blocks = {B_pool, B_queue}\<rparr>;
              (ret, pool) = threads_create pool n attr mal_threads created
          in if ret = 0 then (Some pool, blocks pool)
             else (None, blocks (task_queue_destroy pool) - {B_pool}))"

definition thread_pool_terminate :: "thread_pool_s \<Rightarrow> thread_pool_s" where
  "thread_pool_terminate pool = pool\<lparr>quit := 1, task_queue := nonblock (task_queue pool)\<rparr>"

text \<open>\<open>mal\<close> is the result of \<open>malloc\<close> for the task.\<close>

definition thread_pool_post :: "thread_pool_s \<Rightarrow> nat option \<Rightarrow> nat \<Rightarrow> nat \<Rightarrow> (int \<times> thread_pool_s) option" where
  "thread_pool_post pool mal h a =
     (if quit pool = 1 then Some (-1, pool)
      else case mal of
        None \<Rightarrow> Some (-1, pool)
      | Some task \<Rightarrow> do {
          let q = task_queue pool;
          q \<leftarrow> add_task (q\<lparr>mem := (mem q)(task \<mapsto> \<lparr>tnext = None, handler = h, arg = a\<rparr>)\<rparr>) task;
          Some (0, pool\<lparr>task_queue := q\<rparr>)
        })"

text \<open>One iteration of the worker's loop: the worker ends, waits, or has freed the task and calls
  its handler.\<close>

datatype work = Ends | Sleeps | Calls nat nat

definition thread_pool_worker :: "thread_pool_s \<Rightarrow> (work \<times> thread_pool_s) option" where
  "thread_pool_worker pool =
     (if quit pool \<noteq> 0 then Some (Ends, pool)
      else do {
        (g, q) \<leftarrow> get_task_round (task_queue pool);
        case g of
          Closed \<Rightarrow> Some (Ends, pool\<lparr>task_queue := q\<rparr>)
        | Wait \<Rightarrow> Some (Sleeps, pool\<lparr>task_queue := q\<rparr>)
        | Task t \<Rightarrow> do {
            n \<leftarrow> mem q t;
            q \<leftarrow> free_task q (Some t);
            Some (Calls (handler n) (arg n), pool\<lparr>task_queue := q\<rparr>)
          }
      })"

definition thread_pool_waitdone :: "thread_pool_s \<Rightarrow> blk set \<times> thread_pool_s" where
  "thread_pool_waitdone pool =
     (let pool = task_queue_destroy pool in (blocks pool - {B_threads} - {B_pool}, pool))"

subsection \<open>The queue holds a list\<close>

fun chain :: "(nat \<Rightarrow> task_s option) \<Rightarrow> nat option \<Rightarrow> nat list \<Rightarrow> bool" where
  "chain m p [] \<longleftrightarrow> p = None"
| "chain m p (x # xs) \<longleftrightarrow> p = Some x \<and> (\<exists>n. m x = Some n \<and> chain m (tnext n) xs)"

definition tail_of :: "nat list \<Rightarrow> link" where
  "tail_of xs = (if xs = [] then Head else Next_of (last xs))"

definition holds :: "task_queue_s \<Rightarrow> nat list \<Rightarrow> bool" where
  "holds q xs \<longleftrightarrow> chain (mem q) (head q) xs \<and> distinct xs \<and> tail q = tail_of xs"

definition loose :: "task_queue_s \<Rightarrow> nat \<Rightarrow> bool" where
  "loose q t \<longleftrightarrow> mem q t \<noteq> None \<and> (\<forall>xs. holds q xs \<longrightarrow> t \<notin> set xs)"

lemma chain_frame: "chain m p xs \<Longrightarrow> (\<And>a. a \<in> set xs \<Longrightarrow> m' a = m a) \<Longrightarrow> chain m' p xs"
  by (induction xs arbitrary: p) auto

lemma chain_live: "chain m p xs \<Longrightarrow> a \<in> set xs \<Longrightarrow> m a \<noteq> None"
  by (induction xs arbitrary: p) auto

lemma chain_unique: "chain m p xs \<Longrightarrow> chain m p ys \<Longrightarrow> xs = ys"
proof (induction xs arbitrary: p ys)
  case Nil
  then show ?case by (cases ys) auto
next
  case (Cons x xs)
  then show ?case by (cases ys) auto
qed

text \<open>Writing the link at the end of a chain appends to it.\<close>

lemma chain_append:
  assumes "chain m p ys" "distinct ys" "ys \<noteq> []" "m (last ys) = Some k" "t \<notin> set ys"
    "m t = Some n" "tnext n = None"
  shows "chain (m(last ys \<mapsto> k\<lparr>tnext := Some t\<rparr>)) p (ys @ [t])"
  using assms
proof (induction ys arbitrary: p)
  case (Cons y ys)
  then obtain j where j: "p = Some y" "m y = Some j" "chain m (tnext j) ys" by auto
  show ?case
  proof (cases "ys = []")
    case True
    then show ?thesis using Cons.prems j by auto
  next
    case False
    have "chain (m(last ys \<mapsto> k\<lparr>tnext := Some t\<rparr>)) (tnext j) (ys @ [t])"
      using Cons.prems False by (intro Cons.IH [OF j(3)]) simp_all
    moreover have "last ys \<noteq> y" using Cons.prems(2) False by (metis distinct.simps(2) last_in_set)
    ultimately show ?thesis using j False by (simp add: fun_upd_def)
  qed
qed simp

lemma write_tail:
  assumes "chain (mem q) (head q) xs" "distinct xs" "t \<notin> set xs" "mem q t = Some n" "tnext n = None"
  shows "\<exists>q'. write_link q (tail_of xs) (Some t) = Some q' \<and> chain (mem q') (head q') (xs @ [t]) \<and>
    tail q' = tail q \<and> block q' = block q \<and> (\<forall>a. a \<notin> set xs \<longrightarrow> mem q' a = mem q a) \<and>
    (\<forall>a. (mem q' a = None) = (mem q a = None))"
proof -
  show ?thesis
  proof (cases "xs = []")
    case True
    then show ?thesis using assms by (simp add: write_link_def tail_of_def)
  next
    case False
    then obtain k where k: "mem q (last xs) = Some k" using chain_live [OF assms(1)] by fastforce
    from chain_append [OF assms(1,2) False k assms(3-5)] show ?thesis
      using False k by (auto simp: write_link_def tail_of_def)
  qed
qed

lemma add_task_ok:
  assumes "holds q xs" "t \<notin> set xs" "mem q t = Some n"
  shows "\<exists>q'. add_task q t = Some q' \<and> holds q' (xs @ [t]) \<and> block q' = block q \<and>
    (\<forall>a. a \<notin> insert t (set xs) \<longrightarrow> mem q' a = mem q a)"
proof -
  let ?q = "q\<lparr>mem := (mem q)(t \<mapsto> n\<lparr>tnext := None\<rparr>)\<rparr>"
  have q1: "write_link q (Next_of t) None = Some ?q" using assms(3) by (simp add: write_link_def)
  have c: "chain (mem ?q) (head ?q) xs" "distinct xs" "tail q = tail_of xs"
    using assms(1,2) by (auto simp: holds_def intro!: chain_frame [of "mem q"])
  from write_tail [OF c(1,2) assms(2), of "n\<lparr>tnext := None\<rparr>"] obtain q' where
    q': "write_link ?q (tail_of xs) (Some t) = Some q'" "chain (mem q') (head q') (xs @ [t])"
      "block q' = block q" "\<forall>a. a \<notin> set xs \<longrightarrow> mem q' a = mem ?q a" by auto
  have "add_task q t = Some (q'\<lparr>tail := Next_of t\<rparr>)" using q1 q'(1) c(3) by (simp add: add_task_def)
  then show ?thesis using q' c(2) assms(2) by (auto simp: holds_def tail_of_def)
qed

lemma pop_task_Nil: "holds q [] \<Longrightarrow> pop_task q = Some (None, q)"
  by (simp add: holds_def pop_task_def)

lemma pop_task_Cons:
  assumes "holds q (x # xs)"
  shows "\<exists>q'. pop_task q = Some (Some x, q') \<and> holds q' xs \<and> mem q' = mem q \<and> block q' = block q"
proof -
  obtain n where n: "head q = Some x" "mem q x = Some n" "chain (mem q) (tnext n) xs"
    using assms by (auto simp: holds_def)
  then have "tnext n = None \<longleftrightarrow> xs = []" by (cases xs) auto
  then show ?thesis using n assms by (auto simp: pop_task_def holds_def tail_of_def Let_def)
qed

interpretation spin: fifo_pool holds loose add_task pop_task
proof
  fix s xs t
  assume a: "holds s xs" "loose s t"
  then have t: "t \<notin> set xs" by (auto simp: loose_def)
  obtain n where "mem s t = Some n" using a(2) by (auto simp: loose_def)
  from add_task_ok [OF a(1) t this] show "\<exists>s'. add_task s t = Some s' \<and> holds s' (xs @ [t])" by blast
next
  fix s
  assume "holds s []"
  then show "\<exists>s'. pop_task s = Some (None, s') \<and> holds s' []" using pop_task_Nil by blast
next
  fix s x xs
  assume "holds s (x # xs)"
  then show "\<exists>s'. pop_task s = Some (Some x, s') \<and> holds s' xs" using pop_task_Cons by blast
qed

subsection \<open>The life of a pool\<close>

text \<open>The loop of \<open>__thread_pool_destroy\<close> frees at most one task: popping the task the
  uninitialised variable happens to point to frees it, and what is popped next differs.\<close>

lemma destroy_loop_keeps:
  assumes "holds q xs" "task \<noteq> (if xs = [] then None else Some (hd xs))"
  shows "\<exists>q'. destroy_loop task q = Some q' \<and> holds q' (drop 1 xs) \<and> mem q' = mem q"
proof (cases xs)
  case Nil
  then show ?thesis using assms pop_task_Nil [of q] by (auto simp: destroy_loop.simps [of task q])
next
  case (Cons x ys)
  then obtain q1 where "pop_task q = Some (Some x, q1)" "holds q1 ys" "mem q1 = mem q" using pop_task_Cons [of q x ys] assms(1) by blast
  then show ?thesis using Cons assms(2) by (simp add: destroy_loop.simps [of task q])
qed

lemma destroy_loop_frees:
  assumes "holds q (x # xs)"
  shows "\<exists>q'. destroy_loop (Some x) q = Some q' \<and> holds q' (drop 1 xs) \<and> mem q' = (mem q)(x := None)"
proof -
  from pop_task_Cons [OF assms] obtain q1 where q1: "pop_task q = Some (Some x, q1)" "holds q1 xs" "mem q1 = mem q" by blast
  obtain n where n: "mem q1 x = Some n" using assms q1(3) by (auto simp: holds_def)
  let ?q = "q1\<lparr>mem := (mem q1)(x := None)\<rparr>"
  have ne: "x \<notin> set xs" using assms by (simp add: holds_def)
  then have "holds ?q xs" using q1(2) by (auto simp: holds_def intro!: chain_frame [of "mem q1"])
  moreover have "Some x \<noteq> (if xs = [] then None else Some (hd xs))" using ne by (cases xs) auto
  ultimately obtain q2 where "destroy_loop (Some x) ?q = Some q2" "holds q2 (drop 1 xs)" "mem q2 = mem ?q"
    using destroy_loop_keeps by blast
  moreover have "destroy_loop (Some x) q = destroy_loop (Some x) ?q"
    using q1(1) n by (simp add: destroy_loop.simps [of "Some x" q] free_task_def)
  ultimately show ?thesis using q1(3) by simp
qed

text \<open>On an empty queue, with the variable null, it does not end at all.\<close>

lemma destroy_loop_diverges:
  assumes "destroy_loop task q = Some r"
  shows "\<not> (task = None \<and> head q = None)"
proof (rule destroy_loop.raw_induct [OF _ assms])
  fix f :: "nat option \<Rightarrow> task_queue_s \<Rightarrow> task_queue_s option" and task q r
  assume ih: "\<And>t p s. f t p = Some s \<Longrightarrow> \<not> (t = None \<and> head p = None)"
    and b: "(pop_task q \<bind> (\<lambda>(t, q). if task = t then free_task q task \<bind> f task else Some q)) = Some r"
  show "\<not> (task = None \<and> head q = None)"
  proof
    assume e: "task = None \<and> head q = None"
    then have "f None q = Some r" using b by (simp add: pop_task_def free_task_def)
    then show False using ih e by blast
  qed
qed

subsection \<open>Properties\<close>

text \<open>
  The pointer queue is a first-in-first-out queue: after any sequence of posts and pops,
  the tasks popped, followed by those still linked, are the tasks that were there first
  followed by the tasks added, in this order.
\<close>

theorem task_queue_is_fifo:
  assumes "pool_run loose add_task pop_task q added popped q'" "holds q xs"
  shows "\<exists>ys. holds q' ys \<and> xs @ added = popped @ ys"
  by (rule spin.run_fifo [OF assms])

definition two_tasks :: task_queue_s where
  "two_tasks = \<lparr>head = Some 1, tail = Next_of 2, block = 1,
     mem = [1 \<mapsto> \<lparr>tnext = Some 2, handler = 10, arg = 100\<rparr>, 2 \<mapsto> \<lparr>tnext = None, handler = 20, arg = 200\<rparr>]\<rparr>"

lemma two_tasks_holds: "holds two_tasks [1, 2]"
  by (simp add: two_tasks_def holds_def tail_of_def)

theorem task_queue_is_fifo_witness:
  "\<exists>q' ys. pool_run loose add_task pop_task two_tasks [] [1] q' \<and> holds q' ys \<and> [1, 2] @ [] = [1] @ ys"
proof -
  obtain q' where "pop_task two_tasks = Some (Some 1, q')" using pop_task_Cons [OF two_tasks_holds] by blast
  then have r: "pool_run loose add_task pop_task two_tasks [] [1] q'"
    using run_take [of loose add_task pop_task two_tasks "[]" "[]" two_tasks 1 q'] by (simp add: run_start)
  from task_queue_is_fifo [OF r two_tasks_holds] r show ?thesis by blast
qed

text \<open>
  A task that is posted while the pool runs is executed with its own handler and argument, after
  exactly the tasks posted before it, and its block is freed: posting to a pool whose queue is
  empty and then running a worker calls the handler and leaves the queue as it was.
\<close>

theorem post_then_work:
  assumes "holds (task_queue pool) []" "quit pool = 0" "mem (task_queue pool) t = None"
  shows "\<exists>pool1 pool2. thread_pool_post pool (Some t) h a = Some (0, pool1) \<and>
    thread_pool_worker pool1 = Some (Calls h a, pool2) \<and> holds (task_queue pool2) [] \<and>
    mem (task_queue pool2) = mem (task_queue pool)"
proof -
  let ?q = "(task_queue pool)\<lparr>mem := (mem (task_queue pool))(t \<mapsto> \<lparr>tnext = None, handler = h, arg = a\<rparr>)\<rparr>"
  have h: "head (task_queue pool) = None" "tail (task_queue pool) = Head"
    using assms(1) by (simp_all add: holds_def tail_of_def)
  then have "add_task ?q t = Some (?q\<lparr>head := Some t, tail := Next_of t\<rparr>)"
    by (simp add: add_task_def write_link_def)
  then have "thread_pool_post pool (Some t) h a = Some (0, pool\<lparr>task_queue := ?q\<lparr>head := Some t, tail := Next_of t\<rparr>\<rparr>)"
    using assms(2) by (simp add: thread_pool_post_def Let_def)
  moreover have "(mem (task_queue pool))(t := None) = mem (task_queue pool)" using assms(3) by (simp add: fun_upd_idem)
  ultimately show ?thesis using assms(2) h
    by (simp add: thread_pool_worker_def get_task_round_def pop_task_def free_task_def Let_def holds_def tail_of_def)
qed

theorem post_then_work_witness:
  "\<exists>pool1 pool2. thread_pool_post \<lparr>task_queue = two_tasks\<lparr>head := None, tail := Head\<rparr>, quit = 0, thread_count = 0, threads = [], blocks = {}\<rparr>
      (Some 9) 5 6 = Some (0, pool1) \<and> thread_pool_worker pool1 = Some (Calls 5 6, pool2) \<and> holds (task_queue pool2) [] \<and>
    mem (task_queue pool2) = mem (task_queue \<lparr>task_queue = two_tasks\<lparr>head := None, tail := Head\<rparr>, quit = 0, thread_count = 0, threads = [], blocks = {}\<rparr>)"
  by (rule post_then_work) (simp_all add: holds_def tail_of_def two_tasks_def)

text \<open>
  After \<open>thread_pool_terminate\<close> the pool takes no more tasks and its workers end, even
  though tasks are still queued.
\<close>

theorem terminate_stops_pool:
  "thread_pool_post (thread_pool_terminate pool) mal h a = Some (-1, thread_pool_terminate pool) \<and>
   thread_pool_worker (thread_pool_terminate pool) = Some (Ends, thread_pool_terminate pool)"
  by (simp add: thread_pool_post_def thread_pool_terminate_def thread_pool_worker_def)

text \<open>
  The pool leaks.  \<open>__task_queue_destroy\<close> frees nothing, so after \<open>thread_pool_waitdone\<close> the
  queue is still allocated, and a creation that fails because not every thread could be started
  returns null and leaves both the queue and the array of threads behind.
\<close>

theorem pool_leaks:
  assumes "created < n"
  shows "thread_pool_create_spin m n True True 0 0 0 True created = (None, {B_queue, B_threads}) \<and>
    (\<exists>pool. thread_pool_create_spin m n True True 0 0 0 True n = (Some pool, {B_pool, B_queue, B_threads}) \<and>
      length (threads pool) = n \<and> fst (thread_pool_waitdone pool) = {B_queue})"
  using assms
  by (auto simp: thread_pool_create_spin_def task_queue_create_def threads_create_def threads_terminate_def
      task_queue_destroy_def thread_pool_waitdone_def Let_def)

theorem pool_leaks_witness:
  "thread_pool_create_spin Map.empty 8 True True 0 0 0 True 3 = (None, {B_queue, B_threads}) \<and>
    (\<exists>pool. thread_pool_create_spin Map.empty 8 True True 0 0 0 True 8 = (Some pool, {B_pool, B_queue, B_threads}) \<and>
      length (threads pool) = 8 \<and> fst (thread_pool_waitdone pool) = {B_queue})"
  by (rule pool_leaks) simp

text \<open>
  C34.  The loop of \<open>__thread_pool_destroy\<close> compares where it means to assign.  Whatever the queue holds and whatever is in the
  uninitialised variable, one of three things happens.  The queue is empty and the variable null: popping and freeing the null
  pointer changes nothing, and the loop does not end.  The variable holds the first task: it is freed, and the task after it
  is taken off and leaked.  Otherwise the first task, if there is one, is taken off and nothing is freed.  All further tasks stay
  in the queue, and none of them is freed.
\<close>

theorem destroy_loop_is_broken:
  assumes "holds q xs"
  shows "if xs = [] \<and> task = None
    then pop_task q = Some (None, q) \<and> free_task q None = Some q \<and> destroy_loop task q = None
    else \<exists>q'. destroy_loop task q = Some q' \<and>
      (if xs \<noteq> [] \<and> task = Some (hd xs) then holds q' (drop 2 xs) \<and> mem q' = (mem q)(hd xs := None)
       else holds q' (drop 1 xs) \<and> mem q' = mem q)"
proof (cases xs)
  case Nil
  have "destroy_loop None q = None" using destroy_loop_diverges [of None q] assms Nil by (cases "destroy_loop None q") (auto simp: holds_def)
  then show ?thesis using Nil pop_task_Nil [of q] destroy_loop_keeps [OF assms, of task] assms by (auto simp: free_task_def)
next
  case (Cons x ys)
  then show ?thesis using destroy_loop_keeps [OF assms, of task] destroy_loop_frees [of q x ys] assms
    by (auto simp: numeral_2_eq_2)
qed

theorem destroy_loop_is_broken_witness:
  "(\<exists>q'. destroy_loop (Some 1) two_tasks = Some q' \<and> holds q' [] \<and> mem q' 1 = None \<and> mem q' 2 \<noteq> None) \<and>
   (\<exists>q'. destroy_loop None two_tasks = Some q' \<and> holds q' [2] \<and> mem q' = mem two_tasks) \<and>
   destroy_loop None (two_tasks\<lparr>head := None, tail := Head\<rparr>) = None"
proof -
  have "holds (two_tasks\<lparr>head := None, tail := Head\<rparr>) []" by (simp add: holds_def tail_of_def)
  from destroy_loop_is_broken [OF this, of None] have "destroy_loop None (two_tasks\<lparr>head := None, tail := Head\<rparr>) = None" by simp
  moreover have "mem two_tasks 2 \<noteq> None" by (simp add: two_tasks_def)
  ultimately show ?thesis
    using destroy_loop_is_broken [OF two_tasks_holds, of "Some 1"] destroy_loop_is_broken [OF two_tasks_holds, of None] by auto
qed

end
