(* ===== verification/Spin_Conc.thy ===== *)
theory Spin_Conc
  imports Spin_Queue
begin

text \<open>
  The spin-lock pool under concurrency
  (\<open>system-programming/threadpool/spinlock-version/threadpool.c\<close> with the lock of
  \<open>spinlock.h\<close>).  Any number of threads post tasks, work and terminate the pool; between any
  two accesses to the shared queue any other thread may run.  Shown for every reachable state: the
  lock excludes, the queue's pointers are always valid, and the tasks leave the queue in exactly the
  order in which they entered it.  Also shown: a task can be queued while every worker sleeps and
  no wake-up is under way, because the signal is sent without holding the mutex.
\<close>

subsection \<open>Threads\<close>

text \<open>The place of a thread: outside the pool, in \<open>__add_task\<close> before the lock, before the write
  through \<open>tail\<close>, before the write of \<open>tail\<close>, before the unlock and before the signal; in
  the worker's loop, in \<open>__pop_task\<close> and in \<open>__get_task\<close> before the mutex, waiting, and with a task
  in hand; and in \<open>thread_pool_terminate\<close>.\<close>

datatype pc = Idle | Lock_add nat | Write_tail nat | Move_tail nat | Unlock_add | Signal
  | Loop | Lock_pop | Read_head | Take_head nat | Fix_tail nat | Unlock_pop nat | Unlock_empty
  | Mutex | Asleep | Run nat | Ended | Set_block | Broadcast

text \<open>Besides the queue, the lock word and the flag of the pool, the state records the tasks linked
  and the tasks taken so far, and the tasks in the queue.\<close>

record conc =
  queue :: task_queue_s
  lock :: int
  quitting :: int
  pcs :: "nat \<Rightarrow> pc"
  posted :: "nat list"
  taken :: "nat list"
  content :: "nat list"

definition goto :: "conc \<Rightarrow> nat \<Rightarrow> pc \<Rightarrow> conc" where
  "goto s i p = s\<lparr>pcs := (pcs s)(i := p)\<rparr>"

text \<open>\<open>spinlock_lock\<close>: the atomic exchange succeeds when the lock word was clear, and is tried
  again otherwise.\<close>

definition spinlock_trylock :: "conc \<Rightarrow> bool \<times> conc" where
  "spinlock_trylock s = (lock s = 0, s\<lparr>lock := 1\<rparr>)"

definition spinlock_unlock :: "conc \<Rightarrow> conc" where
  "spinlock_unlock s = s\<lparr>lock := 0\<rparr>"

definition wake_all :: "(nat \<Rightarrow> pc) \<Rightarrow> nat \<Rightarrow> pc" where
  "wake_all p i = (if p i = Asleep then Lock_pop else p i)"

inductive conc_step :: "conc \<Rightarrow> conc \<Rightarrow> bool" where
  post: "pcs s i = Idle \<Longrightarrow> quitting s \<noteq> 1 \<Longrightarrow> mem (queue s) t = None \<Longrightarrow>
    conc_step s (goto (s\<lparr>queue := (queue s)\<lparr>mem := (mem (queue s))(t \<mapsto> \<lparr>tnext = None, handler = h, arg = a\<rparr>)\<rparr>\<rparr>)
      i (Lock_add t))"
| lock_add: "pcs s i = Lock_add t \<Longrightarrow> spinlock_trylock s = (True, s') \<Longrightarrow> conc_step s (goto s' i (Write_tail t))"
| write_tail: "pcs s i = Write_tail t \<Longrightarrow> write_link (queue s) (tail (queue s)) (Some t) = Some q \<Longrightarrow>
    conc_step s (goto (s\<lparr>queue := q, posted := posted s @ [t], content := content s @ [t]\<rparr>) i (Move_tail t))"
| move_tail: "pcs s i = Move_tail t \<Longrightarrow>
    conc_step s (goto (s\<lparr>queue := (queue s)\<lparr>tail := Next_of t\<rparr>\<rparr>) i Unlock_add)"
| unlock_add: "pcs s i = Unlock_add \<Longrightarrow> conc_step s (goto (spinlock_unlock s) i Signal)"
| signal_one: "pcs s i = Signal \<Longrightarrow> pcs s w = Asleep \<Longrightarrow> conc_step s (goto (goto s w Lock_pop) i Idle)"
| signal_none: "pcs s i = Signal \<Longrightarrow> (\<And>w. pcs s w \<noteq> Asleep) \<Longrightarrow> conc_step s (goto s i Idle)"
| loop_quit: "pcs s i = Loop \<Longrightarrow> quitting s \<noteq> 0 \<Longrightarrow> conc_step s (goto s i Ended)"
| loop_go: "pcs s i = Loop \<Longrightarrow> quitting s = 0 \<Longrightarrow> conc_step s (goto s i Lock_pop)"
| lock_pop: "pcs s i = Lock_pop \<Longrightarrow> spinlock_trylock s = (True, s') \<Longrightarrow> conc_step s (goto s' i Read_head)"
| read_empty: "pcs s i = Read_head \<Longrightarrow> head (queue s) = None \<Longrightarrow> conc_step s (goto s i Unlock_empty)"
| read_head: "pcs s i = Read_head \<Longrightarrow> head (queue s) = Some t \<Longrightarrow> conc_step s (goto s i (Take_head t))"
| take_head: "pcs s i = Take_head t \<Longrightarrow> mem (queue s) t = Some n \<Longrightarrow>
    conc_step s (goto (s\<lparr>queue := (queue s)\<lparr>head := tnext n\<rparr>, taken := taken s @ [t], content := tl (content s)\<rparr>) i (Fix_tail t))"
| fix_tail: "pcs s i = Fix_tail t \<Longrightarrow>
    conc_step s (goto (if head (queue s) = None then s\<lparr>queue := (queue s)\<lparr>tail := Head\<rparr>\<rparr> else s) i (Unlock_pop t))"
| unlock_pop: "pcs s i = Unlock_pop t \<Longrightarrow> conc_step s (goto (spinlock_unlock s) i (Run t))"
| unlock_empty: "pcs s i = Unlock_empty \<Longrightarrow> conc_step s (goto (spinlock_unlock s) i Mutex)"
| mutex_closed: "pcs s i = Mutex \<Longrightarrow> block (queue s) = 0 \<Longrightarrow> conc_step s (goto s i Ended)"
| mutex_wait: "pcs s i = Mutex \<Longrightarrow> block (queue s) \<noteq> 0 \<Longrightarrow> conc_step s (goto s i Asleep)"
| run_task: "pcs s i = Run t \<Longrightarrow> free_task (queue s) (Some t) = Some q \<Longrightarrow> conc_step s (goto (s\<lparr>queue := q\<rparr>) i Loop)"
| terminate: "pcs s i = Idle \<Longrightarrow> conc_step s (goto (s\<lparr>quitting := 1\<rparr>) i Set_block)"
| set_block: "pcs s i = Set_block \<Longrightarrow> conc_step s (goto (s\<lparr>queue := nonblock (queue s)\<rparr>) i Broadcast)"
| broadcast: "pcs s i = Broadcast \<Longrightarrow> conc_step s (s\<lparr>pcs := (wake_all (pcs s))(i := Idle)\<rparr>)"

definition conc_init :: "conc \<Rightarrow> bool" where
  "conc_init s \<longleftrightarrow> queue s = \<lparr>head = None, tail = Head, block = 1, mem = Map.empty\<rparr> \<and> lock s = 0 \<and>
     quitting s = 0 \<and> (\<forall>i. pcs s i = Idle \<or> pcs s i = Loop) \<and> posted s = [] \<and> taken s = [] \<and> content s = []"

subsection \<open>The invariant\<close>

fun critical :: "pc \<Rightarrow> bool" where
  "critical (Write_tail t) = True"
| "critical (Move_tail t) = True"
| "critical Unlock_add = True"
| "critical Read_head = True"
| "critical (Take_head t) = True"
| "critical (Fix_tail t) = True"
| "critical (Unlock_pop t) = True"
| "critical Unlock_empty = True"
| "critical _ = False"

text \<open>The task that only the thread at this place may touch.\<close>

fun own :: "pc \<Rightarrow> nat option" where
  "own (Lock_add t) = Some t"
| "own (Write_tail t) = Some t"
| "own (Fix_tail t) = Some t"
| "own (Unlock_pop t) = Some t"
| "own (Run t) = Some t"
| "own _ = None"

fun unposted :: "pc \<Rightarrow> nat option" where
  "unposted (Lock_add t) = Some t"
| "unposted (Write_tail t) = Some t"
| "unposted _ = None"

text \<open>What the queue looks like to the thread in the critical section.\<close>

fun shape :: "pc \<Rightarrow> task_queue_s \<Rightarrow> nat list \<Rightarrow> bool" where
  "shape (Move_tail t) q xs = (chain (mem q) (head q) xs \<and> distinct xs \<and> xs \<noteq> [] \<and> last xs = t)"
| "shape (Take_head t) q xs = (holds q xs \<and> xs \<noteq> [] \<and> hd xs = t)"
| "shape (Fix_tail t) q xs = (chain (mem q) (head q) xs \<and> distinct xs \<and> tail q = tail_of (t # xs))"
| "shape _ q xs = holds q xs"

definition lock_inv :: "int \<Rightarrow> (nat \<Rightarrow> pc) \<Rightarrow> bool" where
  "lock_inv l p \<longleftrightarrow> (\<forall>i. critical (p i) \<longrightarrow> l = 1) \<and>
     (\<forall>i j. critical (p i) \<longrightarrow> critical (p j) \<longrightarrow> i = j) \<and> (l = 0 \<or> (\<exists>i. critical (p i)))"

definition own_inv :: "(nat \<Rightarrow> pc) \<Rightarrow> task_queue_s \<Rightarrow> nat list \<Rightarrow> bool" where
  "own_inv p q xs \<longleftrightarrow> (\<forall>i t. own (p i) = Some t \<longrightarrow> mem q t \<noteq> None \<and> t \<notin> set xs) \<and>
     (\<forall>i j t. own (p i) = Some t \<longrightarrow> own (p j) = Some t \<longrightarrow> i = j) \<and>
     (\<forall>i t n. unposted (p i) = Some t \<longrightarrow> mem q t = Some n \<longrightarrow> tnext n = None)"

definition shape_inv :: "(nat \<Rightarrow> pc) \<Rightarrow> task_queue_s \<Rightarrow> nat list \<Rightarrow> bool" where
  "shape_inv p q xs \<longleftrightarrow> (\<forall>i. critical (p i) \<longrightarrow> shape (p i) q xs) \<and> ((\<forall>i. \<not> critical (p i)) \<longrightarrow> holds q xs)"

definition conc_inv :: "conc \<Rightarrow> bool" where
  "conc_inv s \<longleftrightarrow> lock_inv (lock s) (pcs s) \<and> own_inv (pcs s) (queue s) (content s) \<and>
     shape_inv (pcs s) (queue s) (content s) \<and> posted s = taken s @ content s"

lemma conc_invE:
  assumes "conc_inv s"
  obtains "lock_inv (lock s) (pcs s)" "own_inv (pcs s) (queue s) (content s)" "shape_inv (pcs s) (queue s) (content s)"
    "posted s = taken s @ content s"
  using assms by (simp add: conc_inv_def)

lemma own_inv_D:
  assumes "own_inv p q xs"
  shows "own (p i) = Some t \<Longrightarrow> mem q t \<noteq> None" "own (p i) = Some t \<Longrightarrow> t \<notin> set xs"
    "own (p i) = Some t \<Longrightarrow> own (p j) = Some t \<Longrightarrow> i = j"
    "unposted (p i) = Some t \<Longrightarrow> mem q t = Some n \<Longrightarrow> tnext n = None"
  using assms unfolding own_inv_def by blast+

lemma unposted_own: "unposted p = Some t \<Longrightarrow> own p = Some t"
  by (cases p) auto

lemma own_inv_shrink:
  assumes "own_inv p q xs" "\<And>j u. own (p' j) = Some u \<Longrightarrow> own (p j) = Some u \<and> u \<notin> set xs' \<and> mem q' u = mem q u"
    "\<And>j u. unposted (p' j) = Some u \<Longrightarrow> unposted (p j) = Some u"
  shows "own_inv p' q' xs'"
  unfolding own_inv_def
proof (intro conjI allI impI)
  fix j v assume "own (p' j) = Some v"
  then have v: "own (p j) = Some v" "v \<notin> set xs'" "mem q' v = mem q v" using assms(2) by auto
  then show "mem q' v \<noteq> None" "v \<notin> set xs'" using own_inv_D(1) [OF assms(1) v(1)] by auto
next
  fix j k v assume "own (p' j) = Some v" "own (p' k) = Some v"
  then have "own (p j) = Some v" "own (p k) = Some v" using assms(2) by blast+
  then show "j = k" by (rule own_inv_D(3) [OF assms(1)])
next
  fix j v n assume a: "unposted (p' j) = Some v" "mem q' v = Some n"
  then have "mem q v = Some n" using assms(2) [OF unposted_own [OF a(1)]] by simp
  then show "tnext n = None" by (rule own_inv_D(4) [OF assms(1) assms(3) [OF a(1)]])
qed

lemma own_inv_goto:
  assumes "own_inv p q xs" "own x = None \<or> own x = own (p i)" "unposted x = None \<or> unposted x = unposted (p i)"
  shows "own_inv (p(i := x)) q xs"
proof -
  have sub: "own ((p(i := x)) j) = Some t \<Longrightarrow> own (p j) = Some t"
    "unposted ((p(i := x)) j) = Some t \<Longrightarrow> unposted (p j) = Some t" for j t
    using assms(2,3) by (auto split: if_splits)
  then show ?thesis using own_inv_D(2) [OF assms(1)] by (intro own_inv_shrink [OF assms(1)]) blast+
qed

text \<open>A thread that stays outside the critical section.\<close>

lemma step_outside:
  assumes "conc_inv s" "\<not> critical (pcs s i)" "\<not> critical x" "own x = None \<or> own x = own (pcs s i)"
    "unposted x = None \<or> unposted x = unposted (pcs s i)"
  shows "conc_inv (goto s i x)"
proof -
  have c: "critical (((pcs s)(i := x)) j) = critical (pcs s j)" for j using assms(2,3) by simp
  have "shape_inv ((pcs s)(i := x)) (queue s) (content s)"
    unfolding shape_inv_def c
  proof (intro conjI allI impI)
    fix j assume j: "critical (pcs s j)"
    then have "((pcs s)(i := x)) j = pcs s j" using assms(2) by auto
    then show "shape (((pcs s)(i := x)) j) (queue s) (content s)"
      using j assms(1) by (simp add: conc_inv_def shape_inv_def)
  qed (use assms(1) in \<open>simp add: conc_inv_def shape_inv_def\<close>)
  moreover have "own_inv ((pcs s)(i := x)) (queue s) (content s)"
    using assms by (intro own_inv_goto) (auto simp: conc_inv_def)
  moreover have "lock_inv (lock s) ((pcs s)(i := x))"
    using assms(1) unfolding conc_inv_def lock_inv_def c by blast
  ultimately show ?thesis using assms(1) by (simp add: conc_inv_def goto_def)
qed

text \<open>A thread that acquires, and one that releases the lock.\<close>

lemma step_enter:
  assumes "conc_inv s" "lock s = 0" "critical x" "own x = own (pcs s i)" "unposted x = unposted (pcs s i)"
    "shape x = holds"
  shows "conc_inv (goto (s\<lparr>lock := 1\<rparr>) i x)"
proof -
  have n: "\<not> critical (pcs s j)" for j using assms(1,2) by (auto simp: conc_inv_def lock_inv_def)
  then have h: "holds (queue s) (content s)" using assms(1) by (simp add: conc_inv_def shape_inv_def)
  have "own_inv ((pcs s)(i := x)) (queue s) (content s)"
    using assms by (intro own_inv_goto) (auto simp: conc_inv_def)
  moreover have "shape_inv ((pcs s)(i := x)) (queue s) (content s)"
    using h n assms(6) by (auto simp: shape_inv_def)
  moreover have "lock_inv 1 ((pcs s)(i := x))" using assms(3) n by (auto simp: lock_inv_def)
  ultimately show ?thesis using assms(1) by (simp add: conc_inv_def goto_def)
qed

lemma step_leave:
  assumes "conc_inv s" "critical (pcs s i)" "\<not> critical x" "own x = own (pcs s i)" "unposted x = unposted (pcs s i)"
    "shape (pcs s i) = holds"
  shows "conc_inv (goto (spinlock_unlock s) i x)"
proof -
  have n: "\<not> critical (pcs s j)" if "j \<noteq> i" for j using assms(1,2) that by (auto simp: conc_inv_def lock_inv_def)
  have "shape (pcs s i) (queue s) (content s)" using assms(1,2) by (simp add: conc_inv_def shape_inv_def)
  then have h: "holds (queue s) (content s)" by (simp only: assms(6))
  have "own_inv ((pcs s)(i := x)) (queue s) (content s)"
    using assms by (intro own_inv_goto) (auto simp: conc_inv_def)
  moreover have "shape_inv ((pcs s)(i := x)) (queue s) (content s)"
    using h n assms(3) by (auto simp: shape_inv_def)
  moreover have "lock_inv 0 ((pcs s)(i := x))" using assms(3) n by (auto simp: lock_inv_def)
  ultimately show ?thesis using assms(1) by (simp add: conc_inv_def goto_def spinlock_unlock_def)
qed

text \<open>The thread in the critical section works on the queue.\<close>

lemma step_inside:
  assumes "conc_inv s" "critical (pcs s i)" "critical x" "shape x q xs" "own_inv ((pcs s)(i := x)) q xs"
    "ps = ts @ xs"
  shows "conc_inv (goto (s\<lparr>queue := q, posted := ps, taken := ts, content := xs\<rparr>) i x)"
proof -
  have n: "\<not> critical (pcs s j)" if "j \<noteq> i" for j using assms(1,2) that by (auto simp: conc_inv_def lock_inv_def)
  have "shape_inv ((pcs s)(i := x)) q xs" using n assms(3,4) by (auto simp: shape_inv_def)
  moreover have "lock s = 1" using assms(1,2) by (auto simp: conc_inv_def lock_inv_def)
  then have "lock_inv (lock s) ((pcs s)(i := x))" using n assms(3) by (auto simp: lock_inv_def)
  ultimately show ?thesis using assms(5,6) by (simp add: conc_inv_def goto_def)
qed

lemma inside_shape: "conc_inv s \<Longrightarrow> critical (pcs s i) \<Longrightarrow> shape (pcs s i) (queue s) (content s)"
  by (simp add: conc_inv_def shape_inv_def)

lemma step_write_tail:
  assumes "conc_inv s" "pcs s i = Write_tail t"
  shows "\<exists>q. write_link (queue s) (tail (queue s)) (Some t) = Some q \<and>
    conc_inv (goto (s\<lparr>queue := q, posted := posted s @ [t], content := content s @ [t]\<rparr>) i (Move_tail t))"
proof -
  let ?q = "queue s" and ?xs = "content s"
  have h: "holds ?q ?xs" using inside_shape [OF assms(1), of i] assms(2) by simp
  have o: "own_inv (pcs s) ?q ?xs" and ps: "posted s = taken s @ ?xs" using assms(1) by (auto elim: conc_invE)
  note D = own_inv_D [OF o]
  obtain n where n: "mem ?q t = Some n" using D(1) [of i t] assms(2) by auto
  have t: "t \<notin> set ?xs" "tnext n = None" using D(2) [of i t] D(4) [of i t n] n assms(2) by auto
  have c: "chain (mem ?q) (head ?q) ?xs" "distinct ?xs" "tail ?q = tail_of ?xs" using h by (auto simp: holds_def)
  from Spin_Queue.write_tail [OF c(1,2) t(1) n t(2)] obtain q where
    q: "write_link ?q (tail_of ?xs) (Some t) = Some q" "chain (mem q) (head q) (?xs @ [t])"
      "\<forall>a. a \<notin> set ?xs \<longrightarrow> mem q a = mem ?q a" "\<forall>a. (mem q a = None) = (mem ?q a = None)" by auto
  have p: "own (((pcs s)(i := Move_tail t)) j) = Some u \<Longrightarrow> own (pcs s j) = Some u \<and> u \<noteq> t" for j u
    using D(3) [of i t j] assms(2) by (cases "j = i") auto
  have u: "unposted (((pcs s)(i := Move_tail t)) j) = Some u \<Longrightarrow> unposted (pcs s j) = Some u" for j u
    by (cases "j = i") auto
  have "own_inv ((pcs s)(i := Move_tail t)) q (?xs @ [t])"
    unfolding own_inv_def
  proof (intro conjI allI impI)
    fix j v assume "own (((pcs s)(i := Move_tail t)) j) = Some v"
    with p have v: "own (pcs s j) = Some v" "v \<noteq> t" by auto
    then show "mem q v \<noteq> None" "v \<notin> set (?xs @ [t])" using D(1,2) [of j v] q(4) by auto
  next
    fix j k v assume "own (((pcs s)(i := Move_tail t)) j) = Some v" "own (((pcs s)(i := Move_tail t)) k) = Some v"
    then show "j = k" using p D(3) by blast
  next
    fix j v n' assume a: "unposted (((pcs s)(i := Move_tail t)) j) = Some v" "mem q v = Some n'"
    then have "unposted (pcs s j) = Some v" using u by blast
    then show "tnext n' = None" using D(2) [of j v] D(4) [of j v n'] unposted_own a(2) q(3) by auto
  qed
  then have "conc_inv (goto (s\<lparr>queue := q, posted := posted s @ [t], taken := taken s, content := ?xs @ [t]\<rparr>) i (Move_tail t))"
    using q(2) c(2) t(1) ps assms by (intro step_inside) auto
  then show ?thesis using q(1) c(3) by auto
qed

lemma step_take_head:
  assumes "conc_inv s" "pcs s i = Take_head t"
  shows "\<exists>n. mem (queue s) t = Some n \<and>
    conc_inv (goto (s\<lparr>queue := (queue s)\<lparr>head := tnext n\<rparr>, taken := taken s @ [t], content := tl (content s)\<rparr>) i (Fix_tail t))"
proof -
  let ?q = "queue s" and ?xs = "content s"
  have o: "own_inv (pcs s) ?q ?xs" and ps: "posted s = taken s @ ?xs" using assms(1) by (auto elim: conc_invE)
  note D = own_inv_D [OF o]
  have "holds ?q ?xs" "?xs \<noteq> []" "hd ?xs = t" using inside_shape [OF assms(1), of i] assms(2) by auto
  then obtain ys where ys: "?xs = t # ys" "holds ?q (t # ys)" by (cases ?xs) auto
  then obtain n where n: "mem ?q t = Some n" "chain (mem ?q) (tnext n) ys" "t \<notin> set ys" "distinct ys"
    "tail ?q = tail_of (t # ys)" by (auto simp: holds_def)
  have "own (pcs s j) \<noteq> Some t" for j using D(2) [of j t] ys(1) by auto
  then have "own_inv ((pcs s)(i := Fix_tail t)) (?q\<lparr>head := tnext n\<rparr>) ys"
    using o n(1,3) ys(1) by (auto simp: own_inv_def)
  then have "conc_inv (goto (s\<lparr>queue := ?q\<lparr>head := tnext n\<rparr>, posted := posted s, taken := taken s @ [t], content := ys\<rparr>) i (Fix_tail t))"
    using n ps ys(1) assms by (intro step_inside) auto
  then show ?thesis using n(1) ys(1) by simp
qed

text \<open>Tasks outside the queue may be allocated and freed at any time.\<close>

lemma shape_frame:
  assumes "shape p q xs" "t \<notin> set xs"
  shows "shape p (q\<lparr>mem := (mem q)(t := v)\<rparr>) xs"
proof -
  have "chain (mem q) l xs \<Longrightarrow> chain ((mem q)(t := v)) l xs" for l
    using assms(2) by (auto intro: chain_frame)
  then show ?thesis using assms(1) by (cases p) (auto simp: holds_def)
qed

lemma shape_chain: "shape p q xs \<Longrightarrow> chain (mem q) (head q) xs"
  by (cases p) (auto simp: holds_def)

lemma inv_chain: "shape_inv p q xs \<Longrightarrow> chain (mem q) (head q) xs"
  unfolding shape_inv_def holds_def by (metis shape_chain)

lemma step_heap:
  assumes "conc_inv s" "\<not> critical (pcs s i)" "\<not> critical x" "t \<notin> set (content s)"
    "own_inv ((pcs s)(i := x)) ((queue s)\<lparr>mem := (mem (queue s))(t := v)\<rparr>) (content s)"
  shows "conc_inv (goto (s\<lparr>queue := (queue s)\<lparr>mem := (mem (queue s))(t := v)\<rparr>\<rparr>) i x)"
proof -
  let ?q = "(queue s)\<lparr>mem := (mem (queue s))(t := v)\<rparr>" and ?p = "(pcs s)(i := x)"
  have sh: "shape_inv (pcs s) (queue s) (content s)" and l: "lock_inv (lock s) (pcs s)"
    and ps: "posted s = taken s @ content s" using assms(1) by (auto elim: conc_invE)
  have c: "critical (?p j) = critical (pcs s j)" for j using assms(2,3) by simp
  have "shape_inv ?p ?q (content s)"
    unfolding shape_inv_def
  proof (intro conjI allI impI)
    fix j assume j: "critical (?p j)"
    then have "?p j = pcs s j" using assms(3) by (cases "j = i") auto
    then show "shape (?p j) ?q (content s)"
      using j sh by (auto simp: shape_inv_def intro: shape_frame [OF _ assms(4)])
  next
    assume "\<forall>j. \<not> critical (?p j)"
    then have "shape Idle (queue s) (content s)" using sh c by (simp add: shape_inv_def)
    from shape_frame [OF this assms(4)] show "holds ?q (content s)" by simp
  qed
  moreover have "lock_inv (lock s) ?p" using l unfolding lock_inv_def c by blast
  ultimately show ?thesis using ps assms(5) by (simp add: conc_inv_def goto_def)
qed

lemma step_post:
  assumes "conc_inv s" "pcs s i = Idle" "mem (queue s) t = None" "tnext n = None"
  shows "conc_inv (goto (s\<lparr>queue := (queue s)\<lparr>mem := (mem (queue s))(t \<mapsto> n)\<rparr>\<rparr>) i (Lock_add t))"
proof (rule step_heap [OF assms(1)])
  let ?p = "(pcs s)(i := Lock_add t)" and ?q = "(queue s)\<lparr>mem := (mem (queue s))(t \<mapsto> n)\<rparr>"
  have o: "own_inv (pcs s) (queue s) (content s)" and sh: "shape_inv (pcs s) (queue s) (content s)"
    using assms(1) by (auto elim: conc_invE)
  note D = own_inv_D [OF o]
  show t: "t \<notin> set (content s)" using chain_live [OF inv_chain [OF sh], of t] assms(3) by blast
  have old: "own (?p j) = Some u \<Longrightarrow> j \<noteq> i \<Longrightarrow> own (pcs s j) = Some u \<and> u \<noteq> t" for j u
    using D(1) [of j u] assms(3) by auto
  have new: "own (?p i) = Some u \<longleftrightarrow> u = t" for u by auto
  show "own_inv ?p ?q (content s)"
    unfolding own_inv_def
  proof (intro conjI allI impI)
    fix j v assume v: "own (?p j) = Some v"
    show "mem ?q v \<noteq> None" "v \<notin> set (content s)"
      using v old [OF v] new [of v] D(1,2) [of j v] t by (cases "j = i"; auto)+
  next
    fix j k v assume "own (?p j) = Some v" "own (?p k) = Some v"
    then show "j = k" using old [of j v] old [of k v] new [of v] D(3) [of j v k]
      by (cases "j = i"; cases "k = i") auto
  next
    fix j v n' assume v: "unposted (?p j) = Some v" "mem ?q v = Some n'"
    show "tnext n' = None"
    proof (cases "j = i")
      case True
      then show ?thesis using v assms(4) by auto
    next
      case False
      then show ?thesis using v old [OF unposted_own [OF v(1)]] D(4) [of j v n'] by auto
    qed
  qed
qed (use assms(2) in simp_all)

lemma step_run:
  assumes "conc_inv s" "pcs s i = Run t"
  shows "\<exists>q. free_task (queue s) (Some t) = Some q \<and> conc_inv (goto (s\<lparr>queue := q\<rparr>) i Loop)"
proof -
  have o: "own_inv (pcs s) (queue s) (content s)" using assms(1) by (auto elim: conc_invE)
  note D = own_inv_D [OF o]
  have t: "mem (queue s) t \<noteq> None" "t \<notin> set (content s)" using D(1,2) [of i t] assms(2) by auto
  have "own_inv ((pcs s)(i := Loop)) ((queue s)\<lparr>mem := (mem (queue s))(t := None)\<rparr>) (content s)"
  proof (rule own_inv_shrink [OF o])
    fix j u assume "own (((pcs s)(i := Loop)) j) = Some u"
    then have "j \<noteq> i" "own (pcs s j) = Some u" by (auto split: if_splits)
    then show "own (pcs s j) = Some u \<and> u \<notin> set (content s) \<and>
        mem ((queue s)\<lparr>mem := (mem (queue s))(t := None)\<rparr>) u = mem (queue s) u"
      using D(2) [of j u] D(3) [of j u i] assms(2) by auto
  qed (auto split: if_splits)
  then have "conc_inv (goto (s\<lparr>queue := (queue s)\<lparr>mem := (mem (queue s))(t := None)\<rparr>\<rparr>) i Loop)"
    using assms(2) by (intro step_heap [OF assms(1) _ _ t(2)]) simp_all
  moreover have "free_task (queue s) (Some t) = Some ((queue s)\<lparr>mem := (mem (queue s))(t := None)\<rparr>)"
    using t(1) by (auto simp: free_task_def)
  ultimately show ?thesis by blast
qed

lemma step_signal:
  assumes "conc_inv s" "pcs s i = Signal" "pcs s w = Asleep"
  shows "conc_inv (goto (goto s w Lock_pop) i Idle)"
proof -
  have "conc_inv (goto s w Lock_pop)" using assms by (intro step_outside) simp_all
  moreover have "pcs (goto s w Lock_pop) i = Signal" using assms(2,3) by (auto simp: goto_def)
  ultimately show ?thesis using step_outside [of "goto s w Lock_pop" i Idle] by simp
qed

lemma step_wake:
  assumes "conc_inv s" "pcs s i = Broadcast"
  shows "conc_inv (s\<lparr>pcs := (wake_all (pcs s))(i := Idle)\<rparr>)"
proof -
  let ?p = "(wake_all (pcs s))(i := Idle)"
  have c: "critical (?p j) = critical (pcs s j)" "own (?p j) = own (pcs s j)" "unposted (?p j) = unposted (pcs s j)"
    "critical (pcs s j) \<Longrightarrow> ?p j = pcs s j" for j
    using assms(2) by (auto simp: wake_all_def)
  have "lock_inv (lock s) ?p" using assms(1) unfolding conc_inv_def lock_inv_def c by blast
  moreover have "own_inv ?p (queue s) (content s)" using assms(1) unfolding conc_inv_def own_inv_def c by blast
  moreover have "shape_inv ?p (queue s) (content s)"
    using assms(1) unfolding conc_inv_def shape_inv_def c by (metis c(4))
  ultimately show ?thesis using assms(1) by (simp add: conc_inv_def)
qed

lemma own_inv_mem: "mem q = mem q' \<Longrightarrow> own_inv p q xs = own_inv p q' xs"
  by (simp add: own_inv_def)

lemma step_pointer:
  assumes "conc_inv s" "critical (pcs s i)" "critical x" "shape x q (content s)" "mem q = mem (queue s)"
    "own x = own (pcs s i)" "unposted x = unposted (pcs s i)"
  shows "conc_inv (goto (s\<lparr>queue := q\<rparr>) i x)"
proof -
  have o: "own_inv (pcs s) (queue s) (content s)" and ps: "posted s = taken s @ content s"
    using assms(1) by (auto elim: conc_invE)
  have "own_inv ((pcs s)(i := x)) (queue s) (content s)" using assms(6,7) by (intro own_inv_goto [OF o]) simp_all
  then have "own_inv ((pcs s)(i := x)) q (content s)" by (simp only: own_inv_mem [OF assms(5)])
  from step_inside [OF assms(1-4) this ps] show ?thesis by simp
qed

lemma conc_step_inv:
  assumes "conc_inv s" "conc_step s s'"
  shows "conc_inv s'"
  using assms(2,1)
proof cases
  case (post i t h a)
  then show ?thesis using step_post [OF assms(1), of i t "\<lparr>tnext = None, handler = h, arg = a\<rparr>"] by simp
next
  case (lock_add i t s1)
  then have "s1 = s\<lparr>lock := 1\<rparr>" "lock s = 0" by (auto simp: spinlock_trylock_def)
  then show ?thesis using lock_add step_enter [OF assms(1), of "Write_tail t" i] by (simp add: fun_eq_iff)
next
  case (write_tail i t q)
  then show ?thesis using step_write_tail [OF assms(1), of i t] by auto
next
  case (move_tail i t)
  then have "shape (Move_tail t) (queue s) (content s)" using inside_shape [OF assms(1), of i] by simp
  then have "shape Unlock_add ((queue s)\<lparr>tail := Next_of t\<rparr>) (content s)" by (simp add: holds_def tail_of_def)
  then show ?thesis using move_tail by (simp add: step_pointer [OF assms(1)])
next
  case (unlock_add i)
  then show ?thesis by (simp add: step_leave [OF assms(1)] fun_eq_iff)
next
  case (signal_one i w)
  then show ?thesis by (simp add: step_signal [OF assms(1)])
next
  case (lock_pop i s1)
  then have "s1 = s\<lparr>lock := 1\<rparr>" "lock s = 0" by (auto simp: spinlock_trylock_def)
  then show ?thesis using lock_pop step_enter [OF assms(1), of Read_head i] by (simp add: fun_eq_iff)
next
  case (read_empty i)
  then have "holds (queue s) (content s)" using inside_shape [OF assms(1), of i] by simp
  then show ?thesis using read_empty step_pointer [OF assms(1), of i Unlock_empty "queue s"] by simp
next
  case (read_head i t)
  then have "holds (queue s) (content s)" using inside_shape [OF assms(1), of i] by simp
  then have "shape (Take_head t) (queue s) (content s)" using read_head
    by (cases "content s") (auto simp: holds_def)
  then show ?thesis using read_head step_pointer [OF assms(1), of i "Take_head t" "queue s"] by simp
next
  case (take_head i t n)
  then show ?thesis using step_take_head [OF assms(1), of i t] by auto
next
  case (fix_tail i t)
  let ?q = "if head (queue s) = None then (queue s)\<lparr>tail := Head\<rparr> else queue s"
  have "shape (Fix_tail t) (queue s) (content s)" using fix_tail inside_shape [OF assms(1), of i] by simp
  then have "shape (Unlock_pop t) ?q (content s)"
    by (cases "content s") (auto simp: holds_def tail_of_def)
  then have "conc_inv (goto (s\<lparr>queue := ?q\<rparr>) i (Unlock_pop t))"
    using fix_tail by (intro step_pointer [OF assms(1)]) simp_all
  then show ?thesis using fix_tail by (auto split: if_splits)
next
  case (unlock_pop i t)
  then show ?thesis by (simp add: step_leave [OF assms(1)] fun_eq_iff)
next
  case (unlock_empty i)
  then show ?thesis by (simp add: step_leave [OF assms(1)] fun_eq_iff)
next
  case (run_task i t q)
  then show ?thesis using step_run [OF assms(1), of i t] by auto
next
  case (terminate i)
  have "conc_inv (s\<lparr>quitting := 1\<rparr>)" using assms(1) by (simp add: conc_inv_def)
  then show ?thesis using terminate by (simp add: step_outside)
next
  case (set_block i)
  have "holds (nonblock q) xs = holds q xs" "shape p (nonblock q) xs = shape p q xs" "mem (nonblock q) = mem q" for p q xs
    by (cases p; simp add: holds_def nonblock_def)+
  then have "conc_inv (s\<lparr>queue := nonblock (queue s)\<rparr>)" using assms(1)
    by (simp add: conc_inv_def shape_inv_def own_inv_def)
  then show ?thesis using set_block by (simp add: step_outside)
next
  case (broadcast i)
  then show ?thesis by (simp add: step_wake [OF assms(1)])
qed (simp_all add: step_outside [OF assms(1)])

interpretation spinpool: invariant_system conc_init conc_step conc_inv
proof
  fix s
  assume i: "conc_init s"
  then have "\<not> critical (pcs s j)" "own (pcs s j) = None" "unposted (pcs s j) = None" for j
    unfolding conc_init_def by (metis critical.simps own.simps unposted.simps)+
  then show "conc_inv s" using i
    by (simp add: conc_init_def conc_inv_def lock_inv_def own_inv_def shape_inv_def holds_def tail_of_def)
qed (rule conc_step_inv)

subsection \<open>Two threads\<close>

text \<open>States of one worker (thread 0) and one producer (thread 1), for the examples.\<close>

definition two_threads :: "pc \<Rightarrow> pc \<Rightarrow> nat \<Rightarrow> pc" where
  "two_threads a b i = (if i = 0 then a else if i = 1 then b else Idle)"

definition duo :: "pc \<Rightarrow> pc \<Rightarrow> task_queue_s \<Rightarrow> int \<Rightarrow> nat list \<Rightarrow> conc" where
  "duo a b q l xs = \<lparr>queue = q, lock = l, quitting = 0, pcs = two_threads a b, posted = xs, taken = [], content = xs\<rparr>"

definition empty_q :: task_queue_s where
  "empty_q = \<lparr>head = None, tail = Head, block = 1, mem = Map.empty\<rparr>"

definition one_q :: task_queue_s where
  "one_q = \<lparr>head = Some 5, tail = Next_of 5, block = 1, mem = [5 \<mapsto> \<lparr>tnext = None, handler = 1, arg = 2\<rparr>]\<rparr>"

lemma two_threads_simps [simp]:
  "two_threads a b 0 = a" "two_threads a b (Suc 0) = b"
  "(two_threads a b)(0 := c) = two_threads c b" "(two_threads a b)(Suc 0 := c) = two_threads a c"
  by (auto simp: two_threads_def)

lemma duo_simps [simp]:
  "pcs (duo a b q l xs) = two_threads a b" "queue (duo a b q l xs) = q" "lock (duo a b q l xs) = l"
  "quitting (duo a b q l xs) = 0"
  "goto (duo a b q l xs) 0 c = duo c b q l xs" "goto (duo a b q l xs) (Suc 0) c = duo a c q l xs"
  "(duo a b q l xs)\<lparr>lock := k\<rparr> = duo a b q k xs" "(duo a b q l xs)\<lparr>queue := p\<rparr> = duo a b p l xs"
  by (simp_all add: duo_def goto_def)

lemma reach_duo:
  "reachable conc_init conc_step s \<Longrightarrow> conc_step s s1 \<Longrightarrow> s1 = s' \<Longrightarrow> reachable conc_init conc_step s'"
  by (auto intro: reach_step)

lemma lock_free_pop: "pcs s i = Lock_pop \<Longrightarrow> lock s = 0 \<Longrightarrow> conc_step s (goto (s\<lparr>lock := 1\<rparr>) i Read_head)"
  and lock_free_add: "pcs s i = Lock_add t \<Longrightarrow> lock s = 0 \<Longrightarrow> conc_step s (goto (s\<lparr>lock := 1\<rparr>) i (Write_tail t))"
  by (auto intro!: lock_pop lock_add simp: spinlock_trylock_def)

lemma reach_loop: "reachable conc_init conc_step (duo Loop Idle empty_q 0 [])"
  by (rule reach_init) (simp add: conc_init_def duo_def two_threads_def empty_q_def)

lemma reach_mutex: "reachable conc_init conc_step (duo Mutex Idle empty_q 0 [])"
proof -
  have 1: "reachable conc_init conc_step (duo Lock_pop Idle empty_q 0 [])"
    by (rule reach_duo [OF reach_loop loop_go [where i = 0]]) simp_all
  have 2: "reachable conc_init conc_step (duo Read_head Idle empty_q 1 [])"
    by (rule reach_duo [OF 1 lock_free_pop [where i = 0]]) simp_all
  have 3: "reachable conc_init conc_step (duo Unlock_empty Idle empty_q 1 [])"
    by (rule reach_duo [OF 2 read_empty [where i = 0]]) (simp_all add: empty_q_def)
  show ?thesis
    by (rule reach_duo [OF 3 unlock_empty [where i = 0]]) (simp_all add: spinlock_unlock_def)
qed

text \<open>The producer holds the lock and is about to link its task.\<close>

definition writing :: conc where
  "writing = duo Mutex (Write_tail 5) (empty_q\<lparr>mem := [5 \<mapsto> \<lparr>tnext = None, handler = 1, arg = 2\<rparr>]\<rparr>) 1 []"

lemma reach_writing: "reachable conc_init conc_step writing"
proof -
  let ?q = "empty_q\<lparr>mem := [5 \<mapsto> \<lparr>tnext = None, handler = 1, arg = 2\<rparr>]\<rparr>"
  have 1: "reachable conc_init conc_step (duo Mutex (Lock_add 5) ?q 0 [])"
    by (rule reach_duo [OF reach_mutex post [where i = 1 and t = 5 and h = 1 and a = 2]]) (simp_all add: empty_q_def)
  show ?thesis unfolding writing_def
    by (rule reach_duo [OF 1 lock_free_add [where i = 1]]) simp_all
qed

lemma reach_posted: "reachable conc_init conc_step (duo Mutex Signal one_q 0 [5])"
proof -
  let ?q = "empty_q\<lparr>mem := [5 \<mapsto> \<lparr>tnext = None, handler = 1, arg = 2\<rparr>]\<rparr>"
  note 2 = reach_writing [unfolded writing_def]
  have 3: "reachable conc_init conc_step (duo Mutex (Move_tail 5) (?q\<lparr>head := Some 5\<rparr>) 1 [5])"
    by (rule reach_duo [OF 2 write_tail [where i = 1 and t = 5]])
      (simp_all add: write_link_def empty_q_def duo_def goto_def)
  have 4: "reachable conc_init conc_step (duo Mutex Unlock_add one_q 1 [5])"
    by (rule reach_duo [OF 3 move_tail [where i = 1 and t = 5]]) (simp_all add: empty_q_def one_q_def)
  show ?thesis
    by (rule reach_duo [OF 4 unlock_add [where i = 1]]) (simp_all add: spinlock_unlock_def)
qed

subsection \<open>Properties\<close>

text \<open>
  C1.  In every reachable state, for any number of threads and any interleaving of their accesses, at
  most one thread is inside the critical section of the spin lock, and the tasks linked so
  far are the tasks taken so far, in the same order, followed by the tasks in the queue.
\<close>

theorem spin_pool_safe:
  assumes "reachable conc_init conc_step s"
  shows "(critical (pcs s i) \<and> critical (pcs s j) \<longrightarrow> i = j) \<and> posted s = taken s @ content s"
  using spinpool.reachable_inv [OF assms] by (auto simp: conc_inv_def lock_inv_def)

theorem spin_pool_safe_witness:
  "critical (pcs writing 1) \<and> \<not> critical (pcs writing 0) \<and> posted writing = taken writing @ content writing"
  using spin_pool_safe [OF reach_writing, of 0 1] by (auto simp: writing_def)

text \<open>
  No thread ever follows a dangling pointer, and the lock is never held by a thread that cannot
  go on: the write through \<open>tail\<close>, the read of the head's successor and the free of a
  finished task are valid whenever a thread is about to do them, and when the lock is taken some
  thread is in the critical section and has a step.
\<close>

theorem spin_pool_no_dangling:
  assumes "reachable conc_init conc_step s"
  shows "(pcs s i = Write_tail t \<longrightarrow> write_link (queue s) (tail (queue s)) (Some t) \<noteq> None) \<and>
    (pcs s i = Take_head t \<longrightarrow> mem (queue s) t \<noteq> None) \<and>
    (pcs s i = Run t \<longrightarrow> free_task (queue s) (Some t) \<noteq> None) \<and>
    (lock s \<noteq> 0 \<longrightarrow> (\<exists>j s'. critical (pcs s j) \<and> conc_step s s' \<and> pcs s' j \<noteq> pcs s j))"
proof -
  have inv: "conc_inv s" by (rule spinpool.reachable_inv [OF assms])
  note W = step_write_tail [OF inv] and T = step_take_head [OF inv] and R = step_run [OF inv]
  have "\<exists>s'. conc_step s s' \<and> pcs s' j \<noteq> pcs s j" if j: "critical (pcs s j)" for j
  proof (cases "pcs s j")
    case (Write_tail u)
    then obtain q where "write_link (queue s) (tail (queue s)) (Some u) = Some q" using W by blast
    from write_tail [OF Write_tail this] Write_tail show ?thesis by (force simp: goto_def)
  next
    case (Move_tail u)
    from move_tail [OF this] Move_tail show ?thesis by (force simp: goto_def)
  next
    case Unlock_add
    from unlock_add [OF this] Unlock_add show ?thesis by (force simp: goto_def)
  next
    case Read_head
    show ?thesis
    proof (cases "head (queue s)")
      case None
      from read_empty [OF Read_head None] Read_head show ?thesis by (force simp: goto_def)
    next
      case (Some u)
      from read_head [OF Read_head Some] Read_head show ?thesis by (force simp: goto_def)
    qed
  next
    case (Take_head u)
    then obtain n where "mem (queue s) u = Some n" using T by blast
    from take_head [OF Take_head this] Take_head show ?thesis by (force simp: goto_def)
  next
    case (Fix_tail u)
    from fix_tail [OF this] Fix_tail show ?thesis by (force simp: goto_def)
  next
    case (Unlock_pop u)
    from unlock_pop [OF this] Unlock_pop show ?thesis by (force simp: goto_def)
  next
    case Unlock_empty
    from unlock_empty [OF this] Unlock_empty show ?thesis by (force simp: goto_def)
  qed (use j in simp_all)
  moreover have "lock s \<noteq> 0 \<Longrightarrow> \<exists>j. critical (pcs s j)" using inv by (auto simp: conc_inv_def lock_inv_def)
  ultimately have "lock s \<noteq> 0 \<longrightarrow> (\<exists>j s'. critical (pcs s j) \<and> conc_step s s' \<and> pcs s' j \<noteq> pcs s j)" by blast
  moreover have "pcs s i = Write_tail t \<longrightarrow> write_link (queue s) (tail (queue s)) (Some t) \<noteq> None" using W [of i t] by auto
  moreover have "pcs s i = Take_head t \<longrightarrow> mem (queue s) t \<noteq> None" using T [of i t] by auto
  moreover have "pcs s i = Run t \<longrightarrow> free_task (queue s) (Some t) \<noteq> None" using R [of i t] by auto
  ultimately show ?thesis by blast
qed

theorem spin_pool_no_dangling_witness:
  "write_link (queue writing) (tail (queue writing)) (Some 5) \<noteq> None \<and>
   (\<exists>j s'. critical (pcs writing j) \<and> conc_step writing s' \<and> pcs s' j \<noteq> pcs writing j)"
  using spin_pool_no_dangling [OF reach_writing, of 1 5] by (auto simp: writing_def)

text \<open>
  C32.  A wake-up can be lost.  A state is reachable in which a task waits in the queue, the pool is not
  being terminated, the lock is free, no thread is anywhere in the pool but asleep, and a worker is:
  it found the queue empty, the producer added the task and signalled, and only then did the
  worker go to sleep.
\<close>

theorem lost_wakeup:
  "\<exists>s w. reachable conc_init conc_step s \<and> content s \<noteq> [] \<and> quitting s = 0 \<and> lock s = 0 \<and> pcs s w = Asleep \<and>
     (\<forall>i. pcs s i = Asleep \<or> pcs s i = Idle)"
proof -
  have 1: "reachable conc_init conc_step (duo Mutex Idle one_q 0 [5])"
    by (rule reach_duo [OF reach_posted signal_none [where i = 1]]) (simp_all add: two_threads_def)
  have "reachable conc_init conc_step (duo Asleep Idle one_q 0 [5])"
    by (rule reach_duo [OF 1 mutex_wait [where i = 0]]) (simp_all add: one_q_def)
  then show ?thesis
    by (intro exI [of _ "duo Asleep Idle one_q 0 [5]"] exI [of _ 0]) (auto simp: duo_def two_threads_def)
qed

end
