(* ===== verification/C_Buffer.thy ===== *)
theory C_Buffer
  imports Prelude
begin

text \<open>
  Byte arrays of fixed size and the C strings in them, shared by the HTTP servers: bounds-checked
  accesses (\<open>None\<close> is an access outside the array), reading a string up to its NUL, comparison
  without regard to case, and the character classes of \<open>ctype.h\<close> in the C locale.
\<close>

definition peek :: "byte list \<Rightarrow> nat \<Rightarrow> byte option" where
  "peek buf i = (if i < length buf then Some (buf ! i) else None)"

definition poke :: "byte list \<Rightarrow> nat \<Rightarrow> byte \<Rightarrow> byte list option" where
  "poke buf i v = (if i < length buf then Some (buf[i := v]) else None)"

definition cstring_from :: "byte list \<Rightarrow> nat \<Rightarrow> byte list option" where
  "cstring_from buf off =
     (if 0 \<in> set (drop off buf) then Some (takeWhile (\<lambda>c. c \<noteq> 0) (drop off buf)) else None)"

definition is_blank :: "byte \<Rightarrow> bool" where
  "is_blank c \<longleftrightarrow> c = 32 \<or> c = 9"

definition lower :: "byte \<Rightarrow> byte" where
  "lower c = (if 65 \<le> c \<and> c \<le> 90 then c + 32 else c)"

definition same_nocase :: "byte list \<Rightarrow> byte list \<Rightarrow> bool" where
  "same_nocase xs ys \<longleftrightarrow> map lower xs = map lower ys"

definition is_space :: "byte \<Rightarrow> bool" where
  "is_space c \<longleftrightarrow> c = 32 \<or> 9 \<le> c \<and> c \<le> 13"

definition is_digit :: "byte \<Rightarrow> bool" where
  "is_digit c \<longleftrightarrow> 48 \<le> c \<and> c \<le> 57"

text \<open>The string at the start of an array.\<close>

definition str_of :: "byte list \<Rightarrow> byte list" where
  "str_of buf = takeWhile (\<lambda>c. c \<noteq> 0) buf"

lemma str_of_nul [simp]: "0 \<notin> set s \<Longrightarrow> str_of (s @ 0 # r) = s"
  by (induction s) (auto simp: str_of_def)

lemma str_of_id [simp]: "0 \<notin> set s \<Longrightarrow> str_of s = s"
  by (induction s) (auto simp: str_of_def)

lemma str_of_no_nul [simp]: "0 \<notin> set (str_of s)"
  by (induction s) (auto simp: str_of_def)

lemma length_str_of: "length (str_of s) \<le> length s"
  by (simp add: str_of_def length_takeWhile_le)

text \<open>Decimal notation.\<close>

fun show_nat :: "nat \<Rightarrow> byte list" where
  "show_nat n = (if n < 10 then [of_nat (48 + n)] else show_nat (n div 10) @ [of_nat (48 + n mod 10)])"

declare show_nat.simps [simp del]

definition show_int :: "int \<Rightarrow> byte list" where
  "show_int i = (if i < 0 then 45 # show_nat (nat (- i)) else show_nat (nat i))"

lemma length_show_nat: "n < 10 ^ Suc k \<Longrightarrow> length (show_nat n) \<le> Suc k"
proof (induction k arbitrary: n)
  case 0
  then show ?case by (simp add: show_nat.simps [of n])
next
  case (Suc k)
  then have "n div 10 < 10 ^ Suc k" by (simp add: less_mult_imp_div_less)
  then show ?case using Suc.IH [of "n div 10"] by (simp add: show_nat.simps [of n])
qed

lemma show_nat_no_nul [simp]: "0 \<notin> set (show_nat n)"
proof (induction n rule: show_nat.induct)
  case (1 n)
  have "(of_nat (48 + k) :: byte) \<noteq> 0" if "k < 10" for k :: nat
  proof
    assume "(of_nat (48 + k) :: byte) = 0"
    then have "unat (of_nat (48 + k) :: byte) = 0" by simp
    moreover have "unat (of_nat (48 + k) :: byte) = 48 + k" using that by (subst unat_of_nat) simp
    ultimately show False by simp
  qed
  from this [of n] this [of "n mod 10"] show ?case using 1 by (subst show_nat.simps) auto
qed

end
