(* ===== verification/Http_Parser.thy ===== *)
theory Http_Parser
  imports C_Buffer
begin

text \<open>
  The incremental HTTP request parser (\<open>network-programming/youshuang/8-3httpparser.cpp\<close>): a line
  scanner driven by a two-state machine, working in place on a fixed buffer that successive calls of
  \<open>recv\<close> fill.  \<open>None\<close> is an access outside the buffer.  Shown: the parser never leaves the buffer and
  always ends; what a request line and a header must look like; and the answer does not depend
  on how the network splits the request into pieces.
\<close>

subsection \<open>Data\<close>

definition BUFFER_SIZE :: nat where "BUFFER_SIZE = 4096"

datatype CHECK_STATE = CHECK_STATE_REQUESTLINE | CHECK_STATE_HEADER | CHECK_STATE_CONTENT
datatype LINE_STATUS = LINE_OK | LINE_BAD | LINE_OPEN
datatype HTTP_CODE = NO_REQUEST | GET_REQUEST | BAD_REQUEST | FORBIDDEN_REQUEST | INTERNAL_ERROR | CLOSED_CONNECTION

text \<open>What the parser prints.\<close>

datatype msg = Method_is_get | Url_is "byte list" | Host_is "byte list" | Header_unknown

record parser =
  buffer :: "byte list"
  checked_index :: nat
  read_index :: nat
  start_line :: nat
  checkstate :: CHECK_STATE
  printed :: "msg list"

subsection \<open>C strings in the buffer\<close>

text \<open>\<open>strpbrk\<close> and \<open>strspn\<close> with the set of blanks, \<open>strchr\<close>, and \<open>strcasecmp\<close> and
  \<open>strncasecmp\<close> compared with zero.\<close>

definition strpbrk_blank :: "byte list \<Rightarrow> nat \<Rightarrow> nat option option" where
  "strpbrk_blank buf off = do {
     s \<leftarrow> cstring_from buf off;
     let k = length (takeWhile (\<lambda>c. \<not> is_blank c) s);
     Some (if k < length s then Some (off + k) else None)
   }"

definition strspn_blank :: "byte list \<Rightarrow> nat \<Rightarrow> nat option" where
  "strspn_blank buf off = do { s \<leftarrow> cstring_from buf off; Some (length (takeWhile is_blank s)) }"

definition strchr_from :: "byte list \<Rightarrow> nat \<Rightarrow> byte \<Rightarrow> nat option option" where
  "strchr_from buf off ch = do {
     s \<leftarrow> cstring_from buf off;
     let k = length (takeWhile (\<lambda>c. c \<noteq> ch) s);
     Some (if k < length s then Some (off + k) else None)
   }"

definition strcasecmp_eq :: "byte list \<Rightarrow> nat \<Rightarrow> byte list \<Rightarrow> bool option" where
  "strcasecmp_eq buf off t = do { s \<leftarrow> cstring_from buf off; Some (same_nocase s t) }"

definition strncasecmp_eq :: "byte list \<Rightarrow> nat \<Rightarrow> byte list \<Rightarrow> nat \<Rightarrow> bool option" where
  "strncasecmp_eq buf off t n = do { s \<leftarrow> cstring_from buf off; Some (same_nocase (take n s) (take n t)) }"

subsection \<open>The parser\<close>

function parse_line :: "byte list \<Rightarrow> nat \<Rightarrow> nat \<Rightarrow> (LINE_STATUS \<times> byte list \<times> nat) option" where
  "parse_line buf checked read =
     (if \<not> checked < read then Some (LINE_OPEN, buf, checked)
      else do {
        temp \<leftarrow> peek buf checked;
        if temp = 13 then
          if checked + 1 = read then Some (LINE_OPEN, buf, checked)
          else do {
            nxt \<leftarrow> peek buf (checked + 1);
            if nxt = 10 then do {
              buf \<leftarrow> poke buf checked 0;
              buf \<leftarrow> poke buf (checked + 1) 0;
              Some (LINE_OK, buf, checked + 2)
            } else Some (LINE_BAD, buf, checked)
          }
        else if temp = 10 then
          if checked > 1 then do {
            prv \<leftarrow> peek buf (checked - 1);
            if prv = 13 then do {
              buf \<leftarrow> poke buf (checked - 1) 0;
              buf \<leftarrow> poke buf checked 0;
              Some (LINE_OK, buf, checked + 1)
            } else Some (LINE_BAD, buf, checked)
          } else Some (LINE_BAD, buf, checked)
        else parse_line buf (checked + 1) read
      })"
  by pat_completeness auto
termination by (relation "measure (\<lambda>(buf, checked, read). read - checked)") auto

declare parse_line.simps [simp del]

text \<open>The request line, from the URL at \<open>szURL\<close> and the blank at \<open>szVersion\<close> behind it on, and as a
  whole.\<close>

definition parse_version :: "byte list \<Rightarrow> nat \<Rightarrow> nat \<Rightarrow> (HTTP_CODE \<times> byte list \<times> CHECK_STATE \<times> msg list) option" where
  "parse_version buf szURL szVersion = do {
     buf \<leftarrow> poke buf szVersion 0;
     let szVersion = szVersion + 1;
     n \<leftarrow> strspn_blank buf szVersion;
     let szVersion = szVersion + n;
     v11 \<leftarrow> strcasecmp_eq buf szVersion (bytes ''HTTP/1.1'');
     if \<not> v11 then Some (BAD_REQUEST, buf, CHECK_STATE_REQUESTLINE, [Method_is_get])
     else do {
       absolute \<leftarrow> strncasecmp_eq buf szURL (bytes ''http://'') 7;
       szURL \<leftarrow> (if absolute then strchr_from buf (szURL + 7) 47 else Some (Some szURL));
       case szURL of
         None \<Rightarrow> Some (BAD_REQUEST, buf, CHECK_STATE_REQUESTLINE, [Method_is_get])
       | Some szURL \<Rightarrow> do {
           c \<leftarrow> peek buf szURL;
           if c \<noteq> 47 then Some (BAD_REQUEST, buf, CHECK_STATE_REQUESTLINE, [Method_is_get])
           else do {
             url \<leftarrow> cstring_from buf szURL;
             Some (NO_REQUEST, buf, CHECK_STATE_HEADER, [Method_is_get, Url_is url])
           }
         }
     }
   }"

definition parse_requestline :: "byte list \<Rightarrow> nat \<Rightarrow> (HTTP_CODE \<times> byte list \<times> CHECK_STATE \<times> msg list) option" where
  "parse_requestline buf szTemp = do {
     szURL \<leftarrow> strpbrk_blank buf szTemp;
     case szURL of
       None \<Rightarrow> Some (BAD_REQUEST, buf, CHECK_STATE_REQUESTLINE, [])
     | Some szURL \<Rightarrow> do {
         buf \<leftarrow> poke buf szURL 0;
         let szURL = szURL + 1;
         is_get \<leftarrow> strcasecmp_eq buf szTemp (bytes ''GET'');
         if \<not> is_get then Some (BAD_REQUEST, buf, CHECK_STATE_REQUESTLINE, [])
         else do {
           n \<leftarrow> strspn_blank buf szURL;
           let szURL = szURL + n;
           szVersion \<leftarrow> strpbrk_blank buf szURL;
           case szVersion of
             None \<Rightarrow> Some (BAD_REQUEST, buf, CHECK_STATE_REQUESTLINE, [Method_is_get])
           | Some szVersion \<Rightarrow> parse_version buf szURL szVersion
         }
       }
   }"

definition parse_headers :: "byte list \<Rightarrow> nat \<Rightarrow> (HTTP_CODE \<times> msg list) option" where
  "parse_headers buf szTemp = do {
     c \<leftarrow> peek buf szTemp;
     if c = 0 then Some (GET_REQUEST, [])
     else do {
       is_host \<leftarrow> strncasecmp_eq buf szTemp (bytes ''Host:'') 5;
       if is_host then do {
         n \<leftarrow> strspn_blank buf (szTemp + 5);
         host \<leftarrow> cstring_from buf (szTemp + 5 + n);
         Some (NO_REQUEST, [Host_is host])
       } else Some (NO_REQUEST, [Header_unknown])
     }
   }"

text \<open>The body of the main loop, for the line that starts at \<open>szTemp\<close>.\<close>

definition parse_one :: "parser \<Rightarrow> nat \<Rightarrow> (HTTP_CODE \<times> parser) option" where
  "parse_one p szTemp = (case checkstate p of
     CHECK_STATE_REQUESTLINE \<Rightarrow> do {
       (c, buf, st, out) \<leftarrow> parse_requestline (buffer p) szTemp;
       Some (c, p\<lparr>buffer := buf, checkstate := st, printed := printed p @ out\<rparr>)
     }
   | CHECK_STATE_HEADER \<Rightarrow> do {
       (c, out) \<leftarrow> parse_headers (buffer p) szTemp;
       Some (c, p\<lparr>printed := printed p @ out\<rparr>)
     }
   | CHECK_STATE_CONTENT \<Rightarrow> Some (INTERNAL_ERROR, p))"

lemma parse_line_progress:
  "parse_line buf ci ri = Some (LINE_OK, buf', ci') \<Longrightarrow> ci < ci' \<and> ci' \<le> ri \<and> length buf' = length buf"
proof (induction buf ci ri rule: parse_line.induct)
  case (1 buf ci ri)
  show ?case using 1(2) 1(1)
    by (subst (asm) parse_line.simps) (auto simp: bind_eq_Some_conv poke_def peek_def split: if_splits)
qed

lemma parse_one_frame:
  "parse_one p sz = Some (c, p') \<Longrightarrow>
   checked_index p' = checked_index p \<and> read_index p' = read_index p \<and> start_line p' = start_line p"
  by (auto simp: parse_one_def bind_eq_Some_conv split: CHECK_STATE.splits prod.splits)

function parse_content :: "parser \<Rightarrow> (HTTP_CODE \<times> parser) option" where
  "parse_content p = (case parse_line (buffer p) (checked_index p) (read_index p) of
     None \<Rightarrow> None
   | Some (LINE_OPEN, buf, ci) \<Rightarrow> Some (NO_REQUEST, p\<lparr>buffer := buf, checked_index := ci\<rparr>)
   | Some (LINE_BAD, buf, ci) \<Rightarrow> Some (BAD_REQUEST, p\<lparr>buffer := buf, checked_index := ci\<rparr>)
   | Some (LINE_OK, buf, ci) \<Rightarrow>
       (case parse_one (p\<lparr>buffer := buf, checked_index := ci, start_line := ci\<rparr>) (start_line p) of
          None \<Rightarrow> None
        | Some (c, p') \<Rightarrow> if c = NO_REQUEST then parse_content p' else Some (c, p')))"
  by pat_completeness auto
termination
  by (relation "measure (\<lambda>p. read_index p - checked_index p)")
    (auto dest!: parse_line_progress parse_one_frame)

declare parse_content.simps [simp del]

subsection \<open>The server\<close>

definition parser_start :: parser where
  "parser_start = \<lparr>buffer = replicate BUFFER_SIZE 0, checked_index = 0, read_index = 0, start_line = 0,
     checkstate = CHECK_STATE_REQUESTLINE, printed = []\<rparr>"

text \<open>\<open>recv\<close> copies what fits behind the data that is already there.\<close>

definition recv :: "parser \<Rightarrow> byte list \<Rightarrow> parser" where
  "recv p d = (let d = take (length (buffer p) - read_index p) d in
     p\<lparr>buffer := overwrite (buffer p) (read_index p) d, read_index := read_index p + length d\<rparr>)"

datatype reply = Correct_result | Something_wrong | No_reply

text \<open>The main loop on the pieces the client sends before it closes the connection.  A full
  buffer ends the loop as well, since \<open>recv\<close> into no space returns zero.\<close>

fun serve :: "parser \<Rightarrow> byte list list \<Rightarrow> reply option" where
  "serve p [] = Some No_reply"
| "serve p (d # ds) =
     (if take (length (buffer p) - read_index p) d = [] then Some No_reply
      else do {
        (c, p) \<leftarrow> parse_content (recv p d);
        if c = NO_REQUEST then serve p ds
        else Some (if c = GET_REQUEST then Correct_result else Something_wrong)
      })"

subsection \<open>Data that arrives later\<close>

text \<open>The parser looks only at what has been received: every access below the mark \<open>r\<close> commutes with
  writing more data behind it.\<close>

lemma nth_overwrite_before: "i < r \<Longrightarrow> r \<le> length buf \<Longrightarrow> overwrite buf r d ! i = buf ! i"
  by (simp add: overwrite_def nth_append)

lemma peek_later:
  "i < r \<Longrightarrow> r + length d \<le> length buf \<Longrightarrow> peek (overwrite buf r d) i = peek buf i"
  by (simp add: peek_def nth_overwrite_before)

lemma update_later:
  "i < r \<Longrightarrow> r + length d \<le> length buf \<Longrightarrow> (overwrite buf r d)[i := v] = overwrite (buf[i := v]) r d"
  by (simp add: overwrite_def list_update_append take_update_swap)

lemma poke_later:
  "i < r \<Longrightarrow> r + length d \<le> length buf \<Longrightarrow>
   poke (overwrite buf r d) i v = map_option (\<lambda>b. overwrite b r d) (poke buf i v)"
  by (simp add: poke_def update_later)

lemma takeWhile_zero_append: "0 \<in> set xs \<Longrightarrow> takeWhile (\<lambda>c. c \<noteq> 0) (xs @ ys) = takeWhile (\<lambda>c. c \<noteq> (0::byte)) xs"
  by (induction xs) auto

lemma cstring_later:
  assumes "buf ! e = 0" "off \<le> e" "e < r" "r + length d \<le> length buf"
  shows "cstring_from (overwrite buf r d) off = cstring_from buf off"
proof -
  have t: "take r (overwrite buf r d) = take r buf" using assms by (simp add: overwrite_def)
  have z: "0 \<in> set (drop off (take r buf))"
  proof -
    have "drop off (take r buf) ! (e - off) = 0" "e - off < length (drop off (take r buf))" using assms by auto
    then show ?thesis by (metis nth_mem)
  qed
  have "cstring_from b off = Some (takeWhile (\<lambda>c. c \<noteq> 0) (drop off (take r b)))"
    if "take r b = take r buf" "r \<le> length b" for b
  proof -
    have "drop off (take r b @ drop r b) = drop off (take r b) @ drop r b"
      using assms(2,3) that(2) by (simp del: append_take_drop_id)
    then have "drop off b = drop off (take r b) @ drop r b" by simp
    then show ?thesis using z that(1) by (simp add: cstring_from_def takeWhile_zero_append)
  qed
  from this [of buf] this [of "overwrite buf r d"] t assms(4) show ?thesis by simp
qed

lemma parse_line_later:
  assumes "parse_line buf ci r = Some (st, b, ci')" "r + length d \<le> length buf"
  shows "if st = LINE_OPEN
    then b = buf \<and> ci \<le> ci' \<and> (ci \<le> r \<longrightarrow> ci' \<le> r) \<and>
      parse_line (overwrite buf r d) ci (r + length d) = parse_line (overwrite buf r d) ci' (r + length d)
    else parse_line (overwrite buf r d) ci (r + length d) = Some (st, overwrite b r d, ci')"
  using assms
proof (induction buf ci r rule: parse_line.induct)
  case (1 buf ci r)
  show ?case
  proof (cases "ci < r \<and> buf ! ci \<noteq> 13 \<and> buf ! ci \<noteq> 10")
    case True
    then have lt: "ci < length buf" using 1(3) by simp
    have eq: "parse_line buf ci r = parse_line buf (ci + 1) r"
      using True lt by (subst parse_line.simps) (simp add: peek_def)
    have eq2: "parse_line (overwrite buf r d) ci (r + length d) = parse_line (overwrite buf r d) (ci + 1) (r + length d)"
      using True 1(3) by (subst parse_line.simps) (simp add: peek_def nth_overwrite_before)
    have "peek buf ci = Some (buf ! ci)" using lt by (simp add: peek_def)
    from 1(1) [OF _ this] True 1(2,3) eq eq2 show ?thesis by (auto split: if_splits)
  next
    case False
    then consider "\<not> ci < r" | "ci < r" "buf ! ci = 13" | "ci < r" "buf ! ci = 10" by auto
    then show ?thesis
    proof cases
      case 1
      then show ?thesis using "1.prems" by (subst (asm) parse_line.simps) auto
    next
      case 2
      then have "ci + 1 = r \<or> ci + 1 < r" by linarith
      then show ?thesis using 2 "1.prems"
        by (subst (asm) parse_line.simps, subst parse_line.simps)
          (auto simp: peek_def poke_def nth_overwrite_before update_later split: if_splits)
    next
      case 3
      then show ?thesis using "1.prems"
        by (subst (asm) parse_line.simps, subst parse_line.simps)
          (auto simp: peek_def poke_def nth_overwrite_before update_later split: if_splits)
    qed
  qed
qed

text \<open>C strings that end before the mark.\<close>

lemma string_ops_later:
  assumes "buf ! e = 0" "off \<le> e" "e < r" "r + length d \<le> length buf"
  shows "strpbrk_blank (overwrite buf r d) off = strpbrk_blank buf off"
    "strspn_blank (overwrite buf r d) off = strspn_blank buf off"
    "strchr_from (overwrite buf r d) off c = strchr_from buf off c"
    "strcasecmp_eq (overwrite buf r d) off t = strcasecmp_eq buf off t"
    "strncasecmp_eq (overwrite buf r d) off t n = strncasecmp_eq buf off t n"
  using cstring_later [OF assms]
  by (simp_all add: strpbrk_blank_def strspn_blank_def strchr_from_def strcasecmp_eq_def strncasecmp_eq_def)

lemma cstring_length:
  assumes "cstring_from buf off = Some s" "buf ! e = 0" "off \<le> e" "e < length buf"
  shows "off + length s \<le> e"
proof (rule ccontr)
  assume "\<not> off + length s \<le> e"
  then have lt: "e - off < length s" using assms(3) by simp
  have s: "s = takeWhile (\<lambda>c. c \<noteq> 0) (drop off buf)" using assms(1) by (auto simp: cstring_from_def split: if_splits)
  then have "s ! (e - off) = drop off buf ! (e - off)" using lt by (simp add: takeWhile_nth)
  then have "s ! (e - off) = 0" using assms by simp
  moreover have "s ! (e - off) \<in> set s" using lt by simp
  ultimately show False using s set_takeWhileD by fastforce
qed

lemma cstring_exists:
  assumes "buf ! e = 0" "off \<le> e" "e < length buf"
  shows "\<exists>s. cstring_from buf off = Some s \<and> off + length s \<le> e"
proof -
  have "drop off buf ! (e - off) = 0" "e - off < length (drop off buf)" using assms by auto
  then have "0 \<in> set (drop off buf)" by (metis nth_mem)
  then obtain s where "cstring_from buf off = Some s" by (simp add: cstring_from_def)
  then show ?thesis using cstring_length [OF _ assms] by blast
qed

lemma string_ops_exist:
  assumes "buf ! e = 0" "off \<le> e" "e < length buf"
  shows "\<exists>r. strpbrk_blank buf off = Some r \<and> (\<forall>u. r = Some u \<longrightarrow> off \<le> u \<and> u < e)"
    "\<exists>n. strspn_blank buf off = Some n \<and> off + n \<le> e"
    "\<exists>r. strchr_from buf off c = Some r \<and> (\<forall>u. r = Some u \<longrightarrow> off \<le> u \<and> u < e)"
    "\<exists>b. strcasecmp_eq buf off t = Some b" "\<exists>b. strncasecmp_eq buf off t n = Some b"
proof -
  obtain s where s: "cstring_from buf off = Some s" "off + length s \<le> e" using cstring_exists [OF assms] by blast
  have "length (takeWhile P s) \<le> length s" for P by (rule length_takeWhile_le)
  then show "\<exists>n. strspn_blank buf off = Some n \<and> off + n \<le> e"
    using s by (auto simp: strspn_blank_def intro: order.trans [OF _ s(2)])
qed (use cstring_exists [OF assms] in \<open>auto simp: strpbrk_blank_def strchr_from_def strcasecmp_eq_def strncasecmp_eq_def Let_def\<close>)

lemma poke_ok: "i < length buf \<Longrightarrow> poke buf i v = Some (buf[i := v])"
  by (simp add: poke_def)

lemma zero_stays: "buf ! e = 0 \<Longrightarrow> buf[i := 0] ! e = (0::byte)"
  by (cases "e < length buf"; cases "i = e") (simp_all add: list_update_beyond)

text \<open>A prefix match of \<open>n\<close> characters without a zero leaves the rest of the string within the line.\<close>

lemma strncasecmp_length:
  assumes "strncasecmp_eq buf off t n = Some True" "length t = n" "buf ! e = 0" "off \<le> e" "e < length buf"
  shows "off + n \<le> e"
proof -
  obtain s where s: "cstring_from buf off = Some s" "same_nocase (take n s) (take n t)"
    using assms(1) by (auto simp: strncasecmp_eq_def bind_eq_Some_conv)
  then have "length (take n s) = length t" using assms(2) by (auto simp: same_nocase_def dest: map_eq_imp_length_eq)
  then have "n \<le> length s" using assms(2) by simp
  then show ?thesis using cstring_length [OF s(1) assms(3-5)] by linarith
qed

text \<open>The request line: the parser stays within the line, changes nothing else, and does not see later
  data.\<close>

definition line_result :: "byte list \<Rightarrow> nat \<Rightarrow> byte list \<Rightarrow> (HTTP_CODE \<times> byte list \<times> CHECK_STATE \<times> msg list) option \<Rightarrow>
    (HTTP_CODE \<times> byte list \<times> CHECK_STATE \<times> msg list) option \<Rightarrow> bool" where
  "line_result buf r d res res' \<longleftrightarrow> (\<exists>c b st out. res = Some (c, b, st, out) \<and> length b = length buf \<and>
     (c = NO_REQUEST \<or> c = BAD_REQUEST) \<and> res' = Some (c, overwrite b r d, st, out))"

lemma parse_version_line:
  assumes z: "buf ! e = 0" and u: "u \<le> e" and v: "v < e" and e: "e < r" and r: "r + length d \<le> length buf"
  shows "line_result buf r d (parse_version buf u v) (parse_version (overwrite buf r d) u v)"
proof -
  let ?b = "buf[v := 0]" and ?v = "v + 1"
  have b: "?b ! e = 0" "e < length ?b" "r + length d \<le> length ?b" using zero_stays [OF z] e r by auto
  have p: "poke buf v 0 = Some ?b" "poke (overwrite buf r d) v 0 = Some (overwrite ?b r d)"
    using v e r poke_later [of v r d buf 0] by (simp_all add: poke_ok)
  note L = string_ops_later [OF b(1) _ e b(3)] and X = string_ops_exist [OF b(1) _ b(2)]
  have v1: "?v \<le> e" using v by simp
  obtain k where k: "strspn_blank ?b ?v = Some k" "?v + k \<le> e" using X(2) [OF v1] by blast
  obtain w where w: "strcasecmp_eq ?b (?v + k) (bytes ''HTTP/1.1'') = Some w" using X(4) [OF k(2)] by blast
  obtain a where a: "strncasecmp_eq ?b u (bytes ''http://'') 7 = Some a" using X(5) [OF u] by blast
  have u7: "u + 7 \<le> e" if a
    using strncasecmp_length [of ?b u "bytes ''http://''" 7 e] b u a that by simp
  then obtain f where f: "(if a then strchr_from ?b (u + 7) 47 else Some (Some u)) = Some f" "\<forall>x. f = Some x \<longrightarrow> x \<le> e"
    using X(3) [of "u + 7" 47] u by (cases a) (auto dest: less_imp_le_nat)
  have f': "(if a then strchr_from (overwrite ?b r d) (u + 7) 47 else Some (Some u)) = Some f"
    using f(1) L(3) [OF u7] by (cases a) simp_all
  note E = L(2) [OF v1] L(4) [OF k(2)] L(5) [OF u]
  show ?thesis
  proof (cases f)
    case None
    then show ?thesis using p k(1) w a f f' E by (cases w) (auto simp: parse_version_def line_result_def)
  next
    case (Some x)
    then have x: "x \<le> e" using f(2) by simp
    obtain url where "cstring_from ?b x = Some url" using cstring_exists [OF b(1) x b(2)] by blast
    moreover have "peek (overwrite ?b r d) x = Some (?b ! x)" "peek ?b x = Some (?b ! x)"
      using peek_later [of x r d ?b] x e b by (auto simp: peek_def)
    ultimately show ?thesis using Some p k(1) w a f f' E cstring_later [OF b(1) x e b(3)]
      by (cases w) (auto simp: parse_version_def line_result_def)
  qed
qed

lemma parse_requestline_line:
  assumes z: "buf ! e = 0" and s: "sz \<le> e" and e: "e < r" and r: "r + length d \<le> length buf"
  shows "line_result buf r d (parse_requestline buf sz) (parse_requestline (overwrite buf r d) sz)"
proof -
  have el: "e < length buf" using e r by simp
  note L = string_ops_later [OF assms] and X = string_ops_exist [OF z s el]
  obtain r1 where r1: "strpbrk_blank buf sz = Some r1" "\<forall>u. r1 = Some u \<longrightarrow> sz \<le> u \<and> u < e" using X(1) by blast
  show ?thesis
  proof (cases r1)
    case None
    then show ?thesis using r1 L by (simp add: parse_requestline_def line_result_def)
  next
    case (Some u)
    then have u: "sz \<le> u" "u < e" "u + 1 \<le> e" using r1 by auto
    let ?b = "buf[u := 0]"
    have b: "?b ! e = 0" "e < length ?b" "r + length d \<le> length ?b" using zero_stays [OF z] r el by auto
    have p: "poke buf u 0 = Some ?b" "poke (overwrite buf r d) u 0 = Some (overwrite ?b r d)"
      using u el e r poke_later [of u r d buf 0] by (simp_all add: poke_ok)
    note L1 = string_ops_later [OF b(1) _ e b(3)] and X1 = string_ops_exist [OF b(1) _ b(2)]
    obtain g where g: "strcasecmp_eq ?b sz (bytes ''GET'') = Some g" using X1(4) [OF s] by blast
    obtain n where n: "strspn_blank ?b (u + 1) = Some n" "u + 1 + n \<le> e" using X1(2) [OF u(3)] by blast
    obtain r2 where r2: "strpbrk_blank ?b (u + 1 + n) = Some r2" "\<forall>v. r2 = Some v \<longrightarrow> u + 1 + n \<le> v \<and> v < e"
      using X1(1) [OF n(2)] by blast
    note E = L1(1) [OF n(2)] L1(2) [OF u(3)] L1(4) [OF s]
    have "line_result ?b r d (parse_version ?b (u + 1 + n) v) (parse_version (overwrite ?b r d) (u + 1 + n) v)"
      if "r2 = Some v" for v
      using r2(2) that by (intro parse_version_line [OF b(1) n(2) _ e b(3)]) simp
    then show ?thesis using Some r1(1) L(1) p g n(1) r2(1) E
      by (cases g; cases r2) (auto simp: parse_requestline_def line_result_def)
  qed
qed

lemma parse_headers_line:
  assumes z: "buf ! e = 0" and s: "sz \<le> e" and e: "e < r" and r: "r + length d \<le> length buf"
  shows "\<exists>c out. parse_headers buf sz = Some (c, out) \<and> (c = NO_REQUEST \<or> c = GET_REQUEST) \<and>
    parse_headers (overwrite buf r d) sz = Some (c, out)"
proof -
  have el: "e < length buf" using e r by simp
  note L = string_ops_later [OF z _ e r] and X = string_ops_exist [OF z _ el]
  obtain a where a: "strncasecmp_eq buf sz (bytes ''Host:'') 5 = Some a" using X(5) [OF s] by blast
  have p: "peek (overwrite buf r d) sz = Some (buf ! sz)" "peek buf sz = Some (buf ! sz)"
    using peek_later [of sz r d buf] s e r by (auto simp: peek_def)
  show ?thesis
  proof (cases "buf ! sz \<noteq> 0 \<and> a")
    case False
    then show ?thesis using p a L(5) [OF s] by (cases "buf ! sz = 0") (auto simp: parse_headers_def)
  next
    case True
    have s5: "sz + 5 \<le> e" using strncasecmp_length [of buf sz "bytes ''Host:''" 5 e] z s el a True by simp
    obtain n where n: "strspn_blank buf (sz + 5) = Some n" "sz + 5 + n \<le> e" using X(2) [OF s5] by blast
    obtain h where "cstring_from buf (sz + 5 + n) = Some h" using cstring_exists [OF z n(2) el] by blast
    then show ?thesis
      using True p a L(5) [OF s] L(2) [OF s5] n(1) cstring_later [OF z n(2) e r] by (auto simp: parse_headers_def)
  qed
qed

subsection \<open>Well-formed parser states\<close>

definition parser_wf :: "parser \<Rightarrow> bool" where
  "parser_wf p \<longleftrightarrow> start_line p \<le> checked_index p \<and> checked_index p \<le> read_index p \<and> read_index p \<le> length (buffer p)"

definition extended :: "byte list \<Rightarrow> parser \<Rightarrow> parser" where
  "extended d p = p\<lparr>buffer := overwrite (buffer p) (read_index p) d, read_index := read_index p + length d\<rparr>"

lemma extended_simps [simp]:
  "buffer (extended d p) = overwrite (buffer p) (read_index p) d" "read_index (extended d p) = read_index p + length d"
  "checked_index (extended d p) = checked_index p" "start_line (extended d p) = start_line p"
  "checkstate (extended d p) = checkstate p" "printed (extended d p) = printed p"
  by (simp_all add: extended_def)

lemma recv_extended: "read_index p + length d \<le> length (buffer p) \<Longrightarrow> recv p d = extended d p"
  by (simp add: recv_def extended_def)

lemma parse_line_total:
  assumes "r \<le> length buf"
  shows "\<exists>st b c. parse_line buf ci r = Some (st, b, c) \<and> length b = length buf"
  using assms
proof (induction buf ci r rule: parse_line.induct)
  case (1 buf ci r)
  show ?case
  proof (cases "ci < r \<and> buf ! ci \<noteq> 13 \<and> buf ! ci \<noteq> 10")
    case True
    then have "peek buf ci = Some (buf ! ci)" using 1(2) by (simp add: peek_def)
    moreover from this have "parse_line buf ci r = parse_line buf (ci + 1) r" using True
      by (subst parse_line.simps) simp
    ultimately show ?thesis using 1(1) [OF _ \<open>peek buf ci = Some (buf ! ci)\<close>] True 1(2) by simp
  next
    case False
    then show ?thesis using 1(2)
      by (subst parse_line.simps) (auto simp: peek_def poke_def)
  qed
qed

lemma parse_line_zero:
  "parse_line buf ci r = Some (LINE_OK, b, c) \<Longrightarrow> b ! (c - 1) = 0"
proof (induction buf ci r rule: parse_line.induct)
  case (1 buf ci r)
  show ?case using 1(2) 1(1)
    by (subst (asm) parse_line.simps) (auto simp: bind_eq_Some_conv poke_def peek_def split: if_splits)
qed

lemma parse_line_bad_index:
  "parse_line buf ci r = Some (LINE_BAD, b, c) \<Longrightarrow> ci \<le> c \<and> c \<le> r"
proof (induction buf ci r rule: parse_line.induct)
  case (1 buf ci r)
  show ?case using 1(2) 1(1)
    by (subst (asm) parse_line.simps) (auto simp: bind_eq_Some_conv poke_def peek_def split: if_splits)
qed

lemma parse_one_line:
  assumes "buffer p ! e = 0" "sz \<le> e" "e < read_index p" "read_index p + length d \<le> length (buffer p)"
  shows "\<exists>c p'. parse_one p sz = Some (c, p') \<and> length (buffer p') = length (buffer p) \<and>
    parse_one (extended d p) sz = Some (c, extended d p')"
proof (cases "checkstate p")
  case CHECK_STATE_REQUESTLINE
  then show ?thesis using parse_requestline_line [OF assms]
    by (auto simp: parse_one_def line_result_def extended_def)
next
  case CHECK_STATE_HEADER
  then show ?thesis using parse_headers_line [OF assms]
    by (auto simp: parse_one_def extended_def)
next
  case CHECK_STATE_CONTENT
  then show ?thesis by (simp add: parse_one_def extended_def)
qed

text \<open>The main loop ends in a well-formed state without leaving the buffer, and data that arrives
  later does not change a decision that has been made: an incomplete request goes on exactly as
  if all the data had been there from the start.\<close>

lemma parse_content_later:
  assumes "parser_wf p" "read_index p + length d \<le> length (buffer p)"
  shows "\<exists>c p'. parse_content p = Some (c, p') \<and> parser_wf p' \<and> read_index p' = read_index p \<and>
    length (buffer p') = length (buffer p) \<and>
    (if c = NO_REQUEST then parse_content (extended d p) = parse_content (extended d p')
     else \<exists>q. parse_content (extended d p) = Some (c, q))"
  using assms
proof (induction p rule: parse_content.induct)
  case (1 p)
  let ?r = "read_index p"
  have rl: "?r \<le> length (buffer p)" using 1(3) by simp
  obtain st b ci where L: "parse_line (buffer p) (checked_index p) ?r = Some (st, b, ci)" "length b = length (buffer p)"
    using parse_line_total [OF rl] by blast
  note later = parse_line_later [OF L(1) 1(3)]
  show ?case
  proof (cases st)
    case LINE_OPEN
    let ?p = "p\<lparr>buffer := b, checked_index := ci\<rparr>"
    have b: "b = buffer p" "checked_index p \<le> ci" "ci \<le> ?r" using later LINE_OPEN 1(2) by (auto simp: parser_wf_def)
    have "parse_content p = Some (NO_REQUEST, ?p)" using L LINE_OPEN by (subst parse_content.simps) simp
    moreover have "parse_content (extended d p) = parse_content (extended d ?p)"
    proof -
      have "parse_line (overwrite (buffer p) ?r d) (checked_index p) (?r + length d) =
          parse_line (overwrite (buffer p) ?r d) ci (?r + length d)" using later LINE_OPEN by simp
      then show ?thesis using b(1) by (subst (1 2) parse_content.simps) (auto simp: extended_def split: option.splits LINE_STATUS.splits)
    qed
    ultimately show ?thesis using b 1(2) by (auto simp: parser_wf_def)
  next
    case LINE_BAD
    then have "parse_content (extended d p) = Some (BAD_REQUEST, (extended d p)\<lparr>buffer := overwrite b ?r d, checked_index := ci\<rparr>)"
      using later by (subst parse_content.simps) simp
    moreover have "parse_content p = Some (BAD_REQUEST, p\<lparr>buffer := b, checked_index := ci\<rparr>)"
      using L LINE_BAD by (subst parse_content.simps) simp
    moreover have "checked_index p \<le> ci \<and> ci \<le> ?r"
      using parse_line_bad_index [of "buffer p" "checked_index p" ?r b ci] L LINE_BAD 1(2) by (simp add: parser_wf_def)
    ultimately show ?thesis using L(2) 1(2) by (auto simp: parser_wf_def)
  next
    case LINE_OK
    let ?p = "p\<lparr>buffer := b, checked_index := ci, start_line := ci\<rparr>"
    have ci: "checked_index p < ci" "ci \<le> ?r" using parse_line_progress L LINE_OK by blast+
    have z: "b ! (ci - 1) = 0" using parse_line_zero L LINE_OK by blast
    have i: "start_line p \<le> ci - 1" "ci - 1 < ?r" using ci 1(2) by (auto simp: parser_wf_def)
    obtain c q where q: "parse_one ?p (start_line p) = Some (c, q)" "length (buffer q) = length b"
      "parse_one (extended d ?p) (start_line p) = Some (c, extended d q)"
      using parse_one_line [of ?p "ci - 1" "start_line p" d] z i 1(3) L(2) by auto
    note fr = parse_one_frame [OF q(1)]
    have wf: "parser_wf q" "read_index q + length d \<le> length (buffer q)"
      using fr q(2) L(2) ci 1(2,3) by (auto simp: parser_wf_def)
    have E: "parse_content p = (if c = NO_REQUEST then parse_content q else Some (c, q))"
      using L LINE_OK q(1) by (subst parse_content.simps) simp
    have x: "(extended d p)\<lparr>buffer := overwrite b ?r d, checked_index := ci, start_line := ci\<rparr> = extended d ?p"
      by (simp add: extended_def)
    have E': "parse_content (extended d p) = (if c = NO_REQUEST then parse_content (extended d q) else Some (c, extended d q))"
      using later LINE_OK q(3) by (subst parse_content.simps) (simp add: x)
    show ?thesis
    proof (cases "c = NO_REQUEST")
      case True
      then have "\<exists>c p'. parse_content q = Some (c, p') \<and> parser_wf p' \<and> read_index p' = read_index q \<and>
          length (buffer p') = length (buffer q) \<and>
          (if c = NO_REQUEST then parse_content (extended d q) = parse_content (extended d p')
           else \<exists>q'. parse_content (extended d q) = Some (c, q'))"
        using 1(1) [OF L(1) _ _ _ q(1)] LINE_OK wf by simp
      then show ?thesis using True E E' fr q(2) L(2) by (simp cong: if_cong split del: if_split)
    next
      case False
      then show ?thesis using E E' wf fr q(2) L(2) by auto
    qed
  qed
qed

subsection \<open>The answer does not depend on the pieces\<close>

lemma extended_twice:
  assumes "read_index p + length (d @ e) \<le> length (buffer p)"
  shows "extended e (extended d p) = extended (d @ e) p"
proof -
  have "overwrite (overwrite (buffer p) (read_index p) d) (read_index p + length d) e =
      overwrite (buffer p) (read_index p) (d @ e)"
    using assms by (simp add: overwrite_def ac_simps)
  then show ?thesis by (simp add: extended_def)
qed

lemma wf_extended: "parser_wf p \<Longrightarrow> read_index p + length d \<le> length (buffer p) \<Longrightarrow> parser_wf (extended d p)"
  by (simp add: parser_wf_def)

lemma serve_Cons:
  assumes "d \<noteq> []" "read_index p + length d \<le> length (buffer p)"
  shows "serve p (d # ds) = do {
    (c, p) \<leftarrow> parse_content (extended d p);
    if c = NO_REQUEST then serve p ds else Some (if c = GET_REQUEST then Correct_result else Something_wrong)
  }"
  using assms recv_extended [OF assms(2)] by (cases d) simp_all

lemma serve_merge:
  assumes "parser_wf p" "d \<noteq> []" "e \<noteq> []" "read_index p + length (d @ e) \<le> length (buffer p)"
  shows "serve p (d # e # ds) = serve p ((d @ e) # ds)"
proof -
  let ?q = "extended d p"
  have l: "read_index p + length d \<le> length (buffer p)" using assms(4) by simp
  have q: "parser_wf ?q" "read_index ?q + length e \<le> length (buffer ?q)" using wf_extended [OF assms(1) l] assms(4) by auto
  from parse_content_later [OF q] obtain c p' where c: "parse_content ?q = Some (c, p')" "parser_wf p'"
    "read_index p' = read_index ?q" "length (buffer p') = length (buffer ?q)"
    "if c = NO_REQUEST then parse_content (extended e ?q) = parse_content (extended e p')
     else \<exists>q'. parse_content (extended e ?q) = Some (c, q')" by blast
  have both: "serve p ((d @ e) # ds) = do {
      (c, p) \<leftarrow> parse_content (extended e ?q);
      if c = NO_REQUEST then serve p ds else Some (if c = GET_REQUEST then Correct_result else Something_wrong)
    }" using serve_Cons [of "d @ e" p ds] assms extended_twice [OF assms(4)] by simp
  show ?thesis
  proof (cases "c = NO_REQUEST")
    case True
    have "read_index p' + length e \<le> length (buffer p')" using c(3,4) q(2) by simp
    then show ?thesis using serve_Cons [OF assms(2) l] serve_Cons [OF assms(3)] both c(1,5) True by simp
  next
    case False
    then show ?thesis using serve_Cons [OF assms(2) l] both c(1,5) by auto
  qed
qed

lemma serve_concat:
  assumes "parser_wf p" "\<forall>d. d \<in> set ds \<longrightarrow> d \<noteq> []" "ds \<noteq> []"
    "read_index p + length (concat ds) \<le> length (buffer p)"
  shows "serve p ds = serve p [concat ds]"
  using assms(2-4)
proof (induction "length ds" arbitrary: ds)
  case (Suc n)
  show ?case
  proof (cases ds)
    case (Cons d es)
    show ?thesis
    proof (cases es)
      case Nil
      then show ?thesis using Cons by simp
    next
      case (Cons e fs)
      then have "serve p ds = serve p ((d @ e) # fs)"
        using serve_merge [OF assms(1), of d e fs] Suc.prems \<open>ds = d # es\<close> by simp
      also have "\<dots> = serve p [concat ((d @ e) # fs)]"
        using Suc.hyps(2) Suc.prems \<open>ds = d # es\<close> Cons by (intro Suc.hyps(1)) auto
      finally show ?thesis using \<open>ds = d # es\<close> Cons by simp
    qed
  qed (use Suc.prems in simp)
qed simp

lemma parser_wf_start [simp]: "parser_wf parser_start"
  by (simp add: parser_wf_def parser_start_def)

subsection \<open>What a request line must look like\<close>

text \<open>The request line as a function of its characters: the method, blanks, the URL, blanks and the
  version; of an absolute URL the path is kept.\<close>

definition path_of :: "byte list \<Rightarrow> byte list" where
  "path_of url = (if same_nocase (take 7 url) (bytes ''http://'') then dropWhile (\<lambda>c. c \<noteq> 47) (drop 7 url) else url)"

definition word :: "byte list \<Rightarrow> byte list" where
  "word s = takeWhile (\<lambda>c. \<not> is_blank c) s"

definition after_word :: "byte list \<Rightarrow> byte list" where
  "after_word s = drop (length (word s)) s"

definition request_url :: "byte list \<Rightarrow> byte list option" where
  "request_url line =
     (let rest = after_word line; target = dropWhile is_blank rest; version = dropWhile is_blank (after_word target);
          path = path_of (word target)
      in if rest \<noteq> [] \<and> same_nocase (word line) (bytes ''GET'') \<and> after_word target \<noteq> [] \<and>
            same_nocase version (bytes ''HTTP/1.1'') \<and> path \<noteq> [] \<and> hd path = 47
         then Some path else None)"

lemma cstring_drop:
  assumes "0 \<notin> set s" "n \<le> length s"
  shows "cstring_from (pre @ s @ 0 # post) (length pre + n) = Some (drop n s)"
proof -
  have "0 \<notin> set (drop n s)" using assms(1) by (meson in_set_dropD)
  moreover have "drop (length pre + n) (pre @ s @ 0 # post) = drop n s @ 0 # post" using assms(2) by simp
  moreover have "takeWhile (\<lambda>c. c \<noteq> 0) (t @ 0 # post) = t" if "0 \<notin> set t" for t :: "byte list"
    using that by (induction t) auto
  ultimately show ?thesis by (simp add: cstring_from_def del: drop_append)
qed

lemma cstring_append: "0 \<notin> set s \<Longrightarrow> cstring_from (pre @ s @ 0 # post) (length pre) = Some s"
  using cstring_drop [of s 0 pre post] by simp

lemma word_split:
  assumes "after_word s \<noteq> []"
  obtains b r where "s = word s @ b # r" "is_blank b" "after_word s = b # r"
proof -
  have aw: "after_word s = dropWhile (\<lambda>c. \<not> is_blank c) s"
    by (simp add: after_word_def word_def dropWhile_eq_drop)
  obtain b r where br: "after_word s = b # r" using assms by (cases "after_word s") auto
  moreover have "s = word s @ after_word s" by (simp add: aw word_def)
  moreover have "is_blank b" using br aw by (simp add: dropWhile_eq_Cons_conv)
  ultimately show thesis using that by simp
qed

lemma after_word_Nil: "after_word s = [] \<longleftrightarrow> \<not> length (takeWhile (\<lambda>c. \<not> is_blank c) s) < length s"
  by (auto simp: after_word_def word_def)

lemma strpbrk_spec:
  "0 \<notin> set s \<Longrightarrow> strpbrk_blank (pre @ s @ 0 # post) (length pre) =
     Some (if after_word s = [] then None else Some (length pre + length (word s)))"
  using cstring_append [of s pre post] by (simp add: strpbrk_blank_def after_word_Nil word_def Let_def)

lemma strspn_spec:
  "0 \<notin> set s \<Longrightarrow> strspn_blank (pre @ s @ 0 # post) (length pre) = Some (length (takeWhile is_blank s))"
  using cstring_append [of s pre post] by (simp add: strspn_blank_def)

lemma poke_append: "poke (pre @ c # post) (length pre) v = Some (pre @ v # post)"
  by (simp add: poke_def)

lemma parse_version_spec:
  assumes "0 \<notin> set url" "0 \<notin> set ver" "is_blank b"
  shows "\<exists>c out bf st. parse_version (pre @ url @ b # ver @ 0 # post) (length pre) (length pre + length url) = Some (c, bf, st, out) \<and>
    (let path = path_of url in
     if same_nocase (dropWhile is_blank ver) (bytes ''HTTP/1.1'') \<and> path \<noteq> [] \<and> hd path = 47
     then c = NO_REQUEST \<and> st = CHECK_STATE_HEADER \<and> out = [Method_is_get, Url_is path] else c = BAD_REQUEST)"
proof -
  let ?bf = "pre @ url @ 0 # ver @ 0 # post" and ?k = "length (takeWhile is_blank ver)"
  have p: "poke (pre @ url @ b # ver @ 0 # post) (length pre + length url) 0 = Some ?bf"
    using poke_append [of "pre @ url" b "ver @ 0 # post" 0] by simp
  have k: "strspn_blank ?bf (length pre + length url + 1) = Some ?k"
    using strspn_spec [of ver "pre @ url @ [0]" post] assms(2) by simp
  have v: "cstring_from ?bf (length pre + length url + 1 + ?k) = Some (dropWhile is_blank ver)"
    using cstring_drop [of ver ?k "pre @ url @ [0]" post] assms(2)
    by (simp add: dropWhile_eq_drop length_takeWhile_le)
  have u: "cstring_from ?bf (length pre) = Some url" using cstring_append [of url pre "ver @ 0 # post"] assms(1) by simp
  have tail: "cstring_from ?bf (length pre + n) = Some (drop n url)" "n < length url \<Longrightarrow> peek ?bf (length pre + n) = Some (drop n url ! 0)"
    if "n \<le> length url" for n
    using cstring_drop [of url n pre "ver @ 0 # post"] assms(1) that by (auto simp: peek_def nth_append)
  show ?thesis
  proof (cases "same_nocase (take 7 url) (bytes ''http://'')")
    case False
    then show ?thesis using p k v u tail [of 0]
      by (cases url) (auto simp: parse_version_def strcasecmp_eq_def strncasecmp_eq_def path_of_def Let_def peek_def nth_append hd_conv_nth)
  next
    case True
    then have "length (take 7 url) = 7" using map_eq_imp_length_eq by (fastforce simp: same_nocase_def)
    then have l: "7 \<le> length url" by simp
    let ?d = "drop 7 url"
    let ?n = "length (takeWhile (\<lambda>c. c \<noteq> 47) ?d)"
    have dw: "dropWhile (\<lambda>c. c \<noteq> 47) ?d = drop ?n ?d" by (simp add: dropWhile_eq_drop)
    have ch: "strchr_from ?bf (length pre + 7) 47 = Some (if ?n < length ?d then Some (length pre + 7 + ?n) else None)"
      using tail(1) [OF l] by (simp add: strchr_from_def Let_def)
    have path: "path_of url = drop ?n ?d" using True dw by (simp add: path_of_def)
    show ?thesis
    proof (cases "?n < length ?d")
      case False
      then have "path_of url = []" using path by simp
      then show ?thesis using False p k v u True ch
        by (auto simp: parse_version_def strcasecmp_eq_def strncasecmp_eq_def Let_def bytes_def)
    next
      case True2: True
      have h: "?d ! ?n = 47" using nth_length_takeWhile [OF True2] by simp
      have i: "7 + ?n < length url" using True2 by simp
      have cs: "cstring_from ?bf (length pre + 7 + ?n) = Some (path_of url)"
        using tail(1) [of "7 + ?n"] i path by (simp add: add.assoc add.commute)
      have pk: "peek ?bf (length pre + 7 + ?n) = Some 47" using tail(2) [of "7 + ?n"] i h by (simp add: add.assoc)
      have "path_of url \<noteq> [] \<and> hd (path_of url) = 47" using path True2 h by (simp add: hd_drop_conv_nth del: drop_drop)
      then show ?thesis using True2 p k v u True ch cs pk
        by (auto simp: parse_version_def strcasecmp_eq_def strncasecmp_eq_def Let_def bytes_def)
    qed
  qed
qed

lemma parse_requestline_spec:
  assumes "0 \<notin> set line"
  shows "\<exists>c b st out. parse_requestline (pre @ line @ 0 # post) (length pre) = Some (c, b, st, out) \<and>
    (case request_url line of
       Some url \<Rightarrow> c = NO_REQUEST \<and> st = CHECK_STATE_HEADER \<and> out = [Method_is_get, Url_is url]
     | None \<Rightarrow> c = BAD_REQUEST)"
proof (cases "after_word line = []")
  case True
  then show ?thesis using strpbrk_spec [OF assms, of pre post] by (simp add: parse_requestline_def request_url_def)
next
  case False
  let ?m = "word line"
  obtain b r where br: "line = ?m @ b # r" "is_blank b" "after_word line = b # r" using word_split [OF False] .
  let ?buf = "pre @ ?m @ 0 # r @ 0 # post" and ?n = "length (takeWhile is_blank r)" and ?t = "dropWhile is_blank r"
  have z: "0 \<notin> set ?m" "0 \<notin> set r" "0 \<notin> set ?t"
  proof -
    have "0 \<notin> set (?m @ b # r)" using assms br(1) by simp
    then show "0 \<notin> set ?m" "0 \<notin> set r" by auto
    then show "0 \<notin> set ?t" by (meson set_dropWhileD)
  qed
  have p: "poke (pre @ line @ 0 # post) (length pre + length ?m) 0 = Some ?buf"
    using poke_append [of "pre @ ?m" b "r @ 0 # post" 0] br(1) by (metis append.assoc append_Cons length_append)
  have g: "strcasecmp_eq ?buf (length pre) (bytes ''GET'') = Some (same_nocase ?m (bytes ''GET''))"
    using cstring_append [of ?m pre "r @ 0 # post"] z by (simp add: strcasecmp_eq_def)
  have n: "strspn_blank ?buf (length pre + length ?m + 1) = Some ?n"
    using strspn_spec [of r "pre @ ?m @ [0]" post] z by simp
  let ?pre = "pre @ ?m @ 0 # takeWhile is_blank r"
  have buf: "?buf = ?pre @ ?t @ 0 # post" "length pre + length ?m + 1 + ?n = length ?pre" by simp_all
  have v: "strpbrk_blank ?buf (length pre + length ?m + 1 + ?n) =
      Some (if after_word ?t = [] then None else Some (length ?pre + length (word ?t)))"
    using strpbrk_spec [OF z(3), of ?pre post] unfolding buf .
  have db: "dropWhile is_blank (b # r) = ?t" using br(2) by simp
  have head: "parse_requestline (pre @ line @ 0 # post) (length pre) =
    (if \<not> same_nocase ?m (bytes ''GET'') then Some (BAD_REQUEST, ?buf, CHECK_STATE_REQUESTLINE, [])
     else if after_word ?t = [] then Some (BAD_REQUEST, ?buf, CHECK_STATE_REQUESTLINE, [Method_is_get])
     else parse_version ?buf (length ?pre) (length ?pre + length (word ?t)))"
    using strpbrk_spec [OF assms, of pre post] False p g n v by (simp add: parse_requestline_def add.assoc)
  show ?thesis
  proof (cases "after_word ?t = []")
    case True
    then show ?thesis using head br(3) db by (simp add: request_url_def Let_def)
  next
    case False2: False
    obtain b2 r2 where t: "?t = word ?t @ b2 # r2" "is_blank b2" "after_word ?t = b2 # r2" using word_split [OF False2] .
    have z2: "0 \<notin> set (word ?t)" "0 \<notin> set r2"
    proof -
      have "0 \<notin> set (word ?t @ b2 # r2)" using z(3) t(1) by simp
      then show "0 \<notin> set (word ?t)" "0 \<notin> set r2" by auto
    qed
    have "?buf = ?pre @ word ?t @ b2 # r2 @ 0 # post" using buf(1) t(1) by (metis append.assoc append_Cons)
    then have ver: "\<exists>c out bf st. parse_version ?buf (length ?pre) (length ?pre + length (word ?t)) = Some (c, bf, st, out) \<and>
      (let path = path_of (word ?t) in
       if same_nocase (dropWhile is_blank r2) (bytes ''HTTP/1.1'') \<and> path \<noteq> [] \<and> hd path = 47
       then c = NO_REQUEST \<and> st = CHECK_STATE_HEADER \<and> out = [Method_is_get, Url_is path] else c = BAD_REQUEST)"
      using parse_version_spec [OF z2 t(2), of ?pre post] by (simp only:)
    have "dropWhile is_blank (b2 # r2) = dropWhile is_blank r2" using t(2) by simp
    then show ?thesis using ver head br(3) db t(3) by (auto simp: request_url_def Let_def split: if_splits)
  qed
qed

subsection \<open>Properties\<close>

text \<open>
  C3. The server's answer depends on the bytes of the request and not on the pieces in which the
  network delivers them: for every division of at most \<open>BUFFER_SIZE\<close> bytes into
  non-empty pieces the answer is the one to all the bytes at once.
\<close>

theorem serve_any_pieces:
  assumes "\<forall>d. d \<in> set ds \<longrightarrow> d \<noteq> []" "ds \<noteq> []" "length (concat ds) \<le> BUFFER_SIZE"
  shows "serve parser_start ds = serve parser_start [concat ds]"
  using assms serve_concat [OF parser_wf_start, of ds] by (simp add: parser_start_def)

theorem serve_any_pieces_witness:
  "serve parser_start [bytes ''GET / HT'', bytes ''TP/1.1'' @ [13], [10, 13, 10]] =
   serve parser_start [concat [bytes ''GET / HT'', bytes ''TP/1.1'' @ [13], [10, 13, 10]]]"
  by (rule serve_any_pieces) (auto simp: bytes_def BUFFER_SIZE_def)

text \<open>
  C35. The parser is memory safe and always returns: from a state whose line start, checked and read
  indices are in order within the buffer it ends without an access outside the buffer, in such a state
  again, with the same data marked as read.
\<close>

theorem parse_content_safe:
  assumes "parser_wf p"
  shows "\<exists>c p'. parse_content p = Some (c, p') \<and> parser_wf p' \<and> read_index p' = read_index p \<and>
    length (buffer p') = length (buffer p)"
  using parse_content_later [OF assms, of "[]"] assms by (auto simp: parser_wf_def)

theorem parse_content_safe_witness:
  "\<exists>c p'. parse_content (extended (bytes ''GET'') parser_start) = Some (c, p') \<and> parser_wf p' \<and>
    read_index p' = read_index (extended (bytes ''GET'') parser_start) \<and>
    length (buffer p') = length (buffer (extended (bytes ''GET'') parser_start))"
  by (rule parse_content_safe, rule wf_extended [OF parser_wf_start]) (simp add: parser_start_def BUFFER_SIZE_def)

text \<open>
  \<open>parse_requestline\<close> accepts exactly the lines \<open>GET url HTTP/1.1\<close>, in any case and with any
  blanks between the parts, whose URL starts with a slash or is an absolute \<open>http\<close> URL with a
  path; it reports the path, and only then does the machine go on to the headers.
\<close>

theorem requestline_grammar:
  assumes "0 \<notin> set line"
  shows "\<exists>c b st out. parse_requestline (pre @ line @ 0 # post) (length pre) = Some (c, b, st, out) \<and>
    (case request_url line of
       Some url \<Rightarrow> c = NO_REQUEST \<and> st = CHECK_STATE_HEADER \<and> out = [Method_is_get, Url_is url]
     | None \<Rightarrow> c = BAD_REQUEST)"
  by (rule parse_requestline_spec [OF assms])

theorem requestline_grammar_witness:
  "\<exists>c b st out. parse_requestline (bytes ''xx'' @ bytes ''get  http://h/p HTTP/1.1'' @ 0 # []) (length (bytes ''xx'')) = Some (c, b, st, out) \<and>
    c = NO_REQUEST \<and> st = CHECK_STATE_HEADER \<and> out = [Method_is_get, Url_is (bytes ''/p'')]"
proof -
  have "request_url (bytes ''get  http://h/p HTTP/1.1'') = Some (bytes ''/p'')" by code_simp
  then show ?thesis
    using requestline_grammar [of "bytes ''get  http://h/p HTTP/1.1''" "bytes ''xx''" "[]"] by (simp add: bytes_def)
qed

end
