(* ===== verification/Block_Queue.thy ===== *)
theory Block_Queue
  imports Task_Pool "HOL-Library.Signed_Division"
begin

text \<open>
  The blocking queue of the web server's log (\<open>c-plus-plus-server/webserver/log/block_queue.h\<close>), a
  ring buffer of fixed size behind a mutex; every public member function is one critical section.
  \<open>None\<close> is an access outside the array.  Shown: the ring is a bounded first-in-first-out queue;
  \<open>back\<close> returns the newest element, but \<open>front\<close> does not return the oldest one; and the deadline of
  the timed \<open>pop\<close> is computed in the wrong unit.
\<close>

subsection \<open>The queue\<close>

record 'a block_queue =
  m_array :: "'a list"
  m_size :: int
  m_max_size :: int
  m_front :: int
  m_back :: int

definition array_get :: "'a list \<Rightarrow> int \<Rightarrow> 'a option" where
  "array_get a i = (if 0 \<le> i \<and> i < int (length a) then Some (a ! nat i) else None)"

definition array_set :: "'a list \<Rightarrow> int \<Rightarrow> 'a \<Rightarrow> 'a list option" where
  "array_set a i v = (if 0 \<le> i \<and> i < int (length a) then Some (a[nat i := v]) else None)"

text \<open>The constructor; \<open>dflt\<close> is what \<open>new T[max_size]\<close> initialises the elements with, \<open>None\<close> is
  \<open>exit(-1)\<close>.\<close>

definition bq_new :: "'a \<Rightarrow> int \<Rightarrow> 'a block_queue option" where
  "bq_new dflt max_size =
     (if max_size \<le> 0 then None
      else Some \<lparr>m_array = replicate (nat max_size) dflt, m_size = 0, m_max_size = max_size, m_front = -1, m_back = -1\<rparr>)"

definition bq_clear :: "'a block_queue \<Rightarrow> 'a block_queue" where
  "bq_clear q = q\<lparr>m_size := 0, m_front := -1, m_back := -1\<rparr>"

definition bq_full :: "'a block_queue \<Rightarrow> bool" where
  "bq_full q \<longleftrightarrow> m_size q \<ge> m_max_size q"

definition bq_empty :: "'a block_queue \<Rightarrow> bool" where
  "bq_empty q \<longleftrightarrow> 0 = m_size q"

definition bq_size :: "'a block_queue \<Rightarrow> int" where
  "bq_size q = (let tmp = m_size q in tmp)"

definition bq_max_size :: "'a block_queue \<Rightarrow> int" where
  "bq_max_size q = (let tmp = m_max_size q in tmp)"

definition bq_front :: "'a block_queue \<Rightarrow> 'a option option" where
  "bq_front q = (if 0 = m_size q then Some None else do { v \<leftarrow> array_get (m_array q) (m_front q); Some (Some v) })"

definition bq_back :: "'a block_queue \<Rightarrow> 'a option option" where
  "bq_back q = (if 0 = m_size q then Some None else do { v \<leftarrow> array_get (m_array q) (m_back q); Some (Some v) })"

text \<open>The indices are at least \<open>-1\<close>, so that the remainder of C is that of \<open>mod\<close>.\<close>

definition bq_push :: "'a block_queue \<Rightarrow> 'a \<Rightarrow> (bool \<times> 'a block_queue) option" where
  "bq_push q item =
     (if m_size q \<ge> m_max_size q then Some (False, q)
      else do {
        let back = (m_back q + 1) mod m_max_size q;
        a \<leftarrow> array_set (m_array q) back item;
        Some (True, q\<lparr>m_back := back, m_array := a, m_size := m_size q + 1\<rparr>)
      })"

text \<open>Taking an element once there is one, the common end of both forms of \<open>pop\<close>.\<close>

definition bq_take :: "'a block_queue \<Rightarrow> ('a \<times> 'a block_queue) option" where
  "bq_take q = do {
     let front = (m_front q + 1) mod m_max_size q;
     item \<leftarrow> array_get (m_array q) front;
     Some (item, q\<lparr>m_front := front, m_size := m_size q - 1\<rparr>)
   }"

text \<open>One round of \<open>pop\<close>: on an empty queue the thread waits, and gives up when the wait fails.\<close>

datatype 'a popped = Item 'a | Waiting | Gave_up

definition bq_pop :: "bool \<Rightarrow> 'a block_queue \<Rightarrow> ('a popped \<times> 'a block_queue) option" where
  "bq_pop wait_ok q =
     (if m_size q \<le> 0 then Some (if wait_ok then Waiting else Gave_up, q)
      else do { (item, q) \<leftarrow> bq_take q; Some (Item item, q) })"

text \<open>The absolute deadline of the timed \<open>pop\<close>, in seconds and nanoseconds.\<close>

definition bq_deadline :: "int \<Rightarrow> int \<Rightarrow> int \<times> int" where
  "bq_deadline now_sec ms_timeout = (now_sec + ms_timeout sdiv 1000, (ms_timeout smod 1000) * 1000)"

text \<open>The timed \<open>pop\<close>: \<open>wake d\<close> is what waiting until the deadline \<open>d\<close> yields, the result of the wait and
  the queue the thread finds when it has the mutex again.\<close>

definition bq_pop_timed :: "(int \<times> int \<Rightarrow> bool \<times> 'a block_queue) \<Rightarrow> int \<Rightarrow> int \<Rightarrow> 'a block_queue \<Rightarrow>
    ('a popped \<times> 'a block_queue) option" where
  "bq_pop_timed wake now_sec ms_timeout q =
     (let (ok, q) = (if m_size q \<le> 0 then wake (bq_deadline now_sec ms_timeout) else (True, q))
      in if \<not> ok then Some (Gave_up, q)
         else if m_size q \<le> 0 then Some (Gave_up, q)
         else do { (item, q) \<leftarrow> bq_take q; Some (Item item, q) })"

subsection \<open>The ring holds a list\<close>

definition ring_wf :: "'a block_queue \<Rightarrow> bool" where
  "ring_wf q \<longleftrightarrow> 0 < m_max_size q \<and> int (length (m_array q)) = m_max_size q \<and> 0 \<le> m_size q \<and>
     m_size q \<le> m_max_size q \<and> -1 \<le> m_front q \<and> m_front q < m_max_size q \<and>
     -1 \<le> m_back q \<and> m_back q < m_max_size q \<and> (m_front q + m_size q) mod m_max_size q = m_back q mod m_max_size q"

definition ring_slot :: "'a block_queue \<Rightarrow> int \<Rightarrow> nat" where
  "ring_slot q i = nat ((m_front q + 1 + i) mod m_max_size q)"

definition ring_holds :: "'a block_queue \<Rightarrow> 'a list \<Rightarrow> bool" where
  "ring_holds q xs \<longleftrightarrow> ring_wf q \<and> int (length xs) = m_size q \<and>
     (\<forall>i. i < length xs \<longrightarrow> xs ! i = m_array q ! ring_slot q (int i))"

lemma ring_slot_bound: "ring_wf q \<Longrightarrow> ring_slot q i < length (m_array q)"
  by (auto simp: ring_slot_def ring_wf_def nat_less_iff)

lemma mod_ge_minus_one: "0 < m \<Longrightarrow> -1 \<le> a mod (m :: int)"
  by (rule order.trans [of _ 0]) simp_all

lemma mod_inj:
  assumes "(a + i) mod m = (a + j) mod (m :: int)" "0 \<le> i" "i < m" "0 \<le> j" "j < m"
  shows "i = j"
proof -
  have "i mod m = j mod m" using assms(1) by (metis add_diff_cancel_left' mod_diff_left_eq)
  then show ?thesis using assms by simp
qed

lemma ring_slot_inj:
  assumes "ring_wf q" "ring_slot q i = ring_slot q j" "0 \<le> i" "i < m_max_size q" "0 \<le> j" "j < m_max_size q"
  shows "i = j"
proof (rule mod_inj)
  show "(m_front q + 1 + i) mod m_max_size q = (m_front q + 1 + j) mod m_max_size q"
    using assms(1,2) by (simp add: ring_slot_def ring_wf_def eq_nat_nat_iff)
qed (use assms in auto)

lemma bq_new_ok: "bq_new dflt n = Some q \<Longrightarrow> ring_holds q []"
  by (auto simp: bq_new_def ring_holds_def ring_wf_def split: if_splits)

lemma bq_clear_ok: "ring_holds q xs \<Longrightarrow> ring_holds (bq_clear q) []"
  by (auto simp: bq_clear_def ring_holds_def ring_wf_def)

lemma bq_push_ok:
  assumes "ring_holds q xs"
  shows "if bq_full q then bq_push q x = Some (False, q)
    else \<exists>q'. bq_push q x = Some (True, q') \<and> ring_holds q' (xs @ [x]) \<and> m_max_size q' = m_max_size q"
proof (cases "bq_full q")
  case False
  let ?b = "(m_back q + 1) mod m_max_size q" and ?n = "m_size q"
  have wf: "ring_wf q" and len: "int (length xs) = ?n" using assms by (auto simp: ring_holds_def)
  have lt: "?n < m_max_size q" "0 < m_max_size q" using False wf by (auto simp: bq_full_def ring_wf_def)
  have b: "?b = (m_front q + 1 + ?n) mod m_max_size q"
  proof -
    have w: "m_back q mod m_max_size q = (m_front q + ?n) mod m_max_size q" using wf by (simp add: ring_wf_def)
    have "(m_back q + 1) mod m_max_size q = (m_back q mod m_max_size q + 1) mod m_max_size q" by (simp add: mod_simps)
    also have "\<dots> = (m_front q + ?n + 1) mod m_max_size q" by (simp only: w mod_add_left_eq)
    finally show ?thesis by (simp add: ac_simps)
  qed
  have br: "0 \<le> ?b" "?b < m_max_size q" "nat ?b = ring_slot q ?n" using lt(2) b by (auto simp: ring_slot_def)
  let ?q = "q\<lparr>m_back := ?b, m_array := (m_array q)[nat ?b := x], m_size := ?n + 1\<rparr>"
  have push: "bq_push q x = Some (True, ?q)"
    using False br wf by (simp add: bq_push_def bq_full_def array_set_def Let_def ring_wf_def)
  have "ring_wf ?q" using wf br lt b by (auto simp: ring_wf_def ac_simps mod_ge_minus_one)
  moreover have "(xs @ [x]) ! i = m_array ?q ! ring_slot ?q (int i)" if "i < length (xs @ [x])" for i
  proof -
    have s: "ring_slot ?q (int i) = ring_slot q (int i)" by (simp add: ring_slot_def)
    show ?thesis
    proof (cases "i = length xs")
      case True
      then show ?thesis using s br len ring_slot_bound [OF wf] by simp
    next
      case ne: False
      then have "ring_slot q (int i) \<noteq> ring_slot q ?n"
        using ring_slot_inj [OF wf, of "int i" ?n] that lt len by auto
      then show ?thesis using s br that ne assms by (auto simp: nth_append ring_holds_def)
    qed
  qed
  ultimately have "ring_holds ?q (xs @ [x])" using len by (auto simp: ring_holds_def)
  then show ?thesis using False push by simp
qed (simp add: bq_push_def bq_full_def)

lemma bq_take_ok:
  assumes "ring_holds q (x # xs)"
  shows "\<exists>q'. bq_take q = Some (x, q') \<and> ring_holds q' xs \<and> m_max_size q' = m_max_size q"
proof -
  let ?f = "(m_front q + 1) mod m_max_size q"
  have wf: "ring_wf q" and len: "int (length (x # xs)) = m_size q" using assms by (auto simp: ring_holds_def)
  have m: "0 < m_max_size q" using wf by (simp add: ring_wf_def)
  have x: "m_array q ! nat ?f = x" using assms by (auto simp: ring_holds_def ring_slot_def)
  have f: "0 \<le> ?f" "?f < m_max_size q" using m by simp_all
  let ?q = "q\<lparr>m_front := ?f, m_size := m_size q - 1\<rparr>"
  have take: "bq_take q = Some (x, ?q)" using f wf x by (simp add: bq_take_def array_get_def ring_wf_def Let_def)
  have "(?f + (m_size q - 1)) mod m_max_size q = (m_front q + m_size q) mod m_max_size q"
    by (simp add: mod_simps)
  then have "ring_wf ?q" using wf f len by (auto simp: ring_wf_def mod_ge_minus_one)
  moreover have "xs ! i = m_array ?q ! ring_slot ?q (int i)" if "i < length xs" for i
  proof -
    have "(?f + 1 + int i) mod m_max_size q = (m_front q + 1 + (1 + int i)) mod m_max_size q"
      by (simp only: add.assoc mod_add_left_eq)
    then have "ring_slot ?q (int i) = ring_slot q (int (Suc i))" by (simp add: ring_slot_def)
    moreover have "(x # xs) ! Suc i = m_array q ! ring_slot q (int (Suc i))"
      using assms that unfolding ring_holds_def by (metis Suc_less_eq length_Cons)
    ultimately show ?thesis by simp
  qed
  ultimately show ?thesis using take len by (auto simp: ring_holds_def)
qed

subsection \<open>The interface\<close>

definition room :: "'a block_queue \<Rightarrow> 'a \<Rightarrow> bool" where
  "room q x \<longleftrightarrow> \<not> bq_full q"

definition ring_put :: "'a block_queue \<Rightarrow> 'a \<Rightarrow> 'a block_queue option" where
  "ring_put q x = map_option snd (bq_push q x)"

definition ring_take :: "'a block_queue \<Rightarrow> ('a option \<times> 'a block_queue) option" where
  "ring_take q = do {
     (r, q) \<leftarrow> bq_pop True q;
     Some (case r of Item x \<Rightarrow> Some x | _ \<Rightarrow> None, q)
   }"

interpretation ring: fifo_pool ring_holds room ring_put ring_take
proof
  fix s :: "'a block_queue" and xs t
  assume "ring_holds s xs" "room s t"
  then show "\<exists>s'. ring_put s t = Some s' \<and> ring_holds s' (xs @ [t])"
    using bq_push_ok [of s xs t] by (auto simp: room_def ring_put_def)
next
  fix s :: "'a block_queue"
  assume "ring_holds s []"
  then show "\<exists>s'. ring_take s = Some (None, s') \<and> ring_holds s' []"
    by (auto simp: ring_take_def bq_pop_def ring_holds_def)
next
  fix s :: "'a block_queue" and x xs
  assume a: "ring_holds s (x # xs)"
  then have "\<not> m_size s \<le> 0" by (auto simp: ring_holds_def)
  then show "\<exists>s'. ring_take s = Some (Some x, s') \<and> ring_holds s' xs"
    using bq_take_ok [OF a] by (auto simp: ring_take_def bq_pop_def)
qed

subsection \<open>Properties\<close>

text \<open>Sequences of calls, as the log's front end and its writing thread make them.\<close>

datatype 'a bq_call = Push 'a | Pop | Clear

fun bq_exec :: "'a block_queue \<Rightarrow> 'a bq_call list \<Rightarrow> ('a list \<times> 'a block_queue) option" where
  "bq_exec q [] = Some ([], q)"
| "bq_exec q (Push x # cs) = do { (ok, q) \<leftarrow> bq_push q x; bq_exec q cs }"
| "bq_exec q (Pop # cs) = do {
     (r, q) \<leftarrow> bq_pop True q;
     (ys, q) \<leftarrow> bq_exec q cs;
     Some (case r of Item y \<Rightarrow> y # ys | _ \<Rightarrow> ys, q)
   }"
| "bq_exec q (Clear # cs) = bq_exec (bq_clear q) cs"

fun spec_exec :: "nat \<Rightarrow> 'a list \<Rightarrow> 'a bq_call list \<Rightarrow> 'a list \<times> 'a list" where
  "spec_exec n xs [] = ([], xs)"
| "spec_exec n xs (Push x # cs) = spec_exec n (if length xs < n then xs @ [x] else xs) cs"
| "spec_exec n [] (Pop # cs) = spec_exec n [] cs"
| "spec_exec n (x # xs) (Pop # cs) = (case spec_exec n xs cs of (ys, zs) \<Rightarrow> (x # ys, zs))"
| "spec_exec n xs (Clear # cs) = spec_exec n [] cs"

lemma bq_full_length: "ring_holds q xs \<Longrightarrow> bq_full q \<longleftrightarrow> \<not> length xs < nat (m_max_size q)"
  by (auto simp: ring_holds_def bq_full_def)

lemma bq_exec_refines:
  "ring_holds q xs \<Longrightarrow> m_max_size q = int n \<Longrightarrow>
   \<exists>q'. bq_exec q cs = Some (fst (spec_exec n xs cs), q') \<and> ring_holds q' (snd (spec_exec n xs cs))"
proof (induction n xs cs arbitrary: q rule: spec_exec.induct)
  case (1 n xs)
  then show ?case by simp
next
  case (2 n xs x cs)
  then show ?case
    using bq_push_ok [OF 2(2), of x] bq_full_length [OF 2(2)] by (cases "bq_full q") auto
next
  case (3 n cs)
  then have "bq_pop True q = Some (Waiting, q)" by (auto simp: bq_pop_def ring_holds_def)
  then show ?case using 3 by (force split: prod.splits)
next
  case (4 n x xs cs)
  then have "\<not> m_size q \<le> 0" by (auto simp: ring_holds_def)
  moreover obtain q' where q': "bq_take q = Some (x, q')" "ring_holds q' xs" "m_max_size q' = m_max_size q"
    using bq_take_ok [OF 4(2)] by blast
  ultimately have "bq_pop True q = Some (Item x, q')" by (simp add: bq_pop_def)
  moreover obtain q'' where "bq_exec q' cs = Some (fst (spec_exec n xs cs), q'')" "ring_holds q'' (snd (spec_exec n xs cs))"
    using 4(1) [OF q'(2)] q'(3) 4(3) by auto
  ultimately show ?case by (auto split: prod.splits)
next
  case (5 n xs cs)
  have "m_max_size (bq_clear q) = int n" using 5 by (simp add: bq_clear_def)
  then show ?case using 5(1) [OF bq_clear_ok [OF 5(2)]] by simp
qed

text \<open>C36. Log queue: any sequence of pushes, pops and clears on a new \<open>block_queue\<close> stays inside the
  array and hands out what a bounded list with the same calls would: first in, first out, a push on a
  full queue refused, and what remains in the ring is what remains in the list.\<close>

theorem block_queue_is_fifo:
  assumes "0 < n" "bq_new dflt (int n) = Some q"
  shows "\<exists>q'. bq_exec q cs = Some (fst (spec_exec n [] cs), q') \<and> ring_holds q' (snd (spec_exec n [] cs))"
proof (rule bq_exec_refines)
  show "ring_holds q []" using bq_new_ok assms(2) .
  show "m_max_size q = int n" using assms by (auto simp: bq_new_def)
qed

theorem block_queue_is_fifo_witness:
  "\<exists>q q'. bq_new (0 :: int) (int 2) = Some q \<and>
     bq_exec q [Push 1, Push 2, Push 3, Pop, Push 4, Pop, Pop, Pop] = Some ([1, 2, 4], q')"
proof -
  obtain q where q: "bq_new (0 :: int) (int 2) = Some q" by (simp add: bq_new_def)
  show ?thesis using block_queue_is_fifo [OF _ q, of "[Push 1, Push 2, Push 3, Pop, Push 4, Pop, Pop, Pop]"] q
    by auto
qed

lemma ring_last:
  assumes "ring_holds q xs" "xs \<noteq> []"
  shows "m_back q mod m_max_size q = int (ring_slot q (m_size q - 1))"
  using assms by (auto simp: ring_holds_def ring_wf_def ring_slot_def algebra_simps)

lemma bq_back_newest:
  assumes "ring_holds q (xs @ [x])" "0 \<le> m_back q"
  shows "bq_back q = Some (Some x)"
proof -
  have w: "m_back q < m_max_size q" "0 < m_max_size q" "m_size q = int (Suc (length xs))"
      "int (length (m_array q)) = m_max_size q"
    using assms(1) by (auto simp: ring_holds_def ring_wf_def)
  have "nat (m_back q) = ring_slot q (int (length xs))" using ring_last [OF assms(1)] w assms(2) by simp
  moreover have "(xs @ [x]) ! length xs = m_array q ! ring_slot q (int (length xs))"
    using assms(1) unfolding ring_holds_def by (metis length_append_singleton lessI)
  ultimately show ?thesis using w assms(2) by (simp add: bq_back_def array_get_def)
qed

text \<open>Log queue: \<open>front\<close> does not return the oldest element.  On a queue that has been pushed to but never
  popped from it reads \<open>m_array[-1]\<close>; after a pop it returns the element just popped, which is no longer
  in the queue.\<close>

theorem bq_front_is_wrong:
  assumes "ring_holds q (y # z # zs)"
  shows "(m_front q = -1 \<longrightarrow> bq_front q = None) \<and>
    (\<exists>q'. bq_pop True q = Some (Item y, q') \<and> ring_holds q' (z # zs) \<and> bq_front q' = Some (Some y))"
proof
  have n: "m_size q = int (Suc (Suc (length zs)))" using assms by (simp add: ring_holds_def)
  then show "m_front q = -1 \<longrightarrow> bq_front q = None" by (simp add: bq_front_def array_get_def)
  obtain q' where q': "bq_take q = Some (y, q')" "ring_holds q' (z # zs)" using bq_take_ok [OF assms] by blast
  have "bq_front q' = Some (Some y)"
    using q'(1) n by (auto simp: bq_take_def bq_front_def Let_def bind_eq_Some_conv)
  then show "\<exists>q'. bq_pop True q = Some (Item y, q') \<and> ring_holds q' (z # zs) \<and> bq_front q' = Some (Some y)"
    using q' n by (auto simp: bq_pop_def)
qed

theorem bq_front_is_wrong_witness:
  "\<exists>q q'. bq_exec \<lparr>m_array = [0, 0, 0], m_size = 0, m_max_size = 3, m_front = -1, m_back = -1\<rparr> [Push (5 :: int), Push 6] = Some ([], q) \<and>
     bq_front q = None \<and> bq_pop True q = Some (Item 5, q') \<and> bq_front q' = Some (Some 5)"
proof -
  let ?e = "\<lparr>m_array = [0, 0, 0], m_size = 0, m_max_size = 3, m_front = -1, m_back = -1\<rparr> :: int block_queue"
  have "ring_holds ?e []" by (simp add: ring_holds_def ring_wf_def)
  then obtain q where q: "bq_exec ?e [Push 5, Push 6] = Some ([], q)" "ring_holds q [5, 6]"
    using bq_exec_refines [of ?e "[]" 3 "[Push 5, Push 6]"] by auto
  then have "m_front q = -1" by (auto simp: bq_push_def array_set_def)
  then show ?thesis using bq_front_is_wrong [OF q(2)] q(1) by auto
qed

text \<open>Log queue: the deadline of the timed \<open>pop\<close> drops the microseconds of the current time and counts
  milliseconds as microseconds: with a timeout below a second, a thread that calls it a millisecond or
  more into the current second gets a deadline that has already passed.\<close>

definition ns_of :: "int \<times> int \<Rightarrow> int" where
  "ns_of t = fst t * 1000000000 + snd t"

theorem bq_deadline_in_the_past:
  assumes "0 \<le> ms_timeout" "ms_timeout < 1000" "1000 \<le> now_usec"
  shows "ns_of (bq_deadline now_sec ms_timeout) < ns_of (now_sec, now_usec * 1000)"
proof -
  have "sgn ms_timeout = (if ms_timeout = 0 then 0 else 1)" using assms by (simp add: sgn_if)
  then have "ms_timeout sdiv 1000 = 0" "ms_timeout smod 1000 = ms_timeout"
    using assms by (auto simp: signed_divide_int_def signed_modulo_int_def)
  then show ?thesis using assms by (simp add: bq_deadline_def ns_of_def)
qed

theorem bq_deadline_in_the_past_witness:
  "ns_of (bq_deadline 1700000000 500) < ns_of (1700000000, 250000 * 1000)"
  using bq_deadline_in_the_past [of 500 250000 1700000000] by simp

end
