(* ===== verification/Timer_Queue.thy ===== *)
theory Timer_Queue
  imports Prelude "HOL-Library.Multiset"
begin

text \<open>
  What the timer containers of the network programs promise: a timer that has been added is run by
  the first \<open>tick\<close> at or after its expiry, never earlier and never twice.  The laws are
  those of one \<open>add_timer\<close> and one \<open>tick\<close>; what a program that adds timers and ticks sees follows
  once, for the sorted lists and for the time heap.
\<close>

locale timer_queue =
  fixes content :: "'s \<Rightarrow> (int \<times> 'u) multiset \<Rightarrow> bool"
    and ready :: "'s \<Rightarrow> int \<times> 'u \<Rightarrow> bool"
    and add :: "'s \<Rightarrow> int \<times> 'u \<Rightarrow> 's option"
    and tick :: "'s \<Rightarrow> int \<Rightarrow> ((int \<times> 'u) list \<times> 's) option"
  assumes add_ok: "content s M \<Longrightarrow> ready s x \<Longrightarrow> \<exists>s'. add s x = Some s' \<and> content s' (add_mset x M)"
    and tick_ok: "content s M \<Longrightarrow> \<exists>fs s'. tick s cur = Some (fs, s') \<and> sorted (map fst fs) \<and>
      mset fs = filter_mset (\<lambda>x. fst x \<le> cur) M \<and> content s' (filter_mset (\<lambda>x. cur < fst x) M)"
begin

lemma tick_fires:
  assumes "content s M" "tick s cur = Some (fs, s')"
  shows "sorted (map fst fs)" "mset fs = filter_mset (\<lambda>x. fst x \<le> cur) M"
    "content s' (filter_mset (\<lambda>x. cur < fst x) M)"
  using tick_ok [OF assms(1), of cur] assms(2) by auto

lemma tick_conserves: "content s M \<Longrightarrow> tick s cur = Some (fs, s') \<Longrightarrow> \<exists>M'. content s' M' \<and> M = mset fs + M'"
  using tick_fires [of s M cur fs s'] multiset_partition [of M "\<lambda>x. fst x \<le> cur"] by (auto simp: not_le)

end

text \<open>Runs: the calls made so far and, for every \<open>tick\<close>, its time and what it ran.\<close>

inductive timer_run :: "('s \<Rightarrow> 'x \<Rightarrow> bool) \<Rightarrow> ('s \<Rightarrow> 'x \<Rightarrow> 's option) \<Rightarrow> ('s \<Rightarrow> int \<Rightarrow> ('x list \<times> 's) option) \<Rightarrow>
    's \<Rightarrow> 'x list \<Rightarrow> (int \<times> 'x list) list \<Rightarrow> 's \<Rightarrow> bool" for ready add tick where
  timer_start: "timer_run ready add tick s [] [] s"
| timer_add: "timer_run ready add tick s xs fs s1 \<Longrightarrow> ready s1 x \<Longrightarrow> add s1 x = Some s2 \<Longrightarrow>
    timer_run ready add tick s (x # xs) fs s2"
| timer_tick: "timer_run ready add tick s xs fs s1 \<Longrightarrow> tick s1 cur = Some (ys, s2) \<Longrightarrow>
    timer_run ready add tick s xs ((cur, ys) # fs) s2"

definition fired :: "(int \<times> 'x list) list \<Rightarrow> 'x multiset" where
  "fired fs = (\<Sum>f\<leftarrow>fs. mset (snd f))"

lemma fired_simps [simp]: "fired [] = {#}" "fired (f # fs) = mset (snd f) + fired fs"
  by (simp_all add: fired_def)

context timer_queue
begin

text \<open>Every timer added is either still there or has been run exactly once, and not before its
  time.\<close>

lemma run_conserves:
  "timer_run ready add tick s xs fs s' \<Longrightarrow> content s M \<Longrightarrow>
   \<exists>M'. content s' M' \<and> M + mset xs = fired fs + M' \<and> (\<forall>(cur, ys) \<in> set fs. \<forall>y \<in> set ys. fst y \<le> cur)"
proof (induction rule: timer_run.induct)
  case (timer_start s)
  then show ?case by auto
next
  case (timer_add s xs fs s1 x s2)
  then obtain M' where M: "content s1 M'" "M + mset xs = fired fs + M'"
      "\<forall>(cur, ys) \<in> set fs. \<forall>y \<in> set ys. fst y \<le> cur" by blast
  from add_ok [OF M(1) timer_add.hyps(2)] timer_add.hyps(3) M(2,3) show ?case by auto
next
  case (timer_tick s xs fs s1 cur ys s2)
  then obtain M' where M: "content s1 M'" "M + mset xs = fired fs + M'"
      "\<forall>(cur, ys) \<in> set fs. \<forall>y \<in> set ys. fst y \<le> cur" by blast
  from tick_conserves [OF M(1) timer_tick.hyps(2)] obtain M2 where "content s2 M2" "M' = mset ys + M2" by blast
  moreover have "\<forall>y \<in> set ys. fst y \<le> cur"
    using tick_fires(2) [OF M(1) timer_tick.hyps(2)] by (metis (no_types, lifting) filter_mset_eq_conv set_mset_mset)
  ultimately show ?case using M(2,3) by (auto simp: ac_simps)
qed

text \<open>A \<open>tick\<close> after any run leaves no timer behind whose time has come, and runs the others in the order of
  their expiry.\<close>

lemma run_prompt:
  assumes "timer_run ready add tick s xs fs s1" "content s {#}" "tick s1 cur = Some (ys, s2)"
  shows "\<exists>M. content s2 M \<and> mset xs = fired fs + mset ys + M \<and> sorted (map fst ys) \<and>
    (\<forall>y \<in> set ys. fst y \<le> cur) \<and> (\<forall>x \<in># M. cur < fst x) \<and>
    (\<forall>(c, zs) \<in> set fs. \<forall>z \<in> set zs. fst z \<le> c)"
proof -
  obtain M where M: "content s1 M" "mset xs = fired fs + M" "\<forall>(c, zs) \<in> set fs. \<forall>z \<in> set zs. fst z \<le> c"
    using run_conserves [OF assms(1,2)] by auto
  note t = tick_fires [OF M(1) assms(3)]
  have "M = mset ys + filter_mset (\<lambda>x. cur < fst x) M"
    using multiset_partition [of M "\<lambda>x. fst x \<le> cur"] t(2) by (simp add: not_le)
  moreover have "\<forall>y \<in> set ys. fst y \<le> cur" using t(2) by (metis (no_types, lifting) filter_mset_eq_conv set_mset_mset)
  ultimately show ?thesis using M(2,3) t(1,3)
    by (intro exI [of _ "filter_mset (\<lambda>x. cur < fst x) M"]) (auto simp: add.assoc)
qed

end

end
