(* ===== verification/Timer_List.thy ===== *)
theory Timer_List
  imports LL Timer_Queue
begin

text \<open>
  The sorted timer list (\<open>network-programming/youshuang/timer/11-2lst_timer.h\<close>), a doubly linked list of
  \<open>util_timer\<close> objects with a head and a tail pointer.  The objects live in a store; using a deleted
  timer is \<open>None\<close>, and so is a walk that never ends.  The list refines a sorted list of timers for
  every operation, and is an instance of \<open>timer_queue\<close>.
\<close>

subsection \<open>Timers and the list\<close>

text \<open>A \<open>util_timer\<close> is a node whose data are its expiry and its \<open>user_data\<close>.\<close>

record util_timer =
  expire :: int
  user_data :: nat

record sort_timer_lst =
  timers :: "util_timer store"
  head :: "nat option"
  tail :: "nat option"

definition timer_lst_new :: "util_timer store \<Rightarrow> sort_timer_lst" where
  "timer_lst_new m = \<lparr>timers = m, head = None, tail = None\<rparr>"

text \<open>\<open>new util_timer\<close> at the address \<open>a\<close> and the assignments every caller makes to it.\<close>

definition new_timer :: "util_timer store \<Rightarrow> nat \<Rightarrow> int \<Rightarrow> nat \<Rightarrow> util_timer store" where
  "new_timer m a e u = m(a \<mapsto> \<lparr>prev = None, succ = None, data = \<lparr>expire = e, user_data = u\<rparr>\<rparr>)"

definition get_expire :: "util_timer store \<Rightarrow> nat \<Rightarrow> int option" where
  "get_expire m a = do { n \<leftarrow> m a; Some (expire (data n)) }"

definition get_succ :: "'a store \<Rightarrow> nat \<Rightarrow> nat option option" where
  "get_succ m a = do { n \<leftarrow> m a; Some (succ n) }"

definition get_prev :: "'a store \<Rightarrow> nat \<Rightarrow> nat option option" where
  "get_prev m a = do { n \<leftarrow> m a; Some (prev n) }"

definition set_expire :: "sort_timer_lst \<Rightarrow> nat \<Rightarrow> int \<Rightarrow> sort_timer_lst option" where
  "set_expire l a e = do {
     n \<leftarrow> timers l a;
     Some (l\<lparr>timers := (timers l)(a \<mapsto> n\<lparr>data := (data n)\<lparr>expire := e\<rparr>\<rparr>)\<rparr>)
   }"

definition del :: "'a store \<Rightarrow> nat \<Rightarrow> 'a store option" where
  "del m a = do { n \<leftarrow> m a; Some (m(a := None)) }"

subsection \<open>Insertion\<close>

text \<open>The two ways of linking \<open>timer\<close> in, before \<open>tmp\<close> and at the end, and the loop of the private
  \<open>add_timer\<close>; the flag says that the timer became the tail.\<close>

definition link_before :: "util_timer store \<Rightarrow> nat \<Rightarrow> nat \<Rightarrow> nat \<Rightarrow> (util_timer store \<times> bool) option" where
  "link_before m timer prv tmp = do {
     m \<leftarrow> set_succ m prv (Some timer);
     m \<leftarrow> set_succ m timer (Some tmp);
     m \<leftarrow> set_prev m tmp (Some timer);
     m \<leftarrow> set_prev m timer (Some prv);
     Some (m, False)
   }"

definition link_last :: "util_timer store \<Rightarrow> nat \<Rightarrow> nat \<Rightarrow> (util_timer store \<times> bool) option" where
  "link_last m timer prv = do {
     m \<leftarrow> set_succ m prv (Some timer);
     m \<leftarrow> set_prev m timer (Some prv);
     m \<leftarrow> set_succ m timer None;
     Some (m, True)
   }"

partial_function (option) add_walk :: "util_timer store \<Rightarrow> nat \<Rightarrow> nat option \<Rightarrow> nat \<Rightarrow> (util_timer store \<times> bool) option" where
  "add_walk m timer cur prv = (case cur of
     None \<Rightarrow> link_last m timer prv
   | Some tmp \<Rightarrow> do {
       e \<leftarrow> get_expire m timer;
       e' \<leftarrow> get_expire m tmp;
       if e < e' then link_before m timer prv tmp
       else do {
         nxt \<leftarrow> get_succ m tmp;
         add_walk m timer nxt tmp
       }
     })"

definition add_timer_after :: "sort_timer_lst \<Rightarrow> nat \<Rightarrow> nat \<Rightarrow> sort_timer_lst option" where
  "add_timer_after l timer lst_head = do {
     tmp \<leftarrow> get_succ (timers l) lst_head;
     (m, at_tail) \<leftarrow> add_walk (timers l) timer tmp lst_head;
     Some (l\<lparr>timers := m, tail := (if at_tail then Some timer else tail l)\<rparr>)
   }"

definition add_timer :: "sort_timer_lst \<Rightarrow> nat option \<Rightarrow> sort_timer_lst option" where
  "add_timer l t = (case t of
     None \<Rightarrow> Some l
   | Some timer \<Rightarrow> (case head l of
       None \<Rightarrow> Some (l\<lparr>head := Some timer, tail := Some timer\<rparr>)
     | Some h \<Rightarrow> do {
         e \<leftarrow> get_expire (timers l) timer;
         eh \<leftarrow> get_expire (timers l) h;
         if e < eh then do {
           m \<leftarrow> set_succ (timers l) timer (Some h);
           m \<leftarrow> set_prev m h (Some timer);
           Some (l\<lparr>timers := m, head := Some timer\<rparr>)
         } else add_timer_after l timer h
       }))"

subsection \<open>Adjusting, deleting, ticking\<close>

text \<open>The end of \<open>adjust_timer\<close>, where the timer has to move: once for the head, once for a timer inside the list.\<close>

definition adjust_head :: "sort_timer_lst \<Rightarrow> nat \<Rightarrow> nat \<Rightarrow> sort_timer_lst option" where
  "adjust_head l timer nxt = do {
     m \<leftarrow> set_prev (timers l) nxt None;
     m \<leftarrow> set_succ m timer None;
     add_timer_after (l\<lparr>timers := m, head := Some nxt\<rparr>) timer nxt
   }"

definition adjust_inner :: "sort_timer_lst \<Rightarrow> nat \<Rightarrow> nat \<Rightarrow> sort_timer_lst option" where
  "adjust_inner l timer nxt = do {
     p \<leftarrow> get_prev (timers l) timer;
     p \<leftarrow> p;
     m \<leftarrow> set_succ (timers l) p (Some nxt);
     m \<leftarrow> set_prev m nxt (Some p);
     add_timer_after (l\<lparr>timers := m\<rparr>) timer nxt
   }"

definition adjust_timer :: "sort_timer_lst \<Rightarrow> nat option \<Rightarrow> sort_timer_lst option" where
  "adjust_timer l t = (case t of
     None \<Rightarrow> Some l
   | Some timer \<Rightarrow> do {
       tmp \<leftarrow> get_succ (timers l) timer;
       (case tmp of
          None \<Rightarrow> Some l
        | Some nxt \<Rightarrow> do {
            e \<leftarrow> get_expire (timers l) timer;
            e' \<leftarrow> get_expire (timers l) nxt;
            if e < e' then Some l
            else if head l = Some timer then adjust_head l timer nxt
            else adjust_inner l timer nxt
          })
     })"

definition del_timer :: "sort_timer_lst \<Rightarrow> nat option \<Rightarrow> sort_timer_lst option" where
  "del_timer l t = (case t of
     None \<Rightarrow> Some l
   | Some timer \<Rightarrow>
       if head l = Some timer \<and> tail l = Some timer then do {
         m \<leftarrow> del (timers l) timer;
         Some (l\<lparr>timers := m, head := None, tail := None\<rparr>)
       } else if head l = Some timer then do {
         h \<leftarrow> get_succ (timers l) timer;
         h' \<leftarrow> h;
         m \<leftarrow> set_prev (timers l) h' None;
         m \<leftarrow> del m timer;
         Some (l\<lparr>timers := m, head := h\<rparr>)
       } else if tail l = Some timer then do {
         p \<leftarrow> get_prev (timers l) timer;
         p' \<leftarrow> p;
         m \<leftarrow> set_succ (timers l) p' None;
         m \<leftarrow> del m timer;
         Some (l\<lparr>timers := m, tail := p\<rparr>)
       } else do {
         p \<leftarrow> get_prev (timers l) timer;
         p \<leftarrow> p;
         nxt \<leftarrow> get_succ (timers l) timer;
         m \<leftarrow> set_succ (timers l) p nxt;
         nxt \<leftarrow> get_succ m timer;
         nxt \<leftarrow> nxt;
         p \<leftarrow> get_prev m timer;
         m \<leftarrow> set_prev m nxt p;
         m \<leftarrow> del m timer;
         Some (l\<lparr>timers := m\<rparr>)
       })"

text \<open>The loop of \<open>tick\<close>; it returns the timers whose callback it ran, with their expiry, in order.  The callback
  gets \<open>user_data\<close> and has no access to the list.\<close>

partial_function (option) tick_walk :: "util_timer store \<Rightarrow> int \<Rightarrow> nat option \<Rightarrow>
    ((nat \<times> util_timer) list \<times> util_timer store \<times> nat option) option" where
  "tick_walk m cur tmp = (case tmp of
     None \<Rightarrow> Some ([], m, None)
   | Some t \<Rightarrow> do {
       n \<leftarrow> m t;
       if cur < expire (data n) then Some ([], m, Some t)
       else do {
         m \<leftarrow> (case succ n of None \<Rightarrow> Some m | Some h \<Rightarrow> set_prev m h None);
         m \<leftarrow> del m t;
         (fs, m, h) \<leftarrow> tick_walk m cur (succ n);
         Some ((t, data n) # fs, m, h)
       }
     })"

definition tick :: "sort_timer_lst \<Rightarrow> int \<Rightarrow> ((nat \<times> util_timer) list \<times> sort_timer_lst) option" where
  "tick l cur = (case head l of
     None \<Rightarrow> Some ([], l)
   | Some h \<Rightarrow> do {
       (fs, m, h) \<leftarrow> tick_walk (timers l) cur (Some h);
       Some (fs, l\<lparr>timers := m, head := h\<rparr>)
     })"

partial_function (option) destroy_timers :: "util_timer store \<Rightarrow> nat option \<Rightarrow> util_timer store option" where
  "destroy_timers m tmp = (case tmp of
     None \<Rightarrow> Some m
   | Some t \<Rightarrow> do {
       h \<leftarrow> get_succ m t;
       m \<leftarrow> del m t;
       destroy_timers m h
     })"

definition timer_lst_delete :: "sort_timer_lst \<Rightarrow> sort_timer_lst option" where
  "timer_lst_delete l = do {
     m \<leftarrow> destroy_timers (timers l) (head l);
     Some (l\<lparr>timers := m, head := None\<rparr>)
   }"

subsection \<open>Insertion keeps the list\<close>

lemmas field_defs = get_expire_def get_succ_def get_prev_def set_prev_def set_succ_def del_def

definition exp_of :: "util_timer store \<Rightarrow> nat \<Rightarrow> int" where
  "exp_of m a = expire (data (the (m a)))"

definition opt_hd :: "'a list \<Rightarrow> 'a option" where
  "opt_hd xs = (if xs = [] then None else Some (hd xs))"

lemma opt_hd_simps [simp]: "opt_hd [] = None" "opt_hd (x # xs) = Some x"
  by (simp_all add: opt_hd_def)

lemma dll_opt_hd: "dll m p l xs \<Longrightarrow> l = opt_hd xs"
  by (cases xs) auto

lemma link_before_ok:
  assumes "dll m p l (xs @ y # z # zs)" "distinct (xs @ y # z # zs)" "t \<notin> set (xs @ y # z # zs)" "m t = Some n"
  shows "\<exists>m'. link_before m t y z = Some (m', False) \<and> dll m' p l (xs @ y # t # z # zs) \<and> same_data m m'"
  using assms by (auto simp: link_before_def field_defs dll_append same_data_def)

lemma link_last_ok:
  assumes "dll m p l (xs @ [y])" "distinct (xs @ [y])" "t \<notin> set (xs @ [y])" "m t = Some n"
  shows "\<exists>m'. link_last m t y = Some (m', True) \<and> dll m' p l (xs @ [y, t]) \<and> same_data m m'"
  using assms by (auto simp: link_last_def field_defs dll_append same_data_def)

lemma add_walk_ok:
  assumes "dll m p l (xs @ y # zs)" "distinct (xs @ y # zs)" "t \<notin> set (xs @ y # zs)" "m t = Some n"
  shows "\<exists>m'. add_walk m t (opt_hd zs) y = Some (m', dropWhile (\<lambda>z. exp_of m z \<le> exp_of m t) zs = []) \<and>
    dll m' p l (xs @ y # takeWhile (\<lambda>z. exp_of m z \<le> exp_of m t) zs @ t # dropWhile (\<lambda>z. exp_of m z \<le> exp_of m t) zs) \<and>
    same_data m m'"
  using assms
proof (induction zs arbitrary: xs y)
  case Nil
  then show ?case using link_last_ok [of m p l xs y t n] by (simp add: add_walk.simps)
next
  case (Cons z zs)
  obtain k where k: "m z = Some k" "succ k = opt_hd zs"
    using Cons.prems(1) by (auto simp: dll_append dest: dll_opt_hd)
  have e: "get_expire m t = Some (exp_of m t)" "get_expire m z = Some (exp_of m z)" "get_succ m z = Some (opt_hd zs)"
    using Cons.prems(4) k by (simp_all add: field_defs exp_of_def)
  show ?case
  proof (cases "exp_of m z \<le> exp_of m t")
    case True
    then have "add_walk m t (opt_hd (z # zs)) y = add_walk m t (opt_hd zs) z"
      using e by (simp add: add_walk.simps [of m t "Some z"])
    then show ?thesis using Cons.IH [of "xs @ [y]" z] Cons.prems True by simp
  next
    case False
    then have "add_walk m t (opt_hd (z # zs)) y = link_before m t y z"
      using e by (simp add: add_walk.simps [of m t "Some z"])
    then show ?thesis using link_before_ok [OF Cons.prems] False by simp
  qed
qed

subsection \<open>The list of timers a list object holds\<close>

definition lst_holds :: "sort_timer_lst \<Rightarrow> (nat \<times> util_timer) list \<Rightarrow> bool" where
  "lst_holds l ts \<longleftrightarrow> (\<exists>p. dll (timers l) p (head l) (map fst ts)) \<and> distinct (map fst ts) \<and>
     (\<forall>x \<in> set ts. map_option data (timers l (fst x)) = Some (snd x)) \<and>
     (ts \<noteq> [] \<longrightarrow> tail l = Some (fst (last ts)))"

definition in_order :: "(nat \<times> util_timer) list \<Rightarrow> bool" where
  "in_order ts \<longleftrightarrow> sorted (map (expire \<circ> snd) ts)"

definition due :: "int \<Rightarrow> nat \<times> util_timer \<Rightarrow> bool" where
  "due e x \<longleftrightarrow> expire (snd x) \<le> e"

text \<open>The reference: insertion behind the timers that are due no later.\<close>

definition ins :: "nat \<times> util_timer \<Rightarrow> (nat \<times> util_timer) list \<Rightarrow> (nat \<times> util_timer) list" where
  "ins x ts = takeWhile (due (expire (snd x))) ts @ x # dropWhile (due (expire (snd x))) ts"

lemma lst_holds_data: "lst_holds l ts \<Longrightarrow> x \<in> set ts \<Longrightarrow> \<exists>n. timers l (fst x) = Some n \<and> data n = snd x"
  by (auto simp: lst_holds_def)

lemma lst_holds_exp: "lst_holds l ts \<Longrightarrow> x \<in> set ts \<Longrightarrow> exp_of (timers l) (fst x) = expire (snd x)"
  by (auto simp: exp_of_def dest: lst_holds_data)

lemma while_fst:
  assumes "lst_holds l ts" "set vs \<subseteq> set ts"
  shows "takeWhile (\<lambda>z. exp_of (timers l) z \<le> e) (map fst vs) = map fst (takeWhile (due e) vs)"
    "dropWhile (\<lambda>z. exp_of (timers l) z \<le> e) (map fst vs) = map fst (dropWhile (due e) vs)"
proof -
  have *: "(((\<lambda>z. exp_of (timers l) z \<le> e) \<circ> fst) x) = due e x" if "x \<in> set vs" for x
    using lst_holds_exp [OF assms(1), of x] that assms(2) by (auto simp: due_def)
  show "takeWhile (\<lambda>z. exp_of (timers l) z \<le> e) (map fst vs) = map fst (takeWhile (due e) vs)"
    using * by (simp add: takeWhile_map cong: takeWhile_cong)
  show "dropWhile (\<lambda>z. exp_of (timers l) z \<le> e) (map fst vs) = map fst (dropWhile (due e) vs)"
    using * by (simp add: dropWhile_map cong: dropWhile_cong)
qed

lemma set_ins [simp]: "set (ins x ts) = insert x (set ts)"
  unfolding ins_def by (metis append.left_neutral append_Cons insert_is_Un list.simps(15) set_append
      sup_assoc sup_commute takeWhile_dropWhile_id)

lemma mset_ins [simp]: "mset (ins x ts) = add_mset x (mset ts)"
proof -
  have "mset (ins x ts) = add_mset x (mset (takeWhile (due (expire (snd x))) ts @ dropWhile (due (expire (snd x))) ts))"
    by (simp add: ins_def del: takeWhile_dropWhile_id)
  then show ?thesis by simp
qed

lemma last_ins: "last (ins x ts) = (if dropWhile (due (expire (snd x))) ts = [] then x else last ts)"
  by (metis append_is_Nil_conv ins_def last.simps last_appendR list.distinct(1) takeWhile_dropWhile_id)

lemma distinct_ins: "distinct (map fst (ins x ts)) \<longleftrightarrow> distinct (map fst ts) \<and> fst x \<notin> fst ` set ts"
proof -
  have "distinct (map fst (ins x ts)) \<longleftrightarrow> distinct (map fst (x # ts))"
    by (metis mset_ins mset.simps(2) mset_eq_imp_distinct_iff mset_map)
  then show ?thesis by auto
qed

lemma in_order_ins: "in_order ts \<Longrightarrow> in_order (ins x ts)"
proof (induction ts)
  case (Cons t ts)
  then show ?case by (auto simp: in_order_def ins_def due_def dest: set_takeWhileD set_dropWhileD)
qed (simp add: in_order_def ins_def)

lemma add_timer_after_ok:
  assumes "lst_holds l (us @ y # vs)" "fst x \<notin> fst ` set (us @ y # vs)" "timers l (fst x) = Some n" "data n = snd x"
  shows "\<exists>l'. add_timer_after l (fst x) (fst y) = Some l' \<and> lst_holds l' (us @ y # ins x vs) \<and>
    same_data (timers l) (timers l') \<and> head l' = head l"
proof -
  obtain p where d: "dll (timers l) p (head l) (map fst us @ fst y # map fst vs)"
    using assms(1) by (auto simp: lst_holds_def)
  have dst: "distinct (map fst us @ fst y # map fst vs)" "fst x \<notin> set (map fst us @ fst y # map fst vs)"
    using assms(1,2) by (auto simp: lst_holds_def)
  obtain k where k: "timers l (fst y) = Some k" "succ k = opt_hd (map fst vs)"
    using d by (auto simp: dll_append dest: dll_opt_hd)
  have ex: "exp_of (timers l) (fst x) = expire (snd x)" using assms(3,4) by (simp add: exp_of_def)
  have "set vs \<subseteq> set (us @ y # vs)" by auto
  note w = while_fst [OF assms(1) this]
  from add_walk_ok [OF d dst assms(3)] obtain m' where
    m': "add_walk (timers l) (fst x) (opt_hd (map fst vs)) (fst y) = Some (m', dropWhile (due (expire (snd x))) vs = [])"
      "dll m' p (head l) (map fst (us @ y # ins x vs))" "same_data (timers l) m'"
    by (auto simp only: w ex ins_def map_append list.map map_is_Nil_conv)
  let ?l = "l\<lparr>timers := m', tail := (if dropWhile (due (expire (snd x))) vs = [] then Some (fst x) else tail l)\<rparr>"
  have "add_timer_after l (fst x) (fst y) = Some ?l" using k m'(1) by (simp add: add_timer_after_def get_succ_def)
  moreover have "\<forall>z \<in> set (us @ y # ins x vs). map_option data (m' (fst z)) = Some (snd z)"
    using assms(1,3,4) m'(3) by (auto simp: lst_holds_def same_data_def)
  moreover have "distinct (map fst (us @ y # ins x vs))" using dst distinct_ins [of x vs] by auto
  moreover have "tail ?l = Some (fst (last (us @ y # ins x vs)))"
    using assms(1) by (auto simp: lst_holds_def last_ins) (auto simp: ins_def)
  ultimately show ?thesis using m'(2,3) by (intro exI [of _ ?l]) (auto simp: lst_holds_def)
qed

lemma ins_first: "ts = [] \<or> \<not> due (expire (snd x)) (hd ts) \<Longrightarrow> ins x ts = x # ts"
  by (cases ts) (auto simp: ins_def)

lemma ins_behind: "\<forall>u \<in> set us. due (expire (snd x)) u \<Longrightarrow> ins x (us @ vs) = us @ ins x vs"
  by (simp add: ins_def takeWhile_append dropWhile_append)

text \<open>Linking \<open>x\<close> in front of a non-empty list.\<close>

lemma add_timer_ok:
  assumes "lst_holds l ts" "fst x \<notin> fst ` set ts" "timers l (fst x) = Some n" "data n = snd x" "succ n = None"
  shows "\<exists>l'. add_timer l (Some (fst x)) = Some l' \<and> lst_holds l' (ins x ts) \<and> same_data (timers l) (timers l')"
proof (cases ts)
  case Nil
  then show ?thesis using assms by (auto simp: lst_holds_def add_timer_def ins_def)
next
  case (Cons y vs)
  obtain k p where k: "head l = Some (fst y)" "timers l (fst y) = Some k" "data k = snd y" "prev k = p"
      "dll (timers l) (Some (fst y)) (succ k) (map fst vs)"
    using assms(1) Cons by (auto simp: lst_holds_def)
  show ?thesis
  proof (cases "due (expire (snd x)) y")
    case True
    then have i: "ins x ts = y # ins x vs" using ins_behind [of "[y]" x vs] Cons by simp
    have "add_timer l (Some (fst x)) = add_timer_after l (fst x) (fst y)"
      using True k assms(3,4) by (simp add: add_timer_def get_expire_def due_def)
    then show ?thesis using add_timer_after_ok [of l "[]" y vs x n] assms Cons i by auto
  next
    case False
    then show ?thesis using assms k Cons ins_first [of ts x]
      by (auto simp: add_timer_def field_defs due_def lst_holds_def same_data_def)
  qed
qed

text \<open>Taking a timer out of the list, to insert it again or to delete it.\<close>

lemma lst_holdsI:
  assumes "lst_holds l ts'" "dll (timers l') p (head l') (map fst ts)" "distinct (map fst ts)" "set ts \<subseteq> set ts'"
    "\<And>a. a \<in> fst ` set ts \<Longrightarrow> map_option data (timers l' a) = map_option data (timers l a)"
    "ts \<noteq> [] \<Longrightarrow> tail l' = Some (fst (last ts))"
  shows "lst_holds l' ts"
  unfolding lst_holds_def
proof (intro conjI ballI impI)
  show "\<exists>p. dll (timers l') p (head l') (map fst ts)" using assms(2) by blast
  fix x
  assume x: "x \<in> set ts"
  then have "map_option data (timers l (fst x)) = Some (snd x)" using assms(1,4) by (auto simp: lst_holds_def)
  then show "map_option data (timers l' (fst x)) = Some (snd x)" using assms(5) x by simp
qed (use assms(3,6) in simp_all)

lemma dll_unlink_first:
  assumes "dll m p l (x # v # ws)" "distinct (x # v # ws)"
  shows "\<exists>m' n. set_prev m v None \<bind> (\<lambda>m. set_succ m x None) = Some m' \<and> m' x = Some n \<and>
    dll m' None (Some v) (v # ws) \<and> same_data m m'"
  using assms by (auto simp: field_defs same_data_def)

lemma dll_unlink_inner:
  assumes "dll m p l (us @ u # x # v # ws)" "distinct (us @ u # x # v # ws)"
  shows "\<exists>m' n. set_succ m u (Some v) \<bind> (\<lambda>m. set_prev m v (Some u)) = Some m' \<and> m' x = Some n \<and>
    prev n = Some u \<and> succ n = Some v \<and> dll m' p l (us @ u # v # ws) \<and> same_data m m'"
  using assms by (auto simp: field_defs same_data_def dll_append)

lemma same_data_at: "same_data m m' \<Longrightarrow> map_option data (m' a) = map_option data (m a)"
  by (simp add: same_data_def)

lemma lst_holds_same:
  assumes "lst_holds l ts'" "dll m p h (map fst ts)" "same_data (timers l) m" "distinct (map fst ts)"
    "set ts \<subseteq> set ts'" "ts \<noteq> [] \<Longrightarrow> fst (last ts) = fst (last ts')"
  shows "lst_holds (l\<lparr>timers := m, head := h\<rparr>) ts"
proof (rule lst_holdsI [OF assms(1)])
  show "tail (l\<lparr>timers := m, head := h\<rparr>) = Some (fst (last ts))" if "ts \<noteq> []"
    using assms(1) assms(6) [OF that] that assms(5) by (auto simp: lst_holds_def)
qed (use assms(2-5) in \<open>simp_all add: same_data_at\<close>)

lemma adjust_head_ok:
  assumes "lst_holds l (x # v # ws)" "due (expire (snd x)) v"
  shows "\<exists>l'. adjust_head l (fst x) (fst v) = Some l' \<and> lst_holds l' (ins x (v # ws)) \<and> same_data (timers l) (timers l')"
proof -
  obtain p where d: "dll (timers l) p (head l) (fst x # fst v # map fst ws)" "distinct (fst x # fst v # map fst ws)"
    using assms(1) by (auto simp: lst_holds_def)
  from dll_unlink_first [OF d] obtain m n where
    m: "set_prev (timers l) (fst v) None \<bind> (\<lambda>m. set_succ m (fst x) None) = Some m" "m (fst x) = Some n"
      "dll m None (Some (fst v)) (map fst (v # ws))" "same_data (timers l) m" by auto
  let ?l = "l\<lparr>timers := m, head := Some (fst v)\<rparr>"
  have h: "lst_holds ?l (v # ws)" by (rule lst_holds_same [OF assms(1) m(3,4)]) (use d(2) in auto)
  have dn: "data n = snd x" using same_data_at [OF m(4), of "fst x"] m(2) assms(1) by (auto simp: lst_holds_def)
  have a: "adjust_head l (fst x) (fst v) = add_timer_after ?l (fst x) (fst v)"
    using m(1) by (auto simp: adjust_head_def bind_eq_Some_conv)
  have i: "ins x (v # ws) = v # ins x ws" using ins_behind [of "[v]" x ws] assms(2) by simp
  show ?thesis using add_timer_after_ok [of ?l "[]" v ws x n] h m(2,4) dn d(2) a i
    by (auto intro: same_data_trans)
qed

lemma adjust_inner_ok:
  assumes "lst_holds l (us @ u # x # v # ws)" "\<forall>z \<in> set (us @ [u, v]). due (expire (snd x)) z"
  shows "\<exists>l'. adjust_inner l (fst x) (fst v) = Some l' \<and> lst_holds l' (ins x (us @ u # v # ws)) \<and>
    same_data (timers l) (timers l')"
proof -
  obtain p where d: "dll (timers l) p (head l) (map fst us @ fst u # fst x # fst v # map fst ws)"
      "distinct (map fst us @ fst u # fst x # fst v # map fst ws)"
    using assms(1) by (auto simp: lst_holds_def)
  from dll_unlink_inner [OF d] obtain m n where
    m: "set_succ (timers l) (fst u) (Some (fst v)) \<bind> (\<lambda>m. set_prev m (fst v) (Some (fst u))) = Some m"
      "m (fst x) = Some n" "dll m p (head l) (map fst (us @ u # v # ws))" "same_data (timers l) m" by auto
  let ?l = "l\<lparr>timers := m, head := head l\<rparr>"
  have h: "lst_holds ?l ((us @ [u]) @ v # ws)" by (rule lst_holds_same [OF assms(1) _ m(4)]) (use m(3) d(2) in auto)
  have dn: "data n = snd x" using same_data_at [OF m(4), of "fst x"] m(2) assms(1) by (auto simp: lst_holds_def)
  have "get_prev (timers l) (fst x) = Some (Some (fst u))" using d(1) by (auto simp: dll_append get_prev_def)
  then have a: "adjust_inner l (fst x) (fst v) = add_timer_after ?l (fst x) (fst v)"
    using m(1) by (auto simp: adjust_inner_def bind_eq_Some_conv)
  have "us @ u # v # ws = (us @ [u, v]) @ ws" by simp
  then have i: "ins x (us @ u # v # ws) = (us @ [u]) @ v # ins x ws" using ins_behind [OF assms(2), of ws] by simp
  have "fst x \<notin> fst ` set ((us @ [u]) @ v # ws)" "timers ?l (fst x) = Some n" using d(2) m(2) by auto
  from add_timer_after_ok [OF h this dn] show ?thesis using m(4) a i by (auto intro: same_data_trans)
qed

lemma lst_holds_head: "lst_holds l ts \<Longrightarrow> head l = opt_hd (map fst ts)"
  by (auto simp: lst_holds_def dest: dll_opt_hd)

lemma lst_holds_succ: "lst_holds l (us @ x # vs) \<Longrightarrow> get_succ (timers l) (fst x) = Some (opt_hd (map fst vs))"
  by (auto simp: lst_holds_def dll_append get_succ_def dest: dll_opt_hd)

lemma lst_holds_prev: "lst_holds l (us @ u # x # vs) \<Longrightarrow> get_prev (timers l) (fst x) = Some (Some (fst u))"
  by (auto simp: lst_holds_def dll_append get_prev_def)

lemma lst_holds_expire: "lst_holds l ts \<Longrightarrow> x \<in> set ts \<Longrightarrow> get_expire (timers l) (fst x) = Some (expire (snd x))"
  by (auto simp: get_expire_def dest: lst_holds_data)

text \<open>\<open>adjust_timer\<close> puts a timer whose expiry has been put off where it belongs.\<close>

lemma adjust_timer_ok:
  assumes "lst_holds l (us @ x # vs)" "\<forall>u \<in> set us. due (expire (snd x)) u"
  shows "\<exists>l'. adjust_timer l (Some (fst x)) = Some l' \<and> lst_holds l' (ins x (us @ vs)) \<and> same_data (timers l) (timers l')"
proof (cases "vs = [] \<or> \<not> due (expire (snd x)) (hd vs)")
  case True
  then have "adjust_timer l (Some (fst x)) = Some l"
    using lst_holds_succ [OF assms(1)] lst_holds_expire [OF assms(1)]
    by (cases vs) (auto simp: adjust_timer_def due_def)
  moreover have "ins x (us @ vs) = us @ x # vs" using ins_behind [OF assms(2)] ins_first [OF True] by simp
  ultimately show ?thesis using assms(1) by simp
next
  case False
  then obtain v ws where vs: "vs = v # ws" "due (expire (snd x)) v" by (cases vs) auto
  have "x \<in> set (us @ x # vs)" "v \<in> set (us @ x # vs)" using vs by auto
  note e = this [THEN lst_holds_expire [OF assms(1)]]
  have a: "adjust_timer l (Some (fst x)) = (if us = [] then adjust_head l (fst x) (fst v) else adjust_inner l (fst x) (fst v))"
    using lst_holds_succ [OF assms(1)] lst_holds_head [OF assms(1)] e assms(1) vs
    by (cases us) (auto simp: adjust_timer_def due_def lst_holds_def)
  show ?thesis
  proof (cases us rule: rev_cases)
    case Nil
    then show ?thesis using adjust_head_ok [of l x v ws] assms vs a by simp
  next
    case (snoc us' u)
    then show ?thesis using adjust_inner_ok [of l us' u x v ws] assms vs a by simp
  qed
qed

lemma set_expire_ok:
  assumes "lst_holds l (us @ (a, d) # vs)"
  shows "\<exists>l'. set_expire l a e = Some l' \<and> lst_holds l' (us @ (a, d\<lparr>expire := e\<rparr>) # vs) \<and>
    dom (timers l') = dom (timers l)"
proof -
  obtain p where d: "dll (timers l) p (head l) (map fst us @ a # map fst vs)" "distinct (map fst us @ a # map fst vs)"
    using assms by (auto simp: lst_holds_def)
  obtain n where n: "timers l a = Some n" "data n = d" using assms by (auto simp: lst_holds_def)
  let ?m = "(timers l)(a \<mapsto> n\<lparr>data := (data n)\<lparr>expire := e\<rparr>\<rparr>)"
  have "dll ?m p (head l) (map fst us @ a # map fst vs)" using d n by (auto simp: dll_append)
  moreover have "map_option data (?m (fst x)) = Some (snd x)" if "x \<in> set (us @ (a, d\<lparr>expire := e\<rparr>) # vs)" for x
    using that assms n d(2) by (auto simp: lst_holds_def)
  ultimately show ?thesis using assms d(2) n
    by (auto simp: lst_holds_def set_expire_def intro!: exI [of _ p])
qed

text \<open>\<open>del_timer\<close> removes the timer, wherever it is, and frees it.\<close>

definition freed :: "nat set \<Rightarrow> 'a store \<Rightarrow> 'a store \<Rightarrow> bool" where
  "freed A m m' \<longleftrightarrow> (\<forall>a. map_option data (m' a) = (if a \<in> A then None else map_option data (m a)))"

lemma freed_trans: "freed A m m' \<Longrightarrow> freed B m' m'' \<Longrightarrow> freed (A \<union> B) m m''"
  by (auto simp: freed_def)

lemma lst_holds_freed:
  assumes "lst_holds l ts'" "dll (timers l') p (head l') (map fst ts)" "freed A (timers l) (timers l')"
    "distinct (map fst ts)" "set ts \<subseteq> set ts'" "fst ` set ts \<inter> A = {}" "ts \<noteq> [] \<Longrightarrow> tail l' = Some (fst (last ts))"
  shows "lst_holds l' ts"
  by (rule lst_holdsI [OF assms(1,2,4,5)]) (use assms(3,6,7) in \<open>auto simp: freed_def\<close>)

lemma last_other: "a \<notin> fst ` set (v # ws) \<Longrightarrow> fst (last (v # ws)) \<noteq> a"
  by (metis imageI last_in_set list.distinct(1))

lemma del_first_ok:
  assumes "lst_holds l (x # v # ws)"
  shows "\<exists>l'. del_timer l (Some (fst x)) = Some l' \<and> lst_holds l' (v # ws) \<and> freed {fst x} (timers l) (timers l')"
proof -
  obtain p where d: "dll (timers l) p (head l) (fst x # fst v # map fst ws)" "distinct (fst x # fst v # map fst ws)"
      "tail l = Some (fst (last (v # ws)))"
    using assms by (auto simp: lst_holds_def)
  then have "tail l \<noteq> Some (fst x)" using last_other [of "fst x" v ws] by (auto simp del: last.simps)
  then obtain l' where l': "del_timer l (Some (fst x)) = Some l'" "dll (timers l') None (head l') (map fst (v # ws))"
      "freed {fst x} (timers l) (timers l')" "tail l' = tail l"
    using d(1,2) by (auto simp: del_timer_def field_defs freed_def)
  have "lst_holds l' (v # ws)" by (rule lst_holds_freed [OF assms l'(2,3)]) (use d l'(4) in auto)
  then show ?thesis using l'(1,3) by blast
qed

lemma del_last_ok:
  assumes "lst_holds l (us @ [u, x])"
  shows "\<exists>l'. del_timer l (Some (fst x)) = Some l' \<and> lst_holds l' (us @ [u]) \<and> freed {fst x} (timers l) (timers l')"
proof -
  obtain p where d: "dll (timers l) p (head l) (map fst us @ [fst u, fst x])" "distinct (map fst us @ [fst u, fst x])"
      "tail l = Some (fst x)"
    using assms by (auto simp: lst_holds_def)
  then have "head l \<noteq> Some (fst x)" using lst_holds_head [OF assms] by (cases us) auto
  then obtain l' where l': "del_timer l (Some (fst x)) = Some l'" "dll (timers l') p (head l') (map fst (us @ [u]))"
      "freed {fst x} (timers l) (timers l')" "tail l' = Some (fst u)"
    using d by (auto simp: del_timer_def field_defs freed_def dll_append)
  have "lst_holds l' (us @ [u])" by (rule lst_holds_freed [OF assms l'(2,3)]) (use d l'(4) in auto)
  then show ?thesis using l'(1,3) by blast
qed

lemma del_inner_ok:
  assumes "lst_holds l (us @ u # x # v # ws)"
  shows "\<exists>l'. del_timer l (Some (fst x)) = Some l' \<and> lst_holds l' (us @ u # v # ws) \<and> freed {fst x} (timers l) (timers l')"
proof -
  obtain p where d: "dll (timers l) p (head l) (map fst us @ fst u # fst x # fst v # map fst ws)"
      "distinct (map fst us @ fst u # fst x # fst v # map fst ws)" "tail l = Some (fst (last (v # ws)))"
    using assms by (auto simp: lst_holds_def)
  have "head l \<noteq> Some (fst x)" using lst_holds_head [OF assms] d(2) by (cases us) auto
  moreover have "tail l \<noteq> Some (fst x)" using last_other [of "fst x" v ws] d(2,3) by (auto simp del: last.simps)
  ultimately obtain l' where l': "del_timer l (Some (fst x)) = Some l'" "dll (timers l') p (head l') (map fst (us @ u # v # ws))"
      "freed {fst x} (timers l) (timers l')" "tail l' = tail l"
    using d(1,2) by (auto simp: del_timer_def field_defs freed_def dll_append)
  have "lst_holds l' (us @ u # v # ws)" by (rule lst_holds_freed [OF assms l'(2,3)]) (use d l'(4) in auto)
  then show ?thesis using l'(1,3) by blast
qed

lemma del_timer_ok:
  assumes "lst_holds l (us @ x # vs)"
  shows "\<exists>l'. del_timer l (Some (fst x)) = Some l' \<and> lst_holds l' (us @ vs) \<and> freed {fst x} (timers l) (timers l')"
proof (cases us rule: rev_cases)
  case Nil
  then show ?thesis using assms del_first_ok [of l x]
    by (cases vs) (auto simp: lst_holds_def del_timer_def del_def freed_def)
next
  case (snoc us' u)
  then show ?thesis using assms del_last_ok [of l us' u x] del_inner_ok [of l us' u x] by (cases vs) auto
qed

text \<open>\<open>tick\<close> runs and frees the timers in front that are due.\<close>

lemma tick_walk_ok:
  assumes "dll m p h xs" "distinct xs"
  shows "\<exists>m' p'. tick_walk m cur h = Some (map (\<lambda>a. (a, data (the (m a)))) (takeWhile (\<lambda>a. exp_of m a \<le> cur) xs), m',
      opt_hd (dropWhile (\<lambda>a. exp_of m a \<le> cur) xs)) \<and>
    dll m' p' (opt_hd (dropWhile (\<lambda>a. exp_of m a \<le> cur) xs)) (dropWhile (\<lambda>a. exp_of m a \<le> cur) xs) \<and>
    freed (set (takeWhile (\<lambda>a. exp_of m a \<le> cur) xs)) m m'"
  using assms
proof (induction xs arbitrary: m p h)
  case Nil
  then show ?case by (simp add: tick_walk.simps freed_def)
next
  case (Cons x xs)
  then obtain n where n: "h = Some x" "m x = Some n" "dll m (Some x) (succ n) xs" by auto
  show ?case
  proof (cases "exp_of m x \<le> cur")
    case False
    then show ?thesis using n Cons.prems(1)
      by (auto simp: tick_walk.simps [of m cur "Some x"] exp_of_def freed_def)
  next
    case True
    let ?m = "(case succ n of None \<Rightarrow> m | Some b \<Rightarrow> m(b \<mapsto> (the (m b))\<lparr>prev := None\<rparr>))(x := None)"
    have d: "dll ?m None (succ n) xs"
      using dll_new_prev [OF n(3)] Cons.prems(2) by (simp split: option.splits)
    have same: "map_option data (?m a) = map_option data (m a)" if "a \<noteq> x" for a
      using that n(3) Cons.prems(2) by (cases xs) auto
    have the_same: "data (the (?m a)) = data (the (m a))" if "a \<in> set xs" for a
      using dll_live [OF n(3) that] dll_live [OF d that] same [of a] that Cons.prems(2) by auto
    then have e: "exp_of ?m a = exp_of m a" if "a \<in> set xs" for a using that by (simp add: exp_of_def)
    have w: "takeWhile (\<lambda>a. exp_of ?m a \<le> cur) xs = takeWhile (\<lambda>a. exp_of m a \<le> cur) xs"
        "dropWhile (\<lambda>a. exp_of ?m a \<le> cur) xs = dropWhile (\<lambda>a. exp_of m a \<le> cur) xs"
      using e by (auto cong: takeWhile_cong dropWhile_cong)
    have t: "map (\<lambda>a. (a, data (the (?m a)))) (takeWhile (\<lambda>a. exp_of m a \<le> cur) xs) =
        map (\<lambda>a. (a, data (the (m a)))) (takeWhile (\<lambda>a. exp_of m a \<le> cur) xs)"
      by (rule map_cong [OF refl]) (simp only: the_same [OF conjunct1 [OF set_takeWhileD]])
    have step: "tick_walk m cur h = do { (fs, m', h') \<leftarrow> tick_walk ?m cur (succ n); Some ((x, data n) # fs, m', h') }"
      using True n Cons.prems(2)
      by (cases xs) (auto simp: tick_walk.simps [of m cur "Some x"] exp_of_def field_defs)
    have "freed {x} m ?m" using same by (auto simp: freed_def split: option.splits)
    with Cons.IH [OF d] show ?thesis using True n(2) step w t Cons.prems(2) freed_trans [of "{x}" m ?m]
      by (fastforce simp only: list.simps takeWhile.simps dropWhile.simps if_True bind.bind_lunit case_prod_conv option.sel
          distinct.simps insert_is_Un [symmetric] list.set)
  qed
qed

lemma timer_tick_ok:
  assumes "lst_holds l ts"
  shows "\<exists>l'. tick l cur = Some (takeWhile (due cur) ts, l') \<and> lst_holds l' (dropWhile (due cur) ts) \<and>
    freed (fst ` set (takeWhile (due cur) ts)) (timers l) (timers l')"
proof (cases ts)
  case Nil
  then show ?thesis using assms lst_holds_head [OF assms] by (auto simp: tick_def freed_def)
next
  case (Cons x vs)
  let ?d = "dropWhile (due cur) ts" and ?t = "takeWhile (due cur) ts"
  obtain p where d: "dll (timers l) p (head l) (map fst ts)" "distinct (map fst ts)"
    using assms by (auto simp: lst_holds_def)
  have td: "ts = ?t @ ?d" by simp
  note w = while_fst [OF assms subset_refl]
  have f: "map (\<lambda>a. (a, data (the (timers l a)))) (map fst ?t) = ?t"
    using lst_holds_data [OF assms] by (force intro: map_idI dest: set_takeWhileD)
  obtain m' p' where m': "tick_walk (timers l) cur (head l) = Some (?t, m', opt_hd (map fst ?d))"
      "dll m' p' (opt_hd (map fst ?d)) (map fst ?d)" "freed (fst ` set ?t) (timers l) m'"
    using tick_walk_ok [OF d, of cur] unfolding w f set_map by blast
  let ?l = "l\<lparr>timers := m', head := opt_hd (map fst ?d)\<rparr>"
  have "distinct (map fst (?t @ ?d))" using d(2) by simp
  then have "distinct (map fst ?d)" "fst ` set ?d \<inter> fst ` set ?t = {}" by (auto simp del: takeWhile_dropWhile_id)
  moreover have "last ts = last ?d" if "?d \<noteq> []" using that td by (metis last_appendR)
  ultimately have "lst_holds ?l ?d"
    using assms m'(2,3) by (intro lst_holds_freed [OF assms, of ?l p' ?d]) (auto simp: lst_holds_def Cons dest: set_dropWhileD)
  then show ?thesis using m'(1,3) lst_holds_head [OF assms] Cons by (auto simp: tick_def)
qed

lemma destroy_timers_ok:
  "dll m p h xs \<Longrightarrow> distinct xs \<Longrightarrow> destroy_timers m h = Some (\<lambda>a. if a \<in> set xs then None else m a)"
proof (induction xs arbitrary: m p h)
  case Nil
  then show ?case by (simp add: destroy_timers.simps)
next
  case (Cons x xs)
  then obtain n where n: "h = Some x" "m x = Some n" "dll m (Some x) (succ n) xs" by auto
  then have "destroy_timers m h = destroy_timers (m(x := None)) (succ n)"
    by (simp add: destroy_timers.simps [of m "Some x"] field_defs)
  also have "dll (m(x := None)) (Some x) (succ n) xs" "distinct xs" using n(3) Cons.prems(2) by simp_all
  from Cons.IH [OF this] have "destroy_timers (m(x := None)) (succ n) = Some (\<lambda>a. if a \<in> set xs then None else (m(x := None)) a)" .
  finally show ?case by (auto simp: fun_eq_iff)
qed

subsection \<open>Programs that use the list\<close>

text \<open>The calls of a server: creating and adding a timer, putting one off and adjusting it, deleting one, and
  \<open>tick\<close>.\<close>

datatype timer_op = Add_timer nat int nat | Adjust_timer nat int | Del_timer nat | Tick int

fun timer_op_exec :: "sort_timer_lst \<Rightarrow> timer_op \<Rightarrow> ((nat \<times> util_timer) list \<times> sort_timer_lst) option" where
  "timer_op_exec l (Add_timer a e u) = do { l \<leftarrow> add_timer (l\<lparr>timers := new_timer (timers l) a e u\<rparr>) (Some a); Some ([], l) }"
| "timer_op_exec l (Adjust_timer a e) = do { l \<leftarrow> set_expire l a e; l \<leftarrow> adjust_timer l (Some a); Some ([], l) }"
| "timer_op_exec l (Del_timer a) = do { l \<leftarrow> del_timer l (Some a); Some ([], l) }"
| "timer_op_exec l (Tick cur) = tick l cur"

fun timer_ops_exec :: "sort_timer_lst \<Rightarrow> timer_op list \<Rightarrow> ((nat \<times> util_timer) list \<times> sort_timer_lst) option" where
  "timer_ops_exec l [] = Some ([], l)"
| "timer_ops_exec l (c # cs) = do {
     (fs, l) \<leftarrow> timer_op_exec l c;
     (gs, l) \<leftarrow> timer_ops_exec l cs;
     Some (fs @ gs, l)
   }"

text \<open>The specification works on the sorted list itself; \<open>None\<close> marks calls a program must not make: a new
  timer at the address of a live one, a pointer to a timer that is no longer there, an expiry brought
  forward.\<close>

definition without :: "nat \<Rightarrow> (nat \<times> util_timer) list \<Rightarrow> (nat \<times> util_timer) list" where
  "without a = filter (\<lambda>x. fst x \<noteq> a)"

fun timer_op_spec :: "(nat \<times> util_timer) list \<Rightarrow> timer_op \<Rightarrow> ((nat \<times> util_timer) list \<times> (nat \<times> util_timer) list) option" where
  "timer_op_spec ts (Add_timer a e u) =
     (if a \<in> fst ` set ts then None else Some ([], ins (a, \<lparr>expire = e, user_data = u\<rparr>) ts))"
| "timer_op_spec ts (Adjust_timer a e) = (case map_of ts a of
     Some d \<Rightarrow> if expire d \<le> e then Some ([], ins (a, d\<lparr>expire := e\<rparr>) (without a ts)) else None
   | None \<Rightarrow> None)"
| "timer_op_spec ts (Del_timer a) = (if a \<in> fst ` set ts then Some ([], without a ts) else None)"
| "timer_op_spec ts (Tick cur) = Some (takeWhile (due cur) ts, dropWhile (due cur) ts)"

fun timer_ops_spec :: "(nat \<times> util_timer) list \<Rightarrow> timer_op list \<Rightarrow> ((nat \<times> util_timer) list \<times> (nat \<times> util_timer) list) option" where
  "timer_ops_spec ts [] = Some ([], ts)"
| "timer_ops_spec ts (c # cs) = do {
     (fs, ts) \<leftarrow> timer_op_spec ts c;
     (gs, ts) \<leftarrow> timer_ops_spec ts cs;
     Some (fs @ gs, ts)
   }"

definition lst_inv :: "sort_timer_lst \<Rightarrow> (nat \<times> util_timer) list \<Rightarrow> bool" where
  "lst_inv l ts \<longleftrightarrow> lst_holds l ts \<and> in_order ts \<and> dom (timers l) = fst ` set ts"

lemma split_at:
  assumes "distinct (map fst ts)" "a \<in> fst ` set ts"
  obtains us d vs where "ts = us @ (a, d) # vs" "without a ts = us @ vs" "map_of ts a = Some d" "a \<notin> fst ` set us"
proof -
  obtain d where "(a, d) \<in> set ts" using assms(2) by force
  then obtain us vs where ts: "ts = us @ (a, d) # vs" by (meson split_list)
  have "a \<notin> fst ` set us" "a \<notin> fst ` set vs" using assms(1) ts by (auto simp: image_iff)
  moreover from this have "filter (\<lambda>x. fst x \<noteq> a) us = us" "filter (\<lambda>x. fst x \<noteq> a) vs = vs"
    by (auto simp: filter_id_conv image_iff)
  then have "without a ts = us @ vs" unfolding ts without_def by simp
  moreover have "map_of ts a = Some d" using assms(1) ts by (intro map_of_is_SomeI) auto
  ultimately show thesis using that ts by blast
qed

lemma in_order_without: "in_order (us @ x # vs) \<Longrightarrow> in_order (us @ vs)"
  by (auto simp: in_order_def sorted_append)

lemma same_data_dom: "same_data m m' \<Longrightarrow> dom m' = dom m"
  by (auto simp: same_data_def dom_def) (metis map_option_is_None option.exhaust)+

lemma freed_dom: "freed A m m' \<Longrightarrow> dom m' = dom m - A"
  by (auto simp: freed_def dom_def) (metis map_option_is_None option.exhaust option.distinct(1))+

lemma lst_inv_add:
  assumes "lst_inv l ts" "a \<notin> fst ` set ts"
  shows "\<exists>l'. timer_op_exec l (Add_timer a e u) = Some ([], l') \<and> lst_inv l' (ins (a, \<lparr>expire = e, user_data = u\<rparr>) ts)"
proof -
  let ?l = "l\<lparr>timers := new_timer (timers l) a e u\<rparr>" and ?x = "(a, \<lparr>expire = e, user_data = u\<rparr>)"
  have "lst_holds ?l ts" using assms by (auto simp: lst_inv_def lst_holds_def new_timer_def)
  from add_timer_ok [OF this, of ?x] assms(2) obtain l' where
    l': "add_timer ?l (Some a) = Some l'" "lst_holds l' (ins ?x ts)" "same_data (timers ?l) (timers l')"
    by (auto simp: new_timer_def)
  have "dom (timers l') = dom (timers ?l)" using same_data_dom [OF l'(3)] .
  then show ?thesis using assms l' in_order_ins by (auto simp: lst_inv_def new_timer_def)
qed

lemma lst_inv_adjust:
  assumes "lst_inv l ts" "map_of ts a = Some d" "expire d \<le> e"
  shows "\<exists>l'. timer_op_exec l (Adjust_timer a e) = Some ([], l') \<and> lst_inv l' (ins (a, d\<lparr>expire := e\<rparr>) (without a ts))"
proof -
  have h: "lst_holds l ts" "in_order ts" "dom (timers l) = fst ` set ts" "distinct (map fst ts)"
    using assms(1) by (auto simp: lst_inv_def lst_holds_def)
  have "a \<in> fst ` set ts" using assms(2) by (metis domI dom_map_of_conv_image_fst)
  then obtain us d' vs where ts: "ts = us @ (a, d') # vs" "without a ts = us @ vs" "map_of ts a = Some d'" "a \<notin> fst ` set us"
    by (rule split_at [OF h(4)])
  have d': "d' = d" using ts(3) assms(2) by simp
  let ?x = "(a, d\<lparr>expire := e\<rparr>)"
  obtain l1 where l1: "set_expire l a e = Some l1" "lst_holds l1 (us @ ?x # vs)" "dom (timers l1) = dom (timers l)"
    using set_expire_ok [of l us a d vs e] h(1) ts(1) d' by auto
  have "\<forall>u \<in> set us. due (expire (snd ?x)) u" using h(2) ts(1) d' assms(3) by (force simp: in_order_def sorted_append due_def)
  from adjust_timer_ok [OF l1(2) this] obtain l' where
    l': "adjust_timer l1 (Some a) = Some l'" "lst_holds l' (ins ?x (us @ vs))" "same_data (timers l1) (timers l')" by auto
  have "dom (timers l') = fst ` set (ins ?x (us @ vs))" using same_data_dom [OF l'(3)] l1(3) h(3) ts(1) by auto
  then show ?thesis using l1(1) l'(1,2) ts(1,2) in_order_ins in_order_without h(2) by (auto simp: lst_inv_def)
qed

lemma lst_inv_del:
  assumes "lst_inv l ts" "a \<in> fst ` set ts"
  shows "\<exists>l'. timer_op_exec l (Del_timer a) = Some ([], l') \<and> lst_inv l' (without a ts)"
proof -
  have h: "lst_holds l ts" "in_order ts" "dom (timers l) = fst ` set ts" "distinct (map fst ts)"
    using assms(1) by (auto simp: lst_inv_def lst_holds_def)
  obtain us d vs where ts: "ts = us @ (a, d) # vs" "without a ts = us @ vs" using assms(2) by (rule split_at [OF h(4)])
  obtain l' where l': "del_timer l (Some a) = Some l'" "lst_holds l' (us @ vs)" "freed {a} (timers l) (timers l')"
    using del_timer_ok [of l us "(a, d)" vs] h(1) ts(1) by auto
  have "dom (timers l') = fst ` set (us @ vs)" using freed_dom [OF l'(3)] h(3,4) ts(1) by auto
  then show ?thesis using l'(1,2) ts in_order_without h(2) by (auto simp: lst_inv_def)
qed

lemma lst_inv_tick:
  assumes "lst_inv l ts"
  shows "\<exists>l'. timer_op_exec l (Tick cur) = Some (takeWhile (due cur) ts, l') \<and> lst_inv l' (dropWhile (due cur) ts)"
proof -
  let ?t = "takeWhile (due cur) ts" and ?d = "dropWhile (due cur) ts"
  have h: "lst_holds l ts" "in_order ts" "dom (timers l) = fst ` set ts" "distinct (map fst ts)"
    using assms(1) by (auto simp: lst_inv_def lst_holds_def)
  have td: "ts = ?t @ ?d" by simp
  obtain l' where l': "tick l cur = Some (?t, l')" "lst_holds l' ?d" "freed (fst ` set ?t) (timers l) (timers l')"
    using timer_tick_ok [OF h(1)] by blast
  have "in_order ?d" using h(2) td by (metis in_order_def map_append sorted_append)
  moreover have "distinct (map fst (?t @ ?d))" "fst ` set ts = fst ` set ?t \<union> fst ` set ?d"
    using h(4) td by (simp, metis image_Un set_append)
  then have "dom (timers l') = fst ` set ?d" using freed_dom [OF l'(3)] h(3) by (auto simp del: takeWhile_dropWhile_id)
  ultimately show ?thesis using l'(1,2) by (auto simp: lst_inv_def)
qed

lemma timer_op_refines:
  assumes "lst_inv l ts" "timer_op_spec ts c = Some (fs, ts')"
  shows "\<exists>l'. timer_op_exec l c = Some (fs, l') \<and> lst_inv l' ts'"
proof (cases c)
  case (Add_timer a e u)
  then show ?thesis using assms lst_inv_add [OF assms(1)] by (auto split: if_splits)
next
  case (Adjust_timer a e)
  then show ?thesis using assms lst_inv_adjust [OF assms(1)] by (auto split: if_splits option.splits)
next
  case (Del_timer a)
  then show ?thesis using assms lst_inv_del [OF assms(1)] by (auto split: if_splits)
next
  case (Tick cur)
  then show ?thesis using assms lst_inv_tick [OF assms(1)] by auto
qed

lemma timer_ops_refine:
  "lst_inv l ts \<Longrightarrow> timer_ops_spec ts cs = Some (fs, ts') \<Longrightarrow> \<exists>l'. timer_ops_exec l cs = Some (fs, l') \<and> lst_inv l' ts'"
proof (induction cs arbitrary: l ts fs)
  case (Cons c cs)
  then obtain f1 ts1 f2 where s: "timer_op_spec ts c = Some (f1, ts1)" "timer_ops_spec ts1 cs = Some (f2, ts')" "fs = f1 @ f2"
    by (auto simp: bind_eq_Some_conv)
  obtain l1 where "timer_op_exec l c = Some (f1, l1)" "lst_inv l1 ts1" using timer_op_refines [OF Cons.prems(1) s(1)] by blast
  then show ?case using Cons.IH [OF _ s(2)] s(3) by fastforce
qed simp

subsection \<open>The list is a timer queue\<close>

text \<open>What is due in a sorted list is a prefix of it.\<close>

lemma due_prefix:
  assumes "in_order ts"
  shows "takeWhile (due c) ts = filter (due c) ts" "dropWhile (due c) ts = filter (\<lambda>x. \<not> due c x) ts"
proof -
  show "takeWhile (due c) ts = filter (due c) ts"
    using assms by (induction ts) (auto simp: in_order_def due_def filter_empty_conv eq_commute [of "[]"])
  show "dropWhile (due c) ts = filter (\<lambda>x. \<not> due c x) ts"
    using assms by (induction ts) (auto simp: in_order_def due_def intro!: filter_True [symmetric])
qed

definition entry :: "nat \<times> util_timer \<Rightarrow> int \<times> nat \<times> nat" where
  "entry x = (expire (snd x), fst x, user_data (snd x))"

definition lst_content :: "sort_timer_lst \<Rightarrow> (int \<times> nat \<times> nat) multiset \<Rightarrow> bool" where
  "lst_content l M \<longleftrightarrow> (\<exists>ts. lst_inv l ts \<and> M = image_mset entry (mset ts))"

definition lst_ready :: "sort_timer_lst \<Rightarrow> int \<times> nat \<times> nat \<Rightarrow> bool" where
  "lst_ready l x \<longleftrightarrow> timers l (fst (snd x)) = None"

definition lst_add :: "sort_timer_lst \<Rightarrow> int \<times> nat \<times> nat \<Rightarrow> sort_timer_lst option" where
  "lst_add l x = (case x of (e, a, u) \<Rightarrow> map_option snd (timer_op_exec l (Add_timer a e u)))"

definition lst_tick :: "sort_timer_lst \<Rightarrow> int \<Rightarrow> ((int \<times> nat \<times> nat) list \<times> sort_timer_lst) option" where
  "lst_tick l cur = do { (fs, l) \<leftarrow> tick l cur; Some (map entry fs, l) }"

lemma entry_due: "fst (entry x) \<le> c \<longleftrightarrow> due c x" "c < fst (entry x) \<longleftrightarrow> \<not> due c x"
  by (auto simp: entry_def due_def)

interpretation tlist: timer_queue lst_content lst_ready lst_add lst_tick
proof
  fix l M x
  assume a: "lst_content l M" "lst_ready l x"
  obtain e b u where x: "x = (e, b, u)" by (cases x)
  obtain ts where ts: "lst_inv l ts" "M = image_mset entry (mset ts)" using a(1) by (auto simp: lst_content_def)
  have "b \<notin> fst ` set ts" using a(2) ts(1) x by (force simp: lst_ready_def lst_inv_def)
  from lst_inv_add [OF ts(1) this, of e u] obtain l' where
    l': "timer_op_exec l (Add_timer b e u) = Some ([], l')" "lst_inv l' (ins (b, \<lparr>expire = e, user_data = u\<rparr>) ts)" by blast
  then have "lst_add l x = Some l'" "lst_content l' (add_mset x M)"
    using ts(2) x by (auto simp: lst_add_def lst_content_def entry_def intro!: exI [of _ "ins (b, \<lparr>expire = e, user_data = u\<rparr>) ts"] simp del: timer_op_exec.simps)
  then show "\<exists>l'. lst_add l x = Some l' \<and> lst_content l' (add_mset x M)" by blast
next
  fix l M cur
  assume "lst_content l M"
  then obtain ts where ts: "lst_inv l ts" "M = image_mset entry (mset ts)" by (auto simp: lst_content_def)
  have o: "in_order ts" using ts(1) by (simp add: lst_inv_def)
  note p = due_prefix [OF o, of cur]
  obtain l' where l': "tick l cur = Some (filter (due cur) ts, l')" "lst_inv l' (filter (\<lambda>x. \<not> due cur x) ts)"
    using lst_inv_tick [OF ts(1), of cur] p by auto
  have "sorted (map fst (map entry (filter (due cur) ts)))"
    using o sorted_filter [of "expire \<circ> snd" ts "due cur"] by (simp add: in_order_def entry_def comp_def)
  then show "\<exists>fs l'. lst_tick l cur = Some (fs, l') \<and> sorted (map fst fs) \<and>
      mset fs = filter_mset (\<lambda>x. fst x \<le> cur) M \<and> lst_content l' (filter_mset (\<lambda>x. cur < fst x) M)"
    using l' ts(2) by (auto simp: lst_tick_def lst_content_def filter_mset_image_mset entry_due intro!: exI)
qed

subsection \<open>Properties\<close>

text \<open>C4. Timer list: every program of creations, adjustments, deletions and ticks that uses only pointers to live
  timers and only puts timers off runs on the linked list without touching a freed node, runs
  exactly the callbacks the sorted list of the specification runs, in that order, and leaves a doubly
  linked, sorted list with the right tail that holds every live timer.\<close>

theorem timer_list_refines:
  assumes "timer_ops_spec [] cs = Some (fs, ts)"
  shows "\<exists>l. timer_ops_exec (timer_lst_new Map.empty) cs = Some (fs, l) \<and> lst_holds l ts \<and> in_order ts \<and>
    dom (timers l) = fst ` set ts"
proof -
  have "lst_inv (timer_lst_new Map.empty) []" by (simp add: lst_inv_def lst_holds_def timer_lst_new_def in_order_def)
  from timer_ops_refine [OF this assms] show ?thesis by (auto simp: lst_inv_def)
qed

theorem timer_list_refines_witness:
  "\<exists>l. timer_ops_exec (timer_lst_new Map.empty)
       [Add_timer 1 30 7, Add_timer 2 10 8, Add_timer 3 20 9, Adjust_timer 2 25, Del_timer 3, Tick 26] =
     Some ([(2, \<lparr>expire = 25, user_data = 8\<rparr>)], l) \<and> dom (timers l) = {1}"
proof -
  have "timer_ops_spec [] [Add_timer 1 30 7, Add_timer 2 10 8, Add_timer 3 20 9, Adjust_timer 2 25, Del_timer 3, Tick 26] =
      Some ([(2, \<lparr>expire = 25, user_data = 8\<rparr>)], [(1, \<lparr>expire = 30, user_data = 7\<rparr>)])"
    by (simp add: ins_def due_def without_def)
  from timer_list_refines [OF this] show ?thesis by (auto simp del: timer_ops_exec.simps)
qed

text \<open>Timer list: over any run of additions and ticks every timer is run exactly once, no earlier than its
  expiry, and every \<open>tick\<close> runs all the timers that are due, in the order of their expiry.\<close>

theorem timer_list_prompt:
  assumes "timer_run lst_ready lst_add lst_tick l xs fs l1" "lst_content l {#}" "lst_tick l1 cur = Some (ys, l2)"
  shows "\<exists>M. lst_content l2 M \<and> mset xs = fired fs + mset ys + M \<and> sorted (map fst ys) \<and>
    (\<forall>y \<in> set ys. fst y \<le> cur) \<and> (\<forall>x \<in># M. cur < fst x) \<and> (\<forall>(c, zs) \<in> set fs. \<forall>z \<in> set zs. fst z \<le> c)"
  by (rule tlist.run_prompt [OF assms])

theorem timer_list_prompt_witness:
  "\<exists>l l1 l2 M. timer_run lst_ready lst_add lst_tick l [(5, 1, 7)] [] l1 \<and> lst_tick l1 6 = Some ([(5, 1, 7)], l2) \<and>
     lst_content l2 M \<and> M = {#}"
proof -
  let ?l = "timer_lst_new Map.empty" and ?n = "\<lparr>prev = None, succ = None, data = \<lparr>expire = 5, user_data = 7\<rparr>\<rparr>"
  let ?l1 = "\<lparr>timers = [1 \<mapsto> ?n], head = Some 1, tail = Some 1\<rparr>"
  have c: "lst_content ?l {#}"
    by (auto simp: lst_content_def lst_inv_def lst_holds_def timer_lst_new_def in_order_def)
  have "lst_add ?l (5, 1, 7) = Some ?l1"
    by (simp add: lst_add_def add_timer_def timer_lst_new_def new_timer_def)
  moreover have "lst_ready ?l (5, 1, 7)" by (simp add: lst_ready_def timer_lst_new_def)
  ultimately have r: "timer_run lst_ready lst_add lst_tick ?l [(5, 1, 7)] [] ?l1"
    by (blast intro: timer_run.intros)
  obtain l2 where t: "lst_tick ?l1 6 = Some ([(5, 1, 7)], l2)"
    by (simp add: lst_tick_def tick_def tick_walk.simps del_def entry_def)
  from timer_list_prompt [OF r c t] r t show ?thesis by force
qed

text \<open>Timer list: the destructor deletes every timer of the list and nothing else, so that nothing is left
  of a list that owned the whole store.\<close>

theorem timer_list_delete:
  assumes "lst_inv l ts"
  shows "\<exists>l'. timer_lst_delete l = Some l' \<and> timers l' = Map.empty"
proof -
  obtain p where "dll (timers l) p (head l) (map fst ts)" "distinct (map fst ts)" "dom (timers l) = fst ` set ts"
    using assms by (auto simp: lst_inv_def lst_holds_def)
  then show ?thesis using destroy_timers_ok by (fastforce simp: timer_lst_delete_def fun_eq_iff dom_def)
qed

theorem timer_list_delete_witness:
  "\<exists>l. timer_lst_delete \<lparr>timers = [1 \<mapsto> \<lparr>prev = None, succ = Some 2, data = \<lparr>expire = 5, user_data = 7\<rparr>\<rparr>,
        2 \<mapsto> \<lparr>prev = Some 1, succ = None, data = \<lparr>expire = 6, user_data = 8\<rparr>\<rparr>], head = Some 1, tail = Some 2\<rparr> = Some l \<and>
     timers l = Map.empty"
  by (rule timer_list_delete [of _ "[(1, \<lparr>expire = 5, user_data = 7\<rparr>), (2, \<lparr>expire = 6, user_data = 8\<rparr>)]"])
    (auto simp: lst_inv_def lst_holds_def in_order_def)

end
