(* ===== verification/Ws_Timer.thy ===== *)
theory Ws_Timer
  imports Timer_List
begin

text \<open>
  The timers of the web server (\<open>c-plus-plus-server/webserver/timer/lst_timer.cpp\<close>): a sorted timer list with the
  operations of \<open>11-2lst_timer.h\<close>, except that \<open>add_timer\<close> lacks the \<open>return\<close> after linking a new head
  in, and the class \<open>Utils\<close> that ties it to epoll, the signal pipe and the connections.  Shown: the
  missing \<open>return\<close> leaves a head whose \<open>prev\<close> is itself, but the list stays correct; a run of the timer
  handler closes exactly the connections whose timers are due.
\<close>

subsection \<open>The timer list\<close>

definition ws_timer_lst_new :: "util_timer store \<Rightarrow> sort_timer_lst" where
  "ws_timer_lst_new m = \<lparr>timers = m, head = None, tail = None\<rparr>"

text \<open>The private \<open>add_timer\<close>, \<open>adjust_timer\<close>, \<open>del_timer\<close>, \<open>tick\<close> and the destructor have the statements of
  \<open>11-2lst_timer.h\<close>.\<close>

definition ws_add_timer_after :: "sort_timer_lst \<Rightarrow> nat \<Rightarrow> nat \<Rightarrow> sort_timer_lst option" where
  "ws_add_timer_after l timer lst_head = do {
     tmp \<leftarrow> get_succ (timers l) lst_head;
     (m, at_tail) \<leftarrow> add_walk (timers l) timer tmp lst_head;
     Some (l\<lparr>timers := m, tail := (if at_tail then Some timer else tail l)\<rparr>)
   }"

definition ws_add_timer :: "sort_timer_lst \<Rightarrow> nat option \<Rightarrow> sort_timer_lst option" where
  "ws_add_timer l t = (case t of
     None \<Rightarrow> Some l
   | Some timer \<Rightarrow> (case head l of
       None \<Rightarrow> Some (l\<lparr>head := Some timer, tail := Some timer\<rparr>)
     | Some h \<Rightarrow> do {
         e \<leftarrow> get_expire (timers l) timer;
         eh \<leftarrow> get_expire (timers l) h;
         l \<leftarrow> (if e < eh then do {
           m \<leftarrow> set_succ (timers l) timer (Some h);
           m \<leftarrow> set_prev m h (Some timer);
           Some (l\<lparr>timers := m, head := Some timer\<rparr>)
         } else Some l);
         h \<leftarrow> head l;
         ws_add_timer_after l timer h
       }))"

definition ws_adjust_timer :: "sort_timer_lst \<Rightarrow> nat option \<Rightarrow> sort_timer_lst option" where
  "ws_adjust_timer l t = (case t of
     None \<Rightarrow> Some l
   | Some timer \<Rightarrow> do {
       tmp \<leftarrow> get_succ (timers l) timer;
       (case tmp of
          None \<Rightarrow> Some l
        | Some nxt \<Rightarrow> do {
            e \<leftarrow> get_expire (timers l) timer;
            e' \<leftarrow> get_expire (timers l) nxt;
            if e < e' then Some l
            else if head l = Some timer then do {
              m \<leftarrow> set_prev (timers l) nxt None;
              m \<leftarrow> set_succ m timer None;
              ws_add_timer_after (l\<lparr>timers := m, head := Some nxt\<rparr>) timer nxt
            } else do {
              p \<leftarrow> get_prev (timers l) timer;
              p \<leftarrow> p;
              m \<leftarrow> set_succ (timers l) p (Some nxt);
              m \<leftarrow> set_prev m nxt (Some p);
              ws_add_timer_after (l\<lparr>timers := m\<rparr>) timer nxt
            }
          })
     })"

definition ws_del_timer :: "sort_timer_lst \<Rightarrow> nat option \<Rightarrow> sort_timer_lst option" where
  "ws_del_timer l t = del_timer l t"

definition ws_tick :: "sort_timer_lst \<Rightarrow> int \<Rightarrow> ((nat \<times> util_timer) list \<times> sort_timer_lst) option" where
  "ws_tick l cur = tick l cur"

definition ws_timer_lst_delete :: "sort_timer_lst \<Rightarrow> sort_timer_lst option" where
  "ws_timer_lst_delete l = timer_lst_delete l"

lemma ws_add_timer_after_eq: "ws_add_timer_after = add_timer_after"
  by (intro ext) (simp add: ws_add_timer_after_def add_timer_after_def)

lemma ws_adjust_timer_eq: "ws_adjust_timer = adjust_timer"
  by (intro ext) (simp only: ws_adjust_timer_def adjust_timer_def adjust_head_def adjust_inner_def ws_add_timer_after_eq)

text \<open>The new head is walked past itself: it ends up as its own predecessor.\<close>

lemma ws_add_head:
  assumes "lst_holds l (y # vs)" "fst x \<notin> fst ` set (y # vs)" "timers l (fst x) = Some n" "data n = snd x"
    "\<not> due (expire (snd x)) y"
  shows "\<exists>l'. ws_add_timer l (Some (fst x)) = Some l' \<and> head l' = Some (fst x) \<and> tail l' = tail l \<and>
    get_prev (timers l') (fst x) = Some (Some (fst x)) \<and>
    dll (timers l') (Some (fst x)) (head l') (map fst (x # y # vs)) \<and> same_data (timers l) (timers l')"
proof -
  obtain k where k: "head l = Some (fst y)" "timers l (fst y) = Some k" "data k = snd y"
      "dll (timers l) (Some (fst y)) (succ k) (map fst vs)"
    using assms(1) by (auto simp: lst_holds_def)
  have "distinct (map fst (y # vs))" using assms(1) by (simp add: lst_holds_def)
  moreover have "expire (data n) < expire (data k)" using assms(4,5) k(3) by (simp add: due_def)
  ultimately show ?thesis using assms(2-4) k
    by (auto simp: ws_add_timer_def ws_add_timer_after_def field_defs add_walk.simps [of _ _ "Some (fst y)"]
        link_before_def same_data_def)
qed

lemma ws_add_timer_ok:
  assumes "lst_holds l ts" "fst x \<notin> fst ` set ts" "timers l (fst x) = Some n" "data n = snd x" "succ n = None"
  shows "\<exists>l'. ws_add_timer l (Some (fst x)) = Some l' \<and> lst_holds l' (ins x ts) \<and> same_data (timers l) (timers l')"
proof (cases "ts \<noteq> [] \<and> \<not> due (expire (snd x)) (hd ts)")
  case False
  then have "ws_add_timer l (Some (fst x)) = add_timer l (Some (fst x))"
    using assms lst_holds_head [OF assms(1)] lst_holds_expire [OF assms(1), of "hd ts"]
    by (cases ts) (auto simp: ws_add_timer_def add_timer_def ws_add_timer_after_eq due_def get_expire_def bind_eq_Some_conv)
  then show ?thesis using add_timer_ok [OF assms] by simp
next
  case True
  then obtain y vs where ts: "ts = y # vs" "\<not> due (expire (snd x)) y" by (cases ts) auto
  obtain l' where l': "ws_add_timer l (Some (fst x)) = Some l'" "tail l' = tail l"
      "dll (timers l') (Some (fst x)) (head l') (map fst (x # ts))" "same_data (timers l) (timers l')"
    using ws_add_head [of l y vs x n] assms ts by auto
  have "map_option data (timers l' (fst z)) = Some (snd z)" if "z \<in> set (x # ts)" for z
    using that assms(1,3,4) same_data_at [OF l'(4)] by (auto simp: lst_holds_def)
  then have "lst_holds l' (x # ts)" using l' assms(1,2) ts(1) by (auto simp: lst_holds_def)
  then show ?thesis using l' ins_first [of ts x] True by auto
qed

definition ws_lst_add :: "sort_timer_lst \<Rightarrow> int \<times> nat \<times> nat \<Rightarrow> sort_timer_lst option" where
  "ws_lst_add l x = (case x of (e, a, u) \<Rightarrow> ws_add_timer (l\<lparr>timers := new_timer (timers l) a e u\<rparr>) (Some a))"

lemma ws_lst_inv_add:
  assumes "lst_inv l ts" "a \<notin> fst ` set ts"
  shows "\<exists>l'. ws_lst_add l (e, a, u) = Some l' \<and> lst_inv l' (ins (a, \<lparr>expire = e, user_data = u\<rparr>) ts)"
proof -
  let ?l = "l\<lparr>timers := new_timer (timers l) a e u\<rparr>" and ?x = "(a, \<lparr>expire = e, user_data = u\<rparr>)"
  have "lst_holds ?l ts" using assms by (auto simp: lst_inv_def lst_holds_def new_timer_def)
  from ws_add_timer_ok [OF this, of ?x] assms(2) obtain l' where
    l': "ws_add_timer ?l (Some a) = Some l'" "lst_holds l' (ins ?x ts)" "same_data (timers ?l) (timers l')"
    by (auto simp: new_timer_def)
  then show ?thesis using assms same_data_dom [OF l'(3)] in_order_ins by (auto simp: lst_inv_def ws_lst_add_def new_timer_def)
qed

interpretation wlist: timer_queue lst_content lst_ready ws_lst_add lst_tick
proof
  fix l M x
  assume a: "lst_content l M" "lst_ready l x"
  obtain e b u where x: "x = (e, b, u)" by (cases x)
  obtain ts where ts: "lst_inv l ts" "M = image_mset entry (mset ts)" using a(1) by (auto simp: lst_content_def)
  have "b \<notin> fst ` set ts" using a(2) ts(1) x by (force simp: lst_ready_def lst_inv_def)
  from ws_lst_inv_add [OF ts(1) this, of e u] obtain l' where
    l': "ws_lst_add l (e, b, u) = Some l'" "lst_inv l' (ins (b, \<lparr>expire = e, user_data = u\<rparr>) ts)" by blast
  then show "\<exists>l'. ws_lst_add l x = Some l' \<and> lst_content l' (add_mset x M)"
    using ts(2) x by (auto simp: lst_content_def entry_def intro!: exI [of _ "ins (b, \<lparr>expire = e, user_data = u\<rparr>) ts"])
qed (rule tlist.tick_ok)

subsection \<open>The class Utils\<close>

text \<open>The state the members of \<open>Utils\<close> and the callback change: the list, the epoll interest list, the open and the
  non-blocking descriptors, the signal pipe, what has been sent to clients, the pending alarm,
  \<open>errno\<close>, the handled signals and \<open>http_conn::m_user_count\<close>.\<close>

record utils =
  m_timer_lst :: sort_timer_lst
  m_TIMESLOT :: int
  epoll_set :: "int \<Rightarrow> 32 word option"
  open_fds :: "int set"
  nonblock :: "int set"
  sig_pipe :: "byte list"
  sent :: "(int \<times> byte list) list"
  alarm :: "int option"
  errno :: int
  handlers :: "(int \<times> bool) list"
  m_user_count :: int

definition EPOLLIN :: "32 word" where "EPOLLIN = 0x001"
definition EPOLLRDHUP :: "32 word" where "EPOLLRDHUP = 0x2000"
definition EPOLLONESHOT :: "32 word" where "EPOLLONESHOT = 0x40000000"
definition EPOLLET :: "32 word" where "EPOLLET = 0x80000000"

definition utils_init :: "utils \<Rightarrow> int \<Rightarrow> utils" where
  "utils_init s timeslot = s\<lparr>m_TIMESLOT := timeslot\<rparr>"

definition setnonblocking :: "utils \<Rightarrow> int \<Rightarrow> bool \<times> utils" where
  "setnonblocking s fd = (fd \<in> nonblock s, s\<lparr>nonblock := insert fd (nonblock s)\<rparr>)"

definition addfd :: "utils \<Rightarrow> int \<Rightarrow> bool \<Rightarrow> int \<Rightarrow> utils" where
  "addfd s fd one_shot TRIGMode =
     (let events = (if 1 = TRIGMode then EPOLLIN OR EPOLLET OR EPOLLRDHUP else EPOLLIN OR EPOLLRDHUP);
          events = (if one_shot then events OR EPOLLONESHOT else events)
      in snd (setnonblocking (s\<lparr>epoll_set := (epoll_set s)(fd \<mapsto> events)\<rparr>) fd))"

text \<open>The handler of the signals; \<open>send_errno\<close> is what the send to the pipe leaves in \<open>errno\<close>.\<close>

definition sig_handler :: "utils \<Rightarrow> int \<Rightarrow> int \<Rightarrow> utils" where
  "sig_handler s send_errno sig =
     (let save_error = errno s;
          msg = sig;
          s = s\<lparr>sig_pipe := sig_pipe s @ [word_of_int msg], errno := send_errno\<rparr>
      in s\<lparr>errno := save_error\<rparr>)"

definition addsig :: "utils \<Rightarrow> bool \<Rightarrow> int \<Rightarrow> bool \<Rightarrow> utils option" where
  "addsig s sigaction_ok sig restart =
     (if sigaction_ok then Some (s\<lparr>handlers := (sig, restart) # handlers s\<rparr>) else None)"

definition show_error :: "utils \<Rightarrow> int \<Rightarrow> byte list \<Rightarrow> utils" where
  "show_error s connfd info = s\<lparr>sent := sent s @ [(connfd, info)], open_fds := open_fds s - {connfd}\<rparr>"

text \<open>The callback of the timers; \<open>clients\<close> gives the descriptor of a \<open>client_data\<close> object, and a null pointer is used
  before it is asserted to be valid.\<close>

definition cb_func :: "(nat \<Rightarrow> int option) \<Rightarrow> utils \<Rightarrow> nat \<Rightarrow> utils option" where
  "cb_func clients s ud = do {
     sockfd \<leftarrow> clients ud;
     let s = s\<lparr>epoll_set := (epoll_set s)(sockfd := None)\<rparr>;
     let s = s\<lparr>open_fds := open_fds s - {sockfd}\<rparr>;
     Some (s\<lparr>m_user_count := m_user_count s - 1\<rparr>)
   }"

fun run_callbacks :: "(nat \<Rightarrow> int option) \<Rightarrow> utils \<Rightarrow> (nat \<times> util_timer) list \<Rightarrow> utils option" where
  "run_callbacks clients s [] = Some s"
| "run_callbacks clients s (f # fs) = do { s \<leftarrow> cb_func clients s (user_data (snd f)); run_callbacks clients s fs }"

definition timer_handler :: "(nat \<Rightarrow> int option) \<Rightarrow> utils \<Rightarrow> int \<Rightarrow> utils option" where
  "timer_handler clients s cur = do {
     (fs, l) \<leftarrow> ws_tick (m_timer_lst s) cur;
     s \<leftarrow> run_callbacks clients (s\<lparr>m_timer_lst := l\<rparr>) fs;
     Some (s\<lparr>alarm := Some (m_TIMESLOT s)\<rparr>)
   }"

definition fd_of :: "(nat \<Rightarrow> int option) \<Rightarrow> nat \<times> util_timer \<Rightarrow> int" where
  "fd_of clients f = the (clients (user_data (snd f)))"

lemma run_callbacks_ok:
  "\<forall>f \<in> set fs. clients (user_data (snd f)) \<noteq> None \<Longrightarrow>
   run_callbacks clients s fs = Some (s\<lparr>epoll_set := epoll_set s |` (- fd_of clients ` set fs),
     open_fds := open_fds s - fd_of clients ` set fs, m_user_count := m_user_count s - int (length fs)\<rparr>)"
proof (induction fs arbitrary: s)
  case (Cons f fs)
  then obtain fd where fd: "clients (user_data (snd f)) = Some fd" by auto
  let ?s = "s\<lparr>epoll_set := (epoll_set s)(fd := None), open_fds := open_fds s - {fd}, m_user_count := m_user_count s - 1\<rparr>"
  have e: "(epoll_set s)(fd := None) |` (- fd_of clients ` set fs) = epoll_set s |` (- fd_of clients ` set (f # fs))"
    and o: "open_fds s - {fd} - fd_of clients ` set fs = open_fds s - fd_of clients ` set (f # fs)"
    using fd by (auto simp: restrict_map_def fun_eq_iff fd_of_def)
  have "run_callbacks clients s (f # fs) = run_callbacks clients ?s fs" using fd by (simp add: cb_func_def)
  also have "\<dots> = Some (?s\<lparr>epoll_set := epoll_set ?s |` (- fd_of clients ` set fs),
     open_fds := open_fds ?s - fd_of clients ` set fs, m_user_count := m_user_count ?s - int (length fs)\<rparr>)"
    by (rule Cons.IH) (use Cons.prems in simp)
  finally show ?case using e o by (simp del: list.set)
qed (simp add: restrict_map_def)

subsection \<open>Properties\<close>

text \<open>Web server timers: the missing \<open>return\<close> in \<open>add_timer\<close>.  A timer that becomes the new head of a
  non-empty list is left with itself as its predecessor; the list reached from the head is nevertheless
  the sorted one, with the right tail.\<close>

theorem ws_add_timer_self_prev:
  assumes "lst_holds l (y # vs)" "fst x \<notin> fst ` set (y # vs)" "timers l (fst x) = Some n" "data n = snd x" "succ n = None"
    "\<not> due (expire (snd x)) y"
  shows "\<exists>l'. ws_add_timer l (Some (fst x)) = Some l' \<and> head l' = Some (fst x) \<and>
    get_prev (timers l') (fst x) = Some (Some (fst x)) \<and> lst_holds l' (x # y # vs)"
  using ws_add_head [OF assms(1-4,6)] ws_add_timer_ok [OF assms(1-5)] assms(6) ins_first [of "y # vs" x] by auto

theorem ws_add_timer_self_prev_witness:
  "\<exists>l'. ws_add_timer \<lparr>timers = [1 \<mapsto> \<lparr>prev = None, succ = None, data = \<lparr>expire = 10, user_data = 7\<rparr>\<rparr>,
        2 \<mapsto> \<lparr>prev = None, succ = None, data = \<lparr>expire = 5, user_data = 8\<rparr>\<rparr>], head = Some 1, tail = Some 1\<rparr> (Some 2) = Some l' \<and>
     head l' = Some 2 \<and> get_prev (timers l') 2 = Some (Some 2)"
  using ws_add_timer_self_prev [of "\<lparr>timers = [1 \<mapsto> \<lparr>prev = None, succ = None, data = \<lparr>expire = 10, user_data = 7\<rparr>\<rparr>,
        2 \<mapsto> \<lparr>prev = None, succ = None, data = \<lparr>expire = 5, user_data = 8\<rparr>\<rparr>], head = Some 1, tail = Some 1\<rparr>"
      "(1, \<lparr>expire = 10, user_data = 7\<rparr>)" "[]" "(2, \<lparr>expire = 5, user_data = 8\<rparr>)"]
  by (auto simp: lst_holds_def due_def)

text \<open>Web server timers: one run of the timer handler runs the timers that are due and no others, takes
  exactly their descriptors out of the epoll set, closes exactly those, lowers the user count by their number,
  keeps the other timers in order and arms the next alarm.\<close>

theorem timer_handler_closes_due:
  assumes "lst_inv (m_timer_lst s) ts" "\<forall>f \<in> set ts. clients (user_data (snd f)) \<noteq> None"
    and ds_def: "ds = filter (due cur) ts"
  shows "\<exists>s'. timer_handler clients s cur = Some s' \<and> lst_inv (m_timer_lst s') (filter (\<lambda>x. \<not> due cur x) ts) \<and>
    open_fds s' = open_fds s - fd_of clients ` set ds \<and> epoll_set s' = epoll_set s |` (- fd_of clients ` set ds) \<and>
    m_user_count s' = m_user_count s - int (length ds) \<and> alarm s' = Some (m_TIMESLOT s)"
proof -
  have o: "in_order ts" using assms(1) by (simp add: lst_inv_def)
  obtain l where l: "tick (m_timer_lst s) cur = Some (ds, l)" "lst_inv l (filter (\<lambda>x. \<not> due cur x) ts)"
    using lst_inv_tick [OF assms(1), of cur] due_prefix [OF o, of cur] by (auto simp: ds_def)
  have "\<forall>f \<in> set ds. clients (user_data (snd f)) \<noteq> None" using assms(2) by (simp add: ds_def)
  from run_callbacks_ok [OF this] l show ?thesis by (simp add: timer_handler_def ws_tick_def)
qed

theorem timer_handler_closes_due_witness:
  "\<exists>s'. timer_handler [7 \<mapsto> 4]
       \<lparr>m_timer_lst = \<lparr>timers = [1 \<mapsto> \<lparr>prev = None, succ = None, data = \<lparr>expire = 10, user_data = 7\<rparr>\<rparr>], head = Some 1, tail = Some 1\<rparr>,
         m_TIMESLOT = 5, epoll_set = [4 \<mapsto> 1, 5 \<mapsto> 1], open_fds = {4, 5}, nonblock = {}, sig_pipe = [], sent = [],
         alarm = None, errno = 0, handlers = [], m_user_count = 2\<rparr> 10 = Some s' \<and>
     open_fds s' = {5} \<and> m_user_count s' = 1 \<and> alarm s' = Some 5"
  (is "\<exists>s'. timer_handler _ ?s _ = _ \<and> _")
proof -
  have "lst_inv (m_timer_lst ?s) [(1, \<lparr>expire = 10, user_data = 7\<rparr>)]" by (simp add: lst_inv_def lst_holds_def in_order_def)
  from timer_handler_closes_due [OF this _ refl, of "[7 \<mapsto> 4]" 10] show ?thesis by (auto simp: due_def fd_of_def)
qed

end
