(* ===== verification/Time_Heap.thy ===== *)
theory Time_Heap
  imports Timer_Queue
begin

text \<open>
  The time heap (\<open>network-programming/youshuang/timer/11-6time_heap.h\<close>): a binary min-heap of pointers to timer
  objects in an array that doubles when it is full, with lazy deletion.  \<open>None\<close> is an access outside
  the array or through a null or dangling pointer.  Shown: the heap property is established by both
  constructors and kept by every operation, \<open>top\<close> is a timer with the least expiry, and the heap is
  an instance of \<open>timer_queue\<close>.  Sizes are natural numbers: the overflow of \<open>int\<close> beyond a
  billion timers is not modelled.
\<close>

subsection \<open>Timers and the heap\<close>

text \<open>A timer object: expiry, whether its callback is set, and its user data.\<close>

record heap_timer =
  expire :: int
  cb_func :: bool
  user_data :: nat

record time_heap =
  objs :: "nat \<Rightarrow> heap_timer option"
  arr :: "nat option list"
  capacity :: nat
  cur_size :: nat

definition heap_timer_new :: "int \<Rightarrow> int \<Rightarrow> nat \<Rightarrow> heap_timer" where
  "heap_timer_new now delay u = \<lparr>expire = now + delay, cb_func = True, user_data = u\<rparr>"

definition arr_get :: "'a list \<Rightarrow> nat \<Rightarrow> 'a option" where
  "arr_get a i = (if i < length a then Some (a ! i) else None)"

definition arr_put :: "'a list \<Rightarrow> nat \<Rightarrow> 'a \<Rightarrow> 'a list option" where
  "arr_put a i v = (if i < length a then Some (a[i := v]) else None)"

text \<open>\<open>p->expire\<close> and \<open>array[i]->expire\<close>.\<close>

definition ptr_expire :: "(nat \<Rightarrow> heap_timer option) \<Rightarrow> nat option \<Rightarrow> int option" where
  "ptr_expire m p = do { a \<leftarrow> p; t \<leftarrow> m a; Some (expire t) }"

definition slot_expire :: "(nat \<Rightarrow> heap_timer option) \<Rightarrow> nat option list \<Rightarrow> nat \<Rightarrow> int option" where
  "slot_expire m a i = do { p \<leftarrow> arr_get a i; ptr_expire m p }"

definition time_heap_new :: "(nat \<Rightarrow> heap_timer option) \<Rightarrow> nat \<Rightarrow> time_heap" where
  "time_heap_new m cap = \<lparr>objs = m, arr = replicate cap None, capacity = cap, cur_size = 0\<rparr>"

definition heap_empty :: "time_heap \<Rightarrow> bool" where
  "heap_empty h \<longleftrightarrow> cur_size h = 0"

subsection \<open>Operations\<close>

text \<open>The child \<open>percolate_down\<close> compares with: the smaller of the two, the left one if there is only one.\<close>

definition least_child :: "(nat \<Rightarrow> heap_timer option) \<Rightarrow> nat option list \<Rightarrow> nat \<Rightarrow> nat \<Rightarrow> nat option" where
  "least_child m a n hole = do {
     let child = hole * 2 + 1;
     if child + 1 < n then do {
       r \<leftarrow> slot_expire m a (child + 1);
       l \<leftarrow> slot_expire m a child;
       Some (if r < l then child + 1 else child)
     } else Some child
   }"

lemma least_child_greater: "least_child m a n hole = Some c \<Longrightarrow> hole < c \<and> (hole * 2 + 1 < n \<longrightarrow> c < n)"
  by (auto simp: least_child_def bind_eq_Some_conv split: if_splits)

function down_loop :: "(nat \<Rightarrow> heap_timer option) \<Rightarrow> nat \<Rightarrow> nat option list \<Rightarrow> nat \<Rightarrow> nat option \<Rightarrow> nat option list option" where
  "down_loop m n a hole temp =
     (if hole * 2 + 1 < n then
        (case least_child m a n hole of
           None \<Rightarrow> None
         | Some child \<Rightarrow> do {
             ec \<leftarrow> slot_expire m a child;
             et \<leftarrow> ptr_expire m temp;
             if ec < et then do {
               p \<leftarrow> arr_get a child;
               a \<leftarrow> arr_put a hole p;
               down_loop m n a child temp
             } else arr_put a hole temp
           })
      else arr_put a hole temp)"
  by pat_completeness auto
termination
  by (relation "measure (\<lambda>(m, n, a, hole, temp). n - hole)") (auto dest: least_child_greater)

declare down_loop.simps [simp del]

definition percolate_down :: "time_heap \<Rightarrow> nat \<Rightarrow> time_heap option" where
  "percolate_down h hole = do {
     temp \<leftarrow> arr_get (arr h) hole;
     a \<leftarrow> down_loop (objs h) (cur_size h) (arr h) hole temp;
     Some (h\<lparr>arr := a\<rparr>)
   }"

text \<open>The second constructor; \<open>None\<close> is also its exception for \<open>capacity < size\<close>.  The loop runs from
  \<open>(cur_size - 1) / 2\<close> down to 0.\<close>

fun heapify :: "time_heap \<Rightarrow> nat \<Rightarrow> time_heap option" where
  "heapify h 0 = percolate_down h 0"
| "heapify h (Suc i) = do { h \<leftarrow> percolate_down h (Suc i); heapify h i }"

definition time_heap_init :: "(nat \<Rightarrow> heap_timer option) \<Rightarrow> nat option list \<Rightarrow> nat \<Rightarrow> nat \<Rightarrow> time_heap option" where
  "time_heap_init m init_array n cap =
     (if cap < n then None
      else if n \<noteq> 0 then
        (if n \<le> length init_array then
           heapify \<lparr>objs = m, arr = take n init_array @ replicate (cap - n) None, capacity = cap, cur_size = n\<rparr> ((n - 1) div 2)
         else None)
      else Some \<lparr>objs = m, arr = replicate cap None, capacity = cap, cur_size = 0\<rparr>)"

definition resize :: "time_heap \<Rightarrow> time_heap option" where
  "resize h =
     (if cur_size h \<le> length (arr h) \<and> cur_size h \<le> 2 * capacity h then
        Some (h\<lparr>arr := take (cur_size h) (arr h) @ replicate (2 * capacity h - cur_size h) None, capacity := 2 * capacity h\<rparr>)
      else None)"

fun up_loop :: "(nat \<Rightarrow> heap_timer option) \<Rightarrow> nat option list \<Rightarrow> nat \<Rightarrow> nat \<Rightarrow> nat option list option" where
  "up_loop m a hole timer =
     (if hole = 0 then arr_put a hole (Some timer)
      else do {
        let parent = (hole - 1) div 2;
        ep \<leftarrow> slot_expire m a parent;
        et \<leftarrow> ptr_expire m (Some timer);
        if ep \<le> et then arr_put a hole (Some timer)
        else do {
          p \<leftarrow> arr_get a parent;
          a \<leftarrow> arr_put a hole p;
          up_loop m a parent timer
        }
      })"

declare up_loop.simps [simp del]

definition heap_add_timer :: "time_heap \<Rightarrow> nat option \<Rightarrow> time_heap option" where
  "heap_add_timer h t = (case t of
     None \<Rightarrow> Some h
   | Some timer \<Rightarrow> do {
       h \<leftarrow> (if cur_size h \<ge> capacity h then resize h else Some h);
       a \<leftarrow> up_loop (objs h) (arr h) (cur_size h) timer;
       Some (h\<lparr>arr := a, cur_size := cur_size h + 1\<rparr>)
     })"

definition heap_del_timer :: "time_heap \<Rightarrow> nat option \<Rightarrow> time_heap option" where
  "heap_del_timer h t = (case t of
     None \<Rightarrow> Some h
   | Some timer \<Rightarrow> do {
       n \<leftarrow> objs h timer;
       Some (h\<lparr>objs := (objs h)(timer \<mapsto> n\<lparr>cb_func := False\<rparr>)\<rparr>)
     })"

definition heap_top :: "time_heap \<Rightarrow> nat option option" where
  "heap_top h = (if heap_empty h then Some None else arr_get (arr h) 0)"

definition pop_timer :: "time_heap \<Rightarrow> time_heap option" where
  "pop_timer h =
     (if heap_empty h then Some h
      else do {
        p \<leftarrow> arr_get (arr h) 0;
        (case p of
           None \<Rightarrow> Some h
         | Some t \<Rightarrow> do {
             _ \<leftarrow> objs h t;
             let h = h\<lparr>objs := (objs h)(t := None), cur_size := cur_size h - 1\<rparr>;
             p \<leftarrow> arr_get (arr h) (cur_size h);
             a \<leftarrow> arr_put (arr h) 0 p;
             percolate_down (h\<lparr>arr := a\<rparr>) 0
           })
      })"

text \<open>The loop of \<open>tick\<close> with the timers whose callback it ran.\<close>

partial_function (option) tick_loop :: "int \<Rightarrow> nat option \<Rightarrow> time_heap \<Rightarrow> ((nat \<times> heap_timer) list \<times> time_heap) option" where
  "tick_loop cur tmp h =
     (if heap_empty h then Some ([], h)
      else (case tmp of
        None \<Rightarrow> Some ([], h)
      | Some t \<Rightarrow> do {
          n \<leftarrow> objs h t;
          if expire n > cur then Some ([], h)
          else do {
            p \<leftarrow> arr_get (arr h) 0;
            a \<leftarrow> p;
            n \<leftarrow> objs h a;
            h \<leftarrow> pop_timer h;
            tmp \<leftarrow> arr_get (arr h) 0;
            (fs, h) \<leftarrow> tick_loop cur tmp h;
            Some (if cb_func n then (a, n) # fs else fs, h)
          }
        }))"

definition heap_tick :: "time_heap \<Rightarrow> int \<Rightarrow> ((nat \<times> heap_timer) list \<times> time_heap) option" where
  "heap_tick h cur = do { tmp \<leftarrow> arr_get (arr h) 0; tick_loop cur tmp h }"

text \<open>The destructor deletes the first \<open>cur_size\<close> timers.\<close>

fun delete_slots :: "(nat \<Rightarrow> heap_timer option) \<Rightarrow> nat option list \<Rightarrow> (nat \<Rightarrow> heap_timer option) option" where
  "delete_slots m [] = Some m"
| "delete_slots m (None # ps) = delete_slots m ps"
| "delete_slots m (Some t # ps) = do { _ \<leftarrow> m t; delete_slots (m(t := None)) ps }"

definition time_heap_delete :: "time_heap \<Rightarrow> (nat \<Rightarrow> heap_timer option) option" where
  "time_heap_delete h = (if cur_size h \<le> length (arr h) then delete_slots (objs h) (take (cur_size h) (arr h)) else None)"

subsection \<open>Sifting in a list\<close>

text \<open>The two loops on a list of keys without pointers, where the content of the hole does not matter.\<close>

definition par :: "nat \<Rightarrow> nat" where
  "par i = (i - 1) div 2"

lemma par_less [simp]: "0 < i \<Longrightarrow> par i < i"
  by (auto simp: par_def)

lemma par_child: "0 < i \<Longrightarrow> par i = k \<longleftrightarrow> i = k * 2 + 1 \<or> i = k * 2 + 2"
  by (auto simp: par_def)

definition heap_from :: "('a \<Rightarrow> int) \<Rightarrow> nat \<Rightarrow> 'a list \<Rightarrow> bool" where
  "heap_from key lo xs \<longleftrightarrow> (\<forall>i. 0 < i \<and> i < length xs \<and> lo \<le> par i \<longrightarrow> key (xs ! par i) \<le> key (xs ! i))"

definition lchild :: "('a \<Rightarrow> int) \<Rightarrow> 'a list \<Rightarrow> nat \<Rightarrow> nat" where
  "lchild key xs hole = (if hole * 2 + 2 < length xs \<and> key (xs ! (hole * 2 + 2)) < key (xs ! (hole * 2 + 1)) then hole * 2 + 2 else hole * 2 + 1)"

lemma lchild_props:
  assumes "hole * 2 + 1 < length xs"
  shows "hole < lchild key xs hole" "lchild key xs hole < length xs" "par (lchild key xs hole) = hole"
    "0 < i \<Longrightarrow> i < length xs \<Longrightarrow> par i = hole \<Longrightarrow> key (xs ! lchild key xs hole) \<le> key (xs ! i)"
proof -
  show "hole < lchild key xs hole" "lchild key xs hole < length xs" using assms by (auto simp: lchild_def)
  show "par (lchild key xs hole) = hole" by (simp add: lchild_def par_def)
  show "0 < i \<Longrightarrow> i < length xs \<Longrightarrow> par i = hole \<Longrightarrow> key (xs ! lchild key xs hole) \<le> key (xs ! i)"
    by (auto simp: par_child lchild_def)
qed

function sift_down :: "('a \<Rightarrow> int) \<Rightarrow> 'a list \<Rightarrow> nat \<Rightarrow> 'a \<Rightarrow> 'a list" where
  "sift_down key xs hole t =
     (if hole * 2 + 1 < length xs \<and> key (xs ! lchild key xs hole) < key t
      then sift_down key (xs[hole := xs ! lchild key xs hole]) (lchild key xs hole) t
      else xs[hole := t])"
  by pat_completeness auto
termination
proof (relation "measure (\<lambda>(key, xs, hole, t). length xs - hole)")
  fix key :: "'a \<Rightarrow> int" and xs hole t
  assume "hole * 2 + 1 < length xs \<and> key (xs ! lchild key xs hole) < key t"
  then show "((key, xs[hole := xs ! lchild key xs hole], lchild key xs hole, t), key, xs, hole, t)
      \<in> measure (\<lambda>(key, xs, hole, t). length xs - hole)"
    using lchild_props(1,2) [of hole xs key] by (auto intro: diff_less_mono2)
qed simp

declare sift_down.simps [simp del]

fun sift_up :: "('a \<Rightarrow> int) \<Rightarrow> 'a list \<Rightarrow> nat \<Rightarrow> 'a \<Rightarrow> 'a list" where
  "sift_up key xs hole t =
     (if 0 < hole \<and> key t < key (xs ! ((hole - 1) div 2))
      then sift_up key (xs[hole := xs ! ((hole - 1) div 2)]) ((hole - 1) div 2) t
      else xs[hole := t])"

declare sift_up.simps [simp del]

lemma mset_move:
  assumes "i < length xs" "j < length xs" "i \<noteq> j"
  shows "mset ((xs[i := xs ! j])[j := t]) = mset (xs[i := t])"
proof -
  have "(xs[i := xs ! j])[j := t] = (xs[i := t])[i := xs[i := t] ! j, j := xs[i := t] ! i]"
    using assms by (simp add: list_update_swap)
  then show ?thesis using mset_swap [of j "xs[i := t]" i] assms by simp
qed

lemma length_sift_down [simp]: "length (sift_down key xs hole t) = length xs"
  by (induction key xs hole t rule: sift_down.induct) (subst sift_down.simps, simp)

lemma length_sift_up [simp]: "length (sift_up key xs hole t) = length xs"
  by (induction key xs hole t rule: sift_up.induct) (subst sift_up.simps, simp)

lemma mset_sift_down: "hole < length xs \<Longrightarrow> mset (sift_down key xs hole t) = mset (xs[hole := t])"
proof (induction key xs hole t rule: sift_down.induct)
  case (1 key xs hole t)
  let ?c = "lchild key xs hole"
  show ?case
  proof (cases "hole * 2 + 1 < length xs \<and> key (xs ! ?c) < key t")
    case True
    then have c: "?c < length xs" "hole < ?c" using lchild_props by auto
    have "mset (sift_down key xs hole t) = mset ((xs[hole := xs ! ?c])[?c := t])"
      using 1(1) [OF True] c True by (simp add: sift_down.simps [of key xs hole])
    then show ?thesis using mset_move [of hole xs ?c] "1.prems" c by simp
  qed (auto simp: sift_down.simps [of key xs hole])
qed

lemma mset_sift_up: "hole < length xs \<Longrightarrow> mset (sift_up key xs hole t) = mset (xs[hole := t])"
proof (induction key xs hole t rule: sift_up.induct)
  case (1 key xs hole t)
  let ?p = "(hole - 1) div 2"
  show ?case
  proof (cases "0 < hole \<and> key t < key (xs ! ?p)")
    case True
    then have c: "?p < hole" by auto
    have "mset (sift_up key xs hole t) = mset ((xs[hole := xs ! ?p])[?p := t])"
      using 1(1) [OF True] c "1.prems" True by (simp add: sift_up.simps [of key xs hole])
    then show ?thesis using mset_move [of hole xs ?p] "1.prems" c by simp
  qed (auto simp: sift_up.simps [of key xs hole])
qed

text \<open>The edges of the tree that do not touch the hole.\<close>

definition edges_off :: "('a \<Rightarrow> int) \<Rightarrow> nat \<Rightarrow> nat \<Rightarrow> 'a list \<Rightarrow> bool" where
  "edges_off key lo hole xs \<longleftrightarrow> (\<forall>i. 0 < i \<and> i < length xs \<and> lo \<le> par i \<and> i \<noteq> hole \<and> par i \<noteq> hole \<longrightarrow>
     key (xs ! par i) \<le> key (xs ! i))"

definition above :: "('a \<Rightarrow> int) \<Rightarrow> nat \<Rightarrow> nat \<Rightarrow> 'a list \<Rightarrow> bool" where
  "above key lo hole xs \<longleftrightarrow> (\<forall>i. 0 < i \<and> i < length xs \<and> par i = hole \<and> 0 < hole \<and> lo \<le> par hole \<longrightarrow>
     key (xs ! par hole) \<le> key (xs ! i))"

lemma heap_from_fill:
  assumes "edges_off key lo hole xs" "0 < hole \<Longrightarrow> lo \<le> par hole \<Longrightarrow> key (xs ! par hole) \<le> key t"
    "\<And>i. 0 < i \<Longrightarrow> i < length xs \<Longrightarrow> par i = hole \<Longrightarrow> key t \<le> key (xs ! i)"
  shows "heap_from key lo (xs[hole := t])"
  unfolding heap_from_def
proof (intro allI impI)
  fix i
  assume i: "0 < i \<and> i < length (xs[hole := t]) \<and> lo \<le> par i"
  then have "par i \<noteq> i" using par_less [of i] by linarith
  then show "key (xs[hole := t] ! par i) \<le> key (xs[hole := t] ! i)"
    using assms i par_less [of i] by (cases "i = hole"; cases "par i = hole") (auto simp: edges_off_def nth_list_update)
qed

lemma sift_down_heap:
  "hole < length xs \<Longrightarrow> edges_off key lo hole xs \<Longrightarrow> above key lo hole xs \<Longrightarrow>
   (0 < hole \<Longrightarrow> lo \<le> par hole \<Longrightarrow> key (xs ! par hole) \<le> key t) \<Longrightarrow> lo \<le> hole \<Longrightarrow>
   heap_from key lo (sift_down key xs hole t)"
proof (induction key xs hole t rule: sift_down.induct)
  case (1 key xs hole t)
  let ?c = "lchild key xs hole"
  show ?case
  proof (cases "hole * 2 + 1 < length xs \<and> key (xs ! ?c) < key t")
    case False
    have "key t \<le> key (xs ! i)" if "0 < i" "i < length xs" "par i = hole" for i
    proof -
      have "hole * 2 + 1 < length xs" using that by (auto simp: par_child)
      then show ?thesis using lchild_props(4) [of hole xs i key] that False by auto
    qed
    then have "heap_from key lo (xs[hole := t])" using "1.prems" by (intro heap_from_fill) auto
    then show ?thesis using False by (auto simp: sift_down.simps [of key xs hole])
  next
    case True
    note c = lchild_props [of hole xs, where key = key, OF conjunct1 [OF True]]
    let ?xs = "xs[hole := xs ! ?c]"
    have e: "edges_off key lo ?c ?xs" unfolding edges_off_def
    proof (intro allI impI)
      fix i
      assume i: "0 < i \<and> i < length ?xs \<and> lo \<le> par i \<and> i \<noteq> ?c \<and> par i \<noteq> ?c"
      then have ne: "par i \<noteq> i" using par_less [of i] by linarith
      show "key (?xs ! par i) \<le> key (?xs ! i)"
      proof (cases "i = hole")
        case True
        then show ?thesis using i ne "1.prems"(3) c(1-3) by (auto simp: above_def nth_list_update)
      next
        case False
        then show ?thesis using i "1.prems"(1,2) c(4) by (cases "par i = hole") (auto simp: edges_off_def)
      qed
    qed
    have a: "above key lo ?c ?xs" unfolding above_def
    proof (intro allI impI)
      fix i
      assume i: "0 < i \<and> i < length ?xs \<and> par i = ?c \<and> 0 < ?c \<and> lo \<le> par ?c"
      then have gt: "i > ?c" using par_less [of i] by metis
      have "key (xs ! par i) \<le> key (xs ! i)"
        using "1.prems"(2,5) i gt c(1) unfolding edges_off_def by (metis length_list_update less_irrefl less_trans nless_le order.trans)
      then show "key (?xs ! par ?c) \<le> key (?xs ! i)" using i gt "1.prems"(1) c by simp
    qed
    have "heap_from key lo (sift_down key ?xs ?c t)"
      using 1(1) [OF True] e a c "1.prems"(1,5) True by (auto simp: nth_list_update)
    then show ?thesis using True by (simp add: sift_down.simps [of key xs hole])
  qed
qed

lemma sift_up_heap:
  "hole < length xs \<Longrightarrow> edges_off key 0 hole xs \<Longrightarrow> above key 0 hole xs \<Longrightarrow>
   (\<And>i. 0 < i \<Longrightarrow> i < length xs \<Longrightarrow> par i = hole \<Longrightarrow> key t \<le> key (xs ! i)) \<Longrightarrow>
   heap_from key 0 (sift_up key xs hole t)"
proof (induction key xs hole t rule: sift_up.induct)
  case (1 key xs hole t)
  let ?p = "(hole - 1) div 2"
  show ?case
  proof (cases "0 < hole \<and> key t < key (xs ! ?p)")
    case False
    then have "heap_from key 0 (xs[hole := t])" using "1.prems" by (intro heap_from_fill) (auto simp: par_def)
    then show ?thesis using False by (auto simp: sift_up.simps [of key xs hole])
  next
    case True
    let ?xs = "xs[hole := xs ! ?p]"
    have p: "?p < hole" "par hole = ?p" using True by (auto simp: par_def)
    have off: "key (xs ! par i) \<le> key (xs ! i)" if "0 < i" "i < length xs" "i \<noteq> hole" "par i \<noteq> hole" for i
      using "1.prems"(2) that by (auto simp: edges_off_def)
    have e: "edges_off key 0 ?p ?xs" unfolding edges_off_def
    proof (intro allI impI)
      fix i
      assume i: "0 < i \<and> i < length ?xs \<and> 0 \<le> par i \<and> i \<noteq> ?p \<and> par i \<noteq> ?p"
      then show "key (?xs ! par i) \<le> key (?xs ! i)"
        using off [of i] p "1.prems"(1,3) True by (cases "par i = hole"; cases "i = hole") (auto simp: above_def)
    qed
    have below: "key (xs ! ?p) \<le> key (?xs ! i)" if "0 < i" "i < length xs" "par i = ?p" for i
      using off [of i] that p "1.prems"(1) by (cases "i = hole") auto
    have a: "above key 0 ?p ?xs" unfolding above_def
    proof (intro allI impI)
      fix i
      assume i: "0 < i \<and> i < length ?xs \<and> par i = ?p \<and> 0 < ?p \<and> 0 \<le> par ?p"
      then have lt: "par ?p < hole" using less_trans [OF par_less [of ?p] p(1)] by simp
      then have "key (xs ! par ?p) \<le> key (xs ! ?p)" using off [of ?p] p "1.prems"(1) i by auto
      moreover have "?xs ! par ?p = xs ! par ?p" using lt by simp
      ultimately show "key (?xs ! par ?p) \<le> key (?xs ! i)" using below [of i] i by simp
    qed
    have b: "key t \<le> key (?xs ! i)" if "0 < i" "i < length ?xs" "par i = ?p" for i
      using below [of i] that True by simp
    have "?p < length ?xs" using p(1) "1.prems"(1) by simp
    from 1(1) [OF True this e a b] show ?thesis using True by (simp add: sift_up.simps [of key xs hole])
  qed
qed

text \<open>The root of a heap is least.\<close>

lemma heap_root: "heap_from key 0 xs \<Longrightarrow> i < length xs \<Longrightarrow> key (xs ! 0) \<le> key (xs ! i)"
proof (induction i rule: less_induct)
  case (less i)
  show ?case
  proof (cases "i = 0")
    case False
    then have "key (xs ! par i) \<le> key (xs ! i)" using less.prems by (auto simp: heap_from_def)
    moreover have "par i < i" using False by simp
    ultimately show ?thesis using less.IH [of "par i"] less.prems by fastforce
  qed simp
qed

subsection \<open>The loops sift\<close>

definition key_of :: "(nat \<Rightarrow> heap_timer option) \<Rightarrow> nat \<Rightarrow> int" where
  "key_of m a = expire (the (m a))"

definition live :: "(nat \<Rightarrow> heap_timer option) \<Rightarrow> nat list \<Rightarrow> bool" where
  "live m xs \<longleftrightarrow> (\<forall>x \<in> set xs. m x \<noteq> None)"

lemma live_nth: "live m xs \<Longrightarrow> i < length xs \<Longrightarrow> m (xs ! i) \<noteq> None"
  by (simp add: live_def)

lemma live_update: "live m xs \<Longrightarrow> m t \<noteq> None \<Longrightarrow> live m (xs[i := t])"
  by (auto simp: live_def dest!: set_update_subset_insert [THEN subsetD])

lemma slot_expire_map:
  "live m xs \<Longrightarrow> i < length xs \<Longrightarrow> slot_expire m (map Some xs @ rest) i = Some (key_of m (xs ! i))"
  using live_nth [of m xs i] by (auto simp: slot_expire_def ptr_expire_def arr_get_def key_of_def nth_append)

lemma arr_put_map: "i < length xs \<Longrightarrow> arr_put (map Some xs @ rest) i (Some t) = Some (map Some (xs[i := t]) @ rest)"
  by (simp add: arr_put_def list_update_append map_update)

lemma arr_get_map: "i < length xs \<Longrightarrow> arr_get (map Some xs @ rest) i = Some (Some (xs ! i))"
  by (simp add: arr_get_def nth_append)

lemma least_child_map:
  "live m xs \<Longrightarrow> hole * 2 + 1 < length xs \<Longrightarrow>
   least_child m (map Some xs @ rest) (length xs) hole = Some (lchild (key_of m) xs hole)"
  by (simp add: least_child_def slot_expire_map lchild_def)

lemma down_loop_sifts:
  "hole < length xs \<Longrightarrow> live m xs \<Longrightarrow> m t \<noteq> None \<Longrightarrow>
   down_loop m (length xs) (map Some xs @ rest) hole (Some t) = Some (map Some (sift_down (key_of m) xs hole t) @ rest)"
proof (induction "key_of m" xs hole t rule: sift_down.induct)
  case (1 xs hole t)
  let ?c = "lchild (key_of m) xs hole" and ?a = "map Some xs @ rest"
  have t: "ptr_expire m (Some t) = Some (key_of m t)" using "1.prems"(3) by (auto simp: ptr_expire_def key_of_def)
  show ?case
  proof (cases "hole * 2 + 1 < length xs")
    case False
    then show ?thesis using "1.prems"(1) by (simp add: down_loop.simps [of m _ ?a] sift_down.simps [of _ xs hole] arr_put_map)
  next
    case True
    note c = lchild_props [OF True, where key = "key_of m"]
    show ?thesis
    proof (cases "key_of m (xs ! ?c) < key_of m t")
      case lt: True
      have "live m (xs[hole := xs ! ?c])" using live_update live_nth "1.prems"(2) c(2) by blast
      then show ?thesis using 1(1) [of] True lt "1.prems" c(2) t
        by (simp add: down_loop.simps [of m _ ?a] sift_down.simps [of _ xs hole] arr_put_map arr_get_map least_child_map slot_expire_map)
    next
      case False
      then show ?thesis using True "1.prems" c(2) t
        by (simp add: down_loop.simps [of m _ ?a] sift_down.simps [of _ xs hole] arr_put_map least_child_map slot_expire_map)
    qed
  qed
qed

lemma up_loop_sifts:
  "hole < length xs \<Longrightarrow> live m xs \<Longrightarrow> m t \<noteq> None \<Longrightarrow>
   up_loop m (map Some xs @ rest) hole t = Some (map Some (sift_up (key_of m) xs hole t) @ rest)"
proof (induction "key_of m" xs hole t rule: sift_up.induct)
  case (1 xs hole t)
  let ?p = "(hole - 1) div 2" and ?a = "map Some xs @ rest"
  have t: "ptr_expire m (Some t) = Some (key_of m t)" using "1.prems"(3) by (auto simp: ptr_expire_def key_of_def)
  have p: "?p < length xs" using "1.prems"(1) by auto
  show ?case
  proof (cases "0 < hole \<and> key_of m t < key_of m (xs ! ?p)")
    case True
    have "live m (xs[hole := xs ! ?p])" using live_update live_nth "1.prems"(2) p by blast
    then show ?thesis using 1(1) [OF True] True "1.prems" p t
      by (simp add: Let_def up_loop.simps [of m ?a] sift_up.simps [of _ xs hole] arr_put_map arr_get_map slot_expire_map)
  next
    case False
    then show ?thesis using "1.prems" p t
      by (auto simp: up_loop.simps [of m ?a] sift_up.simps [of _ xs hole] arr_put_map slot_expire_map)
  qed
qed

text \<open>What is in the hole does not matter.\<close>

lemma up_loop_hole:
  assumes "hole < length a"
  shows "up_loop m (a[hole := q]) hole t = up_loop m a hole t"
proof (cases "hole = 0")
  case True
  then show ?thesis using assms by (simp add: up_loop.simps arr_put_def)
next
  case False
  then have "arr_get (a[hole := q]) ((hole - 1) div 2) = arr_get a ((hole - 1) div 2)" by (auto simp: arr_get_def)
  moreover have "arr_put (a[hole := q]) hole v = arr_put a hole v" for v by (simp add: arr_put_def)
  ultimately show ?thesis by (simp only: up_loop.simps [of m _ hole] slot_expire_def Let_def)
qed

subsection \<open>The heap invariant\<close>

definition heap_inv :: "time_heap \<Rightarrow> nat list \<Rightarrow> bool" where
  "heap_inv h xs \<longleftrightarrow> (\<exists>rest. arr h = map Some xs @ rest) \<and> length (arr h) = capacity h \<and> 0 < capacity h \<and>
     cur_size h = length xs \<and> live (objs h) xs \<and> distinct xs \<and> heap_from (key_of (objs h)) 0 xs"

lemma heap_invE:
  assumes "heap_inv h xs"
  obtains rest where "arr h = map Some xs @ rest" "length xs + length rest = capacity h" "0 < capacity h"
    "cur_size h = length xs" "live (objs h) xs" "distinct xs" "heap_from (key_of (objs h)) 0 xs"
  using assms by (auto simp: heap_inv_def)

lemma percolate_down_sifts:
  assumes "arr h = map Some xs @ rest" "cur_size h = length xs" "hole < length xs" "live (objs h) xs"
  shows "percolate_down h hole = Some (h\<lparr>arr := map Some (sift_down (key_of (objs h)) xs hole (xs ! hole)) @ rest\<rparr>)"
  using down_loop_sifts [OF assms(3,4) live_nth [OF assms(4,3)], of rest] assms
  by (simp add: percolate_down_def arr_get_map)

lemma live_mset: "mset ys = mset xs \<Longrightarrow> live m ys \<longleftrightarrow> live m xs"
  by (metis live_def set_mset_mset)

lemma heap_from_edges_off: "heap_from key (Suc i) xs \<Longrightarrow> edges_off key i i xs"
  by (auto simp: heap_from_def edges_off_def)

lemma heapify_ok:
  assumes "arr h = map Some xs @ rest" "cur_size h = length xs" "live (objs h) xs" "i < length xs"
    "heap_from (key_of (objs h)) (Suc i) xs"
  shows "\<exists>ys. heapify h i = Some (h\<lparr>arr := map Some ys @ rest\<rparr>) \<and> mset ys = mset xs \<and> heap_from (key_of (objs h)) 0 ys"
  using assms
proof (induction i arbitrary: h xs)
  case 0
  let ?ys = "sift_down (key_of (objs h)) xs 0 (xs ! 0)"
  have "heap_from (key_of (objs h)) 0 ?ys"
    using "0.prems"(4) heap_from_edges_off [OF "0.prems"(5)] by (intro sift_down_heap) (auto simp: above_def)
  then show ?case using percolate_down_sifts [OF "0.prems"(1,2,4,3)] mset_sift_down [OF "0.prems"(4), of "key_of (objs h)" "xs ! 0"]
    by (intro exI [of _ ?ys]) simp
next
  case (Suc i)
  let ?k = "key_of (objs h)" and ?ys = "sift_down (key_of (objs h)) xs (Suc i) (xs ! Suc i)"
  have ys: "heap_from ?k (Suc i) ?ys"
    using Suc.prems(4) heap_from_edges_off [OF Suc.prems(5)]
    by (intro sift_down_heap) (auto simp: above_def not_le [THEN iffD2, OF par_less])
  have m: "mset ?ys = mset xs" using mset_sift_down [OF Suc.prems(4), of ?k "xs ! Suc i"] by simp
  let ?h = "h\<lparr>arr := map Some ?ys @ rest\<rparr>"
  have "live (objs ?h) ?ys" "cur_size ?h = length ?ys" using live_mset [OF m] Suc.prems(2,3) by auto
  with Suc.IH [of ?h ?ys] ys Suc.prems(4) m show ?case
    using percolate_down_sifts [OF Suc.prems(1,2,4,3)] by auto
qed

lemma heap_from_start: "(length xs - 1) div 2 < i \<Longrightarrow> heap_from key i xs"
  by (auto simp: heap_from_def par_def)

lemma time_heap_init_ok:
  assumes "live m xs" "distinct xs" "length xs \<le> cap" "0 < cap"
  shows "\<exists>h ys. time_heap_init m (map Some xs) (length xs) cap = Some h \<and> objs h = m \<and> heap_inv h ys \<and> mset ys = mset xs"
proof (cases "xs = []")
  case True
  then show ?thesis using assms by (auto simp: time_heap_init_def heap_inv_def heap_from_def live_def)
next
  case False
  let ?i = "(length xs - 1) div 2" and ?r = "replicate (cap - length xs) None"
  let ?h = "\<lparr>objs = m, arr = map Some xs @ ?r, capacity = cap, cur_size = length xs\<rparr>"
  have "?i < length xs" using False by (cases xs) auto
  from heapify_ok [of ?h xs ?r, OF _ _ _ this heap_from_start] assms(1) obtain ys where
    ys: "heapify ?h ?i = Some (?h\<lparr>arr := map Some ys @ ?r\<rparr>)" "mset ys = mset xs" "heap_from (key_of m) 0 ys" by auto
  have "length ys = length xs" "distinct ys" "live m ys"
    using mset_eq_length [OF ys(2)] mset_eq_imp_distinct_iff [OF ys(2)] live_mset [OF ys(2)] assms(1,2) by auto
  then have "heap_inv (?h\<lparr>arr := map Some ys @ ?r\<rparr>) ys" using ys(3) assms(3,4) by (auto simp: heap_inv_def)
  then show ?thesis using ys(1,2) False assms(3) by (auto simp: time_heap_init_def)
qed

lemma resize_ok:
  assumes "heap_inv h xs"
  shows "\<exists>h'. resize h = Some h' \<and> heap_inv h' xs \<and> objs h' = objs h \<and> capacity h' = 2 * capacity h"
  using assms by (auto simp: heap_inv_def resize_def)

lemma heap_add_room:
  assumes "heap_inv h xs" "cur_size h < capacity h" "objs h t \<noteq> None" "t \<notin> set xs"
  shows "\<exists>a ys. up_loop (objs h) (arr h) (cur_size h) t = Some a \<and>
    heap_inv (h\<lparr>arr := a, cur_size := cur_size h + 1\<rparr>) ys \<and> mset ys = add_mset t (mset xs)"
proof -
  from assms(1) obtain rest where r: "arr h = map Some xs @ rest" "length xs + length rest = capacity h" "0 < capacity h"
    "cur_size h = length xs" "live (objs h) xs" "distinct xs" "heap_from (key_of (objs h)) 0 xs" by (rule heap_invE)
  then obtain q rest' where q: "rest = q # rest'" using assms(2) by (cases rest) auto
  let ?k = "key_of (objs h)" and ?ys = "sift_up (key_of (objs h)) (xs @ [t]) (length xs) t"
  have a: "(arr h)[length xs := Some t] = map Some (xs @ [t]) @ rest'" using r(1) q by (simp add: list_update_append)
  have l: "live (objs h) (xs @ [t])" using r(5) assms(3) by (auto simp: live_def)
  have "up_loop (objs h) (arr h) (length xs) t = up_loop (objs h) (map Some (xs @ [t]) @ rest') (length xs) t"
    using up_loop_hole [of "length xs" "arr h" "objs h" "Some t" t] a r(1) q by simp
  also have "\<dots> = Some (map Some ?ys @ rest')" by (rule up_loop_sifts) (use l assms(3) in auto)
  finally have u: "up_loop (objs h) (arr h) (cur_size h) t = Some (map Some ?ys @ rest')" using r(4) by simp
  have m: "mset ?ys = add_mset t (mset xs)" using mset_sift_up [of "length xs" "xs @ [t]" ?k t] by simp
  have no: "par i \<noteq> length xs" if "0 < i" "i < length (xs @ [t])" for i
    using par_less [OF that(1)] that(2) by simp
  have "?k ((xs @ [t]) ! par i) \<le> ?k ((xs @ [t]) ! i)" if "0 < i" "i < length xs" for i
    using r(7) that less_trans [OF par_less that(2)] by (auto simp: heap_from_def nth_append)
  then have "edges_off ?k 0 (length xs) (xs @ [t])" by (auto simp: edges_off_def)
  moreover have "above ?k 0 (length xs) (xs @ [t])" using no by (auto simp: above_def)
  ultimately have "heap_from ?k 0 ?ys" using no by (intro sift_up_heap) auto
  moreover have "distinct ?ys" "live (objs h) ?ys"
    using m r(6) assms(4) l live_mset [of ?ys "xs @ [t]"] mset_eq_imp_distinct_iff [of ?ys "xs @ [t]"] by auto
  ultimately have "heap_inv (h\<lparr>arr := map Some ?ys @ rest', cur_size := cur_size h + 1\<rparr>) ?ys"
    using r q by (auto simp: heap_inv_def)
  then show ?thesis using u m by blast
qed

lemma heap_add_ok:
  assumes "heap_inv h xs" "objs h t \<noteq> None" "t \<notin> set xs"
  shows "\<exists>h' ys. heap_add_timer h (Some t) = Some h' \<and> heap_inv h' ys \<and> mset ys = add_mset t (mset xs) \<and> objs h' = objs h"
proof -
  obtain h1 where h1: "(if cur_size h \<ge> capacity h then resize h else Some h) = Some h1" "heap_inv h1 xs" "objs h1 = objs h"
      "cur_size h1 < capacity h1"
  proof (cases "cur_size h \<ge> capacity h")
    case True
    then obtain h' where h': "resize h = Some h'" "heap_inv h' xs" "objs h' = objs h" "capacity h' = 2 * capacity h"
      using resize_ok [OF assms(1)] by blast
    have "cur_size h' < capacity h'" using h'(2,4) assms(1) by (auto simp: heap_inv_def)
    then show thesis using that True h' by simp
  next
    case False
    then show thesis using that [of h] assms(1) by simp
  qed
  obtain a ys where a: "up_loop (objs h1) (arr h1) (cur_size h1) t = Some a"
      "heap_inv (h1\<lparr>arr := a, cur_size := cur_size h1 + 1\<rparr>) ys" "mset ys = add_mset t (mset xs)"
    using heap_add_room [OF h1(2,4), of t] assms(2,3) h1(3) by auto
  have "heap_add_timer h (Some t) = Some (h1\<lparr>arr := a, cur_size := cur_size h1 + 1\<rparr>)"
    using h1(1) a(1) by (simp add: heap_add_timer_def)
  then show ?thesis using a(2,3) h1(3) by auto
qed

lemma heap_del_ok:
  assumes "heap_inv h xs" "objs h t = Some n"
  shows "\<exists>h'. heap_del_timer h (Some t) = Some h' \<and> heap_inv h' xs \<and> objs h' = (objs h)(t \<mapsto> n\<lparr>cb_func := False\<rparr>)"
proof -
  have "key_of ((objs h)(t \<mapsto> n\<lparr>cb_func := False\<rparr>)) = key_of (objs h)" using assms(2) by (auto simp: key_of_def)
  then show ?thesis using assms by (auto simp: heap_del_timer_def heap_inv_def live_def)
qed

text \<open>\<open>pop_timer\<close> deletes the root and moves the last timer down from there.\<close>

lemma heap_from_cong:
  "\<forall>x \<in> set xs. key' x = key x \<Longrightarrow> edges_off key' lo hole xs \<longleftrightarrow> edges_off key lo hole xs"
  by (auto simp: edges_off_def par_def)

lemma pop_edges:
  assumes "heap_from key 0 (x # zs)" "zs \<noteq> []"
  shows "edges_off key 0 0 (last zs # butlast zs)"
  unfolding edges_off_def
proof (intro allI impI)
  fix i
  assume i: "0 < i \<and> i < length (last zs # butlast zs) \<and> 0 \<le> par i \<and> i \<noteq> 0 \<and> par i \<noteq> 0"
  have same: "(last zs # butlast zs) ! j = (x # zs) ! j" if "0 < j" "j < length zs" for j
    using that by (cases j) (auto simp: nth_butlast)
  have len: "i < length zs" "par i < length zs" using i assms(2) less_trans [OF par_less [of i], of "length zs"] by auto
  then have "key ((x # zs) ! par i) \<le> key ((x # zs) ! i)" using i assms(1) by (auto simp: heap_from_def)
  then show "key ((last zs # butlast zs) ! par i) \<le> key ((last zs # butlast zs) ! i)"
    using same [of i] same [of "par i"] i len by simp
qed

lemma pop_timer_ok:
  assumes "heap_inv h (x # zs)"
  shows "\<exists>h' ys. pop_timer h = Some h' \<and> heap_inv h' ys \<and> mset ys = mset zs \<and> objs h' = (objs h)(x := None)"
proof -
  from assms obtain rest where r: "arr h = map Some (x # zs) @ rest" "length (x # zs) + length rest = capacity h"
    "0 < capacity h" "cur_size h = length (x # zs)" "live (objs h) (x # zs)" "distinct (x # zs)"
    "heap_from (key_of (objs h)) 0 (x # zs)" by (rule heap_invE)
  let ?m = "(objs h)(x := None)"
  have x: "objs h x \<noteq> None" using r(5) by (simp add: live_def)
  show ?thesis
  proof (cases zs rule: rev_cases)
    case Nil
    then have "pop_timer h = Some (h\<lparr>objs := ?m, cur_size := 0\<rparr>)"
      using r(1,4) x by (auto simp: pop_timer_def heap_empty_def arr_get_def arr_put_def percolate_down_def down_loop.simps)
    moreover have "heap_inv (h\<lparr>objs := ?m, cur_size := 0\<rparr>) []" using r(1-3) by (auto simp: heap_inv_def live_def heap_from_def)
    ultimately show ?thesis using Nil by auto
  next
    case (snoc us z)
    let ?h = "h\<lparr>objs := ?m, cur_size := length zs, arr := map Some (z # us) @ Some z # rest\<rparr>"
    let ?ys = "sift_down (key_of ?m) (z # us) 0 z"
    have len: "length (z # us) = length zs" using snoc by simp
    have l: "live ?m (z # us)" using r(5,6) snoc by (auto simp: live_def)
    have "pop_timer h = percolate_down ?h 0"
      using r(1,4) x snoc by (auto simp: pop_timer_def heap_empty_def arr_get_def arr_put_def nth_append)
    also have "\<dots> = Some (?h\<lparr>arr := map Some ?ys @ Some z # rest\<rparr>)"
      using percolate_down_sifts [of ?h "z # us" "Some z # rest" 0] l len by simp
    finally have p: "pop_timer h = Some (?h\<lparr>arr := map Some ?ys @ Some z # rest\<rparr>)" .
    have m: "mset ?ys = mset zs" using mset_sift_down [of 0 "z # us" "key_of ?m" z] snoc by simp
    have "edges_off (key_of (objs h)) 0 0 (z # us)" using pop_edges [OF r(7)] snoc by simp
    moreover have "\<forall>a \<in> set (z # us). key_of ?m a = key_of (objs h) a" using r(6) snoc by (auto simp: key_of_def)
    ultimately have "edges_off (key_of ?m) 0 0 (z # us)" using heap_from_cong by metis
    then have "heap_from (key_of ?m) 0 ?ys" by (intro sift_down_heap) (auto simp: above_def)
    moreover have "live ?m ?ys" "distinct ?ys"
      using l m r(6) live_mset [OF m, of ?m] live_mset [of "z # us" zs ?m] snoc mset_eq_imp_distinct_iff [OF m] by auto
    ultimately have "heap_inv (?h\<lparr>arr := map Some ?ys @ Some z # rest\<rparr>) ?ys" using r(2,3) len by (auto simp: heap_inv_def)
    then show ?thesis using p m by auto
  qed
qed

subsection \<open>Ticking\<close>

definition obj :: "(nat \<Rightarrow> heap_timer option) \<Rightarrow> nat \<Rightarrow> nat \<times> heap_timer" where
  "obj m a = (a, the (m a))"

definition expired :: "(nat \<Rightarrow> heap_timer option) \<Rightarrow> int \<Rightarrow> nat \<Rightarrow> bool" where
  "expired m cur a \<longleftrightarrow> key_of m a \<le> cur"

definition armed :: "(nat \<Rightarrow> heap_timer option) \<Rightarrow> nat \<Rightarrow> bool" where
  "armed m a \<longleftrightarrow> cb_func (the (m a))"

lemma heap_inv_root:
  assumes "heap_inv h (x # zs)" "y \<in> set zs"
  shows "key_of (objs h) x \<le> key_of (objs h) y"
proof -
  obtain i where "i < length zs" "zs ! i = y" using assms(2) by (auto simp: in_set_conv_nth)
  then show ?thesis using heap_root [of "key_of (objs h)" "x # zs" "Suc i"] assms(1) by (auto simp: heap_inv_def)
qed

definition ticked :: "int \<Rightarrow> time_heap \<Rightarrow> nat list \<Rightarrow> (nat \<times> heap_timer) list \<Rightarrow> time_heap \<Rightarrow> bool" where
  "ticked cur h xs fs h' \<longleftrightarrow> (\<exists>ys. heap_inv h' ys \<and> mset ys = filter_mset (\<lambda>a. \<not> expired (objs h) cur a) (mset xs)) \<and>
     mset fs = image_mset (obj (objs h)) (filter_mset (\<lambda>a. expired (objs h) cur a \<and> armed (objs h) a) (mset xs)) \<and>
     sorted (map (expire \<circ> snd) fs) \<and> objs h' = (\<lambda>a. if a \<in> set xs \<and> expired (objs h) cur a then None else objs h a)"

lemma ticked_step:
  assumes "heap_inv h (x # zs)" "expired (objs h) cur x" "mset ys = mset zs" "objs h1 = (objs h)(x := None)"
    "ticked cur h1 ys fs h'"
  shows "ticked cur h (x # zs) (if armed (objs h) x then obj (objs h) x # fs else fs) h'"
proof -
  have x: "x \<notin> set ys" using assms(1) mset_eq_setD [OF assms(3)] by (auto simp: heap_inv_def)
  have same: "expired (objs h1) cur a = expired (objs h) cur a" "armed (objs h1) a = armed (objs h) a"
      "obj (objs h1) a = obj (objs h) a" if "a \<in># mset ys" for a
    using that x assms(4) by (auto simp: expired_def armed_def obj_def key_of_def)
  have e: "filter_mset (\<lambda>a. \<not> expired (objs h1) cur a) (mset ys) = filter_mset (\<lambda>a. \<not> expired (objs h) cur a) (mset ys)"
    "filter_mset (\<lambda>a. expired (objs h1) cur a \<and> armed (objs h1) a) (mset ys) =
       filter_mset (\<lambda>a. expired (objs h) cur a \<and> armed (objs h) a) (mset ys)"
    using same by (auto intro: filter_mset_cong)
  have i: "image_mset (obj (objs h1)) (filter_mset P (mset ys)) = image_mset (obj (objs h)) (filter_mset P (mset ys))" for P
    using same(3) by (intro image_mset_cong) auto
  have "expire (snd (obj (objs h) x)) \<le> expire (snd f)" if "f \<in> set fs" for f
  proof -
    have "f \<in># image_mset (obj (objs h)) (filter_mset (\<lambda>a. expired (objs h) cur a \<and> armed (objs h) a) (mset ys))"
      using that assms(5) e i by (metis set_mset_mset ticked_def)
    then show ?thesis
      using heap_inv_root [OF assms(1)] mset_eq_setD [OF assms(3)] by (auto simp: obj_def key_of_def)
  qed
  then show ?thesis using assms(2-5) e i mset_eq_setD [OF assms(3)] x
    by (auto simp: ticked_def same fun_eq_iff expired_def key_of_def)
qed

lemma heap_inv_slot: "heap_inv h xs \<Longrightarrow> arr_get (arr h) 0 = Some (arr h ! 0)"
  by (auto simp: heap_inv_def arr_get_def)

lemma tick_loop_ok:
  "heap_inv h xs \<Longrightarrow> arr_get (arr h) 0 = Some p \<Longrightarrow> \<exists>fs h'. tick_loop cur p h = Some (fs, h') \<and> ticked cur h xs fs h'"
proof (induction "length xs" arbitrary: h xs p)
  case 0
  then have "xs = []" "heap_empty h" by (auto simp: heap_inv_def heap_empty_def)
  then show ?case using 0 by (auto simp: tick_loop.simps ticked_def)
next
  case (Suc k)
  then obtain x zs where xs: "xs = x # zs" by (cases xs) auto
  have h: "\<not> heap_empty h" "p = Some x" "objs h x \<noteq> None"
    using Suc.prems xs by (auto simp: heap_inv_def heap_empty_def arr_get_def live_def split: if_splits)
  then obtain n where n: "objs h x = Some n" by auto
  show ?case
  proof (cases "expired (objs h) cur x")
    case False
    then have no: "\<not> expired (objs h) cur a" if "a \<in> set xs" for a
      using that heap_inv_root [of h x zs] Suc.prems(1) xs by (fastforce simp: expired_def)
    have "tick_loop cur p h = Some ([], h)" using False h n by (simp add: tick_loop.simps expired_def key_of_def)
    moreover have "filter_mset (\<lambda>a. \<not> expired (objs h) cur a) (mset xs) = mset xs"
        "filter_mset (\<lambda>a. expired (objs h) cur a \<and> armed (objs h) a) (mset xs) = {#}"
      using no by (auto simp: filter_mset_eq_conv filter_mset_False intro: filter_mset_cong [THEN trans])
    ultimately show ?thesis using no Suc.prems(1) by (auto simp: ticked_def fun_eq_iff)
  next
    case True
    obtain h1 ys where h1: "pop_timer h = Some h1" "heap_inv h1 ys" "mset ys = mset zs" "objs h1 = (objs h)(x := None)"
      using pop_timer_ok [of h x zs] Suc.prems(1) xs by auto
    obtain q where q: "arr_get (arr h1) 0 = Some q" using heap_inv_slot [OF h1(2)] by blast
    have "k = length ys" using Suc.hyps(2) xs mset_eq_length [OF h1(3)] by simp
    from Suc.hyps(1) [OF this h1(2) q] obtain fs h' where f: "tick_loop cur q h1 = Some (fs, h')" "ticked cur h1 ys fs h'" by blast
    have "tick_loop cur p h = Some (if armed (objs h) x then obj (objs h) x # fs else fs, h')"
      using True h n h1(1) q f(1) Suc.prems(2)
      by (simp add: tick_loop.simps [of cur "Some x" h] expired_def key_of_def armed_def obj_def)
    then show ?thesis using ticked_step [OF _ True h1(3,4) f(2)] Suc.prems(1) xs by auto
  qed
qed

lemma heap_tick_ok: "heap_inv h xs \<Longrightarrow> \<exists>fs h'. heap_tick h cur = Some (fs, h') \<and> ticked cur h xs fs h'"
  using tick_loop_ok [OF _ heap_inv_slot] heap_inv_slot by (simp add: heap_tick_def)

subsection \<open>The heap is a timer queue\<close>

definition entry :: "nat \<times> heap_timer \<Rightarrow> int \<times> nat \<times> nat" where
  "entry x = (expire (snd x), fst x, user_data (snd x))"

definition heap_content :: "time_heap \<Rightarrow> (int \<times> nat \<times> nat) multiset \<Rightarrow> bool" where
  "heap_content h M \<longleftrightarrow> (\<exists>xs. heap_inv h xs \<and> dom (objs h) = set xs \<and>
     M = image_mset (entry \<circ> obj (objs h)) (filter_mset (armed (objs h)) (mset xs)))"

definition heap_ready :: "time_heap \<Rightarrow> int \<times> nat \<times> nat \<Rightarrow> bool" where
  "heap_ready h x \<longleftrightarrow> objs h (fst (snd x)) = None"

text \<open>Creating a timer at the address \<open>a\<close> and adding it; running \<open>tick\<close>.\<close>

definition heap_add :: "time_heap \<Rightarrow> int \<times> nat \<times> nat \<Rightarrow> time_heap option" where
  "heap_add h x = (case x of (e, a, u) \<Rightarrow>
     heap_add_timer (h\<lparr>objs := (objs h)(a \<mapsto> \<lparr>expire = e, cb_func = True, user_data = u\<rparr>)\<rparr>) (Some a))"

definition heap_run :: "time_heap \<Rightarrow> int \<Rightarrow> ((int \<times> nat \<times> nat) list \<times> time_heap) option" where
  "heap_run h cur = do { (fs, h) \<leftarrow> heap_tick h cur; Some (map entry fs, h) }"

lemma heap_inv_new_obj:
  assumes "heap_inv h xs" "a \<notin> set xs"
  shows "heap_inv (h\<lparr>objs := (objs h)(a \<mapsto> n)\<rparr>) xs"
proof -
  have "key_of ((objs h)(a \<mapsto> n)) (xs ! i) = key_of (objs h) (xs ! i)" if "i < length xs" for i
    using that assms(2) by (auto simp: key_of_def)
  then have "heap_from (key_of ((objs h)(a \<mapsto> n))) 0 xs"
    using assms(1) less_trans [OF par_less] by (simp add: heap_inv_def heap_from_def)
  then show ?thesis using assms by (auto simp: heap_inv_def live_def)
qed

lemma heap_content_add:
  assumes "heap_content h M" "heap_ready h x"
  shows "\<exists>h'. heap_add h x = Some h' \<and> heap_content h' (add_mset x M)"
proof -
  obtain e a u where x: "x = (e, a, u)" by (cases x)
  obtain xs where xs: "heap_inv h xs" "dom (objs h) = set xs"
      "M = image_mset (entry \<circ> obj (objs h)) (filter_mset (armed (objs h)) (mset xs))"
    using assms(1) by (auto simp: heap_content_def)
  have a: "a \<notin> set xs" using assms(2) xs(2) x by (auto simp: heap_ready_def)
  let ?m = "(objs h)(a \<mapsto> \<lparr>expire = e, cb_func = True, user_data = u\<rparr>)"
  let ?h = "h\<lparr>objs := ?m\<rparr>"
  obtain h' ys where h': "heap_add_timer ?h (Some a) = Some h'" "heap_inv h' ys" "mset ys = add_mset a (mset xs)" "objs h' = ?m"
    using heap_add_ok [OF heap_inv_new_obj [OF xs(1) a, of "\<lparr>expire = e, cb_func = True, user_data = u\<rparr>"], of a] a by auto
  have "filter_mset (armed ?m) (mset xs) = filter_mset (armed (objs h)) (mset xs)"
    using a by (intro filter_mset_cong) (auto simp: armed_def)
  moreover have "image_mset (entry \<circ> obj ?m) (filter_mset (armed (objs h)) (mset xs)) = M"
    unfolding xs(3) using a by (intro image_mset_cong) (auto simp: obj_def)
  moreover have "armed ?m a" "entry (obj ?m a) = x" using x by (auto simp: armed_def obj_def entry_def)
  ultimately have "add_mset x M = image_mset (entry \<circ> obj ?m) (filter_mset (armed ?m) (mset ys))"
    using h'(3) by simp
  moreover have "set ys = insert a (set xs)" using h'(3) by (metis set_mset_add_mset_insert set_mset_mset)
  then have "dom (objs h') = set ys" using xs(2) h'(4) by auto
  ultimately show ?thesis using h' x by (auto simp: heap_content_def heap_add_def)
qed

lemma heap_content_tick:
  assumes "heap_content h M"
  shows "\<exists>fs h'. heap_run h cur = Some (fs, h') \<and> sorted (map fst fs) \<and>
      mset fs = filter_mset (\<lambda>x. fst x \<le> cur) M \<and> heap_content h' (filter_mset (\<lambda>x. cur < fst x) M)"
proof -
  obtain xs where xs: "heap_inv h xs" "dom (objs h) = set xs"
      "M = image_mset (entry \<circ> obj (objs h)) (filter_mset (armed (objs h)) (mset xs))"
    using assms(1) by (auto simp: heap_content_def)
  obtain fs h' where f: "heap_tick h cur = Some (fs, h')" "ticked cur h xs fs h'" using heap_tick_ok [OF xs(1)] by blast
  then obtain ys where ys: "heap_inv h' ys" "mset ys = filter_mset (\<lambda>a. \<not> expired (objs h) cur a) (mset xs)"
      "objs h' = (\<lambda>a. if a \<in> set xs \<and> expired (objs h) cur a then None else objs h a)" by (auto simp: ticked_def)
  have ex: "fst ((entry \<circ> obj (objs h)) a) \<le> cur \<longleftrightarrow> expired (objs h) cur a" for a
    by (simp add: entry_def obj_def expired_def key_of_def)
  have "sorted (map fst (map entry fs))" using f(2) by (simp add: ticked_def entry_def comp_def)
  moreover have "mset (map entry fs) = filter_mset (\<lambda>x. fst x \<le> cur) M"
    using f(2) ex unfolding xs(3) ticked_def
    by (simp add: filter_mset_image_mset filter_filter_mset image_mset.compositionality conj_commute)
  moreover have set: "set ys = {a \<in> set xs. \<not> expired (objs h) cur a}" using arg_cong [OF ys(2), of set_mset] by auto
  have "dom (objs h') = dom (objs h) \<inter> {a. \<not> (a \<in> set xs \<and> expired (objs h) cur a)}"
    unfolding ys(3) by (auto split: if_splits)
  then have "dom (objs h') = set ys" using set xs(2) by auto
  moreover have "filter_mset (\<lambda>x. cur < fst x) M = image_mset (entry \<circ> obj (objs h)) (filter_mset (armed (objs h)) (mset ys))"
    using ex unfolding xs(3) ys(2) by (simp add: filter_mset_image_mset filter_filter_mset not_le [symmetric] conj_commute)
  moreover have "filter_mset (armed (objs h')) (mset ys) = filter_mset (armed (objs h)) (mset ys)"
    using set ys(3) by (intro filter_mset_cong) (auto simp: armed_def)
  moreover have "image_mset (entry \<circ> obj (objs h')) (filter_mset (armed (objs h)) (mset ys)) =
      image_mset (entry \<circ> obj (objs h)) (filter_mset (armed (objs h)) (mset ys))"
    using set ys(3) by (intro image_mset_cong) (auto simp: obj_def)
  ultimately show ?thesis using f(1) ys(1) by (fastforce simp: heap_run_def heap_content_def)
qed

interpretation theap: timer_queue heap_content heap_ready heap_add heap_run
  by unfold_locales (auto intro: heap_content_add heap_content_tick)

lemma heap_content_new: "0 < cap \<Longrightarrow> heap_content (time_heap_new Map.empty cap) {#}"
  by (auto simp: heap_content_def heap_inv_def time_heap_new_def live_def heap_from_def)

lemma delete_slots_ok:
  "distinct xs \<Longrightarrow> live m xs \<Longrightarrow> delete_slots m (map Some xs) = Some (\<lambda>a. if a \<in> set xs then None else m a)"
proof (induction xs arbitrary: m)
  case (Cons x xs)
  then have "live (m(x := None)) xs" by (auto simp: live_def)
  then show ?case using Cons by (auto simp: live_def fun_eq_iff)
qed simp

subsection \<open>Whole runs\<close>

text \<open>A program's calls: \<open>new heap_timer\<close> at an address with \<open>add_timer\<close>, \<open>del_timer\<close>, and \<open>tick\<close> at a time.
  \<open>heap_ops\<close> makes them one after the other and logs what every \<open>tick\<close> runs; it is \<open>None\<close> as soon as one fails.\<close>

datatype heap_op = Op_add int nat nat | Op_del nat | Op_tick int

fun heap_ops :: "time_heap \<Rightarrow> heap_op list \<Rightarrow> ((int \<times> (nat \<times> heap_timer) list) list \<times> time_heap) option" where
  "heap_ops h [] = Some ([], h)"
| "heap_ops h (Op_add e a u # ops) = do { h \<leftarrow> heap_add h (e, a, u); heap_ops h ops }"
| "heap_ops h (Op_del a # ops) = do { h \<leftarrow> heap_del_timer h (Some a); heap_ops h ops }"
| "heap_ops h (Op_tick cur # ops) = do { (fs, h) \<leftarrow> heap_tick h cur; (log, h) \<leftarrow> heap_ops h ops; Some ((cur, fs) # log, h) }"

text \<open>What they promise, over the map of the timers that exist: \<open>del_timer\<close> disarms, \<open>tick\<close> removes what is
  due and runs the armed ones of it.  Allowed are an addition at an address that is not in use, which is what \<open>new\<close>
  returns, and the deletion of a timer that exists.\<close>

fun spec_op :: "(nat \<Rightarrow> heap_timer option) \<Rightarrow> heap_op \<Rightarrow> nat \<Rightarrow> heap_timer option" where
  "spec_op m (Op_add e a u) = m(a \<mapsto> \<lparr>expire = e, cb_func = True, user_data = u\<rparr>)"
| "spec_op m (Op_del a) = m(a := map_option (\<lambda>n. n\<lparr>cb_func := False\<rparr>) (m a))"
| "spec_op m (Op_tick cur) = (\<lambda>a. case m a of None \<Rightarrow> None | Some n \<Rightarrow> if expire n \<le> cur then None else Some n)"

fun ops_allowed :: "(nat \<Rightarrow> heap_timer option) \<Rightarrow> heap_op list \<Rightarrow> bool" where
  "ops_allowed m [] = True"
| "ops_allowed m (op # ops) = ((case op of Op_add e a u \<Rightarrow> m a = None | Op_del a \<Rightarrow> m a \<noteq> None | Op_tick cur \<Rightarrow> True) \<and>
     ops_allowed (spec_op m op) ops)"

text \<open>The maps each \<open>tick\<close> of the run starts from, and the report it owes there.\<close>

fun tick_starts :: "(nat \<Rightarrow> heap_timer option) \<Rightarrow> heap_op list \<Rightarrow> (int \<times> (nat \<Rightarrow> heap_timer option)) list" where
  "tick_starts m [] = []"
| "tick_starts m (op # ops) = (case op of Op_tick cur \<Rightarrow> (\<lambda>xs. (cur, m) # xs) | _ \<Rightarrow> id) (tick_starts (spec_op m op) ops)"

definition tick_report :: "int \<times> (nat \<times> heap_timer) list \<Rightarrow> int \<times> (nat \<Rightarrow> heap_timer option) \<Rightarrow> bool" where
  "tick_report r s \<longleftrightarrow> fst r = fst s \<and> distinct (snd r) \<and> sorted (map (expire \<circ> snd) (snd r)) \<and>
     set (snd r) = {(a, n). snd s a = Some n \<and> expire n \<le> fst s \<and> cb_func n}"

definition heap_all :: "time_heap \<Rightarrow> (nat \<Rightarrow> heap_timer option) \<Rightarrow> bool" where
  "heap_all h m \<longleftrightarrow> objs h = m \<and> (\<exists>xs. heap_inv h xs \<and> set xs = dom m)"

lemma heap_all_add:
  assumes "heap_all h m" "m a = None"
  shows "\<exists>h'. heap_add h (e, a, u) = Some h' \<and> heap_all h' (spec_op m (Op_add e a u))"
proof -
  let ?n = "\<lparr>expire = e, cb_func = True, user_data = u\<rparr>"
  obtain xs where xs: "heap_inv h xs" "set xs = dom m" "objs h = m" using assms(1) by (auto simp: heap_all_def)
  have a: "a \<notin> set xs" using xs(2) assms(2) by auto
  obtain h' ys where h': "heap_add_timer (h\<lparr>objs := (objs h)(a \<mapsto> ?n)\<rparr>) (Some a) = Some h'" "heap_inv h' ys"
      "mset ys = add_mset a (mset xs)" "objs h' = m(a \<mapsto> ?n)"
    using heap_add_ok [OF heap_inv_new_obj [OF xs(1) a, of ?n], of a] a xs(3) by auto
  have "set ys = insert a (set xs)" using h'(3) by (metis set_mset_add_mset_insert set_mset_mset)
  then show ?thesis using h' xs(2) by (auto simp: heap_add_def heap_all_def)
qed

lemma heap_all_del:
  assumes "heap_all h m" "m a \<noteq> None"
  shows "\<exists>h'. heap_del_timer h (Some a) = Some h' \<and> heap_all h' (spec_op m (Op_del a))"
proof -
  obtain n where n: "m a = Some n" using assms(2) by blast
  then show ?thesis using heap_del_ok [of h _ a n] assms(1) by (fastforce simp: heap_all_def)
qed

lemma heap_all_tick:
  assumes "heap_all h m"
  shows "\<exists>fs h'. heap_tick h cur = Some (fs, h') \<and> heap_all h' (spec_op m (Op_tick cur)) \<and> tick_report (cur, fs) (cur, m)"
proof -
  obtain xs where xs: "heap_inv h xs" "set xs = dom m" "objs h = m" using assms by (auto simp: heap_all_def)
  have d: "distinct xs" using xs(1) by (simp add: heap_inv_def)
  obtain fs h' where f: "heap_tick h cur = Some (fs, h')" "ticked cur h xs fs h'" using heap_tick_ok [OF xs(1)] by blast
  then obtain ys where ys: "heap_inv h' ys" "mset ys = filter_mset (\<lambda>a. \<not> expired m cur a) (mset xs)"
      "objs h' = (\<lambda>a. if a \<in> set xs \<and> expired m cur a then None else m a)" using xs(3) by (auto simp: ticked_def)
  have fs: "mset fs = image_mset (obj m) (filter_mset (\<lambda>a. expired m cur a \<and> armed m a) (mset xs))"
      "sorted (map (expire \<circ> snd) fs)" using f(2) xs(3) by (auto simp: ticked_def)
  have "mset fs = mset (map (obj m) (filter (\<lambda>a. expired m cur a \<and> armed m a) xs))" using fs(1) by simp
  moreover have "distinct (map (obj m) (filter (\<lambda>a. expired m cur a \<and> armed m a) xs))"
    using d by (auto simp: distinct_map inj_on_def obj_def)
  ultimately have "distinct fs" using mset_eq_imp_distinct_iff by blast
  moreover have "set fs = obj m ` {a \<in> dom m. expired m cur a \<and> armed m a}"
    using arg_cong [OF fs(1), of set_mset] xs(2) by auto
  then have "set fs = {(a, n). m a = Some n \<and> expire n \<le> cur \<and> cb_func n}"
    by (force simp: obj_def expired_def key_of_def armed_def)
  ultimately have r: "tick_report (cur, fs) (cur, m)" using fs(2) by (simp add: tick_report_def)
  have o: "objs h' = spec_op m (Op_tick cur)"
    unfolding ys(3) using xs(2) by (auto simp: fun_eq_iff expired_def key_of_def split: option.split)
  have "set ys = {a \<in> set xs. \<not> expired m cur a}" using arg_cong [OF ys(2), of set_mset] by auto
  also have "\<dots> = dom (objs h')" unfolding ys(3) xs(2) by (auto split: if_splits)
  finally have "heap_all h' (spec_op m (Op_tick cur))" using ys(1) o by (auto simp: heap_all_def)
  then show ?thesis using f(1) r by blast
qed

lemma heap_ops_ok:
  "heap_all h m \<Longrightarrow> ops_allowed m ops \<Longrightarrow>
   \<exists>log h'. heap_ops h ops = Some (log, h') \<and> list_all2 tick_report log (tick_starts m ops) \<and> heap_all h' (foldl spec_op m ops)"
proof (induction ops arbitrary: h m)
  case (Cons op ops)
  show ?case
  proof (cases op)
    case (Op_add e a u)
    then obtain h1 where "heap_add h (e, a, u) = Some h1" "heap_all h1 (spec_op m op)"
      using heap_all_add [OF Cons.prems(1), of a e u] Cons.prems(2) by (auto simp del: spec_op.simps)
    then show ?thesis using Cons.IH [of h1 "spec_op m op"] Cons.prems(2) Op_add by (auto simp del: spec_op.simps)
  next
    case (Op_del a)
    then obtain h1 where "heap_del_timer h (Some a) = Some h1" "heap_all h1 (spec_op m op)"
      using heap_all_del [OF Cons.prems(1), of a] Cons.prems(2) by (auto simp del: spec_op.simps)
    then show ?thesis using Cons.IH [of h1 "spec_op m op"] Cons.prems(2) Op_del by (auto simp del: spec_op.simps)
  next
    case (Op_tick cur)
    then obtain fs h1 where "heap_tick h cur = Some (fs, h1)" "heap_all h1 (spec_op m op)" "tick_report (cur, fs) (cur, m)"
      using heap_all_tick [OF Cons.prems(1)] by blast
    then show ?thesis using Cons.IH [of h1 "spec_op m op"] Cons.prems(2) Op_tick by (auto simp del: spec_op.simps)
  qed
qed simp

lemma heap_all_new: "0 < cap \<Longrightarrow> heap_all (time_heap_new Map.empty cap) Map.empty"
  by (auto simp: heap_all_def heap_inv_def time_heap_new_def live_def heap_from_def)

subsection \<open>Properties\<close>

text \<open>C5. Time heap: from an empty heap of any capacity above 0, any list of additions (each at an address not in
  use, as \<open>new\<close> returns one), deletions of timers that exist and ticks in any order succeeds: no
  operation, no growth of the array and no \<open>tick\<close> ends in an access outside the array or through a dead
  pointer.  Every \<open>tick\<close> runs exactly the timers that are due then and have not been deleted, each
  once and in the order of their expiry, and the timers left at the end are those the calls leave, in a heap.
  Memory suffices and \<open>int\<close> does not overflow (less than \<open>2^30\<close> timers).\<close>

theorem time_heap_prompt:
  assumes "0 < cap" "ops_allowed Map.empty ops"
  shows "\<exists>log h. heap_ops (time_heap_new Map.empty cap) ops = Some (log, h) \<and>
    list_all2 tick_report log (tick_starts Map.empty ops) \<and>
    objs h = foldl spec_op Map.empty ops \<and> (\<exists>xs. heap_inv h xs \<and> set xs = dom (objs h))"
  using heap_ops_ok [OF heap_all_new [OF assms(1)] assms(2)] by (auto simp: heap_all_def)

theorem time_heap_prompt_witness:
  "\<exists>h n1 n2. heap_ops (time_heap_new Map.empty 1)
       [Op_add 9 1 7, Op_add 4 2 8, Op_add 6 3 5, Op_del 3, Op_add 5 4 6, Op_tick 8, Op_add 10 2 1] =
       Some ([(8, [(2, n2), (4, n1)])], h) \<and> user_data n2 = 8 \<and> user_data n1 = 6 \<and> dom (objs h) = {1, 2}"
proof -
  let ?ops = "[Op_add 9 1 7, Op_add 4 2 8, Op_add 6 3 5, Op_del 3, Op_add 5 4 6, Op_tick 8, Op_add 10 2 1]"
  have "ops_allowed Map.empty ?ops" by simp
  from time_heap_prompt [OF zero_less_one this] obtain log h where
    h: "heap_ops (time_heap_new Map.empty 1) ?ops = Some (log, h)" "list_all2 tick_report log (tick_starts Map.empty ?ops)"
      "objs h = foldl spec_op Map.empty ?ops" by auto
  let ?n2 = "\<lparr>expire = 4, cb_func = True, user_data = 8\<rparr>" and ?n4 = "\<lparr>expire = 5, cb_func = True, user_data = 6\<rparr>"
  let ?m = "foldl spec_op Map.empty (take 5 ?ops)"
  have m: "?m = [1 \<mapsto> \<lparr>expire = 9, cb_func = True, user_data = 7\<rparr>, 2 \<mapsto> ?n2, 3 \<mapsto> \<lparr>expire = 6, cb_func = False, user_data = 5\<rparr>, 4 \<mapsto> ?n4]"
    by (simp add: fun_upd_twist)
  have "tick_starts Map.empty ?ops = [(8, ?m)]" by simp
  then obtain fs where fs: "log = [(8, fs)]" "distinct fs" "sorted (map (expire \<circ> snd) fs)"
      "set fs = {(a, n). ?m a = Some n \<and> expire n \<le> 8 \<and> cb_func n}"
    using h(2) by (auto simp: list_all2_Cons2 tick_report_def simp del: tick_starts.simps)
  have "set fs = {(2, ?n2), (4, ?n4)}" unfolding fs(4) m by (auto split: if_splits)
  note fs = fs(1-3) this
  have "length fs = 2" using distinct_card [OF fs(2)] fs(4) by simp
  then obtain x y where xy: "fs = [x, y]" by (auto simp: numeral_2_eq_2 length_Suc_conv)
  then have "fs = [(2, ?n2), (4, ?n4)]" using fs(3,4) by (auto simp: doubleton_eq_iff)
  moreover have "dom (objs h) = {1, 2}" by (auto simp: h(3) dom_def split: if_splits)
  ultimately show ?thesis using h(1) fs(1) by auto
qed

text \<open>Time heap: the constructor from an array of live timers turns it, for any number of timers that fits,
  into a heap with the same timers, and its \<open>top\<close> is a timer with the least expiry.\<close>

theorem time_heap_init_top:
  assumes "live m xs" "distinct xs" "xs \<noteq> []" "length xs \<le> cap"
  shows "\<exists>h ys t. time_heap_init m (map Some xs) (length xs) cap = Some h \<and> heap_inv h ys \<and> mset ys = mset xs \<and>
    heap_top h = Some (Some t) \<and> t \<in> set xs \<and> (\<forall>x \<in> set xs. key_of m t \<le> key_of m x)"
proof -
  have "0 < cap" using assms(3,4) by (cases xs) auto
  from time_heap_init_ok [OF assms(1,2,4) this] obtain h ys where
    h: "time_heap_init m (map Some xs) (length xs) cap = Some h" "objs h = m" "heap_inv h ys" "mset ys = mset xs" by blast
  then obtain t zs where ys: "ys = t # zs" using assms(3) by (cases ys) auto
  have s: "set xs = set ys" using h(4) by (metis set_mset_mset)
  have "heap_top h = Some (Some t)"
    using h(3) ys by (auto simp: heap_inv_def heap_top_def heap_empty_def arr_get_def)
  moreover have "\<forall>x \<in> set ys. key_of m t \<le> key_of m x" using heap_inv_root [of h t zs] h(2,3) ys by auto
  ultimately show ?thesis using h s ys by auto
qed

theorem time_heap_init_top_witness:
  "\<exists>h t. time_heap_init [1 \<mapsto> \<lparr>expire = 9, cb_func = True, user_data = 1\<rparr>, 2 \<mapsto> \<lparr>expire = 4, cb_func = True, user_data = 2\<rparr>,
       3 \<mapsto> \<lparr>expire = 6, cb_func = True, user_data = 3\<rparr>] (map Some [1, 2, 3]) (length [1, 2, 3 :: nat]) 4 = Some h \<and> heap_top h = Some (Some t) \<and> t = 2"
  (is "\<exists>h t. time_heap_init ?m _ _ _ = _ \<and> _")
proof -
  have "live ?m [1, 2, 3]" by (simp add: live_def)
  from time_heap_init_top [OF this, of 4] obtain h t where
    "time_heap_init ?m (map Some [1, 2, 3]) (length [1, 2, 3 :: nat]) 4 = Some h" "heap_top h = Some (Some t)"
    "t \<in> {1, 2, 3}" "key_of ?m t \<le> key_of ?m 2" by auto
  then show ?thesis by (auto simp: key_of_def)
qed

text \<open>Time heap: deletion is lazy.  A deleted timer stays in the heap, but no \<open>tick\<close> runs it.\<close>

theorem heap_del_timer_disarms:
  assumes "heap_content h (add_mset (e, a, u) M)" "a \<notin> (\<lambda>x. fst (snd x)) ` set_mset M"
  shows "\<exists>h'. heap_del_timer h (Some a) = Some h' \<and> heap_content h' M"
proof -
  obtain xs where xs: "heap_inv h xs" "dom (objs h) = set xs"
      "add_mset (e, a, u) M = image_mset (entry \<circ> obj (objs h)) (filter_mset (armed (objs h)) (mset xs))"
    using assms(1) by (auto simp: heap_content_def)
  have "(e, a, u) \<in># image_mset (entry \<circ> obj (objs h)) (filter_mset (armed (objs h)) (mset xs))" by (simp flip: xs(3))
  then have a: "a \<in> set xs" "armed (objs h) a" "entry (obj (objs h) a) = (e, a, u)" by (auto simp: entry_def obj_def)
  then obtain n where n: "objs h a = Some n" using xs(2) by (metis domD)
  let ?m = "(objs h)(a \<mapsto> n\<lparr>cb_func := False\<rparr>)"
  obtain h' where h': "heap_del_timer h (Some a) = Some h'" "heap_inv h' xs" "objs h' = ?m"
    using heap_del_ok [OF xs(1) n] by blast
  have d: "distinct xs" using xs(1) by (simp add: heap_inv_def)
  have "filter_mset (armed (objs h)) (mset xs) = add_mset a (filter_mset (armed ?m) (mset xs))"
  proof -
    obtain us vs where uv: "xs = us @ a # vs" using a(1) by (meson split_list)
    then have "a \<notin> set (us @ vs)" using d by simp
    then have "filter_mset (armed (objs h)) (mset (us @ vs)) = filter_mset (armed ?m) (mset (us @ vs))"
      by (intro filter_mset_cong) (auto simp: armed_def)
    moreover have "mset xs = add_mset a (mset (us @ vs))" using uv by simp
    ultimately show ?thesis using a(2) by (simp add: armed_def)
  qed
  moreover have "image_mset (entry \<circ> obj ?m) (filter_mset (armed ?m) (mset xs)) =
      image_mset (entry \<circ> obj (objs h)) (filter_mset (armed ?m) (mset xs))"
    by (intro image_mset_cong) (auto simp: obj_def entry_def armed_def)
  ultimately have "M = image_mset (entry \<circ> obj ?m) (filter_mset (armed ?m) (mset xs))" using xs(3) a(3) by simp
  moreover have "dom ?m = set xs" using xs(2) a(1) by auto
  ultimately show ?thesis using h' by (auto simp: heap_content_def)
qed

theorem heap_del_timer_disarms_witness:
  "\<exists>h h'. heap_content h {#(5, 1, 7)#} \<and> heap_del_timer h (Some 1) = Some h' \<and> heap_content h' {#}"
proof -
  obtain h where "heap_content h {#(5, 1, 7)#}"
    using theap.add_ok [OF heap_content_new [of 1], of "(5, 1, 7)"] by (auto simp: heap_ready_def time_heap_new_def)
  then show ?thesis using heap_del_timer_disarms [of h 5 1 7 "{#}"] by auto
qed

text \<open>Time heap: a heap constructed with capacity 0 cannot grow, since doubling keeps it at 0: the first
  \<open>add_timer\<close> writes outside the array, and \<open>tick\<close> reads outside it.\<close>

theorem zero_capacity_faults:
  "heap_add_timer (time_heap_new m 0) (Some t) = None \<and> heap_tick (time_heap_new m 0) cur = None"
  by (simp add: heap_add_timer_def time_heap_new_def resize_def up_loop.simps arr_put_def heap_tick_def arr_get_def)

end
