(* ===== verification/Time_Wheel.thy ===== *)
theory Time_Wheel
  imports LL "HOL-Library.Multiset"
begin

text \<open>
  The time wheel (\<open>network-programming/youshuang/timer/11-5tw_timer.h\<close>): 60 slots, each the head of an unsorted
  doubly linked list of timers with a count of full rotations to wait.  Every operation is shown to
  keep the wheel a collection of countdowns: \<open>tick\<close> runs exactly the timers whose countdown is 0 and
  lowers all the others by one, so a timer runs on call number \<open>ticks + 1\<close> of \<open>tick\<close>.
\<close>

subsection \<open>The wheel\<close>

record tw_timer =
  rotation :: nat
  time_slot :: nat
  tw_data :: nat

definition N :: nat where
  "N = 60"

definition TI :: nat where
  "TI = 1"

record time_wheel =
  nodes :: "tw_timer store"
  slots :: "nat option list"
  cur_slot :: nat

definition wheel_new :: "tw_timer store \<Rightarrow> time_wheel" where
  "wheel_new m = \<lparr>nodes = m, slots = replicate N None, cur_slot = 0\<rparr>"

definition slot_get :: "time_wheel \<Rightarrow> nat \<Rightarrow> nat option option" where
  "slot_get w i = (if i < length (slots w) then Some (slots w ! i) else None)"

definition slot_set :: "time_wheel \<Rightarrow> nat \<Rightarrow> nat option \<Rightarrow> time_wheel option" where
  "slot_set w i p = (if i < length (slots w) then Some (w\<lparr>slots := (slots w)[i := p]\<rparr>) else None)"

text \<open>\<open>delete p\<close>.\<close>

definition del_node :: "'a store \<Rightarrow> nat \<Rightarrow> 'a store option" where
  "del_node m a = do { _ \<leftarrow> m a; Some (m(a := None)) }"

text \<open>Adding: \<open>a\<close> is the address \<open>new\<close> returns, \<open>u\<close> the user data the caller sets; the result is the timer.\<close>

definition ticks_of :: "nat \<Rightarrow> nat" where
  "ticks_of timeout = (if timeout < TI then 1 else timeout div TI)"

definition wheel_add_timer :: "time_wheel \<Rightarrow> nat \<Rightarrow> nat \<Rightarrow> int \<Rightarrow> (nat option \<times> time_wheel) option" where
  "wheel_add_timer w a u timeout =
     (if timeout < 0 then Some (None, w)
      else do {
        let ticks = ticks_of (nat timeout);
        let rot = ticks div N;
        let ts = (cur_slot w + ticks mod N) mod N;
        let m = (nodes w)(a \<mapsto> \<lparr>prev = None, succ = None, data = \<lparr>rotation = rot, time_slot = ts, tw_data = u\<rparr>\<rparr>);
        h \<leftarrow> slot_get w ts;
        (case h of
           None \<Rightarrow> do {
             w \<leftarrow> slot_set (w\<lparr>nodes := m\<rparr>) ts (Some a);
             Some (Some a, w)
           }
         | Some old \<Rightarrow> do {
             m \<leftarrow> set_succ m a h;
             m \<leftarrow> set_prev m old (Some a);
             w \<leftarrow> slot_set (w\<lparr>nodes := m\<rparr>) ts (Some a);
             Some (Some a, w)
           })
      })"

text \<open>Unlinking a timer that is not the head of its list: the common statements of \<open>del_timer\<close> and \<open>tick\<close>.\<close>

definition unlink :: "'a store \<Rightarrow> 'a node \<Rightarrow> 'a store option" where
  "unlink m n = do {
     p \<leftarrow> prev n;
     m \<leftarrow> set_succ m p (succ n);
     (case succ n of None \<Rightarrow> Some m | Some s \<Rightarrow> set_prev m s (Some p))
   }"

definition wheel_del_timer :: "time_wheel \<Rightarrow> nat option \<Rightarrow> time_wheel option" where
  "wheel_del_timer w t = (case t of
     None \<Rightarrow> Some w
   | Some timer \<Rightarrow> do {
       n \<leftarrow> nodes w timer;
       let ts = time_slot (data n);
       h \<leftarrow> slot_get w ts;
       if h = Some timer then do {
         w \<leftarrow> slot_set w ts (succ n);
         m \<leftarrow> (case succ n of None \<Rightarrow> Some (nodes w) | Some s \<Rightarrow> set_prev (nodes w) s None);
         m \<leftarrow> del_node m timer;
         Some (w\<lparr>nodes := m\<rparr>)
       } else do {
         m \<leftarrow> unlink (nodes w) n;
         m \<leftarrow> del_node m timer;
         Some (w\<lparr>nodes := m\<rparr>)
       }
     })"

text \<open>The loop of \<open>tick\<close> over the current slot with head \<open>h\<close>; it returns the timers it ran.\<close>

definition wheel_fire_head :: "tw_timer store \<Rightarrow> nat \<Rightarrow> tw_timer node \<Rightarrow> tw_timer store option" where
  "wheel_fire_head m t n = do {
     m \<leftarrow> del_node m t;
     (case succ n of None \<Rightarrow> Some m | Some s \<Rightarrow> set_prev m s None)
   }"

definition wheel_fire_inner :: "tw_timer store \<Rightarrow> nat \<Rightarrow> tw_timer node \<Rightarrow> tw_timer store option" where
  "wheel_fire_inner m t n = do { m \<leftarrow> unlink m n; del_node m t }"

partial_function (option) wheel_walk :: "nat option \<Rightarrow> tw_timer store \<Rightarrow> nat option \<Rightarrow>
    ((nat \<times> tw_timer) list \<times> tw_timer store \<times> nat option) option" where
  "wheel_walk tmp m h = (case tmp of
     None \<Rightarrow> Some ([], m, h)
   | Some t \<Rightarrow> do {
       n \<leftarrow> m t;
       if rotation (data n) > 0
       then wheel_walk (succ n) (m(t \<mapsto> n\<lparr>data := (data n)\<lparr>rotation := rotation (data n) - 1\<rparr>\<rparr>)) h
       else do {
         (fs, m, h) \<leftarrow> (if h = Some t
           then do { m \<leftarrow> wheel_fire_head m t n; wheel_walk (succ n) m (succ n) }
           else do { m \<leftarrow> wheel_fire_inner m t n; wheel_walk (succ n) m h });
         Some ((t, data n) # fs, m, h)
       }
     })"

definition wheel_tick :: "time_wheel \<Rightarrow> ((nat \<times> tw_timer) list \<times> time_wheel) option" where
  "wheel_tick w = do {
     tmp \<leftarrow> slot_get w (cur_slot w);
     (fs, m, h) \<leftarrow> wheel_walk tmp (nodes w) tmp;
     w \<leftarrow> slot_set (w\<lparr>nodes := m\<rparr>) (cur_slot w) h;
     Some (fs, w\<lparr>cur_slot := (cur_slot w + 1) mod N\<rparr>)
   }"

text \<open>The destructor.\<close>

partial_function (option) wheel_destroy_slot :: "tw_timer store \<Rightarrow> nat option \<Rightarrow> tw_timer store option" where
  "wheel_destroy_slot m tmp = (case tmp of
     None \<Rightarrow> Some m
   | Some t \<Rightarrow> do {
       n \<leftarrow> m t;
       m \<leftarrow> del_node m t;
       wheel_destroy_slot m (succ n)
     })"

fun wheel_destroy :: "tw_timer store \<Rightarrow> nat option list \<Rightarrow> tw_timer store option" where
  "wheel_destroy m [] = Some m"
| "wheel_destroy m (h # hs) = do { m \<leftarrow> wheel_destroy_slot m h; wheel_destroy m hs }"

subsection \<open>One slot\<close>

definition tw_holds :: "'a store \<Rightarrow> nat option \<Rightarrow> (nat \<times> 'a) list \<Rightarrow> bool" where
  "tw_holds m h ts \<longleftrightarrow> dll m None h (map fst ts) \<and> distinct (map fst ts) \<and>
     (\<forall>x \<in> set ts. map_option data (m (fst x)) = Some (snd x))"

lemma tw_holds_frame:
  "tw_holds m h ts \<Longrightarrow> (\<And>a. a \<in> fst ` set ts \<Longrightarrow> m' a = m a) \<Longrightarrow> tw_holds m' h ts"
  by (auto simp: tw_holds_def intro: dll_frame)

lemma tw_holdsI:
  assumes "tw_holds m h ts'" "dll m' None h' (map fst ts)" "distinct (map fst ts)" "set ts \<subseteq> set ts'"
    "\<And>a. a \<in> fst ` set ts \<Longrightarrow> map_option data (m' a) = map_option data (m a)"
  shows "tw_holds m' h' ts"
  unfolding tw_holds_def
proof (intro conjI ballI)
  fix x
  assume x: "x \<in> set ts"
  then have "map_option data (m (fst x)) = Some (snd x)" using assms(1,4) by (auto simp: tw_holds_def)
  then show "map_option data (m' (fst x)) = Some (snd x)" using assms(5) x by simp
qed (use assms(2,3) in simp_all)

lemma tw_holds_nil [simp]: "tw_holds m h [] \<longleftrightarrow> h = None"
  by (simp add: tw_holds_def)

text \<open>Access to a timer inside the list.\<close>

lemma tw_holds_node:
  assumes "tw_holds m h (us @ x # vs)"
  obtains n where "m (fst x) = Some n" "data n = snd x" "succ n = (if vs = [] then None else Some (fst (hd vs)))"
    "prev n = (if us = [] then None else Some (fst (last us)))" "h = Some (fst x) \<longleftrightarrow> us = []"
proof -
  obtain n where n: "m (fst x) = Some n" "data n = snd x" using assms by (auto simp: tw_holds_def)
  have d: "dll m None h (map fst us @ fst x # map fst vs)" "distinct (map fst us @ fst x # map fst vs)"
    using assms by (auto simp: tw_holds_def)
  have "succ n = (if vs = [] then None else Some (fst (hd vs)))"
    using d(1) n(1) by (auto simp: dll_append dest: dll_head simp: hd_map)
  moreover have "prev n = (if us = [] then None else Some (fst (last us)))"
    using d(1) n(1) by (cases us rule: rev_cases) (auto simp: dll_append dseg_append)
  moreover have "h = Some (fst x) \<longleftrightarrow> us = []" using d by (cases us) auto
  ultimately show thesis using that n by blast
qed

lemma tw_holds_set_data:
  assumes "tw_holds m h (us @ x # vs)" "m (fst x) = Some n"
  shows "tw_holds (m(fst x \<mapsto> n\<lparr>data := d\<rparr>)) h (us @ (fst x, d) # vs)"
proof -
  have "dll (m(fst x \<mapsto> n\<lparr>data := d\<rparr>)) None h (map fst us @ fst x # map fst vs)"
    using assms by (auto simp: tw_holds_def dll_append)
  moreover have "distinct (map fst us @ fst x # map fst vs)" using assms(1) by (simp add: tw_holds_def)
  moreover have "map_option data ((m(fst x \<mapsto> n\<lparr>data := d\<rparr>)) (fst z)) = Some (snd z)" if "z \<in> set (us @ (fst x, d) # vs)" for z
  proof (cases "fst z = fst x")
    case True
    then have "z = (fst x, d)" using that calculation(2) by (auto simp: image_iff)
    then show ?thesis by simp
  next
    case False
    then have "z \<in> set (us @ x # vs)" using that by auto
    then show ?thesis using False assms(1) by (auto simp: tw_holds_def)
  qed
  ultimately show ?thesis by (simp add: tw_holds_def)
qed

text \<open>Removing the head and removing a timer behind another one.\<close>

lemma tw_remove_head:
  assumes "tw_holds m h (x # vs)" "m (fst x) = Some n"
  shows "\<exists>m'. wheel_fire_head m (fst x) n = Some m' \<and> tw_holds m' (succ n) vs \<and> m' (fst x) = None \<and>
    (\<forall>a. a \<notin> fst ` set (x # vs) \<longrightarrow> m' a = m a)"
proof -
  have d: "dll m None h (fst x # map fst vs)" "distinct (fst x # map fst vs)" using assms(1) by (auto simp: tw_holds_def)
  then obtain m' where m': "wheel_fire_head m (fst x) n = Some m'" "dll m' None (succ n) (map fst vs)" "m' (fst x) = None"
      "\<forall>a. a \<notin> fst ` set (x # vs) \<longrightarrow> m' a = m a" "\<forall>a. a \<noteq> fst x \<longrightarrow> map_option data (m' a) = map_option data (m a)"
    using assms(2) by (cases vs) (auto simp: wheel_fire_head_def del_node_def set_prev_def)
  have "tw_holds m' (succ n) vs" by (rule tw_holdsI [OF assms(1) m'(2)]) (use d(2) m'(5) in \<open>auto simp: image_iff\<close>)
  then show ?thesis using m' by blast
qed

lemma tw_unlink:
  assumes "tw_holds m h (us @ u # x # vs)" "m (fst x) = Some n"
  shows "\<exists>m'. wheel_fire_inner m (fst x) n = Some m' \<and> tw_holds m' h (us @ u # vs) \<and> m' (fst x) = None \<and>
    (\<forall>a. a \<notin> fst ` set (us @ u # x # vs) \<longrightarrow> m' a = m a)"
proof -
  have d: "dll m None h (map fst us @ fst u # fst x # map fst vs)" "distinct (map fst us @ fst u # fst x # map fst vs)"
    using assms(1) by (auto simp: tw_holds_def)
  then obtain m' where m': "wheel_fire_inner m (fst x) n = Some m'" "dll m' None h (map fst (us @ u # vs))" "m' (fst x) = None"
      "\<forall>a. a \<notin> fst ` set (us @ u # x # vs) \<longrightarrow> m' a = m a" "\<forall>a. a \<noteq> fst x \<longrightarrow> map_option data (m' a) = map_option data (m a)"
    using assms(2) by (cases vs) (auto simp: wheel_fire_inner_def unlink_def del_node_def set_prev_def set_succ_def dll_append)
  have "tw_holds m' h (us @ u # vs)" by (rule tw_holdsI [OF assms(1) m'(2)]) (use d(2) m'(5) in \<open>auto simp: image_iff\<close>)
  then show ?thesis using m' by blast
qed

text \<open>What a pass of \<open>tick\<close> over a slot runs, and what it keeps.\<close>

definition ready0 :: "(nat \<times> tw_timer) list \<Rightarrow> (nat \<times> tw_timer) list" where
  "ready0 ts = filter (\<lambda>x. rotation (snd x) = 0) ts"

definition later :: "(nat \<times> tw_timer) list \<Rightarrow> (nat \<times> tw_timer) list" where
  "later ts = map (\<lambda>x. (fst x, (snd x)\<lparr>rotation := rotation (snd x) - 1\<rparr>)) (filter (\<lambda>x. 0 < rotation (snd x)) ts)"

lemma ready0_simps [simp]: "ready0 [] = []" "ready0 (x # ts) = (if rotation (snd x) = 0 then x # ready0 ts else ready0 ts)"
  by (simp_all add: ready0_def)

lemma later_simps [simp]: "later [] = []"
  "later (x # ts) = (if rotation (snd x) = 0 then later ts else (fst x, (snd x)\<lparr>rotation := rotation (snd x) - 1\<rparr>) # later ts)"
  by (simp_all add: later_def)

lemma wheel_walk_ok:
  "tw_holds m h (us @ vs) \<Longrightarrow> \<exists>m' h'. wheel_walk (if vs = [] then None else Some (fst (hd vs))) m h = Some (ready0 vs, m', h') \<and>
     tw_holds m' h' (us @ later vs) \<and> (\<forall>a. a \<notin> fst ` set (us @ vs) \<longrightarrow> m' a = m a) \<and> (\<forall>a \<in> fst ` set (ready0 vs). m' a = None)"
proof (induction vs arbitrary: us m h)
  case Nil
  then show ?case by (simp add: wheel_walk.simps)
next
  case (Cons x vs)
  let ?nx = "if vs = [] then None else Some (fst (hd vs))"
  obtain n where n: "m (fst x) = Some n" "data n = snd x" "succ n = ?nx" "h = Some (fst x) \<longleftrightarrow> us = []"
    using tw_holds_node [OF Cons.prems] by metis
  have notin: "fst x \<notin> fst ` set (us @ vs)" using Cons.prems by (auto simp: tw_holds_def)
  show ?case
  proof (cases "rotation (snd x) = 0")
    case False
    let ?d = "(snd x)\<lparr>rotation := rotation (snd x) - 1\<rparr>"
    let ?m = "m(fst x \<mapsto> n\<lparr>data := ?d\<rparr>)"
    have "tw_holds ?m h ((us @ [(fst x, ?d)]) @ vs)" using tw_holds_set_data [OF Cons.prems n(1)] by simp
    from Cons.IH [OF this] obtain m' h' where w: "wheel_walk ?nx ?m h = Some (ready0 vs, m', h')"
        "tw_holds m' h' ((us @ [(fst x, ?d)]) @ later vs)"
        "\<forall>a. a \<notin> fst ` set ((us @ [(fst x, ?d)]) @ vs) \<longrightarrow> m' a = ?m a" "\<forall>a \<in> fst ` set (ready0 vs). m' a = None" by blast
    have "wheel_walk (Some (fst x)) m h = Some (ready0 vs, m', h')"
      using w(1) n(1-3) False by (simp add: wheel_walk.simps [of "Some (fst x)"])
    then show ?thesis using w(2-4) False by auto
  next
    case True
    have step: "\<exists>m1 h1. wheel_walk (Some (fst x)) m h = do { (fs, m', h') \<leftarrow> wheel_walk ?nx m1 h1; Some (x # fs, m', h') } \<and>
        tw_holds m1 h1 (us @ vs) \<and> m1 (fst x) = None \<and> (\<forall>a. a \<notin> fst ` set (us @ x # vs) \<longrightarrow> m1 a = m a)"
    proof (cases us rule: rev_cases)
      case Nil
      then show ?thesis using tw_remove_head [of m h x vs n] Cons.prems n True
        by (force simp: wheel_walk.simps [of "Some (fst x)"])
    next
      case (snoc us' u)
      then show ?thesis using tw_unlink [of m h us' u x vs n] Cons.prems n True
        by (force simp: wheel_walk.simps [of "Some (fst x)"])
    qed
    then obtain m1 h1 where s: "wheel_walk (Some (fst x)) m h = do { (fs, m', h') \<leftarrow> wheel_walk ?nx m1 h1; Some (x # fs, m', h') }"
        "tw_holds m1 h1 (us @ vs)" "m1 (fst x) = None" "\<forall>a. a \<notin> fst ` set (us @ x # vs) \<longrightarrow> m1 a = m a" by blast
    from Cons.IH [OF s(2)] obtain m' h' where w: "wheel_walk ?nx m1 h1 = Some (ready0 vs, m', h')"
        "tw_holds m' h' (us @ later vs)" "\<forall>a. a \<notin> fst ` set (us @ vs) \<longrightarrow> m' a = m1 a" "\<forall>a \<in> fst ` set (ready0 vs). m' a = None" by blast
    then show ?thesis using s True notin by (intro exI [of _ m'] exI [of _ h']) auto
  qed
qed

subsection \<open>The wheel as a set of countdowns\<close>

definition addrs :: "(nat \<times> tw_timer) list \<Rightarrow> nat set" where
  "addrs ts = fst ` set ts"

definition wheel_inv :: "time_wheel \<Rightarrow> (nat \<Rightarrow> (nat \<times> tw_timer) list) \<Rightarrow> bool" where
  "wheel_inv w L \<longleftrightarrow> length (slots w) = N \<and> cur_slot w < N \<and> (\<forall>s < N. tw_holds (nodes w) (slots w ! s) (L s)) \<and>
     (\<forall>s < N. \<forall>x \<in> set (L s). time_slot (snd x) = s) \<and>
     (\<forall>s < N. \<forall>s' < N. s \<noteq> s' \<longrightarrow> addrs (L s) \<inter> addrs (L s') = {}) \<and> dom (nodes w) = (\<Union>s < N. addrs (L s))"

text \<open>In how many further calls of \<open>tick\<close> a timer is passed over.\<close>

definition countdown :: "nat \<Rightarrow> tw_timer \<Rightarrow> nat" where
  "countdown cur t = (time_slot t + N - cur) mod N + N * rotation t"

definition tw_entry :: "nat \<Rightarrow> nat \<times> tw_timer \<Rightarrow> nat \<times> nat \<times> nat" where
  "tw_entry cur x = (countdown cur (snd x), fst x, tw_data (snd x))"

definition wheel_content :: "time_wheel \<Rightarrow> (nat \<times> nat \<times> nat) set \<Rightarrow> bool" where
  "wheel_content w C \<longleftrightarrow> (\<exists>L. wheel_inv w L \<and> C = (\<Union>s < N. tw_entry (cur_slot w) ` set (L s)))"

text \<open>Replacing the list of one slot.\<close>

lemma wheel_inv_replace:
  assumes "wheel_inv w L" "c < N" "tw_holds m h l" "\<forall>x \<in> set l. time_slot (snd x) = c"
    "\<And>a. a \<notin> addrs (L c) \<union> addrs l \<Longrightarrow> m a = nodes w a" "addrs l \<inter> (\<Union>s \<in> {..<N} - {c}. addrs (L s)) = {}"
    "\<And>a. a \<in> addrs (L c) - addrs l \<Longrightarrow> m a = None" "cur < N"
  shows "wheel_inv (w\<lparr>nodes := m, slots := (slots w)[c := h], cur_slot := cur\<rparr>) (L(c := l))"
proof -
  have inv: "length (slots w) = N" "\<And>s. s < N \<Longrightarrow> tw_holds (nodes w) (slots w ! s) (L s)"
      "\<And>s x. s < N \<Longrightarrow> x \<in> set (L s) \<Longrightarrow> time_slot (snd x) = s"
      "\<And>s s'. s < N \<Longrightarrow> s' < N \<Longrightarrow> s \<noteq> s' \<Longrightarrow> addrs (L s) \<inter> addrs (L s') = {}"
      "dom (nodes w) = (\<Union>s < N. addrs (L s))"
    using assms(1) unfolding wheel_inv_def by blast+
  have other: "m a = nodes w a" if "s < N" "s \<noteq> c" "a \<in> addrs (L s)" for s a
    using that assms(5) [of a] assms(6) inv(4) [of s c] assms(2) by auto
  have "tw_holds m (slots w ! s) (L s)" if "s < N" "s \<noteq> c" for s
    using tw_holds_frame [OF inv(2) [OF that(1)]] other [OF that] by (simp add: addrs_def)
  moreover have "dom m = (\<Union>s < N. addrs ((L(c := l)) s))"
  proof -
    have live: "m a \<noteq> None" if "a \<in> addrs l" for a using that assms(3) by (auto simp: tw_holds_def addrs_def)
    have "m a \<noteq> None \<longleftrightarrow> a \<in> (\<Union>s < N. addrs ((L(c := l)) s))" for a
    proof -
      consider (new) "a \<in> addrs l" | (old) "a \<in> addrs (L c) - addrs l" | (none) "a \<notin> addrs (L c) \<union> addrs l" by blast
      then show ?thesis
      proof cases
        case new
        then have "a \<in> (\<Union>s < N. addrs ((L(c := l)) s))" using assms(2) by (intro UN_I [of c]) auto
        then show ?thesis using live [OF new] by simp
      next
        case old
        then have "a \<notin> addrs (L s)" if "s < N" "s \<noteq> c" for s using inv(4) [OF that(1) assms(2) that(2)] by auto
        then show ?thesis using assms(7) [OF old] old by auto
      next
        case none
        then have "m a = nodes w a" using assms(5) by blast
        moreover have "nodes w a \<noteq> None \<longleftrightarrow> a \<in> (\<Union>s < N. addrs (L s))" using inv(5) by auto
        ultimately show ?thesis using none by (auto split: if_splits)
      qed
    qed
    then show ?thesis by (intro set_eqI) (simp only: domIff)
  qed
  ultimately show ?thesis using assms(2-4,6,8) inv(1,3,4)
    by (auto simp: wheel_inv_def nth_list_update)
qed

lemma countdown_next:
  assumes "s < N" "c < N" "time_slot t = s"
  shows "s \<noteq> c \<Longrightarrow> countdown c t = Suc (countdown ((c + 1) mod N) t)"
    "s = c \<Longrightarrow> 0 < rotation t \<Longrightarrow> countdown c t = Suc (countdown ((c + 1) mod N) (t\<lparr>rotation := rotation t - 1\<rparr>))"
    "countdown c t = 0 \<longleftrightarrow> s = c \<and> rotation t = 0"
proof -
  have m: "(s + N - c) mod N = (if c \<le> s then s - c else s + N - c)" "(c + 1) mod N = (if c + 1 = N then 0 else c + 1)"
      "\<And>d. d < N \<Longrightarrow> (s + N - d) mod N = (if d \<le> s then s - d else s + N - d)"
    using assms(1,2) by (auto simp: mod_if)
  have n: "0 < N" by (simp add: N_def)
  show "s \<noteq> c \<Longrightarrow> countdown c t = Suc (countdown ((c + 1) mod N) t)"
    using assms m n by (auto simp: countdown_def)
  show "s = c \<Longrightarrow> 0 < rotation t \<Longrightarrow> countdown c t = Suc (countdown ((c + 1) mod N) (t\<lparr>rotation := rotation t - 1\<rparr>))"
    using assms m n by (cases "rotation t") (auto simp: countdown_def)
  show "countdown c t = 0 \<longleftrightarrow> s = c \<and> rotation t = 0"
    using assms m n by (auto simp: countdown_def)
qed

lemma wheel_inv_slot:
  "wheel_inv w L \<Longrightarrow> s < N \<Longrightarrow> tw_holds (nodes w) (slots w ! s) (L s)"
  "wheel_inv w L \<Longrightarrow> s < N \<Longrightarrow> slot_get w s = Some (slots w ! s)"
  "wheel_inv w L \<Longrightarrow> s < N \<Longrightarrow> x \<in> set (L s) \<Longrightarrow> time_slot (snd x) = s"
  "wheel_inv w L \<Longrightarrow> s < N \<Longrightarrow> addrs (L s) \<inter> (\<Union>s' \<in> {..<N} - {s}. addrs (L s')) = {}"
  by (auto simp: wheel_inv_def slot_get_def) (metis IntI empty_iff)

lemma addrs_parts: "addrs (ready0 ts) \<union> addrs (later ts) = addrs ts" "distinct (map fst ts) \<Longrightarrow> addrs (ready0 ts) \<inter> addrs (later ts) = {}"
  by (induction ts) (auto simp: addrs_def ready0_def later_def image_iff split: if_splits)

lemma tw_holds_head: "tw_holds m h ts \<Longrightarrow> h = (if ts = [] then None else Some (fst (hd ts)))"
  by (cases ts) (auto simp: tw_holds_def)

lemma wheel_tick_ok:
  assumes "wheel_inv w L"
  shows "\<exists>w'. wheel_tick w = Some (ready0 (L (cur_slot w)), w') \<and>
    wheel_inv w' (L(cur_slot w := later (L (cur_slot w)))) \<and> cur_slot w' = (cur_slot w + 1) mod N"
proof -
  let ?c = "cur_slot w"
  have c: "?c < N" "length (slots w) = N" using assms by (auto simp: wheel_inv_def)
  note h = wheel_inv_slot [OF assms c(1)]
  have d: "distinct (map fst (L ?c))" using h(1) by (simp add: tw_holds_def)
  obtain m' h' where m': "wheel_walk (slots w ! ?c) (nodes w) (slots w ! ?c) = Some (ready0 (L ?c), m', h')"
      "tw_holds m' h' (later (L ?c))" "\<forall>a. a \<notin> fst ` set (L ?c) \<longrightarrow> m' a = nodes w a" "\<forall>a \<in> fst ` set (ready0 (L ?c)). m' a = None"
    using wheel_walk_ok [of "nodes w" "slots w ! ?c" "[]" "L ?c"] tw_holds_head [OF h(1)] h(1) by auto
  let ?w = "w\<lparr>nodes := m', slots := (slots w)[?c := h'], cur_slot := (?c + 1) mod N\<rparr>"
  have "wheel_inv ?w (L(?c := later (L ?c)))"
  proof (rule wheel_inv_replace [OF assms c(1) m'(2)])
    show "\<forall>x \<in> set (later (L ?c)). time_slot (snd x) = ?c" using h(3) by (auto simp: later_def)
    show "m' a = nodes w a" if "a \<notin> addrs (L ?c) \<union> addrs (later (L ?c))" for a using that m'(3) by (auto simp: addrs_def)
    show "addrs (later (L ?c)) \<inter> (\<Union>s \<in> {..<N} - {?c}. addrs (L s)) = {}" using h(4) addrs_parts(1) [of "L ?c"] by blast
    show "m' a = None" if "a \<in> addrs (L ?c) - addrs (later (L ?c))" for a
    proof -
      have "a \<in> addrs (ready0 (L ?c))" using that addrs_parts(1) [of "L ?c"] by blast
      then show ?thesis by (intro bspec [OF m'(4)]) (simp add: addrs_def)
    qed
    show "(?c + 1) mod N < N" using c(1) by simp
  qed
  then show ?thesis using m'(1) h(2) c by (auto simp: wheel_tick_def slot_set_def)
qed

lemma slot_countdown:
  assumes "c < N" "\<And>s x. s < N \<Longrightarrow> x \<in> set (L s) \<Longrightarrow> time_slot (snd x) = s" "s < N"
  shows "tw_entry ((c + 1) mod N) ` set ((L(c := later (L c))) s) = {(k, a, u). (Suc k, a, u) \<in> tw_entry c ` set (L s)}"
proof (cases "s = c")
  case False
  then show ?thesis using countdown_next(1) [OF assms(3,1)] assms(2) [OF assms(3)]
    by (auto simp: tw_entry_def image_iff)
next
  case True
  let ?dec = "\<lambda>x. (fst x, (snd x)\<lparr>rotation := rotation (snd x) - 1\<rparr>)"
  have eq: "0 < rotation (snd x) \<and> countdown ((c + 1) mod N) (snd (?dec x)) = k \<longleftrightarrow> countdown c (snd x) = Suc k"
    if "x \<in> set (L c)" for x k
    using countdown_next(2,3) [OF assms(1,1) assms(2) [OF assms(1) that]] by (cases "rotation (snd x) = 0") auto
  have "(k, a, u) \<in> tw_entry ((c + 1) mod N) ` set (later (L c)) \<longleftrightarrow> (Suc k, a, u) \<in> tw_entry c ` set (L c)" for k a u
  proof -
    have "(k, a, u) \<in> tw_entry ((c + 1) mod N) ` set (later (L c)) \<longleftrightarrow>
        (\<exists>x \<in> set (L c). (0 < rotation (snd x) \<and> countdown ((c + 1) mod N) (snd (?dec x)) = k) \<and> fst x = a \<and> tw_data (snd x) = u)"
      unfolding later_def tw_entry_def by (force simp: image_iff)
    also have "\<dots> \<longleftrightarrow> (\<exists>x \<in> set (L c). countdown c (snd x) = Suc k \<and> fst x = a \<and> tw_data (snd x) = u)"
      using eq by (intro bex_cong refl) simp
    also have "\<dots> \<longleftrightarrow> (Suc k, a, u) \<in> tw_entry c ` set (L c)" unfolding tw_entry_def by force
    finally show ?thesis .
  qed
  then show ?thesis using True by (simp add: set_eq_iff)
qed

lemma wheel_content_tick:
  assumes "wheel_content w C"
  shows "\<exists>fs w'. wheel_tick w = Some (fs, w') \<and> distinct fs \<and> (\<lambda>x. (fst x, tw_data (snd x))) ` set fs = {(a, u). (0, a, u) \<in> C} \<and>
    wheel_content w' {(k, a, u). (Suc k, a, u) \<in> C}"
proof -
  obtain L where L: "wheel_inv w L" "C = (\<Union>s < N. tw_entry (cur_slot w) ` set (L s))" using assms by (auto simp: wheel_content_def)
  let ?c = "cur_slot w" and ?c' = "(cur_slot w + 1) mod N"
  have c: "?c < N" using L(1) by (simp add: wheel_inv_def)
  note slot = wheel_inv_slot(3) [OF L(1)]
  obtain w' where w': "wheel_tick w = Some (ready0 (L ?c), w')" "wheel_inv w' (L(?c := later (L ?c)))" "cur_slot w' = ?c'"
    using wheel_tick_ok [OF L(1)] by blast
  have "distinct (L ?c)" using wheel_inv_slot(1) [OF L(1) c] by (auto simp: tw_holds_def distinct_map)
  moreover have "(\<lambda>x. (fst x, tw_data (snd x))) ` set (ready0 (L ?c)) = {(a, u). (0, a, u) \<in> C}"
    using c slot countdown_next(3) [OF _ c] unfolding L(2)
    by (force simp: ready0_def tw_entry_def eq_commute [of 0])
  moreover have e: "{(k, a, u). (Suc k, a, u) \<in> C} = (\<Union>s < N. tw_entry ?c' ` set ((L(?c := later (L ?c))) s))" 
    using slot_countdown [OF c slot] unfolding L(2) by auto
  have "wheel_content w' {(k, a, u). (Suc k, a, u) \<in> C}" unfolding wheel_content_def w'(3) e using w'(2) by blast
  ultimately show ?thesis using w'(1) by (auto simp: ready0_def)
qed

lemma tw_holds_fresh: "tw_holds m h ts \<Longrightarrow> m a = None \<Longrightarrow> a \<notin> fst ` set ts"
  by (auto simp: tw_holds_def)

text \<open>Linking a new timer in front of a slot.\<close>

lemma tw_push:
  fixes m :: "tw_timer store" and d :: tw_timer
  assumes "tw_holds m h ts" "m a = None"
  defines "m0 \<equiv> m(a \<mapsto> \<lparr>prev = None, succ = None, data = d\<rparr>)"
  shows "\<exists>m'. (case h of None \<Rightarrow> Some m0 | Some old \<Rightarrow> set_succ m0 a h \<bind> (\<lambda>m. set_prev m old (Some a))) = Some m' \<and>
    tw_holds m' (Some a) ((a, d) # ts) \<and> (\<forall>b. b \<notin> insert a (fst ` set ts) \<longrightarrow> m' b = m b)"
proof (cases ts)
  case Nil
  then show ?thesis using assms by (auto simp: tw_holds_def m0_def)
next
  case (Cons x xs)
  have a: "a \<notin> fst ` set ts" using tw_holds_fresh [OF assms(1,2)] .
  have d: "dll m None h (fst x # map fst xs)" "distinct (fst x # map fst xs)" using assms(1) Cons by (auto simp: tw_holds_def)
  then obtain m' where m': "set_succ m0 a h \<bind> (\<lambda>m. set_prev m (fst x) (Some a)) = Some m'"
      "dll m' None (Some a) (map fst ((a, d) # ts))" "\<forall>b. b \<notin> insert a (fst ` set ts) \<longrightarrow> m' b = m b"
      "map_option data (m' a) = Some d" "\<forall>b. b \<noteq> a \<longrightarrow> map_option data (m' b) = map_option data (m b)"
    using a Cons by (auto simp: m0_def set_succ_def set_prev_def)
  have "tw_holds m' (Some a) ((a, d) # ts)" unfolding tw_holds_def
  proof (intro conjI ballI)
    fix z
    assume z: "z \<in> set ((a, d) # ts)"
    show "map_option data (m' (fst z)) = Some (snd z)"
    proof (cases "z \<in> set ts")
      case True
      then have "fst z \<noteq> a" using a by auto
      then show ?thesis using m'(5) assms(1) True by (simp add: tw_holds_def)
    qed (use z m'(4) in simp)
  qed (use m'(2) a assms(1) in \<open>auto simp: tw_holds_def\<close>)
  moreover have "h = Some (fst x)" using d(1) by simp
  ultimately show ?thesis using m'(1,3) by auto
qed

lemma countdown_new: "c < N \<Longrightarrow> countdown c \<lparr>rotation = k div N, time_slot = (c + k mod N) mod N, tw_data = u\<rparr> = k"
proof -
  assume c: "c < N"
  have n: "0 < N" by (simp add: N_def)
  have r: "k mod N < N" using n by simp
  have "((c + k mod N) mod N + N - c) mod N = k mod N"
  proof (cases "c + k mod N < N")
    case True
    then have "(c + k mod N) mod N + N - c = k mod N + N" by simp
    then show ?thesis by simp
  next
    case False
    have "c + k mod N - N < N" using c r by linarith
    then have "(c + k mod N) mod N = c + k mod N - N" using False by (simp add: le_mod_geq)
    then have "(c + k mod N) mod N + N - c = k mod N" using False by simp
    then show ?thesis by simp
  qed
  then show ?thesis by (simp add: countdown_def)
qed

lemma UN_slot:
  fixes f :: "'a \<Rightarrow> 'b"
  assumes "c < N"
  shows "(\<Union>s < N. f ` set ((L(c := l)) s)) = (\<Union>s \<in> {..<N} - {c}. f ` set (L s)) \<union> f ` set l"
    "(\<Union>s < N. f ` set (L s)) = (\<Union>s \<in> {..<N} - {c}. f ` set (L s)) \<union> f ` set (L c)"
proof -
  have u: "(\<Union>s < N. F s) = F c \<union> (\<Union>s \<in> {..<N} - {c}. F s)" for F :: "nat \<Rightarrow> 'b set" using assms by auto
  show "(\<Union>s < N. f ` set ((L(c := l)) s)) = (\<Union>s \<in> {..<N} - {c}. f ` set (L s)) \<union> f ` set l"
    unfolding u [of "\<lambda>s. f ` set ((L(c := l)) s)"] by auto
  show "(\<Union>s < N. f ` set (L s)) = (\<Union>s \<in> {..<N} - {c}. f ` set (L s)) \<union> f ` set (L c)"
    unfolding u [of "\<lambda>s. f ` set (L s)"] by (rule Un_commute)
qed

lemma wheel_content_add:
  assumes "wheel_content w C" "nodes w a = None" "0 \<le> timeout"
  shows "\<exists>w'. wheel_add_timer w a u timeout = Some (Some a, w') \<and> wheel_content w' (insert (ticks_of (nat timeout), a, u) C)"
proof -
  obtain L where L: "wheel_inv w L" "C = (\<Union>s < N. tw_entry (cur_slot w) ` set (L s))" using assms by (auto simp: wheel_content_def)
  let ?c = "cur_slot w" and ?k = "ticks_of (nat timeout)"
  let ?ts = "(?c + ?k mod N) mod N"
  let ?d = "\<lparr>rotation = ?k div N, time_slot = ?ts, tw_data = u\<rparr>"
  have c: "?c < N" "length (slots w) = N" using L(1) by (auto simp: wheel_inv_def)
  have ts: "?ts < N" by (simp add: N_def)
  note h = wheel_inv_slot [OF L(1) ts]
  from tw_push [OF h(1) assms(2), of ?d] obtain m' where m':
    "(case slots w ! ?ts of None \<Rightarrow> Some ((nodes w)(a \<mapsto> \<lparr>prev = None, succ = None, data = ?d\<rparr>))
      | Some old \<Rightarrow> set_succ ((nodes w)(a \<mapsto> \<lparr>prev = None, succ = None, data = ?d\<rparr>)) a (slots w ! ?ts) \<bind> (\<lambda>m. set_prev m old (Some a))) = Some m'"
    "tw_holds m' (Some a) ((a, ?d) # L ?ts)" "\<forall>b. b \<notin> insert a (fst ` set (L ?ts)) \<longrightarrow> m' b = nodes w b" by blast
  let ?w = "w\<lparr>nodes := m', slots := (slots w)[?ts := Some a], cur_slot := ?c\<rparr>" and ?L = "L(?ts := (a, ?d) # L ?ts)"
  have fresh: "a \<notin> addrs (L s)" if "s < N" for s
    using tw_holds_fresh [OF wheel_inv_slot(1) [OF L(1) that] assms(2)] by (simp add: addrs_def)
  have "wheel_inv ?w ?L"
  proof (rule wheel_inv_replace [OF L(1) ts m'(2)])
    show "addrs ((a, ?d) # L ?ts) \<inter> (\<Union>s \<in> {..<N} - {?ts}. addrs (L s)) = {}" using h(4) fresh by (auto simp: addrs_def)
  qed (use h(3) m'(3) c(1) in \<open>auto simp: addrs_def\<close>)
  moreover have e: "insert (?k, a, u) C = (\<Union>s < N. tw_entry ?c ` set (?L s))"
    using countdown_new [OF c(1), of ?k u] unfolding L(2) UN_slot(1) [OF ts] UN_slot(2) [OF ts, of _ L] by (simp add: tw_entry_def)
  moreover have "wheel_add_timer w a u timeout = Some (Some a, w\<lparr>nodes := m', slots := (slots w)[?ts := Some a]\<rparr>)"
    using m'(1) assms(3) h(2) c ts by (cases "slots w ! ?ts") (auto simp: wheel_add_timer_def slot_set_def bind_eq_Some_conv Let_def)
  moreover have "wheel_content ?w (insert (?k, a, u) C)"
    unfolding wheel_content_def using calculation(1) e by (intro exI [of _ ?L]) (simp del: fun_upd_apply)
  ultimately show ?thesis by auto
qed

lemma wheel_content_del:
  assumes "wheel_content w C" "(k, a, u) \<in> C"
  shows "\<exists>w'. wheel_del_timer w (Some a) = Some w' \<and> wheel_content w' {x \<in> C. fst (snd x) \<noteq> a}"
proof -
  obtain L where L: "wheel_inv w L" "C = (\<Union>s < N. tw_entry (cur_slot w) ` set (L s))" using assms by (auto simp: wheel_content_def)
  then obtain s x where x: "s < N" "x \<in> set (L s)" "fst x = a" using assms(2) by (auto simp: tw_entry_def)
  then obtain us vs where uv: "L s = us @ x # vs" by (meson split_list)
  have c: "cur_slot w < N" "length (slots w) = N" using L(1) by (auto simp: wheel_inv_def)
  note h = wheel_inv_slot [OF L(1) x(1)]
  have holds: "tw_holds (nodes w) (slots w ! s) (us @ x # vs)" using h(1) uv by simp
  obtain n where n: "nodes w a = Some n" "data n = snd x" "slots w ! s = Some a \<longleftrightarrow> us = []"
      and sc: "succ n = (if vs = [] then None else Some (fst (hd vs)))"
    using tw_holds_node [OF holds] x(3) by metis
  have d: "a \<notin> fst ` set (us @ vs)" "distinct (map fst (us @ vs))" using holds x(3) by (auto simp: tw_holds_def)
  have ne: "succ n \<noteq> Some a" using sc d(1) by (cases vs) auto
  have ts: "time_slot (data n) = s" using h(3) [OF x(2)] n(2) by simp
  have "\<exists>m' h'. wheel_del_timer w (Some a) = Some (w\<lparr>nodes := m', slots := (slots w)[s := h']\<rparr>) \<and> tw_holds m' h' (us @ vs) \<and>
      m' a = None \<and> (\<forall>b. b \<notin> fst ` set (us @ x # vs) \<longrightarrow> m' b = nodes w b)"
  proof (cases us rule: rev_cases)
    case Nil
    obtain m' where m': "wheel_fire_head (nodes w) a n = Some m'" "tw_holds m' (succ n) vs" "m' a = None"
        "\<forall>b. b \<notin> fst ` set (x # vs) \<longrightarrow> m' b = nodes w b"
      using tw_remove_head [of "nodes w" "slots w ! s" x vs n] holds n(1) x(3) Nil by auto
    have "wheel_del_timer w (Some a) = Some (w\<lparr>nodes := m', slots := (slots w)[s := succ n]\<rparr>)"
      using m'(1) n ts h(2) c(2) x(1) Nil ne
      by (cases "succ n") (auto simp: wheel_del_timer_def wheel_fire_head_def slot_set_def del_node_def set_prev_def
          bind_eq_Some_conv fun_upd_twist split: if_splits)
    then show ?thesis using m' Nil by auto
  next
    case (snoc us' u)
    obtain m' where m': "wheel_fire_inner (nodes w) a n = Some m'" "tw_holds m' (slots w ! s) (us @ vs)" "m' a = None"
        "\<forall>b. b \<notin> fst ` set (us @ x # vs) \<longrightarrow> m' b = nodes w b"
      using tw_unlink [of "nodes w" "slots w ! s" us' u x vs n] holds n(1) x(3) snoc by auto
    have "wheel_del_timer w (Some a) = Some (w\<lparr>nodes := m', slots := (slots w)[s := slots w ! s]\<rparr>)"
      using m'(1) n ts h(2) snoc by (auto simp: wheel_del_timer_def wheel_fire_inner_def bind_eq_Some_conv)
    then show ?thesis using m'(2-4) by blast
  qed
  then obtain m' h' where m': "wheel_del_timer w (Some a) = Some (w\<lparr>nodes := m', slots := (slots w)[s := h']\<rparr>)"
      "tw_holds m' h' (us @ vs)" "m' a = None" "\<forall>b. b \<notin> fst ` set (us @ x # vs) \<longrightarrow> m' b = nodes w b" by blast
  let ?w = "w\<lparr>nodes := m', slots := (slots w)[s := h'], cur_slot := cur_slot w\<rparr>" and ?L = "L(s := us @ vs)"
  have i: "wheel_inv ?w ?L"
  proof (rule wheel_inv_replace [OF L(1) x(1) m'(2)])
    show "addrs (us @ vs) \<inter> (\<Union>s' \<in> {..<N} - {s}. addrs (L s')) = {}" using h(4) uv by (auto simp: addrs_def)
  qed (use h(3) m'(3,4) c(1) uv x(3) in \<open>auto simp: addrs_def\<close>)
  have "a \<in> addrs (L s)" using x by (auto simp: addrs_def)
  then have "a \<notin> fst ` set (L s')" if "s' < N" "s' \<noteq> s" for s' using h(4) that by (auto simp: addrs_def)
  then have o1: "fst y \<noteq> a" if "y \<in> set (L s')" "s' < N" "s' \<noteq> s" for y s' using that by force
  have o2: "fst y \<noteq> a" if "y \<in> set (us @ vs)" for y using d(1) that by auto
  have A: "{y \<in> (\<Union>s' \<in> {..<N} - {s}. tw_entry (cur_slot w) ` set (L s')). fst (snd y) \<noteq> a} =
      (\<Union>s' \<in> {..<N} - {s}. tw_entry (cur_slot w) ` set (L s'))"
    using o1 by (auto simp: tw_entry_def) blast
  have B: "{y \<in> tw_entry (cur_slot w) ` set (us @ x # vs). fst (snd y) \<noteq> a} = tw_entry (cur_slot w) ` set (us @ vs)"
    using o2 x(3) by (auto simp: tw_entry_def) blast+
  have "{y \<in> P \<union> Q. fst (snd y) \<noteq> a} = {y \<in> P. fst (snd y) \<noteq> a} \<union> {y \<in> Q. fst (snd y) \<noteq> a}" for P Q :: "(nat \<times> nat \<times> nat) set"
    by auto
  then have e: "{x \<in> C. fst (snd x) \<noteq> a} = (\<Union>s < N. tw_entry (cur_slot w) ` set (?L s))"
    unfolding L(2) UN_slot(1) [OF x(1)] UN_slot(2) [OF x(1), of _ L] uv by (simp only: A B)
  have "wheel_content ?w {x \<in> C. fst (snd x) \<noteq> a}"
    unfolding wheel_content_def using i e by (intro exI [of _ ?L]) (simp del: fun_upd_apply)
  then show ?thesis using m'(1) by auto
qed

subsection \<open>Properties\<close>

text \<open>Running \<open>tick\<close> a number of times, with what each call ran.\<close>

fun wheel_ticks :: "time_wheel \<Rightarrow> nat \<Rightarrow> ((nat \<times> nat) list list \<times> time_wheel) option" where
  "wheel_ticks w 0 = Some ([], w)"
| "wheel_ticks w (Suc n) = do {
     (fs, w) \<leftarrow> wheel_tick w;
     (fss, w) \<leftarrow> wheel_ticks w n;
     Some (map (\<lambda>x. (fst x, tw_data (snd x))) fs # fss, w)
   }"

text \<open>The timers with a given countdown, and all countdowns \<open>n\<close> calls later.\<close>

definition due_at :: "nat \<Rightarrow> (nat \<times> nat \<times> nat) set \<Rightarrow> (nat \<times> nat) set" where
  "due_at i C = {p. (i, p) \<in> C}"

definition advance :: "nat \<Rightarrow> (nat \<times> nat \<times> nat) set \<Rightarrow> (nat \<times> nat \<times> nat) set" where
  "advance n C = {x. (fst x + n, snd x) \<in> C}"

lemma advance_simps [simp]: "advance 0 C = C" "advance n (advance 1 C) = advance (Suc n) C" "due_at i (advance 1 C) = due_at (Suc i) C"
  by (auto simp: advance_def due_at_def)

lemma wheel_content_tick_at:
  assumes "wheel_content w C"
  shows "\<exists>fs w'. wheel_tick w = Some (fs, w') \<and> (\<lambda>x. (fst x, tw_data (snd x))) ` set fs = due_at 0 C \<and> wheel_content w' (advance 1 C)"
proof -
  have "{(a, u). (0, a, u) \<in> C} = due_at 0 C" "{(k, a, u). (Suc k, a, u) \<in> C} = advance 1 C"
    by (auto simp: due_at_def advance_def)
  then show ?thesis using wheel_content_tick [OF assms] by auto
qed

lemma wheel_ticks_ok:
  "wheel_content w C \<Longrightarrow> \<exists>fss w'. wheel_ticks w n = Some (fss, w') \<and> length fss = n \<and>
     (\<forall>i < n. set (fss ! i) = due_at i C) \<and> wheel_content w' (advance n C)"
proof (induction n arbitrary: w C)
  case 0
  then show ?case by simp
next
  case (Suc n)
  obtain fs w1 where f: "wheel_tick w = Some (fs, w1)" "(\<lambda>x. (fst x, tw_data (snd x))) ` set fs = due_at 0 C"
      "wheel_content w1 (advance 1 C)"
    using wheel_content_tick_at [OF Suc.prems] by blast
  obtain fss w' where g: "wheel_ticks w1 n = Some (fss, w')" "length fss = n"
      "\<forall>i < n. set (fss ! i) = due_at (Suc i) C" "wheel_content w' (advance (Suc n) C)"
    using Suc.IH [OF f(3)] by (auto simp del: One_nat_def)
  have "set ((map (\<lambda>x. (fst x, tw_data (snd x))) fs # fss) ! i) = due_at i C" if "i < Suc n" for i
    using that f(2) g(3) by (cases i) auto
  then show ?case using f(1) g by auto
qed

lemma wheel_content_live: "wheel_content w C \<Longrightarrow> nodes w a = None \<Longrightarrow> (k, a, u) \<notin> C"
  by (auto simp: wheel_content_def tw_entry_def dest!: wheel_inv_slot(1) tw_holds_fresh)

lemma wheel_content_new: "wheel_content (wheel_new Map.empty) {}"
  by (auto simp: wheel_content_def wheel_inv_def wheel_new_def addrs_def N_def intro!: exI [of _ "\<lambda>_. []"])

text \<open>C8. Time wheel: a timer added with a timeout runs in exactly one call of \<open>tick\<close>, number \<open>ticks + 1\<close> after
  it was added, where \<open>ticks\<close> is the timeout rounded up to 1, for any number of rotations and whatever
  other timers are on the wheel.\<close>

theorem wheel_fires_once:
  assumes "wheel_content w C" "nodes w a = None" "0 \<le> timeout"
  shows "\<exists>w1 fss w2. wheel_add_timer w a u timeout = Some (Some a, w1) \<and> wheel_ticks w1 n = Some (fss, w2) \<and> length fss = n \<and>
    (\<forall>i < n. set (fss ! i) = (if i = max 1 (nat timeout) then insert (a, u) (due_at i C) else due_at i C)) \<and>
    (\<forall>i. (a, u) \<notin> due_at i C)"
proof -
  have ticks: "ticks_of (nat timeout) = max 1 (nat timeout)" by (auto simp: ticks_of_def TI_def max_def)
  obtain w1 where w1: "wheel_add_timer w a u timeout = Some (Some a, w1)" "wheel_content w1 (insert (ticks_of (nat timeout), a, u) C)"
    using wheel_content_add [OF assms] by blast
  obtain fss w2 where f: "wheel_ticks w1 n = Some (fss, w2)" "length fss = n"
      "\<forall>i < n. set (fss ! i) = due_at i (insert (ticks_of (nat timeout), a, u) C)"
    using wheel_ticks_ok [OF w1(2)] by blast
  have "due_at i (insert (k, a, u) C) = (if i = k then insert (a, u) (due_at i C) else due_at i C)" for i k
    by (auto simp: due_at_def)
  then show ?thesis using w1(1) f wheel_content_live [OF assms(1,2)] by (auto simp: due_at_def ticks)
qed

text \<open>Time wheel: a deleted timer is freed and never runs, and the countdowns of all other timers stay as they
  are.\<close>

theorem wheel_del_removes:
  assumes "wheel_content w C" "(k, a, u) \<in> C"
  shows "\<exists>w1 fss w2. wheel_del_timer w (Some a) = Some w1 \<and> wheel_content w1 {x \<in> C. fst (snd x) \<noteq> a} \<and>
    wheel_ticks w1 n = Some (fss, w2) \<and> length fss = n \<and> (\<forall>i < n. set (fss ! i) = {p \<in> due_at i C. fst p \<noteq> a})"
proof -
  obtain w1 where w1: "wheel_del_timer w (Some a) = Some w1" "wheel_content w1 {x \<in> C. fst (snd x) \<noteq> a}"
    using wheel_content_del [OF assms] by blast
  moreover have "due_at i {x \<in> C. fst (snd x) \<noteq> a} = {p \<in> due_at i C. fst p \<noteq> a}" for i by (auto simp: due_at_def)
  ultimately show ?thesis using wheel_ticks_ok [OF w1(2), of n] by auto
qed

theorem wheel_del_removes_witness:
  "\<exists>w w1 fss w2. wheel_content w {(3, 1, 7)} \<and> wheel_del_timer w (Some 1) = Some w1 \<and> wheel_ticks w1 5 = Some (fss, w2) \<and>
     set (fss ! 3) = {}"
proof -
  obtain w where w: "wheel_content w {(3, 1, 7)}"
    using wheel_content_add [OF wheel_content_new, of 1 3 7] by (auto simp: wheel_new_def ticks_of_def TI_def)
  from wheel_del_removes [OF w, of 3 1 7 5] obtain w1 fss w2 where
    e: "wheel_del_timer w (Some 1) = Some w1" "wheel_ticks w1 5 = Some (fss, w2)" "set (fss ! 3) = {p \<in> due_at 3 {(3, 1, 7)}. fst p \<noteq> 1}"
    by auto
  have z: "{p \<in> due_at 3 {(3, 1, 7)}. fst p \<noteq> 1} = {}" by (auto simp: due_at_def)
  show ?thesis by (intro exI conjI, rule w, rule e(1), rule e(2)) (simp only: e(3) z)
qed

theorem wheel_fires_once_witness:
  "\<exists>w1 fss w2. wheel_add_timer (wheel_new Map.empty) 1 7 125 = Some (Some 1, w1) \<and> wheel_ticks w1 130 = Some (fss, w2) \<and>
     set (fss ! 125) = {(1, 7)} \<and> set (fss ! 124) = {}"
proof -
  have "nodes (wheel_new Map.empty) 1 = None" by (simp add: wheel_new_def)
  then obtain w1 fss w2 where e: "wheel_add_timer (wheel_new Map.empty) 1 7 125 = Some (Some 1, w1)" "wheel_ticks w1 130 = Some (fss, w2)"
      and f: "\<forall>i < 130. set (fss ! i) = (if i = 125 then insert (1, 7) (due_at i {}) else due_at i {})"
    using wheel_fires_once [OF wheel_content_new, of 1 125 7 130] by auto
  have "set (fss ! 125) = {(1, 7)}" using f [rule_format, of 125] by (simp add: due_at_def)
  moreover have "set (fss ! 124) = {}" using f [rule_format, of 124] by (simp add: due_at_def)
  ultimately show ?thesis using e by blast
qed

end
