(* ===== verification/Conn_Pool.thy ===== *)
theory Conn_Pool
  imports Task_Pool
begin

text \<open>
  The database connection pool and the request pool of the web server
  (\<open>c-plus-plus-server/webserver/CGImysql/sql_connection_pool.cpp\<close> and \<open>threadpool/threadpool.h\<close>).  A section under the
  lock is one step; what a thread does outside it (the unlocked check of the list, waiting for and
  posting the semaphore) are steps of their own, and threads interleave.  Shown: no thread takes a
  connection from an empty list and no connection is used twice, until \<open>DestroyPool\<close> is called, which
  does not reset the semaphore; the request queue is a bounded first-in-first-out queue, and a worker
  returns its connection.
\<close>

subsection \<open>The connection pool\<close>

text \<open>Connections are numbers.  \<open>reserve\<close> is the value of the semaphore, \<open>closed\<close> the connections given to
  \<open>mysql_close\<close>.\<close>

record connection_pool =
  m_MaxConn :: int
  m_CurConn :: int
  m_FreeConn :: int
  connList :: "nat list"
  reserve :: nat
  closed :: "nat list"

definition pool_new :: connection_pool where
  "pool_new = \<lparr>m_MaxConn = 0, m_CurConn = 0, m_FreeConn = 0, connList = [], reserve = 0, closed = []\<rparr>"

text \<open>\<open>init\<close>: \<open>connect i\<close> is the connection of round \<open>i\<close>, \<open>None\<close> where MySQL fails and the program exits.\<close>

fun init_loop :: "(nat \<Rightarrow> nat option) \<Rightarrow> nat \<Rightarrow> nat \<Rightarrow> connection_pool \<Rightarrow> connection_pool option" where
  "init_loop connect i 0 p = Some p"
| "init_loop connect i (Suc n) p = do {
     con \<leftarrow> connect i;
     init_loop connect (Suc i) n (p\<lparr>connList := connList p @ [con], m_FreeConn := m_FreeConn p + 1\<rparr>)
   }"

definition pool_init :: "(nat \<Rightarrow> nat option) \<Rightarrow> int \<Rightarrow> connection_pool \<Rightarrow> connection_pool option" where
  "pool_init connect MaxConn p = do {
     p \<leftarrow> init_loop connect 0 (nat MaxConn) p;
     Some (p\<lparr>reserve := nat (m_FreeConn p), m_MaxConn := m_FreeConn p\<rparr>)
   }"

text \<open>The critical sections of \<open>GetConnection\<close> and \<open>ReleaseConnection\<close>; \<open>None\<close> is \<open>front\<close> of an empty list.\<close>

definition get_take :: "connection_pool \<Rightarrow> (nat \<times> connection_pool) option" where
  "get_take p = (case connList p of
     [] \<Rightarrow> None
   | con # cs \<Rightarrow> Some (con, p\<lparr>connList := cs, m_FreeConn := m_FreeConn p - 1, m_CurConn := m_CurConn p + 1\<rparr>))"

definition release_put :: "connection_pool \<Rightarrow> nat \<Rightarrow> connection_pool" where
  "release_put p con = p\<lparr>connList := connList p @ [con], m_FreeConn := m_FreeConn p + 1, m_CurConn := m_CurConn p - 1\<rparr>"

text \<open>Both operations run by one thread without interference; \<open>Some None\<close> is the result NULL.  A wait on a
  semaphore at 0 would block.\<close>

datatype 'a outcome = Done 'a | Blocked

definition GetConnection :: "connection_pool \<Rightarrow> (nat option \<times> connection_pool) outcome option" where
  "GetConnection p =
     (if 0 = length (connList p) then Some (Done (None, p))
      else if reserve p = 0 then Some Blocked
      else do {
        (con, p) \<leftarrow> get_take (p\<lparr>reserve := reserve p - 1\<rparr>);
        Some (Done (Some con, p))
      })"

definition ReleaseConnection :: "connection_pool \<Rightarrow> nat option \<Rightarrow> bool \<times> connection_pool" where
  "ReleaseConnection p con = (case con of
     None \<Rightarrow> (False, p)
   | Some c \<Rightarrow> (let p = release_put p c in (True, p\<lparr>reserve := reserve p + 1\<rparr>)))"

definition DestroyPool :: "connection_pool \<Rightarrow> connection_pool" where
  "DestroyPool p =
     (if length (connList p) > 0 then p\<lparr>closed := closed p @ connList p, m_CurConn := 0, m_FreeConn := 0, connList := []\<rparr>
      else p)"

definition GetFreeConn :: "connection_pool \<Rightarrow> int" where
  "GetFreeConn p = m_FreeConn p"

subsection \<open>Threads\<close>

text \<open>Where a thread is: outside, past the unlocked check of \<open>GetConnection\<close>, past the wait, using a connection, or
  between putting one back and posting.\<close>

datatype conn_pc = Idle | Checked | Reserved | Using nat | Posting

record conn_sys =
  pool :: connection_pool
  pcs :: "conn_pc list"
  broken :: bool

inductive conn_step :: "conn_sys \<Rightarrow> conn_sys \<Rightarrow> bool" where
  step_null: "i < length (pcs s) \<Longrightarrow> pcs s ! i = Idle \<Longrightarrow> connList (pool s) = [] \<Longrightarrow> conn_step s s"
| step_check: "i < length (pcs s) \<Longrightarrow> pcs s ! i = Idle \<Longrightarrow> connList (pool s) \<noteq> [] \<Longrightarrow>
    conn_step s (s\<lparr>pcs := (pcs s)[i := Checked]\<rparr>)"
| step_wait: "i < length (pcs s) \<Longrightarrow> pcs s ! i = Checked \<Longrightarrow> reserve (pool s) > 0 \<Longrightarrow>
    conn_step s (s\<lparr>pool := (pool s)\<lparr>reserve := reserve (pool s) - 1\<rparr>, pcs := (pcs s)[i := Reserved]\<rparr>)"
| step_take: "i < length (pcs s) \<Longrightarrow> pcs s ! i = Reserved \<Longrightarrow> get_take (pool s) = Some (c, p) \<Longrightarrow>
    conn_step s (s\<lparr>pool := p, pcs := (pcs s)[i := Using c]\<rparr>)"
| step_fault: "i < length (pcs s) \<Longrightarrow> pcs s ! i = Reserved \<Longrightarrow> get_take (pool s) = None \<Longrightarrow>
    conn_step s (s\<lparr>broken := True\<rparr>)"
| step_put: "i < length (pcs s) \<Longrightarrow> pcs s ! i = Using c \<Longrightarrow>
    conn_step s (s\<lparr>pool := release_put (pool s) c, pcs := (pcs s)[i := Posting]\<rparr>)"
| step_post: "i < length (pcs s) \<Longrightarrow> pcs s ! i = Posting \<Longrightarrow>
    conn_step s (s\<lparr>pool := (pool s)\<lparr>reserve := reserve (pool s) + 1\<rparr>, pcs := (pcs s)[i := Idle]\<rparr>)"

definition conn_init :: "nat list \<Rightarrow> nat \<Rightarrow> conn_sys \<Rightarrow> bool" where
  "conn_init cons n s \<longleftrightarrow> pool s = \<lparr>m_MaxConn = int (length cons), m_CurConn = 0, m_FreeConn = int (length cons), connList = cons,
     reserve = length cons, closed = []\<rparr> \<and> pcs s = replicate n Idle \<and> \<not> broken s"

fun used :: "conn_pc \<Rightarrow> nat list" where
  "used (Using c) = [c]"
| "used _ = []"

definition in_use :: "conn_pc list \<Rightarrow> nat list" where
  "in_use ps = concat (map used ps)"

text \<open>A thread past the wait has reserved a connection of the list, and one that has put its connection back has
  not counted it yet.\<close>

fun owes :: "conn_pc \<Rightarrow> nat" where
  "owes Reserved = 1"
| "owes Posting = 1"
| "owes _ = 0"

definition pending :: "conn_pc list \<Rightarrow> nat" where
  "pending ps = sum_list (map owes ps)"

definition conn_inv :: "nat list \<Rightarrow> conn_sys \<Rightarrow> bool" where
  "conn_inv cons s \<longleftrightarrow> \<not> broken s \<and> mset (connList (pool s)) + mset (in_use (pcs s)) = mset cons \<and>
     length (connList (pool s)) = reserve (pool s) + pending (pcs s) \<and>
     m_FreeConn (pool s) = int (length (connList (pool s))) \<and> m_CurConn (pool s) = int (length (in_use (pcs s))) \<and>
     m_MaxConn (pool s) = int (length cons)"

text \<open>The effect of one thread's move on the connections in use and on the pending count.\<close>

lemma in_use_update:
  "i < length ps \<Longrightarrow> mset (in_use (ps[i := p])) + mset (used (ps ! i)) = mset (in_use ps) + mset (used p)"
  by (induction ps arbitrary: i) (auto simp: in_use_def nth_Cons ac_simps split: nat.splits)

lemma pending_update: "i < length ps \<Longrightarrow> pending (ps[i := p]) + owes (ps ! i) = pending ps + owes p"
proof (induction ps arbitrary: i)
  case (Cons q ps)
  then show ?case by (cases i) (auto simp: pending_def)
qed simp

lemma length_in_use_update: "i < length ps \<Longrightarrow> length (in_use (ps[i := p])) + length (used (ps ! i)) = length (in_use ps) + length (used p)"
  using arg_cong [OF in_use_update, of i ps size p] by simp

lemmas thread_moves = in_use_update length_in_use_update pending_update

lemma conn_step_inv: "conn_step s t \<Longrightarrow> conn_inv cons s \<Longrightarrow> conn_inv cons t"
proof (induction rule: conn_step.induct)
  case (step_check i s)
  then show ?case using thread_moves [of i "pcs s" Checked] by (simp add: conn_inv_def)
next
  case (step_wait i s)
  then show ?case using thread_moves [of i "pcs s" Reserved] by (simp add: conn_inv_def)
next
  case (step_take i s c p)
  then obtain cs where "connList (pool s) = c # cs"
      "p = (pool s)\<lparr>connList := cs, m_FreeConn := m_FreeConn (pool s) - 1, m_CurConn := m_CurConn (pool s) + 1\<rparr>"
    by (auto simp: get_take_def split: list.splits)
  then show ?case using step_take thread_moves [of i "pcs s" "Using c"] by (simp add: conn_inv_def)
next
  case (step_fault i s)
  then show ?case using pending_update [of i "pcs s" Idle] by (auto simp: conn_inv_def get_take_def split: list.splits)
next
  case (step_put i s c)
  have "mset (in_use (pcs s)) = add_mset c (mset (in_use ((pcs s)[i := Posting])))"
    using in_use_update [OF step_put(1), of Posting] step_put(2) by simp
  moreover have "mset (connList (pool s)) + mset (in_use (pcs s)) = mset cons" using step_put by (simp add: conn_inv_def)
  ultimately have "add_mset c (mset (connList (pool s)) + mset (in_use ((pcs s)[i := Posting]))) = mset cons" by simp
  then show ?case using step_put thread_moves(2,3) [of i "pcs s" Posting] by (simp add: conn_inv_def release_put_def)
next
  case (step_post i s)
  then show ?case using thread_moves [of i "pcs s" Idle] by (simp add: conn_inv_def)
qed simp

interpretation conns: invariant_system "conn_init cons n" conn_step "conn_inv cons" for cons n
proof
  fix s
  assume "conn_init cons n s"
  moreover have "in_use (replicate n Idle) = []" "pending (replicate n Idle) = 0"
    by (simp_all add: in_use_def pending_def sum_list_replicate)
  ultimately show "conn_inv cons s" by (simp add: conn_init_def conn_inv_def)
qed (rule conn_step_inv)

subsection \<open>The request pool\<close>

text \<open>A request as the pool sees it: \<open>m_state\<close>, \<open>improv\<close>, \<open>timer_flag\<close> and the connection \<open>mysql\<close> of
  \<open>http_conn\<close>.\<close>

record request =
  m_state :: int
  improv :: int
  timer_flag :: int
  mysql :: "nat option"

record threadpool =
  m_workqueue :: "nat option list"
  m_max_requests :: int
  m_queuestat :: nat
  m_actor_model :: int

text \<open>The constructor; \<open>started i\<close> says whether \<open>pthread_create\<close> and \<open>pthread_detach\<close> succeed for thread \<open>i\<close>, and
  \<open>None\<close> is the exception.\<close>

definition threadpool_new :: "(nat \<Rightarrow> bool) \<Rightarrow> int \<Rightarrow> int \<Rightarrow> int \<Rightarrow> threadpool option" where
  "threadpool_new started actor_model thread_number max_requests =
     (if thread_number \<le> 0 \<or> max_requests \<le> 0 then None
      else if \<forall>i < nat thread_number. started i
      then Some \<lparr>m_workqueue = [], m_max_requests = max_requests, m_queuestat = 0, m_actor_model = actor_model\<rparr>
      else None)"

definition append :: "threadpool \<Rightarrow> (nat \<Rightarrow> request) \<Rightarrow> nat \<Rightarrow> int \<Rightarrow> bool \<times> threadpool \<times> (nat \<Rightarrow> request)" where
  "append p reqs r state =
     (if int (length (m_workqueue p)) \<ge> m_max_requests p then (False, p, reqs)
      else (True, p\<lparr>m_workqueue := m_workqueue p @ [Some r], m_queuestat := m_queuestat p + 1\<rparr>,
            reqs(r := (reqs r)\<lparr>m_state := state\<rparr>)))"

definition append_p :: "threadpool \<Rightarrow> nat option \<Rightarrow> bool \<times> threadpool" where
  "append_p p r =
     (if int (length (m_workqueue p)) \<ge> m_max_requests p then (False, p)
      else (True, p\<lparr>m_workqueue := m_workqueue p @ [r], m_queuestat := m_queuestat p + 1\<rparr>))"

text \<open>The first half of a round of \<open>run\<close>, up to the end of the critical section: \<open>Blocked\<close> while the semaphore is
  0, nothing when the queue is empty.\<close>

definition run_fetch :: "threadpool \<Rightarrow> (nat option \<times> threadpool) outcome" where
  "run_fetch p =
     (if m_queuestat p = 0 then Blocked
      else (let p = p\<lparr>m_queuestat := m_queuestat p - 1\<rparr>
            in case m_workqueue p of
                 [] \<Rightarrow> Done (None, p)
               | r # rs \<Rightarrow> Done (r, p\<lparr>m_workqueue := rs\<rparr>)))"

text \<open>\<open>connectionRAII\<close> around \<open>process\<close>: the connection is taken, the request processed with it, and the
  destructor gives it back.  \<open>process\<close> is a parameter.\<close>

definition process_with_connection :: "(request \<Rightarrow> request) \<Rightarrow> connection_pool \<Rightarrow> request \<Rightarrow> (request \<times> connection_pool) outcome option" where
  "process_with_connection process cp r = do {
     g \<leftarrow> GetConnection cp;
     Some (case g of
       Blocked \<Rightarrow> Blocked
     | Done (con, cp) \<Rightarrow> (let r = process (r\<lparr>mysql := con\<rparr>) in Done (r, snd (ReleaseConnection cp con))))
   }"

text \<open>The second half of a round of \<open>run\<close>: what the worker does with a request, where \<open>read_once\<close>, \<open>write\<close> and
  \<open>process\<close> are members of the request.\<close>

definition run_handle :: "(request \<Rightarrow> bool) \<Rightarrow> (request \<Rightarrow> bool) \<Rightarrow> (request \<Rightarrow> request) \<Rightarrow> threadpool \<Rightarrow> connection_pool \<Rightarrow>
    request \<Rightarrow> (request \<times> connection_pool) outcome option" where
  "run_handle read_once write process p cp r =
     (if 1 = m_actor_model p then
        (if 0 = m_state r then
           (if read_once r then process_with_connection process cp (r\<lparr>improv := 1\<rparr>)
            else Some (Done (r\<lparr>improv := 1, timer_flag := 1\<rparr>, cp)))
         else if write r then Some (Done (r\<lparr>improv := 1\<rparr>, cp))
         else Some (Done (r\<lparr>improv := 1, timer_flag := 1\<rparr>, cp)))
      else process_with_connection process cp r)"

subsection \<open>The request queue is a bounded queue\<close>

definition queue_holds :: "threadpool \<Rightarrow> nat list \<Rightarrow> bool" where
  "queue_holds p rs \<longleftrightarrow> m_workqueue p = map Some rs \<and> m_queuestat p = length rs \<and> int (length rs) \<le> m_max_requests p"

definition queue_room :: "threadpool \<Rightarrow> nat \<Rightarrow> bool" where
  "queue_room p r \<longleftrightarrow> int (length (m_workqueue p)) < m_max_requests p"

definition queue_put :: "threadpool \<Rightarrow> nat \<Rightarrow> threadpool option" where
  "queue_put p r = Some (snd (append_p p (Some r)))"

definition queue_take :: "threadpool \<Rightarrow> (nat option \<times> threadpool) option" where
  "queue_take p = Some (case run_fetch p of Blocked \<Rightarrow> (None, p) | Done x \<Rightarrow> x)"

interpretation requests: fifo_pool queue_holds queue_room queue_put queue_take
  by unfold_locales (auto simp: queue_holds_def queue_room_def queue_put_def queue_take_def append_p_def run_fetch_def Let_def)

text \<open>One thread past the wait, one idle.\<close>

definition conn_reserved :: conn_sys where
  "conn_reserved = \<lparr>pool = \<lparr>m_MaxConn = 2, m_CurConn = 0, m_FreeConn = 2, connList = [4, 5], reserve = 1, closed = []\<rparr>,
     pcs = [Reserved, Idle], broken = False\<rparr>"

lemma conn_example: "reachable (conn_init [4, 5] 2) conn_step conn_reserved"
proof -
  let ?s0 = "conn_reserved\<lparr>pool := (pool conn_reserved)\<lparr>reserve := 2\<rparr>, pcs := [Idle, Idle]\<rparr>"
  let ?s1 = "?s0\<lparr>pcs := [Checked, Idle]\<rparr>"
  have "reachable (conn_init [4, 5] 2) conn_step ?s0"
    by (rule reach_init) (simp add: conn_init_def conn_reserved_def numeral_2_eq_2)
  moreover have "conn_step ?s0 ?s1" using step_check [of 0 ?s0] by (simp add: conn_reserved_def)
  moreover have "conn_step ?s1 conn_reserved" using step_wait [of 0 ?s1] by (simp add: conn_reserved_def)
  ultimately show ?thesis by (blast intro: reach_step)
qed

subsection \<open>Properties\<close>

text \<open>C7. Connection pool: for any number of threads and any interleaving of the steps of \<open>GetConnection\<close> and \<open>ReleaseConnection\<close> (as long as
  \<open>DestroyPool\<close> is not called and \<open>sem_wait\<close> is not interrupted, whose result the code ignores), \<open>GetConnection\<close> never takes
  from an empty list, every connection is either free or used by exactly one thread, none is lost, and
  the counters are the lengths of the two groups.\<close>

theorem conn_pool_safe:
  assumes "reachable (conn_init cons n) conn_step s" "distinct cons"
  shows "\<not> broken s \<and> distinct (connList (pool s) @ in_use (pcs s)) \<and> set (connList (pool s) @ in_use (pcs s)) = set cons \<and>
    m_FreeConn (pool s) = int (length (connList (pool s))) \<and> m_CurConn (pool s) = int (length (in_use (pcs s))) \<and>
    m_FreeConn (pool s) + m_CurConn (pool s) = m_MaxConn (pool s) \<and> reserve (pool s) \<le> length (connList (pool s))"
proof -
  have i: "conn_inv cons s" using conns.reachable_inv [OF assms(1)] .
  then have m: "mset (connList (pool s) @ in_use (pcs s)) = mset cons" by (simp add: conn_inv_def)
  have "distinct (connList (pool s) @ in_use (pcs s))" using mset_eq_imp_distinct_iff [OF m] assms(2) by blast
  moreover have "length (connList (pool s)) + length (in_use (pcs s)) = length cons" using mset_eq_length [OF m] by simp
  ultimately show ?thesis using i mset_eq_setD [OF m] by (simp add: conn_inv_def)
qed

theorem conn_pool_safe_witness:
  "\<exists>s. reachable (conn_init [4, 5] 2) conn_step s \<and> \<not> broken s \<and> pcs s ! 0 = Using 4"
proof -
  let ?s = "\<lparr>pool = \<lparr>m_MaxConn = 2, m_CurConn = 1, m_FreeConn = 1, connList = [5], reserve = 1, closed = []\<rparr>, pcs = [Using 4, Idle], broken = False\<rparr>"
  have r: "reachable (conn_init [4, 5] 2) conn_step ?s"
    by (rule reach_step [OF conn_example]) (use step_take [of 0 conn_reserved 4] in \<open>simp add: get_take_def conn_reserved_def\<close>)
  have "\<not> broken ?s" using conn_pool_safe [OF r] by simp
  then show ?thesis using r by (intro exI [of _ ?s]) simp
qed

text \<open>Connection pool: \<open>DestroyPool\<close> empties the list but leaves the semaphore as it is.  A thread that has passed
  the wait when the pool is destroyed takes the front of an empty list.\<close>

theorem destroy_pool_breaks_getter:
  assumes "reachable (conn_init cons n) conn_step s" "i < length (pcs s)" "pcs s ! i = Reserved"
  shows "connList (DestroyPool (pool s)) = [] \<and> reserve (DestroyPool (pool s)) = reserve (pool s) \<and>
    conn_step (s\<lparr>pool := DestroyPool (pool s)\<rparr>) (s\<lparr>pool := DestroyPool (pool s), broken := True\<rparr>)"
proof -
  have e: "connList (DestroyPool (pool s)) = []" "reserve (DestroyPool (pool s)) = reserve (pool s)" by (auto simp: DestroyPool_def)
  then have "get_take (DestroyPool (pool s)) = None" by (simp add: get_take_def)
  then show ?thesis using e step_fault [of i "s\<lparr>pool := DestroyPool (pool s)\<rparr>"] assms(2,3) by simp
qed

theorem destroy_pool_breaks_getter_witness:
  "reachable (conn_init [4, 5] 2) conn_step conn_reserved \<and> connList (DestroyPool (pool conn_reserved)) = [] \<and>
     conn_step (conn_reserved\<lparr>pool := DestroyPool (pool conn_reserved)\<rparr>) (conn_reserved\<lparr>pool := DestroyPool (pool conn_reserved), broken := True\<rparr>)"
proof -
  have "0 < length (pcs conn_reserved)" "pcs conn_reserved ! 0 = Reserved" by (simp_all add: conn_reserved_def)
  then show ?thesis using destroy_pool_breaks_getter [OF conn_example] conn_example by blast
qed

text \<open>Request pool: over any run of additions and of workers fetching, requests are handed out in the order
  they were added, each once.\<close>

theorem request_queue_is_fifo:
  assumes "threadpool_new started model nthreads maxreq = Some p" "pool_run queue_room queue_put queue_take p put got p'"
  shows "\<exists>waiting. queue_holds p' waiting \<and> put = got @ waiting"
proof -
  have "queue_holds p []" using assms(1) by (auto simp: threadpool_new_def queue_holds_def split: if_splits)
  from requests.run_fifo [OF assms(2) this] show ?thesis by auto
qed

theorem request_queue_is_fifo_witness:
  "\<exists>p p' waiting. threadpool_new (\<lambda>i. True) 1 8 2 = Some p \<and> pool_run queue_room queue_put queue_take p ([] @ [3] @ [7]) ([] @ [3]) p' \<and>
     queue_holds p' waiting \<and> waiting = [7]"
proof -
  let ?p = "\<lparr>m_workqueue = [], m_max_requests = 2, m_queuestat = 0, m_actor_model = 1\<rparr> :: threadpool"
  let ?p1 = "?p\<lparr>m_workqueue := [Some 3], m_queuestat := 1\<rparr>" and ?p2 = "?p\<lparr>m_workqueue := [Some 3, Some 7], m_queuestat := 2\<rparr>"
    and ?p3 = "?p\<lparr>m_workqueue := [Some 7], m_queuestat := 1\<rparr>"
  note d = queue_room_def queue_put_def queue_take_def append_p_def run_fetch_def
  have n: "threadpool_new (\<lambda>i. True) 1 8 2 = Some ?p" by (simp add: threadpool_new_def)
  have "pool_run queue_room queue_put queue_take ?p ([] @ [3]) [] ?p1" by (rule run_put [OF run_start]) (simp_all add: d)
  then have "pool_run queue_room queue_put queue_take ?p (([] @ [3]) @ [7]) [] ?p2" by (rule run_put) (simp_all add: d)
  then have r: "pool_run queue_room queue_put queue_take ?p (([] @ [3]) @ [7]) ([] @ [3]) ?p3" by (rule run_take) (simp add: d)
  then show ?thesis using request_queue_is_fifo [OF n r] n by auto
qed

text \<open>Request pool: with a pool of connections whose semaphore counts its list, a worker handles every request
  without blocking: the connection it uses, the first of the list or none when there is none, is returned to the end of
  the list and the counters are what they were; in reactor mode the request is always marked as handled, and for
  closing exactly when its read or write failed.\<close>

theorem worker_returns_connection:
  assumes "reserve cp = length (connList cp)" "\<And>r. improv (process r) = improv r \<and> timer_flag (process r) = timer_flag r"
    and pr: "uses = (m_actor_model p = 1 \<longrightarrow> m_state r = 0 \<and> read_once r)"
    and failed: "failed = (if m_state r = 0 then \<not> read_once r else \<not> writes r)"
  shows "\<exists>r' cp'. run_handle read_once writes process p cp r = Some (Done (r', cp')) \<and>
    connList cp' = (if uses then rotate1 (connList cp) else connList cp) \<and> reserve cp' = reserve cp \<and>
    m_FreeConn cp' = m_FreeConn cp \<and> m_CurConn cp' = m_CurConn cp \<and>
    (m_actor_model p = 1 \<longrightarrow> improv r' = 1 \<and> timer_flag r' = (if failed then 1 else timer_flag r))"
proof -
  have pc: "\<exists>cp'. process_with_connection process cp q =
      Some (Done (process (q\<lparr>mysql := (case connList cp of [] \<Rightarrow> None | c # _ \<Rightarrow> Some c)\<rparr>), cp')) \<and>
    connList cp' = rotate1 (connList cp) \<and> reserve cp' = reserve cp \<and> m_FreeConn cp' = m_FreeConn cp \<and> m_CurConn cp' = m_CurConn cp" for q
    using assms(1) by (cases "connList cp")
      (auto simp: process_with_connection_def GetConnection_def get_take_def ReleaseConnection_def release_put_def Let_def)
  show ?thesis
  proof (cases "m_actor_model p = 1")
    case False
    then show ?thesis using pc [of r] pr by (auto simp: run_handle_def)
  next
    case True
    then show ?thesis using pc [of "r\<lparr>improv := 1\<rparr>"] pr failed assms(2) by (auto simp: run_handle_def)
  qed
qed

theorem worker_returns_connection_witness:
  "\<exists>r' cp'. run_handle (\<lambda>r. True) (\<lambda>r. True) (\<lambda>r. r)
       \<lparr>m_workqueue = [], m_max_requests = 2, m_queuestat = 0, m_actor_model = 1\<rparr>
       \<lparr>m_MaxConn = 2, m_CurConn = 0, m_FreeConn = 2, connList = [4, 5], reserve = 2, closed = []\<rparr>
       \<lparr>m_state = 0, improv = 0, timer_flag = 0, mysql = None\<rparr> = Some (Done (r', cp')) \<and>
     connList cp' = [5, 4] \<and> m_FreeConn cp' = 2 \<and> improv r' = 1 \<and> timer_flag r' = 0"
  using worker_returns_connection [OF _ _ refl refl,
      where cp = "\<lparr>m_MaxConn = 2, m_CurConn = 0, m_FreeConn = 2, connList = [4, 5], reserve = 2, closed = []\<rparr>" and process = "\<lambda>r. r"
        and p = "\<lparr>m_workqueue = [], m_max_requests = 2, m_queuestat = 0, m_actor_model = 1\<rparr>"
        and r = "\<lparr>m_state = 0, improv = 0, timer_flag = 0, mysql = None\<rparr>" and read_once = "\<lambda>r. True" and writes = "\<lambda>r. True"]
  by auto

end
