(* ===== verification/Httpd.thy ===== *)
theory Httpd
  imports C_Buffer
begin

text \<open>
  The small web server (\<open>network-programming/http/tinyhttpd/httpd.c\<close>): reading lines from a socket, parsing the
  request, serving a file and running a CGI program.  A client is what it has sent and what has been
  sent to it; the file system, the CGI programs and the results of \<open>pipe\<close> and \<open>fork\<close> are parameters.
  \<open>None\<close> is undefined behaviour: an access outside an array or \<open>fclose(NULL)\<close>.
\<close>

subsection \<open>Clients\<close>

record client =
  incoming :: "byte list"
  sent :: "byte list list"
  closed :: bool

definition send :: "client \<Rightarrow> byte list \<Rightarrow> client" where
  "send c bs = c\<lparr>sent := sent c @ [bs]\<rparr>"

definition sends :: "client \<Rightarrow> byte list list \<Rightarrow> client" where
  "sends c ls = c\<lparr>sent := sent c @ ls\<rparr>"

definition crlf :: "string \<Rightarrow> byte list" where
  "crlf s = bytes s @ [13, 10]"

subsection \<open>Lines\<close>

text \<open>The loop of \<open>get_line\<close> with room for \<open>k\<close> more bytes: the bytes it stores and what it leaves.  A carriage
  return, alone or before a line feed, is stored as a line feed; a closed connection ends the line.\<close>

fun line_loop :: "nat \<Rightarrow> byte list \<Rightarrow> byte list \<times> byte list" where
  "line_loop 0 inp = ([], inp)"
| "line_loop (Suc k) [] = ([], [])"
| "line_loop (Suc k) (b # bs) =
     (if b = 13 then ([10], if bs \<noteq> [] \<and> hd bs = 10 then tl bs else bs)
      else if b = 10 then ([10], bs)
      else (case line_loop k bs of (line, rest) \<Rightarrow> (b # line, rest)))"

definition get_line :: "client \<Rightarrow> byte list \<Rightarrow> (nat \<times> byte list \<times> client) option" where
  "get_line c buf =
     (if buf = [] then None
      else case line_loop (length buf - 1) (incoming c) of (line, rest) \<Rightarrow>
        Some (length line, overwrite buf 0 (line @ [0]), c\<lparr>incoming := rest\<rparr>))"

lemma line_loop_length: "line_loop k inp = (line, rest) \<Longrightarrow> length line \<le> k \<and> length line + length rest \<le> length inp"
proof (induction k inp arbitrary: line rule: line_loop.induct)
  case (3 k b bs)
  then show ?case by (cases bs) (auto split: if_splits prod.splits)
qed auto

lemma line_loop_progress: "line_loop k inp = (line, rest) \<Longrightarrow> line \<noteq> [] \<Longrightarrow> length rest < length inp"
  using line_loop_length [of k inp line rest] by (cases line) auto

lemma get_line_ok:
  assumes "buf \<noteq> []"
  shows "\<exists>line rest. get_line c buf = Some (length line, overwrite buf 0 (line @ [0]), c\<lparr>incoming := rest\<rparr>) \<and>
    line_loop (length buf - 1) (incoming c) = (line, rest) \<and> length line < length buf \<and>
    length (overwrite buf 0 (line @ [0])) = length buf"
proof (cases "line_loop (length buf - 1) (incoming c)")
  case (Pair line rest)
  then have "length line \<le> length buf - 1" using line_loop_length by blast
  then have "length line < length buf" using assms by (cases buf) auto
  then show ?thesis using Pair assms by (simp add: get_line_def)
qed

text \<open>\<open>strcmp("\n", buf)\<close> is 0.\<close>

definition is_empty_line :: "byte list \<Rightarrow> bool" where
  "is_empty_line buf \<longleftrightarrow> str_of buf = [10]"

text \<open>Reading and discarding the headers: the loop \<open>while ((numchars > 0) && strcmp("\n", buf))\<close>.\<close>

function discard :: "client \<Rightarrow> byte list \<Rightarrow> nat \<Rightarrow> client option" where
  "discard c buf numchars =
     (if 0 < numchars \<and> \<not> is_empty_line buf
      then (case get_line c buf of None \<Rightarrow> None | Some (n, buf, c) \<Rightarrow> discard c buf n)
      else Some c)"
  by pat_completeness auto

text \<open>Every line read is shorter than what was left, or empty and then the loop ends.\<close>

definition line_measure :: "client \<Rightarrow> nat \<Rightarrow> nat" where
  "line_measure c n = length (incoming c) + (if 0 < n then 1 else 0)"

lemma get_line_measure:
  assumes "get_line c buf = Some (n', buf', c')" "0 < n"
  shows "line_measure c' n' < line_measure c n"
proof -
  obtain line rest where l: "line_loop (length buf - 1) (incoming c) = (line, rest)" "n' = length line" "incoming c' = rest"
    using assms(1) by (auto simp: get_line_def split: if_splits prod.splits)
  then show ?thesis using assms(2) line_loop_length [OF l(1)] by (cases line) (auto simp: line_measure_def)
qed

termination discard
  by (relation "measure (\<lambda>(c, buf, n). line_measure c n)") (auto simp: get_line_measure)

declare discard.simps [simp del]

subsection \<open>Answers\<close>

definition SERVER_STRING :: "byte list" where
  "SERVER_STRING = crlf ''Server: jdbhttpd/0.1.0''"

definition headers :: "client \<Rightarrow> client" where
  "headers c = sends c [crlf ''HTTP/1.0 200 OK'', SERVER_STRING, crlf ''Content-Type: text/html'', crlf '''']"

definition not_found :: "client \<Rightarrow> client" where
  "not_found c = sends c
     [crlf ''HTTP/1.0 404 NOT FOUND'', SERVER_STRING, crlf ''Content-Type: text/html'', crlf '''',
      crlf ''<HTML><TITLE>Not Found</TITLE>'', crlf ''<BODY><P>The server could not fulfill'',
      crlf ''your request because the resource specified'', crlf ''is unavailable or nonexistent.'', crlf ''</BODY></HTML>'']"

definition unimplemented :: "client \<Rightarrow> client" where
  "unimplemented c = sends c
     [crlf ''HTTP/1.0 501 Method Not Implemented'', SERVER_STRING, crlf ''Content-Type: text/html'', crlf '''',
      crlf ''<HTML><HEAD><TITLE>Method Not Implemented'', crlf ''</TITLE></HEAD>'',
      crlf ''<BODY><P>HTTP request method not supported.'', crlf ''</BODY></HTML>'']"

definition cannot_execute :: "client \<Rightarrow> client" where
  "cannot_execute c = sends c
     [crlf ''HTTP/1.0 500 Internal Server Error'', crlf ''Content-type: text/html'', crlf '''',
      crlf ''<P>Error prohibited CGI execution.'']"

text \<open>\<open>bad_request\<close> sends its whole buffer each time, whose initial content is \<open>buf\<close>.\<close>

fun send_buffers :: "client \<Rightarrow> byte list \<Rightarrow> byte list list \<Rightarrow> client" where
  "send_buffers c buf [] = c"
| "send_buffers c buf (t # ts) = (let buf = overwrite buf 0 (t @ [0]) in send_buffers (send c buf) buf ts)"

definition bad_request :: "client \<Rightarrow> byte list \<Rightarrow> client" where
  "bad_request c buf = send_buffers c buf
     [crlf ''HTTP/1.0 400 BAD REQUEST'', crlf ''Content-type: text/html'', crlf '''',
      bytes ''<P>Your browser sent a bad request, '', crlf ''such as a POST without a Content-Length.'']"

subsection \<open>Files\<close>

text \<open>\<open>fgets\<close> with a buffer of \<open>Suc k\<close> bytes: what it reads, what is left of the file, and whether it met the end
  of the file.\<close>

fun fgets :: "nat \<Rightarrow> byte list \<Rightarrow> byte list \<times> byte list \<times> bool" where
  "fgets 0 f = ([], f, False)"
| "fgets (Suc k) [] = ([], [], True)"
| "fgets (Suc k) (b # f) =
     (if b = 10 then ([10], f, False)
      else (case fgets k f of (l, r, e) \<Rightarrow> (b # l, r, e)))"

text \<open>The loop of \<open>cat\<close> with what the last \<open>fgets\<close> read.\<close>

lemma fgets_progress: "fgets (Suc k) f = (l, r, False) \<Longrightarrow> length r < length f"
proof (induction k arbitrary: f l)
  case 0
  then show ?case by (cases f) (auto split: if_splits)
next
  case (Suc k)
  show ?case
  proof (cases f)
    case (Cons b g)
    then show ?thesis using Suc.prems Suc.IH [of g] by (fastforce split: if_splits prod.splits)
  qed (use Suc.prems in simp)
qed

lemma fgets_progress_1023: "(l, r, False) = fgets 1023 f \<Longrightarrow> length r < length f"
  using fgets_progress [of 1022 f l r] by simp

function cat_loop :: "client \<Rightarrow> byte list \<Rightarrow> client" where
  "cat_loop c f = (case fgets 1023 f of (l, r, eof) \<Rightarrow> if eof then c else cat_loop (send c (str_of l)) r)"
  by pat_completeness auto
termination
  by (relation "measure (\<lambda>(c, f). length f)") (auto intro: fgets_progress_1023)

declare cat_loop.simps [simp del]

definition cat :: "client \<Rightarrow> byte list \<Rightarrow> client" where
  "cat c resource = cat_loop c resource"

text \<open>\<open>serve_file\<close>; \<open>fopen\<close> gives the content of a file, and \<open>junk\<close> is the initial content of the buffer.  When
  the file cannot be opened, the 404 answer is followed by \<open>fclose(NULL)\<close>.\<close>

definition serve_file :: "(byte list \<Rightarrow> byte list option) \<Rightarrow> byte list \<Rightarrow> client \<Rightarrow> byte list \<Rightarrow> client option" where
  "serve_file fopen junk c filename = do {
     c \<leftarrow> discard c (overwrite junk 0 [65, 0]) 1;
     (case fopen filename of
        None \<Rightarrow> None
      | Some content \<Rightarrow> Some (cat (headers c) content))
   }"

subsection \<open>CGI programs\<close>

text \<open>\<open>atoi\<close> on a C string.\<close>

definition digits_value :: "byte list \<Rightarrow> int" where
  "digits_value s = foldl (\<lambda>v d. 10 * v + (int (unat d) - 48)) 0 (takeWhile is_digit s)"

definition atoi :: "byte list \<Rightarrow> int" where
  "atoi s = (let s = dropWhile is_space s
             in case s of
                  [] \<Rightarrow> 0
                | c # cs \<Rightarrow> if c = 45 then - digits_value cs else if c = 43 then digits_value cs else digits_value s)"

text \<open>The loop that looks for the content length in the headers of a POST request.\<close>

definition header_length :: "byte list \<Rightarrow> int \<Rightarrow> int" where
  "header_length buf content_length =
     (if same_nocase (str_of buf) (bytes ''Content-Length:'') then atoi (str_of (drop 16 buf)) else content_length)"

function length_loop :: "client \<Rightarrow> byte list \<Rightarrow> nat \<Rightarrow> int \<Rightarrow> (int \<times> client) option" where
  "length_loop c buf numchars content_length =
     (if 0 < numchars \<and> \<not> is_empty_line buf
      then (let buf = buf[15 := 0]; content_length = header_length buf content_length
            in case get_line c buf of None \<Rightarrow> None | Some (n, buf, c) \<Rightarrow> length_loop c buf n content_length)
      else Some (content_length, c))"
  by pat_completeness auto
termination
  by (relation "measure (\<lambda>(c, buf, n, l). line_measure c n)") (auto simp: get_line_measure)

declare length_loop.simps [simp del]

text \<open>The environment of the child, built in three arrays of 255 bytes.\<close>

definition sprintf255 :: "byte list \<Rightarrow> byte list option" where
  "sprintf255 s = (if length s + 1 \<le> 255 then Some s else None)"

definition cgi_env :: "byte list \<Rightarrow> byte list option \<Rightarrow> int \<Rightarrow> byte list list option" where
  "cgi_env method query_string content_length = do {
     meth_env \<leftarrow> sprintf255 (bytes ''REQUEST_METHOD='' @ method);
     if same_nocase method (bytes ''GET'') then do {
       q \<leftarrow> query_string;
       query_env \<leftarrow> sprintf255 (bytes ''QUERY_STRING='' @ q);
       Some [meth_env, query_env]
     } else do {
       length_env \<leftarrow> sprintf255 (bytes ''CONTENT_LENGTH='' @ show_int content_length);
       Some [meth_env, length_env]
     }
   }"

text \<open>The body of a POST request: \<open>n\<close> bytes are passed on, the last one received again and again once the client
  has closed the connection; \<open>ch\<close> is what the variable holds at first.\<close>

fun body_loop :: "nat \<Rightarrow> byte \<Rightarrow> byte list \<Rightarrow> byte list \<times> byte list" where
  "body_loop 0 ch inp = ([], inp)"
| "body_loop (Suc n) ch inp =
     (let (ch, inp) = (case inp of [] \<Rightarrow> (ch, []) | b # bs \<Rightarrow> (b, bs)); (w, r) = body_loop n ch inp in (ch # w, r))"

text \<open>What the program around the server does: files with their directory and execute bits, their content, the output of
  a CGI program for its environment and input, whether the two calls of \<open>pipe\<close> and \<open>fork\<close> succeed, and what an
  uninitialised character holds.\<close>

record world =
  stat :: "byte list \<Rightarrow> (bool \<times> bool) option"
  fopen :: "byte list \<Rightarrow> byte list option"
  run_cgi :: "byte list \<Rightarrow> byte list list \<Rightarrow> byte list \<Rightarrow> byte list"
  pipe1 :: bool
  pipe2 :: bool
  forks :: bool
  stack_char :: byte

definition cgi_parent :: "world \<Rightarrow> client \<Rightarrow> byte list \<Rightarrow> byte list \<Rightarrow> byte list list \<Rightarrow> int \<Rightarrow> client" where
  "cgi_parent w c path method env content_length =
     (let (body, rest) = (if same_nocase method (bytes ''POST'') then body_loop (nat content_length) (stack_char w) (incoming c) else ([], incoming c))
      in sends (c\<lparr>incoming := rest\<rparr>) (map (\<lambda>b. [b]) (run_cgi w path env body)))"

definition execute_cgi :: "world \<Rightarrow> byte list \<Rightarrow> client \<Rightarrow> byte list \<Rightarrow> byte list \<Rightarrow> byte list option \<Rightarrow> client option" where
  "execute_cgi w junk c path method query_string = do {
     let buf = overwrite junk 0 [65, 0];
     (content_length, c) \<leftarrow> (if same_nocase method (bytes ''GET'')
        then do { c \<leftarrow> discard c buf 1; Some (-1, c) }
        else do { (n, buf, c) \<leftarrow> get_line c buf; length_loop c buf n (-1) });
     if \<not> same_nocase method (bytes ''GET'') \<and> content_length = -1 then Some (bad_request c junk)
     else do {
       let c = send c (crlf ''HTTP/1.0 200 OK'');
       if \<not> pipe1 w then Some (cannot_execute c)
       else if \<not> pipe2 w then Some (cannot_execute c)
       else if \<not> forks w then Some (cannot_execute c)
       else do {
         env \<leftarrow> cgi_env method query_string content_length;
         Some (cgi_parent w c path method env content_length)
       }
     }
   }"

subsection \<open>Requests\<close>

text \<open>The three scanning loops over the request line: the method, white space, and the URL; \<open>k\<close> bytes fit into
  the destination.  Each reads \<open>buf[j]\<close> before it looks at its bounds.\<close>

fun method_loop :: "byte list \<Rightarrow> nat \<Rightarrow> nat \<Rightarrow> (byte list \<times> nat) option" where
  "method_loop buf j k = do {
     ch \<leftarrow> peek buf j;
     if \<not> is_space ch \<and> 0 < k then do {
       (m, j) \<leftarrow> method_loop buf (j + 1) (k - 1);
       Some (ch # m, j)
     } else Some ([], j)
   }"

declare method_loop.simps [simp del]

function space_loop :: "byte list \<Rightarrow> nat \<Rightarrow> nat option" where
  "space_loop buf j = (case peek buf j of
     None \<Rightarrow> None
   | Some ch \<Rightarrow> if is_space ch \<and> j < length buf then space_loop buf (j + 1) else Some j)"
  by pat_completeness auto
termination
  by (relation "measure (\<lambda>(buf, j). length buf - j)") (auto simp: peek_def)

declare space_loop.simps [simp del]

fun url_loop :: "byte list \<Rightarrow> nat \<Rightarrow> nat \<Rightarrow> (byte list \<times> nat) option" where
  "url_loop buf j k = do {
     ch \<leftarrow> peek buf j;
     if \<not> is_space ch \<and> 0 < k \<and> j < length buf then do {
       (u, j) \<leftarrow> url_loop buf (j + 1) (k - 1);
       Some (ch # u, j)
     } else Some ([], j)
   }"

declare url_loop.simps [simp del]

text \<open>The method, the URL without its query, the query, and whether the request is one for a CGI program.\<close>

record http_request =
  req_method :: "byte list"
  url :: "byte list"
  query :: "byte list option"
  cgi :: bool

definition parse_request :: "byte list \<Rightarrow> http_request option" where
  "parse_request buf = do {
     (m, j) \<leftarrow> method_loop buf 0 254;
     let m = str_of m;
     j \<leftarrow> space_loop buf j;
     (u, j) \<leftarrow> url_loop buf j 254;
     let u = str_of u;
     let post = same_nocase m (bytes ''POST'');
     if same_nocase m (bytes ''GET'') then do {
       let q = dropWhile (\<lambda>b. b \<noteq> 63) u;
       Some \<lparr>req_method = m, url = takeWhile (\<lambda>b. b \<noteq> 63) u, query = Some (tl q), cgi = post \<or> q \<noteq> []\<rparr>
     } else Some \<lparr>req_method = m, url = u, query = None, cgi = post\<rparr>
   }"

text \<open>\<open>sprintf\<close> and \<open>strcat\<close> into the array \<open>path\<close> of 512 bytes.\<close>

definition path_fits :: "byte list \<Rightarrow> byte list option" where
  "path_fits p = (if length p + 1 \<le> 512 then Some p else None)"

definition request_path :: "byte list \<Rightarrow> byte list option" where
  "request_path u = do {
     path \<leftarrow> path_fits (bytes ''htdocs'' @ u);
     if last path = 47 then path_fits (path @ bytes ''index.html'') else Some path
   }"

text \<open>\<open>junk\<close> is what the arrays on the stack hold at first.\<close>

definition accept_request :: "world \<Rightarrow> byte list \<Rightarrow> client \<Rightarrow> client option" where
  "accept_request w junk c = do {
     (numchars, buf, c) \<leftarrow> get_line c junk;
     r \<leftarrow> parse_request buf;
     let c = (if \<not> same_nocase (req_method r) (bytes ''GET'') \<and> \<not> same_nocase (req_method r) (bytes ''POST'') then unimplemented c else c);
     path \<leftarrow> request_path (url r);
     c \<leftarrow> (case stat w path of
        None \<Rightarrow> do { c \<leftarrow> discard c buf numchars; Some (not_found c) }
      | Some (dir, exec) \<Rightarrow> do {
          path \<leftarrow> (if dir then path_fits (path @ bytes ''/index.html'') else Some path);
          if \<not> (cgi r \<or> exec) then serve_file (fopen w) junk c path
          else execute_cgi w junk c path (req_method r) (query r)
        });
     Some (c\<lparr>closed := True\<rparr>)
   }"

subsection \<open>Reading and sending\<close>

lemma line_loop_prefix:
  "\<forall>b \<in> set p. b \<noteq> 13 \<and> b \<noteq> 10 \<Longrightarrow> length p \<le> k \<Longrightarrow>
   line_loop k (p @ r) = (p @ fst (line_loop (k - length p) r), snd (line_loop (k - length p) r))"
proof (induction p arbitrary: k)
  case (Cons b p)
  then show ?case by (cases k) (auto split: prod.splits)
qed simp

lemma discard_total:
  "buf \<noteq> [] \<Longrightarrow> \<exists>rest. discard c buf n = Some (c\<lparr>incoming := rest\<rparr>)"
proof (induction c buf n rule: discard.induct)
  case (1 c buf n)
  show ?case
  proof (cases "0 < n \<and> \<not> is_empty_line buf")
    case True
    obtain line rest where l: "get_line c buf = Some (length line, overwrite buf 0 (line @ [0]), c\<lparr>incoming := rest\<rparr>)"
        "length (overwrite buf 0 (line @ [0])) = length buf"
      using get_line_ok [OF "1.prems"] by blast
    then have "overwrite buf 0 (line @ [0]) \<noteq> []" using "1.prems" by (metis length_0_conv)
    from 1(1) [OF True l(1) refl refl this] show ?thesis using True l(1) by (auto simp: discard.simps [of c buf n])
  next
    case False
    then have "discard c buf n = Some c" by (auto simp: discard.simps [of c buf n])
    then show ?thesis by (metis client.surjective client.update_convs(1))
  qed
qed

lemma fgets_spec:
  "fgets k f = (l, r, e) \<Longrightarrow> f = l @ r \<and> length l \<le> k \<and> (e \<longrightarrow> r = [] \<and> 10 \<notin> set l \<and> length l < k)"
proof (induction k f arbitrary: l rule: fgets.induct)
  case (3 k b f)
  then show ?case by (fastforce split: if_splits prod.splits)
qed auto

lemma sends_append [simp]: "sends (sends c xs) ys = sends c (xs @ ys)" "send c x = sends c [x]" "sends c [] = c"
  by (simp_all add: sends_def send_def)

text \<open>What \<open>cat\<close> sends of a file without NUL bytes: all of it but an unfinished last line.\<close>

lemma cat_loop_spec:
  "0 \<notin> set f \<Longrightarrow> \<exists>ls lost. cat_loop c f = sends c ls \<and> f = concat ls @ lost \<and> 10 \<notin> set lost \<and> length lost < 1023"
proof (induction c f rule: cat_loop.induct)
  case (1 c f)
  obtain l r e where g: "fgets 1023 f = (l, r, e)" by (cases "fgets 1023 f") auto
  note sp = fgets_spec [OF g]
  show ?case
  proof (cases e)
    case True
    then have "cat_loop c f = c" using g by (simp add: cat_loop.simps [of c f])
    then show ?thesis using sp True by (intro exI [of _ "[]"] exI [of _ f]) auto
  next
    case False
    have nul: "0 \<notin> set l" "0 \<notin> set r" using "1.prems" sp by auto
    have "cat_loop c f = cat_loop (send c l) r" using g False nul(1) by (simp add: cat_loop.simps [of c f])
    moreover obtain ls lost where "cat_loop (send c l) r = sends (send c l) ls" "r = concat ls @ lost" "10 \<notin> set lost" "length lost < 1023"
      using 1(1) [OF g [symmetric] refl False nul(2)] nul(1) by auto
    ultimately show ?thesis using sp by (intro exI [of _ "l # ls"] exI [of _ lost]) auto
  qed
qed

subsection \<open>Parsing\<close>

lemma peek_append [simp]: "peek (pre @ b # post) (length pre) = Some b"
  by (simp add: peek_def)

lemma peek_at: "buf = pre @ b # post \<Longrightarrow> j = length pre \<Longrightarrow> peek buf j = Some b"
  by simp

lemma method_loop_word:
  "\<forall>b \<in> set m. \<not> is_space b \<Longrightarrow> is_space s \<Longrightarrow> length m \<le> k \<Longrightarrow>
   method_loop (pre @ m @ s # post) (length pre) k = Some (m, length pre + length m)"
proof (induction m arbitrary: pre k)
  case Nil
  then show ?case by (simp add: method_loop.simps [of _ "length pre"])
next
  case (Cons b m)
  then have "method_loop ((pre @ [b]) @ m @ s # post) (length (pre @ [b])) (k - 1) = Some (m, length (pre @ [b]) + length m)"
    by (intro Cons.IH) auto
  then show ?case using Cons.prems by (simp add: method_loop.simps [of "pre @ b # m @ s # post"])
qed

lemma url_loop_word:
  "\<forall>b \<in> set u. \<not> is_space b \<Longrightarrow> is_space s \<Longrightarrow> length u \<le> k \<Longrightarrow>
   url_loop (pre @ u @ s # post) (length pre) k = Some (u, length pre + length u)"
proof (induction u arbitrary: pre k)
  case Nil
  then show ?case by (simp add: url_loop.simps [of _ "length pre"])
next
  case (Cons b u)
  then have "url_loop ((pre @ [b]) @ u @ s # post) (length (pre @ [b])) (k - 1) = Some (u, length (pre @ [b]) + length u)"
    by (intro Cons.IH) auto
  then show ?case using Cons.prems by (simp add: url_loop.simps [of "pre @ b # u @ s # post"])
qed

lemma space_loop_one:
  "is_space s \<Longrightarrow> \<not> is_space b \<Longrightarrow> space_loop (pre @ s # b # post) (length pre) = Some (length pre + 1)"
  using peek_at [of "pre @ s # b # post" "pre @ [s]" b post "Suc (length pre)"]
  by (simp add: space_loop.simps [of _ "length pre"] space_loop.simps [of _ "Suc (length pre)"])

lemma parse_get:
  assumes "u \<noteq> []" "\<forall>b \<in> set u. \<not> is_space b \<and> b \<noteq> 0" "length u \<le> 254"
  shows "parse_request (bytes ''GET'' @ 32 # u @ 32 # post) =
    Some \<lparr>req_method = bytes ''GET'', url = takeWhile (\<lambda>b. b \<noteq> 63) u, query = Some (tl (dropWhile (\<lambda>b. b \<noteq> 63) u)), cgi = (63 \<in> set u)\<rparr>"
proof -
  obtain b v where u: "u = b # v" using assms(1) by (cases u) auto
  have sp: "is_space 32" by (simp add: is_space_def)
  have g: "\<forall>b \<in> set (bytes ''GET''). \<not> is_space b" "0 \<notin> set (bytes ''GET'')"
    by (simp_all add: bytes_def is_space_def of_char_def)
  have m: "method_loop (bytes ''GET'' @ 32 # u @ 32 # post) 0 254 = Some (bytes ''GET'', 3)"
    using method_loop_word [OF g(1) sp, of 254 "[]" "u @ 32 # post"] by simp
  have s: "space_loop (bytes ''GET'' @ 32 # u @ 32 # post) 3 = Some 4"
    using space_loop_one [OF sp, of b "bytes ''GET''" "v @ 32 # post"] assms(2) u
    by (simp add: bytes_def eval_nat_numeral)
  have l: "url_loop (bytes ''GET'' @ 32 # u @ 32 # post) 4 254 = Some (u, 4 + length u)"
    using url_loop_word [of u 32 254 "bytes ''GET'' @ [32]" post] assms(2,3) sp
    by (simp add: bytes_def eval_nat_numeral)
  have z: "0 \<notin> set u" using assms(2) by auto
  have p: "\<not> same_nocase (bytes ''GET'') (bytes ''POST'')" "same_nocase (bytes ''GET'') (bytes ''GET'')"
    by (simp_all add: same_nocase_def bytes_def)
  show ?thesis using m s l g(2) z p by (auto simp: parse_request_def)
qed

subsection \<open>What the server answers\<close>

text \<open>A text is its finished lines followed by an unfinished one.\<close>

definition lines_and_rest :: "byte list \<Rightarrow> byte list \<Rightarrow> bool" where
  "lines_and_rest body rest \<longleftrightarrow> (body = [] \<or> last body = 10) \<and> 10 \<notin> set rest"

lemma fgets_rest: "10 \<notin> set rest \<Longrightarrow> length rest < k \<Longrightarrow> fgets k rest = (rest, [], True)"
proof (induction rest arbitrary: k)
  case Nil
  then show ?case by (cases k) auto
next
  case (Cons b rest)
  then show ?case by (cases k) auto
qed

lemma fgets_body:
  "body \<noteq> [] \<Longrightarrow> lines_and_rest body rest \<Longrightarrow>
   \<exists>l r. fgets (Suc k) (body @ rest) = (l, r @ rest, False) \<and> body = l @ r \<and> lines_and_rest r rest"
proof (induction k arbitrary: body)
  case 0
  then show ?case by (cases body) (auto simp: lines_and_rest_def intro: exI [of _ "[hd body]"] split: if_splits)
next
  case (Suc k)
  obtain b bs where body: "body = b # bs" using Suc.prems(1) by (cases body) auto
  show ?case
  proof (cases "b = 10")
    case True
    then show ?thesis using Suc.prems body 
      by (auto simp: lines_and_rest_def intro!: exI [of _ "[10::byte]"] exI [of _ bs] split: if_splits)
  next
    case False
    then have bs: "bs \<noteq> []" "lines_and_rest bs rest" using Suc.prems body by (auto simp: lines_and_rest_def split: if_splits)
    from Suc.IH [OF this] obtain l r where "fgets (Suc k) (bs @ rest) = (l, r @ rest, False)" "bs = l @ r" "lines_and_rest r rest"
      by blast
    then show ?thesis using False body by (intro exI [of _ "b # l"] exI [of _ r]) simp
  qed
qed

lemma cat_loop_lines:
  "lines_and_rest body rest \<Longrightarrow> length rest < 1023 \<Longrightarrow> 0 \<notin> set body \<Longrightarrow>
   \<exists>ls. cat_loop c (body @ rest) = sends c ls \<and> concat ls = body"
proof (induction "length body" arbitrary: body c rule: less_induct)
  case less
  show ?case
  proof (cases "body = []")
    case True
    then have "cat_loop c (body @ rest) = c"
      using less.prems by (simp add: cat_loop.simps [of c] fgets_rest lines_and_rest_def)
    then show ?thesis using True by (intro exI [of _ "[]"]) simp
  next
    case False
    obtain l r where g: "fgets 1023 (body @ rest) = (l, r @ rest, False)" "body = l @ r" "lines_and_rest r rest"
      using fgets_body [OF False less.prems(1), of 1022] by auto
    then have "length r < length body" using fgets_progress_1023 [of l "r @ rest" "body @ rest"] by simp
    then obtain ls where "cat_loop (send c l) (r @ rest) = sends (send c l) ls" "concat ls = r"
      using less.hyps [of r] g(2,3) less.prems by fastforce
    moreover have "cat_loop c (body @ rest) = cat_loop (send c l) (r @ rest)"
      using g(1) g(2) less.prems(3) by (subst cat_loop.simps) simp
    ultimately show ?thesis using g(2) by (intro exI [of _ "l # ls"]) simp
  qed
qed

text \<open>The first line of a GET request, as \<open>accept_request\<close> sees it.\<close>

lemma first_line:
  assumes "incoming c = bytes ''GET'' @ 32 # u @ 32 # rest" "\<forall>b \<in> set u. \<not> is_space b \<and> b \<noteq> 0" "length u \<le> 254" "length junk = 1024"
  shows "\<exists>n post c'. get_line c junk = Some (n, bytes ''GET'' @ 32 # u @ 32 # post, c\<lparr>incoming := c'\<rparr>)"
proof -
  let ?p = "bytes ''GET'' @ 32 # u @ [32]"
  have "\<forall>b \<in> set ?p. b \<noteq> 13 \<and> b \<noteq> 10" using assms(2) by (auto simp: bytes_def of_char_def is_space_def)
  moreover have "length ?p \<le> 1023" using assms(3) by (simp add: bytes_def)
  ultimately have "line_loop 1023 (?p @ rest) =
      (?p @ fst (line_loop (1023 - length ?p) rest), snd (line_loop (1023 - length ?p) rest))"
    by (rule line_loop_prefix)
  then show ?thesis using assms(1,4) by (auto simp: get_line_def overwrite_def)
qed

text \<open>Every path fits: a URL has at most 254 bytes.\<close>

lemma request_path_fits:
  "length u \<le> 254 \<Longrightarrow> request_path u =
    Some (if u \<noteq> [] \<and> last u = 47 then bytes ''htdocs'' @ u @ bytes ''index.html'' else bytes ''htdocs'' @ u)"
  by (auto simp: request_path_def path_fits_def bytes_def)

text \<open>What \<open>cat\<close> sends of a file: its finished lines, in order; an unfinished last line is never sent.\<close>

theorem cat_sends_finished_lines:
  assumes "body = [] \<or> last body = 10" "10 \<notin> set rest" "length rest < 1023" "0 \<notin> set body"
  shows "\<exists>ls. cat c (body @ rest) = c\<lparr>sent := sent c @ ls\<rparr> \<and> concat ls = body"
  using cat_loop_lines [of body rest c] assms by (simp add: cat_def lines_and_rest_def sends_def)

theorem cat_sends_finished_lines_witness:
  "\<exists>ls. cat \<lparr>incoming = [], sent = [], closed = False\<rparr> (bytes (''one'' @ [CHR 0x0A]) @ bytes ''two'') =
     \<lparr>incoming = [], sent = ls, closed = False\<rparr> \<and> concat ls = bytes (''one'' @ [CHR 0x0A])"
  using cat_sends_finished_lines [of "bytes (''one'' @ [CHR 0x0A])" "bytes ''two''" "\<lparr>incoming = [], sent = [], closed = False\<rparr>"]
  by (simp add: bytes_def)

text \<open>C6. A GET request, whatever its headers, whose URL is 1 to 254 bytes without blank, NUL and question mark (with one it
  would run a program) and names a regular file that is not executable and can be opened, is answered with the four header lines and the
  finished lines of the file, and the connection is closed.  The finished lines hold no NUL; what comes after the last line feed is
  shorter than 1023 bytes and is not sent.\<close>

theorem accept_request_serves:
  assumes "incoming c = bytes ''GET'' @ 32 # u @ 32 # rest"
    and "u \<noteq> []" "\<forall>b \<in> set u. \<not> is_space b \<and> b \<noteq> 0 \<and> b \<noteq> 63" "length u \<le> 254" "length junk = 1024"
    and "stat w (bytes ''htdocs'' @ u @ (if last u = 47 then bytes ''index.html'' else [])) = Some (False, False)"
    and "fopen w (bytes ''htdocs'' @ u @ (if last u = 47 then bytes ''index.html'' else [])) = Some (body @ tail)"
    and "body = [] \<or> last body = 10" "10 \<notin> set tail" "length tail < 1023" "0 \<notin> set body"
  shows "\<exists>ls left. accept_request w junk c = Some (c\<lparr>incoming := left, closed := True,
      sent := sent c @ [crlf ''HTTP/1.0 200 OK'', SERVER_STRING, crlf ''Content-Type: text/html'', crlf ''''] @ ls\<rparr>) \<and> concat ls = body"
proof -
  let ?path = "bytes ''htdocs'' @ u @ (if last u = 47 then bytes ''index.html'' else [])"
  obtain n post left where line: "get_line c junk = Some (n, bytes ''GET'' @ 32 # u @ 32 # post, c\<lparr>incoming := left\<rparr>)"
    using first_line [OF assms(1) _ assms(4,5)] assms(3) by blast
  have "takeWhile (\<lambda>b. b \<noteq> 63) u = u" "63 \<notin> set u" using assms(3) by auto
  then obtain r where r: "parse_request (bytes ''GET'' @ 32 # u @ 32 # post) = Some r" "req_method r = bytes ''GET''" "url r = u" "\<not> cgi r"
    using parse_get [OF assms(2) _ assms(4), of post] assms(3) by simp
  have path: "request_path u = Some ?path" using request_path_fits [OF assms(4)] assms(2) by simp
  have "overwrite junk 0 [65, 0] \<noteq> []" by (simp add: overwrite_def)
  then obtain left' where d: "discard (c\<lparr>incoming := left\<rparr>) (overwrite junk 0 [65, 0]) 1 = Some (c\<lparr>incoming := left'\<rparr>)"
    using discard_total [of "overwrite junk 0 [65, 0]" "c\<lparr>incoming := left\<rparr>" 1] by auto
  obtain ls where ls: "cat_loop (headers (c\<lparr>incoming := left'\<rparr>)) (body @ tail) = sends (headers (c\<lparr>incoming := left'\<rparr>)) ls" "concat ls = body"
    using cat_loop_lines [of body tail] assms(8-11) by (auto simp: lines_and_rest_def)
  have "same_nocase (req_method r) (bytes ''GET'')" using r(2) by (simp add: same_nocase_def)
  then have "accept_request w junk c = Some ((sends (headers (c\<lparr>incoming := left'\<rparr>)) ls)\<lparr>closed := True\<rparr>)"
    using line r path d ls assms(6,7) by (simp add: accept_request_def serve_file_def cat_def)
  then show ?thesis using ls(2) by (intro exI [of _ ls] exI [of _ left']) (simp add: headers_def sends_def)
qed

theorem accept_request_serves_witness:
  "\<exists>ls left. accept_request
     \<lparr>stat = (\<lambda>p. if p = bytes ''htdocs/a'' then Some (False, False) else None),
      fopen = (\<lambda>p. if p = bytes ''htdocs/a'' then Some (bytes (''hello'' @ [CHR 0x0A])) else None),
      run_cgi = (\<lambda>p e b. []), pipe1 = True, pipe2 = True, forks = True, stack_char = 0\<rparr>
     (replicate 1024 0) \<lparr>incoming = bytes ''GET /a HTTP/1.1'', sent = [], closed = False\<rparr> =
   Some \<lparr>incoming = left, sent = [crlf ''HTTP/1.0 200 OK'', SERVER_STRING, crlf ''Content-Type: text/html'', crlf ''''] @ ls, closed = True\<rparr> \<and>
   concat ls = bytes (''hello'' @ [CHR 0x0A])"
  using accept_request_serves [of "\<lparr>incoming = bytes ''GET /a HTTP/1.1'', sent = [], closed = False\<rparr>" "bytes ''/a''" "bytes ''HTTP/1.1''" "replicate 1024 0"
      "\<lparr>stat = (\<lambda>p. if p = bytes ''htdocs/a'' then Some (False, False) else None),
      fopen = (\<lambda>p. if p = bytes ''htdocs/a'' then Some (bytes (''hello'' @ [CHR 0x0A])) else None),
      run_cgi = (\<lambda>p e b. []), pipe1 = True, pipe2 = True, forks = True, stack_char = 0\<rparr>" "bytes (''hello'' @ [CHR 0x0A])" "[]"]
  by (simp add: bytes_def of_char_def is_space_def)

text \<open>A GET request whose query is longer than 241 bytes, which the URL buffer allows, makes the child write past
  the end of \<open>query_env\<close>.\<close>

theorem query_env_overflow:
  assumes "incoming c = bytes ''GET'' @ 32 # (bytes ''/?'' @ q) @ 32 # rest"
    and "\<forall>b \<in> set q. \<not> is_space b \<and> b \<noteq> 0" "242 \<le> length q" "length q \<le> 252" "length junk = 1024"
    and "stat w (bytes ''htdocs/index.html'') = Some (False, exec)" "pipe1 w" "pipe2 w" "forks w"
  shows "accept_request w junk c = None"
proof -
  let ?u = "bytes ''/?'' @ q"
  have b: "bytes ''/?'' = [47, 63]" by (simp add: bytes_def)
  have u: "?u \<noteq> []" "\<forall>b \<in> set ?u. \<not> is_space b \<and> b \<noteq> 0" "length ?u \<le> 254"
    using assms(2,4) by (auto simp: b is_space_def)
  obtain n post left where line: "get_line c junk = Some (n, bytes ''GET'' @ 32 # ?u @ 32 # post, c\<lparr>incoming := left\<rparr>)"
    using first_line [OF assms(1) u(2,3) assms(5)] by blast
  obtain r where r: "parse_request (bytes ''GET'' @ 32 # ?u @ 32 # post) = Some r" "req_method r = bytes ''GET''" "url r = [47]" "query r = Some q" "cgi r"
    using that [OF parse_get [OF u, of post]] by (simp add: b)
  have path: "request_path [47] = Some (bytes ''htdocs/index.html'')" by (simp add: request_path_fits bytes_def)
  have "overwrite junk 0 [65, 0] \<noteq> []" by (simp add: overwrite_def)
  then obtain left' where d: "discard (c\<lparr>incoming := left\<rparr>) (overwrite junk 0 [65, 0]) 1 = Some (c\<lparr>incoming := left'\<rparr>)"
    using discard_total [of "overwrite junk 0 [65, 0]" "c\<lparr>incoming := left\<rparr>" 1] by auto
  have g: "same_nocase (bytes ''GET'') (bytes ''GET'')" by (simp add: same_nocase_def)
  have "cgi_env (bytes ''GET'') (Some q) (-1) = None"
    using assms(3) g by (simp add: cgi_env_def sprintf255_def bytes_def)
  then have "execute_cgi w junk (c\<lparr>incoming := left\<rparr>) (bytes ''htdocs/index.html'') (bytes ''GET'') (Some q) = None"
    using d g assms(7-9) by (simp add: execute_cgi_def)
  then show ?thesis using line r path g assms(6) by (simp add: accept_request_def)
qed

theorem query_env_overflow_witness:
  "accept_request
     \<lparr>stat = (\<lambda>p. Some (False, False)), fopen = (\<lambda>p. None),
      run_cgi = (\<lambda>p e b. []), pipe1 = True, pipe2 = True, forks = True, stack_char = 0\<rparr>
     (replicate 1024 0) \<lparr>incoming = bytes ''GET'' @ 32 # (bytes ''/?'' @ replicate 242 97) @ 32 # bytes ''HTTP/1.1'', sent = [], closed = False\<rparr> = None"
  using query_env_overflow [of "\<lparr>incoming = bytes ''GET'' @ 32 # (bytes ''/?'' @ replicate 242 97) @ 32 # bytes ''HTTP/1.1'', sent = [], closed = False\<rparr>"
      "replicate 242 97" "bytes ''HTTP/1.1''" "replicate 1024 0"
      "\<lparr>stat = (\<lambda>p. Some (False, False)), fopen = (\<lambda>p. None),
      run_cgi = (\<lambda>p e b. []), pipe1 = True, pipe2 = True, forks = True, stack_char = 0\<rparr>" False]
  by (simp add: is_space_def)

end
