(* ===== verification/Epoll_Http.thy ===== *)
theory Epoll_Http
  imports Httpd
begin

text \<open>
  The event-driven web server (\<open>network-programming/http/epollhttpd/epoll.c\<close>): reading lines, the URL
  encoding, file types, listings of directories, and the connections in the epoll set.  The files
  are parameters.  A run ends with \<open>Done\<close>, with \<open>Exited\<close> where the code calls \<open>exit(1)\<close>, or with
  \<open>Undefined\<close> where it writes or reads outside an array.
\<close>

datatype 's outcome = Done 's | Exited 's | Undefined

fun and_then :: "'s outcome \<Rightarrow> ('s \<Rightarrow> 's outcome) \<Rightarrow> 's outcome" where
  "and_then (Done s) f = f s"
| "and_then (Exited s) f = Exited s"
| "and_then Undefined f = Undefined"

subsection \<open>Lines\<close>

text \<open>The loop of \<open>get_line\<close> with room for \<open>k\<close> bytes; \<open>ch\<close> is the last character.\<close>

fun chars_loop :: "nat \<Rightarrow> byte \<Rightarrow> byte list \<Rightarrow> byte list \<times> byte list" where
  "chars_loop 0 ch inp = ([], inp)"
| "chars_loop (Suc k) ch inp =
     (if ch = 10 then ([], inp)
      else case inp of
        [] \<Rightarrow> chars_loop k 10 []
      | b # bs \<Rightarrow>
          (let (ch, rest) = (if b = 13 then (10, case bs of [] \<Rightarrow> [] | x # xs \<Rightarrow> if x = 10 then xs else bs) else (b, bs));
               (line, rest) = chars_loop k ch rest
           in (ch # line, rest)))"

definition read_line :: "client \<Rightarrow> nat \<Rightarrow> byte list \<times> client" where
  "read_line c bufsize = (case chars_loop (bufsize - 1) 0 (incoming c) of (line, rest) \<Rightarrow> (line, c\<lparr>incoming := rest\<rparr>))"

subsection \<open>URL encoding\<close>

definition hexit :: "byte \<Rightarrow> int" where
  "hexit c =
     (if 48 \<le> c \<and> c \<le> 57 then int (unat c) - 48
      else if 97 \<le> c \<and> c \<le> 102 then int (unat c) - 97 + 10
      else if 65 \<le> c \<and> c \<le> 70 then int (unat c) - 65 + 10
      else 0)"

definition is_xdigit :: "byte \<Rightarrow> bool" where
  "is_xdigit c \<longleftrightarrow> 48 \<le> c \<and> c \<le> 57 \<or> 97 \<le> c \<and> c \<le> 102 \<or> 65 \<le> c \<and> c \<le> 70"

definition is_alnum :: "byte \<Rightarrow> bool" where
  "is_alnum c \<longleftrightarrow> 48 \<le> c \<and> c \<le> 57 \<or> 97 \<le> c \<and> c \<le> 122 \<or> 65 \<le> c \<and> c \<le> 90"

text \<open>The characters that are not encoded: letters, digits and \<open>/_.-~\<close>.\<close>

definition is_plain :: "byte \<Rightarrow> bool" where
  "is_plain c \<longleftrightarrow> is_alnum c \<or> c \<in> set (bytes ''/_.-~'')"

text \<open>\<open>%02x\<close> of a byte.\<close>

definition hex_digit :: "nat \<Rightarrow> byte" where
  "hex_digit n = of_nat (if n < 10 then 48 + n else 87 + n)"

definition percent_02x :: "byte \<Rightarrow> byte list" where
  "percent_02x c = [37, hex_digit (unat c div 16), hex_digit (unat c mod 16)]"

text \<open>The loop of \<open>encode_str\<close> on the string \<open>from\<close>, and the string it leaves in an array of \<open>tosize\<close> bytes.\<close>

fun encode_loop :: "nat \<Rightarrow> nat \<Rightarrow> byte list \<Rightarrow> byte list" where
  "encode_loop tosize tolen [] = []"
| "encode_loop tosize tolen (c # from) =
     (if tolen + 4 < tosize
      then if is_plain c then c # encode_loop tosize (tolen + 1) from
           else percent_02x c @ encode_loop tosize (tolen + 3) from
      else [])"

definition encode_str :: "nat \<Rightarrow> byte list \<Rightarrow> byte list" where
  "encode_str tosize from = encode_loop tosize 0 from"

text \<open>\<open>decode_str\<close>: the bytes written before the final NUL.\<close>

fun decode_str :: "byte list \<Rightarrow> byte list" where
  "decode_str (c # x # y # from) =
     (if c = 37 \<and> is_xdigit x \<and> is_xdigit y then word_of_int (hexit x * 16 + hexit y) # decode_str from
      else c # decode_str (x # y # from))"
| "decode_str (c # from) = c # decode_str from"
| "decode_str [] = []"

subsection \<open>File types\<close>

fun strrchr :: "byte list \<Rightarrow> byte \<Rightarrow> byte list option" where
  "strrchr [] c = None"
| "strrchr (b # bs) c = (case strrchr bs c of Some s \<Rightarrow> Some s | None \<Rightarrow> if b = c then Some (b # bs) else None)"

definition get_file_type :: "byte list \<Rightarrow> byte list" where
  "get_file_type name = bytes (case strrchr name 46 of
       None \<Rightarrow> ''text/plain; charset=utf-8''
     | Some dot \<Rightarrow>
         if dot = bytes ''.html'' \<or> dot = bytes ''.htm'' then ''text/html; charset=utf-8''
         else if dot = bytes ''.jpg'' \<or> dot = bytes ''.jpeg'' then ''image/jpeg''
         else if dot = bytes ''.gif'' then ''image/gif''
         else if dot = bytes ''.png'' then ''image/png''
         else if dot = bytes ''.css'' then ''text/css''
         else if dot = bytes ''.au'' then ''audio/basic''
         else if dot = bytes ''.wav'' then ''audio/wav''
         else if dot = bytes ''.avi'' then ''video/x-msvideo''
         else if dot = bytes ''.mov'' \<or> dot = bytes ''.qt'' then ''video/quicktime''
         else if dot = bytes ''.mpeg'' \<or> dot = bytes ''.mpe'' then ''video/mpeg''
         else if dot = bytes ''.vrml'' \<or> dot = bytes ''.wrl'' then ''model/vrml''
         else if dot = bytes ''.midi'' \<or> dot = bytes ''.mid'' then ''audio/midi''
         else if dot = bytes ''.mp3'' then ''audio/mpeg''
         else if dot = bytes ''.ogg'' then ''application/ogg''
         else if dot = bytes ''.pac'' then ''application/x-ns-proxy-autoconfig''
         else ''text/plain; charset=utf-8'')"

subsection \<open>Answers\<close>

datatype file_kind = Regular | Directory | Other

record files =
  file_stat :: "byte list \<Rightarrow> (file_kind \<times> nat) option"
  can_open :: "byte list \<Rightarrow> bool"
  entries :: "byte list \<Rightarrow> byte list list option"

definition send_respond_head :: "client \<Rightarrow> nat \<Rightarrow> byte list \<Rightarrow> byte list \<Rightarrow> nat \<Rightarrow> client" where
  "send_respond_head c no desp type len = sends c
     [bytes ''http/1.1 '' @ show_nat no @ [32] @ desp @ [13, 10],
      bytes ''Content-Type:'' @ type @ [13, 10] @ bytes ''Content-Length:'' @ show_nat len @ [13, 10],
      [13, 10]]"

text \<open>\<open>send_file\<close> opens the file and closes it again.\<close>

definition send_file :: "files \<Rightarrow> client \<Rightarrow> byte list \<Rightarrow> client outcome" where
  "send_file w c path = (if can_open w path then Done c else Exited c)"

text \<open>\<open>sprintf\<close> at the end of the string in \<open>buf\<close>, an array of 4096 bytes.\<close>

definition append_buf :: "byte list \<Rightarrow> byte list \<Rightarrow> byte list option" where
  "append_buf buf s = (if length buf + length s + 1 \<le> 4096 then Some (buf @ s) else None)"

definition dir_row :: "byte list \<Rightarrow> byte list \<Rightarrow> file_kind \<Rightarrow> nat \<Rightarrow> byte list" where
  "dir_row enstr name kind len = (case kind of
       Regular \<Rightarrow> bytes ''<tr><td><a href='' @ [34] @ enstr @ [34, 62] @ name @ bytes ''</a></td><td>'' @ show_nat len @ bytes ''</td></tr>''
     | Directory \<Rightarrow> bytes ''<tr><td><a href='' @ [34] @ enstr @ [47, 34, 62] @ name @ bytes ''/</a></td><td>'' @ show_nat len @ bytes ''</td></tr>''
     | Other \<Rightarrow> [])"

text \<open>The loop over the entries of a directory; \<open>file\<close> has 1024 bytes, and so has the encoded name.\<close>

fun dir_loop :: "files \<Rightarrow> client \<Rightarrow> byte list \<Rightarrow> byte list \<Rightarrow> byte list list \<Rightarrow> client outcome" where
  "dir_loop w c path buf [] =
     (case append_buf buf (bytes ''</table></body></html>'') of None \<Rightarrow> Undefined | Some buf \<Rightarrow> Done (send c buf))"
| "dir_loop w c path buf (name # names) =
     (let file = path @ [47] @ name
      in if length file + 1 > 1024 then Undefined
         else case file_stat w file of
           None \<Rightarrow> Exited c
         | Some (kind, len) \<Rightarrow>
             (case append_buf buf (dir_row (encode_str 1024 name) name kind len) of
                None \<Rightarrow> Undefined
              | Some buf \<Rightarrow> dir_loop w (send c buf) path [] names))"

definition dir_title :: "byte list \<Rightarrow> byte list" where
  "dir_title path = bytes ''<html><head><title>'' @ [231, 155, 174, 229, 189, 149, 229, 144, 141] @ bytes '': '' @ path @ bytes ''</title></head>''"

definition dir_heading :: "byte list \<Rightarrow> byte list" where
  "dir_heading path = bytes ''<body><h1>'' @ [229, 189, 147, 229, 137, 141, 231, 155, 174, 229, 189, 149] @ bytes '': '' @ path @ bytes ''</h1><table>''"

definition send_dir :: "files \<Rightarrow> client \<Rightarrow> byte list \<Rightarrow> client outcome" where
  "send_dir w c path =
     (case append_buf [] (dir_title path) of
        None \<Rightarrow> Undefined
      | Some buf \<Rightarrow>
          (case append_buf buf (dir_heading path) of
             None \<Rightarrow> Undefined
           | Some buf \<Rightarrow> (case entries w path of None \<Rightarrow> Exited c | Some names \<Rightarrow> dir_loop w c path buf names)))"

subsection \<open>Requests\<close>

text \<open>\<open>sscanf(line, "%[^ ] %[^ ]", method, res)\<close>: the method and the resource, each empty when it is not matched.\<close>

definition scan_request :: "byte list \<Rightarrow> byte list \<times> byte list" where
  "scan_request line =
     (let method = takeWhile (\<lambda>b. b \<noteq> 32) line
      in if method = [] then ([], [])
         else (method, takeWhile (\<lambda>b. b \<noteq> 32) (dropWhile is_space (dropWhile (\<lambda>b. b \<noteq> 32) line))))"

text \<open>The file that a request line asks for: \<open>method\<close> has 12 bytes, and \<open>destr + 1\<close> may be past the string.\<close>

definition request_file :: "byte list \<Rightarrow> byte list \<Rightarrow> byte list option" where
  "request_file junk line =
     (let (method, res) = scan_request line
      in if length method + 1 > 12 \<or> length res + 1 > 1024 then None
         else if res = [47] then Some (bytes ''./'')
         else cstring_from (overwrite junk 0 (decode_str res @ [0])) 1)"

definition http_get_request :: "files \<Rightarrow> byte list \<Rightarrow> byte list \<Rightarrow> client \<Rightarrow> client outcome" where
  "http_get_request w junk line c =
     (case request_file junk line of
        None \<Rightarrow> Undefined
      | Some file \<Rightarrow>
          (case file_stat w file of
             None \<Rightarrow> Exited c
           | Some (kind, len) \<Rightarrow>
               (case kind of
                  Directory \<Rightarrow> send_dir w (send_respond_head c 200 (bytes ''OK'') (get_file_type (bytes ''.html'')) 100000) file
                | Regular \<Rightarrow> send_file w (send_respond_head c 200 (bytes ''OK'') (get_file_type file) len) file
                | Other \<Rightarrow> Done c)))"

subsection \<open>Connections\<close>

text \<open>The open connections and the descriptors in the epoll set.  \<open>epoll_ctl\<close> fails when it is to add a
  descriptor that is there or to delete one that is not.\<close>

record epoll_server =
  watched :: "nat list"
  conns :: "nat \<Rightarrow> client option"

definition epoll_add :: "epoll_server \<Rightarrow> nat \<Rightarrow> epoll_server outcome" where
  "epoll_add s fd = (if fd \<in> set (watched s) then Exited s else Done (s\<lparr>watched := watched s @ [fd]\<rparr>))"

definition epoll_run :: "bool \<Rightarrow> epoll_server \<Rightarrow> nat \<Rightarrow> epoll_server outcome" where
  "epoll_run created s lfd = (if created then epoll_add (s\<lparr>watched := []\<rparr>) lfd else Exited s)"

text \<open>\<open>accepted\<close> is what \<open>accept\<close> returned: a fresh descriptor with its client, or an error.\<close>

definition do_accept :: "(nat \<times> client) option \<Rightarrow> epoll_server \<Rightarrow> epoll_server outcome" where
  "do_accept accepted s = (case accepted of
       None \<Rightarrow> Exited s
     | Some (cfd, c) \<Rightarrow> epoll_add (s\<lparr>conns := (conns s)(cfd \<mapsto> c)\<rparr>) cfd)"

definition disconnect :: "epoll_server \<Rightarrow> nat \<Rightarrow> epoll_server outcome" where
  "disconnect s cfd =
     (if cfd \<in> set (watched s)
      then Done (s\<lparr>watched := remove1 cfd (watched s), conns := (conns s)(cfd := map_option (\<lambda>c. c\<lparr>closed := True\<rparr>) (conns s cfd))\<rparr>)
      else Exited s)"

lemma chars_loop_newline [simp]: "chars_loop k 10 inp = ([], inp)"
  by (cases k) auto

text \<open>The two servers read lines alike.\<close>

lemma chars_loop_line_loop: "ch \<noteq> 10 \<Longrightarrow> chars_loop k ch inp = line_loop k inp"
proof (induction k inp arbitrary: ch rule: line_loop.induct)
  case (3 k b bs)
  then show ?case by (cases bs) (auto split: prod.splits)
qed auto

lemma read_line_eq: "read_line c n = (fst (line_loop (n - 1) (incoming c)), c\<lparr>incoming := snd (line_loop (n - 1) (incoming c))\<rparr>)"
  by (simp add: read_line_def chars_loop_line_loop split: prod.splits)

text \<open>The loop of \<open>do_read\<close> that reads and prints the remaining lines; \<open>len\<close> is the length of the last one.\<close>

lemma drain_measure:
  assumes "0 < len" "(buf, c') = read_line c 1024"
  shows "line_measure c' (length buf) < line_measure c len"
proof -
  have "length (fst (line_loop 1023 (incoming c))) + length (snd (line_loop 1023 (incoming c))) \<le> length (incoming c)"
    using line_loop_length [OF surjective_pairing, of 1023 "incoming c"] by simp
  then show ?thesis using assms
    by (cases "fst (line_loop 1023 (incoming c))") (auto simp: line_measure_def read_line_eq)
qed

function drain :: "client \<Rightarrow> nat \<Rightarrow> client" where
  "drain c len = (if len = 0 then c else (case read_line c 1024 of (buf, c) \<Rightarrow> drain c (length buf)))"
  by pat_completeness auto

termination
  by (relation "measure (\<lambda>(c, len). line_measure c len)") (auto simp: drain_measure)

declare drain.simps [simp del]

definition do_read :: "files \<Rightarrow> byte list \<Rightarrow> epoll_server \<Rightarrow> nat \<Rightarrow> epoll_server outcome" where
  "do_read w junk s cfd = (case conns s cfd of
       None \<Rightarrow> Done s
     | Some c \<Rightarrow>
         (let (line, c) = read_line c 1024;
              c = drain c (length line);
              s = s\<lparr>conns := (conns s)(cfd \<mapsto> c)\<rparr>;
              line = str_of line
          in if same_nocase (take 3 line) (bytes ''get'')
             then (case http_get_request w junk line c of
                     Done c \<Rightarrow> disconnect (s\<lparr>conns := (conns s)(cfd \<mapsto> c)\<rparr>) cfd
                   | Exited c \<Rightarrow> Exited (s\<lparr>conns := (conns s)(cfd \<mapsto> c)\<rparr>)
                   | Undefined \<Rightarrow> Undefined)
             else Done s))"

subsection \<open>The encoding\<close>

lemma encode_loop_length:
  "tolen + length (encode_loop tosize tolen from) \<le> max tolen (tosize - 2)"
proof (induction tosize tolen "from" rule: encode_loop.induct)
  case (2 tosize tolen c "from")
  then show ?case by (auto simp: percent_02x_def)
qed simp

text \<open>The encoding without regard to the size of the array.\<close>

definition percent_encoded :: "byte list \<Rightarrow> byte list" where
  "percent_encoded name = concat (map (\<lambda>c. if is_plain c then [c] else percent_02x c) name)"

lemma percent_encoded_Nil [simp]: "percent_encoded [] = []"
  by (simp add: percent_encoded_def)

lemma percent_encoded_Cons: "percent_encoded (c # name) = (if is_plain c then [c] else percent_02x c) @ percent_encoded name"
  by (simp add: percent_encoded_def)

lemma encode_loop_room:
  "tolen + 3 * length from + 1 < tosize \<Longrightarrow> encode_loop tosize tolen from = percent_encoded from"
  by (induction tosize tolen "from" rule: encode_loop.induct) (auto simp: percent_encoded_Cons)

lemma hex_digit_xdigit: "n < 16 \<Longrightarrow> is_xdigit (hex_digit n) \<and> hexit (hex_digit n) = int n \<and> \<not> is_space (hex_digit n) \<and> hex_digit n \<noteq> 0"
proof -
  assume "n < 16"
  then have "n \<in> {0, 1, 2, 3, 4, 5, 6, 7, 8, 9, 10, 11, 12, 13, 14, 15}" by (auto simp: numeral_eq_Suc less_Suc_eq)
  then show ?thesis by (elim insertE) (simp_all add: hex_digit_def is_xdigit_def hexit_def is_space_def)
qed

lemma word_of_hex: "word_of_nat (unat (c::byte) div 16) * 16 + word_of_nat (unat c mod 16) = c"
proof -
  have "word_of_nat (unat c div 16 * 16 + unat c mod 16) = c" by (simp only: div_mult_mod_eq of_nat_unat ucast_id)
  then show ?thesis by (metis of_nat_add of_nat_mult of_nat_numeral)
qed

lemma unat_byte_div16: "unat (c::byte) div 16 < 16"
  using unsigned_less [of c, where 'a = nat] by (simp add: less_mult_imp_div_less)

lemma not_plain_percent: "\<not> is_plain 37"
  by (simp add: is_plain_def is_alnum_def bytes_def)

lemma decode_other: "c \<noteq> 37 \<Longrightarrow> decode_str (c # from) = c # decode_str from"
  by (cases "from" rule: list.exhaust, simp, rename_tac y ys, case_tac ys) simp_all

lemma decode_percent: "decode_str (percent_02x c @ from) = c # decode_str from"
  using hex_digit_xdigit [OF unat_byte_div16 [of c]] hex_digit_xdigit [of "unat c mod 16"]
  by (simp add: percent_02x_def word_of_hex)

lemma decode_encoded:
  "decode_str (percent_encoded from @ r) = from @ decode_str r"
proof (induction "from")
  case (Cons c "from")
  show ?case
  proof (cases "is_plain c")
    case True
    then have "c \<noteq> 37" using not_plain_percent by auto
    then show ?thesis using Cons True by (simp add: decode_other percent_encoded_Cons)
  next
    case False
    then show ?thesis using Cons by (simp add: decode_percent percent_encoded_Cons)
  qed
qed simp

lemma encode_str_name:
  "length name \<le> 255 \<Longrightarrow> encode_str 1024 name = percent_encoded name"
  by (simp add: encode_str_def encode_loop_room)

lemma plain_char: "is_plain b \<Longrightarrow> \<not> is_space b \<and> b \<noteq> 0"
  by (auto simp: is_plain_def is_alnum_def is_space_def bytes_def dest: order_trans [of _ b])

lemma percent_char: "b \<in> set (percent_02x c) \<Longrightarrow> \<not> is_space b \<and> b \<noteq> 0"
  using hex_digit_xdigit [OF unat_byte_div16 [of c]] hex_digit_xdigit [of "unat c mod 16"]
  by (auto simp: percent_02x_def is_space_def)

lemma encoded_chars: "b \<in> set (percent_encoded name) \<Longrightarrow> \<not> is_space b \<and> b \<noteq> 0"
proof (induction name)
  case (Cons c name)
  then show ?case using plain_char percent_char by (auto simp: percent_encoded_Cons split: if_splits)
qed simp

subsection \<open>Following a link\<close>

lemma drain_all: "0 < len \<Longrightarrow> drain c len = c\<lparr>incoming := []\<rparr>"
proof (induction c len rule: drain.induct)
  case (1 c len)
  obtain line rest where l: "line_loop 1023 (incoming c) = (line, rest)" by fastforce
  have d: "drain c len = drain (c\<lparr>incoming := rest\<rparr>) (length line)"
    using "1.prems" l by (simp add: drain.simps [of c len] read_line_eq)
  show ?case
  proof (cases "line = []")
    case True
    then have "rest = []" using l by (cases "incoming c") (auto simp: numeral_eq_Suc split: if_splits prod.splits)
    then show ?thesis using d True by (simp add: drain.simps [of _ 0])
  next
    case False
    have "read_line c 1024 = (line, c\<lparr>incoming := rest\<rparr>)" using l by (simp add: read_line_eq)
    then show ?thesis using 1(1) [of line "c\<lparr>incoming := rest\<rparr>"] "1.prems" False d by simp
  qed
qed

lemma request_file_get:
  assumes "scan_request line = (bytes ''GET'', 47 # percent_encoded name)"
    and "name \<noteq> []" "0 \<notin> set name" "length name \<le> 255" "length junk = 1024"
  shows "request_file junk line = Some name"
proof -
  let ?enc = "percent_encoded name"
  have dec: "decode_str (47 # ?enc) = 47 # name" using decode_encoded [of name "[]"] by (simp add: decode_other)
  have "length ?enc \<le> 1022" using encode_loop_length [of 0 1024 name] assms(4) by (simp add: encode_loop_room)
  moreover have "?enc \<noteq> []" using assms(2) by (cases name) (auto simp: percent_02x_def percent_encoded_Cons)
  moreover have "cstring_from (overwrite junk 0 ((47 # name) @ [0])) 1 = Some name"
    using assms(3) str_of_nul [of name] by (simp add: cstring_from_def overwrite_def str_of_def)
  ultimately show ?thesis using assms(1) dec by (simp add: request_file_def bytes_def)
qed

lemma scan_get:
  "\<forall>b \<in> set u. b \<noteq> 32 \<Longrightarrow> scan_request (bytes ''GET'' @ 32 # 47 # u @ 32 # rest) = (bytes ''GET'', 47 # u)"
  by (simp add: scan_request_def bytes_def is_space_def)

text \<open>C10. A file name is encoded without loss and fits into the array for it; decoding the link gives the name
  back.\<close>

theorem decode_encode_name:
  assumes "length name \<le> 255"
  shows "decode_str (encode_str 1024 name) = name \<and> length (encode_str 1024 name) + 1 < 1024"
  using decode_encoded [of name "[]"] encode_loop_length [of 0 1024 name] assms
  by (simp add: encode_str_name) (simp add: encode_loop_room)

theorem decode_encode_name_witness:
  "decode_str (encode_str 1024 (bytes ''a b%.txt'')) = bytes ''a b%.txt'' \<and> length (encode_str 1024 (bytes ''a b%.txt'')) + 1 < 1024"
  using decode_encode_name [of "bytes ''a b%.txt''"] by (simp add: bytes_def)

text \<open>Whatever the size of the array and the name, \<open>encode_str\<close> stays inside the array, its NUL included.\<close>

theorem encode_str_fits:
  assumes "2 \<le> tosize"
  shows "length (encode_str tosize from) + 1 < tosize"
  using encode_loop_length [of 0 tosize "from"] assms by (simp add: encode_str_def)

theorem encode_str_fits_witness: "length (encode_str 8 (bytes ''a b c d'')) + 1 < 8"
  using encode_str_fits [of 8 "bytes ''a b c d''"] by simp

text \<open>A GET request that follows the link to a regular file of the served directory is answered with a head
  that announces the length of the file, and with nothing else: \<open>send_file\<close> never sends the content.
  The connection is then closed and no longer watched.\<close>

theorem regular_file_gets_no_body:
  assumes "conns s cfd = Some c" "cfd \<in> set (watched s)"
    and "incoming c = bytes ''GET'' @ 32 # 47 # encode_str 1024 name @ 32 # rest"
    and "name \<noteq> []" "0 \<notin> set name" "length name \<le> 255" "length junk = 1024"
    and "file_stat w name = Some (Regular, len)" "can_open w name"
  shows "do_read w junk s cfd = Done (s\<lparr>watched := remove1 cfd (watched s), conns := (conns s)(cfd \<mapsto>
      c\<lparr>incoming := [], sent := sent c @
        [bytes ''http/1.1 200 OK'' @ [13, 10],
         bytes ''Content-Type:'' @ get_file_type name @ [13, 10] @ bytes ''Content-Length:'' @ show_nat len @ [13, 10],
         [13, 10]], closed := True\<rparr>)\<rparr>)"
proof -
  let ?enc = "percent_encoded name"
  let ?p = "bytes ''GET'' @ 32 # 47 # ?enc @ [32]"
  have enc: "encode_str 1024 name = ?enc" using assms(6) by (rule encode_str_name)
  have "length ?enc \<le> 1022" using encode_loop_length [of 0 1024 name] assms(6) by (simp add: encode_loop_room)
  moreover have "length ?enc \<le> 3 * length name" by (induction name) (auto simp: percent_02x_def percent_encoded_Cons)
  ultimately have p: "length ?p \<le> 1023" using assms(6) by (simp add: bytes_def)
  have ok: "\<not> is_space b \<and> b \<noteq> 0" if "b \<in> set ?enc" for b using encoded_chars [OF that] .
  have "10 \<notin> set ?enc" "13 \<notin> set ?enc" using ok [of 10] ok [of 13] by (auto simp: is_space_def)
  then have "\<forall>b \<in> set ?p. b \<noteq> 13 \<and> b \<noteq> 10" by (auto simp: bytes_def)
  then obtain post left where line: "line_loop 1023 (incoming c) = (?p @ post, left)"
    using line_loop_prefix [OF _ p, of rest] assms(3) enc by auto
  have nul: "str_of (?p @ post) = ?p @ str_of post"
    using ok by (auto simp: str_of_def bytes_def takeWhile_append2)
  have s32: "\<forall>b \<in> set ?enc. b \<noteq> 32" using ok by (auto simp: is_space_def)
  have req: "request_file junk (?p @ str_of post) = Some name"
    using request_file_get [OF _ assms(4-7)] scan_get [OF s32, of "str_of post"] by simp
  have "show_nat 200 = bytes ''200''" by (simp add: show_nat.simps bytes_def)
  then have "http_get_request w junk (?p @ str_of post) (c\<lparr>incoming := []\<rparr>) =
      Done (c\<lparr>incoming := [], sent := sent c @
        [bytes ''http/1.1 200 OK'' @ [13, 10],
         bytes ''Content-Type:'' @ get_file_type name @ [13, 10] @ bytes ''Content-Length:'' @ show_nat len @ [13, 10],
         [13, 10]]\<rparr>)"
    using req assms(8,9) by (simp add: http_get_request_def send_file_def send_respond_head_def sends_def bytes_def)
  moreover have "read_line c 1024 = (?p @ post, c\<lparr>incoming := left\<rparr>)" using line by (simp add: read_line_eq)
  moreover have "drain (c\<lparr>incoming := left\<rparr>) (length (?p @ post)) = c\<lparr>incoming := []\<rparr>" by (simp add: drain_all)
  moreover have "same_nocase (take 3 (?p @ str_of post)) (bytes ''get'')" by (simp add: bytes_def same_nocase_def lower_def)
  ultimately show ?thesis using assms(1,2) nul by (simp add: do_read_def disconnect_def)
qed

theorem regular_file_gets_no_body_witness:
  "do_read \<lparr>file_stat = (\<lambda>p. Some (Regular, 5)), can_open = (\<lambda>p. True), entries = (\<lambda>p. None)\<rparr> (replicate 1024 0)
     \<lparr>watched = [3, 7], conns = [7 \<mapsto> \<lparr>incoming = bytes ''GET'' @ 32 # 47 # encode_str 1024 (bytes ''a b'') @ 32 # bytes ''HTTP/1.1'', sent = [], closed = False\<rparr>]\<rparr> 7 =
   Done \<lparr>watched = [3], conns = [7 \<mapsto> \<lparr>incoming = [], sent =
        [bytes ''http/1.1 200 OK'' @ [13, 10],
         bytes ''Content-Type:'' @ get_file_type (bytes ''a b'') @ [13, 10] @ bytes ''Content-Length:'' @ show_nat 5 @ [13, 10],
         [13, 10]], closed = True\<rparr>]\<rparr>"
  using regular_file_gets_no_body [of "\<lparr>watched = [3, 7], conns = [7 \<mapsto> \<lparr>incoming = bytes ''GET'' @ 32 # 47 # encode_str 1024 (bytes ''a b'') @ 32 # bytes ''HTTP/1.1'', sent = [], closed = False\<rparr>]\<rparr>" 7
      "\<lparr>incoming = bytes ''GET'' @ 32 # 47 # encode_str 1024 (bytes ''a b'') @ 32 # bytes ''HTTP/1.1'', sent = [], closed = False\<rparr>" "bytes ''a b''" "bytes ''HTTP/1.1''"
      "replicate 1024 0" "\<lparr>file_stat = (\<lambda>p. Some (Regular, 5)), can_open = (\<lambda>p. True), entries = (\<lambda>p. None)\<rparr>" 5]
  by (simp add: bytes_def)

subsection \<open>Listings\<close>

text \<open>The page of a directory whose entries have already been looked up.\<close>

definition listing :: "byte list \<Rightarrow> (byte list \<times> file_kind \<times> nat) list \<Rightarrow> byte list" where
  "listing path rows = dir_title path @ dir_heading path @
     concat (map (\<lambda>(name, kind, len). dir_row (percent_encoded name) name kind len) rows) @ bytes ''</table></body></html>''"

lemma dir_row_length:
  "length name \<le> 255 \<Longrightarrow> len < 2 ^ 63 \<Longrightarrow> length (dir_row (encode_str 1024 name) name kind len) \<le> 1400"
  using encode_loop_length [of 0 1024 name] length_show_nat [of len 18]
  by (cases kind) (auto simp: dir_row_def encode_str_def bytes_def)

lemma append_buf_fits: "length buf + length s < 4096 \<Longrightarrow> append_buf buf s = Some (buf @ s)"
  by (simp add: append_buf_def)

lemma dir_loop_sends:
  assumes "\<forall>(name, kind, len) \<in> set rows. length name \<le> 255 \<and> length path + length name < 1023 \<and> len < 2 ^ 63 \<and>
      file_stat w (path @ [47] @ name) = Some (kind, len)"
    and "length buf \<le> 2600"
  shows "\<exists>ls. dir_loop w c path buf (map fst rows) = Done (sends c ls) \<and>
    concat ls = buf @ concat (map (\<lambda>(name, kind, len). dir_row (percent_encoded name) name kind len) rows) @ bytes ''</table></body></html>''"
  using assms
proof (induction rows arbitrary: c buf)
  case Nil
  let ?closing = "bytes ''</table></body></html>''"
  have "append_buf buf ?closing = Some (buf @ ?closing)" using Nil.prems(2) by (intro append_buf_fits) (simp add: bytes_def)
  then show ?case by (intro exI [of _ "[buf @ ?closing]"]) simp
next
  case (Cons r rows)
  obtain name kind len where r: "r = (name, kind, len)" by (cases r) auto
  let ?row = "dir_row (encode_str 1024 name) name kind len"
  have n: "length name \<le> 255" "length path + length name < 1023" "len < 2 ^ 63" "file_stat w (path @ [47] @ name) = Some (kind, len)"
    using Cons.prems(1) r by auto
  have row: "append_buf buf ?row = Some (buf @ ?row)"
    using Cons.prems(2) dir_row_length [OF n(1,3), of kind] by (intro append_buf_fits) simp
  obtain ls where ls: "dir_loop w (send c (buf @ ?row)) path [] (map fst rows) = Done (sends (send c (buf @ ?row)) ls)"
      "concat ls = concat (map (\<lambda>(name, kind, len). dir_row (percent_encoded name) name kind len) rows) @ bytes ''</table></body></html>''"
    using Cons.IH [of "[]" "send c (buf @ ?row)"] Cons.prems(1) by auto
  have "dir_loop w c path buf (map fst (r # rows)) = dir_loop w (send c (buf @ ?row)) path [] (map fst rows)"
    using r n row by simp
  then show ?case using ls r n(1) by (intro exI [of _ "(buf @ ?row) # ls"]) (simp add: encode_str_name)
qed

text \<open>C9. When the path of a directory has at most 767 bytes, no name has more than 255 and every entry can be looked up, the
  listing sent has one row, with a working link, for every regular file and every directory in it, in order, and none for entries of another
  kind, which the code leaves out; no write goes past the end of an array.\<close>

theorem send_dir_lists:
  assumes "entries w path = Some (map fst rows)" "length path \<le> 767"
    and "\<forall>(name, kind, len) \<in> set rows. length name \<le> 255 \<and> len < 2 ^ 63 \<and> file_stat w (path @ [47] @ name) = Some (kind, len)"
  shows "\<exists>ls. send_dir w c path = Done (c\<lparr>sent := sent c @ ls\<rparr>) \<and> concat ls = listing path rows"
proof -
  have t: "append_buf [] (dir_title path) = Some (dir_title path)"
    using assms(2) append_buf_fits [of "[]" "dir_title path"] by (simp add: dir_title_def bytes_def)
  have h: "append_buf (dir_title path) (dir_heading path) = Some (dir_title path @ dir_heading path)"
    using assms(2) by (intro append_buf_fits) (simp add: dir_title_def dir_heading_def bytes_def)
  have "length (dir_title path @ dir_heading path) \<le> 2600"
    using assms(2) by (simp add: dir_title_def dir_heading_def bytes_def)
  then obtain ls where "dir_loop w c path (dir_title path @ dir_heading path) (map fst rows) = Done (sends c ls)" "concat ls = listing path rows"
    using dir_loop_sends [of rows path w "dir_title path @ dir_heading path" c] assms(2,3) by (fastforce simp: listing_def)
  then show ?thesis using t h assms(1) by (auto simp: send_dir_def sends_def)
qed

theorem send_dir_lists_witness:
  "\<exists>ls. send_dir \<lparr>file_stat = (\<lambda>p. Some (Regular, 5)), can_open = (\<lambda>p. True), entries = (\<lambda>p. Some [bytes ''a b''])\<rparr>
      \<lparr>incoming = [], sent = [], closed = False\<rparr> (bytes ''./'') = Done \<lparr>incoming = [], sent = ls, closed = False\<rparr> \<and>
    concat ls = listing (bytes ''./'') [(bytes ''a b'', Regular, 5)]"
  using send_dir_lists [of "\<lparr>file_stat = (\<lambda>p. Some (Regular, 5)), can_open = (\<lambda>p. True), entries = (\<lambda>p. Some [bytes ''a b''])\<rparr>" "bytes ''./''"
      "[(bytes ''a b'', Regular, 5)]" "\<lparr>incoming = [], sent = [], closed = False\<rparr>"]
  by (simp add: bytes_def)

end
