(* ===== verification/Uring_Copy.thy ===== *)
theory Uring_Copy
  imports Prelude "HOL-Library.Multiset"
begin

text \<open>
  Copying a file with io_uring (\<open>liburing-learnning/io_uring-cp.c\<close>).  The program is a step relation: the
  steps of \<open>copy_file\<close>, one for each round of its loops, and the steps of the kernel, which completes
  the requests it has been given in any order, wholly, partly or with an error.  A request owns its
  \<open>io_data\<close>, which is in exactly one place at any time: prepared in the submission queue, in the kernel, or
  in the completion queue.
\<close>

definition QD :: nat where "QD = 64"
definition BS :: nat where "BS = 32 * 1024"
definition EAGAIN :: int where "EAGAIN = 11"

text \<open>\<open>iov_base\<close> is the distance from the start of the buffer behind the structure, \<open>buffer\<close> that buffer.\<close>

record io_data =
  reading :: bool
  first_offset :: nat
  offset :: nat
  first_len :: nat
  iov_base :: nat
  iov_len :: nat
  buffer :: "byte list"

text \<open>Where the program is: before the outer loop, in the loop that queues reads (with the value of
  \<open>had_reads\<close>), before the submission, in the loop that takes completions (with \<open>got_comp\<close>), in the last
  loop, at its end, or stopped by \<open>assert\<close>.\<close>

datatype copy_pc = Top | Fill nat | Submit | Reap bool | Drain | Returned nat | Aborted

text \<open>\<open>lossy\<close> records that the last loop has accepted an incomplete write or that the submission of the reads
  has failed; the program does not look at it.\<close>

record copier =
  insize :: nat
  write_left :: nat
  next_offset :: nat
  reads :: nat
  writes :: nat
  sq :: "io_data list"
  flying :: "io_data list"
  cq :: "(io_data \<times> int) list"
  outfile :: "nat \<Rightarrow> byte option"
  at :: copy_pc
  lossy :: bool

subsection \<open>The program\<close>

text \<open>The size of a file; the size of a block device is never returned, since the statements that do it stand in
  the branch of the failed \<open>ioctl\<close>.\<close>

datatype file_type = Regular_file nat | Block_device "nat option" | Other_file

definition get_file_size :: "file_type option \<Rightarrow> nat option" where
  "get_file_size st = (case st of
     None \<Rightarrow> None
   | Some (Regular_file n) \<Rightarrow> Some n
   | Some (Block_device dev) \<Rightarrow> (case dev of None \<Rightarrow> None | Some b \<Rightarrow> None)
   | Some Other_file \<Rightarrow> None)"

definition new_data :: "nat \<Rightarrow> nat \<Rightarrow> byte list \<Rightarrow> io_data" where
  "new_data len off junk =
     \<lparr>reading = True, first_offset = off, offset = off, first_len = len, iov_base = 0, iov_len = len, buffer = junk\<rparr>"

text \<open>\<open>queue_read\<close> with the content of the memory that \<open>malloc\<close> returns; \<open>None\<close> is its failure.\<close>

definition queue_read :: "copier \<Rightarrow> byte list option \<Rightarrow> nat \<Rightarrow> nat \<Rightarrow> copier option" where
  "queue_read s mal len off = (case mal of
     None \<Rightarrow> None
   | Some junk \<Rightarrow> if length (sq s) < QD then Some (s\<lparr>sq := sq s @ [new_data len off junk]\<rparr>) else None)"

text \<open>\<open>io_uring_submit\<close>; \<open>ok\<close> tells whether it succeeds.\<close>

definition submit :: "bool \<Rightarrow> copier \<Rightarrow> copier" where
  "submit ok s = (if ok then s\<lparr>flying := flying s @ sq s, sq := []\<rparr> else s)"

definition queue_prepped :: "copier \<Rightarrow> io_data \<Rightarrow> copier option" where
  "queue_prepped s d = (if length (sq s) < QD then Some (s\<lparr>sq := sq s @ [d]\<rparr>) else None)"

definition to_write :: "io_data \<Rightarrow> io_data" where
  "to_write d = d\<lparr>reading := False, offset := first_offset d, iov_base := 0, iov_len := first_len d\<rparr>"

definition queue_write :: "bool \<Rightarrow> copier \<Rightarrow> io_data \<Rightarrow> copier option" where
  "queue_write ok s d = map_option (submit ok) (queue_prepped s (to_write d))"

text \<open>The body of the loop that queues reads.\<close>

definition fill_one :: "copier \<Rightarrow> byte list option \<Rightarrow> copier option" where
  "fill_one s mal =
     (if insize s = 0 \<or> reads s + writes s \<ge> QD then None
      else let this_size = min (insize s) BS
           in map_option (\<lambda>s. s\<lparr>insize := insize s - this_size, next_offset := next_offset s + this_size, reads := reads s + 1\<rparr>)
                (queue_read s mal this_size (next_offset s)))"

definition advance :: "io_data \<Rightarrow> nat \<Rightarrow> io_data" where
  "advance d n = d\<lparr>iov_base := iov_base d + n, iov_len := iov_len d - n, offset := offset d + n\<rparr>"

definition cqe_seen :: "copier \<Rightarrow> copier" where
  "cqe_seen s = s\<lparr>cq := tl (cq s)\<rparr>"

text \<open>What the second inner loop does with a completion; \<open>None\<close> is a failed assertion.\<close>

definition handle :: "bool \<Rightarrow> copier \<Rightarrow> io_data \<Rightarrow> int \<Rightarrow> copier option" where
  "handle ok s d res =
     (if res < 0 then
        if res = - EAGAIN then map_option (\<lambda>s. cqe_seen (submit ok s)) (queue_prepped s d)
        else Some (s\<lparr>at := Returned 1\<rparr>)
      else if nat res \<noteq> iov_len d then map_option (\<lambda>s. cqe_seen (submit ok s)) (queue_prepped s (advance d (nat res)))
      else if reading d then
        map_option (\<lambda>s. cqe_seen (s\<lparr>write_left := write_left s - first_len d, reads := reads s - 1, writes := writes s + 1\<rparr>)) (queue_write ok s d)
      else Some (cqe_seen (s\<lparr>writes := writes s - 1\<rparr>)))"

subsection \<open>The kernel\<close>

definition kernel_read :: "byte list \<Rightarrow> io_data \<Rightarrow> nat \<Rightarrow> io_data" where
  "kernel_read infile d n = d\<lparr>buffer := overwrite (buffer d) (iov_base d) (take n (drop (offset d) infile))\<rparr>"

definition kernel_write :: "io_data \<Rightarrow> nat \<Rightarrow> (nat \<Rightarrow> byte option) \<Rightarrow> nat \<Rightarrow> byte option" where
  "kernel_write d n out i =
     (if offset d \<le> i \<and> i < offset d + n then Some (buffer d ! (iov_base d + (i - offset d))) else out i)"

subsection \<open>Steps\<close>

inductive copy_step :: "byte list \<Rightarrow> copier \<Rightarrow> copier \<Rightarrow> bool" for infile where
  top_enter: "at s = Top \<Longrightarrow> 0 < insize s \<or> 0 < write_left s \<Longrightarrow> copy_step infile s (s\<lparr>at := Fill (reads s)\<rparr>)"
| top_exit: "at s = Top \<Longrightarrow> insize s = 0 \<Longrightarrow> write_left s = 0 \<Longrightarrow> copy_step infile s (s\<lparr>at := Drain\<rparr>)"
| fill_go: "at s = Fill h \<Longrightarrow> length junk = min (insize s) BS \<Longrightarrow> fill_one s (Some junk) = Some t \<Longrightarrow> copy_step infile s t"
| fill_stop: "at s = Fill h \<Longrightarrow> fill_one s mal = None \<Longrightarrow> copy_step infile s (s\<lparr>at := (if h \<noteq> reads s then Submit else Reap False)\<rparr>)"
| submit_ok: "at s = Submit \<Longrightarrow> copy_step infile s ((submit True s)\<lparr>at := Reap False\<rparr>)"
| submit_fail: "at s = Submit \<Longrightarrow> copy_step infile s (s\<lparr>at := Drain, lossy := True\<rparr>)"
| reap_done: "at s = Reap g \<Longrightarrow> write_left s = 0 \<Longrightarrow> copy_step infile s (s\<lparr>at := Top\<rparr>)"
| reap_one: "at s = Reap g \<Longrightarrow> 0 < write_left s \<Longrightarrow> cq s = (d, res) # cs \<Longrightarrow> handle ok (s\<lparr>at := Reap True\<rparr>) d res = Some t \<Longrightarrow>
    copy_step infile s t"
| reap_assert: "at s = Reap g \<Longrightarrow> 0 < write_left s \<Longrightarrow> cq s = (d, res) # cs \<Longrightarrow> handle ok (s\<lparr>at := Reap True\<rparr>) d res = None \<Longrightarrow>
    copy_step infile s (s\<lparr>at := Aborted\<rparr>)"
| wait_fails: "at s = Reap False \<Longrightarrow> 0 < write_left s \<Longrightarrow> copy_step infile s (s\<lparr>at := Returned 1\<rparr>)"
| peek_empty: "at s = Reap True \<Longrightarrow> 0 < write_left s \<Longrightarrow> cq s = [] \<Longrightarrow> copy_step infile s (s\<lparr>at := Returned 1\<rparr>)"
| drain_done: "at s = Drain \<Longrightarrow> writes s = 0 \<Longrightarrow> copy_step infile s (s\<lparr>at := Returned 0\<rparr>)"
| drain_one: "at s = Drain \<Longrightarrow> 0 < writes s \<Longrightarrow> cq s = (d, res) # cs \<Longrightarrow> 0 \<le> res \<Longrightarrow>
    copy_step infile s (s\<lparr>cq := cs, writes := writes s - 1, lossy := (lossy s \<or> nat res \<noteq> iov_len d)\<rparr>)"
| drain_error: "at s = Drain \<Longrightarrow> 0 < writes s \<Longrightarrow> cq s = (d, res) # cs \<Longrightarrow> res < 0 \<Longrightarrow> copy_step infile s (s\<lparr>at := Returned 1\<rparr>)"
| drain_wait_fails: "at s = Drain \<Longrightarrow> 0 < writes s \<Longrightarrow> copy_step infile s (s\<lparr>at := Returned 1\<rparr>)"
| kernel_reads: "flying s = xs @ d # ys \<Longrightarrow> reading d \<Longrightarrow> n \<le> iov_len d \<Longrightarrow> n \<le> length infile - offset d \<Longrightarrow>
    copy_step infile s (s\<lparr>flying := xs @ ys, cq := cq s @ [(kernel_read infile d n, int n)]\<rparr>)"
| kernel_writes: "flying s = xs @ d # ys \<Longrightarrow> \<not> reading d \<Longrightarrow> n \<le> iov_len d \<Longrightarrow>
    copy_step infile s (s\<lparr>flying := xs @ ys, cq := cq s @ [(d, int n)], outfile := kernel_write d n (outfile s)\<rparr>)"
| kernel_fails: "flying s = xs @ d # ys \<Longrightarrow> res < 0 \<Longrightarrow> copy_step infile s (s\<lparr>flying := xs @ ys, cq := cq s @ [(d, res)]\<rparr>)"

definition copy_init :: "byte list \<Rightarrow> copier \<Rightarrow> bool" where
  "copy_init infile s \<longleftrightarrow> s = \<lparr>insize = length infile, write_left = length infile, next_offset = 0, reads = 0, writes = 0,
     sq = [], flying = [], cq = [], outfile = (\<lambda>i. None), at = Top, lossy = False\<rparr>"

subsection \<open>The invariant\<close>

definition outstanding :: "copier \<Rightarrow> io_data multiset" where
  "outstanding s = mset (sq s) + mset (flying s) + mset (map fst (cq s))"

text \<open>The first \<open>k\<close> bytes of a request have been transferred: into its buffer, or from it into the new file.\<close>

definition transferred :: "byte list \<Rightarrow> (nat \<Rightarrow> byte option) \<Rightarrow> io_data \<Rightarrow> nat \<Rightarrow> bool" where
  "transferred infile out d k \<longleftrightarrow>
     (if reading d then \<forall>j < k. buffer d ! j = infile ! (first_offset d + j)
      else (\<forall>j < first_len d. buffer d ! j = infile ! (first_offset d + j)) \<and>
        (\<forall>j < k. out (first_offset d + j) = Some (infile ! (first_offset d + j))))"

definition data_ok :: "byte list \<Rightarrow> (nat \<Rightarrow> byte option) \<Rightarrow> io_data \<Rightarrow> bool" where
  "data_ok infile out d \<longleftrightarrow> iov_base d + iov_len d = first_len d \<and> offset d = first_offset d + iov_base d \<and>
     first_offset d + first_len d \<le> length infile \<and> length (buffer d) = first_len d \<and> 0 < first_len d \<and>
     transferred infile out d (iov_base d)"

definition completion_ok :: "byte list \<Rightarrow> (nat \<Rightarrow> byte option) \<Rightarrow> io_data \<times> int \<Rightarrow> bool" where
  "completion_ok infile out c \<longleftrightarrow> data_ok infile out (fst c) \<and>
     (0 \<le> snd c \<longrightarrow> nat (snd c) \<le> iov_len (fst c) \<and> transferred infile out (fst c) (iov_base (fst c) + nat (snd c)))"

definition covered :: "io_data multiset \<Rightarrow> nat \<Rightarrow> bool" where
  "covered M i \<longleftrightarrow> (\<exists>d \<in># M. first_offset d \<le> i \<and> i < first_offset d + first_len d)"

text \<open>The accounts: how many requests there are of each kind, what is still to be written, and that every byte up
  to the next offset is in the new file or in a request.\<close>

definition accounts :: "byte list \<Rightarrow> copier \<Rightarrow> io_data multiset \<Rightarrow> bool" where
  "accounts infile s M \<longleftrightarrow>
     reads s = size (filter_mset reading M) \<and>
     write_left s = insize s + sum_mset (image_mset first_len (filter_mset reading M)) \<and>
     next_offset s + insize s = length infile \<and>
     (\<forall>i < next_offset s. outfile s i = Some (infile ! i) \<or> covered M i)"

definition requests_ok :: "byte list \<Rightarrow> copier \<Rightarrow> bool" where
  "requests_ok infile s \<longleftrightarrow> (\<forall>d \<in> set (sq s) \<union> set (flying s). data_ok infile (outfile s) d) \<and> (\<forall>c \<in> set (cq s). completion_ok infile (outfile s) c)"

definition finished :: "copier \<Rightarrow> bool" where
  "finished s \<longleftrightarrow> (at s = Drain \<or> at s = Returned 0 \<longrightarrow> insize s = 0 \<and> write_left s = 0) \<and> (at s = Returned 0 \<longrightarrow> writes s = 0)"

definition copy_inv :: "byte list \<Rightarrow> copier \<Rightarrow> bool" where
  "copy_inv infile s \<longleftrightarrow> size (outstanding s) = reads s + writes s \<and> reads s + writes s \<le> QD \<and> at s \<noteq> Aborted \<and>
     (if lossy s then at s = Drain \<or> (\<exists>n. at s = Returned n)
      else requests_ok infile s \<and> accounts infile s (outstanding s) \<and> finished s)"

text \<open>Only the place, or the flag, changes.\<close>

lemma outstanding_at [simp]:
  "outstanding (s\<lparr>at := p\<rparr>) = outstanding s" "outstanding (s\<lparr>lossy := b\<rparr>) = outstanding s"
  "requests_ok infile (s\<lparr>at := p\<rparr>) = requests_ok infile s" "accounts infile (s\<lparr>at := p\<rparr>) M = accounts infile s M"
  by (simp_all add: outstanding_def requests_ok_def accounts_def)

lemma copy_inv_at:
  "copy_inv infile s \<Longrightarrow> lossy s \<Longrightarrow> copy_inv infile (s\<lparr>at := Returned n\<rparr>)"
  "copy_inv infile s \<Longrightarrow> \<not> lossy s \<Longrightarrow> p \<noteq> Aborted \<Longrightarrow> p \<noteq> Drain \<Longrightarrow> p \<noteq> Returned 0 \<Longrightarrow> copy_inv infile (s\<lparr>at := p\<rparr>)"
  by (auto simp: copy_inv_def finished_def)

lemma copy_inv_failed: "copy_inv infile s \<Longrightarrow> copy_inv infile (s\<lparr>at := Returned 1\<rparr>)"
  by (cases "lossy s") (auto intro: copy_inv_at)

lemma not_lossy: "copy_inv infile s \<Longrightarrow> at s \<noteq> Drain \<Longrightarrow> (\<And>n. at s \<noteq> Returned n) \<Longrightarrow> \<not> lossy s"
  by (auto simp: copy_inv_def)

lemma submit_simps [simp]:
  "outstanding (submit ok s) = outstanding s" "requests_ok infile (submit ok s) = requests_ok infile s"
  "accounts infile (submit ok s) M = accounts infile s M" "at (submit ok s) = at s" "reads (submit ok s) = reads s"
  "writes (submit ok s) = writes s" "insize (submit ok s) = insize s" "write_left (submit ok s) = write_left s" "lossy (submit ok s) = lossy s"
  "cq (submit ok s) = cq s" "next_offset (submit ok s) = next_offset s" "outfile (submit ok s) = outfile s"
  by (auto simp: submit_def outstanding_def requests_ok_def accounts_def)

text \<open>Taking a completion from the queue.\<close>

lemma size_outstanding_sq: "length (sq s) + length (flying s) + length (cq s) = size (outstanding s)"
  by (simp add: outstanding_def)

lemma outstanding_pop:
  "cq s = (d, res) # cs \<Longrightarrow> outstanding s = add_mset d (outstanding (s\<lparr>cq := cs\<rparr>))"
  by (simp add: outstanding_def)

lemma covered_add [simp]: "covered (add_mset d M) i \<longleftrightarrow> first_offset d \<le> i \<and> i < first_offset d + first_len d \<or> covered M i"
  by (auto simp: covered_def)

text \<open>A request may be replaced by one for the same bytes and with the same direction.\<close>

lemma accounts_replace:
  "reading d' = reading d \<Longrightarrow> first_offset d' = first_offset d \<Longrightarrow> first_len d' = first_len d \<Longrightarrow>
   accounts infile s (add_mset d' M) = accounts infile s (add_mset d M)"
  by (auto simp: accounts_def)

lemma accounts_cong:
  "reads t = reads s \<Longrightarrow> insize t = insize s \<Longrightarrow> write_left t = write_left s \<Longrightarrow> next_offset t = next_offset s \<Longrightarrow> outfile t = outfile s \<Longrightarrow>
   accounts infile t M = accounts infile s M"
  by (simp add: accounts_def)

subsection \<open>The steps of the program\<close>

lemma fill_inv:
  assumes "copy_inv infile s" "at s = Fill h" "length junk = min (insize s) BS" "fill_one s (Some junk) = Some t"
  shows "copy_inv infile t"
proof -
  let ?n = "min (insize s) BS"
  let ?d = "new_data ?n (next_offset s) junk"
  have i: "0 < insize s" "reads s + writes s < QD" using assms(4) by (auto simp: fill_one_def split: if_splits)
  have t: "t = s\<lparr>sq := sq s @ [?d], insize := insize s - ?n, next_offset := next_offset s + ?n, reads := reads s + 1\<rparr>"
    using assms(4) i by (auto simp: fill_one_def queue_read_def Let_def split: if_splits)
  have l: "\<not> lossy s" using not_lossy [OF assms(1)] assms(2) by simp
  then have inv: "requests_ok infile s" "accounts infile s (outstanding s)" "size (outstanding s) = reads s + writes s"
    using assms(1) by (auto simp: copy_inv_def)
  have n: "0 < ?n" "next_offset s + ?n \<le> length infile" using i(1) inv(2) by (auto simp: accounts_def BS_def)
  then have d: "data_ok infile (outfile s) ?d" using assms(3) by (simp add: data_ok_def new_data_def transferred_def)
  have m: "outstanding t = add_mset ?d (outstanding s)" by (simp add: t outstanding_def)
  have "requests_ok infile t" using inv(1) d by (auto simp: t requests_ok_def)
  moreover have "accounts infile t (add_mset ?d (outstanding s))"
    using inv(2) n by (auto simp: accounts_def t new_data_def intro: leI)
  ultimately show ?thesis using l i inv(3) m assms(2) by (simp add: copy_inv_def finished_def t)
qed

text \<open>The queue for new requests has room: there are at most \<open>QD\<close> requests.\<close>

lemma sq_room: "copy_inv infile s \<Longrightarrow> cq s \<noteq> [] \<Longrightarrow> length (sq s) < QD"
  using size_outstanding_sq [of s] by (cases "cq s") (auto simp: copy_inv_def)

lemma handle_assert: "length (sq s) < QD \<Longrightarrow> handle ok s d res \<noteq> None"
  by (auto simp: handle_def queue_write_def queue_prepped_def)

text \<open>A completion is taken: its request is queued again, perhaps changed, or it is done.\<close>

lemma requeue_inv:
  assumes "cq s = (d, res) # cs" "\<not> lossy s" "at s = Reap True" "requests_ok infile s"
    and "data_ok infile (outfile s) d'" "accounts infile t (add_mset d' N)" "outstanding s = add_mset d N"
    and "size (outstanding s) = reads t + writes t" "reads t + writes t \<le> QD"
    and t: "t = s\<lparr>write_left := write_left t, reads := reads t, writes := writes t\<rparr>"
  shows "copy_inv infile (cqe_seen (submit ok (t\<lparr>sq := sq t @ [d']\<rparr>)))"
proof -
  let ?u = "cqe_seen (submit ok (t\<lparr>sq := sq t @ [d']\<rparr>))"
  have f: "sq t = sq s" "flying t = flying s" "cq t = cq s" "outfile t = outfile s" "at t = at s" "lossy t = lossy s"
    by (subst t, simp)+
  have "outstanding (cqe_seen s) = N" using assms(1,7) outstanding_pop [OF assms(1)] by (simp add: cqe_seen_def)
  then have m: "outstanding ?u = add_mset d' N" using f by (auto simp: outstanding_def cqe_seen_def submit_def)
  have "requests_ok infile ?u" using assms(1,4,5) f by (auto simp: requests_ok_def cqe_seen_def submit_def)
  moreover have "accounts infile ?u (add_mset d' N)" using assms(6) by (auto simp: accounts_def cqe_seen_def)
  ultimately show ?thesis using assms(2,3,7-9) m f by (simp add: copy_inv_def finished_def cqe_seen_def)
qed

lemma advance_ok:
  "completion_ok infile out (d, res) \<Longrightarrow> 0 \<le> res \<Longrightarrow> data_ok infile out (advance d (nat res))"
  by (auto simp: completion_ok_def data_ok_def advance_def transferred_def)

lemma to_write_ok:
  "completion_ok infile out (d, res) \<Longrightarrow> 0 \<le> res \<Longrightarrow> nat res = iov_len d \<Longrightarrow> reading d \<Longrightarrow> data_ok infile out (to_write d)"
  by (auto simp: completion_ok_def data_ok_def to_write_def transferred_def)

lemma written_out:
  "completion_ok infile out (d, res) \<Longrightarrow> 0 \<le> res \<Longrightarrow> nat res = iov_len d \<Longrightarrow> \<not> reading d \<Longrightarrow>
   first_offset d \<le> i \<Longrightarrow> i < first_offset d + first_len d \<Longrightarrow> out i = Some (infile ! i)"
  using le_add_diff_inverse [of "first_offset d" i]
  by (auto simp: completion_ok_def data_ok_def transferred_def dest!: spec [where x = "i - first_offset d"])

lemma accounts_to_write:
  "accounts infile s (add_mset d N) \<Longrightarrow> reading d \<Longrightarrow>
   accounts infile (s\<lparr>write_left := write_left s - first_len d, reads := reads s - 1, writes := writes s + 1\<rparr>) (add_mset (to_write d) N)"
  by (auto simp: accounts_def to_write_def)

text \<open>A request that is done leaves: its bytes are in the new file.\<close>

lemma accounts_done:
  assumes "accounts infile s (add_mset d N)" "completion_ok infile (outfile s) (d, res)" "0 \<le> res" "nat res = iov_len d" "\<not> reading d"
  shows "accounts infile s N"
  using assms(1) written_out [OF assms(2-5)] assms(5) by (auto simp: accounts_def)

lemma handle_inv:
  assumes "copy_inv infile s" "at s = Reap True" "cq s = (d, res) # cs" "handle ok s d res = Some t"
  shows "copy_inv infile t"
proof -
  obtain N where N: "outstanding s = add_mset d N" using outstanding_pop [OF assms(3)] by blast
  have l: "\<not> lossy s" using not_lossy [OF assms(1)] assms(2) by simp
  have r: "requests_ok infile s" "accounts infile s (add_mset d N)" "size (outstanding s) = reads s + writes s" "reads s + writes s \<le> QD"
    using assms(1) l N by (auto simp: copy_inv_def)
  have c: "completion_ok infile (outfile s) (d, res)" using r(1) assms(3) by (simp add: requests_ok_def)
  then have d: "data_ok infile (outfile s) d" by (simp add: completion_ok_def)
  note requeue = requeue_inv [OF assms(3) l assms(2) r(1) _ _ N]
  consider (again) "res = - EAGAIN" | (failed) "res < 0" "res \<noteq> - EAGAIN" | (partly) "0 \<le> res" "nat res \<noteq> iov_len d"
    | (was_read) "0 \<le> res" "nat res = iov_len d" "reading d" | (written) "0 \<le> res" "nat res = iov_len d" "\<not> reading d"
    by (cases "res < 0") (auto simp: EAGAIN_def)
  then show ?thesis
  proof cases
    case again
    then show ?thesis using assms(4) requeue [OF d r(2-4), of ok] by (auto simp: handle_def queue_prepped_def EAGAIN_def split: if_splits)
  next
    case failed
    then show ?thesis using assms(1,4) copy_inv_failed by (auto simp: handle_def)
  next
    case partly
    have "accounts infile s (add_mset (advance d (nat res)) N)" using r(2) by (subst accounts_replace) (auto simp: advance_def)
    then show ?thesis using assms(4) partly requeue [OF advance_ok [OF c partly(1)] _ r(3,4), of ok]
      by (auto simp: handle_def queue_prepped_def split: if_splits)
  next
    case was_read
    let ?t = "s\<lparr>write_left := write_left s - first_len d, reads := reads s - 1, writes := writes s + 1\<rparr>"
    have "1 \<le> reads s" using r(2) was_read(3) by (simp add: accounts_def)
    then have "copy_inv infile (cqe_seen (submit ok (?t\<lparr>sq := sq ?t @ [to_write d]\<rparr>)))"
      using requeue [OF to_write_ok [OF c was_read] accounts_to_write [OF r(2) was_read(3)]] r(3,4) by simp
    moreover have "t = cqe_seen (submit ok (?t\<lparr>sq := sq ?t @ [to_write d]\<rparr>))" using assms(4) was_read
      by (cases s) (auto simp: handle_def queue_write_def queue_prepped_def submit_def split: if_splits)
    ultimately show ?thesis by simp
  next
    case written
    have t: "t = cqe_seen (s\<lparr>writes := writes s - 1\<rparr>)" using assms(4) written by (simp add: handle_def)
    have m: "outstanding t = N" using N outstanding_pop [OF assms(3)] assms(3) by (simp add: t cqe_seen_def outstanding_def)
    have "size (filter_mset reading N) \<le> size N" "Suc (size N) = size (filter_mset reading N) + writes s"
      using r(2,3) N written(3) by (simp_all add: accounts_def)
    then have "1 \<le> writes s" by linarith
    moreover have "accounts infile t N" using accounts_done [OF r(2) c written] by (simp add: accounts_def t cqe_seen_def)
    moreover have "requests_ok infile t" using r(1) assms(3) by (simp add: requests_ok_def t cqe_seen_def)
    ultimately show ?thesis using l r(3,4) N m assms(2) by (auto simp: copy_inv_def finished_def t cqe_seen_def)
  qed
qed

text \<open>In the last loop there are no reads: nothing is left to be written.\<close>

lemma no_reads:
  assumes "accounts infile s M" "write_left s = 0" "\<And>d. d \<in># M \<Longrightarrow> 0 < first_len d"
  shows "filter_mset reading M = {#}"
proof -
  have "sum_mset (image_mset first_len (filter_mset reading M)) = 0" using assms(1,2) by (simp add: accounts_def)
  then have "\<forall>d \<in># filter_mset reading M. first_len d = 0" by simp
  then have "\<not> reading d" if "d \<in># M" for d using assms(3) [OF that] that by auto
  then show ?thesis by (auto simp: multiset_eq_iff count_eq_zero_iff)
qed

lemma outstanding_len:
  assumes "requests_ok infile s" "d \<in># outstanding s"
  shows "0 < first_len d"
  using assms by (auto simp: requests_ok_def outstanding_def data_ok_def completion_ok_def)

lemma drain_inv:
  assumes "copy_inv infile s" "at s = Drain" "0 < writes s" "cq s = (d, res) # cs" "0 \<le> res"
  shows "copy_inv infile (s\<lparr>cq := cs, writes := writes s - 1, lossy := (lossy s \<or> nat res \<noteq> iov_len d)\<rparr>)"
    (is "copy_inv infile ?t")
proof -
  obtain N where N: "outstanding s = add_mset d N" "outstanding (s\<lparr>cq := cs\<rparr>) = N" using outstanding_pop [OF assms(4)] by simp
  have m: "outstanding ?t = N" using N(2) by (simp add: outstanding_def)
  have sz: "size (outstanding s) = reads s + writes s" "reads s + writes s \<le> QD" using assms(1) by (auto simp: copy_inv_def)
  show ?thesis
  proof (cases "lossy ?t")
    case True
    then show ?thesis using sz N(1) m assms(2,3) by (simp add: copy_inv_def) linarith
  next
    case False
    then have f: "\<not> lossy s" "nat res = iov_len d" by auto
    have r: "requests_ok infile s" "accounts infile s (add_mset d N)" "insize s = 0" "write_left s = 0"
      using assms(1,2) f(1) N(1) by (auto simp: copy_inv_def finished_def)
    have "\<not> reading d" using no_reads [OF r(2,4)] outstanding_len [OF r(1)] N(1) by (auto split: if_splits)
    moreover have "completion_ok infile (outfile s) (d, res)" using r(1) assms(4) by (simp add: requests_ok_def)
    ultimately have "accounts infile s N" using accounts_done [OF r(2) _ assms(5) f(2)] by blast
    then have "accounts infile ?t N" by (simp add: accounts_def)
    moreover have "requests_ok infile ?t" using r(1) assms(4) by (simp add: requests_ok_def)
    ultimately show ?thesis using sz N(1) m r assms(2,3) f by (simp add: copy_inv_def finished_def) linarith
  qed
qed

subsection \<open>The steps of the kernel\<close>

text \<open>More of the new file is right.\<close>

lemma data_ok_mono:
  assumes "data_ok infile out d" "\<And>i. out i = Some (infile ! i) \<Longrightarrow> out' i = Some (infile ! i)"
  shows "data_ok infile out' d"
  using assms by (auto simp: data_ok_def transferred_def)

lemma completion_ok_mono:
  assumes "completion_ok infile out c" "\<And>i. out i = Some (infile ! i) \<Longrightarrow> out' i = Some (infile ! i)"
  shows "completion_ok infile out' c"
  using assms data_ok_mono [of infile out "fst c" out'] by (auto simp: completion_ok_def transferred_def)

lemma kernel_write_right:
  assumes "data_ok infile out d" "\<not> reading d" "n \<le> iov_len d"
  shows "out i = Some (infile ! i) \<Longrightarrow> kernel_write d n out i = Some (infile ! i)"
    "completion_ok infile (kernel_write d n out) (d, int n)"
proof -
  have w: "kernel_write d n out i = Some (infile ! i)" if "offset d \<le> i" "i < offset d + n" for i
  proof -
    have "iov_base d + (i - offset d) < first_len d" "first_offset d + (iov_base d + (i - offset d)) = i"
      using assms that by (auto simp: data_ok_def)
    then show ?thesis using assms(1,2) that by (auto simp: kernel_write_def data_ok_def transferred_def)
  qed
  then show m: "out i = Some (infile ! i) \<Longrightarrow> kernel_write d n out i = Some (infile ! i)" for i
    by (cases "offset d \<le> i \<and> i < offset d + n") (auto simp: kernel_write_def)
  have "transferred infile (kernel_write d n out) d (iov_base d + n)"
  proof -
    have "kernel_write d n out (first_offset d + j) = Some (infile ! (first_offset d + j))" if "j < iov_base d + n" for j
      using w [of "first_offset d + j"] m [of "first_offset d + j"] assms(1,2) that
      by (cases "j < iov_base d") (auto simp: data_ok_def transferred_def)
    then show ?thesis using assms(1,2) by (auto simp: data_ok_def transferred_def)
  qed
  then show "completion_ok infile (kernel_write d n out) (d, int n)"
    using data_ok_mono [OF assms(1) m] assms(3) by (simp add: completion_ok_def)
qed

lemma kernel_read_right:
  assumes "data_ok infile out d" "reading d" "n \<le> iov_len d" "n \<le> length infile - offset d"
  shows "completion_ok infile out (kernel_read infile d n, int n)"
proof -
  let ?b = "overwrite (buffer d) (iov_base d) (take n (drop (offset d) infile))"
  have l: "iov_base d + n \<le> length (buffer d)" "length (take n (drop (offset d) infile)) = n"
    using assms by (auto simp: data_ok_def)
  have "?b ! j = infile ! (first_offset d + j)" if "j < iov_base d + n" for j
    using that assms l by (auto simp: overwrite_def nth_append data_ok_def transferred_def)
  then show ?thesis using assms l by (auto simp: completion_ok_def data_ok_def kernel_read_def transferred_def)
qed

text \<open>A request that the kernel has completed moves to the completion queue.\<close>

lemma kernel_inv:
  assumes "copy_inv infile s" "flying s = xs @ d # ys" "first_offset d' = first_offset d" "first_len d' = first_len d" "reading d' = reading d"
    and "data_ok infile (outfile s) d \<Longrightarrow> completion_ok infile out (d', res)"
    and "\<And>i. data_ok infile (outfile s) d \<Longrightarrow> outfile s i = Some (infile ! i) \<Longrightarrow> out i = Some (infile ! i)"
  shows "copy_inv infile (s\<lparr>flying := xs @ ys, cq := cq s @ [(d', res)], outfile := out\<rparr>)"
    (is "copy_inv infile ?t")
proof -
  let ?N = "mset (sq s) + mset (xs @ ys) + mset (map fst (cq s))"
  have m: "outstanding s = add_mset d ?N" "outstanding ?t = add_mset d' ?N" using assms(2) by (simp_all add: outstanding_def)
  then have sz: "size (outstanding ?t) = size (outstanding s)" by simp
  show ?thesis
  proof (cases "lossy s")
    case True
    then show ?thesis using assms(1) sz by (simp add: copy_inv_def)
  next
    case False
    have r: "requests_ok infile s" "accounts infile s (add_mset d ?N)" "finished s" using assms(1) False m(1) by (simp_all add: copy_inv_def)
    have d: "data_ok infile (outfile s) d" using r(1) assms(2) by (simp add: requests_ok_def)
    note mono = assms(7) [OF d]
    have "data_ok infile out x" if "data_ok infile (outfile s) x" for x using data_ok_mono [OF that mono] .
    moreover have "completion_ok infile out c" if "completion_ok infile (outfile s) c" for c using completion_ok_mono [OF that mono] .
    ultimately have "requests_ok infile ?t"
      using r(1) assms(2) assms(6) [OF d] by (auto simp: requests_ok_def)
    moreover have "accounts infile s (add_mset d' ?N)" using r(2) accounts_replace [OF assms(5,3,4)] by blast
    then have "accounts infile ?t (add_mset d' ?N)" using mono by (auto simp: accounts_def)
    ultimately show ?thesis using assms(1) sz m(2) r(3) False by (simp add: copy_inv_def finished_def)
  qed
qed

subsection \<open>All steps\<close>

lemma copy_step_inv: "copy_step infile s t \<Longrightarrow> copy_inv infile s \<Longrightarrow> copy_inv infile t"
proof (induction rule: copy_step.induct)
  case (top_exit s)
  then have "\<not> lossy s" using not_lossy by fastforce
  then show ?case using top_exit by (simp add: copy_inv_def finished_def)
next
  case (fill_go s h junk t)
  then show ?case using fill_inv by blast
next
  case (submit_ok s)
  then have "\<not> lossy s" using not_lossy by fastforce
  then show ?case using submit_ok by (simp add: copy_inv_def finished_def)
next
  case (submit_fail s)
  then show ?case by (simp add: copy_inv_def)
next
  case (reap_one s g d res cs ok t)
  then have "copy_inv infile (s\<lparr>at := Reap True\<rparr>)" using not_lossy [of infile s] by (intro copy_inv_at) auto
  then show ?case using handle_inv [of infile "s\<lparr>at := Reap True\<rparr>" d res cs ok t] reap_one.hyps by simp
next
  case (reap_assert s g d res cs ok)
  then have "length (sq (s\<lparr>at := Reap True\<rparr>)) < QD" using sq_room [of infile s] by simp
  then show ?case using handle_assert reap_assert.hyps by blast
next
  case (drain_done s)
  then show ?case by (cases "lossy s") (auto simp: copy_inv_def finished_def)
next
  case (drain_one s d res cs)
  then show ?case using drain_inv by blast
next
  case (kernel_reads s xs d ys n)
  then show ?case using kernel_inv [of infile s xs d ys "kernel_read infile d n" "outfile s" "int n"] kernel_read_right [of infile "outfile s" d n]
    by (simp add: kernel_read_def)
next
  case (kernel_writes s xs d ys n)
  then show ?case using kernel_inv [of infile s xs d ys d "kernel_write d n (outfile s)" "int n"] kernel_write_right [of infile "outfile s" d n]
    by simp
next
  case (kernel_fails s xs d ys res)
  then show ?case using kernel_inv [of infile s xs d ys d "outfile s" res] by (simp add: completion_ok_def)
qed (use not_lossy copy_inv_at copy_inv_failed in \<open>fastforce+\<close>)

lemma copy_init_inv: "copy_init infile s \<Longrightarrow> copy_inv infile s"
  by (simp add: copy_init_def copy_inv_def requests_ok_def accounts_def finished_def outstanding_def QD_def)

interpretation copying: invariant_system "copy_init infile" "copy_step infile" "copy_inv infile" for infile
  by unfold_locales (auto intro: copy_init_inv copy_step_inv)

subsection \<open>Example runs\<close>

definition run_state :: "nat \<Rightarrow> nat \<Rightarrow> nat \<Rightarrow> nat \<Rightarrow> nat \<Rightarrow> io_data list \<Rightarrow> io_data list \<Rightarrow> (io_data \<times> int) list \<Rightarrow> (nat \<Rightarrow> byte option) \<Rightarrow> copy_pc \<Rightarrow> bool \<Rightarrow> copier" where
  "run_state i w n r ws q f c out p l = \<lparr>insize = i, write_left = w, next_offset = n, reads = r, writes = ws,
     sq = q, flying = f, cq = c, outfile = out, at = p, lossy = l\<rparr>"

text \<open>The run up to the moment when the only block of a file of one byte has been read and its write is in the
  kernel.\<close>

definition byte_write :: io_data where
  "byte_write = \<lparr>reading = False, first_offset = 0, offset = 0, first_len = 1, iov_base = 0, iov_len = 1, buffer = [65]\<rparr>"

lemma copy_of_byte:
  "reachable (copy_init [65]) (copy_step [65]) (run_state 0 0 1 0 1 [] [byte_write] [] (\<lambda>i. None) Drain False)"
proof -
  let ?R = "reachable (copy_init [65]) (copy_step [65])" and ?e = "\<lambda>i. None" and ?d = "new_data 1 0 [0]"
  have s0: "?R (run_state 1 1 0 0 0 [] [] [] ?e Top False)" by (rule reach_init) (simp add: copy_init_def run_state_def)
  have s1: "?R (run_state 1 1 0 0 0 [] [] [] ?e (Fill 0) False)"
    using reach_step [OF s0 top_enter] by (simp add: run_state_def)
  have s2: "?R (run_state 0 1 1 1 0 [?d] [] [] ?e (Fill 0) False)"
    by (rule reach_step [OF s1], rule fill_go [of _ 0 "[0]"])
      (simp_all add: run_state_def fill_one_def queue_read_def QD_def BS_def)
  have s3: "?R (run_state 0 1 1 1 0 [?d] [] [] ?e Submit False)"
    using reach_step [OF s2 fill_stop [of _ 0 None]] by (simp add: run_state_def fill_one_def)
  have s4: "?R (run_state 0 1 1 1 0 [] [?d] [] ?e (Reap False) False)"
    using reach_step [OF s3 submit_ok] by (simp add: run_state_def submit_def)
  have s5: "?R (run_state 0 1 1 1 0 [] [] [(?d\<lparr>buffer := [65]\<rparr>, 1)] ?e (Reap False) False)"
    using reach_step [OF s4 kernel_reads [of _ "[]" ?d "[]" 1]] by (simp add: run_state_def new_data_def kernel_read_def overwrite_def)
  have s6: "?R (run_state 0 0 1 0 1 [] [byte_write] [] ?e (Reap True) False)"
    by (rule reach_step [OF s5], rule reap_one [of _ False "?d\<lparr>buffer := [65]\<rparr>" 1 "[]" True])
      (simp_all add: run_state_def handle_def new_data_def byte_write_def queue_write_def queue_prepped_def submit_def cqe_seen_def to_write_def QD_def)
  have s7: "?R (run_state 0 0 1 0 1 [] [byte_write] [] ?e Top False)"
    using reach_step [OF s6 reap_done] by (simp add: run_state_def)
  then show ?thesis using reach_step [OF s7 top_exit] by (simp add: run_state_def)
qed

lemma byte_written:
  assumes "n \<le> 1"
  shows "reachable (copy_init [65]) (copy_step [65]) (run_state 0 0 1 0 0 [] [] [] (kernel_write byte_write n (\<lambda>i. None)) (Returned 0) (n \<noteq> 1))"
proof -
  let ?R = "reachable (copy_init [65]) (copy_step [65])" and ?out = "kernel_write byte_write n (\<lambda>i. None)"
  have s1: "?R (run_state 0 0 1 0 1 [] [] [(byte_write, int n)] ?out Drain False)"
    using reach_step [OF copy_of_byte kernel_writes [of _ "[]" byte_write "[]" n]] assms by (simp add: run_state_def byte_write_def)
  have s2: "?R (run_state 0 0 1 0 0 [] [] [] ?out Drain (n \<noteq> 1))"
    using reach_step [OF s1 drain_one [of _ byte_write "int n" "[]"]] by (simp add: run_state_def byte_write_def)
  show ?thesis using reach_step [OF s2 drain_done] by (simp add: run_state_def)
qed

subsection \<open>Properties\<close>

text \<open>C14. Copying: when \<open>copy_file\<close> returns 0, having neither accepted an incomplete write in its last loop nor failed
  to submit, the new file holds every byte of the old one, however the kernel orders, splits and retries
  the requests.\<close>

theorem copy_complete:
  assumes "reachable (copy_init infile) (copy_step infile) s" "at s = Returned 0" "\<not> lossy s"
  shows "\<forall>i < length infile. outfile s i = Some (infile ! i)"
proof -
  have i: "requests_ok infile s" "accounts infile s (outstanding s)" "insize s = 0" "write_left s = 0" "writes s = 0" "size (outstanding s) = reads s + writes s"
    using copying.reachable_inv [OF assms(1)] assms(2,3) by (auto simp: copy_inv_def finished_def)
  have f: "filter_mset reading (outstanding s) = {#}" using no_reads [OF i(2,4) outstanding_len [OF i(1)]] .
  have "reads s = 0" using i(2) unfolding accounts_def f by simp
  then have "outstanding s = {#}" using i(5,6) by simp
  then show ?thesis using i(2,3) by (simp add: accounts_def covered_def)
qed

theorem copy_complete_witness:
  "\<exists>s. reachable (copy_init [65]) (copy_step [65]) s \<and> at s = Returned 0 \<and> \<not> lossy s \<and> outfile s 0 = Some 65"
proof -
  let ?s = "run_state 0 0 1 0 0 [] [] [] (kernel_write byte_write 1 (\<lambda>i. None)) (Returned 0) False"
  have r: "reachable (copy_init [65]) (copy_step [65]) ?s" using byte_written [of 1] by simp
  moreover have a: "at ?s = Returned 0" "\<not> lossy ?s" by (simp_all add: run_state_def)
  ultimately show ?thesis using copy_complete [OF r a] by (intro exI [of _ ?s]) simp
qed

text \<open>Copying: there are never more than 64 requests, so that the assertions in \<open>queue_prepped\<close> never fail.\<close>

theorem copy_bounded:
  assumes "reachable (copy_init infile) (copy_step infile) s"
  shows "length (sq s) + length (flying s) + length (cq s) = reads s + writes s \<and> reads s + writes s \<le> 64 \<and> at s \<noteq> Aborted"
  using copying.reachable_inv [OF assms] size_outstanding_sq [of s] by (simp add: copy_inv_def QD_def)

theorem copy_bounded_witness:
  "\<exists>s. reachable (copy_init [65]) (copy_step [65]) s \<and> length (flying s) = 1 \<and> reads s + writes s = 1 \<and> at s \<noteq> Aborted"
  using copy_bounded [OF copy_of_byte] copy_of_byte by (intro exI [of _ "run_state 0 0 1 0 1 [] [byte_write] [] (\<lambda>i. None) Drain False"]) (simp add: run_state_def)

text \<open>Copying: a write that the kernel performs only in part while the last loop runs is taken for a whole one:
  \<open>copy_file\<close> returns 0 and the byte is missing.\<close>

theorem copy_loses_short_write:
  "\<exists>s. reachable (copy_init [65]) (copy_step [65]) s \<and> at s = Returned 0 \<and> outfile s 0 = None"
  using byte_written [of 0] by (intro exI [of _ "run_state 0 0 1 0 0 [] [] [] (kernel_write byte_write 0 (\<lambda>i. None)) (Returned 0) True"])
    (simp add: run_state_def kernel_write_def byte_write_def)

text \<open>Copying: for every file of more than one and at most two blocks, the program can stop with an error although
  no request has failed: it has handled the first block and finds no further completion, and the test
  after \<open>io_uring_peek_cqe\<close> takes the \<open>-EAGAIN\<close> that says so for a failure.\<close>

theorem copy_gives_up:
  assumes "BS < length infile" "length infile \<le> 2 * BS"
  shows "\<exists>s. reachable (copy_init infile) (copy_step infile) s \<and> at s = Returned 1 \<and> cq s = [] \<and>
    length (flying s) = 2 \<and> write_left s = length infile - BS"
proof -
  let ?R = "reachable (copy_init infile) (copy_step infile)" and ?e = "\<lambda>i. None" and ?n = "length infile"
  let ?j1 = "replicate BS 0" and ?j2 = "replicate (?n - BS) 0"
  let ?d1 = "new_data BS 0 ?j1" and ?d2 = "new_data (?n - BS) BS ?j2"
  let ?k1 = "kernel_read infile ?d1 BS"
  have m: "min ?n BS = BS" "min (?n - BS) BS = ?n - BS" "0 < ?n" "0 < ?n - BS" using assms by auto
  have s0: "?R (run_state ?n ?n 0 0 0 [] [] [] ?e Top False)" by (rule reach_init) (simp add: copy_init_def run_state_def)
  have s1: "?R (run_state ?n ?n 0 0 0 [] [] [] ?e (Fill 0) False)"
    using reach_step [OF s0 top_enter] m by (simp add: run_state_def)
  have s2: "?R (run_state (?n - BS) ?n BS 1 0 [?d1] [] [] ?e (Fill 0) False)"
    by (rule reach_step [OF s1], rule fill_go [of _ 0 ?j1]) (use m in \<open>simp_all add: run_state_def fill_one_def queue_read_def QD_def\<close>)
  have s3: "?R (run_state 0 ?n ?n 2 0 [?d1, ?d2] [] [] ?e (Fill 0) False)"
    by (rule reach_step [OF s2], rule fill_go [of _ 0 ?j2]) (use m in \<open>simp_all add: run_state_def fill_one_def queue_read_def QD_def Let_def numeral_2_eq_2\<close>)
  have s4: "?R (run_state 0 ?n ?n 2 0 [?d1, ?d2] [] [] ?e Submit False)"
    using reach_step [OF s3 fill_stop [of _ 0 None]] by (simp add: run_state_def fill_one_def)
  have s5: "?R (run_state 0 ?n ?n 2 0 [] [?d1, ?d2] [] ?e (Reap False) False)"
    using reach_step [OF s4 submit_ok] by (simp add: run_state_def submit_def)
  have s6: "?R (run_state 0 ?n ?n 2 0 [] [?d2] [(?k1, int BS)] ?e (Reap False) False)"
    using reach_step [OF s5 kernel_reads [of _ "[]" ?d1 "[?d2]" BS]] assms by (simp add: run_state_def new_data_def)
  have s7: "?R (run_state 0 (?n - BS) ?n 1 1 [] [?d2, to_write ?k1] [] ?e (Reap True) False)"
    by (rule reach_step [OF s6], rule reap_one [of _ False ?k1 "int BS" "[]" True])
      (use m in \<open>simp_all add: run_state_def handle_def queue_write_def queue_prepped_def submit_def cqe_seen_def QD_def\<close>,
       simp_all add: kernel_read_def new_data_def)
  show ?thesis using reach_step [OF s7 peek_empty] m
    by (intro exI [of _ "run_state 0 (?n - BS) ?n 1 1 [] [?d2, to_write ?k1] [] ?e (Returned 1) False"]) (simp add: run_state_def)
qed

theorem copy_gives_up_witness:
  "\<exists>s. reachable (copy_init (replicate (BS + 1) 65)) (copy_step (replicate (BS + 1) 65)) s \<and> at s = Returned 1 \<and> write_left s = 1"
  using copy_gives_up [of "replicate (BS + 1) 65"] by (auto simp: BS_def)

end
