(* ===== verification/Uring_Cat.thy ===== *)
theory Uring_Cat
  imports Prelude
begin

unbundle bit_operations_syntax

text \<open>
  Printing files with a raw io_uring (\<open>liburing-learnning/use-io_uring-cat.c\<close>): the two rings with their
  32-bit indices, which wrap around and are masked on every access, the blocks a file is read into, and
  the loop over the files.  The kernel's \<open>io_uring_enter\<close> and the files are parameters; \<open>None\<close> is an access
  outside an array.
\<close>

definition BLOCK_SZ :: nat where "BLOCK_SZ = 1024"

record iovec =
  base :: "byte list"
  len :: nat

record file_info =
  file_sz :: nat
  iovecs :: "iovec list"

record sqe =
  sqe_fd :: nat
  sqe_len :: int
  sqe_data :: nat

record cqe =
  user_data :: nat
  res :: int

text \<open>The submitter with the rings it shares with the kernel, the \<open>file_info\<close> objects on the heap, and what has
  been printed.\<close>

record submitter =
  sq_tail :: "32 word"
  sq_mask :: "32 word"
  sq_array :: "32 word list"
  sqes :: "sqe list"
  cq_head :: "32 word"
  cq_tail :: "32 word"
  cq_mask :: "32 word"
  cqes :: "cqe list"
  heap :: "nat \<Rightarrow> file_info option"
  console :: "byte list"

datatype file_type = Regular_file nat | Block_device "nat option" | Other_file

text \<open>What the program finds: opening a path, the type of a file, the address of a new object, and the memory
  for block number \<open>i\<close> of a file.\<close>

record surroundings =
  open_file :: "byte list \<Rightarrow> nat option"
  fstat :: "nat \<Rightarrow> file_type option"
  malloc :: "(nat \<Rightarrow> file_info option) \<Rightarrow> nat option"
  memalign :: "nat \<Rightarrow> byte list option"

definition get_file_size :: "file_type option \<Rightarrow> nat option" where
  "get_file_size st = (case st of
     None \<Rightarrow> None
   | Some (Block_device dev) \<Rightarrow> dev
   | Some (Regular_file n) \<Rightarrow> Some n
   | Some Other_file \<Rightarrow> None)"

text \<open>\<open>(int)file_sz / BLOCK_SZ\<close>, plus one for an incomplete block: the size is cut to 32 bits and the division rounds
  towards zero.\<close>

definition blocks_of :: "nat \<Rightarrow> int" where
  "blocks_of sz =
     (let i = sint (of_nat sz :: 32 word)
      in (if 0 \<le> i then i div int BLOCK_SZ else - ((- i) div int BLOCK_SZ)) + (if sz mod BLOCK_SZ \<noteq> 0 then 1 else 0))"

text \<open>The loop that prepares the blocks, in an array of \<open>room\<close> entries of which \<open>current\<close> are filled; the result tells
  whether all memory was allocated.\<close>

function iov_loop :: "(nat \<Rightarrow> byte list option) \<Rightarrow> nat \<Rightarrow> nat \<Rightarrow> nat \<Rightarrow> (bool \<times> iovec list) option" where
  "iov_loop mem room current remaining =
     (if remaining = 0 then Some (True, [])
      else if room \<le> current then None
      else case mem current of
        None \<Rightarrow> Some (False, [])
      | Some buf \<Rightarrow>
          (let n = min remaining BLOCK_SZ
           in case iov_loop mem room (current + 1) (remaining - n) of
                None \<Rightarrow> None
              | Some (done, vs) \<Rightarrow> Some (done, \<lparr>base = buf, len = n\<rparr> # vs)))"
  by pat_completeness auto
termination
  by (relation "measure (\<lambda>(mem, room, current, remaining). remaining)") (auto simp: BLOCK_SZ_def)

declare iov_loop.simps [simp del]

text \<open>The entry of the submission ring.\<close>

definition push_sqe :: "submitter \<Rightarrow> sqe \<Rightarrow> submitter option" where
  "push_sqe s q =
     (let index = sq_tail s AND sq_mask s
      in if unat index < length (sqes s) \<and> unat index < length (sq_array s)
         then Some (s\<lparr>sqes := (sqes s)[unat index := q], sq_array := (sq_array s)[unat index := index], sq_tail := sq_tail s + 1\<rparr>)
         else None)"

text \<open>An array of a negative number of blocks is a request for almost all memory, which \<open>malloc\<close> refuses.  The result
  tells whether the function returned 0.\<close>

definition submit_to_sq :: "surroundings \<Rightarrow> (submitter \<Rightarrow> int \<times> submitter) \<Rightarrow> byte list \<Rightarrow> submitter \<Rightarrow> (bool \<times> submitter) option" where
  "submit_to_sq w enter path s = (case open_file w path of
     None \<Rightarrow> Some (False, s)
   | Some fd \<Rightarrow> (case get_file_size (fstat w fd) of
       None \<Rightarrow> Some (False, s)
     | Some sz \<Rightarrow>
         (let blocks = blocks_of sz
          in case (if blocks < 0 then None else malloc w (heap s)) of
            None \<Rightarrow> Some (False, s)
          | Some fi \<Rightarrow> (case iov_loop (memalign w) (nat blocks) 0 sz of
              None \<Rightarrow> None
            | Some (False, vs) \<Rightarrow> Some (False, s)
            | Some (True, vs) \<Rightarrow>
                (case push_sqe (s\<lparr>heap := (heap s)(fi \<mapsto> \<lparr>file_sz = sz, iovecs = vs\<rparr>)\<rparr>) \<lparr>sqe_fd = fd, sqe_len = blocks, sqe_data = fi\<rparr> of
                   None \<Rightarrow> None
                 | Some s \<Rightarrow> (case enter s of (ret, s) \<Rightarrow> Some (0 \<le> ret, s)))))))"

definition output_to_console :: "submitter \<Rightarrow> iovec \<Rightarrow> submitter option" where
  "output_to_console s v = (if len v \<le> length (base v) then Some (s\<lparr>console := console s @ take (len v) (base v)\<rparr>) else None)"

fun print_blocks :: "submitter \<Rightarrow> iovec list \<Rightarrow> nat \<Rightarrow> submitter option" where
  "print_blocks s vs 0 = Some s"
| "print_blocks s [] (Suc n) = None"
| "print_blocks s (v # vs) (Suc n) = (case output_to_console s v of None \<Rightarrow> None | Some s \<Rightarrow> print_blocks s vs n)"

definition print_cqe :: "submitter \<Rightarrow> 32 word \<Rightarrow> submitter option" where
  "print_cqe s head =
     (let index = unat (head AND cq_mask s)
      in if index < length (cqes s)
         then (case heap s (user_data (cqes s ! index)) of
                 None \<Rightarrow> None
               | Some fi \<Rightarrow> print_blocks s (iovecs fi) (nat (blocks_of (file_sz fi))))
         else None)"

text \<open>The loop over the completion ring.  The tail stays where it is while the program looks.\<close>

lemma ring_distance: "head \<noteq> tail \<Longrightarrow> unat (tail - (head + 1)) < unat (tail - (head :: 32 word))"
proof -
  assume "head \<noteq> tail"
  then have "tail - head \<noteq> 0" by simp
  then have "unat (tail - head - 1) < unat (tail - head)" by (metis measure_unat)
  then show ?thesis by (simp add: algebra_simps)
qed

function cq_loop :: "32 word \<Rightarrow> 32 word \<Rightarrow> submitter \<Rightarrow> submitter option" where
  "cq_loop head tail s =
     (if head = tail then Some (s\<lparr>cq_head := head\<rparr>)
      else case print_cqe s head of None \<Rightarrow> None | Some s \<Rightarrow> cq_loop (head + 1) tail s)"
  by pat_completeness auto
termination
  by (relation "measure (\<lambda>(head, tail, s). unat (tail - head))") (auto intro: ring_distance)

declare cq_loop.simps [simp del]

definition read_from_cq :: "submitter \<Rightarrow> submitter option" where
  "read_from_cq s = cq_loop (cq_head s) (cq_tail s) s"

text \<open>\<open>main\<close> after the rings are set up; the result is whether it returned 0.\<close>

fun cat_files :: "surroundings \<Rightarrow> (submitter \<Rightarrow> int \<times> submitter) \<Rightarrow> byte list list \<Rightarrow> submitter \<Rightarrow> (bool \<times> submitter) option" where
  "cat_files w enter [] s = Some (True, s)"
| "cat_files w enter (path # paths) s = (case submit_to_sq w enter path s of
     None \<Rightarrow> None
   | Some (False, s) \<Rightarrow> Some (False, s)
   | Some (True, s) \<Rightarrow> (case read_from_cq s of None \<Rightarrow> None | Some s \<Rightarrow> cat_files w enter paths s))"

subsection \<open>The kernel\<close>

text \<open>What the program relies on: \<open>io_uring_enter\<close> takes the entry that was submitted last, reads the file into its
  blocks in order, and appends a completion with its user data.\<close>

fun scatter :: "byte list \<Rightarrow> iovec list \<Rightarrow> iovec list" where
  "scatter bs [] = []"
| "scatter bs (v # vs) = v\<lparr>base := overwrite (base v) 0 (take (len v) bs)\<rparr> # scatter (drop (len v) bs) vs"

definition newest :: "submitter \<Rightarrow> sqe option" where
  "newest s =
     (let i = unat ((sq_tail s - 1) AND sq_mask s)
      in if i < length (sq_array s) \<and> unat (sq_array s ! i) < length (sqes s) then Some (sqes s ! unat (sq_array s ! i)) else None)"

definition completed :: "submitter \<Rightarrow> sqe \<Rightarrow> file_info \<Rightarrow> byte list \<Rightarrow> submitter" where
  "completed s q fi bs = s\<lparr>heap := (heap s)(sqe_data q \<mapsto> fi\<lparr>iovecs := scatter bs (iovecs fi)\<rparr>),
     cqes := (cqes s)[unat (cq_tail s AND cq_mask s) := \<lparr>user_data = sqe_data q, res = int (min (length bs) (sum_list (map len (iovecs fi))))\<rparr>],
     cq_tail := cq_tail s + 1\<rparr>"

text \<open>One request may name at most \<open>IOV_MAX\<close> blocks; with more it is completed with the error \<open>EINVAL\<close> and nothing is read.\<close>

definition IOV_MAX :: nat where "IOV_MAX = 1024"

definition refused :: "submitter \<Rightarrow> sqe \<Rightarrow> submitter" where
  "refused s q = s\<lparr>cqes := (cqes s)[unat (cq_tail s AND cq_mask s) := \<lparr>user_data = sqe_data q, res = -22\<rparr>], cq_tail := cq_tail s + 1\<rparr>"

definition enter_reads :: "(nat \<Rightarrow> byte list option) \<Rightarrow> (submitter \<Rightarrow> int \<times> submitter) \<Rightarrow> bool" where
  "enter_reads content enter \<longleftrightarrow> (\<forall>s q fi bs. newest s = Some q \<longrightarrow> heap s (sqe_data q) = Some fi \<longrightarrow>
     sqe_len q = int (length (iovecs fi)) \<longrightarrow> content (sqe_fd q) = Some bs \<longrightarrow>
     enter s = (1, if length (iovecs fi) \<le> IOV_MAX then completed s q fi bs else refused s q))"

subsection \<open>Blocks\<close>

definition nblocks :: "nat \<Rightarrow> nat" where
  "nblocks n = n div BLOCK_SZ + (if n mod BLOCK_SZ \<noteq> 0 then 1 else 0)"

lemma nblocks_0 [simp]: "nblocks 0 = 0"
  by (simp add: nblocks_def)

lemma nblocks_Suc: "0 < n \<Longrightarrow> nblocks n = Suc (nblocks (n - min n BLOCK_SZ))"
proof (cases "n < BLOCK_SZ")
  case False
  then have "n div BLOCK_SZ = Suc ((n - BLOCK_SZ) div BLOCK_SZ)" "n mod BLOCK_SZ = (n - BLOCK_SZ) mod BLOCK_SZ"
    by (simp_all add: BLOCK_SZ_def le_div_geq le_mod_geq)
  then show ?thesis using False by (simp add: nblocks_def)
qed (simp add: nblocks_def)

lemma nblocks_add: "nblocks (q * 2 ^ 32 + r) = q * 2 ^ 22 + nblocks r"
proof -
  have "q * 2 ^ 32 + r = r + (q * 2 ^ 22) * BLOCK_SZ" by (simp add: BLOCK_SZ_def)
  moreover have "BLOCK_SZ \<noteq> 0" by (simp add: BLOCK_SZ_def)
  ultimately show ?thesis unfolding nblocks_def by (simp only: div_mult_self1 mod_mult_self1) simp
qed

lemma blocks_of_cut: "sz mod 2 ^ 32 < 2 ^ 31 \<Longrightarrow> blocks_of sz = int (nblocks (sz mod 2 ^ 32))"
proof -
  assume a: "sz mod 2 ^ 32 < 2 ^ 31"
  have "(of_nat sz :: 32 word) = of_nat (sz mod 2 ^ 32)" by (simp add: word_of_nat_eq_iff take_bit_eq_mod)
  then have "sint (of_nat sz :: 32 word) = int (sz mod 2 ^ 32)" using a by (simp add: signed_of_nat signed_take_bit_int_eq_self)
  moreover have "sz mod 2 ^ 32 mod BLOCK_SZ = sz mod BLOCK_SZ" unfolding BLOCK_SZ_def by (rule mod_mod_cancel) simp
  ultimately show ?thesis by (simp add: blocks_of_def nblocks_def zdiv_int)
qed

lemma blocks_of_small: "sz < 2 ^ 31 \<Longrightarrow> blocks_of sz = int (nblocks sz)"
  using blocks_of_cut [of sz] by simp

lemma iov_loop_ok:
  assumes "\<And>i. \<exists>b. mem i = Some b \<and> length b = BLOCK_SZ"
  shows "room = current + nblocks remaining \<Longrightarrow> \<exists>vs. iov_loop mem room current remaining = Some (True, vs) \<and>
    sum_list (map len vs) = remaining \<and> (\<forall>v \<in> set vs. len v \<le> length (base v)) \<and> length vs = nblocks remaining"
proof (induction remaining arbitrary: current rule: less_induct)
  case (less remaining)
  show ?case
  proof (cases "remaining = 0")
    case True
    then show ?thesis by (simp add: iov_loop.simps [of _ _ _ 0])
  next
    case False
    let ?n = "min remaining BLOCK_SZ"
    obtain b where b: "mem current = Some b" "length b = BLOCK_SZ" using assms by blast
    have n: "?n \<le> remaining" "0 < ?n" "nblocks remaining = Suc (nblocks (remaining - ?n))"
      using False nblocks_Suc [of remaining] by (auto simp: BLOCK_SZ_def)
    then have "remaining - ?n < remaining" "room = current + 1 + nblocks (remaining - ?n)" using less.prems by auto
    from less.IH [OF this] obtain vs where vs: "iov_loop mem room (current + 1) (remaining - ?n) = Some (True, vs)"
      "sum_list (map len vs) = remaining - ?n" "\<forall>v \<in> set vs. len v \<le> length (base v)" "length vs = nblocks (remaining - ?n)" by blast
    have "iov_loop mem room current remaining = Some (True, \<lparr>base = b, len = ?n\<rparr> # vs)"
      using False less.prems n(3) b(1) vs(1) by (simp add: iov_loop.simps [of _ _ _ remaining] Let_def)
    then show ?thesis using vs n b(2) by (intro exI [of _ "\<lparr>base = b, len = ?n\<rparr> # vs"]) auto
  qed
qed

text \<open>Too little room: the loop writes past the end of the array.\<close>

lemma iov_loop_overrun:
  assumes "\<And>i. \<exists>b. mem i = Some b"
  shows "room < current + nblocks remaining \<Longrightarrow> current \<le> room \<Longrightarrow> iov_loop mem room current remaining = None"
proof (induction remaining arbitrary: current rule: less_induct)
  case (less remaining)
  then have r: "remaining \<noteq> 0" by (cases "remaining = 0") auto
  let ?n = "min remaining BLOCK_SZ"
  obtain b where b: "mem current = Some b" using assms by blast
  have n: "remaining - ?n < remaining" "nblocks remaining = Suc (nblocks (remaining - ?n))"
    using r nblocks_Suc [of remaining] by (auto simp: BLOCK_SZ_def)
  show ?case
  proof (cases "room \<le> current")
    case True
    then show ?thesis using r by (simp add: iov_loop.simps [of _ _ _ remaining])
  next
    case False
    then have "iov_loop mem room (current + 1) (remaining - ?n) = None" using less n by auto
    then show ?thesis using r b False by (simp add: iov_loop.simps [of _ _ _ remaining] Let_def)
  qed
qed

subsection \<open>One file\<close>

lemma print_scattered:
  "\<forall>v \<in> set vs. len v \<le> length (base v) \<Longrightarrow> length bs = sum_list (map len vs) \<Longrightarrow>
   print_blocks s (scatter bs vs) (length vs) = Some (s\<lparr>console := console s @ bs\<rparr>)"
proof (induction vs arbitrary: bs s)
  case (Cons v vs)
  have "print_blocks (s\<lparr>console := console s @ take (len v) bs\<rparr>) (scatter (drop (len v) bs) vs) (length vs) =
      Some (s\<lparr>console := console s @ take (len v) bs @ drop (len v) bs\<rparr>)"
    using Cons.IH [of "drop (len v) bs" "s\<lparr>console := console s @ take (len v) bs\<rparr>"] Cons.prems by simp
  then show ?case using Cons.prems by (simp add: output_to_console_def overwrite_def)
qed simp

lemma print_raw:
  "\<forall>v \<in> set vs. len v \<le> length (base v) \<Longrightarrow>
   print_blocks s vs (length vs) = Some (s\<lparr>console := console s @ concat (map (\<lambda>v. take (len v) (base v)) vs)\<rparr>)"
  by (induction vs arbitrary: s) (simp_all add: output_to_console_def)

lemma iov_loop_memory:
  "iov_loop mem room current remaining = Some (True, vs) \<Longrightarrow> (\<And>i b. mem i = Some b \<Longrightarrow> set b \<subseteq> X) \<Longrightarrow> \<forall>v \<in> set vs. set (base v) \<subseteq> X"
proof (induction mem room current remaining arbitrary: vs rule: iov_loop.induct)
  case (1 mem room current remaining)
  show ?case
  proof (cases "remaining = 0")
    case True
    then show ?thesis using 1(2) by (simp add: iov_loop.simps [of mem])
  next
    case False
    then obtain b ws where b: "mem current = Some b" "\<not> room \<le> current"
        "iov_loop mem room (current + 1) (remaining - min remaining BLOCK_SZ) = Some (True, ws)" "vs = \<lparr>base = b, len = min remaining BLOCK_SZ\<rparr> # ws"
      using 1(2) by (auto simp: iov_loop.simps [of mem _ _ remaining] Let_def split: if_splits option.splits)
    then show ?thesis using 1(1) [OF False b(2,1) refl b(3)] 1(3) by simp
  qed
qed

text \<open>The rings: their masks keep every index inside the arrays, and all completions have been taken.\<close>

definition rings_ok :: "submitter \<Rightarrow> bool" where
  "rings_ok s \<longleftrightarrow> (\<forall>i. unat (i AND sq_mask s) < length (sqes s) \<and> unat (i AND sq_mask s) < length (sq_array s) \<and>
     unat (i AND cq_mask s) < length (cqes s)) \<and> cq_head s = cq_tail s"

text \<open>A file that can be read: it is regular or a device, its size is that of its content, and memory is available.\<close>

definition readable :: "surroundings \<Rightarrow> (nat \<Rightarrow> byte list option) \<Rightarrow> byte list \<Rightarrow> byte list \<Rightarrow> bool" where
  "readable w content path bs \<longleftrightarrow> (\<exists>fd. open_file w path = Some fd \<and> content fd = Some bs \<and> get_file_size (fstat w fd) = Some (length bs))"

definition memory_ok :: "surroundings \<Rightarrow> bool" where
  "memory_ok w \<longleftrightarrow> (\<forall>h. malloc w h \<noteq> None) \<and> (\<forall>i. \<exists>b. memalign w i = Some b \<and> length b = BLOCK_SZ)"

lemma nblocks_bound: "n \<le> m * BLOCK_SZ \<longleftrightarrow> nblocks n \<le> m"
proof -
  have z: "0 < BLOCK_SZ" by (simp add: BLOCK_SZ_def)
  show ?thesis
  proof (cases "n mod BLOCK_SZ = 0")
    case True
    then obtain k where k: "n = k * BLOCK_SZ" by (metis mod_0_imp_dvd dvd_div_mult_self)
    then show ?thesis using z by (simp add: nblocks_def)
  next
    case False
    then have "n \<le> m * BLOCK_SZ \<longleftrightarrow> n < m * BLOCK_SZ" by (auto simp: le_less)
    then show ?thesis using False z by (simp add: nblocks_def less_mult_imp_div_less Suc_le_eq div_less_iff_less_mult)
  qed
qed

text \<open>What reaches the kernel for a file: one entry with its blocks.\<close>

lemma submit_pushes:
  assumes f: "readable w content path bs" "length bs < 2 ^ 31" and m: "memory_ok w" and r: "rings_ok s"
  obtains p q vs where "submit_to_sq w enter path s = (case enter p of (ret, s) \<Rightarrow> Some (0 \<le> ret, s))" "newest p = Some q"
    "heap p (sqe_data q) = Some \<lparr>file_sz = length bs, iovecs = vs\<rparr>" "sqe_len q = int (length vs)" "content (sqe_fd q) = Some bs"
    "sum_list (map len vs) = length bs" "\<forall>v \<in> set vs. len v \<le> length (base v)" "length vs = nblocks (length bs)"
    "rings_ok p" "console p = console s" "iov_loop (memalign w) (nblocks (length bs)) 0 (length bs) = Some (True, vs)"
proof -
  obtain fd where fd: "open_file w path = Some fd" "content fd = Some bs" "get_file_size (fstat w fd) = Some (length bs)"
    using f(1) by (auto simp: readable_def)
  obtain fi where fi: "malloc w (heap s) = Some fi" using m by (fastforce simp: memory_ok_def)
  have blocks: "blocks_of (length bs) = int (nblocks (length bs))" using f(2) by (rule blocks_of_small)
  obtain vs where vs: "iov_loop (memalign w) (nblocks (length bs)) 0 (length bs) = Some (True, vs)" "sum_list (map len vs) = length bs"
      "\<forall>v \<in> set vs. len v \<le> length (base v)" "length vs = nblocks (length bs)"
    using iov_loop_ok [of "memalign w" "nblocks (length bs)" 0 "length bs"] m by (auto simp: memory_ok_def)
  let ?h = "s\<lparr>heap := (heap s)(fi \<mapsto> \<lparr>file_sz = length bs, iovecs = vs\<rparr>)\<rparr>" and ?i = "sq_tail s AND sq_mask s"
  let ?q = "\<lparr>sqe_fd = fd, sqe_len = int (nblocks (length bs)), sqe_data = fi\<rparr>"
  let ?p = "?h\<lparr>sqes := (sqes s)[unat ?i := ?q], sq_array := (sq_array s)[unat ?i := ?i], sq_tail := sq_tail s + 1\<rparr>"
  have i: "unat ?i < length (sqes s)" "unat ?i < length (sq_array s)" using r by (auto simp: rings_ok_def)
  then have push: "push_sqe ?h ?q = Some ?p" by (simp add: push_sqe_def Let_def)
  have n: "newest ?p = Some ?q" using i by (simp add: newest_def)
  have sub: "submit_to_sq w enter path s = (case enter ?p of (ret, s) \<Rightarrow> Some (0 \<le> ret, s))"
    using fd fi blocks vs(1) push by (simp add: submit_to_sq_def Let_def)
  have p: "rings_ok ?p" "console ?p = console s" using r by (simp_all add: rings_ok_def)
  show thesis by (rule that [OF sub n _ _ _ vs(2-4) p vs(1)]) (use fd vs(4) in simp_all)
qed

text \<open>What is printed when one completion has arrived.\<close>

lemma read_one:
  assumes "rings_ok p" "heap t (user_data c) = Some \<lparr>file_sz = n, iovecs = vs\<rparr>" "n < 2 ^ 31" "length vs = nblocks n"
    "cq_head t = cq_head p" "cq_tail t = cq_tail p + 1" "cq_mask t = cq_mask p" "sq_mask t = sq_mask p"
    "cqes t = (cqes p)[unat (cq_tail p AND cq_mask p) := c]" "sqes t = sqes p" "sq_array t = sq_array p"
    "\<And>s. print_blocks s vs (length vs) = Some (s\<lparr>console := console s @ out\<rparr>)"
  shows "\<exists>s2. read_from_cq t = Some s2 \<and> rings_ok s2 \<and> console s2 = console t @ out"
proof -
  let ?c = "cq_head p"
  have j: "unat (?c AND cq_mask p) < length (cqes p)" "cq_tail p = ?c" using assms(1) by (auto simp: rings_ok_def)
  have "print_cqe t ?c = Some (t\<lparr>console := console t @ out\<rparr>)"
    using j assms(2,4,7,9,12) blocks_of_small [OF assms(3)] by (simp add: print_cqe_def Let_def)
  then have "read_from_cq t = Some (t\<lparr>console := console t @ out, cq_head := ?c + 1\<rparr>)"
    using j(2) assms(5,6) by (simp add: read_from_cq_def cq_loop.simps [of ?c] cq_loop.simps [of "?c + 1"])
  then show ?thesis using assms(1,6-11) j(2) by (simp add: rings_ok_def)
qed

lemma cat_one:
  assumes k: "enter_reads content enter" and f: "readable w content path bs" "length bs \<le> IOV_MAX * BLOCK_SZ" and m: "memory_ok w" and r: "rings_ok s"
  shows "\<exists>s1 s2. submit_to_sq w enter path s = Some (True, s1) \<and> read_from_cq s1 = Some s2 \<and> rings_ok s2 \<and> console s2 = console s @ bs"
proof -
  have small: "length bs < 2 ^ 31" using f(2) by (simp add: IOV_MAX_def BLOCK_SZ_def)
  obtain p q vs where p: "submit_to_sq w enter path s = (case enter p of (ret, s) \<Rightarrow> Some (0 \<le> ret, s))" "newest p = Some q"
    "heap p (sqe_data q) = Some \<lparr>file_sz = length bs, iovecs = vs\<rparr>" "sqe_len q = int (length vs)" "content (sqe_fd q) = Some bs"
    and vs: "sum_list (map len vs) = length bs" "\<forall>v \<in> set vs. len v \<le> length (base v)" "length vs = nblocks (length bs)"
    and q: "rings_ok p" "console p = console s"
    by (rule submit_pushes [OF f(1) small m r])
  let ?s1 = "completed p q \<lparr>file_sz = length bs, iovecs = vs\<rparr> bs"
  have "length vs \<le> IOV_MAX" using f(2) vs(3) nblocks_bound by simp
  then have "enter p = (1, ?s1)" using k p vs(3) by (simp add: enter_reads_def)
  then have s1: "submit_to_sq w enter path s = Some (True, ?s1)" using p(1) by simp
  have sc: "length (scatter bs vs) = length vs" for bs by (induction vs arbitrary: bs) auto
  have "\<exists>s2. read_from_cq ?s1 = Some s2 \<and> rings_ok s2 \<and> console s2 = console ?s1 @ bs"
    by (rule read_one [OF q(1), where n = "length bs" and vs = "scatter bs vs" and
          c = "\<lparr>user_data = sqe_data q, res = int (min (length bs) (sum_list (map len vs)))\<rparr>"])
      (use small vs sc print_scattered [OF vs(2)] in \<open>simp_all add: completed_def\<close>)
  then show ?thesis using s1 q(2) by (simp add: completed_def)
qed

subsection \<open>Properties\<close>

lemma cat_all:
  assumes "enter_reads content enter" "memory_ok w"
  shows "list_all2 (\<lambda>path bs. readable w content path bs \<and> length bs \<le> IOV_MAX * BLOCK_SZ) paths files \<Longrightarrow> rings_ok s \<Longrightarrow>
    \<exists>s'. cat_files w enter paths s = Some (True, s') \<and> rings_ok s' \<and> console s' = console s @ concat files"
proof (induction paths arbitrary: files s)
  case (Cons path paths)
  obtain bs fs where f: "files = bs # fs" "readable w content path bs" "length bs \<le> IOV_MAX * BLOCK_SZ"
      "list_all2 (\<lambda>path bs. readable w content path bs \<and> length bs \<le> IOV_MAX * BLOCK_SZ) paths fs"
    using Cons.prems(1) by (auto simp: list_all2_Cons1)
  obtain s1 s2 where s: "submit_to_sq w enter path s = Some (True, s1)" "read_from_cq s1 = Some s2" "rings_ok s2" "console s2 = console s @ bs"
    using cat_one [OF assms(1) f(2,3) assms(2) Cons.prems(2)] by blast
  show ?case using Cons.IH [OF f(4) s(3)] s f(1) by auto
qed simp

text \<open>C24. Printing files: whatever the indices of the rings are when it starts, and however often they wrap around, the
  program prints the contents of all its files in order and returns 0, when each can be opened, its size is that of its
  content and at most 1 MiB (1024 blocks of 1024 bytes, as many as one request may name), memory is available, and
  the kernel completes a request of at most 1024 blocks with all of the file.\<close>

theorem cat_prints_files:
  assumes "enter_reads content enter" "memory_ok w" "rings_ok s"
    and "list_all2 (\<lambda>path bs. readable w content path bs \<and> length bs \<le> 1024 * 1024) paths files"
  shows "\<exists>s'. cat_files w enter paths s = Some (True, s') \<and> console s' = console s @ concat files"
  using cat_all [OF assms(1,2) _ assms(3), of paths files] assms(4) by (auto simp: IOV_MAX_def BLOCK_SZ_def)

text \<open>Printing files: the blocks of a longer file are one request of more than \<open>IOV_MAX\<close> blocks, which the kernel
  refuses.  The program then prints what is in the memory of the blocks, of which nothing has been read: the output does not
  depend on the content of the file.\<close>

theorem cat_large_file:
  assumes "enter_reads content enter" "readable w content path bs" "1024 * 1024 < length bs" "length bs < 2 ^ 31" "memory_ok w" "rings_ok s"
  shows "\<exists>s1 s2 out. submit_to_sq w enter path s = Some (True, s1) \<and> read_from_cq s1 = Some s2 \<and> console s2 = console s @ out \<and>
    (\<exists>vs. iov_loop (memalign w) (nblocks (length bs)) 0 (length bs) = Some (True, vs) \<and> out = concat (map (\<lambda>v. take (len v) (base v)) vs))"
proof -
  obtain p q vs where p: "submit_to_sq w enter path s = (case enter p of (ret, s) \<Rightarrow> Some (0 \<le> ret, s))" "newest p = Some q"
    "heap p (sqe_data q) = Some \<lparr>file_sz = length bs, iovecs = vs\<rparr>" "sqe_len q = int (length vs)" "content (sqe_fd q) = Some bs"
    and vs: "\<forall>v \<in> set vs. len v \<le> length (base v)" "length vs = nblocks (length bs)"
    and q: "rings_ok p" "console p = console s" "iov_loop (memalign w) (nblocks (length bs)) 0 (length bs) = Some (True, vs)"
    by (rule submit_pushes [OF assms(2,4,5,6)])
  have "\<not> length vs \<le> IOV_MAX" using assms(3) vs(2) nblocks_bound [of "length bs" IOV_MAX] by (simp add: IOV_MAX_def BLOCK_SZ_def)
  then have e: "enter p = (1, refused p q)" using assms(1) p by (simp add: enter_reads_def)
  have "\<exists>s2. read_from_cq (refused p q) = Some s2 \<and> rings_ok s2 \<and> console s2 = console (refused p q) @ concat (map (\<lambda>v. take (len v) (base v)) vs)"
    by (rule read_one [OF q(1), where n = "length bs" and vs = vs and c = "\<lparr>user_data = sqe_data q, res = -22\<rparr>"])
      (use assms(4) p(3) vs print_raw [OF vs(1)] in \<open>simp_all add: refused_def\<close>)
  then show ?thesis using p(1) e q(2,3) by (auto simp: refused_def)
qed

text \<open>Printing files: the size is cut to 32 bits when the blocks are counted.  For a file of 4 GB or more whose
  size has a clear bit 31 the array is too small, and the program writes past its end.\<close>

theorem cat_overruns_blocks:
  assumes "open_file w path = Some fd" "get_file_size (fstat w fd) = Some sz" "memory_ok w" "2 ^ 32 \<le> sz" "sz mod 2 ^ 32 < 2 ^ 31"
  shows "submit_to_sq w enter path s = None"
proof -
  let ?r = "sz mod 2 ^ 32"
  have "nblocks sz = sz div 2 ^ 32 * 2 ^ 22 + nblocks ?r" using nblocks_add [of "sz div 2 ^ 32" ?r] by simp
  moreover have "1 \<le> sz div 2 ^ 32" using assms(4) by (simp add: div_greater_zero_iff Suc_leI)
  ultimately have "nblocks ?r < nblocks sz" by simp
  moreover have "\<exists>b. memalign w i = Some b" for i using assms(3) by (auto simp: memory_ok_def)
  ultimately have "iov_loop (memalign w) (nblocks ?r) 0 sz = None" using iov_loop_overrun [of "memalign w" "nblocks ?r" 0 sz] by simp
  moreover obtain fi where "malloc w (heap s) = Some fi" using assms(3) by (fastforce simp: memory_ok_def)
  ultimately show ?thesis using assms(1,2) blocks_of_cut [OF assms(5)] by (simp add: submit_to_sq_def)
qed

text \<open>A kernel for the examples: it does what is asked of it.\<close>

definition reading_kernel :: "(nat \<Rightarrow> byte list option) \<Rightarrow> submitter \<Rightarrow> int \<times> submitter" where
  "reading_kernel content s = (case newest s of
     None \<Rightarrow> (-1, s)
   | Some q \<Rightarrow> (case (heap s (sqe_data q), content (sqe_fd q)) of
       (Some fi, Some bs) \<Rightarrow> (1, if length (iovecs fi) \<le> IOV_MAX then completed s q fi bs else refused s q)
     | _ \<Rightarrow> (-1, s)))"

lemma reading_kernel_ok: "enter_reads content (reading_kernel content)"
  by (simp add: enter_reads_def reading_kernel_def)

definition example_world :: "nat \<Rightarrow> surroundings" where
  "example_world sz = \<lparr>open_file = (\<lambda>path. Some 3), fstat = (\<lambda>fd. Some (Regular_file sz)), malloc = (\<lambda>h. Some 1), memalign = (\<lambda>i. Some (replicate BLOCK_SZ 0))\<rparr>"

definition example_rings :: submitter where
  "example_rings = \<lparr>sq_tail = - 1, sq_mask = 0, sq_array = [0], sqes = [\<lparr>sqe_fd = 0, sqe_len = 0, sqe_data = 0\<rparr>],
     cq_head = - 1, cq_tail = - 1, cq_mask = 1, cqes = [\<lparr>user_data = 0, res = 0\<rparr>, \<lparr>user_data = 0, res = 0\<rparr>], heap = Map.empty, console = []\<rparr>"

lemma example_rings_ok: "rings_ok example_rings"
proof -
  have "unat (i AND 1 :: 32 word) < 2" for i by (simp add: and_one_eq mod_2_eq_odd)
  then show ?thesis by (simp add: rings_ok_def example_rings_def numeral_2_eq_2)
qed

theorem cat_prints_files_witness:
  "\<exists>s'. cat_files (example_world 5) (reading_kernel (\<lambda>fd. Some (bytes ''hello''))) [bytes ''a'', bytes ''b''] example_rings = Some (True, s') \<and>
     console s' = bytes ''hellohello''"
  using cat_prints_files [OF reading_kernel_ok [of "\<lambda>fd. Some (bytes ''hello'')"] _ example_rings_ok, of "example_world 5" "[bytes ''a'', bytes ''b'']" "[bytes ''hello'', bytes ''hello'']"]
  by (simp add: memory_ok_def example_world_def readable_def get_file_size_def bytes_def example_rings_def)

theorem cat_large_file_witness:
  "\<exists>s1 s2 out. submit_to_sq (example_world (2 ^ 20 + 1)) (reading_kernel (\<lambda>fd. Some (replicate (2 ^ 20 + 1) 120))) (bytes ''big'') example_rings = Some (True, s1) \<and>
     read_from_cq s1 = Some s2 \<and> console s2 = out \<and> 120 \<notin> set out"
proof -
  let ?bs = "replicate (2 ^ 20 + 1) (120 :: byte)"
  have "readable (example_world (2 ^ 20 + 1)) (\<lambda>fd. Some ?bs) (bytes ''big'') ?bs" by (simp add: readable_def example_world_def get_file_size_def)
  moreover have "memory_ok (example_world (2 ^ 20 + 1))" by (simp add: memory_ok_def example_world_def)
  ultimately obtain s1 s2 out vs where s: "submit_to_sq (example_world (2 ^ 20 + 1)) (reading_kernel (\<lambda>fd. Some ?bs)) (bytes ''big'') example_rings = Some (True, s1)"
      "read_from_cq s1 = Some s2" "console s2 = console example_rings @ out"
      "iov_loop (memalign (example_world (2 ^ 20 + 1))) (nblocks (length ?bs)) 0 (length ?bs) = Some (True, vs)"
      "out = concat (map (\<lambda>v. take (len v) (base v)) vs)"
    using cat_large_file [OF reading_kernel_ok [of "\<lambda>fd. Some ?bs"] _ _ _ _ example_rings_ok] by fastforce
  have "\<forall>v \<in> set vs. set (base v) \<subseteq> {0}" by (rule iov_loop_memory [OF s(4)]) (auto simp: example_world_def)
  then have "set out \<subseteq> {0}" unfolding s(5) by (fastforce dest: in_set_takeD)
  then have "120 \<notin> set out" by auto
  moreover have "console example_rings = []" by (simp add: example_rings_def)
  ultimately show ?thesis using s(1-3) by auto
qed

theorem cat_overruns_blocks_witness:
  "submit_to_sq (example_world (2 ^ 32 + 1)) (reading_kernel (\<lambda>fd. None)) (bytes ''big'') example_rings = None"
  using cat_overruns_blocks [of "example_world (2 ^ 32 + 1)" "bytes ''big''" 3 "2 ^ 32 + 1"]
  by (simp add: memory_ok_def example_world_def get_file_size_def)

end
