(* ===== verification/Chat_Thread.thy ===== *)
theory Chat_Thread
  imports Prelude
begin

text \<open>
  The chat server with a thread per client (\<open>network-programming/yinshengyu/chat_server.c\<close>): the array of the
  connected sockets, joining, sending to all, and leaving.  A section under the mutex is one operation; \<open>None\<close>
  is an access outside the array.
\<close>

definition MAX_CLIENT :: nat where "MAX_CLIENT = 256"

text \<open>\<open>inbox\<close> holds what has been written to each socket.\<close>

record chat =
  client_count :: int
  client_socks :: "nat list"
  inbox :: "nat \<Rightarrow> byte list list"
  shut :: "nat set"

definition chat_start :: "nat list \<Rightarrow> chat" where
  "chat_start junk = \<lparr>client_count = 0, client_socks = junk, inbox = (\<lambda>s. []), shut = {}\<rparr>"

definition sock_get :: "chat \<Rightarrow> int \<Rightarrow> nat option" where
  "sock_get c i = (if 0 \<le> i \<and> nat i < length (client_socks c) then Some (client_socks c ! nat i) else None)"

definition sock_set :: "chat \<Rightarrow> int \<Rightarrow> nat \<Rightarrow> chat option" where
  "sock_set c i v = (if 0 \<le> i \<and> nat i < length (client_socks c) then Some (c\<lparr>client_socks := (client_socks c)[nat i := v]\<rparr>) else None)"

text \<open>What \<open>main\<close> does with a new client.\<close>

definition join_chat :: "chat \<Rightarrow> nat \<Rightarrow> chat option" where
  "join_chat c sock = map_option (\<lambda>c. c\<lparr>client_count := client_count c + 1\<rparr>) (sock_set c (client_count c) sock)"

function send_loop :: "chat \<Rightarrow> byte list \<Rightarrow> int \<Rightarrow> chat option" where
  "send_loop c msg i =
     (if i < client_count c
      then (case sock_get c i of
              None \<Rightarrow> None
            | Some s \<Rightarrow> send_loop (c\<lparr>inbox := (inbox c)(s := inbox c s @ [msg])\<rparr>) msg (i + 1))
      else Some c)"
  by pat_completeness auto
termination
  by (relation "measure (\<lambda>(c, msg, i). nat (client_count c - i))") auto

declare send_loop.simps [simp del]

definition send_message :: "chat \<Rightarrow> byte list \<Rightarrow> chat option" where
  "send_message c msg = send_loop c msg 0"

text \<open>The loop \<open>while (i++ < client_count - 1) client_socks[i] = client_socks[i+1]\<close>: the index is advanced between the test
  and the body.\<close>

function shift_loop :: "chat \<Rightarrow> int \<Rightarrow> chat option" where
  "shift_loop c i =
     (if i < client_count c - 1
      then (case sock_get c (i + 2) of
              None \<Rightarrow> None
            | Some s \<Rightarrow> (case sock_set c (i + 1) s of None \<Rightarrow> None | Some c' \<Rightarrow> shift_loop c' (i + 1)))
      else Some c)"
  by pat_completeness auto
termination
  by (relation "measure (\<lambda>(c, i). nat (client_count c - i))") (auto simp: sock_set_def split: if_splits)

declare shift_loop.simps [simp del]

function find_loop :: "chat \<Rightarrow> nat \<Rightarrow> int \<Rightarrow> chat option" where
  "find_loop c sock i =
     (if i < client_count c
      then (case sock_get c i of
              None \<Rightarrow> None
            | Some s \<Rightarrow> if sock = s then shift_loop c i else find_loop c sock (i + 1))
      else Some c)"
  by pat_completeness auto
termination
  by (relation "measure (\<lambda>(c, sock, i). nat (client_count c - i))") auto

declare find_loop.simps [simp del]

text \<open>The end of \<open>handle_client\<close>.\<close>

definition leave_chat :: "chat \<Rightarrow> nat \<Rightarrow> chat option" where
  "leave_chat c sock = map_option (\<lambda>c. c\<lparr>client_count := client_count c - 1, shut := insert sock (shut c)\<rparr>) (find_loop c sock 0)"

text \<open>A client that sends the given messages and then closes its connection.\<close>

fun handle_client :: "chat \<Rightarrow> nat \<Rightarrow> byte list list \<Rightarrow> chat option" where
  "handle_client c sock [] = leave_chat c sock"
| "handle_client c sock (m # ms) = (case send_message c m of None \<Rightarrow> None | Some c \<Rightarrow> handle_client c sock ms)"

subsection \<open>The members\<close>

definition members :: "chat \<Rightarrow> nat list \<Rightarrow> bool" where
  "members c ms \<longleftrightarrow> client_count c = int (length ms) \<and> length (client_socks c) = MAX_CLIENT \<and> length ms \<le> MAX_CLIENT \<and>
     take (length ms) (client_socks c) = ms"

lemma member_nth: "members c ms \<Longrightarrow> i < length ms \<Longrightarrow> sock_get c (int i) = Some (ms ! i)"
  unfolding members_def sock_get_def by (metis le_trans less_le_not_le linorder_not_le nat_int nth_take of_nat_0_le_iff order_less_le_trans)

lemma send_loop_members:
  "members c ms \<Longrightarrow> distinct ms \<Longrightarrow> i \<le> length ms \<Longrightarrow>
   send_loop c msg (int i) = Some (c\<lparr>inbox := (\<lambda>s. if s \<in> set (drop i ms) then inbox c s @ [msg] else inbox c s)\<rparr>)"
proof (induction "length ms - i" arbitrary: i c)
  case 0
  then show ?case by (simp add: send_loop.simps members_def)
next
  case (Suc n)
  then have i: "i < length ms" "drop i ms = ms ! i # drop (Suc i) ms" by (auto simp: Cons_nth_drop_Suc)
  let ?c = "c\<lparr>inbox := (inbox c)(ms ! i := inbox c (ms ! i) @ [msg])\<rparr>"
  have m: "members ?c ms" using Suc.prems(1) by (simp add: members_def)
  have "int i < client_count c" using Suc.prems(1) i(1) by (simp add: members_def)
  then have "send_loop c msg (int i) = send_loop ?c msg (int (Suc i))"
    using member_nth [OF Suc.prems(1) i(1)] by (subst send_loop.simps) (simp add: add.commute)
  also have "\<dots> = Some (?c\<lparr>inbox := (\<lambda>s. if s \<in> set (drop (Suc i) ms) then inbox ?c s @ [msg] else inbox ?c s)\<rparr>)"
    using Suc.hyps(1) [of "Suc i" ?c] Suc.hyps(2) m Suc.prems(2) i(1) by simp
  also have "ms ! i \<notin> set (drop (Suc i) ms)" using Suc.prems(2) i by (metis distinct.simps(2) distinct_drop)
  ultimately show ?case by (auto simp: i(2) fun_eq_iff)
qed
lemma send_message_members:
  assumes "members c ms" "distinct ms"
  shows "\<exists>c'. send_message c msg = Some c' \<and> (\<forall>s. inbox c' s = (if s \<in> set ms then inbox c s @ [msg] else inbox c s))"
  using send_loop_members [OF assms, of 0 msg] by (simp add: send_message_def)

subsection \<open>Leaving\<close>

lemma shift_loop_spec:
  "client_count c = int n \<Longrightarrow> n < length (client_socks c) \<Longrightarrow> i < n \<Longrightarrow>
   shift_loop c (int i) = Some (c\<lparr>client_socks := take (i + 1) (client_socks c) @ take (n - 1 - i) (drop (i + 2) (client_socks c)) @ drop n (client_socks c)\<rparr>)"
proof (induction "n - 1 - i" arbitrary: i c)
  case 0
  then have "i = n - 1" by simp
  then show ?case using "0.prems" by (simp add: shift_loop.simps)
next
  case (Suc k)
  let ?L = "client_socks c"
  have i: "i + 2 < length ?L" "i + 1 < n" using Suc by auto
  let ?c = "c\<lparr>client_socks := ?L[i + 1 := ?L ! (i + 2)]\<rparr>"
  have "sock_get c (int i + 2) = Some (?L ! (i + 2))" "sock_set c (int i + 1) (?L ! (i + 2)) = Some ?c"
    using i by (simp_all add: sock_get_def sock_set_def nat_add_distrib)
  then have "shift_loop c (int i) = shift_loop ?c (int (i + 1))"
    using Suc.prems(1) i(2) by (subst shift_loop.simps) (simp add: add.commute)
  also have "\<dots> = Some (?c\<lparr>client_socks := take (i + 1 + 1) (client_socks ?c) @ take (n - 1 - (i + 1)) (drop (i + 1 + 2) (client_socks ?c)) @ drop n (client_socks ?c)\<rparr>)"
    using Suc.hyps(1) [of "i + 1" ?c] Suc.hyps(2) Suc.prems(1,2) i by simp
  also have "take (i + 1 + 1) (client_socks ?c) @ take (n - 1 - (i + 1)) (drop (i + 1 + 2) (client_socks ?c)) @ drop n (client_socks ?c) =
      take (i + 1) ?L @ take (n - 1 - i) (drop (i + 2) ?L) @ drop n ?L"
  proof -
    have "take (n - 1 - i) (drop (i + 2) ?L) = ?L ! (i + 2) # take (n - 1 - (i + 1)) (drop (i + 3) ?L)"
      using i Suc.hyps(2) by (simp add: Cons_nth_drop_Suc [symmetric] take_Cons' numeral_3_eq_3)
    then show ?thesis using i by (simp add: take_Suc_conv_app_nth numeral_3_eq_3 take_update_swap list_update_append)
  qed
  finally show ?case by simp
qed

lemma find_loop_spec:
  assumes "members c (xs @ sock # ys)" "sock \<notin> set xs"
  shows "find_loop c sock 0 = shift_loop c (int (length xs))"
proof -
  have "find_loop c sock (int i) = shift_loop c (int (length xs))" if "i \<le> length xs" for i
    using that
  proof (induction "length xs - i" arbitrary: i)
    case 0
    then have "i = length xs" by simp
    then show ?case using member_nth [OF assms(1), of i] assms(1) by (subst find_loop.simps) (simp add: members_def)
  next
    case (Suc k)
    then have i: "i < length xs" by simp
    then have "sock_get c (int i) = Some (xs ! i)" "xs ! i \<noteq> sock" using member_nth [OF assms(1), of i] assms(2) by (auto simp: nth_append)
    moreover have "int i < client_count c" using assms(1) i by (simp add: members_def)
    moreover have "find_loop c sock (int (Suc i)) = shift_loop c (int (length xs))" using Suc.hyps(1) [of "Suc i"] Suc.hyps(2) i by simp
    ultimately show ?case by (subst find_loop.simps) (simp add: add.commute)
  qed
  from this [of 0] show ?thesis by simp
qed

lemma members_parts:
  assumes "members c (xs @ sock # ys)"
  shows "client_socks c = xs @ sock # ys @ drop (length xs + 1 + length ys) (client_socks c)"
  using assms append_take_drop_id [of "length xs + 1 + length ys" "client_socks c"] by (simp add: members_def)

text \<open>Chat with threads: a client that leaves and is not the last one in the array stays in it, and the client
  after it is dropped instead: every later message is written to the closed socket and never reaches that client.\<close>

theorem leave_drops_neighbour:
  assumes "members c (xs @ sock # next_sock # ys)" "distinct (xs @ sock # next_sock # ys)" "length xs + length ys + 2 < MAX_CLIENT"
  shows "\<exists>c'. leave_chat c sock = Some c' \<and> members c' (xs @ sock # ys) \<and> sock \<in> shut c' \<and>
    (\<exists>c''. send_message c' msg = Some c'' \<and> inbox c'' sock = inbox c sock @ [msg] \<and> inbox c'' next_sock = inbox c next_sock)"
proof -
  let ?n = "length xs + 2 + length ys" and ?L = "client_socks c"
  have n: "client_count c = int ?n" "?n < length ?L" "length ?L = MAX_CLIENT" using assms(1,3) by (auto simp: members_def)
  obtain r where L: "?L = xs @ sock # next_sock # ys @ r" using members_parts [OF assms(1)] by (metis append_Cons)
  then have r: "r \<noteq> []" "length r = length ?L - ?n" using n(2) by auto
  let ?L' = "take (length xs + 1) ?L @ take (?n - 1 - length xs) (drop (length xs + 2) ?L) @ drop ?n ?L"
  have "?L' = xs @ sock # ys @ hd r # r" using r by (cases r) (simp_all add: L)
  moreover have "find_loop c sock 0 = Some (c\<lparr>client_socks := ?L'\<rparr>)"
    using find_loop_spec [OF assms(1)] shift_loop_spec [OF n(1,2), of "length xs"] assms(2) by simp
  ultimately have l: "leave_chat c sock = Some (c\<lparr>client_socks := xs @ sock # ys @ hd r # r, client_count := client_count c - 1, shut := insert sock (shut c)\<rparr>)"
    (is "_ = Some ?c'") by (simp add: leave_chat_def)
  have "length xs + 2 + length ys + length r = MAX_CLIENT" using n(3) unfolding L by simp
  then have m: "members ?c' (xs @ sock # ys)" using n(1) by (simp add: members_def)
  have "distinct (xs @ sock # ys)" "next_sock \<notin> set (xs @ sock # ys)" using assms(2) by auto
  then obtain c'' where "send_message ?c' msg = Some c''" "\<forall>s. inbox c'' s = (if s \<in> set (xs @ sock # ys) then inbox ?c' s @ [msg] else inbox ?c' s)"
    using send_message_members [OF m] by blast
  then have "\<exists>c''. send_message ?c' msg = Some c'' \<and> inbox c'' sock = inbox c sock @ [msg] \<and> inbox c'' next_sock = inbox c next_sock"
    using \<open>next_sock \<notin> set (xs @ sock # ys)\<close> by (intro exI [of _ c'']) simp
  moreover have "sock \<in> shut ?c'" by simp
  ultimately show ?thesis using l m by blast
qed

text \<open>Joining, and leaving as the last one, do what they should.\<close>

lemma join_members:
  assumes "members c ms" "length ms < MAX_CLIENT"
  shows "\<exists>c'. join_chat c sock = Some c' \<and> members c' (ms @ [sock]) \<and> inbox c' = inbox c"
  using assms by (auto simp: join_chat_def sock_set_def members_def take_Suc_conv_app_nth)

lemma join_overflows: "members c ms \<Longrightarrow> length ms = MAX_CLIENT \<Longrightarrow> join_chat c sock = None"
  by (simp add: join_chat_def sock_set_def members_def)

lemma leave_last:
  assumes "members c (xs @ [sock])" "sock \<notin> set xs"
  shows "\<exists>c'. leave_chat c sock = Some c' \<and> members c' xs"
proof -
  have "shift_loop c (int (length xs)) = Some c" using assms(1) by (simp add: shift_loop.simps members_def)
  moreover have "take (length xs) (client_socks c) = xs" using members_parts [OF assms(1)] by (metis append_eq_conv_conj)
  ultimately show ?thesis using find_loop_spec [OF assms] assms(1) by (auto simp: leave_chat_def members_def)
qed

theorem leave_drops_neighbour_witness:
  "\<exists>c c' c''. leave_chat c 10 = Some c' \<and> send_message c' [104] = Some c'' \<and> inbox c'' 10 = [[104]] \<and> inbox c'' 11 = []"
proof -
  have c0: "members (chat_start (replicate MAX_CLIENT 0)) []" by (simp add: members_def chat_start_def)
  obtain c1 where c1: "members c1 [10]" "inbox c1 = (\<lambda>s. [])" using join_members [OF c0, of 10] by (auto simp: MAX_CLIENT_def chat_start_def)
  obtain c2 where c2: "members c2 ([] @ 10 # 11 # [])" "inbox c2 = (\<lambda>s. [])" using join_members [OF c1(1), of 11] c1(2) by (auto simp: MAX_CLIENT_def)
  show ?thesis using leave_drops_neighbour [OF c2(1), of "[104]"] c2(2) by (auto simp: MAX_CLIENT_def)
qed

end
