(* ===== verification/Poll_Chat.thy ===== *)
theory Poll_Chat
  imports C_Buffer
begin

unbundle bit_operations_syntax

text \<open>
  The chat server on \<open>poll\<close> (\<open>network-programming/youshuang/9-7mytalk_server.cpp\<close>): the array of polled
  descriptors, the data of the users indexed by their descriptors, and the loop over the events.  A
  pointer \<open>write_buf\<close> is the descriptor whose buffer it points to.  The kernel is a parameter: which events it reports,
  what \<open>accept\<close> and \<open>recv\<close> return.  \<open>None\<close> is an access outside an array.
\<close>

definition USER_LIMIT :: nat where "USER_LIMIT = 5"
definition TALK_BUFFER :: nat where "TALK_BUFFER = 64"
definition FD_LIMIT :: int where "FD_LIMIT = 65535"

definition POLLIN :: "16 word" where "POLLIN = 0x1"
definition POLLOUT :: "16 word" where "POLLOUT = 0x4"
definition POLLERR :: "16 word" where "POLLERR = 0x8"
definition POLLRDHUP :: "16 word" where "POLLRDHUP = 0x2000"


record pollfd =
  fd :: int
  events :: "16 word"
  revents :: "16 word"

record client_data =
  write_buf :: "int option"
  buf :: "byte list"

text \<open>The state of \<open>main\<close>: \<open>pos\<close> is the index of the loop over the events, \<open>received\<close> what has been sent to each
  descriptor.\<close>

record talk =
  fds :: "pollfd list"
  user_counter :: nat
  users :: "int \<Rightarrow> client_data"
  pos :: nat
  received :: "int \<Rightarrow> byte list list"


definition flag :: "pollfd \<Rightarrow> 16 word \<Rightarrow> bool" where
  "flag p f \<longleftrightarrow> revents p AND f \<noteq> 0"


definition fd_ok :: "int \<Rightarrow> bool" where
  "fd_ok d \<longleftrightarrow> 0 \<le> d \<and> d < FD_LIMIT"

subsection \<open>The branches of the loop\<close>


text \<open>Entry \<open>i\<close> is removed: its user's data and its place are taken by the last one's.\<close>

definition drop_user :: "talk \<Rightarrow> nat \<Rightarrow> talk option" where
  "drop_user s i =
     (let n = user_counter s
      in if i < length (fds s) \<and> n < length (fds s) \<and> fd_ok (fd (fds s ! i)) \<and> fd_ok (fd (fds s ! n))
         then Some (s\<lparr>users := (users s)(fd (fds s ! i) := users s (fd (fds s ! n))), fds := (fds s)[i := fds s ! n], user_counter := n - 1\<rparr>)
         else None)"

text \<open>The loop that tells the other users that there is something to write, from index \<open>j\<close> on.\<close>

fun notify :: "int \<Rightarrow> nat list \<Rightarrow> talk \<Rightarrow> talk" where
  "notify connfd [] s = s"
| "notify connfd (j # js) s =
     (if fd (fds s ! j) = connfd then notify connfd js s
      else let p = fds s ! j; p = p\<lparr>events := (events p OR NOT POLLIN) OR POLLOUT\<rparr>
           in notify connfd js (s\<lparr>fds := (fds s)[j := p], users := (users s)(fd p := (users s (fd p))\<lparr>write_buf := Some connfd\<rparr>)\<rparr>))"

definition set_buf :: "talk \<Rightarrow> int \<Rightarrow> byte list \<Rightarrow> talk" where
  "set_buf s d b = s\<lparr>users := (users s)(d := (users s d)\<lparr>buf := b\<rparr>)\<rparr>"

definition on_data :: "talk \<Rightarrow> nat \<Rightarrow> bool + byte list \<Rightarrow> (nat \<times> talk) option" where
  "on_data s i r =
     (let connfd = fd (fds s ! i)
      in if \<not> fd_ok connfd then None
         else case r of
           Inl again \<Rightarrow>
             (let s = set_buf s connfd (replicate TALK_BUFFER 0)
              in if again then Some (i + 1, s) else map_option (\<lambda>s. (i, s)) (drop_user s i))
         | Inr bs \<Rightarrow>
             (let s = set_buf s connfd (overwrite (replicate TALK_BUFFER 0) 0 (take (TALK_BUFFER - 1) bs))
              in if bs = [] then Some (i + 1, s) else Some (i + 1, notify connfd [1..<user_counter s + 1] s)))"

definition on_writable :: "talk \<Rightarrow> nat \<Rightarrow> talk option" where
  "on_writable s i =
     (let p = fds s ! i
      in if \<not> fd_ok (fd p) then None
         else case write_buf (users s (fd p)) of
           None \<Rightarrow> Some s
         | Some b \<Rightarrow>
             Some (s\<lparr>received := (received s)(fd p := received s (fd p) @ [str_of (buf (users s b))]),
                users := (users s)(fd p := (users s (fd p))\<lparr>write_buf := None\<rparr>),
                fds := (fds s)[i := p\<lparr>events := (events p OR NOT POLLOUT) OR POLLIN\<rparr>]\<rparr>))"


subsection \<open>The program\<close>




subsection \<open>The invariant\<close>

definition live_fds :: "talk \<Rightarrow> int list" where
  "live_fds s = map fd (take (user_counter s + 1) (fds s))"

definition talk_inv :: "int \<Rightarrow> talk \<Rightarrow> bool" where
  "talk_inv listenfd s \<longleftrightarrow> length (fds s) = USER_LIMIT + 1 \<and> user_counter s \<le> USER_LIMIT \<and> distinct (live_fds s) \<and>
     (\<forall>d \<in> set (live_fds s). fd_ok d) \<and> fd (fds s ! 0) = listenfd \<and> events (fds s ! 0) = POLLIN OR POLLERR \<and>
     \<not> flag (fds s ! 0) POLLRDHUP \<and> \<not> flag (fds s ! 0) POLLOUT"

lemma live_fd_nth:
  assumes "talk_inv listenfd s" "i \<le> user_counter s"
  shows "live_fds s ! i = fd (fds s ! i)" "i < length (live_fds s)" "fd_ok (fd (fds s ! i))" "i < length (fds s)"
proof -
  show i: "live_fds s ! i = fd (fds s ! i)" "i < length (live_fds s)" "i < length (fds s)"
    using assms by (auto simp: talk_inv_def live_fds_def)
  then have "fd (fds s ! i) \<in> set (live_fds s)" by (metis nth_mem)
  then show "fd_ok (fd (fds s ! i))" using assms(1) by (simp add: talk_inv_def)
qed

lemma live_distinct:
  assumes "talk_inv listenfd s" "i \<le> user_counter s" "j \<le> user_counter s"
  shows "fd (fds s ! i) = fd (fds s ! j) \<longleftrightarrow> i = j"
  using live_fd_nth [OF assms(1,2)] live_fd_nth [OF assms(1,3)] assms(1) nth_eq_iff_index_eq [of "live_fds s" i j] by (simp add: talk_inv_def)

lemma notify_simps [simp]:
  "user_counter (notify connfd js s) = user_counter s" "pos (notify connfd js s) = pos s" "length (fds (notify connfd js s)) = length (fds s)"
  "received (notify connfd js s) = received s"
  by (induction js arbitrary: s) (auto simp: Let_def)

lemma notify_fd [simp]: "map fd (fds (notify connfd js s)) = map fd (fds s)"
proof (induction js arbitrary: s)
  case (Cons j js)
  have "map fd ((fds s)[j := (fds s ! j)\<lparr>events := e\<rparr>]) = map fd (fds s)" for e
    by (cases "j < length (fds s)") (simp_all add: map_update list_update_same_conv list_update_beyond)
  then show ?case using Cons by (simp add: Let_def)
qed simp

lemma notify_0: "0 \<notin> set js \<Longrightarrow> fds (notify connfd js s) ! 0 = fds s ! 0"
  by (induction js arbitrary: s) (auto simp: Let_def)

lemma live_fds_eq: "map fd (fds t) = map fd (fds s) \<Longrightarrow> user_counter t = user_counter s \<Longrightarrow> live_fds t = live_fds s"
  by (simp add: live_fds_def take_map [symmetric])

lemma talk_inv_keep:
  assumes "talk_inv listenfd s" "map fd (fds t) = map fd (fds s)" "user_counter t = user_counter s"
    "fd (fds t ! 0) = fd (fds s ! 0)" "events (fds t ! 0) = events (fds s ! 0)" "revents (fds t ! 0) = revents (fds s ! 0)"
  shows "talk_inv listenfd t"
  using assms live_fds_eq [OF assms(2,3)] map_eq_imp_length_eq [OF assms(2)] by (simp add: talk_inv_def flag_def)

lemma drop_user_inv:
  assumes "talk_inv listenfd s" "0 < i" "i \<le> user_counter s"
  shows "\<exists>t. drop_user s i = Some t \<and> talk_inv listenfd t \<and> pos t = pos s"
proof -
  let ?n = "user_counter s"
  let ?t = "s\<lparr>users := (users s)(fd (fds s ! i) := users s (fd (fds s ! ?n))), fds := (fds s)[i := fds s ! ?n], user_counter := ?n - 1\<rparr>"
  have d: "drop_user s i = Some ?t" using live_fd_nth [OF assms(1,3)] live_fd_nth [OF assms(1) order_refl] by (simp add: drop_user_def Let_def)
  have n: "?n < length (fds s)" "Suc (?n - 1) = ?n" using assms by (auto simp: talk_inv_def)
  have l: "live_fds ?t = take ?n ((map fd (fds s))[i := map fd (fds s) ! ?n])"
    using n by (simp add: live_fds_def take_map [symmetric] map_update)
  have "distinct (take (?n + 1) (map fd (fds s)))" using assms(1) by (simp add: talk_inv_def live_fds_def take_map)
  from distinct_replace [OF this assms(3)] have "distinct (live_fds ?t)" "set (live_fds ?t) \<subseteq> set (live_fds s)"
    using n unfolding l by (simp_all add: live_fds_def take_map)
  then have "talk_inv listenfd ?t" using assms by (auto simp: talk_inv_def)
  then show ?thesis using d by auto
qed


lemma set_buf_simps [simp]: "fds (set_buf s d b) = fds s" "user_counter (set_buf s d b) = user_counter s" "pos (set_buf s d b) = pos s"
    "received (set_buf s d b) = received s"
  by (simp_all add: set_buf_def)

lemma talk_inv_set_buf [simp]: "talk_inv listenfd (set_buf s d b) = talk_inv listenfd s"
  by (simp add: talk_inv_def live_fds_def)

lemma on_data_inv:
  assumes "talk_inv listenfd s" "0 < i" "i \<le> user_counter s"
  shows "\<exists>k t. on_data s i r = Some (k, t) \<and> talk_inv listenfd t"
proof (cases r)
  case (Inl again)
  let ?s = "set_buf s (fd (fds s ! i)) (replicate TALK_BUFFER 0)"
  obtain t where "drop_user ?s i = Some t" "talk_inv listenfd t" using drop_user_inv [of listenfd ?s i] assms by auto
  then show ?thesis using Inl live_fd_nth [OF assms(1,3)] assms(1) by (cases again) (auto simp: on_data_def Let_def)
next
  case (Inr bs)
  have "talk_inv listenfd (notify c [1..<n] u)" if "talk_inv listenfd u" for c n u
    using talk_inv_keep [OF that, of "notify c [1..<n] u"] notify_0 [of "[1..<n]" c u] by simp
  then show ?thesis using Inr live_fd_nth [OF assms(1,3)] assms(1) by (simp add: on_data_def Let_def del: upt_Suc)
qed


lemma talk_inv_pos [simp]: "talk_inv listenfd (s\<lparr>pos := k\<rparr>) = talk_inv listenfd s"
  by (simp add: talk_inv_def live_fds_def)






subsection \<open>Properties\<close>


text \<open>What a message does to the state: every other user is told to write it.\<close>

lemma notify_users:
  assumes "talk_inv listenfd s" "i \<le> user_counter s" "connfd = fd (fds s ! i)"
  shows "set js \<subseteq> {1..user_counter s} \<Longrightarrow> distinct js \<Longrightarrow> map fd (fds t) = map fd (fds s) \<Longrightarrow>
    users (notify connfd js t) d = (if \<exists>j \<in> set js. j \<noteq> i \<and> d = fd (fds s ! j) then (users t d)\<lparr>write_buf := Some connfd\<rparr> else users t d)"
proof (induction js arbitrary: t)
  case (Cons j js)
  have j: "j \<le> user_counter s" "j < length (fds s)" using Cons.prems(1) live_fd_nth(4) [OF assms(1), of j] by auto
  have fj: "fd (fds t ! j) = fd (fds s ! j)" using Cons.prems(3) j(2) by (metis length_map nth_map)
  show ?case
  proof (cases "j = i")
    case True
    then show ?thesis using Cons fj assms(3) by simp
  next
    case False
    let ?t = "t\<lparr>fds := (fds t)[j := (fds t ! j)\<lparr>events := (events (fds t ! j) OR NOT POLLIN) OR POLLOUT\<rparr>],
      users := (users t)(fd (fds t ! j) := (users t (fd (fds t ! j)))\<lparr>write_buf := Some connfd\<rparr>)\<rparr>"
    have ne: "fd (fds t ! j) \<noteq> connfd" using live_distinct [OF assms(1) j(1) assms(2)] False fj assms(3) by simp
    have "map fd (fds ?t) = map fd (fds s)"
      using Cons.prems(3) map_eq_imp_length_eq [OF Cons.prems(3)] j(2) fj by (simp add: map_update list_update_same_conv)
    from Cons.IH [OF _ _ this] have u: "users (notify connfd js ?t) d =
        (if \<exists>j \<in> set js. j \<noteq> i \<and> d = fd (fds s ! j) then (users ?t d)\<lparr>write_buf := Some connfd\<rparr> else users ?t d)" using Cons.prems by simp
    have "notify connfd (j # js) t = notify connfd js ?t" using ne by (simp add: Let_def)
    then show ?thesis using u fj False by (simp only:) auto
  qed
qed simp

lemma on_data_users:
  assumes "talk_inv listenfd s" "1 \<le> i" "i \<le> user_counter s" "bs \<noteq> []" "length bs < TALK_BUFFER"
  shows "\<exists>t. on_data s i (Inr bs) = Some (i + 1, t) \<and> received t = received s \<and> user_counter t = user_counter s \<and> map fd (fds t) = map fd (fds s) \<and>
    (\<forall>j. 1 \<le> j \<and> j \<le> user_counter s \<and> j \<noteq> i \<longrightarrow> write_buf (users t (fd (fds s ! j))) = Some (fd (fds s ! i)) \<and>
      buf (users t (fd (fds s ! j))) = buf (users s (fd (fds s ! j)))) \<and>
    users t (fd (fds s ! i)) = (users s (fd (fds s ! i)))\<lparr>buf := bs @ replicate (TALK_BUFFER - length bs) 0\<rparr>"
proof -
  let ?c = "fd (fds s ! i)" and ?b = "overwrite (replicate TALK_BUFFER 0) 0 (take (TALK_BUFFER - 1) bs)"
  let ?s = "set_buf s ?c ?b"
  let ?t = "notify ?c [1..<user_counter s + 1] ?s"
  have b: "?b = bs @ replicate (TALK_BUFFER - length bs) 0" using assms(5) by (simp add: overwrite_def)
  have t: "on_data s i (Inr bs) = Some (i + 1, ?t)" using live_fd_nth(3) [OF assms(1,3)] assms(4) by (simp add: on_data_def Let_def del: upt_Suc)
  have sub: "set [1..<user_counter s + 1] \<subseteq> {1..user_counter s}" and m: "map fd (fds ?s) = map fd (fds s)" by auto
  have u: "users ?t d = (if \<exists>j \<in> set [1..<user_counter s + 1]. j \<noteq> i \<and> d = fd (fds s ! j) then (users ?s d)\<lparr>write_buf := Some ?c\<rparr> else users ?s d)" for d
    using notify_users [OF assms(1,3) refl sub distinct_upt m] .
  have "write_buf (users ?t (fd (fds s ! j))) = Some ?c \<and> buf (users ?t (fd (fds s ! j))) = buf (users s (fd (fds s ! j)))"
    if "1 \<le> j" "j \<le> user_counter s" "j \<noteq> i" for j
  proof -
    have "\<exists>j' \<in> set [1..<user_counter s + 1]. j' \<noteq> i \<and> fd (fds s ! j) = fd (fds s ! j')" using that by (intro bexI [of _ j]) auto
    moreover have "fd (fds s ! j) \<noteq> ?c" using live_distinct [OF assms(1) that(2) assms(3)] that(3) by simp
    ultimately show ?thesis unfolding u by (simp only: if_True) (simp add: set_buf_def)
  qed
  moreover have "users ?t ?c = (users s ?c)\<lparr>buf := bs @ replicate (TALK_BUFFER - length bs) 0\<rparr>"
  proof -
    have "\<not> (\<exists>j \<in> set [1..<user_counter s + 1]. j \<noteq> i \<and> ?c = fd (fds s ! j))"
      using live_distinct [OF assms(1,3)] by fastforce
    then show ?thesis unfolding u by (simp only: if_False) (simp add: set_buf_def b [simplified])
  qed
  ultimately show ?thesis using t by (intro exI [of _ ?t] conjI) (simp_all del: upt_Suc)
qed

lemma padded_string: "0 \<notin> set bs \<Longrightarrow> length bs < TALK_BUFFER \<Longrightarrow> str_of (bs @ replicate (TALK_BUFFER - length bs) 0) = bs"
  using str_of_nul [of bs "replicate (TALK_BUFFER - length bs - 1) 0"]
  by (cases "TALK_BUFFER - length bs") (auto simp: str_of_def)

lemma fd_at: "map fd xs = map fd ys \<Longrightarrow> j < length ys \<Longrightarrow> fd (xs ! j) = fd (ys ! j)"
  by (metis length_map nth_map)

text \<open>Chat on \<open>poll\<close>: a message of a user that leaves afterwards and is not the last one in the array is lost: its
  buffer is overwritten with that of the last user, and the users that are still to write the message send
  what the last user has sent earlier.  Without the departure they send the message.\<close>

theorem departed_message_replaced:
  assumes "talk_inv listenfd s" "1 \<le> i" "i < user_counter s" "bs \<noteq> []" "length bs < 64" "0 \<notin> set bs"
    and "1 \<le> j" "j < user_counter s" "j \<noteq> i"
  shows "\<exists>s1 s2 t t'. on_data s i (Inr bs) = Some (i + 1, s1) \<and> drop_user s1 i = Some s2 \<and>
    on_writable s1 j = Some t \<and> received t (fd (fds s ! j)) = received s (fd (fds s ! j)) @ [bs] \<and>
    on_writable s2 j = Some t' \<and> received t' (fd (fds s ! j)) = received s (fd (fds s ! j)) @ [str_of (buf (users s (fd (fds s ! user_counter s))))]"
proof -
  let ?n = "user_counter s"
  let ?c = "fd (fds s ! i)" and ?d = "fd (fds s ! j)" and ?e = "fd (fds s ! ?n)"
  have l: "length bs < TALK_BUFFER" "i \<le> ?n" "j \<le> ?n" using assms by (auto simp: TALK_BUFFER_def)
  obtain s1 where s1: "on_data s i (Inr bs) = Some (i + 1, s1)" "received s1 = received s" "user_counter s1 = ?n" "map fd (fds s1) = map fd (fds s)"
      "\<forall>j. 1 \<le> j \<and> j \<le> ?n \<and> j \<noteq> i \<longrightarrow> write_buf (users s1 (fd (fds s ! j))) = Some ?c \<and> buf (users s1 (fd (fds s ! j))) = buf (users s (fd (fds s ! j)))"
      "users s1 ?c = (users s ?c)\<lparr>buf := bs @ replicate (TALK_BUFFER - length bs) 0\<rparr>"
    using on_data_users [OF assms(1,2) l(2) assms(4) l(1)] by blast
  have "talk_inv listenfd s1" using on_data_inv [OF assms(1) _ l(2), of "Inr bs"] assms(2) s1(1) by simp
  then obtain s2 where s2: "drop_user s1 i = Some s2" using drop_user_inv [of listenfd s1 i] assms(2) l(2) s1(3) by auto
  have f: "fd (fds s1 ! i) = ?c" "fd (fds s1 ! j) = ?d" "fd (fds s1 ! ?n) = ?e"
    using fd_at [OF s1(4)] live_fd_nth(4) [OF assms(1)] l by auto
  have ok: "fd_ok ?d" "?c \<noteq> ?d" "?c \<noteq> ?e" "?d \<noteq> ?e"
    using live_fd_nth(3) [OF assms(1) l(3)] live_distinct [OF assms(1)] l assms(3,8,9) by auto
  have u2: "users s2 = (users s1)(?c := users s1 ?e)" "fds s2 ! j = fds s1 ! j" "received s2 = received s"
    using s2 s1(2,3) f assms(9) by (auto simp: drop_user_def Let_def split: if_splits)
  have w: "write_buf (users s1 ?d) = Some ?c" "buf (users s1 ?e) = buf (users s ?e)"
    using s1(5) [rule_format, of j] s1(5) [rule_format, of ?n] assms by auto
  have "\<exists>t. on_writable s1 j = Some t \<and> received t ?d = received s ?d @ [bs]"
    using w(1) f(2) ok(1) s1(2,6) padded_string [OF assms(6) l(1)] by (simp add: on_writable_def Let_def)
  moreover have "\<exists>t'. on_writable s2 j = Some t' \<and> received t' ?d = received s ?d @ [str_of (buf (users s ?e))]"
    using w f(2) ok u2 by (simp add: on_writable_def Let_def)
  ultimately show ?thesis using s1(1) s2 by blast
qed

text \<open>Two users and the first of them; the last one has sent \<open>old\<close> before.\<close>

definition talk_example :: talk where
  "talk_example = \<lparr>fds = [\<lparr>fd = 3, events = POLLIN OR POLLERR, revents = 0\<rparr>, \<lparr>fd = 4, events = POLLIN, revents = 0\<rparr>, \<lparr>fd = 5, events = POLLIN, revents = 0\<rparr>,
      \<lparr>fd = 6, events = POLLIN, revents = 0\<rparr>, \<lparr>fd = -1, events = 0, revents = 0\<rparr>, \<lparr>fd = -1, events = 0, revents = 0\<rparr>],
    user_counter = 3, users = (\<lambda>d. \<lparr>write_buf = None, buf = bytes ''old''\<rparr>), pos = 1, received = (\<lambda>d. [])\<rparr>"

lemma talk_example_inv: "talk_inv 3 talk_example"
  by (simp add: talk_inv_def talk_example_def USER_LIMIT_def live_fds_def fd_ok_def FD_LIMIT_def flag_def)

theorem departed_message_replaced_witness:
  "\<exists>s1 s2 t'. on_data talk_example 1 (Inr (bytes ''new'')) = Some (1 + 1, s1) \<and> drop_user s1 1 = Some s2 \<and> on_writable s2 2 = Some t' \<and>
    received t' 5 = [bytes ''old'']"
  using departed_message_replaced [OF talk_example_inv, of 1 "bytes ''new''" 2]
  by (auto simp: talk_example_def bytes_def str_of_def)


end
