(* ===== verification/Shm_Chat.thy ===== *)
theory Shm_Chat
  imports Prelude
begin

text \<open>
  The chat server with a process per client and shared memory
  (\<open>network-programming/youshuang/13-4shm_talk_server.cpp\<close>): the tables of the parent process, the child processes
  with the slot of the shared memory each uses, and the pipes between them.  \<open>None\<close> is an access outside an array.
\<close>

definition USER_LIMIT :: nat where "USER_LIMIT = 5"
definition BUFFER_SIZE :: nat where "BUFFER_SIZE = 1024"
definition PROCESS_LIMIT :: nat where "PROCESS_LIMIT = 65536"

record client_data =
  connfd :: nat
  pid :: nat
  pipefd :: nat

text \<open>A child works for the connection \<open>link\<close>, reads the slot \<open>idx\<close> of the shared memory, and is at the other end of
  the pipe \<open>pipe\<close>.\<close>

record child =
  idx :: nat
  link :: nat
  pipe :: nat

text \<open>The parent's tables, then the rest of the system: the children that have not been waited for, the slots of the
  shared memory, the numbers under way in the pipes, and what has been sent to the clients.\<close>

record shm_server =
  users :: "client_data list"
  user_count :: nat
  sub_process :: "nat \<Rightarrow> int"
  watched :: "nat set"
  stop_server :: bool
  terminating :: bool
  children :: "nat \<Rightarrow> child option"
  share_mem :: "nat \<Rightarrow> byte list"
  to_parent :: "nat \<Rightarrow> nat list"
  to_child :: "nat \<Rightarrow> nat list"
  inbox :: "nat \<Rightarrow> byte list list"
  killed :: "nat list"

definition shm_start :: "client_data list \<Rightarrow> shm_server" where
  "shm_start junk = \<lparr>users = junk, user_count = 0, sub_process = (\<lambda>p. -1), watched = {}, stop_server = False, terminating = False,
     children = Map.empty, share_mem = (\<lambda>i. replicate BUFFER_SIZE 0), to_parent = (\<lambda>p. []), to_child = (\<lambda>p. []), inbox = (\<lambda>c. []), killed = []\<rparr>"

subsection \<open>The parent\<close>

text \<open>A new connection \<open>conn\<close> with the pipe \<open>pp\<close>; \<open>forked\<close> is the process of the child, \<open>None\<close> when \<open>fork\<close> fails.  The
  child inherits the number of users as its index.\<close>

definition on_connect :: "shm_server \<Rightarrow> nat \<Rightarrow> nat \<Rightarrow> nat option \<Rightarrow> shm_server option" where
  "on_connect s conn pp forked =
     (let n = user_count s
      in if n \<ge> USER_LIMIT then Some (s\<lparr>inbox := (inbox s)(conn := inbox s conn @ [bytes ''too many users'' @ [10]])\<rparr>)
         else if \<not> n < length (users s) then None
         else let s = s\<lparr>users := (users s)[n := (users s ! n)\<lparr>connfd := conn, pipefd := pp\<rparr>]\<rparr>
              in case forked of
                   None \<Rightarrow> Some s
                 | Some p \<Rightarrow>
                     if p < PROCESS_LIMIT
                     then Some (s\<lparr>children := (children s)(p \<mapsto> \<lparr>idx = n, link = conn, pipe = pp\<rparr>),
                            watched := insert pp (watched s), users := (users s)[n := (users s ! n)\<lparr>pid := p\<rparr>],
                            sub_process := (sub_process s)(p := int n), user_count := n + 1\<rparr>)
                     else None)"

text \<open>What the parent does for one process that \<open>waitpid\<close> returns.\<close>

definition reap :: "shm_server \<Rightarrow> nat \<Rightarrow> shm_server option" where
  "reap s p =
     (if \<not> p < PROCESS_LIMIT then None
      else let del_user = sub_process s p; s = s\<lparr>children := (children s)(p := None), sub_process := (sub_process s)(p := -1)\<rparr>
           in if del_user < 0 \<or> del_user > int USER_LIMIT then Some s
              else let d = nat del_user; n = user_count s - 1
                   in if user_count s = 0 \<or> \<not> d < length (users s) \<or> \<not> n < length (users s) \<or> \<not> pid (users s ! n) < PROCESS_LIMIT then None
                      else let s = s\<lparr>watched := watched s - {pipefd (users s ! d)}, user_count := n, users := (users s)[d := users s ! n]\<rparr>
                           in Some (s\<lparr>sub_process := (sub_process s)(pid (users s ! d) := del_user)\<rparr>))"

fun reap_all :: "shm_server \<Rightarrow> nat list \<Rightarrow> shm_server option" where
  "reap_all s [] = Some (if terminating s \<and> user_count s = 0 then s\<lparr>stop_server := True\<rparr> else s)"
| "reap_all s (p # ps) = (case reap s p of None \<Rightarrow> None | Some s \<Rightarrow> reap_all s ps)"

text \<open>\<open>SIGTERM\<close> and \<open>SIGINT\<close>.\<close>

definition on_terminate :: "shm_server \<Rightarrow> shm_server" where
  "on_terminate s =
     (if user_count s = 0 then s\<lparr>stop_server := True\<rparr>
      else s\<lparr>killed := killed s @ map pid (take (user_count s) (users s)), terminating := True\<rparr>)"

text \<open>A number that a child has written to its pipe goes to all other children.\<close>

fun forward :: "nat \<Rightarrow> nat \<Rightarrow> client_data list \<Rightarrow> (nat \<Rightarrow> nat list) \<Rightarrow> nat \<Rightarrow> nat list" where
  "forward sockfd k [] q = q"
| "forward sockfd k (u # us) q =
     (if pipefd u \<noteq> sockfd then forward sockfd k us (q(pipefd u := q (pipefd u) @ [k])) else forward sockfd k us q)"

definition on_pipe :: "shm_server \<Rightarrow> nat \<Rightarrow> shm_server" where
  "on_pipe s sockfd = (case to_parent s sockfd of
     [] \<Rightarrow> s
   | k # ks \<Rightarrow> s\<lparr>to_parent := (to_parent s)(sockfd := ks), to_child := forward sockfd k (take (user_count s) (users s)) (to_child s)\<rparr>)"

subsection \<open>The children\<close>

text \<open>\<open>run_child\<close>: data from the client, and a number from the parent.  \<open>None\<close> is an access outside the shared memory.\<close>

definition child_data :: "shm_server \<Rightarrow> nat \<Rightarrow> byte list \<Rightarrow> shm_server option" where
  "child_data s p bs = (case children s p of
     None \<Rightarrow> Some s
   | Some c \<Rightarrow>
       if \<not> idx c < USER_LIMIT then None
       else Some (s\<lparr>share_mem := (share_mem s)(idx c := overwrite (replicate BUFFER_SIZE 0) 0 (take (BUFFER_SIZE - 1) bs)),
         to_parent := (if bs = [] then to_parent s else (to_parent s)(pipe c := to_parent s (pipe c) @ [idx c]))\<rparr>))"

definition child_pipe :: "shm_server \<Rightarrow> nat \<Rightarrow> shm_server option" where
  "child_pipe s p = (case children s p of
     None \<Rightarrow> Some s
   | Some c \<Rightarrow> (case to_child s (pipe c) of
       [] \<Rightarrow> Some s
     | k # ks \<Rightarrow>
         if \<not> k < USER_LIMIT then None
         else Some (s\<lparr>to_child := (to_child s)(pipe c := ks), inbox := (inbox s)(link c := inbox s (link c) @ [share_mem s k])\<rparr>)))"

subsection \<open>The system\<close>

text \<open>A new process has a number below \<open>pid_max\<close> (\<open>/proc/sys/kernel/pid_max\<close>, 32768 on small machines and up to \<open>2 ^ 22\<close>) that no child
  has, and a new pipe is not one in use; only children are waited for.  A step whose function is \<open>None\<close> is undefined behaviour: the
  system has no state after it.\<close>

definition new_process :: "nat \<Rightarrow> shm_server \<Rightarrow> nat option \<Rightarrow> bool" where
  "new_process pid_max s forked \<longleftrightarrow> (case forked of None \<Rightarrow> True | Some p \<Rightarrow> p < pid_max \<and> children s p = None)"

inductive shm_step :: "nat \<Rightarrow> shm_server \<Rightarrow> shm_server \<Rightarrow> bool" for pid_max where
  step_connect: "new_process pid_max s forked \<Longrightarrow> pp \<notin> pipefd ` set (take (user_count s) (users s)) \<Longrightarrow>
    on_connect s conn pp forked = Some t \<Longrightarrow> shm_step pid_max s t"
| step_reap: "distinct ps \<Longrightarrow> set ps \<subseteq> dom (children s) \<Longrightarrow> reap_all s ps = Some t \<Longrightarrow> shm_step pid_max s t"
| step_terminate: "shm_step pid_max s (on_terminate s)"
| step_pipe: "shm_step pid_max s (on_pipe s sockfd)"
| step_child_data: "child_data s p bs = Some t \<Longrightarrow> shm_step pid_max s t"
| step_child_pipe: "child_pipe s p = Some t \<Longrightarrow> shm_step pid_max s t"

subsection \<open>The invariant\<close>

definition current :: "shm_server \<Rightarrow> client_data list" where
  "current s = take (user_count s) (users s)"

definition tables_ok :: "shm_server \<Rightarrow> bool" where
  "tables_ok s \<longleftrightarrow> length (users s) = USER_LIMIT + 1 \<and> user_count s \<le> USER_LIMIT \<and> distinct (map pid (current s)) \<and>
     set (map pid (current s)) = dom (children s) \<and> (\<forall>p \<in> dom (children s). p < PROCESS_LIMIT) \<and>
     (\<forall>i < user_count s. sub_process s (pid (users s ! i)) = int i)"

definition slots_ok :: "shm_server \<Rightarrow> bool" where
  "slots_ok s \<longleftrightarrow> (\<forall>p c. children s p = Some c \<longrightarrow> idx c < USER_LIMIT) \<and>
     (\<forall>q. \<forall>k \<in> set (to_parent s q). k < USER_LIMIT) \<and> (\<forall>q. \<forall>k \<in> set (to_child s q). k < USER_LIMIT)"

definition shm_inv :: "shm_server \<Rightarrow> bool" where
  "shm_inv s \<longleftrightarrow> tables_ok s \<and> slots_ok s"

lemma current_nth: "tables_ok s \<Longrightarrow> i < user_count s \<Longrightarrow> current s ! i = users s ! i \<and> i < length (current s) \<and> i < length (users s)"
  by (auto simp: tables_ok_def current_def)

lemma tables_ok_cong:
  "tables_ok s \<Longrightarrow> users t = users s \<Longrightarrow> user_count t = user_count s \<Longrightarrow> children t = children s \<Longrightarrow> sub_process t = sub_process s \<Longrightarrow> tables_ok t"
  by (simp add: tables_ok_def current_def)

text \<open>The user of a process is found through the table.\<close>

lemma user_of:
  assumes "tables_ok s" "p \<in> dom (children s)"
  obtains i where "i < user_count s" "pid (users s ! i) = p" "sub_process s p = int i"
proof -
  have "p \<in> set (map pid (current s))" using assms by (simp add: tables_ok_def)
  then obtain i where "i < length (current s)" "pid (current s ! i) = p" by (auto simp: in_set_conv_nth)
  then have "i < user_count s" "pid (users s ! i) = p" by (auto simp: current_def)
  then show ?thesis using that assms(1) by (auto simp: tables_ok_def)
qed

lemma reap_ok:
  assumes "tables_ok s" "p \<in> dom (children s)"
  shows "\<exists>t. reap s p = Some t \<and> tables_ok t \<and> children t = (children s)(p := None) \<and> user_count t = user_count s - 1 \<and>
    to_parent t = to_parent s \<and> to_child t = to_child s"
proof -
  obtain i where i: "i < user_count s" "pid (users s ! i) = p" "sub_process s p = int i" using user_of [OF assms] .
  let ?n = "user_count s - 1"
  let ?us = "(users s)[i := users s ! ?n]"
  let ?t = "s\<lparr>children := (children s)(p := None), watched := watched s - {pipefd (users s ! i)}, user_count := ?n, users := ?us,
    sub_process := ((sub_process s)(p := -1))(pid (?us ! i) := int i)\<rparr>"
  have n: "?n < user_count s" "i \<le> ?n" "?n + 1 = user_count s" "?n < length (users s)" "i < length (users s)" "i < USER_LIMIT" "p < PROCESS_LIMIT"
    using i(1) assms by (auto simp: tables_ok_def)
  have "pid (users s ! ?n) \<in> dom (children s)" using assms(1) current_nth [OF assms(1) n(1)] by (metis (no_types) length_map nth_map nth_mem tables_ok_def)
  then have "pid (users s ! ?n) < PROCESS_LIMIT" using assms(1) by (simp add: tables_ok_def)
  then have t: "reap s p = Some ?t" using i n by (simp add: reap_def Let_def)
  let ?ps = "map pid (users s)"
  have d: "distinct (take (?n + 1) ?ps)" "set (take (?n + 1) ?ps) = dom (children s)"
    using assms(1) n(3) by (simp_all add: tables_ok_def current_def take_map)
  have "map pid (current ?t) = take ?n (?ps[i := ?ps ! ?n])" using n(4) by (simp add: current_def take_map [symmetric] map_update)
  then have c: "distinct (map pid (current ?t))" "set (map pid (current ?t)) = dom (children s) - {p}"
    using distinct_replace [OF d(1) n(2)] n(4,5) d(2) i(2) by simp_all
  have "sub_process ?t (pid (?us ! j)) = int j" if "j < ?n" for j
  proof (cases "j = i")
    case True
    then show ?thesis by simp
  next
    case False
    have "pid (users s ! j) \<noteq> pid (users s ! k)" if "k < user_count s" "k \<noteq> j" for k
      using assms(1) that \<open>j < ?n\<close> current_nth [OF assms(1), of j] current_nth [OF assms(1), of k] nth_eq_iff_index_eq [of "map pid (current s)" j k]
      by (simp add: tables_ok_def)
    then have "pid (users s ! j) \<noteq> p" "pid (users s ! j) \<noteq> pid (users s ! ?n)" using i(1,2) False that n(1) by auto
    then show ?thesis using False that assms(1) n(5) by (simp add: tables_ok_def)
  qed
  then have "tables_ok ?t" using assms(1) c n(1) by (auto simp: tables_ok_def)
  then show ?thesis using t by simp
qed

lemma reap_all_ok:
  "tables_ok s \<Longrightarrow> distinct ps \<Longrightarrow> set ps \<subseteq> dom (children s) \<Longrightarrow>
   \<exists>t. reap_all s ps = Some t \<and> tables_ok t \<and> children t = (children s) |` (- set ps) \<and> to_parent t = to_parent s \<and> to_child t = to_child s"
proof (induction ps arbitrary: s)
  case Nil
  then show ?case by (auto intro: tables_ok_cong)
next
  case (Cons p ps)
  obtain t where t: "reap s p = Some t" "tables_ok t" "children t = (children s)(p := None)" "to_parent t = to_parent s" "to_child t = to_child s"
    using reap_ok [OF Cons.prems(1), of p] Cons.prems(3) by auto
  have "set ps \<subseteq> dom (children t)" using Cons.prems t(3) by auto
  from Cons.IH [OF t(2) _ this] obtain u where u: "reap_all t ps = Some u" "tables_ok u" "children u = (children t) |` (- set ps)"
      "to_parent u = to_parent s" "to_child u = to_child s" using Cons.prems(2) t(4,5) by auto
  have "children u = (children s) |` (- set (p # ps))" unfolding u(3) t(3) by (auto simp: restrict_map_def fun_eq_iff)
  then show ?case using t(1) u by simp
qed

text \<open>When there is room for a client, only a process number beyond the table \<open>sub_process\<close>, which the code does not check, is out of
  bounds.\<close>

lemma connect_bounds:
  assumes "tables_ok s"
  shows "on_connect s conn pp forked = None \<longleftrightarrow> user_count s < USER_LIMIT \<and> (\<exists>p. forked = Some p \<and> PROCESS_LIMIT \<le> p)"
  using assms by (auto simp: on_connect_def Let_def tables_ok_def split: option.splits)

lemma connect_ok:
  assumes "tables_ok s" "\<And>p. forked = Some p \<Longrightarrow> children s p = None \<and> p < PROCESS_LIMIT"
  shows "\<exists>t. on_connect s conn pp forked = Some t \<and> tables_ok t \<and> to_parent t = to_parent s \<and> to_child t = to_child s \<and>
    (\<forall>p c. children t p = Some c \<longrightarrow> children s p = Some c \<or> idx c < USER_LIMIT)"
proof (cases "user_count s \<ge> USER_LIMIT")
  case True
  then show ?thesis using assms(1) by (auto simp: on_connect_def intro: tables_ok_cong)
next
  case False
  let ?n = "user_count s"
  have n: "?n < length (users s)" "?n < USER_LIMIT" using assms(1) False by (auto simp: tables_ok_def)
  show ?thesis
  proof (cases forked)
    case None
    then have "on_connect s conn pp forked = Some (s\<lparr>users := (users s)[?n := (users s ! ?n)\<lparr>connfd := conn, pipefd := pp\<rparr>]\<rparr>)"
      using n by (simp add: on_connect_def Let_def)
    then show ?thesis using assms(1) by (auto simp: tables_ok_def current_def)
  next
    case (Some p)
    let ?u = "(users s ! ?n)\<lparr>connfd := conn, pipefd := pp, pid := p\<rparr>"
    let ?t = "s\<lparr>users := (users s)[?n := ?u], children := (children s)(p \<mapsto> \<lparr>idx = ?n, link = conn, pipe = pp\<rparr>),
      watched := insert pp (watched s), sub_process := (sub_process s)(p := int ?n), user_count := ?n + 1\<rparr>"
    have p: "children s p = None" "p < PROCESS_LIMIT" using assms(2) Some by auto
    have t: "on_connect s conn pp forked = Some ?t" using n p(2) Some by (simp add: on_connect_def Let_def)
    have c: "current ?t = current s @ [?u]" using n(1) by (simp add: current_def take_Suc_conv_app_nth)
    have "pid (users s ! i) \<noteq> p" if "i < ?n" for i
      using current_nth [OF assms(1) that] assms(1) p(1) by (metis (no_types) domIff length_map nth_map nth_mem tables_ok_def)
    moreover have "distinct (map pid (current s @ [?u]))" "set (map pid (current s @ [?u])) = dom (children ?t)"
      using assms(1) p(1) by (auto simp: tables_ok_def)
    ultimately have "tables_ok ?t" unfolding tables_ok_def c using assms(1) n p(2) by (auto simp: tables_ok_def less_Suc_eq nth_list_update)
    then show ?thesis using t n(2) by auto
  qed
qed

lemma forward_spec:
  "distinct (map pipefd us) \<Longrightarrow> forward sockfd k us q r = (if r \<noteq> sockfd \<and> r \<in> pipefd ` set us then q r @ [k] else q r)"
  by (induction us arbitrary: q) auto

lemma forward_bound: "(\<And>r x. x \<in> set (q r) \<Longrightarrow> x < b) \<Longrightarrow> k < b \<Longrightarrow> x \<in> set (forward sockfd k us q r) \<Longrightarrow> x < b"
proof (induction us arbitrary: q)
  case (Cons u us)
  show ?case
  proof (cases "pipefd u = sockfd")
    case True
    then have "x \<in> set (forward sockfd k us q r)" using Cons.prems(3) by simp
    then show ?thesis using Cons.IH [of q] Cons.prems(1,2) by blast
  next
    case False
    let ?q = "q(pipefd u := q (pipefd u) @ [k])"
    have q: "x < b" if "x \<in> set (?q r)" for r x using that Cons.prems(1,2) by (auto split: if_splits)
    have "x \<in> set (forward sockfd k us ?q r)" using Cons.prems(3) False by simp
    then show ?thesis using Cons.IH [of ?q] q Cons.prems(2) by blast
  qed
qed simp

lemma shm_step_inv: "shm_step pid_max s t \<Longrightarrow> shm_inv s \<Longrightarrow> shm_inv t"
proof (induction rule: shm_step.induct)
  case (step_connect s forked pp conn t)
  show ?case
  proof (cases "user_count s < USER_LIMIT")
    case True
    then have "children s p = None \<and> p < PROCESS_LIMIT" if "forked = Some p" for p
      using that step_connect connect_bounds [of s conn pp forked] by (force simp: shm_inv_def new_process_def)
    then show ?thesis using step_connect connect_ok [of s forked conn pp] by (fastforce simp: shm_inv_def slots_ok_def)
  next
    case False
    then have "tables_ok t" "slots_ok t"
      using step_connect tables_ok_cong [of s t] by (auto simp: shm_inv_def on_connect_def slots_ok_def)
    then show ?thesis by (simp add: shm_inv_def)
  qed
next
  case (step_reap ps s t)
  then show ?case using reap_all_ok [of s ps] by (auto simp: shm_inv_def slots_ok_def restrict_map_def split: if_splits)
next
  case (step_terminate s)
  have "tables_ok (on_terminate s)" using tables_ok_cong [of s "on_terminate s"] step_terminate by (simp add: shm_inv_def on_terminate_def)
  then show ?case using step_terminate by (simp add: shm_inv_def slots_ok_def on_terminate_def)
next
  case (step_pipe s sockfd)
  have "tables_ok (on_pipe s sockfd)" using tables_ok_cong [of s "on_pipe s sockfd"] step_pipe by (simp add: shm_inv_def on_pipe_def split: list.splits)
  moreover have "slots_ok (on_pipe s sockfd)"
  proof (cases "to_parent s sockfd")
    case Nil
    then show ?thesis using step_pipe by (simp add: shm_inv_def on_pipe_def)
  next
    case (Cons k ks)
    then have k: "k < USER_LIMIT" "\<forall>x \<in> set ks. x < USER_LIMIT" using step_pipe by (auto simp: shm_inv_def slots_ok_def dest!: spec [of _ sockfd])
    have "x < USER_LIMIT" if "x \<in> set (forward sockfd k (take (user_count s) (users s)) (to_child s) q)" for x q
      using forward_bound [OF _ k(1) that] step_pipe by (auto simp: shm_inv_def slots_ok_def)
    then show ?thesis using step_pipe Cons k(2) by (simp add: shm_inv_def slots_ok_def on_pipe_def)
  qed
  ultimately show ?case by (simp add: shm_inv_def)
next
  case (step_child_data s p bs t)
  have "tables_ok t" using tables_ok_cong [of s t] step_child_data by (auto simp: shm_inv_def child_data_def split: option.splits if_splits)
  moreover have "slots_ok t" using step_child_data by (auto simp: shm_inv_def slots_ok_def child_data_def split: option.splits if_splits)
  ultimately show ?case by (simp add: shm_inv_def)
next
  case (step_child_pipe s p t)
  have "tables_ok t" using tables_ok_cong [of s t] step_child_pipe by (auto simp: shm_inv_def child_pipe_def split: option.splits list.splits if_splits)
  moreover have "slots_ok t"
  proof (cases "children s p")
    case (Some c)
    then show ?thesis using step_child_pipe by (auto simp: shm_inv_def slots_ok_def child_pipe_def split: list.splits if_splits) (metis list.set_intros(2))
  qed (use step_child_pipe in \<open>simp add: shm_inv_def child_pipe_def\<close>)
  ultimately show ?case by (simp add: shm_inv_def)
qed

definition shm_init :: "shm_server \<Rightarrow> bool" where
  "shm_init s \<longleftrightarrow> (\<exists>junk. length junk = USER_LIMIT + 1 \<and> s = shm_start junk)"

interpretation shm: invariant_system shm_init "shm_step pid_max" shm_inv for pid_max
proof
  show "shm_init s \<Longrightarrow> shm_inv s" for s by (auto simp: shm_init_def shm_inv_def tables_ok_def slots_ok_def shm_start_def current_def)
  show "shm_inv s \<Longrightarrow> shm_step pid_max s t \<Longrightarrow> shm_inv t" for s t using shm_step_inv by blast
qed

subsection \<open>Properties\<close>

text \<open>C22. Chat with processes: in every reachable state the table \<open>sub_process\<close> gives for every child process its place in
  \<open>users\<close>, whatever the order in which clients come and go, and neither waiting for children nor their work touches anything
  outside the arrays.  A new client does not either as long as the process number of its child is below \<open>PROCESS_LIMIT\<close> (65536), the length
  of \<open>sub_process\<close>; with a larger number, which the kernel may give when \<open>pid_max\<close> is raised and which the code does not check, it
  does, unless the server is full.\<close>

theorem shm_tables_safe:
  assumes "reachable shm_init (shm_step pid_max) s"
  shows "user_count s \<le> 5 \<and> distinct (map pid (take (user_count s) (users s))) \<and>
    (\<forall>p \<in> dom (children s). \<exists>i < user_count s. pid (users s ! i) = p \<and> sub_process s p = int i) \<and>
    (\<forall>p \<in> dom (children s). reap s p \<noteq> None \<and> child_data s p bs \<noteq> None \<and> child_pipe s p \<noteq> None) \<and>
    (\<forall>conn pp forked. on_connect s conn pp forked = None \<longleftrightarrow> user_count s < 5 \<and> (\<exists>p. forked = Some p \<and> 65536 \<le> p))"
proof -
  have i: "tables_ok s" "slots_ok s" using shm.reachable_inv [OF assms] by (auto simp: shm_inv_def)
  have "child_data s p bs \<noteq> None" "child_pipe s p \<noteq> None" for p
    using i(2) by (auto simp: slots_ok_def child_data_def child_pipe_def split: option.splits list.splits) (metis list.set_intros(1))
  moreover have "\<exists>i < user_count s. pid (users s ! i) = p \<and> sub_process s p = int i" if "p \<in> dom (children s)" for p
    using user_of [OF i(1) that] by blast
  moreover have "reap s p \<noteq> None" if "p \<in> dom (children s)" for p using reap_ok [OF i(1) that] by auto
  moreover have "user_count s \<le> 5" "distinct (map pid (take (user_count s) (users s)))"
    using i(1) by (simp_all add: tables_ok_def current_def USER_LIMIT_def)
  moreover have "on_connect s conn pp forked = None \<longleftrightarrow> user_count s < 5 \<and> (\<exists>p. forked = Some p \<and> 65536 \<le> p)" for conn pp forked
    using connect_bounds [OF i(1), of conn pp forked] by (simp add: USER_LIMIT_def PROCESS_LIMIT_def)
  ultimately show ?thesis by blast
qed

subsection \<open>Two clients in one slot\<close>

lemma connect_child:
  assumes "tables_ok s" "user_count s < USER_LIMIT" "children s p = None" "p < PROCESS_LIMIT"
  shows "\<exists>t. on_connect s conn pp (Some p) = Some t \<and> children t = (children s)(p \<mapsto> \<lparr>idx = user_count s, link = conn, pipe = pp\<rparr>) \<and>
    user_count t = user_count s + 1"
  using assms by (auto simp: on_connect_def Let_def tables_ok_def)

text \<open>Chat with processes: when a client leaves, the child of the last one keeps its slot of the shared memory, but the
  next client to come is given the same slot: from then on the messages of the two overwrite each other.\<close>

theorem slots_collide:
  assumes "reachable shm_init (shm_step pid_max) s" "p \<in> dom (children s)" "children s q = Some c" "p \<noteq> q" "idx c + 1 = user_count s"
    and "children s r = None" "r < PROCESS_LIMIT"
  shows "\<exists>t u d. reap s p = Some t \<and> on_connect t conn pp (Some r) = Some u \<and> children u q = Some c \<and> children u r = Some d \<and>
    q \<noteq> r \<and> idx d = idx c"
proof -
  have s: "tables_ok s" using shm.reachable_inv [OF assms(1)] by (simp add: shm_inv_def)
  obtain t where t: "reap s p = Some t" "tables_ok t" "children t = (children s)(p := None)" "user_count t = user_count s - 1"
    using reap_ok [OF s assms(2)] by auto
  have "user_count t < USER_LIMIT" "children t r = None" using s t(3,4) assms(5,6) by (auto simp: tables_ok_def)
  from connect_child [OF t(2) this assms(7)] obtain u where
    "on_connect t conn pp (Some r) = Some u" "children u = (children t)(r \<mapsto> \<lparr>idx = user_count t, link = conn, pipe = pp\<rparr>)" by blast
  then show ?thesis using t assms(3-6) by auto
qed

text \<open>Two clients have come.\<close>

lemma two_clients:
  "\<exists>s. reachable shm_init (shm_step 32768) s \<and> user_count s = 2 \<and> children s = [100 \<mapsto> \<lparr>idx = 0, link = 10, pipe = 20\<rparr>, 101 \<mapsto> \<lparr>idx = 1, link = 11, pipe = 21\<rparr>]"
proof -
  let ?s0 = "shm_start (replicate (USER_LIMIT + 1) \<lparr>connfd = 0, pid = 0, pipefd = 0\<rparr>)"
  have r0: "reachable shm_init (shm_step 32768) ?s0" by (rule reach_init) (unfold shm_init_def, rule exI, rule conjI [OF _ refl], simp)
  have t0: "tables_ok ?s0" using shm.reachable_inv [OF r0] by (simp add: shm_inv_def)
  obtain s1 where s1: "on_connect ?s0 10 20 (Some 100) = Some s1" "children s1 = [100 \<mapsto> \<lparr>idx = 0, link = 10, pipe = 20\<rparr>]" "user_count s1 = 1"
    using connect_child [OF t0, of 100 10 20] by (auto simp: shm_start_def USER_LIMIT_def PROCESS_LIMIT_def)
  have r1: "reachable shm_init (shm_step 32768) s1" using reach_step [OF r0 step_connect [OF _ _ s1(1)]] by (simp add: shm_start_def new_process_def)
  have t1: "tables_ok s1" using shm.reachable_inv [OF r1] by (simp add: shm_inv_def)
  have p1: "pipefd ` set (take (user_count s1) (users s1)) = {20}"
    using s1(1) by (auto simp: on_connect_def shm_start_def USER_LIMIT_def PROCESS_LIMIT_def Let_def take_Suc_conv_app_nth)
  obtain s2 where s2: "on_connect s1 11 21 (Some 101) = Some s2" "children s2 = [100 \<mapsto> \<lparr>idx = 0, link = 10, pipe = 20\<rparr>, 101 \<mapsto> \<lparr>idx = 1, link = 11, pipe = 21\<rparr>]" "user_count s2 = 2"
    using connect_child [OF t1, of 101 11 21] s1(2,3) by (auto simp: USER_LIMIT_def PROCESS_LIMIT_def)
  have "reachable shm_init (shm_step 32768) s2" using reach_step [OF r1 step_connect [OF _ _ s2(1)]] s1(2) p1 by (simp add: new_process_def)
  then show ?thesis using s2 by blast
qed

theorem slots_collide_witness:
  "\<exists>s t u c d. reachable shm_init (shm_step 32768) s \<and> reap s 100 = Some t \<and> on_connect t 12 22 (Some 102) = Some u \<and>
     children u 101 = Some c \<and> children u 102 = Some d \<and> idx d = idx c"
proof -
  obtain s where s: "reachable shm_init (shm_step 32768) s" "user_count s = 2" "children s = [100 \<mapsto> \<lparr>idx = 0, link = 10, pipe = 20\<rparr>, 101 \<mapsto> \<lparr>idx = 1, link = 11, pipe = 21\<rparr>]"
    using two_clients by blast
  then show ?thesis using slots_collide [OF s(1), of 100 101 "\<lparr>idx = 1, link = 11, pipe = 21\<rparr>" 102 12 22] by (auto simp: PROCESS_LIMIT_def)
qed

theorem shm_tables_safe_witness:
  "\<exists>s. reachable shm_init (shm_step 32768) s \<and> user_count s = 2 \<and> sub_process s 101 < 2 \<and> reap s 100 \<noteq> None \<and>
     on_connect s 12 22 (Some 32767) \<noteq> None \<and> on_connect s 12 22 (Some 70000) = None"
proof -
  obtain s where s: "reachable shm_init (shm_step 32768) s" "user_count s = 2" "children s = [100 \<mapsto> \<lparr>idx = 0, link = 10, pipe = 20\<rparr>, 101 \<mapsto> \<lparr>idx = 1, link = 11, pipe = 21\<rparr>]"
    using two_clients by blast
  then have "100 \<in> dom (children s)" "101 \<in> dom (children s)" by auto
  then have "reap s 100 \<noteq> None" "\<exists>i < 2. sub_process s 101 = int i" using shm_tables_safe [OF s(1)] s(2) by (blast, metis)
  moreover have "on_connect s 12 22 (Some 32767) \<noteq> None" "on_connect s 12 22 (Some 70000) = None"
    using shm_tables_safe [OF s(1)] s(2) by simp_all
  ultimately show ?thesis using s by auto
qed

end
