(* ===== verification/Linked_Lists.thy ===== *)
theory Linked_Lists
  imports Prelude
begin

text \<open>
  Singly linked lists with a pointer to their last node: the list of
  \<open>c-data-struct-learnning/linklist/linkedlist.c\<close>, the class \<open>linked_list\<close> of \<open>c-plus-plus-basic/linklist\<close> and
  the class \<open>dictionary\<close> of \<open>c-plus-plus-basic/dictionary\<close>.  All three grow at the end; the locale \<open>growing_list\<close>
  is that contract.  Addresses are natural numbers, and \<open>None\<close> is an access through a null or dangling pointer.
\<close>

subsection \<open>Nodes\<close>

record 'a cell =
  nxt :: "nat option"
  val :: 'a

type_synonym 'a nodes = "nat \<Rightarrow> 'a cell option"

definition set_nxt :: "'a nodes \<Rightarrow> nat option \<Rightarrow> nat option \<Rightarrow> 'a nodes option" where
  "set_nxt m p n = do { a \<leftarrow> p; c \<leftarrow> m a; Some (m(a \<mapsto> c\<lparr>nxt := n\<rparr>)) }"

text \<open>The nodes from \<open>p\<close> to \<open>q\<close> with their values.\<close>

fun chain :: "'a nodes \<Rightarrow> nat option \<Rightarrow> (nat \<times> 'a) list \<Rightarrow> nat option \<Rightarrow> bool" where
  "chain m p [] q \<longleftrightarrow> p = q"
| "chain m p ((a, v) # xs) q \<longleftrightarrow> p = Some a \<and> (\<exists>n. m a = Some \<lparr>nxt = n, val = v\<rparr> \<and> chain m n xs q)"

record ('a, 'c) linked =
  mem :: "'a nodes"
  head :: "nat option"
  tail :: "nat option"
  count :: 'c

definition holds :: "('a, 'c) linked \<Rightarrow> (nat \<times> 'a) list \<Rightarrow> bool" where
  "holds l xs \<longleftrightarrow> chain (mem l) (head l) xs None \<and> distinct (map fst xs) \<and> tail l = (if xs = [] then None else Some (fst (last xs)))"

lemma cells_append: "chain m p (xs @ ys) q \<longleftrightarrow> (\<exists>r. chain m p xs r \<and> chain m r ys q)"
  by (induction m p xs q rule: chain.induct) auto

lemma cells_frame: "(\<And>x. x \<in> fst ` set xs \<Longrightarrow> m' x = m x) \<Longrightarrow> chain m' p xs q = chain m p xs q"
  by (induction m p xs q rule: chain.induct) auto

lemma chain_end:
  assumes "chain m p (xs @ [(a, v)]) q" "distinct (map fst (xs @ [(a, v)]))"
  shows "chain (m(a \<mapsto> \<lparr>nxt = q', val = v\<rparr>)) p (xs @ [(a, v)]) q'"
proof -
  from assms(1) have c: "chain m p xs (Some a)" by (auto simp: cells_append)
  have "chain (m(a \<mapsto> \<lparr>nxt = q', val = v\<rparr>)) p xs (Some a)" using c assms(2) by (subst cells_frame) auto
  then show ?thesis by (auto simp: cells_append)
qed

lemma chain_alloc: "chain m p xs q \<Longrightarrow> a \<in> fst ` set xs \<Longrightarrow> m a \<noteq> None"
  by (induction m p xs q rule: chain.induct) auto

subsection \<open>The contract\<close>

locale growing_list =
  fixes shows_list :: "'s \<Rightarrow> 'v list \<Rightarrow> bool"
    and fresh :: "'s \<Rightarrow> nat \<Rightarrow> bool"
    and push :: "'s \<Rightarrow> nat \<Rightarrow> 'v \<Rightarrow> 's option"
  assumes push_last: "shows_list s vs \<Longrightarrow> fresh s a \<Longrightarrow> \<exists>t. push s a v = Some t \<and> shows_list t (vs @ [v]) \<and> (\<forall>b. b \<noteq> a \<longrightarrow> fresh s b \<longrightarrow> fresh t b)"
begin

text \<open>Filling a list, as the constructors do, one fresh address for each element.\<close>

lemma push_all:
  "shows_list s vs \<Longrightarrow> distinct as \<Longrightarrow> \<forall>a \<in> set as. fresh s a \<Longrightarrow> length as = length ws \<Longrightarrow>
   \<exists>t. fold (\<lambda>(a, w) r. Option.bind r (\<lambda>s. push s a w)) (zip as ws) (Some s) = Some t \<and> shows_list t (vs @ ws)"
proof (induction as arbitrary: s vs ws)
  case (Cons a as)
  obtain w ws' where w: "ws = w # ws'" using Cons.prems(4) by (cases ws) auto
  obtain t where t: "push s a w = Some t" "shows_list t (vs @ [w])" "\<forall>b. b \<noteq> a \<longrightarrow> fresh s b \<longrightarrow> fresh t b"
    using push_last [OF Cons.prems(1), of a w] Cons.prems(3) by (meson list.set_intros(1))
  have "\<forall>b \<in> set as. fresh t b" using t(3) Cons.prems(2,3) by auto
  then obtain u where "fold (\<lambda>(a, w) r. Option.bind r (\<lambda>s. push s a w)) (zip as ws') (Some t) = Some u" "shows_list u ((vs @ [w]) @ ws')"
    using Cons.IH [OF t(2), of ws'] Cons.prems(2,4) w by auto
  then show ?case using t(1) w by simp
qed simp

end

subsection \<open>The list in C\<close>

definition list_start :: "'a nodes \<Rightarrow> 32 word \<Rightarrow> ('a, 32 word) linked" where
  "list_start m junk = \<lparr>mem = m, head = None, tail = None, count = junk\<rparr>"

text \<open>\<open>add_node\<close>; \<open>a\<close> is the address that \<open>malloc\<close> returns.\<close>

definition add_node :: "('a, 32 word) linked \<Rightarrow> nat \<Rightarrow> 'a \<Rightarrow> ('a, 32 word) linked option" where
  "add_node l a v = do {
     let m = (mem l)(a \<mapsto> \<lparr>nxt = None, val = v\<rparr>);
     l \<leftarrow> (case tail l of
        None \<Rightarrow> Some (l\<lparr>mem := m, tail := Some a, head := Some a\<rparr>)
      | Some t \<Rightarrow> do { m \<leftarrow> set_nxt m (tail l) (Some a); Some (l\<lparr>mem := m, tail := Some a\<rparr>) });
     Some (l\<lparr>count := count l + 1\<rparr>)
   }"

partial_function (option) remove_loop :: "'a \<Rightarrow> ('a, 32 word) linked \<Rightarrow> nat option \<Rightarrow> nat option \<Rightarrow> ('a, 32 word) linked option" where
  "remove_loop v l cursor prev = (case cursor of
     None \<Rightarrow> Some l
   | Some a \<Rightarrow> do {
       c \<leftarrow> mem l a;
       if val c = v then do {
         l \<leftarrow> (case prev of
            Some p \<Rightarrow> do { m \<leftarrow> set_nxt (mem l) prev (nxt c); Some (l\<lparr>mem := m\<rparr>) }
          | None \<Rightarrow> Some (l\<lparr>head := nxt c\<rparr>));
         let l = (if tail l = Some a then l\<lparr>tail := prev\<rparr> else l);
         Some (l\<lparr>count := count l - 1\<rparr>)
       } else remove_loop v l (nxt c) (Some a)
     })"

definition remove_node :: "'a \<Rightarrow> ('a, 32 word) linked \<Rightarrow> ('a, 32 word) linked option" where
  "remove_node v l = remove_loop v l (head l) None"

partial_function (option) iterate_loop :: "'a nodes \<Rightarrow> nat option \<Rightarrow> 'a list option" where
  "iterate_loop m cursor = (case cursor of
     None \<Rightarrow> Some []
   | Some a \<Rightarrow> do { c \<leftarrow> m a; vs \<leftarrow> iterate_loop m (nxt c); Some (val c # vs) })"

definition iterate_list :: "('a, 32 word) linked \<Rightarrow> 'a list option" where
  "iterate_list l = iterate_loop (mem l) (head l)"

subsection \<open>The list in C++\<close>

definition push_back :: "('a, 64 word) linked \<Rightarrow> nat \<Rightarrow> 'a \<Rightarrow> ('a, 64 word) linked option" where
  "push_back l p d = do {
     let m = (mem l)(p \<mapsto> \<lparr>nxt = None, val = d\<rparr>);
     l \<leftarrow> (case head l of
        None \<Rightarrow> Some (l\<lparr>mem := m, head := Some p\<rparr>)
      | Some h \<Rightarrow> do { m \<leftarrow> set_nxt m (tail l) (Some p); Some (l\<lparr>mem := m\<rparr>) });
     Some (l\<lparr>tail := Some p, count := count l + 1\<rparr>)
   }"

partial_function (option) clear_loop :: "'a nodes \<Rightarrow> nat option \<Rightarrow> 'a nodes option" where
  "clear_loop m first = (case first of
     None \<Rightarrow> Some m
   | Some p \<Rightarrow> do { c \<leftarrow> m p; clear_loop (m(p := None)) (nxt c) })"

definition clear_list :: "('a, 64 word) linked \<Rightarrow> ('a, 64 word) linked option" where
  "clear_list l = do { m \<leftarrow> clear_loop (mem l) (head l); Some (l\<lparr>mem := m, head := None, tail := None, count := 0\<rparr>) }"

text \<open>\<open>traverse\<close>: the callback has the value by reference, so it may change it, and has a state of its own.\<close>

partial_function (option) traverse_loop :: "('s \<Rightarrow> 'a \<Rightarrow> 's \<times> 'a) \<Rightarrow> 's \<Rightarrow> 'a nodes \<Rightarrow> nat option \<Rightarrow> ('s \<times> 'a nodes) option" where
  "traverse_loop af s m p = (case p of
     None \<Rightarrow> Some (s, m)
   | Some a \<Rightarrow> do {
       c \<leftarrow> m a;
       traverse_loop af (fst (af s (val c))) (m(a \<mapsto> c\<lparr>val := snd (af s (val c))\<rparr>)) (nxt c)
     })"

definition traverse :: "('s \<Rightarrow> 'a \<Rightarrow> 's \<times> 'a) \<Rightarrow> 's \<Rightarrow> ('a, 64 word) linked \<Rightarrow> ('s \<times> ('a, 64 word) linked) option" where
  "traverse af s l = do { (s, m) \<leftarrow> traverse_loop af s (mem l) (head l); Some (s, l\<lparr>mem := m\<rparr>) }"

definition list_fill :: "('a, 64 word) linked \<Rightarrow> (nat \<times> 'a) list \<Rightarrow> ('a, 64 word) linked option" where
  "list_fill l as = fold (\<lambda>(a, w) r. Option.bind r (\<lambda>s. push_back s a w)) as (Some l)"

subsection \<open>The dictionary\<close>

text \<open>An entry is the pair and the hash of its key; \<open>hash_fn\<close> is \<open>std::hash\<close>.\<close>

record entry =
  key :: string
  value_of :: "32 word"
  hash :: "64 word"

definition dict_push_back :: "(string \<Rightarrow> 64 word) \<Rightarrow> (entry, 64 word) linked \<Rightarrow> nat \<Rightarrow> string \<times> 32 word \<Rightarrow> (entry, 64 word) linked option" where
  "dict_push_back hash_fn l p d = push_back l p \<lparr>key = fst d, value_of = snd d, hash = hash_fn (fst d)\<rparr>"

text \<open>\<open>operator[]\<close>: the address of the node whose value is returned; \<open>Some None\<close> is the exception.\<close>

partial_function (option) lookup_loop :: "64 word \<Rightarrow> entry nodes \<Rightarrow> nat option \<Rightarrow> nat option option" where
  "lookup_loop h m p = (case p of
     None \<Rightarrow> Some None
   | Some a \<Rightarrow> do { c \<leftarrow> m a; if h = hash (val c) then Some (Some a) else lookup_loop h m (nxt c) })"

definition dict_index :: "(string \<Rightarrow> 64 word) \<Rightarrow> (entry, 64 word) linked \<Rightarrow> string \<Rightarrow> nat option option" where
  "dict_index hash_fn l k = lookup_loop (hash_fn k) (mem l) (head l)"

subsection \<open>Adding\<close>

lemma holds_cong: "holds l xs \<Longrightarrow> mem l' = mem l \<Longrightarrow> head l' = head l \<Longrightarrow> tail l' = tail l \<Longrightarrow> holds l' xs"
  by (simp add: holds_def)

text \<open>A new node at the end: the last node points to it.\<close>

lemma chain_snoc:
  assumes "chain m p xs None" "distinct (map fst xs)" "a \<notin> fst ` set xs" "xs \<noteq> []"
  shows "\<exists>m'. set_nxt (m(a \<mapsto> \<lparr>nxt = None, val = v\<rparr>)) (Some (fst (last xs))) (Some a) = Some m' \<and> chain m' p (xs @ [(a, v)]) None \<and>
    (\<forall>b. b \<noteq> a \<longrightarrow> m b = None \<longrightarrow> m' b = None)"
proof -
  obtain ys t w where xs: "xs = ys @ [(t, w)]" using assms(4) by (cases xs rule: rev_cases) auto
  let ?m = "m(a \<mapsto> \<lparr>nxt = None, val = v\<rparr>)"
  have mt: "m t = Some \<lparr>nxt = None, val = w\<rparr>" "t \<noteq> a" using assms(1,3) by (auto simp: xs cells_append)
  let ?m' = "?m(t \<mapsto> \<lparr>nxt = Some a, val = w\<rparr>)"
  have "chain ?m p xs None" using assms(1,3) by (subst cells_frame) auto
  then have "chain ?m' p xs (Some a)" using chain_end [of ?m p ys t w None "Some a"] assms(2) by (simp add: xs)
  then have "chain ?m' p (xs @ [(a, v)]) None" using mt(2) by (auto simp: cells_append)
  moreover have "set_nxt ?m (Some (fst (last xs))) (Some a) = Some ?m'" using mt by (simp add: set_nxt_def xs)
  ultimately show ?thesis using mt by auto
qed

lemma push_back_ok:
  assumes "holds l xs" "mem l a = None"
  shows "\<exists>t. push_back l a v = Some t \<and> holds t (xs @ [(a, v)]) \<and> count t = count l + 1 \<and> (\<forall>b. b \<noteq> a \<longrightarrow> mem l b = None \<longrightarrow> mem t b = None)"
proof -
  have a: "a \<notin> fst ` set xs" using chain_alloc [of "mem l" "head l" xs None a] assms by (auto simp: holds_def)
  show ?thesis
  proof (cases "xs = []")
    case True
    then have "head l = None" using assms(1) by (simp add: holds_def)
    then show ?thesis using True by (simp add: push_back_def holds_def)
  next
    case False
    then obtain h where h: "head l = Some h" "tail l = Some (fst (last xs))" using assms(1) by (cases xs) (auto simp: holds_def)
    obtain m' where m': "set_nxt ((mem l)(a \<mapsto> \<lparr>nxt = None, val = v\<rparr>)) (Some (fst (last xs))) (Some a) = Some m'" "chain m' (head l) (xs @ [(a, v)]) None"
        "\<forall>b. b \<noteq> a \<longrightarrow> mem l b = None \<longrightarrow> m' b = None"
      using chain_snoc [of "mem l" "head l" xs a v] assms(1) a False by (auto simp: holds_def)
    then show ?thesis using h assms(1) a by (simp add: push_back_def holds_def)
  qed
qed

text \<open>\<open>add_node\<close> tests the tail where \<open>push_back\<close> tests the head; on a list both are null or neither is.\<close>

lemma add_node_ok:
  assumes "holds l xs" "mem l a = None"
  shows "\<exists>t. add_node l a v = Some t \<and> holds t (xs @ [(a, v)]) \<and> count t = count l + 1 \<and> (\<forall>b. b \<noteq> a \<longrightarrow> mem l b = None \<longrightarrow> mem t b = None)"
proof -
  have a: "a \<notin> fst ` set xs" using chain_alloc [of "mem l" "head l" xs None a] assms by (auto simp: holds_def)
  show ?thesis
  proof (cases "xs = []")
    case True
    then have "tail l = None" using assms(1) by (simp add: holds_def)
    then show ?thesis using True by (simp add: add_node_def holds_def)
  next
    case False
    then have h: "tail l = Some (fst (last xs))" using assms(1) by (simp add: holds_def)
    obtain m' where m': "set_nxt ((mem l)(a \<mapsto> \<lparr>nxt = None, val = v\<rparr>)) (Some (fst (last xs))) (Some a) = Some m'" "chain m' (head l) (xs @ [(a, v)]) None"
        "\<forall>b. b \<noteq> a \<longrightarrow> mem l b = None \<longrightarrow> m' b = None"
      using chain_snoc [of "mem l" "head l" xs a v] assms(1) a False by (auto simp: holds_def)
    then show ?thesis using h assms(1) a by (simp add: add_node_def holds_def)
  qed
qed

definition values_are :: "('a, 'c) linked \<Rightarrow> 'a list \<Rightarrow> bool" where
  "values_are l vs \<longleftrightarrow> (\<exists>xs. holds l xs \<and> map snd xs = vs)"

definition unused :: "('a, 'c) linked \<Rightarrow> nat \<Rightarrow> bool" where
  "unused l a \<longleftrightarrow> mem l a = None"

interpretation c_list: growing_list values_are unused add_node
proof
  fix s :: "('a, 32 word) linked" and vs a v
  assume "values_are s vs" "unused s a"
  then obtain xs where "holds s xs" "map snd xs = vs" "mem s a = None" by (auto simp: values_are_def unused_def)
  then show "\<exists>t. add_node s a v = Some t \<and> values_are t (vs @ [v]) \<and> (\<forall>b. b \<noteq> a \<longrightarrow> unused s b \<longrightarrow> unused t b)"
    using add_node_ok [of s xs a v] by (fastforce simp: values_are_def unused_def)
qed

interpretation cpp_list: growing_list values_are unused push_back
proof
  fix s :: "('a, 64 word) linked" and vs a v
  assume "values_are s vs" "unused s a"
  then obtain xs where "holds s xs" "map snd xs = vs" "mem s a = None" by (auto simp: values_are_def unused_def)
  then show "\<exists>t. push_back s a v = Some t \<and> values_are t (vs @ [v]) \<and> (\<forall>b. b \<noteq> a \<longrightarrow> unused s b \<longrightarrow> unused t b)"
    using push_back_ok [of s xs a v] by (fastforce simp: values_are_def unused_def)
qed

definition entry_of :: "(string \<Rightarrow> 64 word) \<Rightarrow> string \<times> 32 word \<Rightarrow> entry" where
  "entry_of hash_fn d = \<lparr>key = fst d, value_of = snd d, hash = hash_fn (fst d)\<rparr>"

interpretation dict: growing_list "\<lambda>l ds. values_are l (map (entry_of hash_fn) ds)" unused "dict_push_back hash_fn"
  for hash_fn :: "string \<Rightarrow> 64 word"
  by unfold_locales (use cpp_list.push_last in \<open>auto simp: dict_push_back_def entry_of_def [symmetric]\<close>)

subsection \<open>Going through a list\<close>

lemma iterate_chain: "chain m p xs None \<Longrightarrow> iterate_loop m p = Some (map snd xs)"
proof (induction xs arbitrary: p)
  case Nil
  then show ?case by (subst iterate_loop.simps) simp
next
  case (Cons x xs)
  then show ?case by (subst iterate_loop.simps) (cases x, auto)
qed

lemma clear_chain:
  "chain m p xs None \<Longrightarrow> distinct (map fst xs) \<Longrightarrow> clear_loop m p = Some (\<lambda>a. if a \<in> fst ` set xs then None else m a)"
proof (induction xs arbitrary: p m)
  case Nil
  then show ?case by (subst clear_loop.simps) simp
next
  case (Cons x xs)
  obtain a v where x: "x = (a, v)" by (cases x) auto
  obtain n where n: "p = Some a" "m a = Some \<lparr>nxt = n, val = v\<rparr>" "chain m n xs None" using Cons.prems(1) x by auto
  have "chain (m(a := None)) n xs None" using n(3) Cons.prems(2) x by (subst cells_frame) auto
  then have "clear_loop (m(a := None)) n = Some (\<lambda>b. if b \<in> fst ` set xs then None else (m(a := None)) b)"
    by (rule Cons.IH) (use Cons.prems(2) in simp)
  then show ?case using n x by (subst clear_loop.simps) (auto simp: fun_eq_iff)
qed

text \<open>The scan of \<open>remove_node\<close> passes the nodes that hold another value.\<close>

lemma remove_skip:
  "chain (mem l) p ys q \<Longrightarrow> v \<notin> snd ` set ys \<Longrightarrow>
   remove_loop v l p prev = remove_loop v l q (if ys = [] then prev else Some (fst (last ys)))"
proof (induction ys arbitrary: p prev)
  case (Cons y ys)
  obtain a w where y: "y = (a, w)" by (cases y) auto
  obtain n where n: "p = Some a" "mem l a = Some \<lparr>nxt = n, val = w\<rparr>" "chain (mem l) n ys q" using Cons.prems(1) y by auto
  have "remove_loop v l p prev = remove_loop v l n (Some a)" using n Cons.prems(2) y by (subst remove_loop.simps) auto
  then show ?case using Cons.IH [OF n(3)] Cons.prems(2) y by simp
qed simp

lemma remove_absent: "holds l xs \<Longrightarrow> v \<notin> snd ` set xs \<Longrightarrow> remove_node v l = Some l"
  using remove_skip [of l "head l" xs None v None] by (simp add: remove_node_def holds_def remove_loop.simps [of v l None])

lemma remove_present:
  assumes "holds l (ys @ (a, v) # zs)" "v \<notin> snd ` set ys"
  shows "\<exists>t. remove_node v l = Some t \<and> holds t (ys @ zs) \<and> count t = count l - 1 \<and> mem t a = mem l a"
proof -
  obtain n where n: "chain (mem l) (head l) ys (Some a)" "mem l a = Some \<lparr>nxt = n, val = v\<rparr>" "chain (mem l) n zs None"
    using assms(1) by (auto simp: holds_def cells_append)
  have tl: "tail l = Some a \<longleftrightarrow> zs = []" "zs \<noteq> [] \<Longrightarrow> tail l = Some (fst (last zs))"
    using assms(1) by (cases zs rule: rev_cases; auto simp: holds_def)+
  have sk: "remove_node v l = remove_loop v l (Some a) (if ys = [] then None else Some (fst (last ys)))"
    using remove_skip [OF n(1) assms(2)] by (simp add: remove_node_def)
  show ?thesis
  proof (cases ys rule: rev_cases)
    case Nil
    then show ?thesis using sk n tl assms(1) by (auto simp: remove_loop.simps [of v l "Some a"] holds_def)
  next
    case (snoc us u)
    obtain b w where u: "u = (b, w)" by (cases u) auto
    have b: "mem l b = Some \<lparr>nxt = Some a, val = w\<rparr>" "b \<noteq> a" using n(1) assms(1) by (auto simp: snoc u cells_append holds_def)
    let ?m = "(mem l)(b \<mapsto> \<lparr>nxt = n, val = w\<rparr>)"
    have "chain ?m (head l) ys n" using chain_end [of "mem l" "head l" us b w "Some a" n] n(1) assms(1) by (simp add: snoc u holds_def)
    moreover have "chain ?m n zs None" using n(3) assms(1) by (subst cells_frame) (auto simp: snoc u holds_def)
    ultimately have "chain ?m (head l) (ys @ zs) None" by (auto simp: cells_append)
    then show ?thesis using sk n tl assms(1) b by (auto simp: remove_loop.simps [of v l "Some a"] holds_def set_nxt_def snoc u)
  qed
qed

lemma traverse_chain:
  "chain m p xs None \<Longrightarrow> distinct (map fst xs) \<Longrightarrow> \<exists>m'. traverse_loop (\<lambda>s v. (s @ [v], f v)) s m p = Some (s @ map snd xs, m') \<and>
     chain m' p (map (map_prod (\<lambda>a. a) f) xs) None \<and> (\<forall>b. b \<notin> fst ` set xs \<longrightarrow> m' b = m b)"
proof (induction xs arbitrary: s m p)
  case Nil
  then show ?case by (simp add: traverse_loop.simps [of _ _ _ None])
next
  case (Cons x xs)
  obtain a v where x: "x = (a, v)" by (cases x) auto
  obtain n where n: "p = Some a" "m a = Some \<lparr>nxt = n, val = v\<rparr>" "chain m n xs None" using Cons.prems(1) x by auto
  let ?m = "m(a \<mapsto> \<lparr>nxt = n, val = f v\<rparr>)"
  have "chain ?m n xs None" using n(3) Cons.prems(2) x by (subst cells_frame) auto
  then obtain m' where m': "traverse_loop (\<lambda>s v. (s @ [v], f v)) (s @ [v]) ?m n = Some ((s @ [v]) @ map snd xs, m')"
      "chain m' n (map (map_prod (\<lambda>a. a) f) xs) None" "\<forall>b. b \<notin> fst ` set xs \<longrightarrow> m' b = ?m b"
    using Cons.IH [of ?m n "s @ [v]"] Cons.prems(2) by (simp del: fun_upd_apply) blast
  moreover have "m' a = Some \<lparr>nxt = n, val = f v\<rparr>" using m'(3) Cons.prems(2) x by simp
  ultimately show ?case using n x by (simp add: traverse_loop.simps [of _ _ _ "Some a"])
qed

text \<open>The scan of \<open>operator[]\<close> stops at the first equal hash.\<close>

lemma lookup_chain: "chain m p xs None \<Longrightarrow> lookup_loop h m p = Some (map_option fst (find (\<lambda>x. hash (snd x) = h) xs))"
proof (induction xs arbitrary: p)
  case Nil
  then show ?case by (simp add: lookup_loop.simps [of _ _ None])
next
  case (Cons x xs)
  then show ?case by (subst lookup_loop.simps) (cases x, auto)
qed

subsection \<open>What the lists show\<close>

text \<open>
  C37. The list in C is the list of its values: \<open>add_node\<close>, when \<open>malloc\<close> succeeds, appends, \<open>remove_node\<close> removes the first node with the value
  (and only then counts down), \<open>iterate_list\<close> prints all values in order; none of them reads a dangling pointer.
\<close>

theorem c_list_refines:
  assumes "values_are l vs" "unused l a"
  shows "(\<exists>t. add_node l a v = Some t \<and> values_are t (vs @ [v]) \<and> count t = count l + 1) \<and>
    (\<exists>t. remove_node v l = Some t \<and> values_are t (remove1 v vs) \<and> count t = (if v \<in> set vs then count l - 1 else count l)) \<and>
    iterate_list l = Some vs"
proof (intro conjI)
  obtain xs where xs: "holds l xs" "map snd xs = vs" using assms(1) by (auto simp: values_are_def)
  show "\<exists>t. add_node l a v = Some t \<and> values_are t (vs @ [v]) \<and> count t = count l + 1"
    using add_node_ok [OF xs(1), of a v] assms(2) xs(2) by (fastforce simp: values_are_def unused_def)
  show "\<exists>t. remove_node v l = Some t \<and> values_are t (remove1 v vs) \<and> count t = (if v \<in> set vs then count l - 1 else count l)"
  proof (cases "v \<in> set vs")
    case True
    then obtain ys zs where sp: "vs = ys @ v # zs" "v \<notin> set ys" by (meson split_list_first)
    then obtain ys' a' zs' where x: "xs = ys' @ (a', v) # zs'" "map snd ys' = ys" "map snd zs' = zs"
      using xs(2) by (auto simp: map_eq_append_conv map_eq_Cons_conv)
    show ?thesis using remove_present [of l ys' a' v zs'] xs(1) x sp by (force simp: values_are_def remove1_append)
  next
    case False
    then show ?thesis using remove_absent [OF xs(1), of v] xs assms(1) by (auto simp: remove1_idem)
  qed
  show "iterate_list l = Some vs" using iterate_chain xs by (auto simp: iterate_list_def holds_def)
qed

theorem c_list_refines_witness:
  "(\<exists>t. remove_node 7 \<lparr>mem = [2 \<mapsto> \<lparr>nxt = None, val = 7 :: int\<rparr>], head = Some 2, tail = Some 2, count = 1\<rparr> = Some t \<and> values_are t [] \<and> count t = 0)"
proof -
  have "values_are \<lparr>mem = [2 \<mapsto> \<lparr>nxt = None, val = 7 :: int\<rparr>], head = Some 2, tail = Some 2, count = (1 :: 32 word)\<rparr> [7]"
    unfolding values_are_def by (rule exI [of _ "[(2, 7)]"]) (simp add: holds_def)
  from c_list_refines [OF this, of 5 7] show ?thesis by (simp add: unused_def)
qed

text \<open>\<open>traverse\<close> gives the callback every value once, in order, and leaves in the list what the callback wrote.\<close>

theorem traverse_maps:
  assumes "holds l xs"
  shows "\<exists>t. traverse (\<lambda>s v. (s @ [v], f v)) [] l = Some (map snd xs, t) \<and> holds t (map (map_prod (\<lambda>a. a) f) xs)"
proof -
  obtain m where "traverse_loop (\<lambda>s v. (s @ [v], f v)) [] (mem l) (head l) = Some (map snd xs, m)" "chain m (head l) (map (map_prod (\<lambda>a. a) f) xs) None"
    using traverse_chain [of "mem l" "head l" xs f "[]"] assms by (auto simp: holds_def)
  then show ?thesis using assms by (auto simp: traverse_def holds_def comp_def last_map)
qed

text \<open>\<open>clear\<close> frees every node of the list and no other, and leaves an empty list.\<close>

theorem clear_frees_all:
  assumes "holds l xs"
  shows "\<exists>t. clear_list l = Some t \<and> holds t [] \<and> count t = 0 \<and> (\<forall>a. mem t a = (if a \<in> fst ` set xs then None else mem l a))"
  using clear_chain [of "mem l" "head l" xs] assms by (simp add: clear_list_def holds_def)

text \<open>
  A list of the constructor from an array or an initializer list, then traversed and destroyed: with fresh addresses from
  \<open>new\<close>, nothing dangles, and the values are those of the array.
\<close>

theorem list_fill_values:
  assumes "values_are l vs" "distinct as" "\<forall>a \<in> set as. unused l a" "length as = length ws"
  shows "\<exists>t. list_fill l (zip as ws) = Some t \<and> values_are t (vs @ ws)"
  unfolding list_fill_def by (rule cpp_list.push_all [OF assms])

text \<open>
  \<open>operator[]\<close> of the dictionary.  It compares hashes only: it returns the first entry whose hash is that of the key.
  When the hash separates the keys in use, that is the first entry with the key, and a key that is absent throws.
\<close>

lemma find_key:
  "(\<And>x. x \<in> set xs \<Longrightarrow> hash (snd x) = hash_fn (key (snd x))) \<Longrightarrow> inj_on hash_fn (insert k ((key \<circ> snd) ` set xs)) \<Longrightarrow>
   find (\<lambda>x. hash (snd x) = hash_fn k) xs = find (\<lambda>x. key (snd x) = k) xs"
  by (rule find_cong) (auto simp: inj_on_def)

theorem dictionary_lookup:
  assumes "holds l xs" "\<forall>x \<in> set xs. hash (snd x) = hash_fn (key (snd x))"
  shows "dict_index hash_fn l k = Some (map_option fst (find (\<lambda>x. hash_fn (key (snd x)) = hash_fn k) xs)) \<and>
    (inj_on hash_fn (insert k ((key \<circ> snd) ` set xs)) \<longrightarrow> dict_index hash_fn l k = Some (map_option fst (find (\<lambda>x. key (snd x) = k) xs)))"
proof -
  have d: "dict_index hash_fn l k = Some (map_option fst (find (\<lambda>x. hash (snd x) = hash_fn k) xs))"
    using assms(1) lookup_chain by (simp add: dict_index_def holds_def)
  moreover have "find (\<lambda>x. hash (snd x) = hash_fn k) xs = find (\<lambda>x. hash_fn (key (snd x)) = hash_fn k) xs"
    by (rule find_cong) (use assms(2) in auto)
  ultimately show ?thesis using find_key [of xs hash_fn k] assms(2) by auto
qed

text \<open>Two keys with one hash: the value of one is returned for the other, which was never inserted.\<close>

theorem dictionary_collision:
  assumes "holds l []" "mem l a = None" "hash_fn k = hash_fn k'" "k \<noteq> k'"
  shows "\<exists>t. dict_push_back hash_fn l a (k', v) = Some t \<and> dict_index hash_fn t k = Some (Some a) \<and> map_option (key \<circ> val) (mem t a) = Some k'"
proof -
  obtain t where t: "dict_push_back hash_fn l a (k', v) = Some t" "holds t [(a, \<lparr>key = k', value_of = v, hash = hash_fn k'\<rparr>)]"
    using push_back_ok [OF assms(1,2)] by (auto simp: dict_push_back_def)
  then show ?thesis using assms(3) by (auto simp: dict_index_def holds_def lookup_loop.simps [of _ _ "Some a"])
qed

theorem dictionary_collision_witness:
  "\<exists>t. dict_push_back (\<lambda>s. of_nat (length s)) \<lparr>mem = (\<lambda>_. None), head = None, tail = None, count = 0\<rparr> 3 (''b'', 5) = Some t \<and>
     dict_index (\<lambda>s. of_nat (length s)) t ''a'' = Some (Some 3) \<and> map_option (key \<circ> val) (mem t 3) = Some ''b''"
  by (rule dictionary_collision) (simp_all add: holds_def)

end
