(* ===== verification/Idle_Server.thy ===== *)
theory Idle_Server
  imports Timer_List
begin

text \<open>
  The server that closes idle connections (\<open>network-programming/youshuang/timer/11-3nonactive_conn.cpp\<close>): the event loop on
  top of the sorted timer list of \<open>11-2lst_timer.h\<close>.  Every connection has a timer of 15 seconds, put off by
  every message and deleted with the connection.  The loop is a step relation, with the events of the kernel, the
  results of \<open>accept\<close> and \<open>recv\<close>, the addresses \<open>new\<close> returns and the clock as its choices; the operations return \<open>None\<close>
  for an access outside an array or through a dangling pointer.
\<close>

definition FD_LIMIT :: int where "FD_LIMIT = 65535"
definition TIMESLOT :: int where "TIMESLOT = 5"
definition BUFFER_SIZE :: nat where "BUFFER_SIZE = 64"
definition SIGALRM :: byte where "SIGALRM = 14"
definition SIGTERM :: byte where "SIGTERM = 15"
definition EAGAIN :: int where "EAGAIN = 11"

record client_data =
  address :: "32 word \<times> 16 word"
  sockfd :: int
  buf :: "byte list"
  timer :: "nat option"

datatype loop_pos = Wait | Events | Stopped

text \<open>\<open>conns\<close> are the open connections, which are also those that epoll watches: the callback's \<open>epoll_ctl\<close> is given
  the global \<open>epollfd\<close>, which is 0, and does nothing, but closing a descriptor takes it out of the epoll set as well.
  \<open>active\<close> records when a connection was made or last sent something; no operation reads it.\<close>

record idle_server =
  timer_lst :: sort_timer_lst
  users :: "int \<Rightarrow> client_data"
  conns :: "int set"
  timeout :: bool
  stop_server :: bool
  alarm :: int
  at :: loop_pos
  events :: "(int \<times> bool) list"
  now :: int
  active :: "int \<Rightarrow> int"

definition valid_fd :: "int \<Rightarrow> bool" where
  "valid_fd fd \<longleftrightarrow> 0 \<le> fd \<and> fd < FD_LIMIT"

definition server_start :: "(int \<Rightarrow> client_data) \<Rightarrow> int \<Rightarrow> idle_server" where
  "server_start us cur = \<lparr>timer_lst = timer_lst_new (\<lambda>_. None), users = us, conns = {}, timeout = False, stop_server = False,
     alarm = TIMESLOT, at = Wait, events = [], now = cur, active = (\<lambda>_. 0)\<rparr>"

definition cb_func :: "idle_server \<Rightarrow> int \<Rightarrow> idle_server" where
  "cb_func s u = s\<lparr>conns := conns s - {sockfd (users s u)}\<rparr>"

text \<open>A new connection \<open>connfd\<close>, with the new timer at the address \<open>a\<close>.\<close>

definition on_accept :: "idle_server \<Rightarrow> int \<Rightarrow> 32 word \<times> 16 word \<Rightarrow> nat \<Rightarrow> idle_server option" where
  "on_accept s connfd client_address a =
     (if \<not> valid_fd connfd then None
      else do {
        let s = s\<lparr>conns := insert connfd (conns s)\<rparr>;
        let u = (users s connfd)\<lparr>address := client_address, sockfd := connfd, timer := Some a\<rparr>;
        let l = timer_lst s;
        l \<leftarrow> add_timer (l\<lparr>timers := new_timer (timers l) a (now s + 3 * TIMESLOT) (nat connfd)\<rparr>) (Some a);
        Some (s\<lparr>users := (users s)(connfd := u), timer_lst := l, active := (active s)(connfd := now s)\<rparr>)
      })"

text \<open>The signals that have arrived through the pipe.\<close>

fun on_signals :: "idle_server \<Rightarrow> byte list \<Rightarrow> idle_server" where
  "on_signals s [] = s"
| "on_signals s (sig # sigs) =
     on_signals (if sig = SIGALRM then s\<lparr>timeout := True\<rparr> else if sig = SIGTERM then s\<lparr>stop_server := True\<rparr> else s) sigs"

definition drop_conn :: "idle_server \<Rightarrow> int \<Rightarrow> idle_server option" where
  "drop_conn s fd = do {
     let t = timer (users s fd);
     let s = cb_func s fd;
     case t of
       None \<Rightarrow> Some s
     | Some a \<Rightarrow> do { l \<leftarrow> del_timer (timer_lst s) (Some a); Some (s\<lparr>timer_lst := l\<rparr>) }
   }"

text \<open>Data of a connection; \<open>Inl\<close> is a failure of \<open>recv\<close> with its \<open>errno\<close>.\<close>

definition on_data :: "idle_server \<Rightarrow> int \<Rightarrow> int + byte list \<Rightarrow> idle_server option" where
  "on_data s fd r =
     (if \<not> valid_fd fd then None
      else case r of
        Inl e \<Rightarrow>
          let s = s\<lparr>users := (users s)(fd := (users s fd)\<lparr>buf := replicate BUFFER_SIZE 0\<rparr>)\<rparr>
          in if e \<noteq> EAGAIN then drop_conn s fd else Some s
      | Inr bs \<Rightarrow>
          let bs = take (BUFFER_SIZE - 1) bs;
              s = s\<lparr>users := (users s)(fd := (users s fd)\<lparr>buf := bs @ replicate (BUFFER_SIZE - length bs) 0\<rparr>)\<rparr>
          in if bs = [] then drop_conn s fd
             else case timer (users s fd) of
                 None \<Rightarrow> Some s
               | Some a \<Rightarrow> do {
                   l \<leftarrow> set_expire (timer_lst s) a (now s + 3 * TIMESLOT);
                   l \<leftarrow> adjust_timer l (Some a);
                   Some (s\<lparr>timer_lst := l, active := (active s)(fd := now s)\<rparr>)
                 })"

fun run_callbacks :: "idle_server \<Rightarrow> (nat \<times> util_timer) list \<Rightarrow> idle_server" where
  "run_callbacks s [] = s"
| "run_callbacks s (f # fs) = run_callbacks (cb_func s (int (user_data (snd f)))) fs"

definition timer_handler :: "idle_server \<Rightarrow> idle_server option" where
  "timer_handler s = do {
     (fs, l) \<leftarrow> tick (timer_lst s) (now s);
     let s = run_callbacks (s\<lparr>timer_lst := l\<rparr>) fs;
     Some (s\<lparr>alarm := TIMESLOT\<rparr>)
   }"

text \<open>What the kernel and the allocator answer while one event is handled.\<close>

record answers =
  accepted :: int
  peer :: "32 word \<times> 16 word"
  fresh :: nat
  received :: "int + byte list"

definition event_body :: "int \<Rightarrow> int \<Rightarrow> idle_server \<Rightarrow> int \<times> bool \<Rightarrow> answers \<Rightarrow> idle_server option" where
  "event_body listenfd pipe s ev k =
     (if fst ev = listenfd then on_accept s (accepted k) (peer k) (fresh k)
      else if fst ev = pipe \<and> snd ev then
        (case received k of Inl e \<Rightarrow> Some s | Inr sigs \<Rightarrow> Some (on_signals s (take 1024 sigs)))
      else if snd ev then on_data s (fst ev) (received k)
      else Some s)"

definition round_end :: "idle_server \<Rightarrow> idle_server option" where
  "round_end s = do {
     s \<leftarrow> (if timeout s then do { s \<leftarrow> timer_handler s; Some (s\<lparr>timeout := False\<rparr>) } else Some s);
     Some (s\<lparr>at := (if stop_server s then Stopped else Wait)\<rparr>)
   }"

text \<open>What the kernel promises: a new connection has a descriptor that is not open, and \<open>new\<close> an address that is free.\<close>

definition answers_ok :: "int \<Rightarrow> int \<Rightarrow> idle_server \<Rightarrow> answers \<Rightarrow> bool" where
  "answers_ok listenfd pipe s k \<longleftrightarrow> accepted k \<notin> insert listenfd (insert pipe (conns s)) \<and> timers (timer_lst s) (fresh k) = None"

inductive idle_step :: "int \<Rightarrow> int \<Rightarrow> idle_server \<Rightarrow> idle_server \<Rightarrow> bool" for listenfd pipe where
  clock: "now s \<le> t \<Longrightarrow> idle_step listenfd pipe s (s\<lparr>now := t\<rparr>)"
| ready: "at s = Wait \<Longrightarrow> distinct (map fst evs) \<Longrightarrow> fst ` set evs \<subseteq> insert listenfd (insert pipe (conns s)) \<Longrightarrow> length evs \<le> 1024 \<Longrightarrow>
    idle_step listenfd pipe s (s\<lparr>at := Events, events := evs\<rparr>)"
| failed: "at s = Wait \<Longrightarrow> idle_step listenfd pipe s (s\<lparr>at := Stopped\<rparr>)"
| event: "at s = Events \<Longrightarrow> events s = ev # evs \<Longrightarrow> answers_ok listenfd pipe s k \<Longrightarrow> event_body listenfd pipe s ev k = Some t \<Longrightarrow>
    idle_step listenfd pipe s (t\<lparr>events := evs\<rparr>)"
| round: "at s = Events \<Longrightarrow> events s = [] \<Longrightarrow> round_end s = Some t \<Longrightarrow> idle_step listenfd pipe s t"

definition idle_init :: "int \<Rightarrow> int \<Rightarrow> idle_server \<Rightarrow> bool" where
  "idle_init listenfd pipe s \<longleftrightarrow> listenfd \<noteq> pipe \<and> (\<exists>us cur. s = server_start us cur)"

subsection \<open>Connections and their timers\<close>

definition timer_fd :: "nat \<times> util_timer \<Rightarrow> int" where
  "timer_fd x = int (user_data (snd x))"

text \<open>The timer \<open>x\<close> and its connection point to each other, and it expires 15 seconds after the last activity.\<close>

definition tied :: "idle_server \<Rightarrow> nat \<times> util_timer \<Rightarrow> bool" where
  "tied s x \<longleftrightarrow> timer (users s (timer_fd x)) = Some (fst x) \<and> sockfd (users s (timer_fd x)) = timer_fd x \<and>
     expire (snd x) = active s (timer_fd x) + 15 \<and> active s (timer_fd x) \<le> now s"

definition conns_ok :: "idle_server \<Rightarrow> (nat \<times> util_timer) list \<Rightarrow> bool" where
  "conns_ok s ts \<longleftrightarrow> lst_inv (timer_lst s) ts \<and> conns s = timer_fd ` set ts \<and> (\<forall>x \<in> set ts. tied s x) \<and> (\<forall>c \<in> conns s. valid_fd c)"

definition same_loop :: "idle_server \<Rightarrow> idle_server \<Rightarrow> bool" where
  "same_loop s t \<longleftrightarrow> at t = at s \<and> events t = events s \<and> now t = now s \<and> stop_server t = stop_server s"

lemma conns_ok_keys: "conns_ok s ts \<Longrightarrow> distinct (map fst ts)"
  by (simp add: conns_ok_def lst_inv_def lst_holds_def)

lemma conns_ok_tied: "conns_ok s ts \<Longrightarrow> x \<in> set ts \<Longrightarrow> tied s x"
  by (simp add: conns_ok_def)

lemma conns_ok_unique:
  assumes "conns_ok s ts" "x \<in> set ts" "y \<in> set ts" "timer_fd x = timer_fd y"
  shows "x = y"
proof -
  have "fst x = fst y" using conns_ok_tied [OF assms(1,2)] conns_ok_tied [OF assms(1,3)] assms(4) by (simp add: tied_def)
  then show ?thesis using conns_ok_keys [OF assms(1)] assms(2,3) by (auto simp: distinct_map inj_on_def)
qed

lemma conns_ok_timer:
  assumes "conns_ok s ts" "fd \<in> conns s"
  obtains a d where "(a, d) \<in> set ts" "timer (users s fd) = Some a" "timer_fd (a, d) = fd" "sockfd (users s fd) = fd" "expire d = active s fd + 15"
    "active s fd \<le> now s"
proof -
  obtain x where x: "x \<in> set ts" "timer_fd x = fd" using assms by (auto simp: conns_ok_def)
  then show thesis using conns_ok_tied [OF assms(1) x(1)] by (intro that [of "fst x" "snd x"]) (simp_all add: tied_def)
qed

text \<open>The timers of the other connections, when that of \<open>fd\<close> is taken out of the list.\<close>

lemma set_without:
  assumes "conns_ok s ts" "(a, d) \<in> set ts"
  shows "set (without a ts) = {x \<in> set ts. timer_fd x \<noteq> timer_fd (a, d)}"
proof -
  have "fst x = a \<longleftrightarrow> timer_fd x = timer_fd (a, d)" if "x \<in> set ts" for x
  proof
    assume "fst x = a"
    then have "x = (a, d)" using conns_ok_keys [OF assms(1)] that assms(2) by (cases x) (auto dest: eq_key_imp_eq_value)
    then show "timer_fd x = timer_fd (a, d)" by simp
  qed (use conns_ok_unique [OF assms(1) that assms(2)] in auto)
  then show ?thesis by (auto simp: without_def)
qed

lemma on_accept_ok:
  assumes "conns_ok s ts" "valid_fd c" "c \<notin> conns s" "timers (timer_lst s) a = None"
  shows "\<exists>t. on_accept s c p a = Some t \<and> conns_ok t (ins (a, \<lparr>expire = now s + 15, user_data = nat c\<rparr>) ts) \<and> conns t = insert c (conns s) \<and> same_loop s t"
proof -
  let ?x = "(a, \<lparr>expire = now s + 15, user_data = nat c\<rparr>)"
  have a: "a \<notin> fst ` set ts" using assms(1,4) by (auto simp: conns_ok_def lst_inv_def)
  obtain l where l: "add_timer ((timer_lst s)\<lparr>timers := new_timer (timers (timer_lst s)) a (now s + 15) (nat c)\<rparr>) (Some a) = Some l" "lst_inv l (ins ?x ts)"
    using lst_inv_add [of "timer_lst s" ts a "now s + 15" "nat c"] assms(1) a by (auto simp: conns_ok_def bind_eq_Some_conv)
  have c: "timer_fd ?x = c" using assms(2) by (simp add: timer_fd_def valid_fd_def)
  let ?t = "s\<lparr>conns := insert c (conns s), users := (users s)(c := (users s c)\<lparr>address := p, sockfd := c, timer := Some a\<rparr>), timer_lst := l,
    active := (active s)(c := now s)\<rparr>"
  have "tied ?t x" if "x \<in> set ts" for x using assms(1,3) conns_ok_tied [OF assms(1) that] that by (auto simp: conns_ok_def tied_def)
  moreover have "tied ?t ?x" unfolding tied_def c by simp
  ultimately have "conns_ok ?t (ins ?x ts)" using assms(1,2) l(2) c by (auto simp: conns_ok_def)
  moreover have "on_accept s c p a = Some ?t" using l(1) assms(2) by (simp add: on_accept_def TIMESLOT_def)
  ultimately show ?thesis by (auto simp: same_loop_def)
qed

lemma drop_conn_ok:
  assumes "conns_ok s ts" "fd \<in> conns s"
  shows "\<exists>t ts'. drop_conn s fd = Some t \<and> conns_ok t ts' \<and> conns t = conns s - {fd} \<and> same_loop s t"
proof -
  obtain a d where x: "(a, d) \<in> set ts" "timer (users s fd) = Some a" "timer_fd (a, d) = fd" "sockfd (users s fd) = fd"
    using conns_ok_timer [OF assms] by metis
  have "a \<in> fst ` set ts" using x(1) by force
  then obtain l where l: "del_timer (timer_lst s) (Some a) = Some l" "lst_inv l (without a ts)"
    using lst_inv_del [of "timer_lst s" ts a] assms(1) by (auto simp: conns_ok_def bind_eq_Some_conv)
  let ?t = "s\<lparr>conns := conns s - {fd}, timer_lst := l\<rparr>"
  have "conns_ok ?t (without a ts)"
    using assms(1) l(2) set_without [OF assms(1) x(1)] x(3) by (auto simp: conns_ok_def tied_def)
  moreover have "drop_conn s fd = Some ?t" using x l(1) by (simp add: drop_conn_def cb_func_def)
  ultimately show ?thesis by (auto simp: same_loop_def)
qed

lemma conns_ok_buf: "conns_ok s ts \<Longrightarrow> conns_ok (s\<lparr>users := (users s)(fd := (users s fd)\<lparr>buf := b\<rparr>)\<rparr>) ts"
  by (auto simp: conns_ok_def tied_def)

lemma put_off_ok:
  assumes "conns_ok s ts" "fd \<in> conns s"
  shows "\<exists>a l l'. timer (users s fd) = Some a \<and> set_expire (timer_lst s) a (now s + 15) = Some l \<and> adjust_timer l (Some a) = Some l' \<and>
    (\<exists>ts'. conns_ok (s\<lparr>timer_lst := l', active := (active s)(fd := now s)\<rparr>) ts')"
proof -
  obtain a d where x: "(a, d) \<in> set ts" "timer (users s fd) = Some a" "timer_fd (a, d) = fd" "sockfd (users s fd) = fd" "expire d = active s fd + 15"
      "active s fd \<le> now s" using conns_ok_timer [OF assms] by metis
  have "map_of ts a = Some d" using x(1) assms(1) by (auto simp: conns_ok_def lst_inv_def lst_holds_def)
  then obtain l l' where l: "set_expire (timer_lst s) a (now s + 15) = Some l" "adjust_timer l (Some a) = Some l'"
      "lst_inv l' (ins (a, d\<lparr>expire := now s + 15\<rparr>) (without a ts))"
    using lst_inv_adjust [of "timer_lst s" ts a d "now s + 15"] assms(1) x(5,6) by (auto simp: conns_ok_def bind_eq_Some_conv)
  have "timer_fd (a, d\<lparr>expire := now s + 15\<rparr>) = fd" using x(3) by (simp add: timer_fd_def)
  then have "conns_ok (s\<lparr>timer_lst := l', active := (active s)(fd := now s)\<rparr>) (ins (a, d\<lparr>expire := now s + 15\<rparr>) (without a ts))"
    using assms l(3) set_without [OF assms(1) x(1)] x by (auto simp: conns_ok_def tied_def)
  then show ?thesis using x(2) l(1,2) by blast
qed

lemma on_data_ok:
  assumes "conns_ok s ts" "fd \<in> conns s"
  shows "\<exists>t ts'. on_data s fd r = Some t \<and> conns_ok t ts' \<and> conns s - {fd} \<subseteq> conns t \<and> conns t \<subseteq> conns s \<and> same_loop s t"
proof -
  have v: "valid_fd fd" using assms by (auto simp: conns_ok_def)
  let ?s = "\<lambda>b. s\<lparr>users := (users s)(fd := (users s fd)\<lparr>buf := b\<rparr>)\<rparr>"
  have ok: "conns_ok (?s b) ts" "fd \<in> conns (?s b)" for b using conns_ok_buf [OF assms(1)] assms(2) by auto
  have d: "\<exists>t ts'. drop_conn (?s b) fd = Some t \<and> conns_ok t ts' \<and> conns t = conns s - {fd} \<and> same_loop s t" for b
    using drop_conn_ok [OF ok] by (auto simp: same_loop_def)
  show ?thesis
  proof (cases r)
    case (Inl e)
    then show ?thesis using v d [of "replicate BUFFER_SIZE 0"] ok(1) by (cases "e = EAGAIN") (auto simp: on_data_def same_loop_def Let_def)
  next
    case (Inr bs)
    let ?b = "take (BUFFER_SIZE - 1) bs"
    let ?t = "?s (?b @ replicate (BUFFER_SIZE - length ?b) 0)"
    show ?thesis
    proof (cases "?b = []")
      case True
      then show ?thesis using v d [of "replicate BUFFER_SIZE 0"] Inr by (auto simp: on_data_def)
    next
      case False
      obtain a l l' ts' where p: "timer (users ?t fd) = Some a" "set_expire (timer_lst ?t) a (now ?t + 15) = Some l" "adjust_timer l (Some a) = Some l'"
          "conns_ok (?t\<lparr>timer_lst := l', active := (active ?t)(fd := now ?t)\<rparr>) ts'" using put_off_ok [OF ok] by blast
      then have "on_data s fd r = Some (?t\<lparr>timer_lst := l', active := (active ?t)(fd := now ?t)\<rparr>)"
        using v False Inr by (simp add: on_data_def TIMESLOT_def Let_def)
      then show ?thesis using p(4) by (auto simp: same_loop_def)
    qed
  qed
qed

lemma run_callbacks_conns:
  "\<forall>f \<in> set fs. sockfd (users s (timer_fd f)) = timer_fd f \<Longrightarrow> run_callbacks s fs = s\<lparr>conns := conns s - timer_fd ` set fs\<rparr>"
proof (induction fs arbitrary: s)
  case (Cons f fs)
  then show ?case by (auto simp: cb_func_def timer_fd_def [symmetric] intro!: arg_cong [where f = "\<lambda>c. s\<lparr>conns := c\<rparr>"])
qed simp

lemma timer_handler_ok:
  assumes "conns_ok s ts"
  shows "\<exists>t ts'. timer_handler s = Some t \<and> conns_ok t ts' \<and> conns t = {fd \<in> conns s. now s < active s fd + 15} \<and> alarm t = TIMESLOT \<and>
    same_loop s t \<and> active t = active s \<and> users t = users s"
proof -
  let ?d = "filter (due (now s)) ts" and ?n = "filter (\<lambda>x. \<not> due (now s) x) ts"
  have i: "lst_inv (timer_lst s) ts" "in_order ts" using assms by (auto simp: conns_ok_def lst_inv_def)
  obtain l where l: "tick (timer_lst s) (now s) = Some (?d, l)" "lst_inv l ?n"
    using lst_inv_tick [OF i(1), of "now s"] due_prefix [OF i(2), of "now s"] by auto
  let ?t = "s\<lparr>timer_lst := l, conns := conns s - timer_fd ` set ?d, alarm := TIMESLOT\<rparr>"
  have "\<forall>f \<in> set ?d. sockfd (users (s\<lparr>timer_lst := l\<rparr>) (timer_fd f)) = timer_fd f" using assms by (auto simp: conns_ok_def tied_def)
  from run_callbacks_conns [OF this] have "timer_handler s = Some ?t" using l(1) by (simp add: timer_handler_def)
  moreover have n: "conns ?t = timer_fd ` set ?n" using assms conns_ok_unique [OF assms] by (auto simp: conns_ok_def)
  moreover have "timer_fd ` set ?n = {fd \<in> conns s. now s < active s fd + 15}" using assms by (auto simp: conns_ok_def tied_def due_def)
  moreover have "conns_ok ?t ?n" using assms l(2) n by (auto simp: conns_ok_def tied_def)
  ultimately show ?thesis by (auto simp: same_loop_def)
qed

subsection \<open>The invariant of the loop\<close>

definition idle_inv :: "int \<Rightarrow> int \<Rightarrow> idle_server \<Rightarrow> bool" where
  "idle_inv listenfd pipe s \<longleftrightarrow> (\<exists>ts. conns_ok s ts) \<and> listenfd \<notin> conns s \<and> pipe \<notin> conns s \<and> listenfd \<noteq> pipe \<and>
     distinct (map fst (events s)) \<and> fst ` set (events s) \<subseteq> insert listenfd (insert pipe (conns s))"

lemma conns_ok_cong:
  "conns_ok s ts \<Longrightarrow> timer_lst t = timer_lst s \<Longrightarrow> users t = users s \<Longrightarrow> conns t = conns s \<Longrightarrow> active t = active s \<Longrightarrow> now s \<le> now t \<Longrightarrow> conns_ok t ts"
  by (force simp: conns_ok_def tied_def)

lemma on_signals_same: "timer_lst (on_signals s b) = timer_lst s \<and> users (on_signals s b) = users s \<and> conns (on_signals s b) = conns s \<and>
    active (on_signals s b) = active s \<and> now (on_signals s b) = now s"
  by (induction s b rule: on_signals.induct) auto

lemma event_body_ok:
  assumes "idle_inv listenfd pipe s" "events s = ev # evs" "answers_ok listenfd pipe s k" "fst ev = listenfd \<longrightarrow> valid_fd (accepted k)"
  shows "\<exists>t ts'. event_body listenfd pipe s ev k = Some t \<and> conns_ok t ts' \<and> conns s - {fst ev} \<subseteq> conns t \<and>
    conns t \<subseteq> insert (accepted k) (conns s)"
proof -
  obtain ts where ts: "conns_ok s ts" using assms(1) by (auto simp: idle_inv_def)
  consider "fst ev = listenfd" | "fst ev = pipe" "fst ev \<noteq> listenfd" | "fst ev \<noteq> pipe" "fst ev \<noteq> listenfd" "snd ev" | "fst ev \<noteq> pipe" "fst ev \<noteq> listenfd" "\<not> snd ev" by blast
  then show ?thesis
  proof cases
    case 1
    then show ?thesis using on_accept_ok [OF ts, of "accepted k" "fresh k" "peer k"] assms(3,4) by (auto simp: event_body_def answers_ok_def)
  next
    case 2
    have "conns_ok (on_signals s b) ts" "conns (on_signals s b) = conns s" for b using conns_ok_cong [OF ts] on_signals_same by auto
    then show ?thesis using 2 ts by (auto simp: event_body_def split: sum.split)
  next
    case 3
    then have "fst ev \<in> conns s" using assms(1,2) by (auto simp: idle_inv_def)
    from on_data_ok [OF ts this, of "received k"] 3 show ?thesis by (auto simp: event_body_def)
  next
    case 4
    then show ?thesis using ts by (auto simp: event_body_def)
  qed
qed

lemma event_inv:
  assumes "idle_inv listenfd pipe s" "events s = ev # evs" "answers_ok listenfd pipe s k" "event_body listenfd pipe s ev k = Some t"
  shows "idle_inv listenfd pipe (t\<lparr>events := evs\<rparr>)"
proof -
  have "fst ev = listenfd \<longrightarrow> valid_fd (accepted k)" using assms(4) by (auto simp: event_body_def on_accept_def split: if_splits)
  then obtain ts' where t: "conns_ok t ts'" "conns s - {fst ev} \<subseteq> conns t" "conns t \<subseteq> insert (accepted k) (conns s)"
    using event_body_ok [OF assms(1-3)] assms(4) by auto
  have "fst ` set evs \<subseteq> insert listenfd (insert pipe (conns t))"
  proof
    fix c
    assume "c \<in> fst ` set evs"
    moreover have "fst ev \<notin> fst ` set evs" "fst ` set evs \<subseteq> insert listenfd (insert pipe (conns s))"
      using assms(1,2) by (simp_all add: idle_inv_def)
    ultimately have "c \<in> insert listenfd (insert pipe (conns s))" "c \<noteq> fst ev" by blast+
    then show "c \<in> insert listenfd (insert pipe (conns t))" using t(2) by auto
  qed
  moreover have "conns_ok (t\<lparr>events := evs\<rparr>) ts'" using conns_ok_cong [OF t(1)] by simp
  ultimately show ?thesis using assms(1-3) t(3) by (auto simp: idle_inv_def answers_ok_def)
qed

lemma round_end_ok:
  assumes "conns_ok s ts"
  shows "\<exists>t ts'. round_end s = Some t \<and> conns_ok t ts' \<and> conns t = (if timeout s then {fd \<in> conns s. now s < active s fd + 15} else conns s) \<and>
    (timeout s \<longrightarrow> alarm t = TIMESLOT) \<and> \<not> timeout t \<and> at t = (if stop_server s then Stopped else Wait) \<and> events t = events s"
proof (cases "timeout s")
  case True
  obtain t ts' where t: "timer_handler s = Some t" "conns_ok t ts'" "conns t = {fd \<in> conns s. now s < active s fd + 15}" "alarm t = TIMESLOT" "same_loop s t"
    using timer_handler_ok [OF assms] by auto
  have "conns_ok (t\<lparr>timeout := False, at := if stop_server t then Stopped else Wait\<rparr>) ts'" using conns_ok_cong [OF t(2)] by simp
  then show ?thesis using t True by (auto simp: round_end_def same_loop_def)
next
  case False
  have "conns_ok (s\<lparr>at := if stop_server s then Stopped else Wait\<rparr>) ts" using conns_ok_cong [OF assms] by simp
  then show ?thesis using False by (auto simp: round_end_def)
qed

interpretation idle: invariant_system "idle_init listenfd pipe" "idle_step listenfd pipe" "idle_inv listenfd pipe" for listenfd pipe
proof
  fix s
  assume "idle_init listenfd pipe s"
  moreover have "conns_ok (server_start us cur) []" for us cur
    by (simp add: conns_ok_def server_start_def lst_inv_def lst_holds_def timer_lst_new_def in_order_def)
  ultimately show "idle_inv listenfd pipe s" by (auto simp: idle_init_def idle_inv_def) (auto simp: server_start_def)
next
  fix s t
  assume inv: "idle_inv listenfd pipe s" and step: "idle_step listenfd pipe s t"
  obtain ts where ts: "conns_ok s ts" using inv by (auto simp: idle_inv_def)
  from step show "idle_inv listenfd pipe t"
  proof cases
    case (clock c)
    have "conns_ok t ts" using conns_ok_cong [OF ts] clock by simp
    then show ?thesis using inv clock by (auto simp: idle_inv_def)
  next
    case (ready evs)
    have "conns_ok t ts" using conns_ok_cong [OF ts] ready by simp
    then show ?thesis using inv ready by (auto simp: idle_inv_def)
  next
    case failed
    have "conns_ok t ts" using conns_ok_cong [OF ts] failed by simp
    then show ?thesis using inv failed by (auto simp: idle_inv_def)
  next
    case (event ev evs k t')
    then show ?thesis using event_inv [OF inv] by blast
  next
    case round
    then show ?thesis using round_end_ok [OF ts] inv by (auto simp: idle_inv_def split: if_splits)
  qed
qed

subsection \<open>Properties\<close>

text \<open>
  C11. Idle connections: in every reachable state (the clock does not go back) every connection has exactly one timer, to which its entry
  in \<open>users\<close> points, which points back to it and expires 15 seconds after it was last active; there is no other timer.  Handling the next event,
  with a new timer at a free address, follows no dangling pointer and stays inside the array in all cases but one: a new
  connection for which \<open>accept\<close> returns -1 or a descriptor of at least 65535, the length of \<open>users\<close>, neither of which the code tests.
\<close>

theorem idle_timers_tied:
  assumes "reachable (idle_init listenfd pipe) (idle_step listenfd pipe) s"
  shows "(\<forall>fd \<in> conns s. \<exists>a n. timer (users s fd) = Some a \<and> timers (timer_lst s) a = Some n \<and> int (user_data (data n)) = fd \<and> expire (data n) = active s fd + 15) \<and>
    dom (timers (timer_lst s)) = (\<lambda>fd. the (timer (users s fd))) ` conns s \<and>
    (\<forall>ev evs k. events s = ev # evs \<longrightarrow> answers_ok listenfd pipe s k \<longrightarrow>
      (event_body listenfd pipe s ev k = None \<longleftrightarrow> fst ev = listenfd \<and> \<not> (0 \<le> accepted k \<and> accepted k < 65535)))"
proof -
  have i: "idle_inv listenfd pipe s" using idle.reachable_inv [OF assms] .
  then obtain ts where ts: "conns_ok s ts" by (auto simp: idle_inv_def)
  then have l: "lst_holds (timer_lst s) ts" "dom (timers (timer_lst s)) = fst ` set ts" "conns s = timer_fd ` set ts" by (auto simp: conns_ok_def lst_inv_def)
  have "\<exists>a n. timer (users s fd) = Some a \<and> timers (timer_lst s) a = Some n \<and> int (user_data (data n)) = fd \<and> expire (data n) = active s fd + 15" if fd: "fd \<in> conns s" for fd
  proof -
    obtain a d where a: "(a, d) \<in> set ts" "timer (users s fd) = Some a" "timer_fd (a, d) = fd" "expire d = active s fd + 15"
      using conns_ok_timer [OF ts fd] by metis
    then obtain n where "timers (timer_lst s) a = Some n" "data n = d" using lst_holds_data [OF l(1) a(1)] by auto
    then show ?thesis using a by (auto simp: timer_fd_def)
  qed
  moreover have "(\<lambda>fd. the (timer (users s fd))) ` timer_fd ` set ts = fst ` set ts"
    unfolding image_image by (rule image_cong) (use conns_ok_tied [OF ts] in \<open>auto simp: tied_def\<close>)
  moreover have "event_body listenfd pipe s ev k = None \<longleftrightarrow> fst ev = listenfd \<and> \<not> (0 \<le> accepted k \<and> accepted k < 65535)"
    if "events s = ev # evs" "answers_ok listenfd pipe s k" for ev evs k
  proof (cases "fst ev = listenfd \<and> \<not> valid_fd (accepted k)")
    case True
    then show ?thesis by (simp add: event_body_def on_accept_def valid_fd_def FD_LIMIT_def)
  next
    case False
    then have "event_body listenfd pipe s ev k \<noteq> None" using event_body_ok [OF i that(1,2)] by auto
    then show ?thesis using False by (auto simp: valid_fd_def FD_LIMIT_def)
  qed
  ultimately show ?thesis using l(2,3) by auto
qed

text \<open>
  C12. Idle connections: a round of the loop in which the alarm has arrived closes exactly the connections that have sent
  nothing for 15 seconds, arms the alarm again, and never fails; a round without it closes none.
\<close>

theorem idle_round_closes:
  assumes "reachable (idle_init listenfd pipe) (idle_step listenfd pipe) s"
  shows "\<exists>t. round_end s = Some t \<and> conns t = (if timeout s then {fd \<in> conns s. now s < active s fd + 15} else conns s) \<and>
    (timeout s \<longrightarrow> alarm t = 5) \<and> \<not> timeout t \<and> at t = (if stop_server s then Stopped else Wait)"
proof -
  obtain ts where "conns_ok s ts" using idle.reachable_inv [OF assms] by (auto simp: idle_inv_def)
  from round_end_ok [OF this] show ?thesis by (auto simp: TIMESLOT_def)
qed

text \<open>The result of \<open>accept\<close> is not tested: a failed call makes the server write before the start of \<open>users\<close>.\<close>

theorem accept_unchecked:
  assumes "accepted k = -1"
  shows "event_body listenfd pipe s (listenfd, p) k = None"
  using assms by (simp add: event_body_def on_accept_def valid_fd_def)

text \<open>An example: a connection is made at time 100, and nothing is heard of it until the alarm at time 120.\<close>

lemma idle_example:
  "\<exists>s. reachable (idle_init 3 4) (idle_step 3 4) s \<and> conns s = {5} \<and> active s 5 = 100 \<and> now s = 120 \<and> timeout s"
proof -
  let ?R = "reachable (idle_init 3 4) (idle_step 3 4)" and ?u = "\<lambda>_. \<lparr>address = (0, 0), sockfd = 0, buf = [], timer = None\<rparr>"
  let ?k = "\<lparr>accepted = 5, peer = (0, 0), fresh = 0, received = Inr [SIGALRM]\<rparr>"
  let ?s0 = "server_start ?u 100"
  let ?s1 = "?s0\<lparr>at := Events, events := [(3, True), (4, True)]\<rparr>"
  have "idle_init 3 4 ?s0" by (auto simp: idle_init_def)
  then have r0: "?R ?s0" by (rule reach_init)
  have "idle_step 3 4 ?s0 ?s1" by (rule ready) (simp_all add: server_start_def)
  with r0 have r1: "?R ?s1" by (rule reach_step)
  have "conns_ok ?s1 []" by (simp add: conns_ok_def server_start_def lst_inv_def lst_holds_def timer_lst_new_def in_order_def)
  then obtain t where t: "on_accept ?s1 5 (0, 0) 0 = Some t" "conns_ok t [(0, \<lparr>expire = 115, user_data = 5\<rparr>)]" "same_loop ?s1 t" "conns t = {5}"
    using on_accept_ok [of ?s1 "[]" 5 0 "(0, 0)"] by (auto simp: server_start_def valid_fd_def FD_LIMIT_def timer_lst_new_def ins_def)
  have "idle_step 3 4 ?s1 (t\<lparr>events := [(4, True)]\<rparr>)"
    by (rule event [of _ "(3, True)" _ _ _ ?k]) (use t(1) in \<open>simp_all add: answers_ok_def event_body_def server_start_def timer_lst_new_def\<close>)
  with r1 have r2: "?R (t\<lparr>events := [(4, True)]\<rparr>)" by (rule reach_step)
  let ?s2 = "t\<lparr>events := [(4, True)]\<rparr>"
  have n: "now t = 100" "at t = Events" "active t 5 = 100" using t(2,3) by (simp_all add: same_loop_def server_start_def conns_ok_def tied_def timer_fd_def)
  have "idle_step 3 4 ?s2 (?s2\<lparr>now := 120\<rparr>)" by (rule clock) (simp add: n)
  with r2 have r3: "?R (?s2\<lparr>now := 120\<rparr>)" by (rule reach_step)
  let ?s3 = "?s2\<lparr>now := 120\<rparr>"
  obtain a where a: "timers (timer_lst t) a = None"
    using t(2) by (auto simp: conns_ok_def lst_inv_def dom_def)
  have "idle_step 3 4 ?s3 (?s3\<lparr>timeout := True, events := []\<rparr>)"
    using event [of ?s3 "(4, True)" "[]" 3 4 "?k\<lparr>accepted := 6, fresh := a\<rparr>" "?s3\<lparr>timeout := True\<rparr>"] n a t(4)
    by (simp add: answers_ok_def event_body_def)
  with r3 have "?R (?s3\<lparr>timeout := True, events := []\<rparr>)" by (rule reach_step)
  then show ?thesis using n t(4) by (intro exI [of _ "?s3\<lparr>timeout := True, events := []\<rparr>"]) simp
qed

theorem idle_timers_tied_witness:
  "\<exists>s a n. reachable (idle_init 3 4) (idle_step 3 4) s \<and> timer (users s 5) = Some a \<and> timers (timer_lst s) a = Some n \<and> expire (data n) = 115"
proof -
  obtain s where s: "reachable (idle_init 3 4) (idle_step 3 4) s" "conns s = {5}" "active s 5 = 100" using idle_example by blast
  from idle_timers_tied [OF s(1)] show ?thesis using s by auto
qed

theorem idle_round_closes_witness:
  "\<exists>s t. reachable (idle_init 3 4) (idle_step 3 4) s \<and> conns s = {5} \<and> round_end s = Some t \<and> conns t = {} \<and> alarm t = 5"
proof -
  obtain s where s: "reachable (idle_init 3 4) (idle_step 3 4) s" "conns s = {5}" "active s 5 = 100" "now s = 120" "timeout s" using idle_example by blast
  from idle_round_closes [OF s(1)] show ?thesis using s by auto
qed

end
