(* ===== verification/Ws_Log.thy ===== *)
theory Ws_Log
  imports Block_Queue C_Buffer
begin

text \<open>
  The log of the web server (\<open>c-plus-plus-server/webserver/log/log.cpp\<close> and \<open>log.h\<close>) on top of its queue: opening
  the file, changing the file by day and by number of lines, building a line in the buffer, and writing it at
  once or through the queue and the writing thread.  The three sections of \<open>write_log\<close> under the mutex are three
  operations, so that the writing thread may run between them.  The disk keeps for every file name the lines appended
  to it; the clock and \<open>fopen\<close> are parameters, and \<open>None\<close> is an access outside an array or through a null pointer.
\<close>

record tm =
  tm_year :: nat
  tm_mon :: nat
  tm_mday :: nat
  tm_hour :: nat
  tm_min :: nat
  tm_sec :: nat

record log =
  dir_name :: "byte list"
  log_name :: "byte list"
  m_split_lines :: int
  m_log_buf_size :: int
  m_count :: int
  m_today :: nat
  m_fp :: "byte list option"
  m_buf :: "byte list"
  m_log_queue :: "byte list block_queue option"
  m_is_async :: bool
  m_close_log :: int
  files :: "byte list \<Rightarrow> byte list list"

text \<open>The object is static, so that every field the constructor does not set is zero.\<close>

definition log_new :: "(byte list \<Rightarrow> byte list list) \<Rightarrow> log" where
  "log_new disk = \<lparr>dir_name = replicate 128 0, log_name = replicate 128 0, m_split_lines = 0, m_log_buf_size = 0, m_count = 0, m_today = 0,
     m_fp = None, m_buf = [], m_log_queue = None, m_is_async = False, m_close_log = 0, files = disk\<rparr>"

text \<open>The conversions \<open>%0wd\<close>, and \<open>snprintf\<close> into an array of \<open>n\<close> bytes.\<close>

definition pad :: "nat \<Rightarrow> nat \<Rightarrow> byte list" where
  "pad w n = replicate (w - length (show_nat n)) 48 @ show_nat n"

definition snprintf :: "nat \<Rightarrow> byte list \<Rightarrow> byte list" where
  "snprintf n s = take (n - 1) s"

definition put_string :: "byte list \<Rightarrow> nat \<Rightarrow> byte list \<Rightarrow> byte list option" where
  "put_string a i s = (if i + length s \<le> length a then Some (overwrite a i s) else None)"

definition date_name :: "tm \<Rightarrow> byte list" where
  "date_name t = show_nat (tm_year t + 1900) @ [95] @ pad 2 (tm_mon t + 1) @ [95] @ pad 2 (tm_mday t) @ [95]"

definition base_of :: "byte list \<Rightarrow> byte list" where
  "base_of name = rev (takeWhile (\<lambda>c. c \<noteq> 47) (rev name))"

definition log_init :: "(byte list \<Rightarrow> bool) \<Rightarrow> tm \<Rightarrow> byte list \<Rightarrow> int \<Rightarrow> int \<Rightarrow> int \<Rightarrow> int \<Rightarrow> log \<Rightarrow> (bool \<times> log) option" where
  "log_init can_open my_tm file_name close_log log_buf_size split_lines max_queue_size l = do {
     l \<leftarrow> (if max_queue_size \<ge> 1 then do {
              q \<leftarrow> bq_new [] max_queue_size;
              Some (l\<lparr>m_is_async := True, m_log_queue := Some q\<rparr>)
            } else Some l);
     buf \<leftarrow> (if log_buf_size < 0 then None else Some (replicate (nat log_buf_size) 0));
     let l = l\<lparr>m_close_log := close_log, m_log_buf_size := log_buf_size, m_buf := buf, m_split_lines := split_lines\<rparr>;
     (name, l) \<leftarrow> (if 47 \<notin> set file_name then Some (snprintf 255 (date_name my_tm @ file_name), l)
                  else do {
                    let base = base_of file_name;
                    ln \<leftarrow> put_string (log_name l) 0 (base @ [0]);
                    dn \<leftarrow> put_string (dir_name l) 0 (take (length file_name - length base) file_name);
                    Some (snprintf 255 (str_of dn @ date_name my_tm @ str_of ln), l\<lparr>log_name := ln, dir_name := dn\<rparr>)
                  });
     let l = l\<lparr>m_today := tm_mday my_tm\<rparr>;
     Some (if can_open name then (True, l\<lparr>m_fp := Some name\<rparr>) else (False, l\<lparr>m_fp := None\<rparr>))
   }"

text \<open>The first section of \<open>write_log\<close>: counting the line and changing the file.\<close>

definition rotate_log :: "(byte list \<Rightarrow> bool) \<Rightarrow> tm \<Rightarrow> log \<Rightarrow> log option" where
  "rotate_log can_open my_tm l = do {
     let l = l\<lparr>m_count := m_count l + 1\<rparr>;
     change \<leftarrow> (if m_today l \<noteq> tm_mday my_tm then Some True
                else if m_split_lines l = 0 then None
                else Some (m_count l smod m_split_lines l = 0));
     if \<not> change then Some l
     else do {
       fp \<leftarrow> m_fp l;
       let tail = snprintf 16 (date_name my_tm);
       let (new_log, l) =
         (if m_today l \<noteq> tm_mday my_tm
          then (snprintf 255 (str_of (dir_name l) @ tail @ str_of (log_name l)), l\<lparr>m_today := tm_mday my_tm, m_count := 0\<rparr>)
          else (snprintf 255 (str_of (dir_name l) @ tail @ str_of (log_name l) @ [46] @ show_int (m_count l sdiv m_split_lines l)), l));
       Some (l\<lparr>m_fp := (if can_open new_log then Some new_log else None)\<rparr>)
     }
   }"

definition level_name :: "int \<Rightarrow> byte list" where
  "level_name level =
     (if level = 0 then bytes ''[debug]:'' else if level = 1 then bytes ''[info]:'' else if level = 2 then bytes ''[warn]:''
      else if level = 3 then bytes ''[erro]:'' else bytes ''[info]:'')"

definition stamp :: "tm \<Rightarrow> nat \<Rightarrow> int \<Rightarrow> byte list" where
  "stamp t usec level = show_nat (tm_year t + 1900) @ [45] @ pad 2 (tm_mon t + 1) @ [45] @ pad 2 (tm_mday t) @ [32] @
     pad 2 (tm_hour t) @ [58] @ pad 2 (tm_min t) @ [58] @ pad 2 (tm_sec t) @ [46] @ pad 6 usec @ [32] @ level_name level @ [32]"

text \<open>The second section: building the line.  \<open>msg\<close> is the text that the format and its arguments denote; \<open>vsnprintf\<close>
  stores at most \<open>m_log_buf_size - 2\<close> bytes of it with a NUL, but returns its whole length.\<close>

definition format_line :: "tm \<Rightarrow> nat \<Rightarrow> int \<Rightarrow> byte list \<Rightarrow> log \<Rightarrow> (byte list \<times> log) option" where
  "format_line my_tm usec level msg l = do {
     let text = stamp my_tm usec level;
     b \<leftarrow> put_string (m_buf l) 0 (snprintf 48 text @ [0]);
     let n = length text;
     b \<leftarrow> put_string b n (snprintf (nat (m_log_buf_size l) - 1) msg @ [0]);
     let m = length msg;
     b \<leftarrow> poke b (n + m) 10;
     b \<leftarrow> poke b (n + m + 1) 0;
     Some (str_of b, l\<lparr>m_buf := b\<rparr>)
   }"

definition fputs :: "byte list \<Rightarrow> log \<Rightarrow> log option" where
  "fputs str l = do { fp \<leftarrow> m_fp l; Some (l\<lparr>files := (files l)(fp := files l fp @ [str])\<rparr>) }"

text \<open>The end of \<open>write_log\<close>: the queue if there is one with room, otherwise the file.\<close>

definition emit :: "byte list \<Rightarrow> log \<Rightarrow> log option" where
  "emit log_str l =
     (if m_is_async l then do {
        q \<leftarrow> m_log_queue l;
        if \<not> bq_full q then do { (ok, q) \<leftarrow> bq_push q log_str; Some (l\<lparr>m_log_queue := Some q\<rparr>) }
        else fputs log_str l
      } else fputs log_str l)"

definition write_log :: "(byte list \<Rightarrow> bool) \<Rightarrow> tm \<Rightarrow> nat \<Rightarrow> int \<Rightarrow> byte list \<Rightarrow> log \<Rightarrow> log option" where
  "write_log can_open my_tm usec level msg l = do {
     l \<leftarrow> rotate_log can_open my_tm l;
     (log_str, l) \<leftarrow> format_line my_tm usec level msg l;
     emit log_str l
   }"

text \<open>One round of the writing thread; on an empty queue it waits.\<close>

definition async_write_log :: "log \<Rightarrow> log option" where
  "async_write_log l = do {
     q \<leftarrow> m_log_queue l;
     (r, q) \<leftarrow> bq_pop True q;
     case r of Item single_log \<Rightarrow> fputs single_log (l\<lparr>m_log_queue := Some q\<rparr>) | _ \<Rightarrow> Some l
   }"

subsection \<open>Building a line\<close>

lemma pad_no_nul [simp]: "0 \<notin> set (pad w n)"
  by (simp add: pad_def)

lemma level_name_no_nul [simp]: "0 \<notin> set (level_name level)"
  by (simp add: level_name_def bytes_def)

lemma stamp_no_nul [simp]: "0 \<notin> set (stamp t usec level)"
  by (simp add: stamp_def)

lemma length_pad: "n < 10 ^ Suc k \<Longrightarrow> Suc k \<le> w \<Longrightarrow> length (pad w n) = w"
  using length_show_nat [of n k] by (simp add: pad_def)

definition valid_time :: "tm \<Rightarrow> nat \<Rightarrow> bool" where
  "valid_time t usec \<longleftrightarrow> tm_year t + 1900 < 10000 \<and> tm_mon t < 12 \<and> tm_mday t \<le> 31 \<and> tm_hour t < 24 \<and> tm_min t < 60 \<and> tm_sec t \<le> 60 \<and> usec < 1000000"

lemma length_stamp:
  assumes "valid_time t usec"
  shows "length (stamp t usec level) \<le> 36"
proof -
  have "length (show_nat (tm_year t + 1900)) \<le> 4" using length_show_nat [of "tm_year t + 1900" 3] assms by (simp add: valid_time_def)
  moreover have "length (pad 2 n) = 2" if "n < 100" for n using length_pad [of n 1 2] that by simp
  moreover have "length (pad 6 usec) = 6" using length_pad [of usec 5 6] assms by (simp add: valid_time_def)
  moreover have "length (level_name level) \<le> 8" by (simp add: level_name_def)
  ultimately show ?thesis using assms by (simp add: stamp_def valid_time_def)
qed

definition line :: "tm \<Rightarrow> nat \<Rightarrow> int \<Rightarrow> byte list \<Rightarrow> byte list" where
  "line t usec level msg = stamp t usec level @ msg @ [10]"

definition buf_ok :: "log \<Rightarrow> bool" where
  "buf_ok l \<longleftrightarrow> int (length (m_buf l)) = m_log_buf_size l"

lemma put_string_length: "put_string a i s = Some b \<Longrightarrow> length b = length a"
  by (auto simp: put_string_def split: if_splits)

lemma poke_length: "poke a i v = Some b \<Longrightarrow> length b = length a"
  by (auto simp: poke_def split: if_splits)

lemma format_line_fits:
  assumes "buf_ok l" "length (stamp t usec level) \<le> 36" "length (stamp t usec level) + length msg + 2 \<le> length (m_buf l)" "0 \<notin> set msg"
  shows "\<exists>b. format_line t usec level msg l = Some (line t usec level msg, l\<lparr>m_buf := b\<rparr>) \<and> length b = length (m_buf l)"
proof -
  let ?s = "stamp t usec level"
  let ?n = "length ?s" and ?m = "length msg"
  have z: "nat (m_log_buf_size l) = length (m_buf l)" using assms(1) by (simp add: buf_ok_def flip: of_nat_eq_iff)
  obtain c r where r: "drop (?n + ?m + 1) (m_buf l) = c # r" using assms(3) by (cases "drop (?n + ?m + 1) (m_buf l)") auto
  let ?b1 = "?s @ [0] @ drop (?n + 1) (m_buf l)"
  have b1: "put_string (m_buf l) 0 (snprintf 48 ?s @ [0]) = Some ?b1"
    using assms(2,3) by (simp add: put_string_def snprintf_def overwrite_def)
  have "snprintf (nat (m_log_buf_size l) - 1) msg = msg" using assms(3) z by (simp add: snprintf_def)
  then have b2: "put_string ?b1 ?n (snprintf (nat (m_log_buf_size l) - 1) msg @ [0]) = Some (?s @ msg @ [0] @ c # r)"
    using assms(3) r by (simp add: put_string_def overwrite_def ac_simps)
  have b3: "poke (?s @ msg @ [0] @ c # r) (?n + ?m) 10 = Some (?s @ msg @ [10] @ c # r)" by (simp add: poke_def list_update_append)
  have b4: "poke (?s @ msg @ [10] @ c # r) (?n + ?m + 1) 0 = Some (?s @ msg @ [10] @ 0 # r)" by (simp add: poke_def list_update_append)
  have "str_of ((?s @ msg @ [10]) @ 0 # r) = ?s @ msg @ [10]" by (rule str_of_nul) (use assms(4) in simp)
  then have "format_line t usec level msg l = Some (line t usec level msg, l\<lparr>m_buf := ?s @ msg @ [10] @ 0 # r\<rparr>)"
    unfolding format_line_def Let_def b1 Option.bind.bind_lunit b2 b3 b4 line_def by simp
  moreover have "length (c # r) = length (m_buf l) - (?n + ?m + 1)" unfolding r [symmetric] by simp
  ultimately show ?thesis using assms(3) by auto
qed

lemma format_line_overrun:
  assumes "length (m_buf l) < length (stamp t usec level) + length msg + 2"
  shows "format_line t usec level msg l = None"
proof (rule ccontr)
  assume "format_line t usec level msg l \<noteq> None"
  then obtain b1 b2 b3 b4 where b: "put_string (m_buf l) 0 (snprintf 48 (stamp t usec level) @ [0]) = Some b1"
      "put_string b1 (length (stamp t usec level)) (snprintf (nat (m_log_buf_size l) - 1) msg @ [0]) = Some b2"
      "poke b2 (length (stamp t usec level) + length msg) 10 = Some b3" "poke b3 (length (stamp t usec level) + length msg + 1) 0 = Some b4"
    by (auto simp: format_line_def Let_def bind_eq_Some_conv)
  have "length b3 = length (m_buf l)" using put_string_length [OF b(1)] put_string_length [OF b(2)] poke_length [OF b(3)] by simp
  then show False using b(4) assms by (simp add: poke_def split: if_splits)
qed

subsection \<open>Changing the file\<close>

lemma smod_pos: "0 \<le> a \<Longrightarrow> 0 < b \<Longrightarrow> a smod b = a mod (b :: int)"
  by (simp add: signed_modulo_int_def sgn_if)

lemma sdiv_pos: "0 \<le> a \<Longrightarrow> 0 < b \<Longrightarrow> a sdiv b = a div (b :: int)"
  by (auto simp: signed_divide_int_def sgn_if)

text \<open>The file with the number \<open>q\<close> of a day.\<close>

definition numbered :: "log \<Rightarrow> byte list \<Rightarrow> int \<Rightarrow> byte list" where
  "numbered l d q = snprintf 255 (str_of (dir_name l) @ snprintf 16 d @ str_of (log_name l) @ [46] @ show_int q)"

lemma next_div:
  fixes c k :: int
  assumes "0 < k"
  shows "(c + 1) div k = (if (c + 1) mod k = 0 then c div k + 1 else c div k)"
proof (cases "c mod k + 1 = k")
  case True
  moreover have "k * (c div k) + c mod k = c" by simp
  ultimately have "c + 1 = k * (c div k) + k" by linarith
  then have e: "c + 1 = k * (c div k + 1)" by (simp add: distrib_left)
  have "(c + 1) div k = c div k + 1" "(c + 1) mod k = 0" using assms by (subst e, simp)+
  then show ?thesis by simp
next
  case False
  have e: "c + 1 = k * (c div k) + (c mod k + 1)" by simp
  have r: "0 < c mod k + 1" "c mod k + 1 < k" using pos_mod_bound [OF assms, of c] pos_mod_sign [OF assms, of c] False by linarith+
  have "(c + 1) div k = c div k" "(c + 1) mod k = c mod k + 1"
    using int_div_pos_eq [OF e] int_mod_pos_eq [OF e] r by simp_all
  then show ?thesis using r by simp
qed

text \<open>A message fits when it leaves room for the stamp, the line feed and the NUL.\<close>

definition fits :: "log \<Rightarrow> tm \<Rightarrow> nat \<Rightarrow> byte list \<Rightarrow> bool" where
  "fits l t usec msg \<longleftrightarrow> valid_time t usec \<and> length msg + 38 \<le> length (m_buf l) \<and> 0 \<notin> set msg"

lemma format_line_ok:
  assumes "buf_ok l" "fits l t usec msg"
  shows "\<exists>b. format_line t usec level msg l = Some (line t usec level msg, l\<lparr>m_buf := b\<rparr>) \<and> length b = length (m_buf l)"
proof (rule format_line_fits [OF assms(1)])
  show s: "length (stamp t usec level) \<le> 36" using assms(2) length_stamp by (simp add: fits_def)
  show "length (stamp t usec level) + length msg + 2 \<le> length (m_buf l)" "0 \<notin> set msg" using assms(2) s by (auto simp: fits_def)
qed

lemma rotate_same_day:
  assumes "m_fp l = Some f" "0 < m_split_lines l" "0 \<le> m_count l" "tm_mday t = m_today l" "\<forall>n. can_open n"
  shows "rotate_log can_open t l = Some (l\<lparr>m_count := m_count l + 1,
    m_fp := Some (if (m_count l + 1) mod m_split_lines l = 0 then numbered l (date_name t) ((m_count l + 1) div m_split_lines l) else f)\<rparr>)"
  using assms by (auto simp: rotate_log_def numbered_def smod_pos sdiv_pos)

definition current :: "log \<Rightarrow> bool" where
  "current l \<longleftrightarrow> buf_ok l \<and> 0 < m_split_lines l \<and> 0 \<le> m_count l \<and> m_fp l \<noteq> None"

lemma write_log_sync:
  assumes "current l" "\<not> m_is_async l" "m_fp l = Some f" "tm_mday t = m_today l" "\<forall>n. can_open n" "fits l t usec msg"
    and "g = (if (m_count l + 1) mod m_split_lines l = 0 then numbered l (date_name t) ((m_count l + 1) div m_split_lines l) else f)"
  shows "\<exists>b. write_log can_open t usec level msg l = Some (l\<lparr>m_count := m_count l + 1, m_fp := Some g, m_buf := b,
    files := (files l)(g := files l g @ [line t usec level msg])\<rparr>) \<and> length b = length (m_buf l)"
proof -
  let ?l = "l\<lparr>m_count := m_count l + 1, m_fp := Some g\<rparr>"
  have "rotate_log can_open t l = Some ?l" using rotate_same_day [of l f t can_open] assms by (simp add: current_def)
  moreover have "buf_ok ?l" "fits ?l t usec msg" using assms(1,6) by (simp_all add: current_def buf_ok_def fits_def)
  then obtain b where "format_line t usec level msg ?l = Some (line t usec level msg, ?l\<lparr>m_buf := b\<rparr>)" "length b = length (m_buf ?l)"
    using format_line_ok by blast
  ultimately show ?thesis using assms(2) by (auto simp: write_log_def emit_def fputs_def)
qed

text \<open>Writing several lines, each with its time, level and text.\<close>

fun write_all :: "(byte list \<Rightarrow> bool) \<Rightarrow> (tm \<times> nat \<times> int \<times> byte list) list \<Rightarrow> log \<Rightarrow> log option" where
  "write_all can_open [] l = Some l"
| "write_all can_open ((t, usec, level, msg) # ws) l = do { l \<leftarrow> write_log can_open t usec level msg l; write_all can_open ws l }"

definition line_of :: "tm \<times> nat \<times> int \<times> byte list \<Rightarrow> byte list" where
  "line_of w = (case w of (t, usec, level, msg) \<Rightarrow> line t usec level msg)"

definition on_day :: "log \<Rightarrow> byte list \<Rightarrow> tm \<times> nat \<times> int \<times> byte list \<Rightarrow> bool" where
  "on_day l d w \<longleftrightarrow> (case w of (t, usec, level, msg) \<Rightarrow> tm_mday t = m_today l \<and> date_name t = d \<and> fits l t usec msg)"

definition sent_to :: "(int \<Rightarrow> byte list) \<Rightarrow> int \<Rightarrow> byte list \<Rightarrow> byte list list \<Rightarrow> byte list list" where
  "sent_to file_at c name xs = concat (map (\<lambda>i. if file_at (c + 1 + int i) = name then [xs ! i] else []) [0..<length xs])"

lemma sent_to_Cons: "sent_to g c name (x # xs) = (if g (c + 1) = name then [x] else []) @ sent_to g (c + 1) name xs"
proof -
  have "map (\<lambda>i. if g (c + 1 + int i) = name then [(x # xs) ! i] else []) [0..<Suc (length xs)] =
      (if g (c + 1) = name then [x] else []) # map (\<lambda>i. if g (c + 1 + 1 + int i) = name then [xs ! i] else []) [0..<length xs]"
    by (simp add: upt_conv_Cons map_Suc_upt [symmetric] comp_def ac_simps del: upt_Suc)
  then show ?thesis by (simp add: sent_to_def del: upt_Suc)
qed

lemma write_all_sync:
  assumes "\<forall>n. can_open n"
  shows "current l \<Longrightarrow> \<not> m_is_async l \<Longrightarrow> \<forall>w \<in> set ws. on_day l d w \<Longrightarrow> m_fp l = Some (g (m_count l div m_split_lines l)) \<Longrightarrow>
    \<forall>q > m_count l div m_split_lines l. g q = numbered l d q \<Longrightarrow>
    \<exists>l'. write_all can_open ws l = Some l' \<and> m_count l' = m_count l + int (length ws) \<and>
      (\<forall>name. files l' name = files l name @ sent_to (\<lambda>i. g (i div m_split_lines l)) (m_count l) name (map line_of ws))"
proof (induction ws arbitrary: l)
  case Nil
  then show ?case by (simp add: sent_to_def)
next
  case (Cons w ws)
  obtain t usec level msg where w: "w = (t, usec, level, msg)" by (cases w) auto
  let ?k = "m_split_lines l" and ?c = "m_count l + 1"
  let ?f = "g (?c div ?k)"
  have day: "tm_mday t = m_today l" "date_name t = d" "fits l t usec msg" using Cons.prems(3) by (auto simp: w on_day_def)
  have k: "0 < ?k" using Cons.prems(1) by (simp add: current_def)
  have "?f = (if ?c mod ?k = 0 then numbered l (date_name t) (?c div ?k) else g (m_count l div ?k))"
    using next_div [OF k, of "m_count l"] Cons.prems(5) day(2) by simp
  from write_log_sync [OF Cons.prems(1,2,4) day(1) assms day(3) this, where level = level]
  obtain b where b: "write_log can_open t usec level msg l = Some (l\<lparr>m_count := ?c, m_fp := Some ?f, m_buf := b,
      files := (files l)(?f := files l ?f @ [line t usec level msg])\<rparr>)" "length b = length (m_buf l)"
    by blast
  let ?l = "l\<lparr>m_count := ?c, m_fp := Some ?f, m_buf := b, files := (files l)(?f := files l ?f @ [line t usec level msg])\<rparr>"
  have num: "numbered ?l = numbered l" by (simp add: numbered_def fun_eq_iff)
  have le: "m_count l div ?k \<le> ?c div ?k" using k by (simp add: zdiv_mono1)
  have "current ?l" "\<not> m_is_async ?l" using Cons.prems(1,2) b(2) by (auto simp: current_def buf_ok_def)
  moreover have "\<forall>w \<in> set ws. on_day ?l d w" using Cons.prems(3) b(2) by (auto simp: on_day_def fits_def)
  moreover have "m_fp ?l = Some (g (m_count ?l div m_split_lines ?l))" by simp
  moreover have "\<forall>q > m_count ?l div m_split_lines ?l. g q = numbered ?l d q" unfolding num using Cons.prems(5) le by auto
  ultimately obtain l' where l': "write_all can_open ws ?l = Some l'" "m_count l' = m_count ?l + int (length ws)"
      "\<forall>name. files l' name = files ?l name @ sent_to (\<lambda>i. g (i div m_split_lines ?l)) (m_count ?l) name (map line_of ws)"
    using Cons.IH [of ?l] by blast
  then have "\<forall>name. files l' name = files l name @ sent_to (\<lambda>i. g (i div m_split_lines l)) (m_count l) name (map line_of (w # ws))"
    by (simp add: w sent_to_Cons line_of_def)
  moreover have "write_all can_open (w # ws) l = Some l'" using b(1) l'(1) by (simp add: w)
  ultimately show ?case using l'(2) by auto
qed

subsection \<open>The writing thread\<close>

fun drain_log :: "nat \<Rightarrow> log \<Rightarrow> log option" where
  "drain_log 0 l = Some l"
| "drain_log (Suc n) l = do { l \<leftarrow> async_write_log l; drain_log n l }"

lemma drain_queue:
  "m_fp l = Some f \<Longrightarrow> m_log_queue l = Some q \<Longrightarrow> ring_holds q xs \<Longrightarrow>
   \<exists>l'. drain_log (length xs) l = Some l' \<and> files l' = (files l)(f := files l f @ xs) \<and> (\<exists>q'. m_log_queue l' = Some q' \<and> ring_holds q' [])"
proof (induction xs arbitrary: l q)
  case Nil
  then show ?case by simp
next
  case (Cons x xs)
  obtain q' where q': "bq_take q = Some (x, q')" "ring_holds q' xs" using bq_take_ok [OF Cons.prems(3)] by blast
  have "\<not> m_size q \<le> 0" using Cons.prems(3) by (auto simp: ring_holds_def)
  then have "async_write_log l = Some (l\<lparr>m_log_queue := Some q', files := (files l)(f := files l f @ [x])\<rparr>)"
    using Cons.prems(1,2) q'(1) by (simp add: async_write_log_def bq_pop_def fputs_def)
  then show ?case using Cons.IH [of "l\<lparr>m_log_queue := Some q', files := (files l)(f := files l f @ [x])\<rparr>" q'] Cons.prems(1) q'(2) by (auto simp: fun_eq_iff)
qed

subsection \<open>Properties\<close>

text \<open>
  C13. Log: without the queue, when the calls of \<open>write_log\<close> come one after the other and all on the day of the open file, every message leaves room in
  the buffer for its stamp (38 bytes more), and every \<open>fopen\<close> succeeds, the lines are spread over files by their number: line number \<open>i\<close> goes to
  the current file while \<open>i\<close> divided by \<open>m_split_lines\<close> is what it was, and after that to the file whose name ends in that quotient;
  every line is written once, complete and in order.
\<close>

theorem log_splits_files:
  assumes "current l" "\<not> m_is_async l" "\<forall>n. can_open n" "\<forall>w \<in> set ws. on_day l d w" "m_fp l = Some f"
    and file_at_def: "file_at = (\<lambda>i. if i div m_split_lines l = m_count l div m_split_lines l then f else numbered l d (i div m_split_lines l))"
  shows "\<exists>l'. write_all can_open ws l = Some l' \<and> m_count l' = m_count l + int (length ws) \<and>
    (\<forall>name. files l' name = files l name @ sent_to file_at (m_count l) name (map line_of ws))"
  using write_all_sync [OF assms(3,1,2,4), of "\<lambda>q. if q = m_count l div m_split_lines l then f else numbered l d q"] assms(5)
  by (simp add: file_at_def)

text \<open>
  Log: a line is built without leaving the buffer exactly when the message leaves room for the stamp, a line feed and a
  NUL; a longer message, which \<open>vsnprintf\<close> is meant to cut off, is followed by a write past the end of the buffer.
\<close>

theorem log_line_bounds:
  assumes "buf_ok l" "valid_time t usec" "0 \<notin> set msg"
  shows "format_line t usec level msg l = None \<longleftrightarrow> length (m_buf l) < length (stamp t usec level) + length msg + 2"
proof
  assume n: "format_line t usec level msg l = None"
  show "length (m_buf l) < length (stamp t usec level) + length msg + 2"
  proof (rule ccontr)
    assume "\<not> length (m_buf l) < length (stamp t usec level) + length msg + 2"
    then show False using format_line_fits [OF assms(1) length_stamp [OF assms(2)] _ assms(3), of level] n by auto
  qed
qed (rule format_line_overrun)

text \<open>
  Log: with the queue, a line that finds the queue full is written to the file before all lines that wait in it; one that
  finds room comes after them.
\<close>

theorem log_overtakes:
  assumes "current l" "m_is_async l" "m_log_queue l = Some q" "ring_holds q xs" "m_fp l = Some f"
    and "tm_mday t = m_today l" "(m_count l + 1) mod m_split_lines l \<noteq> 0" "\<forall>n. can_open n" "fits l t usec msg"
  shows "\<exists>l1 l2. write_log can_open t usec level msg l = Some l1 \<and>
    drain_log (if bq_full q then length xs else length xs + 1) l1 = Some l2 \<and>
    files l2 f = files l f @ (if bq_full q then line t usec level msg # xs else xs @ [line t usec level msg])"
proof -
  let ?l = "l\<lparr>m_count := m_count l + 1, m_fp := Some f\<rparr>" and ?x = "line t usec level msg"
  have "rotate_log can_open t l = Some ?l" using rotate_same_day [of l f t can_open] assms(1,5-8) by (simp add: current_def)
  moreover have "buf_ok ?l" "fits ?l t usec msg" using assms(1,9) by (simp_all add: current_def buf_ok_def fits_def)
  then obtain b where "format_line t usec level msg ?l = Some (?x, ?l\<lparr>m_buf := b\<rparr>)" using format_line_ok by blast
  ultimately have w: "write_log can_open t usec level msg l = emit ?x (?l\<lparr>m_buf := b\<rparr>)" by (simp add: write_log_def)
  show ?thesis
  proof (cases "bq_full q")
    case True
    then have e: "emit ?x (?l\<lparr>m_buf := b\<rparr>) = Some (?l\<lparr>m_buf := b, files := (files l)(f := files l f @ [?x])\<rparr>)" (is "_ = Some ?e")
      using assms(2,3) by (simp add: emit_def fputs_def)
    from drain_queue [of ?e f q xs] assms(3,4) e w True show ?thesis by auto
  next
    case False
    then obtain q' where q': "bq_push q ?x = Some (True, q')" "ring_holds q' (xs @ [?x])" using bq_push_ok [OF assms(4), of ?x] by auto
    then have e: "emit ?x (?l\<lparr>m_buf := b\<rparr>) = Some (?l\<lparr>m_buf := b, m_log_queue := Some q'\<rparr>)" (is "_ = Some ?e")
      using assms(2,3) False by (simp add: emit_def)
    from drain_queue [of ?e f q' "xs @ [?x]"] q'(2) e w False show ?thesis by auto
  qed
qed

text \<open>A log for the examples, on the second of January 2024.\<close>

definition example_day :: tm where
  "example_day = \<lparr>tm_year = 124, tm_mon = 0, tm_mday = 2, tm_hour = 10, tm_min = 0, tm_sec = 0\<rparr>"

definition example_log :: "byte list block_queue option \<Rightarrow> log" where
  "example_log q = (log_new (\<lambda>_. []))\<lparr>m_split_lines := 3, m_log_buf_size := 64, m_buf := replicate 64 0, m_today := 2, m_fp := Some [97],
     m_log_queue := q, m_is_async := (q \<noteq> None)\<rparr>"

lemma example_log_ok: "current (example_log q)" "fits (example_log q) example_day 0 [104, 105]"
  by (simp_all add: current_def buf_ok_def example_log_def log_new_def fits_def valid_time_def example_day_def)

theorem log_splits_files_witness:
  "\<exists>l'. write_all (\<lambda>_. True) (replicate 3 (example_day, 0, 1, [104, 105])) (example_log None) = Some l' \<and> m_count l' = 3 \<and>
     files l' (numbered (example_log None) (date_name example_day) 1) = [line example_day 0 1 [104, 105]]"
proof -
  let ?l = "example_log None"
  have f: "\<not> m_is_async ?l" "m_fp ?l = Some [97]" "m_split_lines ?l = 3" "m_count ?l = 0" "files ?l = (\<lambda>_. [])"
      "tm_mday example_day = m_today ?l" by (simp_all add: example_log_def log_new_def example_day_def)
  have d: "\<forall>w \<in> set (replicate 3 (example_day, 0, 1, [104, 105])). on_day ?l (date_name example_day) w"
    using example_log_ok(2) f(6) by (simp add: on_day_def)
  have n: "numbered ?l (date_name example_day) 1 \<noteq> [97]"
    by (simp add: numbered_def snprintf_def example_log_def log_new_def date_name_def example_day_def str_of_def show_nat.simps show_int_def pad_def)
  from log_splits_files [OF example_log_ok(1) f(1) _ d f(2) refl, of "\<lambda>_. True"] show ?thesis
    using n not_sym [OF n] by (auto simp: f sent_to_def line_of_def numeral_3_eq_3 upt_conv_Cons)
qed

theorem log_line_bounds_witness:
  "format_line example_day 0 1 (replicate 64 97) (example_log None) = None"
  using log_line_bounds [of "example_log None" example_day 0 "replicate 64 97" 1] example_log_ok(1) [of None]
  by (simp add: current_def valid_time_def example_day_def example_log_def log_new_def)

theorem log_overtakes_witness:
  "\<exists>l1 l2. write_log (\<lambda>_. True) example_day 0 1 [104, 105] (example_log (Some \<lparr>m_array = [[98]], m_size = 1, m_max_size = 1, m_front = -1, m_back = 0\<rparr>)) = Some l1 \<and>
     drain_log 1 l1 = Some l2 \<and> files l2 [97] = [line example_day 0 1 [104, 105], [98]]"
proof -
  let ?q = "\<lparr>m_array = [[98 :: byte]], m_size = 1, m_max_size = 1, m_front = -1, m_back = 0\<rparr>"
  let ?l = "example_log (Some ?q)"
  have q: "ring_holds ?q [[98]]" by (simp add: ring_holds_def ring_wf_def ring_slot_def)
  have f: "m_is_async ?l" "m_log_queue ?l = Some ?q" "m_fp ?l = Some [97]" "tm_mday example_day = m_today ?l" "(m_count ?l + 1) mod m_split_lines ?l \<noteq> 0" "files ?l [97] = []"
    by (simp_all add: example_log_def log_new_def example_day_def)
  from log_overtakes [OF example_log_ok(1) f(1,2) q f(3,4,5) _ example_log_ok(2), of "\<lambda>_. True" 1] show ?thesis
    by (simp add: f(6) bq_full_def)
qed

end
