(* ===== verification/Echo_Days.thy ===== *)
theory Echo_Days
  imports C_Buffer
begin

unbundle bit_operations_syntax

text \<open>
  The echo server of \<open>c-plus-plus-server/server-30\<close> in its versions: \<open>day03-epoll/server.cpp\<close> with everything in \<open>main\<close>, and
  \<open>day04\<close> with the classes \<open>Socket\<close> and \<open>Epoll\<close>; the versions with channels are in \<open>Event_Loop\<close>.  The kernel is a record of the
  epoll set, the open and the non-blocking descriptors and what the server has written; what \<open>epoll_wait\<close> reports and what
  \<open>accept\<close> and \<open>read\<close> return are arguments, and a \<open>write\<close> sends all it is given.  The specification \<open>spec_round\<close> says what a round of the loop does to the
  connections, and the locale \<open>echo_version\<close> that a version implements it.  \<open>None\<close> is the exit in \<open>errif\<close> or an access through a bad pointer.
\<close>

subsection \<open>The kernel\<close>

definition READ_BUFFER :: nat where "READ_BUFFER = 1024"
definition EPOLLIN :: "32 word" where "EPOLLIN = 0x001"
definition EPOLLET :: "32 word" where "EPOLLET = 0x80000000"

text \<open>An entry of the epoll set has its events and the user data, a descriptor or a pointer.\<close>

record 'd net =
  watched :: "int \<Rightarrow> (32 word \<times> 'd) option"
  open_fds :: "int set"
  nonblock :: "int set"
  sent :: "int \<Rightarrow> byte list"

text \<open>The results of \<open>read\<close>: bytes, or a failure with \<open>EINTR\<close>, \<open>EAGAIN\<close> or another error, or the end of the stream.\<close>

datatype read_result = Got "byte list" | Interrupted | Again | Failed | Eof

record answers =
  accepted :: int
  reads :: "read_result list"

type_synonym report = "int \<times> 32 word \<times> answers"

definition errif :: "bool \<Rightarrow> unit option" where
  "errif condition = (if condition then None else Some ())"

definition epoll_add :: "int \<Rightarrow> 32 word \<Rightarrow> 'd \<Rightarrow> 'd net \<Rightarrow> 'd net option" where
  "epoll_add fd ev d n = (if fd \<in> open_fds n \<and> watched n fd = None then Some (n\<lparr>watched := (watched n)(fd \<mapsto> (ev, d))\<rparr>) else None)"

definition epoll_mod :: "int \<Rightarrow> 32 word \<Rightarrow> 'd \<Rightarrow> 'd net \<Rightarrow> 'd net option" where
  "epoll_mod fd ev d n = (if fd \<in> open_fds n \<and> watched n fd \<noteq> None then Some (n\<lparr>watched := (watched n)(fd \<mapsto> (ev, d))\<rparr>) else None)"

text \<open>Closing a descriptor takes it out of the epoll set; a new one has nothing in it and has sent nothing.\<close>

definition close_fd :: "int \<Rightarrow> 'd net \<Rightarrow> 'd net" where
  "close_fd fd n = n\<lparr>open_fds := open_fds n - {fd}, watched := (watched n)(fd := None)\<rparr>"

definition open_fd :: "int \<Rightarrow> 'd net \<Rightarrow> 'd net" where
  "open_fd fd n = n\<lparr>open_fds := insert fd (open_fds n), nonblock := nonblock n - {fd}, sent := (sent n)(fd := [])\<rparr>"

definition setnonblocking :: "int \<Rightarrow> 'd net \<Rightarrow> 'd net" where
  "setnonblocking fd n = n\<lparr>nonblock := insert fd (nonblock n)\<rparr>"

definition write_fd :: "int \<Rightarrow> byte list \<Rightarrow> 'd net \<Rightarrow> 'd net" where
  "write_fd fd bs n = n\<lparr>sent := (sent n)(fd := sent n fd @ bs)\<rparr>"

subsection \<open>Reading\<close>

text \<open>The buffer after \<open>bzero\<close> and \<open>read\<close>.\<close>

definition read_buffer :: "byte list \<Rightarrow> byte list" where
  "read_buffer bs = overwrite (replicate READ_BUFFER 0) 0 (take READ_BUFFER bs)"

text \<open>The loop that reads until the socket is empty: every read with data writes the whole buffer, and an error other than
  \<open>EAGAIN\<close> is tried again.  A socket of which nothing else is known has no data.\<close>

fun handleReadEvent :: "int \<Rightarrow> read_result list \<Rightarrow> 'd net \<Rightarrow> 'd net" where
  "handleReadEvent fd [] n = n"
| "handleReadEvent fd (Got bs # rs) n = handleReadEvent fd rs (write_fd fd (read_buffer bs) n)"
| "handleReadEvent fd (Interrupted # rs) n = handleReadEvent fd rs n"
| "handleReadEvent fd (Failed # rs) n = handleReadEvent fd rs n"
| "handleReadEvent fd (Again # rs) n = n"
| "handleReadEvent fd (Eof # rs) n = close_fd fd n"

subsection \<open>Day 3\<close>

definition day3_start :: "int \<Rightarrow> int net" where
  "day3_start sockfd = (let n = \<lparr>watched = Map.empty, open_fds = {sockfd}, nonblock = {}, sent = (\<lambda>_. [])\<rparr>;
     n = setnonblocking sockfd n
   in case epoll_add sockfd (EPOLLIN OR EPOLLET) sockfd n of None \<Rightarrow> n | Some n \<Rightarrow> n)"

definition day3_event :: "int \<Rightarrow> int \<times> 32 word \<times> answers \<Rightarrow> int net \<Rightarrow> int net option" where
  "day3_event sockfd r n = (case r of (fd, ev, k) \<Rightarrow>
     if fd = sockfd then do {
       let client = accepted k;
       _ \<leftarrow> errif (client = -1);
       let n = setnonblocking client (open_fd client n);
       Some (case epoll_add client (EPOLLIN OR EPOLLET) client n of None \<Rightarrow> n | Some n \<Rightarrow> n)
     }
     else if ev AND EPOLLIN \<noteq> 0 then Some (handleReadEvent fd (reads k) n)
     else Some n)"

fun day3_events :: "int \<Rightarrow> report list \<Rightarrow> int net \<Rightarrow> int net option" where
  "day3_events sockfd [] n = Some n"
| "day3_events sockfd (r # rs) n = do { n \<leftarrow> day3_event sockfd r n; day3_events sockfd rs n }"

text \<open>What \<open>epoll_wait\<close> stores is the user data of the descriptors it reports; they are those that are ready.\<close>

fun wait_data :: "report list \<Rightarrow> 'd net \<Rightarrow> ('d \<times> 32 word \<times> answers) list option" where
  "wait_data [] n = Some []"
| "wait_data ((fd, ev, k) # rs) n = do { (_, d) \<leftarrow> watched n fd; ds \<leftarrow> wait_data rs n; Some ((d, ev, k) # ds) }"

definition day3_round :: "int \<Rightarrow> report list \<Rightarrow> int net \<Rightarrow> int net option" where
  "day3_round sockfd rs n = do { events \<leftarrow> wait_data rs n; day3_events sockfd events n }"

subsection \<open>Day 4\<close>

text \<open>The constructor \<open>Socket(int)\<close> and \<open>Socket::accept\<close>.\<close>

definition socket_of :: "int \<Rightarrow> int option" where
  "socket_of fd = do { _ \<leftarrow> errif (fd = -1); Some fd }"

definition socket_accept :: "answers \<Rightarrow> 'd net \<Rightarrow> (int \<times> 'd net) option" where
  "socket_accept k n = do { _ \<leftarrow> errif (accepted k = -1); Some (accepted k, open_fd (accepted k) n) }"

definition addFileDescriptor :: "int \<Rightarrow> 32 word \<Rightarrow> int net \<Rightarrow> int net option" where
  "addFileDescriptor fd opn n = epoll_add fd opn fd n"

text \<open>\<open>Epoll::poll\<close> copies what \<open>epoll_wait\<close> has stored.\<close>

definition day4_poll :: "report list \<Rightarrow> int net \<Rightarrow> (int \<times> 32 word \<times> answers) list option" where
  "day4_poll rs n = wait_data rs n"

definition day4_start :: "int \<Rightarrow> int net option" where
  "day4_start sockfd = do {
     fd \<leftarrow> socket_of sockfd;
     let n = \<lparr>watched = Map.empty, open_fds = {fd}, nonblock = {}, sent = (\<lambda>_. [])\<rparr>;
     addFileDescriptor fd (EPOLLIN OR EPOLLET) (setnonblocking fd n)
   }"

fun day4_events :: "int \<Rightarrow> report list \<Rightarrow> int net \<Rightarrow> int net option" where
  "day4_events sockfd [] n = Some n"
| "day4_events sockfd ((fd, ev, k) # rs) n = do {
     n \<leftarrow> (if fd = sockfd then do {
              (c, n) \<leftarrow> socket_accept k n;
              client \<leftarrow> socket_of c;
              addFileDescriptor client (EPOLLIN OR EPOLLET) (setnonblocking client n)
            }
            else if ev AND EPOLLIN \<noteq> 0 then Some (handleReadEvent fd (reads k) n)
            else Some n);
     day4_events sockfd rs n
   }"

definition day4_round :: "int \<Rightarrow> report list \<Rightarrow> int net \<Rightarrow> int net option" where
  "day4_round sockfd rs n = do { events \<leftarrow> day4_poll rs n; day4_events sockfd events n }"

subsection \<open>What a round of the loop means\<close>

record view =
  conns :: "int set"
  quick :: "int set"
  output_of :: "int \<Rightarrow> byte list"

text \<open>The bytes a series of reads makes the server send, and whether it ends the connection.\<close>

fun echo_of :: "read_result list \<Rightarrow> byte list \<times> bool" where
  "echo_of [] = ([], False)"
| "echo_of (Got bs # rs) = (read_buffer bs @ fst (echo_of rs), snd (echo_of rs))"
| "echo_of (Interrupted # rs) = echo_of rs"
| "echo_of (Failed # rs) = echo_of rs"
| "echo_of (Again # rs) = ([], False)"
| "echo_of (Eof # rs) = ([], True)"

definition spec_event :: "int \<Rightarrow> report \<Rightarrow> view \<Rightarrow> view" where
  "spec_event sockfd r v = (case r of (fd, ev, k) \<Rightarrow>
     if fd = sockfd then \<lparr>conns = insert (accepted k) (conns v), quick = insert (accepted k) (quick v), output_of = (output_of v)(accepted k := [])\<rparr>
     else v\<lparr>conns := (if snd (echo_of (reads k)) then conns v - {fd} else conns v), output_of := (output_of v)(fd := output_of v fd @ fst (echo_of (reads k)))\<rparr>)"

definition spec_round :: "int \<Rightarrow> report list \<Rightarrow> view \<Rightarrow> view" where
  "spec_round sockfd rs v = fold (spec_event sockfd) rs v"

text \<open>The reports for which the versions are compared: about open descriptors, each once, all with \<open>EPOLLIN\<close> set (the versions test
  different fields, so without it they differ); and \<open>accept\<close> succeeds with a descriptor that is not open (otherwise the program exits).\<close>

fun fresh_accepts :: "int \<Rightarrow> report list \<Rightarrow> view \<Rightarrow> bool" where
  "fresh_accepts sockfd [] v \<longleftrightarrow> True"
| "fresh_accepts sockfd ((fd, ev, k) # rs) v \<longleftrightarrow>
     (fd = sockfd \<longrightarrow> accepted k \<noteq> -1 \<and> accepted k \<notin> conns v) \<and> fresh_accepts sockfd rs (spec_event sockfd (fd, ev, k) v)"

definition report_ok :: "int \<Rightarrow> view \<Rightarrow> report list \<Rightarrow> bool" where
  "report_ok sockfd v rs \<longleftrightarrow> distinct (map fst rs) \<and> fst ` set rs \<subseteq> conns v \<and> (\<forall>(fd, ev, k) \<in> set rs. ev AND EPOLLIN \<noteq> 0) \<and> fresh_accepts sockfd rs v"

fun reports_ok :: "int \<Rightarrow> view \<Rightarrow> report list list \<Rightarrow> bool" where
  "reports_ok sockfd v [] \<longleftrightarrow> True"
| "reports_ok sockfd v (rs # rss) \<longleftrightarrow> report_ok sockfd v rs \<and> reports_ok sockfd (spec_round sockfd rs v) rss"

abbreviation run_rounds :: "(report list \<Rightarrow> 's \<Rightarrow> 's option) \<Rightarrow> report list list \<Rightarrow> 's \<Rightarrow> 's option" where
  "run_rounds \<equiv> run_actions"

definition spec_run :: "int \<Rightarrow> report list list \<Rightarrow> view \<Rightarrow> view" where
  "spec_run sockfd rss v = fold (spec_round sockfd) rss v"

locale echo_version =
  fixes rnd :: "int \<Rightarrow> report list \<Rightarrow> 's \<Rightarrow> 's option"
    and view_of :: "'s \<Rightarrow> view"
    and inv :: "int \<Rightarrow> 's \<Rightarrow> bool"
  assumes round_refines: "inv sockfd s \<Longrightarrow> report_ok sockfd (view_of s) rs \<Longrightarrow>
    \<exists>t. rnd sockfd rs s = Some t \<and> inv sockfd t \<and> view_of t = spec_round sockfd rs (view_of s)"
begin

lemma run_refines:
  "inv sockfd s \<Longrightarrow> reports_ok sockfd (view_of s) rss \<Longrightarrow>
   \<exists>t. run_rounds (rnd sockfd) rss s = Some t \<and> inv sockfd t \<and> view_of t = spec_run sockfd rss (view_of s)"
proof (induction rss arbitrary: s)
  case Nil
  then show ?case by (simp add: spec_run_def)
next
  case (Cons rs rss)
  then obtain t where "rnd sockfd rs s = Some t" "inv sockfd t" "view_of t = spec_round sockfd rs (view_of s)" using round_refines by fastforce
  then show ?case using Cons.IH [of t] Cons.prems(2) by (auto simp: spec_run_def)
qed

end

subsection \<open>Days 3 and 4 implement it\<close>

definition net_view :: "'d net \<Rightarrow> view" where
  "net_view n = \<lparr>conns = open_fds n, quick = nonblock n, output_of = sent n\<rparr>"

lemma handleReadEvent_eq:
  "handleReadEvent fd rs n = n\<lparr>sent := (sent n)(fd := sent n fd @ fst (echo_of rs)),
     open_fds := (if snd (echo_of rs) then open_fds n - {fd} else open_fds n),
     watched := (if snd (echo_of rs) then (watched n)(fd := None) else watched n)\<rparr>"
  by (induction fd rs n rule: handleReadEvent.induct) (simp_all add: write_fd_def close_fd_def del: fun_upd_apply add: fun_upd_same)

text \<open>Exactly the open descriptors are watched, for input and edge-triggered; \<open>ptr\<close> says what the user data of one are.\<close>

definition watch_ok :: "(int \<Rightarrow> 'd \<Rightarrow> bool) \<Rightarrow> int \<Rightarrow> 'd net \<Rightarrow> bool" where
  "watch_ok ptr sockfd n \<longleftrightarrow> sockfd \<in> open_fds n \<and> dom (watched n) = open_fds n \<and>
     (\<forall>fd e d. watched n fd = Some (e, d) \<longrightarrow> e = EPOLLIN OR EPOLLET \<and> ptr fd d)"

lemma watch_ok_read: "watch_ok ptr sockfd n \<Longrightarrow> fd \<noteq> sockfd \<Longrightarrow> watch_ok ptr sockfd (handleReadEvent fd rs n)"
  by (auto simp: watch_ok_def handleReadEvent_eq split: if_splits)

lemma net_view_read:
  "fd \<noteq> sockfd \<Longrightarrow> net_view (handleReadEvent fd (reads k) n) = spec_event sockfd (fd, ev, k) (net_view n)"
  by (simp add: net_view_def handleReadEvent_eq spec_event_def)

lemma accept_ok:
  assumes "watch_ok ptr sockfd n" "accepted k \<notin> conns (net_view n)" "ptr (accepted k) d"
  shows "\<exists>t. epoll_add (accepted k) (EPOLLIN OR EPOLLET) d (setnonblocking (accepted k) (open_fd (accepted k) n)) = Some t \<and>
    watch_ok ptr sockfd t \<and> net_view t = spec_event sockfd (sockfd, ev, k) (net_view n) \<and> watched t = (watched n)(accepted k \<mapsto> (EPOLLIN OR EPOLLET, d))"
  using assms by (auto simp: watch_ok_def net_view_def spec_event_def epoll_add_def setnonblocking_def open_fd_def)

lemma wait_data_fd: "watch_ok (=) sockfd n \<Longrightarrow> fst ` set rs \<subseteq> open_fds n \<Longrightarrow> wait_data rs n = Some rs"
proof (induction rs)
  case (Cons r rs)
  obtain fd ev k where r: "r = (fd, ev, k)" by (cases r)
  have "fd \<in> dom (watched n)" using Cons.prems r by (auto simp: watch_ok_def)
  then obtain e where "watched n fd = Some (e, fd)" using Cons.prems(1) unfolding watch_ok_def by (metis domD prod.collapse)
  then show ?case using Cons r by simp
qed simp

lemma day3_events_ok:
  "watch_ok (=) sockfd n \<Longrightarrow> \<forall>(fd, ev, k) \<in> set rs. ev AND EPOLLIN \<noteq> 0 \<Longrightarrow> fresh_accepts sockfd rs (net_view n) \<Longrightarrow>
   \<exists>t. day3_events sockfd rs n = Some t \<and> watch_ok (=) sockfd t \<and> net_view t = spec_round sockfd rs (net_view n)"
proof (induction rs arbitrary: n)
  case Nil
  then show ?case by (simp add: spec_round_def)
next
  case (Cons r rs)
  obtain fd ev k where r: "r = (fd, ev, k)" by (cases r)
  have "\<exists>t. day3_event sockfd r n = Some t \<and> watch_ok (=) sockfd t \<and> net_view t = spec_event sockfd r (net_view n)"
  proof (cases "fd = sockfd")
    case True
    then show ?thesis using accept_ok [OF Cons.prems(1), of k "accepted k" ev] Cons.prems(3) r by (auto simp: day3_event_def errif_def)
  next
    case False
    then show ?thesis using Cons.prems(1,2) r watch_ok_read net_view_read by (fastforce simp: day3_event_def)
  qed
  then obtain t where t: "day3_event sockfd r n = Some t" "watch_ok (=) sockfd t" "net_view t = spec_event sockfd r (net_view n)" by blast
  then show ?case using Cons.IH [OF t(2)] Cons.prems(2,3) r by (simp add: spec_round_def)
qed

text \<open>Day 4 differs from day 3 in that it checks the results of \<open>epoll_ctl\<close>.\<close>

lemma day4_events_ok:
  "watch_ok (=) sockfd n \<Longrightarrow> \<forall>(fd, ev, k) \<in> set rs. ev AND EPOLLIN \<noteq> 0 \<Longrightarrow> fresh_accepts sockfd rs (net_view n) \<Longrightarrow>
   day4_events sockfd rs n = day3_events sockfd rs n"
proof (induction rs arbitrary: n)
  case (Cons r rs)
  obtain fd ev k where r: "r = (fd, ev, k)" by (cases r)
  show ?case
  proof (cases "fd = sockfd")
    case True
    then obtain t where "epoll_add (accepted k) (EPOLLIN OR EPOLLET) (accepted k) (setnonblocking (accepted k) (open_fd (accepted k) n)) = Some t"
        "watch_ok (=) sockfd t" "net_view t = spec_event sockfd r (net_view n)"
      using accept_ok [OF Cons.prems(1), of k "accepted k" ev] Cons.prems(3) r by auto
    then show ?thesis using Cons.IH [of t] Cons.prems(2,3) r True
      by (simp add: day3_event_def errif_def socket_accept_def socket_of_def addFileDescriptor_def)
  next
    case False
    have "watch_ok (=) sockfd (handleReadEvent fd (reads k) n)" "net_view (handleReadEvent fd (reads k) n) = spec_event sockfd r (net_view n)"
      using watch_ok_read [OF Cons.prems(1) False] net_view_read [OF False] r by simp_all
    then show ?thesis using Cons.IH [of "handleReadEvent fd (reads k) n"] Cons.prems(2,3) r False by (simp add: day3_event_def)
  qed
qed simp

lemma report_okD:
  assumes "watch_ok ptr sockfd n" "report_ok sockfd (net_view n) rs"
  shows "fst ` set rs \<subseteq> open_fds n" "\<forall>(fd, ev, k) \<in> set rs. ev AND EPOLLIN \<noteq> 0" "fresh_accepts sockfd rs (net_view n)" "distinct (map fst rs)"
  using assms by (auto simp: report_ok_def net_view_def)

interpretation day3: echo_version day3_round net_view "watch_ok (=)"
proof
  fix sockfd n rs
  assume a: "watch_ok (=) sockfd n" "report_ok sockfd (net_view n) rs"
  note r = report_okD [OF a]
  show "\<exists>t. day3_round sockfd rs n = Some t \<and> watch_ok (=) sockfd t \<and> net_view t = spec_round sockfd rs (net_view n)"
    using day3_events_ok [OF a(1) r(2,3)] wait_data_fd [OF a(1) r(1)] by (simp add: day3_round_def)
qed

interpretation day4: echo_version day4_round net_view "watch_ok (=)"
proof
  fix sockfd n rs
  assume a: "watch_ok (=) sockfd n" "report_ok sockfd (net_view n) rs"
  note r = report_okD [OF a]
  show "\<exists>t. day4_round sockfd rs n = Some t \<and> watch_ok (=) sockfd t \<and> net_view t = spec_round sockfd rs (net_view n)"
    using day3_events_ok [OF a(1) r(2,3)] day4_events_ok [OF a(1) r(2,3)] wait_data_fd [OF a(1) r(1)] by (simp add: day4_round_def day4_poll_def)
qed

definition start_view :: "int \<Rightarrow> view" where
  "start_view sockfd = \<lparr>conns = {sockfd}, quick = {sockfd}, output_of = (\<lambda>_. [])\<rparr>"

lemma day3_start_ok: "watch_ok (=) sockfd (day3_start sockfd)" "net_view (day3_start sockfd) = start_view sockfd"
  by (simp_all add: day3_start_def watch_ok_def epoll_add_def setnonblocking_def net_view_def start_view_def)

lemma day4_start_ok: "sockfd \<noteq> -1 \<Longrightarrow> day4_start sockfd = Some (day3_start sockfd)"
  by (simp add: day3_start_def day4_start_def epoll_add_def setnonblocking_def socket_of_def errif_def addFileDescriptor_def)

end
