(* ===== verification/Event_Loop.thy ===== *)
theory Event_Loop
  imports Echo_Days
begin

text \<open>
  The echo server of \<open>c-plus-plus-server/server-30\<close> with channels: \<open>day05-channel\<close>, where the user data of the epoll set are pointers to
  objects of the class \<open>Channel\<close>, and \<open>day06-event-loop\<close>, where a channel has a callback and the classes \<open>EventLoop\<close> and \<open>Server\<close> do the
  work.  Channels live in a store indexed by address; none is ever deleted.  Shown: the pointers in the epoll set always lead to
  the channel of their descriptor, and all four versions of the server do the same.
\<close>

subsection \<open>Channels\<close>

record channel =
  ch_fd :: int
  ch_events :: "32 word"
  readEvents :: "32 word"
  inEpoll :: bool

text \<open>Day 6 adds the callback, one of the two functions that \<open>Server\<close> binds.\<close>

datatype callback = New_connection | Handle_read int

record channel6 = channel +
  callback :: "callback option"

record 'c loop =
  net :: "nat net"
  chans :: "nat \<Rightarrow> 'c option"
  brk :: nat

definition Channel_new :: "int \<Rightarrow> channel" where
  "Channel_new fd = \<lparr>ch_fd = fd, ch_events = 0, readEvents = 0, inEpoll = False\<rparr>"

text \<open>\<open>new\<close> returns the address \<open>brk\<close>.\<close>

definition alloc :: "'c \<Rightarrow> 'c loop \<Rightarrow> nat \<times> 'c loop" where
  "alloc c s = (brk s, s\<lparr>chans := (chans s)(brk s \<mapsto> c), brk := brk s + 1\<rparr>)"

definition updateChannel :: "nat \<Rightarrow> 'x channel_scheme loop \<Rightarrow> 'x channel_scheme loop option" where
  "updateChannel p s = do {
     c \<leftarrow> chans s p;
     let fd = ch_fd c;
     if \<not> inEpoll c then do {
       n \<leftarrow> epoll_add fd (ch_events c) p (net s);
       Some (s\<lparr>net := n, chans := (chans s)(p \<mapsto> c\<lparr>inEpoll := True\<rparr>)\<rparr>)
     } else do {
       n \<leftarrow> epoll_mod fd (ch_events c) p (net s);
       Some (s\<lparr>net := n\<rparr>)
     }
   }"

definition enableReading :: "nat \<Rightarrow> 'x channel_scheme loop \<Rightarrow> 'x channel_scheme loop option" where
  "enableReading p s = do {
     c \<leftarrow> chans s p;
     updateChannel p (s\<lparr>chans := (chans s)(p \<mapsto> c\<lparr>ch_events := EPOLLIN OR EPOLLET\<rparr>)\<rparr>)
   }"

text \<open>\<open>Epoll::poll\<close> stores the events of every reported channel and collects the pointers.\<close>

fun poll_loop :: "(nat \<times> 32 word \<times> answers) list \<Rightarrow> 'x channel_scheme loop \<Rightarrow> ((nat \<times> answers) list \<times> 'x channel_scheme loop) option" where
  "poll_loop [] s = Some ([], s)"
| "poll_loop ((p, ev, k) # es) s = do {
     c \<leftarrow> chans s p;
     (ps, s) \<leftarrow> poll_loop es (s\<lparr>chans := (chans s)(p \<mapsto> c\<lparr>readEvents := ev\<rparr>)\<rparr>);
     Some ((p, k) # ps, s)
   }"

definition poll :: "report list \<Rightarrow> 'x channel_scheme loop \<Rightarrow> ((nat \<times> answers) list \<times> 'x channel_scheme loop) option" where
  "poll rs s = do { es \<leftarrow> wait_data rs (net s); poll_loop es s }"

definition no_channels :: "int \<Rightarrow> 'c loop" where
  "no_channels sockfd = \<lparr>net = \<lparr>watched = Map.empty, open_fds = {sockfd}, nonblock = {}, sent = (\<lambda>_. [])\<rparr>, chans = Map.empty, brk = 0\<rparr>"

definition on_net :: "(nat net \<Rightarrow> nat net) \<Rightarrow> 'c loop \<Rightarrow> 'c loop" where
  "on_net f s = s\<lparr>net := f (net s)\<rparr>"

subsection \<open>Day 5\<close>

definition day5_start :: "int \<Rightarrow> channel loop option" where
  "day5_start sockfd = do {
     fd \<leftarrow> socket_of sockfd;
     let (p, s) = alloc (Channel_new fd) (on_net (setnonblocking fd) (no_channels fd));
     enableReading p s
   }"

fun day5_events :: "int \<Rightarrow> (nat \<times> answers) list \<Rightarrow> channel loop \<Rightarrow> channel loop option" where
  "day5_events sockfd [] s = Some s"
| "day5_events sockfd ((p, k) # ps) s = do {
     c \<leftarrow> chans s p;
     s \<leftarrow> (if ch_fd c = sockfd then do {
              (a, n) \<leftarrow> socket_accept k (net s);
              client \<leftarrow> socket_of a;
              let (q, s) = alloc (Channel_new client) (s\<lparr>net := setnonblocking client n\<rparr>);
              enableReading q s
            }
            else if ch_events c AND EPOLLIN \<noteq> 0 then Some (on_net (handleReadEvent (ch_fd c) (reads k)) s)
            else Some s);
     day5_events sockfd ps s
   }"

definition day5_round :: "int \<Rightarrow> report list \<Rightarrow> channel loop \<Rightarrow> channel loop option" where
  "day5_round sockfd rs s = do { (ps, s) \<leftarrow> poll rs s; day5_events sockfd ps s }"

subsection \<open>Day 6\<close>

definition Channel6_new :: "int \<Rightarrow> channel6" where
  "Channel6_new fd = \<lparr>ch_fd = fd, ch_events = 0, readEvents = 0, inEpoll = False, callback = None\<rparr>"

definition setCallback :: "nat \<Rightarrow> callback \<Rightarrow> channel6 loop \<Rightarrow> channel6 loop option" where
  "setCallback p f s = do { c \<leftarrow> chans s p; Some (s\<lparr>chans := (chans s)(p \<mapsto> c\<lparr>callback := Some f\<rparr>)\<rparr>) }"

text \<open>\<open>EventLoop::updateChannel\<close> hands the channel on to \<open>Epoll\<close>.\<close>

definition EventLoop_updateChannel :: "nat \<Rightarrow> channel6 loop \<Rightarrow> channel6 loop option" where
  "EventLoop_updateChannel p s = updateChannel p s"

definition enableReading6 :: "nat \<Rightarrow> channel6 loop \<Rightarrow> channel6 loop option" where
  "enableReading6 p s = do {
     c \<leftarrow> chans s p;
     EventLoop_updateChannel p (s\<lparr>chans := (chans s)(p \<mapsto> c\<lparr>ch_events := EPOLLIN OR EPOLLET\<rparr>)\<rparr>)
   }"

definition newConnection :: "answers \<Rightarrow> channel6 loop \<Rightarrow> channel6 loop option" where
  "newConnection k s = do {
     (a, n) \<leftarrow> socket_accept k (net s);
     client \<leftarrow> socket_of a;
     let (q, s) = alloc (Channel6_new client) (s\<lparr>net := setnonblocking client n\<rparr>);
     s \<leftarrow> setCallback q (Handle_read client) s;
     enableReading6 q s
   }"

definition Server_new :: "int \<Rightarrow> channel6 loop option" where
  "Server_new sockfd = do {
     fd \<leftarrow> socket_of sockfd;
     let (p, s) = alloc (Channel6_new fd) (on_net (setnonblocking fd) (no_channels fd));
     s \<leftarrow> setCallback p New_connection s;
     enableReading6 p s
   }"

text \<open>\<open>handleEvent\<close> runs the callback; an empty one throws.\<close>

definition handleEvent :: "nat \<Rightarrow> answers \<Rightarrow> channel6 loop \<Rightarrow> channel6 loop option" where
  "handleEvent p k s = do {
     c \<leftarrow> chans s p;
     f \<leftarrow> callback c;
     (case f of New_connection \<Rightarrow> newConnection k s | Handle_read fd \<Rightarrow> Some (on_net (handleReadEvent fd (reads k)) s))
   }"

fun handle_events :: "(nat \<times> answers) list \<Rightarrow> channel6 loop \<Rightarrow> channel6 loop option" where
  "handle_events [] s = Some s"
| "handle_events ((p, k) # ps) s = do { s \<leftarrow> handleEvent p k s; handle_events ps s }"

text \<open>One round of \<open>EventLoop::loop\<close>; \<open>quit\<close> is never set.  The server need not be told its descriptor.\<close>

definition loop_round :: "int \<Rightarrow> report list \<Rightarrow> channel6 loop \<Rightarrow> channel6 loop option" where
  "loop_round sockfd rs s = do { (ps, s) \<leftarrow> poll rs s; handle_events ps s }"

subsection \<open>Typed pointers\<close>

text \<open>The pointer \<open>p\<close> leads to the channel of \<open>fd\<close>; \<open>extra\<close> is what day 6 demands of the callback.\<close>

definition points :: "('x channel_scheme \<Rightarrow> bool) \<Rightarrow> (nat \<Rightarrow> 'x channel_scheme option) \<Rightarrow> int \<Rightarrow> nat \<Rightarrow> bool" where
  "points extra m fd p \<longleftrightarrow> (\<exists>c. m p = Some c \<and> ch_fd c = fd \<and> ch_events c = EPOLLIN OR EPOLLET \<and> inEpoll c \<and> extra c)"

definition channels_ok :: "('x channel_scheme \<Rightarrow> bool) \<Rightarrow> int \<Rightarrow> 'x channel_scheme loop \<Rightarrow> bool" where
  "channels_ok extra sockfd s \<longleftrightarrow> watch_ok (points extra (chans s)) sockfd (net s) \<and> (\<forall>p. brk s \<le> p \<longrightarrow> chans s p = None)"

lemma watch_ok_mono: "watch_ok P sockfd n \<Longrightarrow> (\<And>fd d. P fd d \<Longrightarrow> Q fd d) \<Longrightarrow> watch_ok Q sockfd n"
  by (auto simp: watch_ok_def)

lemma in_out_events [simp]: "(EPOLLIN OR EPOLLET) AND EPOLLIN \<noteq> 0" "EPOLLIN \<noteq> 0"
  by (simp_all add: EPOLLIN_def EPOLLET_def)

text \<open>The pointers that \<open>wait_data\<close> yields, with the descriptors they stand for.\<close>

definition typed :: "('x channel_scheme \<Rightarrow> bool) \<Rightarrow> (nat \<Rightarrow> 'x channel_scheme option) \<Rightarrow> (nat \<times> answers) list \<Rightarrow> report list \<Rightarrow> bool" where
  "typed extra m ps rs \<longleftrightarrow> list_all2 (\<lambda>(p, k) (fd, ev, k'). points extra m fd p \<and> k' = k) ps rs"

lemma typed_mono: "typed extra m ps rs \<Longrightarrow> (\<And>fd p. points extra m fd p \<Longrightarrow> points extra m' fd p) \<Longrightarrow> typed extra m' ps rs"
  unfolding typed_def by (erule list_all2_mono) auto

lemma wait_data_ptr:
  assumes "watch_ok ptr sockfd n"
  shows "fst ` set rs \<subseteq> open_fds n \<Longrightarrow> \<exists>es. wait_data rs n = Some es \<and> list_all2 (\<lambda>(p, ev, k) (fd, ev', k'). ptr fd p \<and> k' = k) es rs"
proof (induction rs)
  case (Cons r rs)
  obtain fd ev k where r: "r = (fd, ev, k)" by (cases r)
  have "fd \<in> dom (watched n)" using Cons.prems assms r by (auto simp: watch_ok_def)
  then obtain e d where "watched n fd = Some (e, d)" "ptr fd d" using assms unfolding watch_ok_def by (metis domD prod.collapse)
  then show ?case using Cons r by auto
qed simp

lemma points_read_events:
  assumes "\<And>c ev. extra (c\<lparr>readEvents := ev\<rparr>) = extra c" "m q = Some c"
  shows "points extra (m(q \<mapsto> c\<lparr>readEvents := ev\<rparr>)) fd p = points extra m fd p"
  using assms by (auto simp: points_def)

lemma poll_loop_ok:
  assumes "\<And>c ev. extra (c\<lparr>readEvents := ev\<rparr>) = extra c"
  shows "list_all2 (\<lambda>(p, ev, k) (fd, ev', k'). points extra (chans s) fd p \<and> k' = k) es rs \<Longrightarrow>
    \<exists>ps t. poll_loop es s = Some (ps, t) \<and> net t = net s \<and> brk t = brk s \<and> points extra (chans t) = points extra (chans s) \<and>
      (\<forall>p. chans t p = None \<longleftrightarrow> chans s p = None) \<and> typed extra (chans s) ps rs"
proof (induction es arbitrary: s rs)
  case Nil
  then show ?case by (simp add: typed_def)
next
  case (Cons e es)
  obtain p ev k where e: "e = (p, ev, k)" by (cases e)
  obtain fd ev' rs' where rs: "rs = (fd, ev', k) # rs'" "points extra (chans s) fd p"
      "list_all2 (\<lambda>(p, ev, k) (fd, ev', k'). points extra (chans s) fd p \<and> k' = k) es rs'"
    using Cons.prems e by (auto simp: list_all2_Cons1)
  obtain c where c: "chans s p = Some c" using rs(2) by (auto simp: points_def)
  let ?s = "s\<lparr>chans := (chans s)(p \<mapsto> c\<lparr>readEvents := ev\<rparr>)\<rparr>"
  have same: "points extra (chans ?s) = points extra (chans s)"
    using points_read_events [of extra "chans s" p c ev, OF assms c] by (simp add: fun_eq_iff del: fun_upd_apply)
  have "list_all2 (\<lambda>(p, ev, k) (fd, ev', k'). points extra (chans ?s) fd p \<and> k' = k) es rs'" unfolding same by (rule rs(3))
  from Cons.IH [OF this] obtain ps t where t: "poll_loop es ?s = Some (ps, t)" "net t = net s" "brk t = brk s" "points extra (chans t) = points extra (chans ?s)"
      "\<forall>p. chans t p = None \<longleftrightarrow> chans ?s p = None" "typed extra (chans ?s) ps rs'" by (simp del: fun_upd_apply) blast
  have "typed extra (chans s) ((p, k) # ps) rs" using t(6) rs(1,2) same by (simp add: typed_def)
  then show ?case using t(1-5) e c same by (auto split: if_splits)
qed

lemma poll_ok:
  assumes "\<And>c ev. extra (c\<lparr>readEvents := ev\<rparr>) = extra c" "channels_ok extra sockfd s" "fst ` set rs \<subseteq> open_fds (net s)"
  shows "\<exists>ps t. poll rs s = Some (ps, t) \<and> channels_ok extra sockfd t \<and> net t = net s \<and> typed extra (chans t) ps rs"
proof -
  have w: "watch_ok (points extra (chans s)) sockfd (net s)" using assms(2) by (simp add: channels_ok_def)
  obtain es where es: "wait_data rs (net s) = Some es" "list_all2 (\<lambda>(p, ev, k) (fd, ev', k'). points extra (chans s) fd p \<and> k' = k) es rs"
    using wait_data_ptr [OF w assms(3)] by blast
  from poll_loop_ok [of extra, OF assms(1) es(2)] obtain ps t where t: "poll_loop es s = Some (ps, t)" "net t = net s" "brk t = brk s"
      "points extra (chans t) = points extra (chans s)" "\<forall>p. chans t p = None \<longleftrightarrow> chans s p = None" "typed extra (chans s) ps rs" by blast
  then show ?thesis using es(1) assms(2) by (auto simp: poll_def channels_ok_def typed_def)
qed

text \<open>A new channel for a new connection.\<close>

lemma register_ok:
  fixes s :: "'x channel_scheme loop"
  assumes "channels_ok extra sockfd s" "accepted k \<notin> conns (net_view (net s))"
    and "ch_fd c = accepted k" "ch_events c = EPOLLIN OR EPOLLET" "\<not> inEpoll c" "extra (c\<lparr>inEpoll := True\<rparr>)"
  shows "\<exists>t. updateChannel (brk s) (s\<lparr>net := setnonblocking (accepted k) (open_fd (accepted k) (net s)), brk := brk s + 1, chans := (chans s)(brk s \<mapsto> c)\<rparr>) = Some t \<and>
    channels_ok extra sockfd t \<and> net_view (net t) = spec_event sockfd (sockfd, ev, k) (net_view (net s)) \<and>
    (\<forall>fd p. points extra (chans s) fd p \<longrightarrow> points extra (chans t) fd p)"
proof -
  let ?m = "(chans s)(brk s \<mapsto> c\<lparr>inEpoll := True\<rparr>)"
  have f: "chans s p = None" if "brk s \<le> p" for p using assms(1) that by (simp add: channels_ok_def)
  have m: "points extra (chans s) fd p \<Longrightarrow> points extra ?m fd p" for fd p using f [of "brk s"] by (auto simp: points_def)
  have w: "watch_ok (points extra ?m) sockfd (net s)"
  proof (rule watch_ok_mono)
    show "watch_ok (points extra (chans s)) sockfd (net s)" using assms(1) by (simp add: channels_ok_def)
  qed (rule m)
  have "points extra ?m (accepted k) (brk s)" using assms(3-6) by (simp add: points_def)
  from accept_ok [OF w assms(2) this] obtain t where
    t: "epoll_add (accepted k) (EPOLLIN OR EPOLLET) (brk s) (setnonblocking (accepted k) (open_fd (accepted k) (net s))) = Some t"
      "watch_ok (points extra ?m) sockfd t" "net_view t = spec_event sockfd (sockfd, ev, k) (net_view (net s))" by blast
  let ?t = "s\<lparr>net := t, chans := ?m, brk := brk s + 1\<rparr>"
  have "updateChannel (brk s) (s\<lparr>net := setnonblocking (accepted k) (open_fd (accepted k) (net s)), brk := brk s + 1, chans := (chans s)(brk s \<mapsto> c)\<rparr>) = Some ?t"
    using assms(3-5) t(1) by (simp add: updateChannel_def del: fun_upd_apply add: fun_upd_same)
  moreover have "channels_ok extra sockfd ?t" using t(2) f by (simp add: channels_ok_def)
  ultimately show ?thesis using t(3) m by (intro exI [of _ ?t]) simp
qed

lemma channels_ok_read: "channels_ok extra sockfd s \<Longrightarrow> fd \<noteq> sockfd \<Longrightarrow> channels_ok extra sockfd (on_net (handleReadEvent fd rs) s)"
  using watch_ok_read by (auto simp: channels_ok_def on_net_def)

subsection \<open>Days 5 and 6 implement the specification\<close>

lemma report_list_ok: "\<forall>(fd, ev, k) \<in> set (r # rs). P ev \<Longrightarrow> \<forall>(fd, ev, k) \<in> set rs. P ev"
  by auto

lemma day5_events_ok:
  "channels_ok (\<lambda>_. True) sockfd s \<Longrightarrow> typed (\<lambda>_. True) (chans s) ps rs \<Longrightarrow> fresh_accepts sockfd rs (net_view (net s)) \<Longrightarrow>
   \<exists>t. day5_events sockfd ps s = Some t \<and> channels_ok (\<lambda>_. True) sockfd t \<and> net_view (net t) = spec_round sockfd rs (net_view (net s))"
proof (induction ps arbitrary: s rs)
  case Nil
  then show ?case by (simp add: typed_def spec_round_def)
next
  case (Cons e ps)
  obtain p k where e: "e = (p, k)" by (cases e)
  obtain fd ev rs' where rs: "rs = (fd, ev, k) # rs'" "points (\<lambda>_. True) (chans s) fd p" "typed (\<lambda>_. True) (chans s) ps rs'"
    using Cons.prems(2) e by (auto simp: typed_def list_all2_Cons1)
  obtain c where c: "chans s p = Some c" "ch_fd c = fd" "ch_events c = EPOLLIN OR EPOLLET" using rs(2) by (auto simp: points_def)
  show ?case
  proof (cases "fd = sockfd")
    case True
    have a: "accepted k \<noteq> -1" "accepted k \<notin> conns (net_view (net s))" using Cons.prems(3) rs(1) True by auto
    let ?c = "(Channel_new (accepted k))\<lparr>ch_events := EPOLLIN OR EPOLLET\<rparr>"
    let ?s = "s\<lparr>net := setnonblocking (accepted k) (open_fd (accepted k) (net s)), brk := brk s + 1, chans := (chans s)(brk s \<mapsto> ?c)\<rparr>"
    obtain t where t: "updateChannel (brk s) ?s = Some t" "channels_ok (\<lambda>_. True) sockfd t" "net_view (net t) = spec_event sockfd (fd, ev, k) (net_view (net s))"
        "\<forall>fd p. points (\<lambda>_. True) (chans s) fd p \<longrightarrow> points (\<lambda>_. True) (chans t) fd p"
      using register_ok [OF Cons.prems(1) a(2), of ?c ev] True by (auto simp: Channel_new_def)
    have "typed (\<lambda>_. True) (chans t) ps rs'" using typed_mono [OF rs(3)] t(4) by blast
    from Cons.IH [OF t(2) this] Cons.prems(3) rs(1) t(3) obtain u where
      u: "day5_events sockfd ps t = Some u" "channels_ok (\<lambda>_. True) sockfd u" "net_view (net u) = spec_round sockfd rs' (net_view (net t))" by auto
    have "day5_events sockfd (e # ps) s = Some u"
      using e c True a(1) t(1) u(1) by (simp add: socket_accept_def socket_of_def errif_def alloc_def enableReading_def)
    then show ?thesis using u t(3) rs(1) by (simp add: spec_round_def)
  next
    case False
    let ?t = "on_net (handleReadEvent fd (reads k)) s"
    have t: "channels_ok (\<lambda>_. True) sockfd ?t" "net_view (net ?t) = spec_event sockfd (fd, ev, k) (net_view (net s))" "chans ?t = chans s"
      using channels_ok_read [OF Cons.prems(1) False] net_view_read [OF False] by (simp_all add: on_net_def)
    have "typed (\<lambda>_. True) (chans ?t) ps rs'" using rs(3) t(3) by simp
    from Cons.IH [OF t(1) this] Cons.prems(3) rs(1) t(2) obtain u where
      u: "day5_events sockfd ps ?t = Some u" "channels_ok (\<lambda>_. True) sockfd u" "net_view (net u) = spec_round sockfd rs' (net_view (net ?t))" by auto
    then show ?thesis using e c False t(2) rs(1) by (simp add: spec_round_def)
  qed
qed

text \<open>Day 6: the callback of a channel is that of its descriptor.\<close>

definition bound :: "int \<Rightarrow> channel6 \<Rightarrow> bool" where
  "bound sockfd c \<longleftrightarrow> callback c = Some (if ch_fd c = sockfd then New_connection else Handle_read (ch_fd c))"

lemma bound_simps [simp]: "bound sockfd (c\<lparr>readEvents := ev\<rparr>) = bound sockfd c"
  by (simp add: bound_def)

lemma handle_events_ok:
  "channels_ok (bound sockfd) sockfd s \<Longrightarrow> typed (bound sockfd) (chans s) ps rs \<Longrightarrow> fresh_accepts sockfd rs (net_view (net s)) \<Longrightarrow>
   \<exists>t. handle_events ps s = Some t \<and> channels_ok (bound sockfd) sockfd t \<and> net_view (net t) = spec_round sockfd rs (net_view (net s))"
proof (induction ps arbitrary: s rs)
  case Nil
  then show ?case by (simp add: typed_def spec_round_def)
next
  case (Cons e ps)
  obtain p k where e: "e = (p, k)" by (cases e)
  obtain fd ev rs' where rs: "rs = (fd, ev, k) # rs'" "points (bound sockfd) (chans s) fd p" "typed (bound sockfd) (chans s) ps rs'"
    using Cons.prems(2) e by (auto simp: typed_def list_all2_Cons1)
  obtain c where c: "chans s p = Some c" "callback c = Some (if fd = sockfd then New_connection else Handle_read fd)" using rs(2) by (auto simp: points_def bound_def)
  have "\<exists>t. handleEvent p k s = Some t \<and> channels_ok (bound sockfd) sockfd t \<and> net_view (net t) = spec_event sockfd (fd, ev, k) (net_view (net s)) \<and>
    typed (bound sockfd) (chans t) ps rs'"
  proof (cases "fd = sockfd")
    case True
    have a: "accepted k \<noteq> -1" "accepted k \<notin> conns (net_view (net s))" using Cons.prems(3) rs(1) True by auto
    have "accepted k \<noteq> sockfd" using a(2) Cons.prems(1) by (auto simp: channels_ok_def watch_ok_def net_view_def)
    then have b: "bound sockfd ((Channel6_new (accepted k))\<lparr>callback := Some (Handle_read (accepted k)), ch_events := EPOLLIN OR EPOLLET, inEpoll := True\<rparr>)"
      by (simp add: bound_def Channel6_new_def)
    let ?c = "(Channel6_new (accepted k))\<lparr>callback := Some (Handle_read (accepted k)), ch_events := EPOLLIN OR EPOLLET\<rparr>"
    let ?s = "s\<lparr>net := setnonblocking (accepted k) (open_fd (accepted k) (net s)), brk := brk s + 1, chans := (chans s)(brk s \<mapsto> ?c)\<rparr>"
    obtain t where t: "updateChannel (brk s) ?s = Some t" "channels_ok (bound sockfd) sockfd t" "net_view (net t) = spec_event sockfd (fd, ev, k) (net_view (net s))"
        "\<forall>fd p. points (bound sockfd) (chans s) fd p \<longrightarrow> points (bound sockfd) (chans t) fd p"
      using register_ok [OF Cons.prems(1) a(2), of ?c ev] True b by (auto simp: Channel6_new_def)
    have "handleEvent p k s = Some t"
      using c True a(1) t(1) by (simp add: handleEvent_def newConnection_def socket_accept_def socket_of_def errif_def alloc_def setCallback_def enableReading6_def EventLoop_updateChannel_def)
    then show ?thesis using t typed_mono [OF rs(3)] by blast
  next
    case False
    then show ?thesis using c channels_ok_read [OF Cons.prems(1) False] net_view_read [OF False] rs(3) by (simp add: handleEvent_def on_net_def)
  qed
  then obtain t where t: "handleEvent p k s = Some t" "channels_ok (bound sockfd) sockfd t" "net_view (net t) = spec_event sockfd (fd, ev, k) (net_view (net s))"
    "typed (bound sockfd) (chans t) ps rs'" by blast
  from Cons.IH [OF t(2,4)] Cons.prems(3) rs(1) t(1,3) e show ?case by (simp add: spec_round_def)
qed

interpretation day5: echo_version day5_round "\<lambda>s. net_view (net s)" "channels_ok (\<lambda>_. True)"
proof
  fix sockfd rs and s :: "channel loop"
  assume a: "channels_ok (\<lambda>_. True) sockfd s" "report_ok sockfd (net_view (net s)) rs"
  have "fst ` set rs \<subseteq> open_fds (net s)" "fresh_accepts sockfd rs (net_view (net s))" using a(2) by (simp_all add: report_ok_def net_view_def)
  moreover obtain ps t where "poll rs s = Some (ps, t)" "channels_ok (\<lambda>_. True) sockfd t" "net t = net s" "typed (\<lambda>_. True) (chans t) ps rs"
    using poll_ok [OF _ a(1) calculation(1)] by auto
  ultimately show "\<exists>t. day5_round sockfd rs s = Some t \<and> channels_ok (\<lambda>_. True) sockfd t \<and> net_view (net t) = spec_round sockfd rs (net_view (net s))"
    using day5_events_ok [of sockfd t ps rs] by (simp add: day5_round_def)
qed

interpretation day6: echo_version loop_round "\<lambda>s. net_view (net s)" "\<lambda>sockfd. channels_ok (bound sockfd) sockfd"
proof
  fix sockfd rs and s :: "channel6 loop"
  assume a: "channels_ok (bound sockfd) sockfd s" "report_ok sockfd (net_view (net s)) rs"
  have "fst ` set rs \<subseteq> open_fds (net s)" "fresh_accepts sockfd rs (net_view (net s))" using a(2) by (simp_all add: report_ok_def net_view_def)
  moreover obtain ps t where "poll rs s = Some (ps, t)" "channels_ok (bound sockfd) sockfd t" "net t = net s" "typed (bound sockfd) (chans t) ps rs"
    using poll_ok [OF _ a(1) calculation(1)] by auto
  ultimately show "\<exists>t. loop_round sockfd rs s = Some t \<and> channels_ok (bound sockfd) sockfd t \<and> net_view (net t) = spec_round sockfd rs (net_view (net s))"
    using handle_events_ok [of sockfd t ps rs] by (simp add: loop_round_def)
qed

lemma day5_start_ok:
  assumes "sockfd \<noteq> -1"
  shows "\<exists>s. day5_start sockfd = Some s \<and> channels_ok (\<lambda>_. True) sockfd s \<and> net_view (net s) = start_view sockfd"
  using assms by (auto simp: day5_start_def socket_of_def errif_def alloc_def on_net_def no_channels_def enableReading_def updateChannel_def epoll_add_def
      setnonblocking_def Channel_new_def channels_ok_def watch_ok_def points_def net_view_def start_view_def)

lemma Server_new_ok:
  assumes "sockfd \<noteq> -1"
  shows "\<exists>s. Server_new sockfd = Some s \<and> channels_ok (bound sockfd) sockfd s \<and> net_view (net s) = start_view sockfd"
  using assms by (auto simp: Server_new_def socket_of_def errif_def alloc_def on_net_def no_channels_def enableReading6_def EventLoop_updateChannel_def setCallback_def
      updateChannel_def epoll_add_def setnonblocking_def Channel6_new_def channels_ok_def watch_ok_def points_def bound_def net_view_def start_view_def)

subsection \<open>Properties\<close>

text \<open>A run: connection 5 is accepted, sends \<open>hi\<close>, and is closed by the peer.\<close>

definition example_rounds :: "report list list" where
  "example_rounds = [[(3, EPOLLIN, \<lparr>accepted = 5, reads = []\<rparr>)], [(5, EPOLLIN, \<lparr>accepted = 0, reads = [Got [104, 105], Eof]\<rparr>)]]"

lemma example_rounds_ok: "reports_ok 3 (start_view 3) example_rounds"
  by (simp add: example_rounds_def report_ok_def spec_round_def spec_event_def start_view_def EPOLLIN_def)

text \<open>
  C15. Echo server: the four versions do the same as long as every report of \<open>epoll_wait\<close> is about open descriptors, each once and with
  \<open>EPOLLIN\<close> set, and every \<open>accept\<close> succeeds with a descriptor that is not open.  From the start, whatever the reads return, each version gets through all
  rounds of its loop, and all end with the connections, the non-blocking descriptors and the output that the specification says.
\<close>

theorem echo_versions_agree:
  assumes "sockfd \<noteq> -1" "reports_ok sockfd (start_view sockfd) rss"
  shows "\<exists>s3 s4 s5 s6. run_rounds (day3_round sockfd) rss (day3_start sockfd) = Some s3 \<and>
    Option.bind (day4_start sockfd) (run_rounds (day4_round sockfd) rss) = Some s4 \<and>
    Option.bind (day5_start sockfd) (run_rounds (day5_round sockfd) rss) = Some s5 \<and>
    Option.bind (Server_new sockfd) (run_rounds (loop_round sockfd) rss) = Some s6 \<and>
    net_view s3 = spec_run sockfd rss (start_view sockfd) \<and> net_view s4 = net_view s3 \<and> net_view (net s5) = net_view s3 \<and> net_view (net s6) = net_view s3"
proof -
  obtain a where a: "day5_start sockfd = Some a" "channels_ok (\<lambda>_. True) sockfd a" "net_view (net a) = start_view sockfd"
    using day5_start_ok [OF assms(1)] by auto
  obtain b where b: "Server_new sockfd = Some b" "channels_ok (bound sockfd) sockfd b" "net_view (net b) = start_view sockfd"
    using Server_new_ok [OF assms(1)] by auto
  have v: "net_view (day3_start sockfd) = start_view sockfd" by (rule day3_start_ok(2))
  obtain s3 where "run_rounds (day3_round sockfd) rss (day3_start sockfd) = Some s3" "net_view s3 = spec_run sockfd rss (start_view sockfd)"
    using day3.run_refines [OF day3_start_ok(1), of sockfd rss] assms(2) v by auto
  moreover obtain s4 where "run_rounds (day4_round sockfd) rss (day3_start sockfd) = Some s4" "net_view s4 = spec_run sockfd rss (start_view sockfd)"
    using day4.run_refines [OF day3_start_ok(1), of sockfd rss] assms(2) v by auto
  moreover obtain s5 where "run_rounds (day5_round sockfd) rss a = Some s5" "net_view (net s5) = spec_run sockfd rss (start_view sockfd)"
    using day5.run_refines [OF a(2), of rss] assms(2) a(3) by auto
  moreover obtain s6 where "run_rounds (loop_round sockfd) rss b = Some s6" "net_view (net s6) = spec_run sockfd rss (start_view sockfd)"
    using day6.run_refines [OF b(2), of rss] assms(2) b(3) by auto
  ultimately show ?thesis using a(1) b(1) day4_start_ok [OF assms(1)] by simp
qed

theorem echo_versions_agree_witness:
  "\<exists>s3 s6. run_rounds (day3_round 3) example_rounds (day3_start 3) = Some s3 \<and>
    Option.bind (Server_new 3) (run_rounds (loop_round 3) example_rounds) = Some s6 \<and>
    net_view (net s6) = net_view s3 \<and> conns (net_view s3) = {3} \<and> take 3 (output_of (net_view s3) 5) = [104, 105, 0] \<and> length (output_of (net_view s3) 5) = 1024"
proof -
  have "spec_run 3 example_rounds (start_view 3) = \<lparr>conns = {3}, quick = {5, 3}, output_of = (\<lambda>_. [])(5 := read_buffer [104, 105])\<rparr>"
    by (simp add: spec_run_def example_rounds_def spec_round_def spec_event_def start_view_def fun_upd_idem_iff insert_Diff_if)
  moreover have "take 3 (read_buffer [104, 105]) = [104, 105, 0]" "length (read_buffer [104, 105]) = 1024"
    by (simp_all add: read_buffer_def READ_BUFFER_def overwrite_def)
  ultimately show ?thesis using echo_versions_agree [of 3 example_rounds] example_rounds_ok by force
qed

text \<open>
  C16. Event loop: the untyped pointers in the epoll set are well typed.  After any number of rounds (of reports as above) the user data of every
  descriptor are the address of a live channel with that descriptor, which is marked as registered and has the callback of its
  kind, and the next round neither follows a bad pointer nor calls an empty callback.
\<close>

theorem channels_typed:
  assumes "Server_new sockfd = Some s0" "sockfd \<noteq> -1" "reports_ok sockfd (start_view sockfd) (rss @ [rs])"
  shows "\<exists>s. run_rounds (loop_round sockfd) rss s0 = Some s \<and>
    (\<forall>fd \<in> open_fds (net s). \<exists>e p c. watched (net s) fd = Some (e, p) \<and> chans s p = Some c \<and> ch_fd c = fd \<and> inEpoll c \<and>
       callback c = Some (if fd = sockfd then New_connection else Handle_read fd)) \<and>
    loop_round sockfd rs s \<noteq> None"
proof -
  have s0: "channels_ok (bound sockfd) sockfd s0" "net_view (net s0) = start_view sockfd" using Server_new_ok [OF assms(2)] assms(1) by auto
  have split: "reports_ok sockfd v (rss @ [rs]) \<longleftrightarrow> reports_ok sockfd v rss \<and> report_ok sockfd (spec_run sockfd rss v) rs" for v
    by (induction rss arbitrary: v) (auto simp: spec_run_def)
  obtain s where s: "run_rounds (loop_round sockfd) rss s0 = Some s" "channels_ok (bound sockfd) sockfd s" "net_view (net s) = spec_run sockfd rss (start_view sockfd)"
    using day6.run_refines [OF s0(1), of rss] assms(3) split s0(2) by auto
  have "loop_round sockfd rs s \<noteq> None" using day6.round_refines [OF s(2), of rs] assms(3) split s(3) by auto
  moreover have "\<exists>e p c. watched (net s) fd = Some (e, p) \<and> chans s p = Some c \<and> ch_fd c = fd \<and> inEpoll c \<and>
      callback c = Some (if fd = sockfd then New_connection else Handle_read fd)" if "fd \<in> open_fds (net s)" for fd
  proof -
    have w: "watch_ok (points (bound sockfd) (chans s)) sockfd (net s)" using s(2) by (simp add: channels_ok_def)
    have "fd \<in> dom (watched (net s))" using w that by (simp add: watch_ok_def)
    then obtain e p where p: "watched (net s) fd = Some (e, p)" by auto
    then have "points (bound sockfd) (chans s) fd p" using w unfolding watch_ok_def by blast
    then obtain c where "chans s p = Some c" "ch_fd c = fd" "inEpoll c" "bound sockfd c" by (auto simp: points_def)
    then show ?thesis using p by (intro exI [of _ e] exI [of _ p] exI [of _ c]) (simp add: bound_def)
  qed
  ultimately show ?thesis using s(1) by blast
qed

theorem channels_typed_witness:
  "\<exists>s0 s p c. Server_new 3 = Some s0 \<and> run_rounds (loop_round 3) [hd example_rounds] s0 = Some s \<and>
    watched (net s) 5 = Some (EPOLLIN OR EPOLLET, p) \<and> chans s p = Some c \<and> callback c = Some (Handle_read 5)"
proof -
  obtain s0 where s0: "Server_new 3 = Some s0" "channels_ok (bound 3) 3 s0" "net_view (net s0) = start_view 3" using Server_new_ok [of 3] by auto
  have ex: "reports_ok 3 (start_view 3) ([hd example_rounds] @ [example_rounds ! 1])" using example_rounds_ok by (simp add: example_rounds_def)
  obtain s where s: "run_rounds (loop_round 3) [hd example_rounds] s0 = Some s"
      "\<forall>fd \<in> open_fds (net s). \<exists>e p c. watched (net s) fd = Some (e, p) \<and> chans s p = Some c \<and> ch_fd c = fd \<and> inEpoll c \<and>
        callback c = Some (if fd = 3 then New_connection else Handle_read fd)"
    using channels_typed [OF s0(1) _ ex] by auto
  have "report_ok 3 (net_view (net s0)) (hd example_rounds)" using ex s0(3) by simp
  then have t: "channels_ok (bound 3) 3 s" "net_view (net s) = spec_round 3 (hd example_rounds) (start_view 3)"
    using day6.round_refines [OF s0(2), of "hd example_rounds"] s(1) s0(3) by auto
  have "conns (net_view (net s)) = {5, 3}" by (simp add: t(2) example_rounds_def spec_round_def spec_event_def start_view_def)
  then have "5 \<in> open_fds (net s)" by (simp add: net_view_def)
  with s(2) obtain e p c where p: "watched (net s) 5 = Some (e, p)" "chans s p = Some c" "callback c = Some (Handle_read 5)" by force
  moreover have "e = EPOLLIN OR EPOLLET" using t(1) p(1) unfolding channels_ok_def watch_ok_def by blast
  ultimately show ?thesis using s0(1) s(1) by blast
qed

end
