(* ===== verification/Oneshot.thy ===== *)
theory Oneshot
  imports C_Buffer
begin

unbundle bit_operations_syntax

text \<open>
  The server \<open>network-programming/youshuang/9-4oneshot.cpp\<close>: the main thread starts a worker for every connection with data, and
  \<open>EPOLLONESHOT\<close> is to keep a second worker away from it.  The two threads run in any order: a run is a list of actions.  The
  argument of a worker is the address of a variable of the main thread's loop, which the worker reads when it starts.
\<close>

definition BUFFER_SIZE :: nat where "BUFFER_SIZE = 1024"
definition EPOLLIN :: "32 word" where "EPOLLIN = 0x001"
definition EPOLLET :: "32 word" where "EPOLLET = 0x80000000"
definition EPOLLONESHOT :: "32 word" where "EPOLLONESHOT = 0x40000000"

text \<open>An entry of the epoll set: its events, and whether it is enabled.\<close>

record entry =
  evs :: "32 word"
  enabled :: bool

text \<open>A worker that has not read its argument yet, one in its loop with its buffer, or one that has ended.\<close>

datatype worker = Begun | Reading int "byte list" | Ended

record server =
  epoll :: "int \<Rightarrow> entry option"
  opened :: "int set"
  nonblock :: "int set"
  fds_for_new_worker :: int
  todo :: "(int \<times> 32 word) list"
  workers :: "worker list"
  printed :: "(int \<times> byte list) list"

definition EPOLL_CTL_ADD :: "int \<Rightarrow> 32 word \<Rightarrow> server \<Rightarrow> server option" where
  "EPOLL_CTL_ADD fd ev s = (if 0 \<le> fd \<and> fd \<in> opened s \<and> epoll s fd = None then Some (s\<lparr>epoll := (epoll s)(fd \<mapsto> \<lparr>evs = ev, enabled = True\<rparr>)\<rparr>) else None)"

text \<open>The result of \<open>epoll_ctl\<close> is never looked at.\<close>

definition or_ignore :: "server \<Rightarrow> server option \<Rightarrow> server" where
  "or_ignore s r = (case r of None \<Rightarrow> s | Some t \<Rightarrow> t)"

definition setnonblocking :: "int \<Rightarrow> server \<Rightarrow> server" where
  "setnonblocking fd s = (if fd \<in> opened s then s\<lparr>nonblock := insert fd (nonblock s)\<rparr> else s)"

definition addfd :: "int \<Rightarrow> bool \<Rightarrow> server \<Rightarrow> server" where
  "addfd fd oneshot s = (let events = EPOLLIN OR EPOLLET; events = (if oneshot then events OR EPOLLONESHOT else events)
   in setnonblocking fd (or_ignore s (EPOLL_CTL_ADD fd events s)))"

definition reset_oneshot :: "int \<Rightarrow> server \<Rightarrow> server" where
  "reset_oneshot fd s = or_ignore s (EPOLL_CTL_ADD fd (EPOLLIN OR EPOLLET OR EPOLLONESHOT) s)"

definition close_fd :: "int \<Rightarrow> server \<Rightarrow> server" where
  "close_fd fd s = s\<lparr>opened := opened s - {fd}, epoll := (epoll s)(fd := None)\<rparr>"

subsection \<open>The main thread\<close>

definition start :: "int \<Rightarrow> server" where
  "start listenfd = addfd listenfd False
     \<lparr>epoll = Map.empty, opened = {listenfd}, nonblock = {}, fds_for_new_worker = 0, todo = [], workers = [], printed = []\<rparr>"

text \<open>\<open>epoll_wait\<close> reports enabled descriptors and disables those that are registered for one shot.\<close>

definition report_one :: "int \<times> 32 word \<Rightarrow> server \<Rightarrow> server option" where
  "report_one r s = do {
     e \<leftarrow> epoll s (fst r);
     if enabled e then Some (s\<lparr>epoll := (epoll s)(fst r \<mapsto> e\<lparr>enabled := (evs e AND EPOLLONESHOT = 0)\<rparr>)\<rparr>) else None
   }"

fun report_all :: "(int \<times> 32 word) list \<Rightarrow> server \<Rightarrow> server option" where
  "report_all [] s = Some s"
| "report_all (r # rs) s = do { s \<leftarrow> report_one r s; report_all rs s }"

definition epoll_wait :: "(int \<times> 32 word) list \<Rightarrow> server \<Rightarrow> server option" where
  "epoll_wait rs s = (if todo s = [] \<and> distinct (map fst rs) then do { s \<leftarrow> report_all rs s; Some (s\<lparr>todo := rs\<rparr>) } else None)"

text \<open>One turn of the loop over the events; \<open>connfd\<close> is what \<open>accept\<close> returns, a new descriptor or -1.\<close>

definition main_turn :: "int \<Rightarrow> int \<Rightarrow> server \<Rightarrow> server option" where
  "main_turn listenfd connfd s = (case todo s of [] \<Rightarrow> None
   | (sockfd, ev) # rest \<Rightarrow> let s = s\<lparr>todo := rest\<rparr> in
       if sockfd = listenfd then
         if connfd = -1 then Some (addfd connfd True s)
         else if 0 \<le> connfd \<and> connfd \<notin> opened s then Some (addfd connfd True (s\<lparr>opened := insert connfd (opened s)\<rparr>))
         else None
       else if ev AND EPOLLIN \<noteq> 0 then Some (s\<lparr>fds_for_new_worker := sockfd, workers := workers s @ [Begun]\<rparr>)
       else Some s)"

subsection \<open>The workers\<close>

datatype recv_result = Content "byte list" | Foreign_closed | Again | Other_error

definition worker_begin :: "nat \<Rightarrow> server \<Rightarrow> server option" where
  "worker_begin i s = (if i < length (workers s) \<and> workers s ! i = Begun
     then Some (s\<lparr>workers := (workers s)[i := Reading (fds_for_new_worker s) (replicate BUFFER_SIZE 0)]\<rparr>) else None)"

definition worker_recv :: "nat \<Rightarrow> recv_result \<Rightarrow> server \<Rightarrow> server option" where
  "worker_recv i r s = (if i < length (workers s) then
     case workers s ! i of Reading sockfd buf \<Rightarrow>
       (case r of
          Foreign_closed \<Rightarrow> Some (close_fd sockfd (s\<lparr>workers := (workers s)[i := Ended]\<rparr>))
        | Again \<Rightarrow> Some (reset_oneshot sockfd (s\<lparr>workers := (workers s)[i := Ended]\<rparr>))
        | Other_error \<Rightarrow> Some s
        | Content bs \<Rightarrow> (let buf = overwrite buf 0 (take (BUFFER_SIZE - 1) bs) in
            Some (s\<lparr>workers := (workers s)[i := Reading sockfd buf], printed := printed s @ [(sockfd, str_of buf)]\<rparr>)))
     | _ \<Rightarrow> None
   else None)"

subsection \<open>Runs\<close>

datatype action = Wait "(int \<times> 32 word) list" | Turn int | Begin nat | Recv nat recv_result

fun act :: "int \<Rightarrow> action \<Rightarrow> server \<Rightarrow> server option" where
  "act listenfd (Wait rs) s = epoll_wait rs s"
| "act listenfd (Turn connfd) s = main_turn listenfd connfd s"
| "act listenfd (Begin i) s = worker_begin i s"
| "act listenfd (Recv i r) s = worker_recv i r s"

abbreviation acts :: "int \<Rightarrow> action list \<Rightarrow> server \<Rightarrow> server option" where
  "acts listenfd \<equiv> run_actions (act listenfd)"

subsection \<open>What the enabled flag does\<close>

lemmas server_ops = addfd_def setnonblocking_def or_ignore_def EPOLL_CTL_ADD_def reset_oneshot_def close_fd_def

lemma report_all_fields:
  "report_all rs s = Some t \<Longrightarrow> opened t = opened s \<and> nonblock t = nonblock s \<and> fds_for_new_worker t = fds_for_new_worker s \<and> workers t = workers s \<and>
     printed t = printed s \<and> (\<forall>fd. fd \<notin> fst ` set rs \<longrightarrow> epoll t fd = epoll s fd)"
  by (induction rs arbitrary: s) (fastforce simp: report_one_def split: Option.bind_splits if_splits)+

lemma report_all_entries:
  "report_all rs s = Some t \<Longrightarrow> distinct (map fst rs) \<Longrightarrow> r \<in> set rs \<Longrightarrow>
   \<exists>e. epoll s (fst r) = Some e \<and> enabled e \<and> epoll t (fst r) = Some (e\<lparr>enabled := (evs e AND EPOLLONESHOT = 0)\<rparr>)"
proof (induction rs arbitrary: s)
  case (Cons q rs)
  obtain u where u: "report_one q s = Some u" "report_all rs u = Some t" using Cons.prems(1) by (auto split: Option.bind_splits)
  obtain e where e: "epoll s (fst q) = Some e" "enabled e" "u = s\<lparr>epoll := (epoll s)(fst q \<mapsto> e\<lparr>enabled := (evs e AND EPOLLONESHOT = 0)\<rparr>)\<rparr>"
    using u(1) by (auto simp: report_one_def split: Option.bind_splits if_splits)
  have q: "fst q \<notin> fst ` set rs" using Cons.prems(2) by auto
  show ?case
  proof (cases "r = q")
    case True
    then show ?thesis using report_all_fields [OF u(2)] e q by simp
  next
    case False
    then have r: "r \<in> set rs" using Cons.prems(3) by simp
    then have "fst r \<in> fst ` set rs" by (rule imageI)
    with q have n: "fst r \<noteq> fst q" by metis
    then show ?thesis using Cons.IH [OF u(2) _ r] Cons.prems(2) e(3) n by simp
  qed
qed simp

text \<open>No action enables the entry of a descriptor again, as \<open>EPOLL_CTL_ADD\<close> fails for one that is registered.\<close>

lemma act_disabled:
  assumes "act listenfd a s = Some t" "epoll s fd = Some e" "\<not> enabled e" "fd \<in> opened s" "\<forall>i. a \<noteq> Recv i Foreign_closed"
  shows "epoll t fd = Some e \<and> fd \<in> opened t \<and> (\<forall>rs. a = Wait rs \<longrightarrow> fd \<notin> fst ` set rs)"
proof (cases a)
  case (Wait rs)
  then obtain u where u: "report_all rs s = Some u" "t = u\<lparr>todo := rs\<rparr>" "distinct (map fst rs)"
    using assms(1) by (auto simp: epoll_wait_def split: Option.bind_splits if_splits)
  have "fd \<notin> fst ` set rs" using report_all_entries [OF u(1,3)] assms(2,3) by fastforce
  then show ?thesis using Wait report_all_fields [OF u(1)] assms(2,4) u(2) by simp
next
  case (Turn c)
  then show ?thesis using assms
    by (auto simp: main_turn_def server_ops Let_def split: list.splits if_splits option.splits)
next
  case (Begin i)
  then show ?thesis using assms by (auto simp: worker_begin_def split: if_splits)
next
  case (Recv i r)
  then show ?thesis using assms by (auto simp: worker_recv_def server_ops Let_def split: if_splits worker.splits recv_result.splits)
qed

lemma acts_disabled:
  "acts listenfd as s = Some t \<Longrightarrow> epoll s fd = Some e \<Longrightarrow> \<not> enabled e \<Longrightarrow> fd \<in> opened s \<Longrightarrow> \<forall>i. Recv i Foreign_closed \<notin> set as \<Longrightarrow>
   epoll t fd = Some e \<and> (\<forall>rs. Wait rs \<in> set as \<longrightarrow> fd \<notin> fst ` set rs)"
proof (induction as arbitrary: s)
  case (Cons a as)
  obtain u where u: "act listenfd a s = Some u" "acts listenfd as u = Some t" using Cons.prems(1) by (auto split: Option.bind_splits)
  have "epoll u fd = Some e" "fd \<in> opened u" "\<And>rs. a = Wait rs \<Longrightarrow> fd \<notin> fst ` set rs"
    using act_disabled [OF u(1) Cons.prems(2-4)] Cons.prems(5) by auto
  then show ?case using Cons.IH [OF u(2) _ Cons.prems(3)] Cons.prems(5) by auto
qed simp

subsection \<open>Workers that start at once\<close>

text \<open>The descriptors that workers serve or will read from the variable of the main thread.\<close>

fun claims_of :: "int \<Rightarrow> worker \<Rightarrow> int list" where
  "claims_of fd Begun = [fd]"
| "claims_of fd (Reading sockfd buf) = [sockfd]"
| "claims_of fd Ended = []"

definition claims :: "int \<Rightarrow> worker list \<Rightarrow> int list" where
  "claims fd ws = concat (map (claims_of fd) ws)"

lemma claims_update:
  assumes "i < length ws"
  obtains A B where "claims fd ws = A @ claims_of fd (ws ! i) @ B" "\<And>w. claims fd (ws[i := w]) = A @ claims_of fd w @ B"
proof
  show "claims fd ws = claims fd (take i ws) @ claims_of fd (ws ! i) @ claims fd (drop (Suc i) ws)"
    by (subst id_take_nth_drop [OF assms]) (simp add: claims_def)
  show "claims fd (ws[i := w]) = claims fd (take i ws) @ claims_of fd w @ claims fd (drop (Suc i) ws)" for w
    using assms by (simp add: upd_conv_take_nth_drop claims_def)
qed

lemma claims_of_other: "w \<noteq> Begun \<Longrightarrow> claims_of fd w = claims_of fd' w"
  by (cases w) simp_all

lemma claims_no_begun: "Begun \<notin> set ws \<Longrightarrow> claims fd ws = claims fd' ws"
  unfolding claims_def by (induction ws) (auto intro: claims_of_other)

definition busy :: "int \<Rightarrow> server \<Rightarrow> int list" where
  "busy listenfd s = filter (\<lambda>fd. fd \<noteq> listenfd) (map fst (todo s)) @ claims (fds_for_new_worker s) (workers s)"

definition busy_ok :: "int \<Rightarrow> server \<Rightarrow> bool" where
  "busy_ok listenfd s \<longleftrightarrow> distinct (busy listenfd s) \<and>
     (\<forall>fd \<in> set (busy listenfd s). \<exists>e. epoll s fd = Some e \<and> \<not> enabled e) \<and>
     (\<forall>fd e. epoll s fd = Some e \<longrightarrow> fd \<in> opened s \<and> (fd \<noteq> listenfd \<longrightarrow> evs e AND EPOLLONESHOT \<noteq> 0))"

definition main_action :: "action \<Rightarrow> bool" where
  "main_action a = (case a of Wait _ \<Rightarrow> True | Turn _ \<Rightarrow> True | _ \<Rightarrow> False)"

text \<open>The runs in which a worker reads its argument before the main thread goes on.\<close>

definition eager_act :: "int \<Rightarrow> action \<Rightarrow> server \<Rightarrow> server option" where
  "eager_act listenfd a s = (if main_action a \<and> Begun \<in> set (workers s) then None else act listenfd a s)"

abbreviation eager_acts :: "int \<Rightarrow> action list \<Rightarrow> server \<Rightarrow> server option" where
  "eager_acts listenfd \<equiv> run_actions (eager_act listenfd)"

lemma wait_ok:
  assumes "busy_ok listenfd s" "epoll_wait rs s = Some t"
  shows "busy_ok listenfd t"
proof -
  obtain u where u: "report_all rs s = Some u" "t = u\<lparr>todo := rs\<rparr>" "distinct (map fst rs)" "todo s = []"
    using assms(2) by (auto simp: epoll_wait_def split: Option.bind_splits if_splits)
  note f = report_all_fields [OF u(1)]
  note g = report_all_entries [OF u(1,3)]
  let ?c = "claims (fds_for_new_worker s) (workers s)"
  have c: "distinct ?c" "\<forall>fd \<in> set ?c. \<exists>e. epoll s fd = Some e \<and> \<not> enabled e"
    and o: "\<And>fd e. epoll s fd = Some e \<Longrightarrow> fd \<in> opened s \<and> (fd \<noteq> listenfd \<longrightarrow> evs e AND EPOLLONESHOT \<noteq> 0)"
    using assms(1) u(4) by (auto simp: busy_ok_def busy_def)
  have d: "fd \<notin> fst ` set rs" if "fd \<in> set ?c" for fd
    using c(2) that g by fastforce
  have b: "busy listenfd t = filter (\<lambda>fd. fd \<noteq> listenfd) (map fst rs) @ ?c" using f u(2) by (simp add: busy_def)
  have "distinct (busy listenfd t)" unfolding b using u(3) c(1) d by auto
  moreover have "\<exists>e. epoll t fd = Some e \<and> \<not> enabled e" if "fd \<in> set (busy listenfd t)" for fd
  proof (cases "fd \<in> fst ` set rs")
    case True
    then obtain r where r: "r \<in> set rs" "fst r = fd" by auto
    have "fd \<noteq> listenfd" using that True d unfolding b by auto
    then show ?thesis using g [OF r(1)] r(2) o u(2) by auto
  next
    case False
    then show ?thesis using that c(2) f u(2) unfolding b by auto
  qed
  moreover have "fd \<in> opened t \<and> (fd \<noteq> listenfd \<longrightarrow> evs e AND EPOLLONESHOT \<noteq> 0)" if e: "epoll t fd = Some e" for fd e
  proof (cases "fd \<in> fst ` set rs")
    case True
    then obtain r where r: "r \<in> set rs" "fst r = fd" by auto
    then show ?thesis using g [OF r(1)] e o f u(2) by auto
  next
    case False
    then show ?thesis using e o f u(2) by auto
  qed
  ultimately show ?thesis by (simp add: busy_ok_def)
qed

lemma turn_ok:
  assumes "busy_ok listenfd s" "main_turn listenfd c s = Some t" "Begun \<notin> set (workers s)"
  shows "busy_ok listenfd t"
proof -
  obtain sockfd ev rest where q: "todo s = (sockfd, ev) # rest" using assms(2) by (cases "todo s") (auto simp: main_turn_def)
  note n = claims_no_begun [OF assms(3), of "fds_for_new_worker s"]
  consider (accept) "sockfd = listenfd" | (dispatch) "sockfd \<noteq> listenfd" "ev AND EPOLLIN \<noteq> 0" | (other) "sockfd \<noteq> listenfd" "ev AND EPOLLIN = 0" by blast
  then show ?thesis
  proof cases
    case accept
    have b: "busy listenfd t = busy listenfd s" using assms(2) q accept by (auto simp: main_turn_def busy_def server_ops Let_def split: if_splits)
    have e: "epoll t = epoll s \<and> opened s \<subseteq> opened t \<or>
        c \<notin> opened s \<and> epoll t = (epoll s)(c \<mapsto> \<lparr>evs = EPOLLIN OR EPOLLET OR EPOLLONESHOT, enabled = True\<rparr>) \<and> opened t = insert c (opened s)"
      using assms(2) q accept by (auto simp: main_turn_def server_ops Let_def or.assoc split: if_splits)
    have ne: "c \<notin> set (busy listenfd s)" if "c \<notin> opened s" using assms(1) that unfolding busy_ok_def by blast
    have f: "(EPOLLIN OR EPOLLET OR EPOLLONESHOT) AND EPOLLONESHOT \<noteq> 0" by (simp add: EPOLLIN_def EPOLLET_def EPOLLONESHOT_def)
    show ?thesis using e
    proof (elim disjE conjE)
      assume "epoll t = epoll s" "opened s \<subseteq> opened t"
      then show ?thesis using assms(1) b unfolding busy_ok_def by auto
    next
      assume x: "c \<notin> opened s" "epoll t = (epoll s)(c \<mapsto> \<lparr>evs = EPOLLIN OR EPOLLET OR EPOLLONESHOT, enabled = True\<rparr>)" "opened t = insert c (opened s)"
      have "\<exists>e. epoll t fd = Some e \<and> \<not> enabled e" if "fd \<in> set (busy listenfd t)" for fd
      proof -
        have "fd \<noteq> c" using that b ne [OF x(1)] by auto
        then show ?thesis using assms(1) that b x(2) by (simp add: busy_ok_def)
      qed
      then show ?thesis using assms(1) b x f by (simp add: busy_ok_def)
    qed
  next
    case dispatch
    then have "t = s\<lparr>todo := rest, fds_for_new_worker := sockfd, workers := workers s @ [Begun]\<rparr>" using assms(2) q by (simp add: main_turn_def)
    moreover have "set (busy listenfd t) = set (busy listenfd s)" "distinct (busy listenfd t) = distinct (busy listenfd s)"
      using calculation q dispatch(1) n [of sockfd] by (auto simp: busy_def claims_def)
    ultimately show ?thesis using assms(1) by (simp add: busy_ok_def)
  next
    case other
    then have "t = s\<lparr>todo := rest\<rparr>" using assms(2) q by (simp add: main_turn_def)
    then have t: "epoll t = epoll s" "opened t = opened s" "busy listenfd s = sockfd # busy listenfd t" using q other(1) by (simp_all add: busy_def)
    show ?thesis using assms(1) unfolding busy_ok_def t by simp
  qed
qed

lemma begin_ok: "busy_ok listenfd s \<Longrightarrow> worker_begin i s = Some t \<Longrightarrow> busy_ok listenfd t"
proof -
  assume b: "busy_ok listenfd s" and w: "worker_begin i s = Some t"
  then have i: "i < length (workers s)" "workers s ! i = Begun" "t = s\<lparr>workers := (workers s)[i := Reading (fds_for_new_worker s) (replicate BUFFER_SIZE 0)]\<rparr>"
    by (auto simp: worker_begin_def split: if_splits)
  obtain A B where "claims (fds_for_new_worker s) (workers s) = A @ claims_of (fds_for_new_worker s) (workers s ! i) @ B"
      "\<And>w. claims (fds_for_new_worker s) ((workers s)[i := w]) = A @ claims_of (fds_for_new_worker s) w @ B"
    using claims_update [OF i(1)] by blast
  then have "busy listenfd t = busy listenfd s" using i by (simp add: busy_def)
  then show ?thesis using b i(3) by (simp add: busy_ok_def)
qed

lemma recv_ok: 
  assumes "busy_ok listenfd s" "worker_recv i r s = Some t"
  shows "busy_ok listenfd t"
proof -
  obtain fd buf where w: "i < length (workers s)" "workers s ! i = Reading fd buf"
    using assms(2) by (auto simp: worker_recv_def split: if_splits worker.splits)
  let ?x = "fds_for_new_worker s" and ?p = "filter (\<lambda>fd. fd \<noteq> listenfd) (map fst (todo s))"
  obtain A B where c: "claims ?x (workers s) = A @ claims_of ?x (workers s ! i) @ B" "\<And>w. claims ?x ((workers s)[i := w]) = A @ claims_of ?x w @ B"
    using claims_update [OF w(1)] by blast
  have b: "busy listenfd s = ?p @ A @ fd # B" using c(1) w(2) by (simp add: busy_def)
  have e: "\<exists>e. epoll s fd = Some e \<and> \<not> enabled e" using assms(1) b by (simp add: busy_ok_def)
  show ?thesis
  proof (cases r)
    case (Content bs)
    then have "busy listenfd t = busy listenfd s" "epoll t = epoll s" "opened t = opened s" using assms(2) w c by (auto simp: worker_recv_def Let_def busy_def)
    then show ?thesis using assms(1) by (simp add: busy_ok_def)
  next
    case Foreign_closed
    then have t: "busy listenfd t = ?p @ A @ B" "epoll t = (epoll s)(fd := None)" "opened t = opened s - {fd}"
      using assms(2) w c by (auto simp: worker_recv_def close_fd_def busy_def)
    then show ?thesis using assms(1) b by (auto simp: busy_ok_def)
  next
    case Again
    then have t: "busy listenfd t = ?p @ A @ B" "epoll t = epoll s" "opened t = opened s"
      using assms(2) w c e by (auto simp: worker_recv_def server_ops busy_def)
    then show ?thesis using assms(1) b by (auto simp: busy_ok_def)
  next
    case Other_error
    then show ?thesis using assms w by (simp add: worker_recv_def)
  qed
qed

lemma eager_act_ok: "busy_ok listenfd s \<Longrightarrow> eager_act listenfd a s = Some t \<Longrightarrow> busy_ok listenfd t"
  by (cases a) (auto simp: eager_act_def main_action_def split: if_splits intro: wait_ok turn_ok begin_ok recv_ok)

lemma eager_acts_ok:
  assumes "eager_acts listenfd as s = Some t" "busy_ok listenfd s"
  shows "busy_ok listenfd t"
proof (rule run_actions_inv [where P = "busy_ok listenfd"])
  show "eager_acts listenfd as s = Some t" "busy_ok listenfd s" by fact+
qed (rule eager_act_ok)

lemma server_start_ok: "busy_ok listenfd (start listenfd)"
  by (cases "0 \<le> listenfd") (simp_all add: busy_ok_def busy_def claims_def start_def server_ops)

text \<open>What an action adds to the claims.\<close>

lemma busy_grows:
  assumes "act listenfd a s = Some t" "main_action a \<Longrightarrow> Begun \<notin> set (workers s)"
  shows "set (busy listenfd t) \<subseteq> set (busy listenfd s) \<union> {c. \<exists>rs. a = Wait rs \<and> c \<in> fst ` set rs}"
proof (cases a)
  case (Wait rs)
  then obtain u where "report_all rs s = Some u" "t = u\<lparr>todo := rs\<rparr>"
    using assms(1) by (auto simp: epoll_wait_def split: Option.bind_splits if_splits)
  then show ?thesis using report_all_fields [of rs s u] Wait by (auto simp: busy_def)
next
  case (Turn c)
  then have n: "claims x (workers s) = claims y (workers s)" for x y
    using claims_no_begun assms(2) by (simp add: main_action_def)
  obtain sockfd ev rest where q: "todo s = (sockfd, ev) # rest" using assms(1) Turn by (cases "todo s") (auto simp: main_turn_def)
  have "workers t = workers s \<and> fds_for_new_worker t = fds_for_new_worker s \<and> todo t = rest \<or>
      sockfd \<noteq> listenfd \<and> workers t = workers s @ [Begun] \<and> fds_for_new_worker t = sockfd \<and> todo t = rest"
    using assms(1) Turn q by (auto simp: main_turn_def server_ops Let_def split: if_splits)
  then show ?thesis
  proof
    assume "workers t = workers s \<and> fds_for_new_worker t = fds_for_new_worker s \<and> todo t = rest"
    then show ?thesis using q by (auto simp: busy_def)
  next
    assume t: "sockfd \<noteq> listenfd \<and> workers t = workers s @ [Begun] \<and> fds_for_new_worker t = sockfd \<and> todo t = rest"
    then have "claims (fds_for_new_worker t) (workers t) = claims (fds_for_new_worker s) (workers s) @ [sockfd]"
      using n [of sockfd "fds_for_new_worker s"] by (simp add: claims_def)
    then show ?thesis using q t by (auto simp: busy_def)
  qed
next
  case (Begin i)
  then have i: "i < length (workers s)" "workers s ! i = Begun" "t = s\<lparr>workers := (workers s)[i := Reading (fds_for_new_worker s) (replicate BUFFER_SIZE 0)]\<rparr>"
    using assms(1) by (auto simp: worker_begin_def split: if_splits)
  obtain A B where "claims (fds_for_new_worker s) (workers s) = A @ claims_of (fds_for_new_worker s) (workers s ! i) @ B"
      "\<And>w. claims (fds_for_new_worker s) ((workers s)[i := w]) = A @ claims_of (fds_for_new_worker s) w @ B"
    using claims_update [OF i(1)] by blast
  then show ?thesis using i(2,3) by (auto simp: busy_def)
next
  case (Recv i r)
  then obtain fd buf where i: "i < length (workers s)" "workers s ! i = Reading fd buf"
    using assms(1) by (auto simp: worker_recv_def split: if_splits worker.splits)
  have rest: "fds_for_new_worker t = fds_for_new_worker s" "todo t = todo s"
    using assms(1) Recv i by (cases r; auto simp: worker_recv_def server_ops Let_def split: if_splits)+
  have "(workers s)[i := Reading fd buf] = workers s" using i(2) by (metis list_update_id)
  then have "workers t \<in> {(workers s)[i := Ended], (workers s)[i := Reading fd buf]} \<union> range (\<lambda>b. (workers s)[i := Reading fd b])"
    using assms(1) Recv i by (cases r) (auto simp: worker_recv_def server_ops Let_def split: if_splits option.splits)
  then obtain w where w: "workers t = (workers s)[i := w]" "\<And>x. set (claims_of x w) \<subseteq> {fd}" by fastforce
  obtain A B where "claims (fds_for_new_worker s) (workers s) = A @ claims_of (fds_for_new_worker s) (workers s ! i) @ B"
      "\<And>w. claims (fds_for_new_worker s) ((workers s)[i := w]) = A @ claims_of (fds_for_new_worker s) w @ B"
    using claims_update [OF i(1)] by blast
  then show ?thesis using i(2) w(2) [of "fds_for_new_worker s"] w(1) rest by (auto simp: busy_def)
qed

text \<open>A worker that reads claims its descriptor, and only one does.\<close>

lemma reading_busy:
  assumes "i < length (workers s)" "workers s ! i = Reading fd buf"
  shows "fd \<in> set (busy listenfd s)"
proof -
  have "Reading fd buf \<in> set (workers s)" using assms by (metis nth_mem)
  then show ?thesis by (force simp: busy_def claims_def)
qed

lemma reading_one:
  assumes "busy_ok listenfd s" "i < length (workers s)" "j < length (workers s)"
    "workers s ! i = Reading fd buf" "workers s ! j = Reading fd buf'"
  shows "j = i"
proof (rule ccontr)
  assume ne: "j \<noteq> i"
  let ?x = "fds_for_new_worker s" and ?ws = "(workers s)[i := Ended]"
  obtain A B where c: "claims ?x (workers s) = A @ claims_of ?x (workers s ! i) @ B" "\<And>w. claims ?x ((workers s)[i := w]) = A @ claims_of ?x w @ B"
    using claims_update [OF assms(2)] by blast
  have "?ws ! j = Reading fd buf'" "j < length ?ws" using assms(3,5) ne by simp_all
  then have "Reading fd buf' \<in> set ?ws" by (metis nth_mem)
  then have "fd \<in> set (claims ?x ?ws)" by (force simp: claims_def)
  then have "fd \<in> set A \<union> set B" using c(2) [of Ended] by simp
  moreover have "distinct (A @ fd # B)" using assms(1,4) c(1) by (auto simp: busy_ok_def busy_def)
  ultimately show False by auto
qed

lemma ended_free:
  assumes "busy_ok listenfd s" "i < length (workers s)" "workers s ! i = Reading fd buf"
  shows "fd \<notin> set (busy listenfd (s\<lparr>workers := (workers s)[i := Ended]\<rparr>))"
proof -
  let ?x = "fds_for_new_worker s" and ?p = "filter (\<lambda>fd. fd \<noteq> listenfd) (map fst (todo s))"
  obtain A B where c: "claims ?x (workers s) = A @ fd # B" "claims ?x ((workers s)[i := Ended]) = A @ B"
    using claims_update [OF assms(2), of ?x] assms(3) by (metis append_Cons append_Nil claims_of.simps(2,3))
  have "distinct (?p @ A @ fd # B)" using assms(1) c(1) by (simp add: busy_ok_def busy_def)
  then have "fd \<notin> set (?p @ A @ B)" by (simp del: filter.simps)
  then show ?thesis using c(2) by (simp add: busy_def)
qed

text \<open>A connection that no worker claims and whose entry is disabled stays so: it is not reported, and only its worker could close it.\<close>

definition deaf :: "int \<Rightarrow> int \<Rightarrow> server \<Rightarrow> bool" where
  "deaf listenfd fd s \<longleftrightarrow> busy_ok listenfd s \<and> fd \<notin> set (busy listenfd s) \<and> fd \<in> opened s \<and> (\<exists>e. epoll s fd = Some e \<and> \<not> enabled e)"

lemma deaf_act:
  assumes "deaf listenfd fd s" "eager_act listenfd a s = Some t"
  shows "deaf listenfd fd t \<and> (\<forall>rs. a = Wait rs \<longrightarrow> fd \<notin> fst ` set rs)"
proof -
  have b: "busy_ok listenfd s" "fd \<notin> set (busy listenfd s)" using assms(1) by (auto simp: deaf_def)
  have bt: "busy_ok listenfd t" using eager_act_ok [OF b(1) assms(2)] .
  obtain e where e: "epoll s fd = Some e" "\<not> enabled e" "fd \<in> opened s" using assms(1) by (auto simp: deaf_def)
  have a: "act listenfd a s = Some t" and m: "main_action a \<Longrightarrow> Begun \<notin> set (workers s)"
    using assms(2) by (auto simp: eager_act_def split: if_splits)
  have keep: "epoll t fd = Some e \<and> fd \<in> opened t \<and> (\<forall>rs. a = Wait rs \<longrightarrow> fd \<notin> fst ` set rs)"
  proof (cases "\<exists>i. a = Recv i Foreign_closed")
    case False
    then show ?thesis using act_disabled [OF a e] by blast
  next
    case True
    then obtain i fd' buf where i: "a = Recv i Foreign_closed" "i < length (workers s)" "workers s ! i = Reading fd' buf"
      using a by (auto simp: worker_recv_def split: if_splits worker.splits)
    then have "fd \<noteq> fd'" using reading_busy [OF i(2,3)] b(2) by metis
    then show ?thesis using a i e by (auto simp: worker_recv_def close_fd_def)
  qed
  have "set (busy listenfd t) \<subseteq> set (busy listenfd s) \<union> {c. \<exists>rs. a = Wait rs \<and> c \<in> fst ` set rs}"
    using busy_grows [OF a m] .
  then have "fd \<notin> set (busy listenfd t)" using keep b(2) by auto
  then show ?thesis using keep bt e(2) by (auto simp: deaf_def)
qed

lemma deaf_acts:
  "eager_acts listenfd as s = Some t \<Longrightarrow> deaf listenfd fd s \<Longrightarrow> deaf listenfd fd t \<and> (\<forall>rs. Wait rs \<in> set as \<longrightarrow> fd \<notin> fst ` set rs)"
proof (induction as arbitrary: s)
  case (Cons a as)
  obtain u where u: "eager_act listenfd a s = Some u" "eager_acts listenfd as u = Some t" using Cons.prems(1) by (auto split: Option.bind_splits)
  show ?case using deaf_act [OF Cons.prems(2) u(1)] Cons.IH [OF u(2)] by auto
qed simp

subsection \<open>Properties\<close>

text \<open>
  C18. One-shot server: as long as every worker reads its argument before the main thread goes on, a connection that a worker serves is
  open and its entry is disabled, and no other worker serves it, whatever the clients send and however long the workers take.
\<close>

theorem one_worker_per_connection:
  assumes "eager_acts listenfd as (start listenfd) = Some s" "i < length (workers s)" "workers s ! i = Reading fd buf"
  shows "fd \<in> opened s \<and> (\<exists>e. epoll s fd = Some e \<and> \<not> enabled e) \<and>
    (\<forall>j buf'. j < length (workers s) \<and> workers s ! j = Reading fd buf' \<longrightarrow> j = i)"
proof -
  have b: "busy_ok listenfd s" using eager_acts_ok [OF assms(1) server_start_ok] .
  have "fd \<in> set (busy listenfd s)" by (rule reading_busy) fact+
  then have e: "fd \<in> opened s \<and> (\<exists>e. epoll s fd = Some e \<and> \<not> enabled e)" using b by (auto simp: busy_ok_def)
  have "j = i" if "j < length (workers s)" "workers s ! j = Reading fd buf'" for j buf'
    using that reading_one [OF b assms(2) that(1) assms(3) that(2)] by blast
  then show ?thesis using e by blast
qed

text \<open>A run with two connections that arrive and have data one after the other.\<close>

definition eager_run :: "action list" where
  "eager_run = [Wait [(3, EPOLLIN)], Turn 5, Wait [(3, EPOLLIN)], Turn 6, Wait [(5, EPOLLIN), (6, EPOLLIN)],
     Turn 0, Begin 0, Recv 0 (Content [104, 105]), Turn 0, Begin 1]"

lemmas action_eval = eager_act_def epoll_wait_def report_one_def main_turn_def worker_begin_def worker_recv_def server_ops
  EPOLLIN_def EPOLLET_def EPOLLONESHOT_def Let_def

lemma take_message [simp]: "take (BUFFER_SIZE - Suc 0) [a, b] = [a, b]"
  by (simp add: BUFFER_SIZE_def)

theorem one_worker_per_connection_witness:
  "\<exists>s b b'. eager_acts 3 eager_run (start 3) = Some s \<and> workers s = [Reading 5 b, Reading 6 b'] \<and> (5::int) \<noteq> 6 \<and>
     (\<exists>e. epoll s 5 = Some e \<and> \<not> enabled e)"
proof -
  obtain s where s: "eager_acts 3 eager_run (start 3) = Some s"
      "workers s = [Reading 5 (overwrite (replicate BUFFER_SIZE 0) 0 [104, 105]), Reading 6 (replicate BUFFER_SIZE 0)]"
    by (simp add: eager_run_def start_def main_action_def action_eval)
  then show ?thesis using one_worker_per_connection [OF s(1), of 0] by simp
qed

text \<open>
  C38. One-shot server: a worker that has read all there is ends without enabling its connection again, because \<open>reset_oneshot\<close>
  adds a descriptor that is registered already.  As long as every worker reads its argument before the main thread goes on, the connection is
  from then on never reported by \<open>epoll_wait\<close>, never served by another worker and never closed, whatever the other connections do
  (close, or come anew): what the client sends is never read.
\<close>

theorem connection_goes_deaf:
  assumes "eager_acts listenfd bs (start listenfd) = Some s" "workers s ! i = Reading fd buf" "worker_recv i Again s = Some t"
    and "eager_acts listenfd as t = Some u"
  shows "workers t ! i = Ended \<and> fd \<in> opened u \<and> (\<exists>e. epoll u fd = Some e \<and> \<not> enabled e) \<and>
    (\<forall>rs. Wait rs \<in> set as \<longrightarrow> fd \<notin> fst ` set rs) \<and> (\<forall>j buf'. j < length (workers u) \<longrightarrow> workers u ! j \<noteq> Reading fd buf')"
proof -
  have i: "i < length (workers s)" using assms(3) by (auto simp: worker_recv_def split: if_splits)
  have b: "busy_ok listenfd s" using eager_acts_ok [OF assms(1) server_start_ok] .
  have "fd \<in> set (busy listenfd s)" using reading_busy [OF i assms(2)] .
  then obtain e where e: "epoll s fd = Some e" "\<not> enabled e" "fd \<in> opened s" using b by (auto simp: busy_ok_def)
  have t: "t = s\<lparr>workers := (workers s)[i := Ended]\<rparr>" using assms(2,3) e(1) i by (simp add: worker_recv_def server_ops)
  have "deaf listenfd fd t" using recv_ok [OF b assms(3)] ended_free [OF b i assms(2)] e t by (simp add: deaf_def)
  then have "deaf listenfd fd u" "\<forall>rs. Wait rs \<in> set as \<longrightarrow> fd \<notin> fst ` set rs" using deaf_acts [OF assms(4)] by blast+
  moreover have "workers u ! j \<noteq> Reading fd buf'" if "j < length (workers u)" for j buf'
    using reading_busy [OF that, of fd buf' listenfd] calculation(1) by (auto simp: deaf_def)
  ultimately show ?thesis using t i by (auto simp: deaf_def)
qed

text \<open>The other connection is closed and its descriptor comes back for a new one.\<close>

theorem connection_goes_deaf_witness:
  "\<exists>s t u. eager_acts 3 eager_run (start 3) = Some s \<and> worker_recv 0 Again s = Some t \<and>
     eager_acts 3 [Recv 1 Foreign_closed, Wait [(3, EPOLLIN)], Turn 6, Wait [(6, EPOLLIN)], Turn 0, Begin 2] t = Some u \<and>
     5 \<in> opened u \<and> (\<exists>e. epoll u 5 = Some e \<and> \<not> enabled e) \<and> workers u = [Ended, Ended, Reading 6 (replicate BUFFER_SIZE 0)]"
proof -
  let ?w = "Reading 5 (overwrite (replicate BUFFER_SIZE 0) 0 [104, 105])"
  obtain s where s: "eager_acts 3 eager_run (start 3) = Some s" "epoll s = [3 \<mapsto> \<lparr>evs = EPOLLIN OR EPOLLET, enabled = True\<rparr>,
       5 \<mapsto> \<lparr>evs = EPOLLIN OR EPOLLET OR EPOLLONESHOT, enabled = False\<rparr>, 6 \<mapsto> \<lparr>evs = EPOLLIN OR EPOLLET OR EPOLLONESHOT, enabled = False\<rparr>]"
      "opened s = {3, 5, 6}" "workers s = [?w, Reading 6 (replicate BUFFER_SIZE 0)]" "todo s = []"
    by (auto simp: eager_run_def start_def main_action_def action_eval)
  have t: "worker_recv 0 Again s = Some (s\<lparr>workers := [Ended, Reading 6 (replicate BUFFER_SIZE 0)]\<rparr>)" (is "_ = Some ?t")
    using s by (simp add: worker_recv_def server_ops)
  obtain u where u: "eager_acts 3 [Recv 1 Foreign_closed, Wait [(3, EPOLLIN)], Turn 6, Wait [(6, EPOLLIN)], Turn 0, Begin 2] ?t = Some u"
      "workers u = [Ended, Ended, Reading 6 (replicate BUFFER_SIZE 0)]"
    using s by (auto simp: main_action_def action_eval)
  show ?thesis using connection_goes_deaf [OF s(1) _ t u(1)] s(1,4) t u by auto
qed

text \<open>When two connections have data at once and the workers start late, both workers serve the second one.\<close>

theorem late_workers_share:
  "\<exists>s. acts 3 [Wait [(3, EPOLLIN)], Turn 5, Wait [(3, EPOLLIN)], Turn 6, Wait [(5, EPOLLIN), (6, EPOLLIN)], Turn 0, Turn 0, Begin 0, Begin 1] (start 3) = Some s \<and>
     workers s = [Reading 6 (replicate BUFFER_SIZE 0), Reading 6 (replicate BUFFER_SIZE 0)] \<and> (\<exists>e. epoll s 5 = Some e \<and> \<not> enabled e) \<and> 5 \<in> opened s"
  by (simp add: start_def action_eval)

text \<open>The buffer is cleared once: a short message is printed with the rest of the longer one before it.\<close>

theorem leftover_printed:
  assumes "workers s ! i = Reading fd (replicate BUFFER_SIZE 0)" "i < length (workers s)"
  shows "\<exists>t u. worker_recv i (Content [97, 98, 99, 100]) s = Some t \<and> worker_recv i (Content [120, 121]) t = Some u \<and>
    printed u = printed s @ [(fd, [97, 98, 99, 100]), (fd, [120, 121, 99, 100])]"
proof -
  have r: "replicate BUFFER_SIZE (0::byte) = 0 # 0 # 0 # 0 # 0 # replicate 1019 0" by (simp add: BUFFER_SIZE_def numeral_eq_Suc)
  show ?thesis using assms unfolding r by (simp add: worker_recv_def BUFFER_SIZE_def overwrite_def str_of_def)
qed

end
