(* ===== verification/Uring_Echo.thy ===== *)
theory Uring_Echo
  imports C_Buffer "HOL-Library.Multiset"
begin

text \<open>
  The echo server on \<open>io_uring\<close>, \<open>liburing-learnning/tcp_server_iouring.c\<close>.  The state has the requests that are prepared in the
  submission queue, those the kernel works on, the completion queue, the table of buffers, the open connections and what was sent.
  The kernel completes requests in any order and at any time; a run is a list of actions of the kernel and of the loop in \<open>main\<close>.
  \<open>fault\<close> says that the kernel has used a buffer outside the table.
\<close>

definition ENTRIES_LENGTH :: nat where "ENTRIES_LENGTH = 4096"
definition MAX_CONNECTIONS :: int where "MAX_CONNECTIONS = 1024"
definition BUFFER_LENGTH :: nat where "BUFFER_LENGTH = 1024"

datatype event_type = READ | WRITE | ACCEPT

record connection_information =
  connectionfd :: int
  info_type :: event_type

text \<open>A request has the information as user data, and the row of \<open>buffer_table\<close> it reads or fills; a completion has a result.\<close>

record request = connection_information +
  row :: int
  len :: nat

record cqe = connection_information +
  res :: int

record ring =
  prepared :: "request list"
  inflight :: "request list"
  cq :: "cqe list"
  buffer_table :: "int \<Rightarrow> byte list"
  opened :: "int set"
  sent :: "int \<Rightarrow> byte list"
  waiting :: bool
  fault :: bool

subsection \<open>The requests\<close>

definition prep :: "request \<Rightarrow> ring \<Rightarrow> ring" where
  "prep q s = s\<lparr>prepared := prepared s @ [q]\<rparr>"

definition set_read_event :: "int \<Rightarrow> int \<Rightarrow> nat \<Rightarrow> ring \<Rightarrow> ring" where
  "set_read_event fd buffer n s = prep \<lparr>connectionfd = fd, info_type = READ, row = buffer, len = n\<rparr> s"

definition set_write_event :: "int \<Rightarrow> int \<Rightarrow> nat \<Rightarrow> ring \<Rightarrow> ring" where
  "set_write_event fd buffer n s = prep \<lparr>connectionfd = fd, info_type = WRITE, row = buffer, len = n\<rparr> s"

definition set_accept_event :: "int \<Rightarrow> ring \<Rightarrow> ring" where
  "set_accept_event fd s = prep \<lparr>connectionfd = fd, info_type = ACCEPT, row = 0, len = 0\<rparr> s"

definition start :: "int \<Rightarrow> ring" where
  "start listenfd = set_accept_event listenfd \<lparr>prepared = [], inflight = [], cq = [], buffer_table = (\<lambda>_. replicate BUFFER_LENGTH 0),
     opened = {}, sent = (\<lambda>_. []), waiting = False, fault = False\<rparr>"

definition close_fd :: "int \<Rightarrow> ring \<Rightarrow> ring" where
  "close_fd fd s = s\<lparr>opened := opened s - {fd}\<rparr>"

subsection \<open>The loop\<close>

text \<open>What the loop does with a completion.\<close>

definition handle :: "int \<Rightarrow> cqe \<Rightarrow> ring \<Rightarrow> ring" where
  "handle listenfd c s = (case info_type c of
     ACCEPT \<Rightarrow> set_accept_event listenfd (set_read_event (res c) (res c) 1024 s)
   | READ \<Rightarrow> if res c = 0 then close_fd (connectionfd c) s
       else if res c < 0 then close_fd (connectionfd c) s
       else set_write_event (connectionfd c) (connectionfd c) (nat (res c)) s
   | WRITE \<Rightarrow> set_write_event (connectionfd c) (connectionfd c) 1024 s)"

fun handle_all :: "int \<Rightarrow> cqe list \<Rightarrow> ring \<Rightarrow> ring" where
  "handle_all listenfd [] s = s"
| "handle_all listenfd (c # cs) s = handle_all listenfd cs (handle listenfd c s)"

definition io_uring_submit :: "ring \<Rightarrow> ring option" where
  "io_uring_submit s = (if waiting s then None else Some (s\<lparr>inflight := inflight s @ prepared s, prepared := [], waiting := True\<rparr>))"

definition handle_batch :: "int \<Rightarrow> ring \<Rightarrow> ring option" where
  "handle_batch listenfd s = (if waiting s \<and> cq s \<noteq> []
     then let s' = handle_all listenfd (take 10 (cq s)) s in Some (s'\<lparr>cq := drop 10 (cq s), waiting := False\<rparr>)
     else None)"

subsection \<open>The kernel\<close>

datatype outcome = Accepted int | Received "byte list" | Sent nat | Failed int

definition in_table :: "int \<Rightarrow> nat \<Rightarrow> bool" where
  "in_table r n \<longleftrightarrow> 0 \<le> r \<and> r < MAX_CONNECTIONS \<and> n \<le> BUFFER_LENGTH"

text \<open>What a request can result in, and what it does: \<open>accept\<close> opens a new connection, \<open>recv\<close> fills the buffer, \<open>send\<close> sends from it.
  Requests for a descriptor that is not open fail.\<close>

definition possible :: "request \<Rightarrow> outcome \<Rightarrow> ring \<Rightarrow> bool" where
  "possible q r s = (case r of
     Accepted fd \<Rightarrow> info_type q = ACCEPT \<and> 0 \<le> fd \<and> fd \<notin> opened s
   | Received bs \<Rightarrow> info_type q = READ \<and> length bs \<le> len q \<and> connectionfd q \<in> opened s
   | Sent n \<Rightarrow> info_type q = WRITE \<and> n \<le> len q \<and> connectionfd q \<in> opened s
   | Failed e \<Rightarrow> e < 0)"

definition result :: "outcome \<Rightarrow> int" where
  "result r = (case r of Accepted fd \<Rightarrow> fd | Received bs \<Rightarrow> int (length bs) | Sent n \<Rightarrow> int n | Failed e \<Rightarrow> e)"

definition perform :: "request \<Rightarrow> outcome \<Rightarrow> ring \<Rightarrow> ring" where
  "perform q r s = (case r of
     Accepted fd \<Rightarrow> s\<lparr>opened := insert fd (opened s), sent := (sent s)(fd := [])\<rparr>
   | Received bs \<Rightarrow> if bs = [] then s
       else if in_table (row q) (length bs) then s\<lparr>buffer_table := (buffer_table s)(row q := overwrite (buffer_table s (row q)) 0 bs)\<rparr>
       else s\<lparr>fault := True\<rparr>
   | Sent n \<Rightarrow> if in_table (row q) n then s\<lparr>sent := (sent s)(connectionfd q := sent s (connectionfd q) @ take n (buffer_table s (row q)))\<rparr>
       else s\<lparr>fault := True\<rparr>
   | Failed e \<Rightarrow> s)"

definition complete :: "nat \<Rightarrow> outcome \<Rightarrow> ring \<Rightarrow> ring option" where
  "complete i r s = (if i < length (inflight s) \<and> possible (inflight s ! i) r s
     then let q = inflight s ! i; s = perform q r s in
       Some (s\<lparr>inflight := take i (inflight s) @ drop (i + 1) (inflight s),
               cq := cq s @ [\<lparr>connectionfd = connectionfd q, info_type = info_type q, res = result r\<rparr>]\<rparr>)
     else None)"

datatype action = Submit | Batch | Complete nat outcome

fun act :: "int \<Rightarrow> action \<Rightarrow> ring \<Rightarrow> ring option" where
  "act listenfd Submit s = io_uring_submit s"
| "act listenfd Batch s = handle_batch listenfd s"
| "act listenfd (Complete i r) s = complete i r s"

abbreviation acts :: "int \<Rightarrow> action list \<Rightarrow> ring \<Rightarrow> ring option" where
  "acts listenfd \<equiv> run_actions (act listenfd)"

subsection \<open>The connections that requests and completions are about\<close>

definition fd_req :: "'a connection_information_scheme \<Rightarrow> int" where
  "fd_req q = (if info_type q = ACCEPT then -1 else connectionfd q)"

definition fd_cqe :: "cqe \<Rightarrow> int" where
  "fd_cqe c = (if info_type c = ACCEPT then res c else connectionfd c)"

definition requests :: "ring \<Rightarrow> request multiset" where
  "requests s = mset (prepared s) + mset (inflight s)"

definition connections :: "request multiset \<Rightarrow> cqe multiset \<Rightarrow> int multiset" where
  "connections Q C = filter_mset (\<lambda>fd. 0 \<le> fd) (image_mset fd_req Q + image_mset fd_cqe C)"

definition accepts :: "request multiset \<Rightarrow> cqe multiset \<Rightarrow> nat" where
  "accepts Q C = size (filter_mset (\<lambda>q. info_type q = ACCEPT) Q) + size (filter_mset (\<lambda>c. info_type c = ACCEPT) C)"

text \<open>Every open connection has one request or completion, there is one for the listener, and a request uses the row of its connection.\<close>

definition ring_ok :: "request multiset \<Rightarrow> cqe multiset \<Rightarrow> int set \<Rightarrow> bool" where
  "ring_ok Q C op \<longleftrightarrow> finite op \<and> connections Q C = mset_set op \<and> accepts Q C = 1 \<and>
     (\<forall>q \<in># Q. info_type q \<noteq> ACCEPT \<longrightarrow> row q = connectionfd q \<and> len q \<le> BUFFER_LENGTH) \<and>
     (\<forall>c \<in># C. info_type c = READ \<longrightarrow> res c \<le> int BUFFER_LENGTH)"

lemma mset_set_remove: "add_mset x X = mset_set A \<Longrightarrow> finite A \<Longrightarrow> X = mset_set (A - {x})"
proof -
  assume a: "add_mset x X = mset_set A" "finite A"
  then have "x \<in> A" by (metis elem_mset_set union_single_eq_member)
  with a show ?thesis by (simp add: mset_set.remove [of A x])
qed

lemma connections_open: "connections Q C = mset_set op \<Longrightarrow> finite op \<Longrightarrow> fd \<in> op \<Longrightarrow> 0 \<le> fd"
  unfolding connections_def by (metis (no_types, lifting) elem_mset_set mem_Collect_eq set_mset_filter)

lemma mset_take_drop: "i < length xs \<Longrightarrow> mset xs = add_mset (xs ! i) (mset (take i xs @ drop (i + 1) xs))"
  by (subst id_take_nth_drop [of i xs]) simp_all

lemma requests_prep [simp]: "requests (prep q s) = add_mset q (requests s)"
  by (simp add: requests_def prep_def)

lemma prep_fields [simp]:
  "inflight (prep q s) = inflight s" "cq (prep q s) = cq s" "buffer_table (prep q s) = buffer_table s" "opened (prep q s) = opened s"
  "sent (prep q s) = sent s" "waiting (prep q s) = waiting s" "fault (prep q s) = fault s" "length (prepared (prep q s)) = length (prepared s) + 1"
  by (simp_all add: prep_def)

lemmas event_defs = set_read_event_def set_write_event_def set_accept_event_def

lemma handle_ok:
  assumes "ring_ok (requests s) (add_mset c C) (opened s)"
  shows "ring_ok (requests (handle listenfd c s)) C (opened (handle listenfd c s))"
proof (cases "info_type c")
  case ACCEPT
  then show ?thesis using assms by (auto simp: handle_def event_defs ring_ok_def connections_def accepts_def fd_req_def fd_cqe_def BUFFER_LENGTH_def)
next
  case WRITE
  then show ?thesis using assms by (auto simp: handle_def event_defs ring_ok_def connections_def accepts_def fd_req_def fd_cqe_def BUFFER_LENGTH_def)
next
  case READ
  show ?thesis
  proof (cases "res c \<le> 0")
    case True
    then have h: "handle listenfd c s = close_fd (connectionfd c) s" using READ by (simp add: handle_def)
    have q: "requests (close_fd (connectionfd c) s) = requests s" "opened (close_fd (connectionfd c) s) = opened s - {connectionfd c}"
      by (simp_all add: requests_def close_fd_def)
    have f: "finite (opened s)" and e: "connections (requests s) (add_mset c C) = mset_set (opened s)" using assms by (simp_all add: ring_ok_def)
    have "connections (requests s) C = mset_set (opened s - {connectionfd c})"
    proof (cases "0 \<le> connectionfd c")
      case True
      then have "add_mset (connectionfd c) (connections (requests s) C) = mset_set (opened s)"
        using e READ by (simp add: connections_def fd_cqe_def)
      then show ?thesis by (rule mset_set_remove [OF _ f])
    next
      case False
      then have "connectionfd c \<notin> opened s" using connections_open [OF e f] by blast
      then show ?thesis using False e READ by (simp add: connections_def fd_cqe_def)
    qed
    then show ?thesis using assms READ by (simp add: h q ring_ok_def accepts_def del: mset_set_Diff)
  next
    case False
    then show ?thesis using assms READ
      by (auto simp: handle_def event_defs ring_ok_def connections_def accepts_def fd_req_def fd_cqe_def nat_le_iff)
  qed
qed

lemma handle_all_ok:
  "ring_ok (requests s) (mset cs + C) (opened s) \<Longrightarrow> ring_ok (requests (handle_all listenfd cs s)) C (opened (handle_all listenfd cs s))"
proof (induction cs arbitrary: s)
  case (Cons c cs)
  have "ring_ok (requests (handle listenfd c s)) (mset cs + C) (opened (handle listenfd c s))" using handle_ok [of s c "mset cs + C"] Cons.prems by simp
  then show ?case using Cons.IH by simp
qed simp

lemma handle_length: "length (prepared (handle listenfd c s)) \<le> length (prepared s) + 2"
  by (auto simp: handle_def event_defs close_fd_def split: event_type.splits)

lemma handle_all_length: "length (prepared (handle_all listenfd cs s)) \<le> length (prepared s) + 2 * length cs"
proof (induction cs arbitrary: s)
  case (Cons c cs)
  show ?case using Cons [of "handle listenfd c s"] handle_length [of listenfd c s] by simp
qed simp

definition server_ok :: "ring \<Rightarrow> bool" where
  "server_ok s \<longleftrightarrow> ring_ok (requests s) (mset (cq s)) (opened s) \<and> (if waiting s then prepared s = [] else length (prepared s) \<le> 20)"

lemma perform_fields [simp]:
  "prepared (perform q r s) = prepared s" "inflight (perform q r s) = inflight s" "cq (perform q r s) = cq s" "waiting (perform q r s) = waiting s"
  by (auto simp: perform_def split: outcome.splits)

lemma perform_ok:
  assumes "ring_ok (add_mset q Q) C (opened s)" "possible q r s"
  shows "ring_ok Q (add_mset \<lparr>connectionfd = connectionfd q, info_type = info_type q, res = result r\<rparr> C) (opened (perform q r s))"
  using assms by (cases r; cases "info_type q") 
    (auto simp: ring_ok_def connections_def accepts_def fd_req_def fd_cqe_def possible_def result_def perform_def)

lemma act_ok:
  assumes "server_ok s" "act listenfd a s = Some t"
  shows "server_ok t"
proof (cases a)
  case Submit
  then have "t = s\<lparr>inflight := inflight s @ prepared s, prepared := [], waiting := True\<rparr>" using assms(2) by (auto simp: io_uring_submit_def split: if_splits)
  then show ?thesis using assms(1) by (simp add: server_ok_def requests_def add.commute split: if_splits)
next
  case Batch
  let ?u = "handle_all listenfd (take 10 (cq s)) s"
  have t: "t = ?u\<lparr>cq := drop 10 (cq s), waiting := False\<rparr>" "waiting s" using assms(2) Batch by (auto simp: handle_batch_def Let_def split: if_splits)
  have "mset (cq s) = mset (take 10 (cq s)) + mset (drop 10 (cq s))" by (metis append_take_drop_id mset_append)
  then have "ring_ok (requests ?u) (mset (drop 10 (cq s))) (opened ?u)" using assms(1) handle_all_ok [of s "take 10 (cq s)"] by (simp add: server_ok_def)
  moreover have "length (prepared ?u) \<le> 20" using handle_all_length [of listenfd "take 10 (cq s)" s] assms(1) t(2) by (simp add: server_ok_def)
  ultimately show ?thesis using t(1) by (simp add: server_ok_def requests_def)
next
  case (Complete i r)
  let ?q = "inflight s ! i"
  have i: "i < length (inflight s)" "possible ?q r s" 
    "t = (perform ?q r s)\<lparr>inflight := take i (inflight s) @ drop (i + 1) (inflight s), cq := cq s @ [\<lparr>connectionfd = connectionfd ?q, info_type = info_type ?q, res = result r\<rparr>]\<rparr>"
    using assms(2) Complete by (auto simp: complete_def Let_def split: if_splits)
  let ?Q = "mset (prepared s) + mset (take i (inflight s) @ drop (i + 1) (inflight s))"
  have "requests s = add_mset ?q ?Q" using mset_take_drop [OF i(1)] by (simp add: requests_def)
  then have "ring_ok ?Q (add_mset \<lparr>connectionfd = connectionfd ?q, info_type = info_type ?q, res = result r\<rparr> (mset (cq s))) (opened (perform ?q r s))"
    using perform_ok [OF _ i(2)] assms(1) by (simp add: server_ok_def)
  then show ?thesis using assms(1) i(3) by (simp add: server_ok_def requests_def)
qed

lemma start_ok: "server_ok (start listenfd)"
  by (simp add: server_ok_def start_def event_defs prep_def requests_def ring_ok_def connections_def accepts_def fd_req_def)

lemma acts_ok:
  assumes "acts listenfd as s = Some t" "server_ok s"
  shows "server_ok t"
proof (rule run_actions_inv [where P = server_ok])
  show "acts listenfd as s = Some t" "server_ok s" by fact+
qed (rule act_ok)

subsection \<open>Reading and writing connections\<close>

text \<open>The kinds and descriptors of everything outstanding; a request to accept is about no connection.\<close>

definition tasks :: "request multiset \<Rightarrow> cqe multiset \<Rightarrow> (event_type \<times> int) multiset" where
  "tasks Q C = image_mset (\<lambda>q. (info_type q, fd_req q)) Q + image_mset (\<lambda>c. (info_type c, fd_cqe c)) C"

definition pending :: "ring \<Rightarrow> (event_type \<times> int) list" where
  "pending s = map (\<lambda>q. (info_type q, fd_req q)) (prepared s @ inflight s) @ map (\<lambda>c. (info_type c, fd_cqe c)) (cq s)"

lemma mset_pending: "mset (pending s) = tasks (requests s) (mset (cq s))"
  by (simp add: pending_def tasks_def requests_def)

lemma connections_tasks: "connections Q C = filter_mset (\<lambda>fd. 0 \<le> fd) (image_mset snd (tasks Q C))"
  by (simp add: connections_def tasks_def multiset.map_comp comp_def)

lemma count_snd: "count (image_mset snd (mset xs)) y = length (filter (\<lambda>x. snd x = y) xs)"
  by (induction xs) auto

lemma pending_count:
  assumes "server_ok s" "0 \<le> fd"
  shows "length (filter (\<lambda>p. snd p = fd) (pending s)) = (if fd \<in> opened s then 1 else 0)"
proof -
  have o: "connections (requests s) (mset (cq s)) = mset_set (opened s)" "finite (opened s)" using assms(1) by (simp_all add: server_ok_def ring_ok_def)
  have "length (filter (\<lambda>p. snd p = fd) (pending s)) = count (connections (requests s) (mset (cq s))) fd"
    using assms(2) count_snd [of "pending s" fd] by (simp add: connections_tasks mset_pending)
  then show ?thesis using o by (simp add: count_mset_set')
qed

text \<open>A connection that is written to is not read from.\<close>

lemma write_not_read:
  assumes "ring_ok Q C op" "(WRITE, fd) \<in># tasks Q C" "0 \<le> fd"
  shows "fd \<in> op" "(READ, fd) \<notin># tasks Q C"
proof -
  have o: "connections Q C = mset_set op" "finite op" using assms(1) by (simp_all add: ring_ok_def)
  obtain T where T: "tasks Q C = add_mset (WRITE, fd) T" using assms(2) by (metis multi_member_split)
  have "fd \<in># connections Q C" using assms(3) by (simp add: connections_tasks T)
  then show "fd \<in> op" using o by simp
  show "(READ, fd) \<notin># tasks Q C"
  proof
    assume "(READ, fd) \<in># tasks Q C"
    then have "(READ, fd) \<in># T" using T by auto
    then obtain T' where "T = add_mset (READ, fd) T'" by (metis multi_member_split)
    then have "2 \<le> count (connections Q C) fd" using assms(3) by (simp add: connections_tasks T)
    then show False using o by (simp add: count_mset_set' split: if_splits)
  qed
qed

lemma handle_keeps_write:
  "(WRITE, fd) \<in># tasks (requests s) (add_mset c C) \<Longrightarrow> (WRITE, fd) \<in># tasks (requests (handle listenfd c s)) C"
  by (cases "info_type c") (auto simp: tasks_def handle_def event_defs close_fd_def fd_req_def fd_cqe_def requests_def prep_def)

lemma handle_all_keeps_write:
  "(WRITE, fd) \<in># tasks (requests s) (mset cs + C) \<Longrightarrow> (WRITE, fd) \<in># tasks (requests (handle_all listenfd cs s)) C"
proof (induction cs arbitrary: s)
  case (Cons c cs)
  then show ?case using handle_keeps_write [of fd s c "mset cs + C" listenfd] by simp
qed simp

lemma handle_table [simp]:
  "buffer_table (handle listenfd c s) = buffer_table s" "fault (handle listenfd c s) = fault s" "sent (handle listenfd c s) = sent s"
  by (auto simp: handle_def event_defs close_fd_def split: event_type.splits)

lemma handle_all_table [simp]:
  "buffer_table (handle_all listenfd cs s) = buffer_table s" "fault (handle_all listenfd cs s) = fault s" "sent (handle_all listenfd cs s) = sent s"
  by (induction cs arbitrary: s) simp_all

lemma act_keeps_write:
  assumes "server_ok s" "act listenfd a s = Some t" "(WRITE, fd) \<in> set (pending s)" "0 \<le> fd"
  shows "(WRITE, fd) \<in> set (pending t) \<and> buffer_table t fd = buffer_table s fd"
proof -
  have w: "(WRITE, fd) \<in># tasks (requests s) (mset (cq s))" using assms(3) mset_pending by (metis set_mset_mset)
  have ok: "ring_ok (requests s) (mset (cq s)) (opened s)" using assms(1) by (simp add: server_ok_def)
  show ?thesis
  proof (cases a)
    case Submit
    then have "t = s\<lparr>inflight := inflight s @ prepared s, prepared := [], waiting := True\<rparr>" using assms(2) by (auto simp: io_uring_submit_def split: if_splits)
    then show ?thesis using assms(3) by (auto simp: pending_def)
  next
    case Batch
    let ?u = "handle_all listenfd (take 10 (cq s)) s"
    have t: "t = ?u\<lparr>cq := drop 10 (cq s), waiting := False\<rparr>" using assms(2) Batch by (auto simp: handle_batch_def Let_def split: if_splits)
    have "mset (cq s) = mset (take 10 (cq s)) + mset (drop 10 (cq s))" by (metis append_take_drop_id mset_append)
    then have "(WRITE, fd) \<in># tasks (requests ?u) (mset (drop 10 (cq s)))" using w handle_all_keeps_write [of fd s "take 10 (cq s)"] by simp
    moreover have "mset (pending t) = tasks (requests ?u) (mset (drop 10 (cq s)))" using t by (simp add: mset_pending requests_def)
    ultimately have "(WRITE, fd) \<in> set (pending t)" by (metis set_mset_mset)
    then show ?thesis using t by simp
  next
    case (Complete i r)
    let ?q = "inflight s ! i"
    have i: "i < length (inflight s)" "possible ?q r s" 
      "t = (perform ?q r s)\<lparr>inflight := take i (inflight s) @ drop (i + 1) (inflight s), cq := cq s @ [\<lparr>connectionfd = connectionfd ?q, info_type = info_type ?q, res = result r\<rparr>]\<rparr>"
      using assms(2) Complete by (auto simp: complete_def Let_def split: if_splits)
    have q: "?q \<in># requests s" using i(1) by (simp add: requests_def)
    then have rw: "row ?q = connectionfd ?q" if "info_type ?q \<noteq> ACCEPT" using ok that unfolding ring_ok_def by blast
    have "(info_type ?q, fd_req ?q) \<in># tasks (requests s) (mset (cq s))" using q by (auto simp: tasks_def)
    then have nr: "info_type ?q = READ \<Longrightarrow> connectionfd ?q \<noteq> fd" using write_not_read(2) [OF ok w assms(4)] by (auto simp: fd_req_def)
    have "buffer_table t fd = buffer_table s fd" using i(2,3) nr rw by (auto simp: perform_def possible_def split: outcome.splits)
    moreover have "(WRITE, fd) \<in> set (pending t)"
    proof -
      have s: "set (inflight s) = insert ?q (set (take i (inflight s) @ drop (i + 1) (inflight s)))"
        using mset_take_drop [OF i(1)] by (metis set_mset_add_mset_insert set_mset_mset)
      show ?thesis using assms(3) i(3) s by (auto simp: pending_def fd_req_def fd_cqe_def)
    qed
    ultimately show ?thesis by simp
  qed
qed

definition writing :: "int \<Rightarrow> byte list \<Rightarrow> ring \<Rightarrow> bool" where
  "writing fd bs s \<longleftrightarrow> server_ok s \<and> (WRITE, fd) \<in> set (pending s) \<and> buffer_table s fd = bs"

lemma writing_act: "0 \<le> fd \<Longrightarrow> writing fd bs s \<Longrightarrow> act listenfd a s = Some t \<Longrightarrow> writing fd bs t"
  using act_ok act_keeps_write by (auto simp: writing_def)

lemma acts_keep_write:
  assumes "0 \<le> fd" "acts listenfd as s = Some t" "writing fd bs s"
  shows "writing fd bs t"
proof (rule run_actions_inv [where P = "writing fd bs"])
  show "acts listenfd as s = Some t" "writing fd bs s" by fact+
qed (rule writing_act [OF assms(1)])

subsection \<open>The table of buffers\<close>

definition small_accepts :: "action list \<Rightarrow> bool" where
  "small_accepts as = list_all (\<lambda>a. case a of Complete i (Accepted fd) \<Rightarrow> fd < MAX_CONNECTIONS | _ \<Rightarrow> True) as"

lemma handle_opened: "opened (handle listenfd c s) \<subseteq> opened s"
  by (auto simp: handle_def event_defs close_fd_def split: event_type.splits)

lemma handle_all_opened: "opened (handle_all listenfd cs s) \<subseteq> opened s"
proof (induction cs arbitrary: s)
  case (Cons c cs)
  show ?case using Cons [of "handle listenfd c s"] handle_opened [of listenfd c s] by auto
qed simp

lemma act_in_table:
  assumes "server_ok s" "act listenfd a s = Some t" "small_accepts [a]" "\<not> fault s" "\<forall>fd \<in> opened s. fd < MAX_CONNECTIONS"
  shows "\<not> fault t \<and> (\<forall>fd \<in> opened t. fd < MAX_CONNECTIONS)"
proof (cases a)
  case Submit
  then have "t = s\<lparr>inflight := inflight s @ prepared s, prepared := [], waiting := True\<rparr>" using assms(2) by (auto simp: io_uring_submit_def split: if_splits)
  then show ?thesis using assms by simp
next
  case Batch
  then show ?thesis using assms handle_all_opened [of listenfd "take 10 (cq s)" s] by (auto simp: handle_batch_def Let_def split: if_splits)
next
  case (Complete i r)
  let ?q = "inflight s ! i"
  have i: "i < length (inflight s)" "possible ?q r s" "fault t = fault (perform ?q r s)" "opened t = opened (perform ?q r s)"
    using assms(2) Complete by (auto simp: complete_def Let_def split: if_splits)
  have ok: "ring_ok (requests s) (mset (cq s)) (opened s)" using assms(1) by (simp add: server_ok_def)
  have q: "?q \<in># requests s" using i(1) by (simp add: requests_def)
  have rw: "row ?q = connectionfd ?q \<and> len ?q \<le> BUFFER_LENGTH" if "info_type ?q \<noteq> ACCEPT" using ok q that unfolding ring_ok_def by blast
  have "0 \<le> fd" if "fd \<in> opened s" for fd using connections_open [of "requests s" "mset (cq s)" "opened s" fd] ok that by (simp add: ring_ok_def)
  then show ?thesis using i assms(3-5) Complete rw
    by (auto simp: perform_def possible_def in_table_def small_accepts_def split: outcome.splits)
qed

lemma acts_in_table:
  "acts listenfd as s = Some t \<Longrightarrow> server_ok s \<Longrightarrow> small_accepts as \<Longrightarrow> \<not> fault s \<Longrightarrow> \<forall>fd \<in> opened s. fd < MAX_CONNECTIONS \<Longrightarrow> \<not> fault t"
proof (induction as arbitrary: s)
  case (Cons a as)
  then obtain u where u: "act listenfd a s = Some u" "acts listenfd as u = Some t" by (auto split: Option.bind_splits)
  have sm: "small_accepts [a]" "small_accepts as" using Cons.prems(3) by (simp_all add: small_accepts_def)
  have "\<not> fault u \<and> (\<forall>fd \<in> opened u. fd < MAX_CONNECTIONS)" using act_in_table [OF Cons.prems(2) u(1) sm(1)] Cons.prems(4,5) by blast
  then show ?case using Cons.IH [OF u(2) act_ok [OF Cons.prems(2) u(1)] sm(2)] by blast
qed simp

subsection \<open>Properties\<close>

text \<open>
  C17. Echo server on io_uring: at every moment of every run each open connection has exactly one request or completion, a closed one has
  none, exactly one request or completion is to accept, and the loop prepares at most 20 requests before it submits them, so that
  \<open>io_uring_get_sqe\<close> always finds a free entry.
\<close>

theorem one_request_per_connection:
  assumes "acts listenfd as (start listenfd) = Some s"
  shows "(\<forall>fd. 0 \<le> fd \<longrightarrow> length (filter (\<lambda>p. snd p = fd) (pending s)) = (if fd \<in> opened s then 1 else 0)) \<and>
    length (filter (\<lambda>p. fst p = ACCEPT) (pending s)) = 1 \<and> length (prepared s) \<le> 20 \<and> 20 < ENTRIES_LENGTH"
proof -
  have ok: "server_ok s" using acts_ok [OF assms start_ok] .
  have "length (filter (\<lambda>p. fst p = ACCEPT) (pending s)) = size (filter_mset (\<lambda>p. fst p = ACCEPT) (tasks (requests s) (mset (cq s))))"
    by (metis mset_filter mset_pending size_mset)
  also have "\<dots> = accepts (requests s) (mset (cq s))"
    by (simp add: tasks_def accepts_def filter_mset_image_mset)
  finally show ?thesis using ok pending_count [OF ok] by (auto simp: server_ok_def ring_ok_def ENTRIES_LENGTH_def split: if_splits)
qed

text \<open>A run: connection 5 is accepted, sends \<open>hi\<close> and gets it back.\<close>

definition echo_run :: "action list" where
  "echo_run = [Submit, Complete 0 (Accepted 5), Batch, Submit, Complete 0 (Received [104, 105]), Batch, Submit, Complete 1 (Sent 2)]"

lemma echo_run_result:
  "\<exists>s. acts 3 echo_run (start 3) = Some s \<and> opened s = {5} \<and> pending s = [(ACCEPT, -1), (WRITE, 5)] \<and> sent s 5 = [104, 105] \<and>
     buffer_table s 5 = overwrite (replicate BUFFER_LENGTH 0) 0 [104, 105]"
  by (simp add: echo_run_def start_def event_defs prep_def io_uring_submit_def complete_def possible_def perform_def result_def handle_batch_def
      handle_def in_table_def MAX_CONNECTIONS_def BUFFER_LENGTH_def pending_def fd_req_def fd_cqe_def overwrite_def Let_def)

theorem one_request_per_connection_witness:
  "\<exists>s. acts 3 echo_run (start 3) = Some s \<and> opened s = {5} \<and> length (filter (\<lambda>p. snd p = 5) (pending s)) = 1 \<and>
     length (filter (\<lambda>p. snd p = 6) (pending s)) = 0 \<and> length (prepared s) \<le> 20"
proof -
  obtain s where s: "acts 3 echo_run (start 3) = Some s" "opened s = {5}" using echo_run_result by auto
  have "length (filter (\<lambda>p. snd p = fd) (pending s)) = (if fd \<in> opened s then 1 else 0)" if "0 \<le> fd" for fd
    using one_request_per_connection [OF s(1)] that by blast
  from this [of 5] this [of 6] have n: "length (filter (\<lambda>p. snd p = 5) (pending s)) = 1" "length (filter (\<lambda>p. snd p = 6) (pending s)) = 0"
    using s(2) by simp_all
  have "length (prepared s) \<le> 20" using one_request_per_connection [OF s(1)] by blast
  then show ?thesis using n s by blast
qed

text \<open>
  Echo server on io_uring: as long as \<open>accept\<close> returns descriptors below \<open>MAX_CONNECTIONS\<close>, the kernel never reads or writes
  outside the table of buffers.
\<close>

theorem buffers_in_table:
  assumes "acts listenfd as (start listenfd) = Some s" "small_accepts as"
  shows "\<not> fault s"
  using acts_in_table [OF assms(1) start_ok assms(2)] by (simp add: start_def event_defs prep_def)

theorem buffers_in_table_witness: "\<exists>s. acts 3 echo_run (start 3) = Some s \<and> \<not> fault s"
proof -
  obtain s where s: "acts 3 echo_run (start 3) = Some s" using echo_run_result by auto
  have "small_accepts echo_run" by (simp add: small_accepts_def echo_run_def MAX_CONNECTIONS_def)
  then show ?thesis using buffers_in_table [OF s] s by blast
qed

text \<open>Descriptor 1024 is not checked: its buffer is behind the table.\<close>

theorem buffer_overrun:
  "\<exists>s. acts 3 [Submit, Complete 0 (Accepted 1024), Batch, Submit, Complete 0 (Received [65])] (start 3) = Some s \<and> fault s"
  by (simp add: start_def event_defs prep_def io_uring_submit_def complete_def possible_def perform_def result_def handle_batch_def
      handle_def in_table_def MAX_CONNECTIONS_def Let_def)

text \<open>
  C39. Echo server on io_uring: once the server has written to a connection it only ever writes to it.  Whatever happens later, the connection has a write
  request or the completion of one, none to read, is never closed, and its buffer stays what the first message has made it.
\<close>

theorem writes_for_ever:
  assumes "acts listenfd as (start listenfd) = Some s" "(WRITE, fd) \<in> set (pending s)" "0 \<le> fd" "acts listenfd bs s = Some t"
  shows "(WRITE, fd) \<in> set (pending t) \<and> (READ, fd) \<notin> set (pending t) \<and> fd \<in> opened t \<and> buffer_table t fd = buffer_table s fd"
proof -
  have "writing fd (buffer_table s fd) s" using assms(2) acts_ok [OF assms(1) start_ok] by (simp add: writing_def)
  then have w: "(WRITE, fd) \<in> set (pending t)" "buffer_table t fd = buffer_table s fd" "server_ok t"
    using acts_keep_write [OF assms(3,4)] by (simp_all add: writing_def)
  have m: "set (pending t) = set_mset (tasks (requests t) (mset (cq t)))" by (metis mset_pending set_mset_mset)
  have "ring_ok (requests t) (mset (cq t)) (opened t)" using w(3) by (simp add: server_ok_def)
  then show ?thesis using write_not_read [of "requests t" "mset (cq t)" "opened t" fd] w(1,2) assms(3) m by simp
qed

theorem writes_for_ever_witness:
  "\<exists>s t. acts 3 echo_run (start 3) = Some s \<and> act 3 Batch s = Some t \<and> (WRITE, 5) \<in> set (pending t) \<and>
     take 2 (buffer_table t 5) = [104, 105] \<and> 5 \<in> opened t"
proof -
  obtain s where s: "acts 3 echo_run (start 3) = Some s" "pending s = [(ACCEPT, -1), (WRITE, 5)]"
      "buffer_table s 5 = overwrite (replicate BUFFER_LENGTH 0) 0 [104, 105]" "waiting s" "cq s \<noteq> []"
    by (simp add: echo_run_def start_def event_defs prep_def io_uring_submit_def complete_def possible_def perform_def result_def handle_batch_def
      handle_def in_table_def MAX_CONNECTIONS_def BUFFER_LENGTH_def pending_def fd_req_def fd_cqe_def overwrite_def Let_def)
  then obtain t where t: "act 3 Batch s = Some t" by (simp add: handle_batch_def Let_def)
  have "acts 3 [Batch] s = Some t" using t by simp
  from writes_for_ever [OF s(1) _ _ this, of 5] s(2,3) have "(WRITE, 5) \<in> set (pending t)" "5 \<in> opened t"
      "buffer_table t 5 = overwrite (replicate BUFFER_LENGTH 0) 0 [104, 105]" by simp_all
  then show ?thesis using s(1) t by (simp add: overwrite_def BUFFER_LENGTH_def)
qed

end
