(* ===== verification/Mmap_Copy.thy ===== *)
theory Mmap_Copy
  imports Prelude
begin

text \<open>
  Copying a file through memory maps: \<open>system-programming/mmap/mmap-single-process-copy.c\<close>, and \<open>mmap-multiprocess-copy.c\<close>, where
  four child processes and the parent each copy a segment.  A \<open>memcpy\<close> may copy its bytes in any order, and the processes run
  at the same time: a run is a list of copied bytes, with the process and the offset.  Shown: the segments cover the file
  without overlap, and all processes together do what the single process does.
\<close>

definition num_process :: nat where "num_process = 5"

definition each_process_byte :: "nat \<Rightarrow> nat" where "each_process_byte byte_num = byte_num div num_process"

definition last_process_byte :: "nat \<Rightarrow> nat" where
  "last_process_byte byte_num = byte_num - each_process_byte byte_num * (num_process - 1)"

text \<open>The offsets that \<open>memcpy\<close> copies in the process with counter \<open>i\<close>.\<close>

definition segment :: "nat \<Rightarrow> nat \<Rightarrow> nat set" where
  "segment byte_num i = (let off = each_process_byte byte_num * i in
     if i = num_process - 1 then {off..<off + last_process_byte byte_num} else {off..<off + each_process_byte byte_num})"

text \<open>The new file after \<open>ftruncate\<close> of one that \<open>fopen\<close> has emptied, and what is left to copy for every process.  When
  \<open>fork\<close> fails nobody has the counter; the parent has the last one.\<close>

record copying =
  target :: "byte list"
  left :: "nat \<Rightarrow> nat set"

definition ftruncate :: "nat \<Rightarrow> byte list \<Rightarrow> byte list" where
  "ftruncate n f = take n f @ replicate (n - length f) 0"

function fork_loop :: "nat \<Rightarrow> (nat \<Rightarrow> bool) \<Rightarrow> nat list" where
  "fork_loop i fork_ok = (if i < num_process - 1 then (if fork_ok i then [i] else []) @ fork_loop (i + 1) fork_ok else [i])"
  by auto

termination by (relation "measure (\<lambda>(i, fork_ok). num_process - 1 - i)") auto

declare fork_loop.simps [simp del]

definition start :: "byte list \<Rightarrow> (nat \<Rightarrow> bool) \<Rightarrow> copying" where
  "start source fork_ok = (let procs = fork_loop 0 fork_ok in
     \<lparr>target = ftruncate (length source) [], left = (\<lambda>i. if i \<in> set procs then segment (length source) i else {})\<rparr>)"

definition copy_byte :: "byte list \<Rightarrow> nat \<Rightarrow> nat \<Rightarrow> copying \<Rightarrow> copying option" where
  "copy_byte source i k s = (if k \<in> left s i \<and> k < length source \<and> k < length (target s)
     then Some \<lparr>target = (target s)[k := source ! k], left = (left s)(i := left s i - {k})\<rparr> else None)"

abbreviation copy_bytes :: "byte list \<Rightarrow> (nat \<times> nat) list \<Rightarrow> copying \<Rightarrow> copying option" where
  "copy_bytes source \<equiv> run_actions (\<lambda>(i, k). copy_byte source i k)"

text \<open>The single process copies over the old file, cut or extended to the length of the source.\<close>

definition single_process_copy :: "byte list \<Rightarrow> byte list \<Rightarrow> byte list" where
  "single_process_copy source old = overwrite (ftruncate (length source) old) 0 source"

subsection \<open>The segments\<close>

lemma last_segment: "each_process_byte n * 4 + last_process_byte n = n"
  by (simp add: last_process_byte_def each_process_byte_def num_process_def)

lemma fork_loop_eq: "fork_loop 0 fork_ok = filter fork_ok [0..<4] @ [4]"
  by (simp add: fork_loop.simps num_process_def upt_rec eval_nat_numeral)

lemma segment_eq: "i < 5 \<Longrightarrow> segment n i = {each_process_byte n * i..<(if i = 4 then n else each_process_byte n * (i + 1))}"
  using last_segment [of n] by (auto simp: segment_def Let_def num_process_def algebra_simps)

lemma segments_cover:
  assumes "k < n"
  obtains i where "i < 5" "k \<in> segment n i"
proof (cases "k < each_process_byte n * 4")
  case True
  then have p: "0 < each_process_byte n" by (cases "each_process_byte n") auto
  let ?i = "k div each_process_byte n"
  have i: "?i < 4" using True p by (simp add: div_less_iff_less_mult mult.commute)
  have "each_process_byte n * ?i \<le> k" "k < each_process_byte n * (?i + 1)"
    using p dividend_less_times_div [of "each_process_byte n" k] by (simp_all add: add.commute)
  then have "k \<in> segment n ?i" using i by (simp add: segment_eq)
  then show ?thesis using that [of ?i] i by simp
next
  case False
  then show ?thesis using that [of 4] assms by (simp add: segment_eq)
qed

lemma segments_disjoint:
  assumes "k \<in> segment n i" "k \<in> segment n j" "i < 5" "j < 5"
  shows "i = j"
proof -
  have lt: False if "a < b" "k \<in> segment n a" "k \<in> segment n b" "b < 5" for a b
  proof -
    have "k < each_process_byte n * (a + 1)" "each_process_byte n * b \<le> k" using that by (auto simp: segment_eq split: if_splits)
    moreover have "each_process_byte n * (a + 1) \<le> each_process_byte n * b" using that(1) by (intro mult_le_mono2) simp
    ultimately show False by simp
  qed
  show ?thesis using lt [of i j] lt [of j i] assms by (cases i j rule: linorder_cases) auto
qed

lemma segment_bound: "k \<in> segment n i \<Longrightarrow> i < 5 \<Longrightarrow> k < n"
proof -
  assume k: "k \<in> segment n i" "i < 5"
  show "k < n"
  proof (cases "i = 4")
    case False
    then have "each_process_byte n * (i + 1) \<le> each_process_byte n * 4" using k(2) by (intro mult_le_mono2) simp
    moreover have "k < each_process_byte n * (i + 1)" using k False by (simp add: segment_eq)
    ultimately show ?thesis using last_segment [of n] by linarith
  qed (use k in \<open>simp add: segment_eq\<close>)
qed

subsection \<open>Runs\<close>

text \<open>What is left of a process is part of its segment, and a byte of the new file is that of the source when it is not left.\<close>

definition copy_inv :: "byte list \<Rightarrow> (nat \<Rightarrow> bool) \<Rightarrow> copying \<Rightarrow> bool" where
  "copy_inv source fork_ok s \<longleftrightarrow> length (target s) = length source \<and> (\<forall>i. left s i \<subseteq> left (start source fork_ok) i) \<and>
     (\<forall>i k. k \<in> left (start source fork_ok) i \<longrightarrow> target s ! k = (if k \<in> left s i then 0 else source ! k)) \<and>
     (\<forall>k < length source. (\<forall>i. k \<notin> left (start source fork_ok) i) \<longrightarrow> target s ! k = 0)"

lemma start_left:
  "left (start source fork_ok) i = (if i < 4 \<and> fork_ok i \<or> i = 4 then segment (length source) i else {})"
  by (auto simp: start_def Let_def fork_loop_eq)

lemma start_left_bound: "k \<in> left (start source fork_ok) i \<Longrightarrow> i < 5 \<and> k < length source \<and> k \<in> segment (length source) i"
  using segment_bound by (auto simp: start_left split: if_splits)

lemma start_inv: "copy_inv source fork_ok (start source fork_ok)"
proof -
  have "target (start source fork_ok) = replicate (length source) 0" by (simp add: start_def Let_def ftruncate_def)
  then show ?thesis using start_left_bound [of _ source fork_ok] by (auto simp: copy_inv_def)
qed

lemma copy_byte_inv:
  assumes "copy_inv source fork_ok s" "copy_byte source i k s = Some t"
  shows "copy_inv source fork_ok t"
proof -
  have t: "t = \<lparr>target = (target s)[k := source ! k], left = (left s)(i := left s i - {k})\<rparr>" "k \<in> left s i" "k < length source"
    using assms(2) by (auto simp: copy_byte_def split: if_splits)
  have i: "k \<in> left (start source fork_ok) i" using assms(1) t(2) by (auto simp: copy_inv_def)
  have l: "length (target s) = length source" using assms(1) by (simp add: copy_inv_def)
  have "target t ! k' = (if k' \<in> left t j then 0 else source ! k')" if "k' \<in> left (start source fork_ok) j" for j k'
  proof (cases "k' = k")
    case True
    then have "j = i" using segments_disjoint start_left_bound that i by blast
    then show ?thesis using True t l by simp
  next
    case False
    then show ?thesis using assms(1) that t(1) by (auto simp: copy_inv_def)
  qed
  moreover have "target t ! k' = 0" if "k' < length source" "\<forall>j. k' \<notin> left (start source fork_ok) j" for k'
  proof -
    have "k' \<noteq> k" using that i by blast
    then show ?thesis using assms(1) that t(1) by (simp add: copy_inv_def)
  qed
  moreover have "left t j \<subseteq> left (start source fork_ok) j" for j using assms(1) t(1) unfolding copy_inv_def by auto
  ultimately show ?thesis using t(1) l by (simp add: copy_inv_def)
qed

lemma copy_bytes_inv: "copy_bytes source ks s = Some t \<Longrightarrow> copy_inv source fork_ok s \<Longrightarrow> copy_inv source fork_ok t"
  by (erule run_actions_inv [rotated]) (auto intro: copy_byte_inv)

text \<open>Every byte a process still has to copy can be copied, so a run can always be completed.\<close>

lemma copy_byte_possible: "copy_inv source fork_ok s \<Longrightarrow> k \<in> left s i \<Longrightarrow> copy_byte source i k s \<noteq> None"
  using start_left_bound [of k source fork_ok i] by (auto simp: copy_inv_def copy_byte_def)

subsection \<open>Properties\<close>

text \<open>
  C19. Copy with several processes: when all forks succeed, then whatever the order in which the five processes copy their bytes, the run does not end
  before the file is what the single process would make of it, with any old file: when every process has copied its segment
  the target is the source, and as long as the target is not the source some process has a byte to copy and can copy it.
\<close>

theorem multi_process_copy:
  assumes "\<forall>i < 4. fork_ok i" "copy_bytes source ks (start source fork_ok) = Some s"
  shows "if \<forall>i. left s i = {} then target s = single_process_copy source old else \<exists>i k. copy_byte source i k s \<noteq> None"
proof -
  have inv: "copy_inv source fork_ok s" using copy_bytes_inv [OF assms(2) start_inv] .
  have single: "single_process_copy source old = source" by (simp add: single_process_copy_def ftruncate_def overwrite_def)
  have "target s = source" if e: "\<forall>i. left s i = {}"
  proof (rule nth_equalityI)
    show l: "length (target s) = length source" using inv by (simp add: copy_inv_def)
    fix k assume "k < length (target s)"
    then obtain i where "i < 5" "k \<in> segment (length source) i" using segments_cover l by metis
    then have "k \<in> left (start source fork_ok) i" using assms(1) by (auto simp: start_left)
    then show "target s ! k = source ! k" using inv e by (auto simp: copy_inv_def)
  qed
  moreover have "\<exists>i k. copy_byte source i k s \<noteq> None" if "left s i \<noteq> {}" for i using that copy_byte_possible [OF inv] by blast
  ultimately show ?thesis using single by auto
qed

theorem multi_process_copy_witness:
  "\<exists>s. copy_bytes [10, 20, 30, 40, 50, 60, 70] [(4, 5), (0, 0), (3, 3), (2, 2), (4, 4), (1, 1), (4, 6)] (start [10, 20, 30, 40, 50, 60, 70] (\<lambda>_. True)) = Some s \<and>
     target s = single_process_copy [10, 20, 30, 40, 50, 60, 70] [1] \<and> target s = [10, 20, 30, 40, 50, 60, 70]"
proof -
  let ?f = "[10, 20, 30, 40, 50, 60, 70] :: byte list"
  have "{i..<Suc i} = {i}" "{4..<Suc (Suc (Suc (Suc (Suc (Suc (Suc 0))))))} = {4, 5, 6::nat}" for i :: nat by auto
  then have "left (start ?f (\<lambda>_. True)) = (\<lambda>i. if i < 4 then {i} else if i = 4 then {4, 5, 6} else {})"
    by (simp add: fun_eq_iff start_left segment_eq each_process_byte_def num_process_def)
  moreover have "target (start ?f (\<lambda>_. True)) = [0, 0, 0, 0, 0, 0, 0]" by (simp add: start_def Let_def ftruncate_def)
  ultimately have s: "start ?f (\<lambda>_. True) = \<lparr>target = [0, 0, 0, 0, 0, 0, 0], left = (\<lambda>i. if i < 4 then {i} else if i = 4 then {4, 5, 6} else {})\<rparr>" by simp
  have "\<exists>s. copy_bytes ?f [(4, 5), (0, 0), (3, 3), (2, 2), (4, 4), (1, 1), (4, 6)] (start ?f (\<lambda>_. True)) = Some s \<and> (\<forall>i. left s i = {}) \<and> target s = ?f"
    unfolding s by (auto simp: copy_byte_def eval_nat_numeral)
  then obtain s where t: "copy_bytes ?f [(4, 5), (0, 0), (3, 3), (2, 2), (4, 4), (1, 1), (4, 6)] (start ?f (\<lambda>_. True)) = Some s" "\<forall>i. left s i = {}" "target s = ?f"
    by blast
  then show ?thesis using multi_process_copy [OF _ t(1), of "[1]"] by simp
qed

text \<open>
  Copy with several processes: when the fork for a segment fails nobody copies it; after every process has finished the target has zeros there.
\<close>

theorem failed_fork_leaves_zeros:
  assumes "copy_bytes source ks (start source fork_ok) = Some s" "i < 4" "\<not> fork_ok i" "k \<in> segment (length source) i"
  shows "target s ! k = 0"
proof -
  have inv: "copy_inv source fork_ok s" using copy_bytes_inv [OF assms(1) start_inv] .
  have "k \<notin> left (start source fork_ok) j" for j
  proof
    assume "k \<in> left (start source fork_ok) j"
    then have "j = i" "i < 4 \<and> fork_ok i \<or> i = 4" using start_left_bound [of k source fork_ok j] segments_disjoint [of k "length source" j i] assms(2,4)
      by (auto simp: start_left split: if_splits)
    then show False using assms(2,3) by simp
  qed
  moreover have "k < length source" using segment_bound assms(2,4) by simp
  ultimately show ?thesis using inv by (simp add: copy_inv_def)
qed

end
