(* ===== verification/Counters.thy ===== *)
theory Counters
  imports Prelude
begin

text \<open>
  The programs on threads of \<open>network-programming/yinshengyu\<close>: in \<open>thread4.c\<close> one hundred threads change a counter without a lock,
  in \<open>mutex.c\<close> under a mutex, and in \<open>semaphore.c\<close> two threads hand numbers over with two semaphores.  A thread is its
  program counter and its registers; a run is the list of the threads whose turn it is.  Reading \<open>number\<close>, adding and writing it back
  are separate steps.  Shown: with the mutex the result is zero however the threads are scheduled, without it it need not be, and
  the sum of the semaphore program is that of its inputs.
\<close>

subsection \<open>The counter\<close>

definition NUM_THREAD :: nat where "NUM_THREAD = 100"
definition TURNS :: nat where "TURNS = 50000000"

datatype pc = Test | Lock | Load | Store "64 word" | Unlock | Returned

record thread =
  pc :: pc
  turns :: nat
  step_by :: "64 word"

record counter =
  number :: "64 word"
  mutex :: "nat option"
  threads :: "thread list"

text \<open>\<open>main\<close> of \<open>mutex.c\<close> and of \<open>thread4.c\<close>: threads with an odd number increase, the others decrease.  The number of threads, which is \<open>NUM_THREAD\<close>, and the bound of
  the loops, which is \<open>TURNS\<close>, are arguments.\<close>

definition new_thread :: "nat \<Rightarrow> nat \<Rightarrow> thread" where
  "new_thread n i = \<lparr>pc = Test, turns = n, step_by = (if i mod 2 \<noteq> 0 then 1 else -1)\<rparr>"

definition create_threads :: "nat \<Rightarrow> nat \<Rightarrow> counter" where
  "create_threads num_thread n = \<lparr>number = 0, mutex = None, threads = map (new_thread n) [0..<num_thread]\<rparr>"

definition all_joined :: "counter \<Rightarrow> bool" where
  "all_joined s = list_all (\<lambda>t. pc t = Returned) (threads s)"

definition set_thread :: "nat \<Rightarrow> thread \<Rightarrow> counter \<Rightarrow> counter" where
  "set_thread i t s = s\<lparr>threads := (threads s)[i := t]\<rparr>"

text \<open>A step of \<open>thread_increse\<close> or \<open>thread_decrease\<close> in \<open>mutex.c\<close>; \<open>None\<close> when the thread waits for the mutex or has returned.\<close>

definition mutex_step :: "nat \<Rightarrow> counter \<Rightarrow> counter option" where
  "mutex_step i s = (if i < length (threads s) then let t = threads s ! i in
     case pc t of
       Test \<Rightarrow> Some (set_thread i (if turns t = 0 then t\<lparr>pc := Returned\<rparr> else t\<lparr>pc := Lock\<rparr>) s)
     | Lock \<Rightarrow> if mutex s = None then Some (set_thread i (t\<lparr>pc := Load\<rparr>) (s\<lparr>mutex := Some i\<rparr>)) else None
     | Load \<Rightarrow> Some (set_thread i (t\<lparr>pc := Store (number s + step_by t)\<rparr>) s)
     | Store v \<Rightarrow> Some (set_thread i (t\<lparr>pc := Unlock\<rparr>) (s\<lparr>number := v\<rparr>))
     | Unlock \<Rightarrow> Some (set_thread i (t\<lparr>pc := Test, turns := turns t - 1\<rparr>) (s\<lparr>mutex := None\<rparr>))
     | Returned \<Rightarrow> None
   else None)"

text \<open>The same without the lock, as in \<open>thread4.c\<close>.\<close>

definition racy_step :: "nat \<Rightarrow> counter \<Rightarrow> counter option" where
  "racy_step i s = (if i < length (threads s) then let t = threads s ! i in
     case pc t of
       Test \<Rightarrow> Some (set_thread i (if turns t = 0 then t\<lparr>pc := Returned\<rparr> else t\<lparr>pc := Load\<rparr>) s)
     | Load \<Rightarrow> Some (set_thread i (t\<lparr>pc := Store (number s + step_by t)\<rparr>) s)
     | Store v \<Rightarrow> Some (set_thread i (t\<lparr>pc := Test, turns := turns t - 1\<rparr>) (s\<lparr>number := v\<rparr>))
     | _ \<Rightarrow> None
   else None)"

abbreviation schedule :: "(nat \<Rightarrow> 's \<Rightarrow> 's option) \<Rightarrow> nat list \<Rightarrow> 's \<Rightarrow> 's option" where
  "schedule \<equiv> run_actions"

subsection \<open>The mutex\<close>

text \<open>What a thread still adds to the counter, after its next write.\<close>

definition owed :: "thread \<Rightarrow> 64 word" where
  "owed t = (case pc t of Unlock \<Rightarrow> of_nat (turns t - 1) * step_by t | _ \<Rightarrow> of_nat (turns t) * step_by t)"

definition in_section :: "pc \<Rightarrow> bool" where
  "in_section p = (case p of Load \<Rightarrow> True | Store v \<Rightarrow> True | Unlock \<Rightarrow> True | _ \<Rightarrow> False)"

definition thread_ok :: "64 word \<Rightarrow> nat option \<Rightarrow> nat \<Rightarrow> thread \<Rightarrow> bool" where
  "thread_ok num m i t \<longleftrightarrow> (in_section (pc t) \<longleftrightarrow> m = Some i) \<and> (\<forall>v. pc t = Store v \<longrightarrow> v = num + step_by t) \<and>
     (pc t = Returned \<longrightarrow> turns t = 0) \<and> (pc t = Test \<or> pc t = Returned \<or> 0 < turns t)"

definition mutex_inv :: "counter \<Rightarrow> bool" where
  "mutex_inv s \<longleftrightarrow> number s + sum_list (map owed (threads s)) = 0 \<and>
     (\<forall>i < length (threads s). thread_ok (number s) (mutex s) i (threads s ! i))"

lemma sum_list_set:
  fixes f :: "'a \<Rightarrow> 64 word"
  assumes "i < length xs"
  shows "sum_list (map f (xs[i := x])) = sum_list (map f xs) - f (xs ! i) + f x"
proof -
  have "sum_list (map f xs) = sum_list (map f (take i xs)) + (f (xs ! i) + sum_list (map f (drop (Suc i) xs)))"
    by (subst id_take_nth_drop [OF assms]) simp
  then show ?thesis using assms by (simp add: upd_conv_take_nth_drop)
qed

text \<open>The thread that moves must leave what the counter and the threads owe together as it is, and not disturb the others.\<close>

lemma mutex_invI:
  assumes "mutex_inv s" "i < length (threads s)" "thread_ok num m i t" "num + owed t = number s + owed (threads s ! i)"
    and "\<And>j. j \<noteq> i \<Longrightarrow> thread_ok (number s) (mutex s) j (threads s ! j) \<Longrightarrow> thread_ok num m j (threads s ! j)"
  shows "mutex_inv \<lparr>number = num, mutex = m, threads = (threads s)[i := t]\<rparr>"
proof -
  have "num + sum_list (map owed ((threads s)[i := t])) = num + (sum_list (map owed (threads s)) - owed (threads s ! i) + owed t)"
    by (simp only: sum_list_set [OF assms(2)])
  also have "\<dots> = number s + sum_list (map owed (threads s))" using assms(4) by (simp add: algebra_simps)
  also have "\<dots> = 0" using assms(1) by (simp add: mutex_inv_def)
  finally show ?thesis using assms(1-3,5) by (auto simp: mutex_inv_def nth_list_update)
qed

lemma of_nat_pred: "0 < n \<Longrightarrow> (of_nat n :: 64 word) * x = x + of_nat (n - 1) * x"
  by (cases n) (simp_all add: algebra_simps)

lemma mutex_step_inv:
  assumes "mutex_inv s" "mutex_step i s = Some s'"
  shows "mutex_inv s'"
proof -
  have i: "i < length (threads s)" using assms(2) by (auto simp: mutex_step_def split: if_splits)
  let ?t = "threads s ! i"
  have ok: "thread_ok (number s) (mutex s) i ?t" using assms(1) i by (simp add: mutex_inv_def)
  note I = mutex_invI [OF assms(1) i]
  show ?thesis
  proof (cases "pc ?t")
    case Test
    then have "s' = \<lparr>number = number s, mutex = mutex s, threads = (threads s)[i := (if turns ?t = 0 then ?t\<lparr>pc := Returned\<rparr> else ?t\<lparr>pc := Lock\<rparr>)]\<rparr>"
      using assms(2) i by (auto simp: mutex_step_def set_thread_def Let_def)
    then show ?thesis using I [of "number s" "mutex s"] ok Test by (auto simp: thread_ok_def owed_def in_section_def)
  next
    case Lock
    then have s': "mutex s = None" "s' = \<lparr>number = number s, mutex = Some i, threads = (threads s)[i := ?t\<lparr>pc := Load\<rparr>]\<rparr>"
      using assms(2) i by (auto simp: mutex_step_def set_thread_def Let_def split: if_splits)
    then show ?thesis using I [of "number s" "Some i"] ok Lock by (auto simp: thread_ok_def owed_def in_section_def)
  next
    case Load
    then have "s' = \<lparr>number = number s, mutex = mutex s, threads = (threads s)[i := ?t\<lparr>pc := Store (number s + step_by ?t)\<rparr>]\<rparr>"
      using assms(2) i by (auto simp: mutex_step_def set_thread_def Let_def)
    then show ?thesis using I [of "number s" "mutex s"] ok Load by (auto simp: thread_ok_def owed_def in_section_def)
  next
    case (Store v)
    then have s': "s' = \<lparr>number = v, mutex = mutex s, threads = (threads s)[i := ?t\<lparr>pc := Unlock\<rparr>]\<rparr>"
      using assms(2) i by (auto simp: mutex_step_def set_thread_def Let_def)
    have m: "mutex s = Some i" "v = number s + step_by ?t" "0 < turns ?t" using ok Store by (auto simp: thread_ok_def in_section_def)
    show ?thesis unfolding s'
    proof (rule I)
      show "v + owed (?t\<lparr>pc := Unlock\<rparr>) = number s + owed ?t" using m Store of_nat_pred [of "turns ?t" "step_by ?t"] by (simp add: owed_def)
    next
      fix j assume "j \<noteq> i" "thread_ok (number s) (mutex s) j (threads s ! j)"
      then show "thread_ok v (mutex s) j (threads s ! j)" using m(1) by (auto simp: thread_ok_def in_section_def)
    qed (use ok Store m in \<open>simp add: thread_ok_def in_section_def\<close>)
  next
    case Unlock
    then have "s' = \<lparr>number = number s, mutex = None, threads = (threads s)[i := ?t\<lparr>pc := Test, turns := turns ?t - 1\<rparr>]\<rparr>"
      using assms(2) i by (auto simp: mutex_step_def set_thread_def Let_def)
    then show ?thesis using I [of "number s" None] ok Unlock by (auto simp: thread_ok_def owed_def in_section_def)
  next
    case Returned
    then show ?thesis using assms(2) i by (simp add: mutex_step_def)
  qed
qed

lemma owed_start: "sum_list (map owed (threads (create_threads (2 * k) n))) = 0"
  by (induction k) (simp_all add: create_threads_def comp_def owed_def new_thread_def)

lemma create_threads_inv: "even k \<Longrightarrow> mutex_inv (create_threads k n)"
  using owed_start [of "k div 2" n] by (simp add: mutex_inv_def thread_ok_def in_section_def create_threads_def new_thread_def)

text \<open>No schedule gets stuck: as long as a thread has not returned, some thread can go on.\<close>

lemma mutex_not_stuck:
  assumes "mutex_inv s" "\<not> all_joined s" "\<forall>m. mutex s = Some m \<longrightarrow> m < length (threads s)"
  shows "\<exists>i. mutex_step i s \<noteq> None"
proof (cases "mutex s")
  case (Some m)
  then have "m < length (threads s)" "in_section (pc (threads s ! m))" using assms(1,3) by (auto simp: mutex_inv_def thread_ok_def)
  then have "mutex_step m s \<noteq> None" by (auto simp: mutex_step_def in_section_def Let_def split: pc.splits)
  then show ?thesis by blast
next
  case None
  obtain i where "i < length (threads s)" "pc (threads s ! i) \<noteq> Returned" using assms(2) by (auto simp: all_joined_def list_all_length)
  then have "mutex_step i s \<noteq> None" using None by (auto simp: mutex_step_def Let_def split: pc.splits)
  then show ?thesis by blast
qed

lemma mutex_step_holder:
  "\<forall>m. mutex s = Some m \<longrightarrow> m < length (threads s) \<Longrightarrow> mutex_step i s = Some t \<Longrightarrow> \<forall>m. mutex t = Some m \<longrightarrow> m < length (threads t)"
  by (auto simp: mutex_step_def set_thread_def Let_def split: if_splits pc.splits)

text \<open>
  C40. Counter with a mutex: however the threads are scheduled, when all have returned the counter is zero, for any bound of
  their loops and any even number of threads; and before that some thread can always go on.
\<close>

theorem mutex_result:
  assumes "even k" "schedule mutex_step is (create_threads k n) = Some s"
  shows "if all_joined s then number s = 0 else \<exists>i. mutex_step i s \<noteq> None"
proof -
  have inv: "mutex_inv s" using run_actions_inv [of mutex_inv mutex_step, OF mutex_step_inv assms(2) create_threads_inv [OF assms(1)]] .
  have h: "\<forall>m. mutex s = Some m \<longrightarrow> m < length (threads s)"
    using run_actions_inv [of "\<lambda>s. \<forall>m. mutex s = Some m \<longrightarrow> m < length (threads s)" mutex_step, OF mutex_step_holder assms(2)] by (simp add: create_threads_def)
  have "number s = 0" if "all_joined s"
  proof -
    have "owed (threads s ! i) = 0" if "i < length (threads s)" for i
    proof -
      have "thread_ok (number s) (mutex s) i (threads s ! i)" "pc (threads s ! i) = Returned" using inv \<open>all_joined s\<close> that by (auto simp: mutex_inv_def all_joined_def list_all_length)
      then show ?thesis by (simp add: thread_ok_def owed_def)
    qed
    then have "map owed (threads s) = replicate (length (threads s)) 0" by (intro nth_equalityI) simp_all
    then have "sum_list (map owed (threads s)) = 0" by (simp add: sum_list_replicate)
    then show ?thesis using inv by (simp add: mutex_inv_def)
  qed
  then show ?thesis using mutex_not_stuck [OF inv _ h] by simp
qed

theorem mutex_result_witness:
  "even NUM_THREAD \<and> (\<exists>s. schedule mutex_step [0, 0, 1, 0, 0, 0, 1, 1, 1, 1, 0, 1] (create_threads 2 1) = Some s \<and> all_joined s \<and> number s = 0)"
proof -
  obtain s where s: "schedule mutex_step [0, 0, 1, 0, 0, 0, 1, 1, 1, 1, 0, 1] (create_threads 2 1) = Some s" "all_joined s"
    by (simp add: create_threads_def new_thread_def upt_rec mutex_step_def set_thread_def Let_def all_joined_def)
  then show ?thesis using mutex_result [OF _ s(1)] by (simp add: NUM_THREAD_def)
qed

text \<open>Without the mutex a write can be lost: thread 1 reads the counter before thread 0 writes it.\<close>

theorem race_loses_update:
  "\<exists>s. schedule racy_step [0, 1, 0, 1, 0, 1, 0, 1] (create_threads 2 1) = Some s \<and> all_joined s \<and> number s = 1"
  by (simp add: create_threads_def new_thread_def upt_rec racy_step_def set_thread_def Let_def all_joined_def)

subsection \<open>Two threads with two semaphores\<close>

datatype read_pc = R_test | R_wait | R_scan | R_post | R_returned
datatype sum_pc = A_test | A_wait | A_add | A_post | A_returned

record handover =
  sem_one :: nat
  sem_two :: nat
  slot :: "32 word"
  rd :: read_pc
  rd_i :: nat
  ac :: sum_pc
  ac_i :: nat
  sum :: "32 word"

definition sem_start :: handover where
  "sem_start = \<lparr>sem_one = 0, sem_two = 1, slot = 0, rd = R_test, rd_i = 0, ac = A_test, ac_i = 0, sum = 0\<rparr>"

text \<open>\<open>read\<close>: its \<open>scanf\<close> number \<open>i\<close> finds a number, or nothing and leaves the variable.\<close>

definition read_step :: "(nat \<Rightarrow> 32 word option) \<Rightarrow> handover \<Rightarrow> handover option" where
  "read_step input s = (case rd s of
     R_test \<Rightarrow> Some (s\<lparr>rd := (if rd_i s < 5 then R_wait else R_returned)\<rparr>)
   | R_wait \<Rightarrow> if 0 < sem_two s then Some (s\<lparr>sem_two := sem_two s - 1, rd := R_scan\<rparr>) else None
   | R_scan \<Rightarrow> Some (s\<lparr>slot := (case input (rd_i s) of None \<Rightarrow> slot s | Some v \<Rightarrow> v), rd := R_post\<rparr>)
   | R_post \<Rightarrow> Some (s\<lparr>sem_one := sem_one s + 1, rd_i := rd_i s + 1, rd := R_test\<rparr>)
   | R_returned \<Rightarrow> None)"

definition accumulate_step :: "handover \<Rightarrow> handover option" where
  "accumulate_step s = (case ac s of
     A_test \<Rightarrow> Some (s\<lparr>ac := (if ac_i s < 5 then A_wait else A_returned)\<rparr>)
   | A_wait \<Rightarrow> if 0 < sem_one s then Some (s\<lparr>sem_one := sem_one s - 1, ac := A_add\<rparr>) else None
   | A_add \<Rightarrow> Some (s\<lparr>sum := sum s + slot s, ac := A_post\<rparr>)
   | A_post \<Rightarrow> Some (s\<lparr>sem_two := sem_two s + 1, ac_i := ac_i s + 1, ac := A_test\<rparr>)
   | A_returned \<Rightarrow> None)"

definition handover_step :: "(nat \<Rightarrow> 32 word option) \<Rightarrow> nat \<Rightarrow> handover \<Rightarrow> handover option" where
  "handover_step input i s = (if i = 0 then read_step input s else accumulate_step s)"

text \<open>The variable after \<open>n\<close> calls of \<open>scanf\<close>.\<close>

fun scanned :: "(nat \<Rightarrow> 32 word option) \<Rightarrow> nat \<Rightarrow> 32 word" where
  "scanned input 0 = 0"
| "scanned input (Suc n) = (case input n of None \<Rightarrow> scanned input n | Some v \<Rightarrow> v)"

definition sum_scanned :: "(nat \<Rightarrow> 32 word option) \<Rightarrow> nat \<Rightarrow> 32 word" where
  "sum_scanned input n = sum_list (map (\<lambda>i. scanned input (i + 1)) [0..<n])"

lemma sum_scanned_Suc: "sum_scanned input (Suc n) = sum_scanned input n + scanned input (Suc n)"
  by (simp add: sum_scanned_def)

text \<open>How many numbers have been scanned, and how many added.\<close>

definition scans :: "handover \<Rightarrow> nat" where
  "scans s = rd_i s + (if rd s = R_post then 1 else 0)"

definition adds :: "handover \<Rightarrow> nat" where
  "adds s = ac_i s + (if ac s = A_post then 1 else 0)"

text \<open>One token is in a semaphore or with a thread; it tells whether the number in the variable is to be added.\<close>

definition handover_inv :: "(nat \<Rightarrow> 32 word option) \<Rightarrow> handover \<Rightarrow> bool" where
  "handover_inv input s \<longleftrightarrow>
     sem_one s + sem_two s + (if rd s = R_scan \<or> rd s = R_post then 1 else 0) + (if ac s = A_add \<or> ac s = A_post then 1 else 0) = 1 \<and>
     scans s = adds s + (if sem_one s = 1 \<or> ac s = A_add \<or> rd s = R_post then 1 else 0) \<and>
     slot s = scanned input (scans s) \<and> sum s = sum_scanned input (adds s) \<and>
     rd_i s \<le> 5 \<and> (rd s \<noteq> R_test \<longrightarrow> (rd s = R_returned \<longleftrightarrow> rd_i s = 5)) \<and>
     ac_i s \<le> 5 \<and> (ac s \<noteq> A_test \<longrightarrow> (ac s = A_returned \<longleftrightarrow> ac_i s = 5))"

lemma read_step_inv: "handover_inv input s \<Longrightarrow> read_step input s = Some t \<Longrightarrow> handover_inv input t"
proof (cases "rd s")
  case R_test
  assume h: "handover_inv input s" "read_step input s = Some t"
  have t: "t = s\<lparr>rd := (if rd_i s < 5 then R_wait else R_returned)\<rparr>" using R_test h(2) by (simp add: read_step_def)
  have "rd_i s \<le> 5" using h(1) by (simp add: handover_inv_def)
  then show ?thesis using h(1) R_test unfolding t by (cases "rd_i s = 5") (simp_all add: handover_inv_def scans_def adds_def)
next
  case R_wait
  assume h: "handover_inv input s" "read_step input s = Some t"
  then have t: "0 < sem_two s" "t = s\<lparr>sem_two := sem_two s - 1, rd := R_scan\<rparr>" using R_wait by (simp_all add: read_step_def split: if_splits)
  show ?thesis using h(1) R_wait t(1) unfolding t(2) by (cases "ac s") (auto simp: handover_inv_def scans_def adds_def)
next
  case R_scan
  assume h: "handover_inv input s" "read_step input s = Some t"
  have t: "t = s\<lparr>slot := (case input (rd_i s) of None \<Rightarrow> slot s | Some v \<Rightarrow> v), rd := R_post\<rparr>" using R_scan h(2) by (simp add: read_step_def)
  show ?thesis using h(1) R_scan unfolding t by (cases "ac s") (auto simp: handover_inv_def scans_def adds_def split: option.splits)
next
  case R_post
  assume h: "handover_inv input s" "read_step input s = Some t"
  have t: "t = s\<lparr>sem_one := sem_one s + 1, rd_i := rd_i s + 1, rd := R_test\<rparr>" using R_post h(2) by (simp add: read_step_def)
  show ?thesis using h(1) R_post unfolding t by (cases "ac s") (auto simp: handover_inv_def scans_def adds_def simp del: scanned.simps)
qed (simp add: read_step_def)

lemma accumulate_step_inv: "handover_inv input s \<Longrightarrow> accumulate_step s = Some t \<Longrightarrow> handover_inv input t"
proof (cases "ac s")
  case A_test
  assume h: "handover_inv input s" "accumulate_step s = Some t"
  have t: "t = s\<lparr>ac := (if ac_i s < 5 then A_wait else A_returned)\<rparr>" using A_test h(2) by (simp add: accumulate_step_def)
  have "ac_i s \<le> 5" using h(1) by (simp add: handover_inv_def)
  then show ?thesis using h(1) A_test unfolding t by (cases "ac_i s = 5") (simp_all add: handover_inv_def scans_def adds_def)
next
  case A_wait
  assume h: "handover_inv input s" "accumulate_step s = Some t"
  then have t: "0 < sem_one s" "t = s\<lparr>sem_one := sem_one s - 1, ac := A_add\<rparr>" using A_wait by (simp_all add: accumulate_step_def split: if_splits)
  show ?thesis using h(1) A_wait t(1) unfolding t(2) by (cases "rd s") (auto simp: handover_inv_def scans_def adds_def)
next
  case A_add
  assume h: "handover_inv input s" "accumulate_step s = Some t"
  have t: "t = s\<lparr>sum := sum s + slot s, ac := A_post\<rparr>" using A_add h(2) by (simp add: accumulate_step_def)
  show ?thesis using h(1) A_add unfolding t by (cases "rd s") (auto simp: handover_inv_def scans_def adds_def sum_scanned_Suc simp del: scanned.simps)
next
  case A_post
  assume h: "handover_inv input s" "accumulate_step s = Some t"
  have t: "t = s\<lparr>sem_two := sem_two s + 1, ac_i := ac_i s + 1, ac := A_test\<rparr>" using A_post h(2) by (simp add: accumulate_step_def)
  show ?thesis using h(1) A_post unfolding t by (cases "rd s") (auto simp: handover_inv_def scans_def adds_def)
qed (simp add: accumulate_step_def)

lemma handover_step_inv: "handover_inv input s \<Longrightarrow> handover_step input i s = Some t \<Longrightarrow> handover_inv input t"
  using read_step_inv [of input s t] accumulate_step_inv [of input s t] by (simp add: handover_step_def split: if_splits)

lemma handover_start: "handover_inv input sem_start"
  by (simp add: handover_inv_def sem_start_def scans_def adds_def sum_scanned_def)

text \<open>
  Semaphores: however the two threads are scheduled, each number is added exactly once: when both have returned the sum is that of the five
  values the variable had after the calls of \<open>scanf\<close>; and before that one of the two can always go on.
\<close>

theorem semaphore_sum:
  assumes "schedule (handover_step input) is sem_start = Some s"
  shows "if rd s = R_returned \<and> ac s = A_returned then sum s = sum_scanned input 5 else \<exists>i. handover_step input i s \<noteq> None"
proof -
  have inv: "handover_inv input s" using run_actions_inv [of "handover_inv input" "handover_step input", OF handover_step_inv assms handover_start] .
  have "\<exists>i. handover_step input i s \<noteq> None" if "\<not> (rd s = R_returned \<and> ac s = A_returned)"
  proof (rule ccontr)
    assume "\<nexists>i. handover_step input i s \<noteq> None"
    then have "handover_step input 0 s = None" "handover_step input 1 s = None" by blast+
    then have "read_step input s = None" "accumulate_step s = None" by (simp_all add: handover_step_def)
    then have "rd s = R_wait \<and> sem_two s = 0 \<or> rd s = R_returned" "ac s = A_wait \<and> sem_one s = 0 \<or> ac s = A_returned"
      by (cases "rd s"; cases "ac s"; simp add: read_step_def accumulate_step_def split: if_splits)+
    then show False using inv that by (elim disjE conjE) (auto simp: handover_inv_def scans_def adds_def)
  qed
  moreover have "sum s = sum_scanned input 5" if "rd s = R_returned \<and> ac s = A_returned"
    using inv that by (auto simp: handover_inv_def adds_def)
  ultimately show ?thesis by simp
qed

theorem semaphore_sum_witness:
  "\<exists>s. schedule (handover_step (\<lambda>i. Some (of_nat i + 1))) (concat (replicate 5 [0, 1, 0, 0, 0, 1, 1, 1]) @ [0, 1]) sem_start = Some s \<and> sum s = 15"
proof -
  obtain s where s: "schedule (handover_step (\<lambda>i. Some (of_nat i + 1))) (concat (replicate 5 [0, 1, 0, 0, 0, 1, 1, 1]) @ [0, 1]) sem_start = Some s"
      "rd s = R_returned" "ac s = A_returned"
    by (simp add: eval_nat_numeral handover_step_def read_step_def accumulate_step_def sem_start_def)
  have "sum_scanned (\<lambda>i. Some (of_nat i + 1)) 5 = 15" by (simp add: sum_scanned_def upt_rec)
  then show ?thesis using semaphore_sum [OF s(1)] s by simp
qed

end
