(* ===== verification/Lt_Et.thy ===== *)
theory Lt_Et
  imports C_Buffer
begin

unbundle bit_operations_syntax

text \<open>
  The server \<open>network-programming/youshuang/9-3mtlt.cpp\<close>, which reads its connections in one of two ways: \<open>lt\<close> reads once for every event, and
  is called again while there is more; \<open>et\<close> reads until the socket is empty.  A socket has the bytes that have arrived and
  whether the client has closed it.  Shown: both print the same and close the same connections, and the loop of \<open>et\<close> always ends.
\<close>

definition BUFFER_SIZE :: nat where "BUFFER_SIZE = 10"
definition EPOLLIN :: "32 word" where "EPOLLIN = 0x001"
definition EPOLLET :: "32 word" where "EPOLLET = 0x80000000"

record sock =
  arrived :: "byte list"
  hung_up :: bool

record server =
  socks :: "int \<Rightarrow> sock option"
  registered :: "int \<Rightarrow> 32 word option"
  nonblock :: "int set"
  shown :: "(int \<times> nat \<times> byte list) list"
  closes :: "int list"

definition setnonblocking :: "int \<Rightarrow> server \<Rightarrow> server" where
  "setnonblocking fd s = (if socks s fd \<noteq> None then s\<lparr>nonblock := insert fd (nonblock s)\<rparr> else s)"

text \<open>The result of \<open>epoll_ctl\<close> is not looked at; it fails for a descriptor that is not open or is registered.\<close>

definition addfd :: "int \<Rightarrow> bool \<Rightarrow> server \<Rightarrow> server" where
  "addfd fd enable_et s = (let events = (if enable_et then EPOLLIN OR EPOLLET else EPOLLIN);
     s = (if socks s fd \<noteq> None \<and> registered s fd = None then s\<lparr>registered := (registered s)(fd \<mapsto> events)\<rparr> else s)
   in setnonblocking fd s)"

datatype recv_result = Content "byte list" | Closed_by_peer | Again | Bad_descriptor

text \<open>\<open>recv\<close> on a non-blocking socket.\<close>

definition recv :: "int \<Rightarrow> nat \<Rightarrow> server \<Rightarrow> recv_result \<times> server" where
  "recv fd n s = (case socks s fd of None \<Rightarrow> (Bad_descriptor, s)
   | Some k \<Rightarrow> if arrived k = [] then (if hung_up k then Closed_by_peer else Again, s)
       else (Content (take n (arrived k)), s\<lparr>socks := (socks s)(fd \<mapsto> k\<lparr>arrived := drop n (arrived k)\<rparr>)\<rparr>))"

definition close_fd :: "int \<Rightarrow> server \<Rightarrow> server" where
  "close_fd fd s = s\<lparr>socks := (socks s)(fd := None), registered := (registered s)(fd := None), closes := closes s @ [fd]\<rparr>"

text \<open>The buffer is cleared before every \<open>recv\<close>; \<open>printf\<close> shows the number of bytes and the text up to a NUL.\<close>

definition show_content :: "int \<Rightarrow> byte list \<Rightarrow> server \<Rightarrow> server" where
  "show_content fd bs s = s\<lparr>shown := shown s @ [(fd, length bs, str_of (overwrite (replicate BUFFER_SIZE 0) 0 bs))]\<rparr>"

definition accept_fd :: "int \<Rightarrow> sock \<Rightarrow> bool \<Rightarrow> server \<Rightarrow> server" where
  "accept_fd connfd k enable_et s = addfd connfd enable_et (if connfd = -1 then s else s\<lparr>socks := (socks s)(connfd \<mapsto> k)\<rparr>)"

definition lt_read :: "int \<Rightarrow> server \<Rightarrow> server" where
  "lt_read fd s = (case recv fd (BUFFER_SIZE - 1) s of
     (Content bs, s) \<Rightarrow> show_content fd bs s
   | (_, s) \<Rightarrow> close_fd fd s)"

lemma recv_cases:
  obtains "socks s fd = None" "recv fd n s = (Bad_descriptor, s)"
  | k where "socks s fd = Some k" "arrived k = []" "recv fd n s = (if hung_up k then Closed_by_peer else Again, s)"
  | k where "socks s fd = Some k" "arrived k \<noteq> []" "recv fd n s = (Content (take n (arrived k)), s\<lparr>socks := (socks s)(fd \<mapsto> k\<lparr>arrived := drop n (arrived k)\<rparr>)\<rparr>)"
  by (cases "socks s fd") (auto simp: recv_def split: if_splits)

definition unread :: "int \<Rightarrow> server \<Rightarrow> nat" where
  "unread fd s = (case socks s fd of None \<Rightarrow> 0 | Some k \<Rightarrow> length (arrived k) + 1)"

function et_read :: "int \<Rightarrow> server \<Rightarrow> server" where
  "et_read fd s = (case recv fd (BUFFER_SIZE - 1) s of
     (Content bs, s) \<Rightarrow> et_read fd (show_content fd bs s)
   | (Closed_by_peer, s) \<Rightarrow> et_read fd (close_fd fd s)
   | (Again, s) \<Rightarrow> s
   | (Bad_descriptor, s) \<Rightarrow> close_fd fd s)"
  by auto

termination
proof (relation "measure (\<lambda>(fd, s). unread fd s)")
  fix fd s r t bs
  assume "(r, t) = recv fd (BUFFER_SIZE - 1) s" "r = Content bs"
  then show "((fd, show_content fd bs t), fd, s) \<in> measure (\<lambda>(fd, s). unread fd s)"
    by (cases rule: recv_cases [of s fd "BUFFER_SIZE - 1"]) (auto simp: unread_def show_content_def BUFFER_SIZE_def split: if_splits)
next
  fix fd s r t
  assume "(r, t) = recv fd (BUFFER_SIZE - 1) s" "r = Closed_by_peer"
  then show "((fd, close_fd fd t), fd, s) \<in> measure (\<lambda>(fd, s). unread fd s)"
    by (cases rule: recv_cases [of s fd "BUFFER_SIZE - 1"]) (auto simp: unread_def close_fd_def split: if_splits)
qed simp

declare et_read.simps [simp del]

subsection \<open>The loops over the events\<close>

text \<open>An event has its descriptor and events, and what \<open>accept\<close> returns if it is for the listening socket.\<close>

type_synonym event = "int \<times> 32 word \<times> int \<times> sock"

definition handle_event :: "bool \<Rightarrow> (int \<Rightarrow> server \<Rightarrow> server) \<Rightarrow> int \<Rightarrow> event \<Rightarrow> server \<Rightarrow> server" where
  "handle_event enable_et rd listenfd e s = (case e of (sockfd, ev, connfd, k) \<Rightarrow>
     if sockfd = listenfd then accept_fd connfd k enable_et s
     else if ev AND EPOLLIN \<noteq> 0 then rd sockfd s else s)"

definition lt :: "event list \<Rightarrow> int \<Rightarrow> server \<Rightarrow> server" where
  "lt events listenfd s = fold (handle_event False lt_read listenfd) events s"

definition et :: "event list \<Rightarrow> int \<Rightarrow> server \<Rightarrow> server" where
  "et events listenfd s = fold (handle_event True et_read listenfd) events s"

subsection \<open>Both read the same\<close>

text \<open>A level-triggered descriptor is reported as long as there is something to read or the client has hung up.\<close>

definition readable :: "int \<Rightarrow> server \<Rightarrow> bool" where
  "readable fd s = (case socks s fd of None \<Rightarrow> False | Some k \<Rightarrow> arrived k \<noteq> [] \<or> hung_up k)"

lemma lt_read_unread: "readable fd s \<Longrightarrow> unread fd (lt_read fd s) < unread fd s"
  by (cases rule: recv_cases [of s fd "BUFFER_SIZE - 1"])
    (auto simp: unread_def lt_read_def show_content_def close_fd_def readable_def BUFFER_SIZE_def split: if_splits)

function lt_rounds :: "int \<Rightarrow> server \<Rightarrow> server" where
  "lt_rounds fd s = (if readable fd s then lt_rounds fd (lt_read fd s) else s)"
  by auto

termination by (relation "measure (\<lambda>(fd, s). unread fd s)") (simp_all add: lt_read_unread)

declare lt_rounds.simps [simp del]

lemma et_bad: "socks s fd = None \<Longrightarrow> et_read fd s = close_fd fd s"
  by (simp add: et_read.simps recv_def)

text \<open>
  C21. Level- and edge-triggered reading: the one call of \<open>et_read\<close> after an edge does what all the calls of \<open>lt_read\<close> together do for the levels, for whatever has
  arrived: it prints the same pieces in the same order and leaves the same sockets; but it closes a connection twice when the client has hung up.  The errors
  of \<open>recv\<close> are \<open>EAGAIN\<close> when there is nothing to read and \<open>EBADF\<close> for a closed descriptor.
\<close>

theorem lt_et_agree:
  assumes "socks s fd \<noteq> None"
  shows "et_read fd s = (let t = lt_rounds fd s in if socks t fd = None then close_fd fd t else t)"
  using assms
proof (induction fd s rule: lt_rounds.induct)
  case (1 fd s)
  obtain k where k: "socks s fd = Some k" using 1(2) by auto
  show ?case
  proof (cases "arrived k = []")
    case True
    have c: "socks (close_fd fd s) fd = None" by (simp add: close_fd_def)
    then have "lt_rounds fd (close_fd fd s) = close_fd fd s" by (simp add: lt_rounds.simps [of fd "close_fd fd s"] readable_def)
    then show ?thesis using k c True et_bad [OF c]
      by (simp add: et_read.simps [of fd s] lt_rounds.simps [of fd s] recv_def readable_def lt_read_def)
  next
    case False
    then have r: "readable fd s" using k by (simp add: readable_def)
    let ?t = "s\<lparr>socks := (socks s)(fd \<mapsto> k\<lparr>arrived := drop (BUFFER_SIZE - 1) (arrived k)\<rparr>)\<rparr>"
    have rc: "recv fd (BUFFER_SIZE - 1) s = (Content (take (BUFFER_SIZE - 1) (arrived k)), ?t)" using False k by (simp add: recv_def)
    have l: "lt_read fd s = show_content fd (take (BUFFER_SIZE - 1) (arrived k)) ?t" unfolding lt_read_def rc by simp
    have "et_read fd s = et_read fd (lt_read fd s)" unfolding et_read.simps [of fd s] rc l by simp
    moreover have "lt_rounds fd s = lt_rounds fd (lt_read fd s)" using r by (simp add: lt_rounds.simps [of fd s])
    moreover have "socks (lt_read fd s) fd \<noteq> None" unfolding l by (simp add: show_content_def)
    ultimately show ?thesis using 1(1) [OF r] by simp
  qed
qed

theorem lt_et_agree_witness:
  "\<exists>s. arrived (the (socks s 5)) = replicate 12 97 \<and> shown (et_read 5 s) = [(5, 9, replicate 9 97), (5, 3, replicate 3 97)] \<and>
     shown (lt_rounds 5 s) = shown (et_read 5 s) \<and> closes (lt_rounds 5 s) = [5] \<and> closes (et_read 5 s) = [5, 5]"
proof -
  let ?s = "\<lparr>socks = [5 \<mapsto> \<lparr>arrived = replicate 12 97, hung_up = True\<rparr>], registered = Map.empty, nonblock = {}, shown = [], closes = []\<rparr>"
  have r: "replicate 12 x = [x, x, x, x, x, x, x, x, x, x, x, x]" "replicate 10 x = [x, x, x, x, x, x, x, x, x, x]"
    "replicate 9 x = [x, x, x, x, x, x, x, x, x]" "replicate 3 x = [x, x, x]" for x :: byte by (simp_all add: eval_nat_numeral)
  have "lt_rounds 5 ?s = \<lparr>socks = Map.empty, registered = Map.empty, nonblock = {}, shown = [(5, 9, replicate 9 97), (5, 3, replicate 3 97)], closes = [5]\<rparr>"
    by (simp add: lt_rounds.simps readable_def lt_read_def recv_def show_content_def close_fd_def BUFFER_SIZE_def overwrite_def str_of_def r)
  then show ?thesis using lt_et_agree [of ?s 5] by (intro exI [of _ ?s]) (simp add: Let_def close_fd_def)
qed

end
