(* ===== verification/Unified_Events.thy ===== *)
theory Unified_Events
  imports Prelude
begin

text \<open>
  The server \<open>network-programming/youshuang/10-1unievent.cpp\<close>, which turns signals into events: the handler sends the number of the signal
  through a pipe, whose other end is in the epoll set, edge-triggered.  The state has the bytes in the pipe and whether there is an
  edge that \<open>epoll_wait\<close> has not reported yet; \<open>cap\<close> is the capacity of the pipe.  A run is a list of signals and of rounds of the loop.
\<close>

definition SIGHUP :: byte where "SIGHUP = 1"
definition SIGINT :: byte where "SIGINT = 2"
definition SIGTERM :: byte where "SIGTERM = 15"
definition SIGCHLD :: byte where "SIGCHLD = 17"

record loop_state =
  pipefd :: "byte list"
  edge :: bool
  watched_fds :: "int set"
  nonblock :: "int set"
  stop_server :: bool

text \<open>The end of the pipe the handler writes to does not block, and the result of \<open>send\<close> is not looked at.\<close>

definition sig_handler :: "nat \<Rightarrow> byte \<Rightarrow> loop_state \<Rightarrow> loop_state" where
  "sig_handler cap sig s = (if length (pipefd s) < cap then s\<lparr>pipefd := pipefd s @ [sig], edge := True\<rparr> else s)"

definition addfd :: "int \<Rightarrow> loop_state \<Rightarrow> loop_state" where
  "addfd fd s = (if fd = -1 then s else s\<lparr>watched_fds := insert fd (watched_fds s), nonblock := insert fd (nonblock s)\<rparr>)"

text \<open>The listening socket and the reading end of the pipe.\<close>

definition loop_start :: "int \<Rightarrow> int \<Rightarrow> loop_state" where
  "loop_start listenfd pipe0 = addfd pipe0 (addfd listenfd \<lparr>pipefd = [], edge = False, watched_fds = {}, nonblock = {}, stop_server = False\<rparr>)"

fun signal_loop :: "byte list \<Rightarrow> bool \<Rightarrow> bool" where
  "signal_loop [] stop = stop"
| "signal_loop (sig # sigs) stop =
     (if sig = SIGCHLD \<or> sig = SIGHUP then signal_loop sigs stop
      else if sig = SIGTERM \<or> sig = SIGINT then signal_loop sigs True
      else signal_loop sigs stop)"

text \<open>One \<open>recv\<close> of at most 1024 bytes; an empty pipe makes it fail.\<close>

definition on_pipe :: "loop_state \<Rightarrow> loop_state" where
  "on_pipe s = (let signals = take 1024 (pipefd s) in
     if signals = [] then s else s\<lparr>pipefd := drop 1024 (pipefd s), stop_server := signal_loop signals (stop_server s)\<rparr>)"

text \<open>What can be reported: a connection with the result of \<open>accept\<close>, the pipe, or another descriptor, which nobody reads.\<close>

datatype event = Listening int | Pipe | Connection int

fun handle_one :: "event \<Rightarrow> loop_state \<Rightarrow> loop_state" where
  "handle_one (Listening connfd) s = addfd connfd s"
| "handle_one Pipe s = on_pipe s"
| "handle_one (Connection fd) s = s"

text \<open>A round of the loop; the pipe is reported at most once, and only after an edge.  After \<open>epoll_wait\<close> has been interrupted there are no events.\<close>

definition loop_round :: "event list \<Rightarrow> loop_state \<Rightarrow> loop_state option" where
  "loop_round evs s = (if \<not> stop_server s \<and> count_list evs Pipe \<le> (if edge s then 1 else 0)
     then Some (fold handle_one evs (if Pipe \<in> set evs then s\<lparr>edge := False\<rparr> else s)) else None)"

datatype happening = Signal byte | Round "event list"

fun happen :: "nat \<Rightarrow> happening \<Rightarrow> loop_state \<Rightarrow> loop_state option" where
  "happen cap (Signal sig) s = Some (sig_handler cap sig s)"
| "happen cap (Round evs) s = loop_round evs s"

abbreviation happens :: "nat \<Rightarrow> happening list \<Rightarrow> loop_state \<Rightarrow> loop_state option" where
  "happens cap \<equiv> run_actions (happen cap)"

subsection \<open>Signals are not lost\<close>

definition ending :: "byte \<Rightarrow> bool" where
  "ending sig \<longleftrightarrow> sig = SIGTERM \<or> sig = SIGINT"

fun signals_of :: "happening list \<Rightarrow> byte list" where
  "signals_of [] = []"
| "signals_of (Signal sig # hs) = sig # signals_of hs"
| "signals_of (Round evs # hs) = signals_of hs"

text \<open>There are at most \<open>lim\<close> signals between two rounds that read the pipe.\<close>

fun few_signals :: "nat \<Rightarrow> nat \<Rightarrow> happening list \<Rightarrow> bool" where
  "few_signals lim n [] \<longleftrightarrow> True"
| "few_signals lim n (Signal sig # hs) \<longleftrightarrow> n < lim \<and> few_signals lim (n + 1) hs"
| "few_signals lim n (Round evs # hs) \<longleftrightarrow> few_signals lim (if Pipe \<in> set evs then 0 else n) hs"

lemma signal_loop_eq: "signal_loop sigs stop \<longleftrightarrow> stop \<or> (\<exists>sig \<in> set sigs. ending sig)"
  by (induction sigs arbitrary: stop) (auto simp: ending_def SIGCHLD_def SIGHUP_def SIGTERM_def SIGINT_def)

text \<open>The pipe is short enough for one \<open>recv\<close>, and an edge is pending when it has something.\<close>

definition pipe_ok :: "nat \<Rightarrow> loop_state \<Rightarrow> bool" where
  "pipe_ok n s \<longleftrightarrow> length (pipefd s) = n \<and> n \<le> 1024 \<and> (pipefd s \<noteq> [] \<longrightarrow> edge s)"

definition told :: "loop_state \<Rightarrow> bool" where
  "told s \<longleftrightarrow> stop_server s \<or> (\<exists>sig \<in> set (pipefd s). ending sig)"

lemma handle_no_pipe: "e \<noteq> Pipe \<Longrightarrow> pipefd (handle_one e s) = pipefd s \<and> edge (handle_one e s) = edge s \<and> stop_server (handle_one e s) = stop_server s"
  by (cases e) (simp_all add: addfd_def)

lemma fold_no_pipe:
  "Pipe \<notin> set evs \<Longrightarrow> pipefd (fold handle_one evs s) = pipefd s \<and> edge (fold handle_one evs s) = edge s \<and> stop_server (fold handle_one evs s) = stop_server s"
proof (induction evs arbitrary: s)
  case (Cons e evs)
  then show ?case using handle_no_pipe [of e s] by auto
qed simp

text \<open>A round that reports the pipe empties it and sees all signals in it.\<close>

lemma round_pipe:
  assumes "loop_round evs s = Some t" "pipe_ok n s" "Pipe \<in> set evs"
  shows "pipefd t = []" "stop_server t \<longleftrightarrow> told s"
proof -
  obtain as bs where e: "evs = as @ Pipe # bs" "Pipe \<notin> set as" using split_list_first [OF assms(3)] by blast
  then have b: "Pipe \<notin> set bs" using assms(1) by (auto simp: loop_round_def count_list_0_iff split: if_splits)
  let ?u = "fold handle_one as (s\<lparr>edge := False\<rparr>)"
  have u: "pipefd ?u = pipefd s" "stop_server ?u = stop_server s" using fold_no_pipe [OF e(2), of "s\<lparr>edge := False\<rparr>"] by simp_all
  have "t = fold handle_one bs (on_pipe ?u)" using assms(1,3) e(1) by (simp add: loop_round_def split: if_splits)
  then have t: "pipefd t = pipefd (on_pipe ?u)" "stop_server t = stop_server (on_pipe ?u)" using fold_no_pipe [OF b, of "on_pipe ?u"] by simp_all
  have l: "length (pipefd s) \<le> 1024" using assms(2) by (simp add: pipe_ok_def)
  show "pipefd t = []" using l u unfolding t by (simp add: on_pipe_def Let_def)
  show "stop_server t \<longleftrightarrow> told s" using l u unfolding t by (auto simp: on_pipe_def Let_def signal_loop_eq told_def)
qed

lemma round_no_pipe:
  assumes "loop_round evs s = Some t" "Pipe \<notin> set evs"
  shows "pipefd t = pipefd s" "edge t = edge s" "stop_server t = stop_server s"
  using assms fold_no_pipe [OF assms(2), of s] by (simp_all add: loop_round_def split: if_splits)

lemma happens_ok:
  assumes "lim \<le> cap" "lim \<le> 1024"
  shows "happens cap hs s = Some t \<Longrightarrow> pipe_ok n s \<Longrightarrow> few_signals lim n hs \<Longrightarrow>
    \<exists>m. pipe_ok m t \<and> (told t \<longleftrightarrow> told s \<or> (\<exists>sig \<in> set (signals_of hs). ending sig))"
proof (induction hs arbitrary: s n)
  case (Cons h hs)
  obtain u where u: "happen cap h s = Some u" "happens cap hs u = Some t" using Cons.prems(1) by (auto split: Option.bind_splits)
  show ?case
  proof (cases h)
    case (Signal sig)
    then have "u = s\<lparr>pipefd := pipefd s @ [sig], edge := True\<rparr>" "n < lim" "few_signals lim (n + 1) hs"
      using u(1) Cons.prems(2,3) assms by (auto simp: sig_handler_def pipe_ok_def)
    then have "pipe_ok (n + 1) u" "told u \<longleftrightarrow> told s \<or> ending sig" "few_signals lim (n + 1) hs" using Cons.prems(2) assms(2) by (auto simp: pipe_ok_def told_def)
    then show ?thesis using Cons.IH [OF u(2), of "n + 1"] Signal by auto
  next
    case (Round evs)
    then have r: "loop_round evs s = Some u" using u(1) by simp
    show ?thesis
    proof (cases "Pipe \<in> set evs")
      case True
      then have "pipe_ok 0 u" "told u \<longleftrightarrow> told s" using round_pipe [OF r Cons.prems(2) True] by (auto simp: pipe_ok_def told_def)
      then show ?thesis using Cons.IH [OF u(2), of 0] Cons.prems(3) Round True by simp
    next
      case False
      then have "pipe_ok n u" "told u \<longleftrightarrow> told s" using round_no_pipe [OF r False] Cons.prems(2) by (auto simp: pipe_ok_def told_def)
      then show ?thesis using Cons.IH [OF u(2), of n] Cons.prems(3) Round False by simp
    qed
  qed
qed auto

text \<open>
  C20. Unified events: let the socket pair hold \<open>cap\<close> one-byte messages (a few hundred by default for the Unix sockets of Linux; when it is full,
  \<open>send\<close> fails, the handler does not look, and the signal is lost).  As long as at most \<open>cap\<close>, and at most 1024, what one \<open>recv\<close> reads, signals
  arrive between two rounds that read the pipe, the server stops because of SIGTERM or SIGINT and of nothing else, and soon: if one has
  arrived and the server has not stopped, then there is an edge to be reported, and the round that reports the pipe is the last one.
  Signals arrive between the rounds.
\<close>

theorem ending_signal_stops:
  assumes "few_signals (min cap 1024) 0 hs" "happens cap hs (loop_start listenfd pipe0) = Some s"
  shows "if \<exists>sig \<in> set (signals_of hs). ending sig
    then stop_server s \<or> edge s \<and> (\<forall>evs t. Pipe \<in> set evs \<and> loop_round evs s = Some t \<longrightarrow> stop_server t)
    else \<not> stop_server s"
proof -
  have "pipe_ok 0 (loop_start listenfd pipe0)" "\<not> told (loop_start listenfd pipe0)" by (simp_all add: pipe_ok_def told_def loop_start_def addfd_def)
  then obtain m where m: "pipe_ok m s" "told s \<longleftrightarrow> (\<exists>sig \<in> set (signals_of hs). ending sig)"
    using happens_ok [OF _ _ assms(2) _ assms(1)] by auto
  have "edge s" if "told s" "\<not> stop_server s" using that m(1) by (auto simp: told_def pipe_ok_def)
  moreover have "stop_server t" if "told s" "Pipe \<in> set evs" "loop_round evs s = Some t" for evs t using round_pipe(2) [OF that(3) m(1) that(2)] that(1) by simp
  moreover have "\<not> stop_server s" if "\<not> told s" using that by (simp add: told_def)
  ultimately show ?thesis using m(2) by auto
qed

theorem ending_signal_stops_witness:
  "\<exists>s t. happens 2 [Signal SIGCHLD, Signal SIGTERM, Round [Listening 7]] (loop_start 3 4) = Some s \<and> \<not> stop_server s \<and> edge s \<and>
     loop_round [Pipe] s = Some t \<and> stop_server t"
proof -
  let ?hs = "[Signal SIGCHLD, Signal SIGTERM, Round [Listening 7]]"
  obtain s where s: "happens 2 ?hs (loop_start 3 4) = Some s" "\<not> stop_server s"
    by (simp add: loop_round_def sig_handler_def loop_start_def addfd_def)
  have "few_signals (min 2 1024) 0 ?hs" "\<exists>sig \<in> set (signals_of ?hs). ending sig" by (simp_all add: ending_def)
  then have e: "edge s" "\<And>evs t. Pipe \<in> set evs \<Longrightarrow> loop_round evs s = Some t \<Longrightarrow> stop_server t"
    using ending_signal_stops [of 2 ?hs 3 4 s] s by auto
  obtain t where "loop_round [Pipe] s = Some t" using s(2) e(1) by (simp add: loop_round_def)
  then show ?thesis using s e(1) e(2) [of "[Pipe]" t] by auto
qed

text \<open>More signals than one \<open>recv\<close> reads: the rest stays in the pipe without an edge, and no round reports it until another signal arrives.\<close>

lemma ending_signal_stuck:
  assumes "pipefd s = replicate 1024 SIGCHLD @ [SIGTERM]" "edge s" "\<not> stop_server s"
  shows "\<exists>t. loop_round [Pipe] s = Some t \<and> pipefd t = [SIGTERM] \<and> \<not> stop_server t \<and> \<not> edge t \<and> (\<forall>evs. Pipe \<in> set evs \<longrightarrow> loop_round evs t = None)"
proof -
  have "\<not> signal_loop (replicate 1024 SIGCHLD) False" by (simp add: signal_loop_eq ending_def SIGCHLD_def SIGTERM_def SIGINT_def)
  then have "loop_round [Pipe] s = Some (s\<lparr>edge := False, pipefd := [SIGTERM], stop_server := False\<rparr>)"
    using assms by (simp add: loop_round_def on_pipe_def)
  moreover have "loop_round evs t = None" if "Pipe \<in> set evs" "\<not> edge t" for evs t
  proof -
    have "count_list evs Pipe \<noteq> 0" using that(1) by (simp add: count_list_0_iff)
    then show ?thesis using that(2) by (simp add: loop_round_def)
  qed
  ultimately show ?thesis by auto
qed

end
