(* ===== verification/Fill_Buffer.thy ===== *)
theory Fill_Buffer
  imports Prelude
begin

text \<open>
  The server \<open>network-programming/deeper-understanding-epoll/EPOLLOUT_server_fill-buffer-zone.c\<close>, which sends a message of one megabyte until the
  buffer of the socket is full and goes on when it is writable again.  The count \<open>hasSend\<close> of bytes already sent is one variable
  for all connections, and is not initialised: its first value is an argument.  What \<open>send\<close> does is given by a list of
  results; \<open>None\<close> is an access outside the message.
\<close>

definition MAXBUF :: int where "MAXBUF = 1024 * 1024"

definition sndMsg :: "byte list" where "sndMsg = 1 # replicate (nat MAXBUF - 1) 0"

record sender =
  hasSend :: int
  conns :: "int set"
  delivered :: "(int \<times> byte list) list"
  exited :: bool

definition sender_start :: "int \<Rightarrow> sender" where
  "sender_start garbage = \<lparr>hasSend = garbage, conns = {}, delivered = [], exited = False\<rparr>"

text \<open>A \<open>send\<close> takes some of the bytes, at least one, or finds the buffer full, or fails.  With nothing to send it returns 0.\<close>

datatype send_result = Sent nat | Full | Failed

datatype sent_outcome = Length nat | Eagain | Error

definition send_rest :: "int \<Rightarrow> send_result \<Rightarrow> sender \<Rightarrow> (sent_outcome \<times> sender) option" where
  "send_rest fd r s = (if 0 \<le> hasSend s \<and> hasSend s \<le> MAXBUF then
     let rest = drop (nat (hasSend s)) sndMsg in
     Some (case r of
        Full \<Rightarrow> (Eagain, s)
      | Failed \<Rightarrow> (Error, s)
      | Sent k \<Rightarrow> let bs = take (max 1 k) rest in (Length (length bs), s\<lparr>delivered := delivered s @ [(fd, bs)]\<rparr>))
   else None)"

text \<open>An event for both directions: one \<open>send\<close>, and the program ends when it returns 0.\<close>

definition on_both :: "int \<Rightarrow> send_result \<Rightarrow> sender \<Rightarrow> sender option" where
  "on_both fd r s = do {
     (len, s) \<leftarrow> send_rest fd r s;
     Some (case len of
        Length n \<Rightarrow> if n > 0 then s\<lparr>hasSend := hasSend s + int n\<rparr> else s\<lparr>exited := True\<rparr>
      | _ \<Rightarrow> s)
   }"

text \<open>An event for writing: sending until the buffer is full; an error other than \<open>EAGAIN\<close> is tried again.  A socket of which nothing
  more is known has a full buffer.\<close>

fun on_writable :: "int \<Rightarrow> send_result list \<Rightarrow> sender \<Rightarrow> sender option" where
  "on_writable fd [] s = Some s"
| "on_writable fd (r # rs) s = do {
     (len, s) \<leftarrow> send_rest fd r s;
     (case len of
        Length n \<Rightarrow> if n > 0 then on_writable fd rs (s\<lparr>hasSend := hasSend s + int n\<rparr>) else Some (s\<lparr>exited := True\<rparr>)
      | Eagain \<Rightarrow> Some s
      | Error \<Rightarrow> on_writable fd rs s)
   }"

text \<open>The events: connections that are accepted until \<open>accept\<close> fails, and what a connection is ready for.\<close>

datatype event = Accept "int list" | In_and_out int send_result | Only_in int | Only_out int "send_result list"

fun on_event :: "event \<Rightarrow> sender \<Rightarrow> sender option" where
  "on_event (Accept fds) s = Some (s\<lparr>conns := conns s \<union> set (takeWhile (\<lambda>fd. fd > 0) fds)\<rparr>)"
| "on_event (In_and_out fd r) s = on_both fd r s"
| "on_event (Only_in fd) s = Some s"
| "on_event (Only_out fd rs) s = on_writable fd rs s"

fun on_events :: "event list \<Rightarrow> sender \<Rightarrow> sender option" where
  "on_events [] s = Some s"
| "on_events (e # es) s = (if exited s then Some s else do { s \<leftarrow> on_event e s; on_events es s })"

subsection \<open>What is sent\<close>

lemma length_sndMsg: "length sndMsg = nat MAXBUF"
  by (simp add: sndMsg_def MAXBUF_def)

text \<open>What has been sent to all connections together is the message up to the count.\<close>

definition sent_ok :: "sender \<Rightarrow> bool" where
  "sent_ok s \<longleftrightarrow> 0 \<le> hasSend s \<and> hasSend s \<le> MAXBUF \<and> concat (map snd (delivered s)) = take (nat (hasSend s)) sndMsg \<and>
     (exited s \<longrightarrow> hasSend s = MAXBUF)"

lemma send_rest_ok:
  assumes "sent_ok s" "\<not> exited s"
  obtains "r = Full" "send_rest fd r s = Some (Eagain, s)"
  | "r = Failed" "send_rest fd r s = Some (Error, s)"
  | n t where "send_rest fd r s = Some (Length n, t)" "0 < n" "sent_ok (t\<lparr>hasSend := hasSend t + int n\<rparr>)" "\<not> exited t"
  | t where "send_rest fd r s = Some (Length 0, t)" "sent_ok (t\<lparr>exited := True\<rparr>)"
proof (cases r)
  case (Sent k)
  have h: "0 \<le> hasSend s" "hasSend s \<le> MAXBUF" using assms(1) by (simp_all add: sent_ok_def)
  let ?i = "nat (hasSend s)"
  let ?bs = "take (max 1 k) (drop ?i sndMsg)"
  let ?t = "s\<lparr>delivered := delivered s @ [(fd, ?bs)]\<rparr>"
  have r: "send_rest fd r s = Some (Length (length ?bs), ?t)" using h Sent by (simp add: send_rest_def Let_def)
  have len: "length ?bs = min (max 1 k) (nat MAXBUF - ?i)" by (simp add: length_sndMsg min.commute)
  show ?thesis
  proof (cases "hasSend s = MAXBUF")
    case True
    then have "?bs = []" by (simp add: length_sndMsg)
    then have "sent_ok (?t\<lparr>exited := True\<rparr>)" using assms(1) True by (simp add: sent_ok_def)
    then show ?thesis using that(4) [of ?t] r \<open>?bs = []\<close> by simp
  next
    case False
    have left: "0 < nat MAXBUF - ?i" "int (nat MAXBUF - ?i) = MAXBUF - hasSend s" using h False by simp_all
    have "length ?bs \<le> nat MAXBUF - ?i" unfolding len by simp
    then have p: "0 < length ?bs" "int (length ?bs) \<le> MAXBUF - hasSend s" using left unfolding len by simp_all
    have "take (?i + length ?bs) sndMsg = take ?i sndMsg @ ?bs" by (auto simp: take_add min_def)
    moreover have "nat (hasSend s + int (length ?bs)) = ?i + length ?bs" using h(1) by (simp add: nat_add_distrib)
    ultimately have "sent_ok (?t\<lparr>hasSend := hasSend ?t + int (length ?bs)\<rparr>)" using assms h p by (simp add: sent_ok_def del: length_take length_drop)
    then show ?thesis using that(3) [OF r p(1)] assms(2) by simp
  qed
qed (use assms that(1,2) in \<open>auto simp: send_rest_def sent_ok_def\<close>)

lemma on_both_ok: "sent_ok s \<Longrightarrow> \<not> exited s \<Longrightarrow> \<exists>t. on_both fd r s = Some t \<and> sent_ok t"
  by (cases rule: send_rest_ok [of s r fd]) (auto simp: on_both_def)

lemma on_writable_ok: "sent_ok s \<Longrightarrow> \<not> exited s \<Longrightarrow> \<exists>t. on_writable fd rs s = Some t \<and> sent_ok t"
proof (induction rs arbitrary: s)
  case (Cons r rs)
  show ?case
  proof (cases rule: send_rest_ok [OF Cons.prems, of r fd])
    case (3 n t)
    then show ?thesis using Cons.IH [of "t\<lparr>hasSend := hasSend t + int n\<rparr>"] by simp
  qed (use Cons in auto)
qed simp

lemma on_event_ok: "sent_ok s \<Longrightarrow> \<not> exited s \<Longrightarrow> \<exists>t. on_event e s = Some t \<and> sent_ok t"
  using on_both_ok on_writable_ok by (cases e) (auto simp: sent_ok_def)

lemma on_events_ok: "sent_ok s \<Longrightarrow> \<exists>t. on_events es s = Some t \<and> sent_ok t"
proof (induction es arbitrary: s)
  case (Cons e es)
  show ?case
  proof (cases "exited s")
    case True
    then show ?thesis using Cons.prems by simp
  next
    case False
    then obtain t where "on_event e s = Some t" "sent_ok t" using on_event_ok Cons.prems by blast
    then show ?thesis using Cons.IH False by simp
  qed
qed simp

text \<open>
  Sending until the buffer is full: when the uninitialised count happens to be 0, then whatever connections arrive and however
  much each \<open>send\<close> takes, the program never reads outside the message, and all that is sent, to all connections together, is the message
  once up to the count; the program ends only when the whole message is sent.
\<close>

theorem message_sent_once:
  "\<exists>s. on_events es (sender_start 0) = Some s \<and> 0 \<le> hasSend s \<and> hasSend s \<le> MAXBUF \<and>
     concat (map snd (delivered s)) = take (nat (hasSend s)) sndMsg \<and> (exited s \<longrightarrow> hasSend s = MAXBUF)"
proof -
  have "sent_ok (sender_start 0)" by (simp add: sent_ok_def sender_start_def MAXBUF_def)
  then show ?thesis using on_events_ok [of "sender_start 0" es] by (auto simp: sent_ok_def)
qed

theorem message_sent_once_witness:
  "\<exists>s. on_events [Accept [5, 6, -1], Only_out 5 [Sent 2, Full], Only_out 6 [Sent 1, Full]] (sender_start 0) = Some s \<and>
     delivered s = [(5, [1, 0]), (6, [0])] \<and> concat (map snd (delivered s)) = take 3 sndMsg"
proof -
  let ?es = "[Accept [5, 6, -1], Only_out 5 [Sent 2, Full], Only_out 6 [Sent 1, Full]]"
  have "sndMsg = 1 # 0 # 0 # replicate (nat MAXBUF - 3) 0" by (simp add: sndMsg_def MAXBUF_def flip: replicate_Suc)
  then obtain n where m: "sndMsg = 1 # 0 # 0 # replicate n 0" by blast
  obtain s where s: "on_events ?es (sender_start 0) = Some s" "concat (map snd (delivered s)) = take (nat (hasSend s)) sndMsg"
    using message_sent_once [of ?es] by blast
  moreover have "delivered s = [(5, [1, 0]), (6, [0])]" "hasSend s = 3"
    using s(1) by (auto simp: send_rest_def sender_start_def MAXBUF_def Let_def m)
  ultimately show ?thesis by simp
qed

text \<open>With another first value the message is read outside its bounds, or its beginning is never sent.\<close>

lemma garbage_count: "g < 0 \<or> MAXBUF < g \<Longrightarrow> on_events [Only_out fd (r # rs)] (sender_start g) = None"
  by (auto simp: send_rest_def sender_start_def)

end
