(* ===== verification/Ws_Users.thy ===== *)
theory Ws_Users
  imports Conn_Pool Ws_Log
begin

text \<open>
  The part of \<open>c-plus-plus-server/webserver/http/http_conn.cpp\<close> that has a body of its own: \<open>initmysql_result\<close> reads the table of users through a connection
  of the pool, and reports a failed query with the macro \<open>LOG_ERROR\<close> of \<open>log/log.h\<close>.  The answer of the database is a parameter.  \<open>None\<close> is
  a call with a null pointer or an uncaught exception.
\<close>

subsection \<open>The macros of the log\<close>

text \<open>The files of the model are what has been written to the streams, so \<open>fflush\<close> changes nothing; with a null pointer it flushes all streams.\<close>

definition log_flush :: "log \<Rightarrow> log option" where
  "log_flush l = Some l"

definition LOG_level :: "int \<Rightarrow> int \<Rightarrow> (byte list \<Rightarrow> bool) \<Rightarrow> tm \<Rightarrow> nat \<Rightarrow> byte list \<Rightarrow> log \<Rightarrow> log option" where
  "LOG_level level close_log can_open my_tm usec msg l =
     (if close_log = 0 then do { l \<leftarrow> write_log can_open my_tm usec level msg l; log_flush l } else Some l)"

text \<open>The destructor closes the file.\<close>

definition log_delete :: "log \<Rightarrow> log" where
  "log_delete l = (if m_fp l \<noteq> None then l\<lparr>m_fp := None\<rparr> else l)"

subsection \<open>The users\<close>

type_synonym row = "byte list option \<times> byte list option"

text \<open>\<open>string temp1(row[0])\<close> throws for a null field; a later row for the same name replaces the earlier one.\<close>

fun fetch_rows :: "row list \<Rightarrow> (byte list \<Rightarrow> byte list option) \<Rightarrow> (byte list \<Rightarrow> byte list option) option" where
  "fetch_rows [] users = Some users"
| "fetch_rows ((r0, r1) # rows) users = do { temp1 \<leftarrow> r0; temp2 \<leftarrow> r1; fetch_rows rows (users(temp1 \<mapsto> temp2)) }"

text \<open>The answer: the message of an error if the query fails, and the result set, null when there is none.\<close>

record answer =
  error_of :: "byte list option"
  result_set :: "row list option"

definition initmysql_result :: "(nat \<Rightarrow> answer) \<Rightarrow> int \<Rightarrow> (byte list \<Rightarrow> bool) \<Rightarrow> tm \<Rightarrow> nat \<Rightarrow> connection_pool \<Rightarrow> (byte list \<Rightarrow> byte list option) \<Rightarrow> log \<Rightarrow>
    ((byte list \<Rightarrow> byte list option) \<times> connection_pool \<times> log) outcome option" where
  "initmysql_result db close_log can_open my_tm usec p users l = do {
     r \<leftarrow> GetConnection p;
     case r of Blocked \<Rightarrow> Some Blocked
     | Done (c, p) \<Rightarrow> do {
         con \<leftarrow> c;
         l \<leftarrow> (case error_of (db con) of None \<Rightarrow> Some l | Some msg \<Rightarrow> LOG_level 3 close_log can_open my_tm usec (bytes ''SELECT error:'' @ msg @ [10]) l);
         rows \<leftarrow> result_set (db con);
         users \<leftarrow> fetch_rows rows users;
         Some (Done (users, snd (ReleaseConnection p c), l))
       }
   }"

subsection \<open>Properties\<close>

lemma fetch_rows_eq:
  "fetch_rows (map (\<lambda>(u, p). (Some u, Some p)) ups) users = Some (users ++ map_of (rev ups))"
proof (induction ups arbitrary: users)
  case (Cons a ups)
  then show ?case by (cases a) (simp add: map_add_def fun_eq_iff split: option.splits)
qed simp

text \<open>
  Web server: reading the users.  With a free connection and an answer without null fields the table of users gets the password of the last
  row for every name, keeps the others, and the connection goes back to the end of the list with all counters as before.
\<close>

theorem users_loaded:
  assumes "connList p = con # cs" "0 < reserve p" "db con = \<lparr>error_of = None, result_set = Some (map (\<lambda>(u, p). (Some u, Some p)) ups)\<rparr>"
  shows "initmysql_result db close_log can_open my_tm usec p users l = Some (Done (users ++ map_of (rev ups), p\<lparr>connList := cs @ [con]\<rparr>, l))"
  using assms by (simp add: initmysql_result_def GetConnection_def get_take_def ReleaseConnection_def release_put_def fetch_rows_eq Let_def)

theorem users_loaded_witness:
  "\<exists>t. initmysql_result (\<lambda>_. \<lparr>error_of = None, result_set = Some [(Some [97], Some [49]), (Some [97], Some [50])]\<rparr>) 0 (\<lambda>_. True) example_day 0
     (pool_new\<lparr>connList := [7, 8], reserve := 2\<rparr>) Map.empty (log_new (\<lambda>_. [])) = Some (Done t) \<and>
     fst t [97] = Some [50] \<and> connList (fst (snd t)) = [8, 7]"
  using users_loaded [of "pool_new\<lparr>connList := [7, 8], reserve := 2\<rparr>" 7 "[8]" "\<lambda>_. \<lparr>error_of = None, result_set = Some [(Some [97], Some [49]), (Some [97], Some [50])]\<rparr>"
      "[([97], [49]), ([97], [50])]" 0 "\<lambda>_. True" example_day 0 Map.empty "log_new (\<lambda>_. [])"]
  by simp

text \<open>Without a free connection the query is made with a null handle, and after a failed query the columns of a null result are counted.\<close>

lemma users_without_connection: "connList p = [] \<Longrightarrow> initmysql_result db close_log can_open my_tm usec p users l = None"
  by (simp add: initmysql_result_def GetConnection_def)

lemma users_failed_query:
  "connList p = con # cs \<Longrightarrow> 0 < reserve p \<Longrightarrow> result_set (db con) = None \<Longrightarrow> initmysql_result db close_log can_open my_tm usec p users l = None"
  by (auto simp: initmysql_result_def GetConnection_def get_take_def split: option.splits Option.bind_split)

text \<open>A closed log is left alone.\<close>

lemma closed_log: "close_log \<noteq> 0 \<Longrightarrow> LOG_level level close_log can_open my_tm usec msg l = Some l"
  by (simp add: LOG_level_def)

end
