(* ===== verification/Spec2Isabelle.thy ===== *)
theory Spec2Isabelle
  imports Sds_Edit Sds_Args Sds_Catfmt Pool2 Spin_Conc Http_Parser Block_Queue Ws_Timer Time_Heap Time_Wheel Conn_Pool Epoll_Http
    Uring_Copy Uring_Cat Chat_Thread Poll_Chat Shm_Chat Linked_Lists Idle_Server Ws_Log
    Event_Loop Oneshot Uring_Echo Mmap_Copy Counters Lt_Et Unified_Events Fill_Buffer Ws_Users
begin

text \<open>
  \<^bold>\<open>A verification development for a repository of C and C++ programs.\<close>

  The repository collects independent programs: a copy of the SDS string library, three thread pools, timer containers,
  parts of a web server, HTTP servers, chat and echo servers, programs on io\_uring, threads, and small data structures.  Each theory
  below models one of them from its source, and shows what makes it correct; where the code does not do what it means
  to do, a theorem says what it does instead.  The programs call each other in a few places only: the web server's log
  uses its queue, its users are read through the connection pool, the server for idle connections uses the timer list, the worker threads of the web server use
  the connection pool, and version 2 of the thread pool repeats version 1.  The theories follow these calls.

  \<^bold>\<open>How the code is modelled.\<close>  A struct or class is a record, an operation a function on it.  The result is an option
  whenever the code can leave what C defines: \<open>None\<close> is an access outside an array, through a null or dangling pointer, a
  division by zero, a failed assertion or an uncaught exception, so a theorem that an operation returns \<open>Some\<close> is a
  memory-safety theorem.  A loop is a recursive function: with a \<open>termination\<close> proof where a measure decreases, with
  \<open>partial_function (option)\<close> where it follows pointers, and then the theorems say that it returns for every well-formed
  structure.  No model uses fuel.  Code that runs concurrently, or beside a kernel, is an inductive step relation, and its
  invariants hold in all reachable states; or, where runs are compared or counted, a
  function that runs a list of actions, and the theorems are about every list.  Integers have their width where the code can come near it: \<open>size_t\<close> arithmetic in
  SDS is modulo \<open>2 ^ 64\<close>, ring indices of io\_uring are 32-bit words, flags are words; counters that cannot be exhausted are \<open>int\<close>
  or \<open>nat\<close>.  System calls, the allocator, the clock, the database and \<open>std::hash\<close> are parameters or choices of a step.

  \<^bold>\<open>Shared theories.\<close>
  \<^item> \<open>Prelude\<close>: bytes, \<open>size_t\<close>, overwriting part of a list, reachable states and the locale \<open>invariant_system\<close>, interpreted by every
    step relation of the development, and \<open>run_actions\<close>, the runs of a program as a list of actions, with its rule for invariants.
  \<^item> \<open>CMem\<close>: the memory of SDS, blocks of bytes with an allocator that may fail, and the functions of \<open>string.h\<close>.
  \<^item> \<open>C_Buffer\<close>: arrays of bytes with checked accesses, the strings in them, and decimal notation.
  \<^item> \<open>LL\<close>: doubly linked lists in a store of nodes, with the macros \<open>LL_ADD\<close> and \<open>LL_REMOVE\<close> of \<open>version1/threadpool.h\<close>.
  \<^item> \<open>Task_Pool\<close>: the locales \<open>task_pool\<close> (what is taken was put, each once) and \<open>fifo_pool\<close> (in order), one a sublocale of the
    other; interpreted by the pools, the ring buffer and the request queue.
  \<^item> \<open>Timer_Queue\<close>: the locale \<open>timer_queue\<close> (every timer runs once, at the first tick after its expiry), interpreted by the timer
    list, the list of the web server and the time heap; for the list and the heap whole runs are also shown to succeed.

  \<^bold>\<open>SDS strings\<close>, \<open>redis-learnning/sds\<close>.  \<open>Sds_Header\<close> has the five header layouts and the accessors of \<open>sds.h\<close> on bytes;
  \<open>Sds_Core\<close> creating, growing and appending; \<open>Sds_Resize\<close> the operations on length and allocation; \<open>Sds_Edit\<close> trimming, ranges, case and
  comparison; \<open>Sds_Num\<close> decimal notation; \<open>Sds_Append\<close> formatted appending through \<open>vsnprintf\<close>, with the locale \<open>appender\<close> for loops that append
  piece by piece; \<open>Sds_Repr\<close> quoting and joining; \<open>Sds_Split\<close> splitting at a separator; \<open>Sds_Args\<close> splitting a command
  line; \<open>Sds_Catfmt\<close> the small formatter.  Every function of \<open>sds.c\<close> is modelled.  The relation \<open>sds_holds h s bs\<close> says that the
  pointer \<open>s\<close> is a well-formed string with the bytes \<open>bs\<close>; the operations refine functions on \<open>bs\<close>, change no other block
  and leak none.  Quoting and splitting arguments, and printing and reading numbers, are round trips.

  \<^bold>\<open>Thread pools\<close>, \<open>system-programming/threadpool\<close>.  \<open>Pool1\<close> and \<open>Pool2\<close> have versions 1 and 2, the second with the whole program as a
  transition system of its threads: under every interleaving no number is lost or printed twice, and it can crash only
  while it destroys the pool.  \<open>Spin_Queue\<close> has the operations of the pool with a spin lock, \<open>Spin_Conc\<close> its queue under every
  interleaving of memory accesses: mutual exclusion, order, no dangling pointer, and a lost wake-up.

  \<^bold>\<open>Timers.\<close>  \<open>Timer_List\<close> (\<open>youshuang/timer/11-2lst_timer.h\<close>) refines a sorted list; \<open>Time_Heap\<close> (\<open>11-6time_heap.h\<close>) is a binary heap
  in an array, whose every run of additions, deletions and ticks succeeds, growth included, and does what a map of timers says;
  \<open>Time_Wheel\<close> (\<open>11-5tw_timer.h\<close>) a wheel of 60 slots; \<open>Idle_Server\<close> (\<open>11-3nonactive_conn.cpp\<close>) the event loop on top of the list, where every
  connection is tied to one timer and exactly the silent ones are closed.

  \<^bold>\<open>Web server\<close>, \<open>c-plus-plus-server/webserver\<close>.  \<open>Block_Queue\<close> (\<open>log/block_queue.h\<close>) is a bounded queue in a ring; \<open>Ws_Log\<close> (\<open>log/log.cpp\<close>) the
  log on it: how lines are spread over files, when a line leaves its buffer, and which lines overtake others; \<open>Ws_Users\<close>
  (\<open>http/http_conn.cpp\<close>) reads the users through the connection pool and logs a failed query; \<open>Ws_Timer\<close>
  (\<open>timer/lst_timer.cpp\<close>) the timers and the class \<open>Utils\<close>; \<open>Conn_Pool\<close> (\<open>CGImysql/sql_connection_pool.cpp\<close>, \<open>threadpool/threadpool.h\<close>) the database
  connections under every interleaving, and the request queue with its workers.

  \<^bold>\<open>HTTP.\<close>  \<open>Http_Parser\<close> (\<open>youshuang/8-3httpparser.cpp\<close>) is the state machine for requests, whose verdict does not depend on how the bytes
  arrive; \<open>Httpd\<close> (\<open>http/tinyhttpd/httpd.c\<close>) answers requests with files and CGI programs; \<open>Epoll_Http\<close> (\<open>http/epollhttpd/epoll.c\<close>) with files and
  directory listings, whose names it encodes without loss.

  \<^bold>\<open>Chat servers.\<close>  \<open>Chat_Thread\<close> (\<open>yinshengyu/chat_server.c\<close>), \<open>Poll_Chat\<close> (\<open>youshuang/9-7mytalk_server.cpp\<close>) and \<open>Shm_Chat\<close>
  (\<open>youshuang/13-4shm_talk_server.cpp\<close>): the tables of users stay consistent and inside their arrays under every sequence of events, and what
  goes wrong when a user leaves.

  \<^bold>\<open>Servers on epoll.\<close>  \<open>Echo_Days\<close> and \<open>Event_Loop\<close> (\<open>c-plus-plus-server/server-30\<close>, days 3 to 6) are four versions of one echo server, from one
  \<open>main\<close> to the classes \<open>Channel\<close>, \<open>EventLoop\<close> and \<open>Server\<close>: the locale \<open>echo_version\<close> says that a version implements the specification of a
  round, all four are interpretations of it and so do the same, and the untyped pointers that later versions keep in the kernel always lead to
  the right channel.  \<open>Oneshot\<close> (\<open>youshuang/9-4oneshot.cpp\<close>) starts a worker per event: when workers are alone with their connection, and why
  a connection is never served again once its worker has read all there is.  \<open>Lt_Et\<close> (\<open>9-3mtlt.cpp\<close>) compares level- and edge-triggered reading, \<open>Unified_Events\<close> (\<open>10-1unievent.cpp\<close>) turns signals
  into events, \<open>Fill_Buffer\<close> (\<open>deeper-understanding-epoll/EPOLLOUT_server_fill-buffer-zone.c\<close>) sends a message in pieces.

  \<^bold>\<open>Threads and processes.\<close>  \<open>Counters\<close> (\<open>yinshengyu/mutex.c\<close>, \<open>thread4.c\<close>, \<open>semaphore.c\<close>) has threads on a counter and on a hand-over, under every schedule;
  \<open>Mmap_Copy\<close> (\<open>system-programming/mmap\<close>) copies a file with five processes as one does.

  \<^bold>\<open>io\_uring.\<close>  \<open>Uring_Copy\<close> (\<open>liburing-learnning/io_uring-cp.c\<close>) copies a file beside a kernel that completes requests in any order, in part or
  with errors; \<open>Uring_Cat\<close> (\<open>use-io_uring-cat.c\<close>) works on the rings themselves, with indices that wrap around; \<open>Uring_Echo\<close>
  (\<open>tcp_server_iouring.c\<close>) keeps exactly one request for every connection, but writes for ever after the first message.

  \<^bold>\<open>Lists.\<close>  \<open>Linked_Lists\<close> has the lists of \<open>c-data-struct-learnning/linklist\<close> and \<open>c-plus-plus-basic/linklist\<close> and the dictionary of
  \<open>c-plus-plus-basic/dictionary\<close>, with the locale \<open>growing_list\<close> for the three.

  \<^bold>\<open>What the theorems assume.\<close>  Each text above a theorem names the cases it leaves out; those of the system are these.
  \<^item> Memory.  In SDS the allocator may fail at any call; the theorems about results assume that it does not, and
    \<open>sdsnewlen_oom\<close>, \<open>sdsMakeRoomFor_oom_new_type\<close> and \<open>sdsMakeRoomFor_oom_crash\<close> say what happens when it does.  In \<open>Pool2\<close> and
    \<open>Uring_Cat\<close> a failed allocation is a case of the model; in the other programs allocation succeeds (\<open>new\<close> throws, which ends them).  \<open>new\<close>
    and \<open>malloc\<close> return addresses not in use.
  \<^item> \<open>accept\<close>, \<open>fork\<close>.  A new descriptor is not open, a new process has a number that no child has.  Where the code uses them as an index
    without a test, the theorems say for which values it leaves the array: \<open>Idle_Server\<close> for -1 and from 65535 on, \<open>Shm_Chat\<close> for
    processes from 65536 on, which a kernel with a large \<open>pid_max\<close> may give; \<open>Poll_Chat\<close> assumes a descriptor inside its array.  The
    versions of the echo server are compared for reports with \<open>EPOLLIN\<close> and successful calls of \<open>accept\<close> only, as they test different fields.
  \<^item> Threads.  \<open>pthread_cond_wait\<close> does not return without a signal in \<open>Spin_Conc\<close>, \<open>sem_wait\<close> is not interrupted in \<open>Conn_Pool\<close>, whose
    \<open>DestroyPool\<close> is a function beside the step relation.  In \<open>Oneshot\<close> the runs in which a worker reads its argument at once are singled out; the
    theorem \<open>late_workers_share\<close> shows another.
  \<^item> Kernel.  \<open>recv\<close> fails with \<open>EAGAIN\<close> and \<open>EBADF\<close> only in \<open>Lt_Et\<close>.  The socket pair of \<open>Unified_Events\<close> holds \<open>cap\<close> one-byte messages, a parameter; signals
    arrive between the rounds of the loop.  In \<open>Uring_Cat\<close> one request names at most 1024 blocks (\<open>IOV_MAX\<close>): files up to 1 MiB are printed, and
    \<open>cat_large_file\<close> says what is printed for longer ones.  Clocks do not go back in \<open>Idle_Server\<close>.
  \<^item> Characters.  \<open>isalnum\<close>, \<open>isspace\<close> and \<open>isprint\<close> are those of the C locale; for a byte above 127, which the code passes as a negative
    \<open>char\<close>, they are false, as in the usual libraries, although C leaves it undefined.
  \<^item> Integers that count objects are unbounded where a program would need more than \<open>2 ^ 30\<close> objects to overflow (the time heap, the
    pools); \<open>*argc\<close> of \<open>sdssplitargs\<close> is checked against the range of \<open>int\<close>.

  \<^bold>\<open>Not modelled.\<close>  The remaining files are samples that make one system or library call after the other and keep no state
  of their own: blocking servers and clients, the first days of \<open>server-30\<close>, libevent, examples of processes, signals,
  pipes and temporary files, one-page examples of language features, and headers without code (\<open>kvstore\<close>, \<open>sylar\<close>).  Of the
  modelled programs the parts that open sockets, map memory or install signal handlers are left out, as are buffered output that is
  only flushed, and the fallback of \<open>spinlock.h\<close> on mutexes.
\<close>

end
